(* ===== verification/Prelude.thy ===== *)
theory Prelude
  imports Main "HOL-Library.Word" "HOL-Library.Monad_Syntax"
begin

text \<open>
  What every component of the development shares: the machine types, bit fields of packed
  C structs, a byte memory in which a C pointer is an address and an access outside the mapped
  addresses is a fault (the value None of the option monad), C strings in that memory, and the
  collections of simp rules that the component proofs use.
\<close>

unbundle bit_operations_syntax

section \<open>Machine types and rule collections\<close>

type_synonym u8 = "8 word"
type_synonym u16 = "16 word"
type_synonym u32 = "32 word"
type_synonym u64 = "64 word"

named_theorems bf_simps \<open>reading a bit field of an entry after another was written\<close>
named_theorems mem_simps \<open>loads, stores and byte runs of the memory\<close>

section \<open>Bit fields of packed structs\<close>

text \<open>
  A C bit field \<open>T f : len\<close> that starts at bit \<open>lo\<close> of a 64-bit entry. Assigning to it keeps
  the low \<open>len\<close> bits of the value and leaves every other bit of the entry alone.
\<close>

definition bf :: "nat \<Rightarrow> nat \<Rightarrow> u64 \<Rightarrow> u64" where
  "bf lo len x = take_bit len (drop_bit lo x)"

definition set_bf :: "nat \<Rightarrow> nat \<Rightarrow> u64 \<Rightarrow> u64 \<Rightarrow> u64" where
  "set_bf lo len v x = (x AND NOT (push_bit lo (mask len))) OR push_bit lo (take_bit len v)"

lemma bit_bf: "bit (bf lo len x) n \<longleftrightarrow> n < len \<and> bit x (lo + n)"
  by (auto simp: bf_def bit_take_bit_iff bit_drop_bit_eq)

lemma bit_set_bf:
  "bit (set_bf lo len v x) n \<longleftrightarrow>
     n < 64 \<and> (if lo \<le> n \<and> n < lo + len then bit v (n - lo) else bit x n)"
  by (auto simp: set_bf_def bit_simps dest: bit_imp_le_length)

lemma bf_set_bf_same [bf_simps]:
  "lo + len \<le> 64 \<Longrightarrow> bf lo len (set_bf lo len v x) = take_bit len v"
  by (rule bit_eqI) (auto simp: bit_bf bit_set_bf bit_take_bit_iff)

lemma bf_set_bf_other [bf_simps]:
  "lo + len \<le> lo' \<or> lo' + len' \<le> lo \<Longrightarrow> bf lo len (set_bf lo' len' v x) = bf lo len x"
  by (rule bit_eqI) (auto simp: bit_bf bit_set_bf dest: bit_imp_le_length)

lemma bf_inner_set_bf [bf_simps]:
  "lo' \<le> lo \<Longrightarrow> lo + len \<le> lo' + len' \<Longrightarrow> lo' + len' \<le> 64 \<Longrightarrow>
   bf lo len (set_bf lo' len' v x) = bf (lo - lo') len v"
  by (rule bit_eqI) (auto simp: bit_bf bit_set_bf ac_simps)

lemma set_bf_set_bf_same [bf_simps]:
  "set_bf lo len v (set_bf lo len w x) = set_bf lo len v x"
  by (rule bit_eqI) (auto simp: bit_set_bf)

lemma bf_le_mask: "bf lo len x \<le> mask len"
  by (simp add: bf_def take_bit_eq_mask word_and_le1)

lemma take_bit_bf [simp]: "len \<le> n \<Longrightarrow> take_bit n (bf lo len x) = bf lo len x"
  by (simp add: bf_def)

lemma bf_idem [simp]: "bf 0 len (bf lo len x) = bf lo len x"
  by (simp add: bf_def)


section \<open>Byte memory\<close>

text \<open>
  A pointer is an address; \<open>m p = None\<close> says that no byte is mapped at \<open>p\<close>, and reading or
  writing there is the fault None. NULL is the address 0. The same definitions serve an array of wider
  elements, where an address counts elements.
\<close>

type_synonym mem = "nat \<Rightarrow> u8 option"
type_synonym ptr = nat

definition NULL :: ptr where "NULL = 0"

definition store :: "(ptr \<Rightarrow> 'a option) \<Rightarrow> ptr \<Rightarrow> 'a \<Rightarrow> (ptr \<Rightarrow> 'a option) option" where
  "store m p v = (if m p = None then None else Some (m(p \<mapsto> v)))"

fun bytes_at :: "(ptr \<Rightarrow> 'a option) \<Rightarrow> ptr \<Rightarrow> 'a list \<Rightarrow> bool" where
  "bytes_at m p [] = True"
| "bytes_at m p (x # xs) = (m p = Some x \<and> bytes_at m (Suc p) xs)"

definition mapped :: "(ptr \<Rightarrow> 'a option) \<Rightarrow> ptr \<Rightarrow> nat \<Rightarrow> bool" where
  "mapped m p n \<longleftrightarrow> (\<forall>i < n. m (p + i) \<noteq> None)"

text \<open>A NUL-terminated string with the bytes \<open>s\<close>.\<close>

definition cstr :: "(ptr \<Rightarrow> 'a::zero option) \<Rightarrow> ptr \<Rightarrow> 'a list \<Rightarrow> bool" where
  "cstr m p s \<longleftrightarrow> 0 \<notin> set s \<and> bytes_at m p (s @ [0])"

text \<open>The memory that holds exactly the bytes \<open>xs\<close> from \<open>p\<close> on.\<close>

fun mem_of :: "ptr \<Rightarrow> u8 list \<Rightarrow> mem" where
  "mem_of p [] = (\<lambda>_. None)"
| "mem_of p (x # xs) = (mem_of (Suc p) xs)(p \<mapsto> x)"

lemma bytes_at_append [mem_simps]:
  "bytes_at m p (xs @ ys) \<longleftrightarrow> bytes_at m p xs \<and> bytes_at m (p + length xs) ys"
  by (induction xs arbitrary: p) auto

lemma bytes_at_iff_nth: "bytes_at m p xs \<longleftrightarrow> (\<forall>i < length xs. m (p + i) = Some (xs ! i))"
proof (induction xs arbitrary: p)
  case (Cons x xs)
  show ?case
    by (auto simp: Cons.IH nth_Cons less_Suc_eq_0_disj split: nat.splits)
qed simp

lemma bytes_at_mapped: "bytes_at m p xs \<Longrightarrow> mapped m p (length xs)"
  by (simp add: mapped_def bytes_at_iff_nth)

lemma bytes_at_cong:
  "bytes_at m p xs \<Longrightarrow> (\<And>a. p \<le> a \<Longrightarrow> a < p + length xs \<Longrightarrow> m' a = m a) \<Longrightarrow> bytes_at m' p xs"
  by (simp add: bytes_at_iff_nth)

lemma cstr_Nil [mem_simps]: "cstr m p [] \<longleftrightarrow> m p = Some 0"
  by (simp add: cstr_def)

lemma cstr_Cons [mem_simps]: "cstr m p (x # s) \<longleftrightarrow> x \<noteq> 0 \<and> m p = Some x \<and> cstr m (Suc p) s"
  by (auto simp: cstr_def)

lemma cstr_mapped: "cstr m p s \<Longrightarrow> mapped m p (Suc (length s))"
  using bytes_at_mapped by (fastforce simp: cstr_def)

lemma cstr_drop: "cstr m p s \<Longrightarrow> i \<le> length s \<Longrightarrow> cstr m (p + i) (drop i s)"
proof (induction i arbitrary: p s)
  case (Suc i)
  then obtain x t where "s = x # t" by (cases s) auto
  then show ?case using Suc.prems Suc.IH [of "Suc p" t] by (simp add: mem_simps)
qed simp

lemma cstr_nth: "cstr m p s \<Longrightarrow> i < length s \<Longrightarrow> m (p + i) = Some (s ! i)"
  by (simp add: cstr_def bytes_at_iff_nth nth_append)

lemma cstr_end: "cstr m p s \<Longrightarrow> m (p + length s) = Some 0"
  by (simp add: cstr_def bytes_at_append)

lemma cstr_unique: "cstr m p s \<Longrightarrow> cstr m p t \<Longrightarrow> s = t"
proof (induction s arbitrary: p t)
  case Nil
  then show ?case by (cases t) (auto simp: mem_simps)
next
  case (Cons x s)
  then show ?case by (cases t) (auto simp: mem_simps)
qed

lemma cstr_cong:
  "cstr m p s \<Longrightarrow> (\<And>a. p \<le> a \<Longrightarrow> a \<le> p + length s \<Longrightarrow> m' a = m a) \<Longrightarrow> cstr m' p s"
  unfolding cstr_def by (auto intro: bytes_at_cong)

lemma store_Some [mem_simps]: "m p = Some x \<Longrightarrow> store m p v = Some (m(p \<mapsto> v))"
  by (simp add: store_def)

lemma mapped_0 [mem_simps]: "mapped m p 0"
  by (simp add: mapped_def)

lemma mapped_Suc [mem_simps]: "mapped m p (Suc n) \<longleftrightarrow> (\<exists>x. m p = Some x) \<and> mapped m (Suc p) n"
  by (auto simp: mapped_def less_Suc_eq_0_disj)

lemma mapped_upd [mem_simps]: "mapped m p n \<Longrightarrow> mapped (m(q \<mapsto> v)) p n"
  by (auto simp: mapped_def)

lemma mapped_le: "mapped m p n \<Longrightarrow> k \<le> n \<Longrightarrow> mapped m p k"
  by (auto simp: mapped_def)

lemma mem_of_bytes: "bytes_at (mem_of p xs) p xs"
proof (induction xs arbitrary: p)
  case (Cons x xs)
  have "bytes_at ((mem_of (Suc p) xs)(p \<mapsto> x)) (Suc p) xs"
    by (rule bytes_at_cong [OF Cons.IH]) auto
  then show ?case by (simp add: fun_upd_def)
qed simp


text \<open>Writing a run of bytes: how the copying functions' results are stated.\<close>

fun write_bytes :: "(ptr \<Rightarrow> 'a option) \<Rightarrow> ptr \<Rightarrow> 'a list \<Rightarrow> ptr \<Rightarrow> 'a option" where
  "write_bytes m p [] = m"
| "write_bytes m p (x # xs) = write_bytes (m(p \<mapsto> x)) (Suc p) xs"

lemma write_bytes_apply:
  "write_bytes m p xs a = (if p \<le> a \<and> a < p + length xs then Some (xs ! (a - p)) else m a)"
proof (induction xs arbitrary: m p)
  case (Cons x xs)
  show ?case
  proof (cases "a = p")
    case False
    then have "p \<le> a \<Longrightarrow> a - p = Suc (a - Suc p)" by simp
    then show ?thesis using False by (auto simp: Cons.IH)
  next
    case True
    then show ?thesis using Cons.IH [of "m(p \<mapsto> x)" "Suc p"]
      by (simp add: fun_upd_same del: fun_upd_apply)
  qed
qed auto

lemma write_bytes_append: "write_bytes m p (xs @ ys) = write_bytes (write_bytes m p xs) (p + length xs) ys"
  by (induction xs arbitrary: m p) auto

lemma write_bytes_snoc: "write_bytes m p (xs @ [x]) = write_bytes (m(p + length xs \<mapsto> x)) p xs"
  by (auto simp: write_bytes_apply fun_eq_iff nth_append)

lemma write_bytes_bytes: "bytes_at (write_bytes m p xs) p xs"
  by (simp add: bytes_at_iff_nth write_bytes_apply)

lemma write_bytes_other: "a < p \<or> p + length xs \<le> a \<Longrightarrow> write_bytes m p xs a = m a"
  by (auto simp: write_bytes_apply)

lemma write_bytes_cstr: "0 \<notin> set s \<Longrightarrow> cstr (write_bytes m p (s @ [0])) p s"
  by (simp add: cstr_def write_bytes_bytes del: bytes_at_append)

lemma bytes_at_upd [mem_simps]:
  assumes "a < p \<or> p + length xs \<le> a"
  shows "bytes_at (m(a \<mapsto> v)) p xs = bytes_at m p xs"
proof -
  have "(m(a \<mapsto> v)) (p + i) = m (p + i)" if "i < length xs" for i
    using assms that by auto
  then show ?thesis by (simp add: bytes_at_iff_nth del: fun_upd_apply)
qed

lemma cstr_upd [mem_simps]:
  assumes "a < p \<or> p + length s < a"
  shows "cstr (m(a \<mapsto> v)) p s = cstr m p s"
proof -
  have "bytes_at (m(a \<mapsto> v)) p (s @ [0]) = bytes_at m p (s @ [0])"
    by (rule bytes_at_upd) (use assms in auto)
  then show ?thesis by (simp only: cstr_def)
qed

lemma mapped_sub: "mapped m p n \<Longrightarrow> k + l \<le> n \<Longrightarrow> mapped m (p + k) l"
  unfolding mapped_def by (metis add.assoc add_less_cancel_left less_le_trans)

lemma mapped_write_bytes: "mapped m q n \<Longrightarrow> mapped (write_bytes m p xs) q n"
  by (auto simp: mapped_def write_bytes_apply)

section \<open>Numbers as words\<close>

lemma unat_of_nat_u64: "n < 2 ^ 64 \<Longrightarrow> unat (of_nat n :: u64) = n"
  by (simp add: unsigned_of_nat take_bit_nat_eq_self)

lemma unat_of_nat_u32: "n < 2 ^ 32 \<Longrightarrow> unat (of_nat n :: u32) = n"
  by (simp add: unsigned_of_nat take_bit_nat_eq_self)

lemma unat_of_nat_u8: "n < 256 \<Longrightarrow> unat (of_nat n :: u8) = n"
  by (simp add: unsigned_of_nat take_bit_nat_eq_self)

lemma of_nat_u8_inject: "j < 256 \<Longrightarrow> k < 256 \<Longrightarrow> (of_nat j :: u8) = of_nat k \<longleftrightarrow> j = k"
  by (simp add: word_unat_eq_iff unsigned_of_nat take_bit_nat_eq_self)

lemma signed_take_bit_7_small: "0 \<le> x \<Longrightarrow> x < 128 \<Longrightarrow> signed_take_bit 7 x = (x :: int)"
  by (simp add: signed_take_bit_int_eq_self)

lemma signed_take_bit_7_high:
  assumes "128 \<le> x" "x < 256" shows "signed_take_bit 7 x = (x :: int) - 256"
proof -
  have "(x + 128) mod 256 = (x - 128 + 256) mod 256" by (simp add: add.commute)
  also have "\<dots> = x - 128" unfolding mod_add_self2 by (rule mod_pos_pos_trivial) (use assms in auto)
  finally have "take_bit 8 (x + 128) = x - 128" by (simp add: take_bit_eq_mod)
  then show ?thesis using signed_take_bit_eq_take_bit_shift [of 7 x] by simp
qed

lemma sint_ascii: "unat (c :: u8) < 128 \<Longrightarrow> sint c = int (unat c)"
  using signed_take_bit_7_small [of "int (unat c)"] by (simp add: sint_uint uint_nat del: of_nat_unat)

lemma sint_high: "128 \<le> unat (c :: u8) \<Longrightarrow> sint c = int (unat c) - 256"
  using signed_take_bit_7_high [of "int (unat c)"] uint_lt2p [of c]
  by (simp add: sint_uint uint_nat del: of_nat_unat)

text \<open>A signed word as its unsigned value, with the wrap written out.\<close>

lemma signed_take_bit_cases:
  assumes "0 \<le> x" "x < 2 * 2 ^ n"
  shows "signed_take_bit n x = (if x < 2 ^ n then x else x - 2 * 2 ^ n :: int)"
proof (cases "x < 2 ^ n")
  case False
  have "take_bit (Suc n) (x + 2 ^ n) = (x - 2 ^ n + 2 * 2 ^ n) mod (2 * 2 ^ n)"
    by (simp add: take_bit_eq_mod algebra_simps)
  also have "\<dots> = x - 2 ^ n" unfolding mod_add_self2 by (rule mod_pos_pos_trivial) (use assms False in auto)
  finally show ?thesis using False by (simp add: signed_take_bit_eq_take_bit_shift)
qed (use assms in \<open>simp add: signed_take_bit_int_eq_self\<close>)

lemma sint_u64: "sint (v :: u64) = (if uint v < 2 ^ 63 then uint v else uint v - 2 ^ 64)"
  using signed_take_bit_cases [of "uint v" 63] uint_bounded [of v] by (simp add: sint_uint)

lemma sint_u32: "sint (v :: u32) = (if uint v < 2 ^ 31 then uint v else uint v - 2 ^ 32)"
  using signed_take_bit_cases [of "uint v" 31] uint_bounded [of v] by (simp add: sint_uint)

lemma uint_minus_u64: "uint (- v :: u64) = (if v = 0 then 0 else 2 ^ 64 - uint v)"
proof (cases "v = 0")
  case False
  then have "0 < uint v" by (simp add: word_neq_0_conv word_less_def)
  then show ?thesis using uint_bounded [of v] False by (simp add: uint_word_ariths zmod_zminus1_eq_if)
qed simp

text \<open>A byte as a 32-bit number.\<close>

lemma unat_ucast_up: "unat (ucast (b :: u8) :: u32) = unat b"
proof -
  have "unat b < 256" using unsigned_less [of b] by simp
  then show ?thesis by (simp add: unsigned_ucast_eq take_bit_nat_eq_self)
qed

lemma ucast_u8_inject: "(ucast (x :: u8) :: u32) = ucast y \<longleftrightarrow> x = y"
  by (simp only: word_unat_eq_iff unat_ucast_up)

lemma ucast_u8_zero: "(ucast (x :: u8) :: u32) = 0 \<longleftrightarrow> x = 0"
  using ucast_u8_inject [of x 0] by simp

text \<open>Loops that may not return.\<close>

lemma option_eqI: "(\<And>v. x = Some v \<Longrightarrow> y = Some v) \<Longrightarrow> (\<And>v. y = Some v \<Longrightarrow> x = Some v) \<Longrightarrow> x = y"
  by (cases x; cases y) auto

lemma bind_SomeE: "Option.bind x f = Some v \<Longrightarrow> (\<And>y. x = Some y \<Longrightarrow> f y = Some v \<Longrightarrow> P) \<Longrightarrow> P"
  by (cases x) auto

section \<open>Linked lists\<close>

text \<open>The links \<open>g\<close> lead from \<open>p\<close> over the nodes \<open>xs\<close> to \<open>q\<close>; \<open>z\<close> is the end marker, which is no node.\<close>

primrec chain :: "'p \<Rightarrow> ('p \<Rightarrow> 'p option) \<Rightarrow> 'p \<Rightarrow> 'p list \<Rightarrow> 'p \<Rightarrow> bool" where
  "chain z g p [] q \<longleftrightarrow> p = q"
| "chain z g p (x # xs) q \<longleftrightarrow> p = x \<and> x \<noteq> z \<and> (\<exists>n. g x = Some n \<and> chain z g n xs q)"

lemma chain_append [simp]: "chain z g p (xs @ ys) q \<longleftrightarrow> (\<exists>r. chain z g p xs r \<and> chain z g r ys q)"
  by (induction xs arbitrary: p) auto

lemma chain_unique: "chain z g p xs z \<Longrightarrow> chain z g p ys z \<Longrightarrow> xs = ys"
proof (induction xs arbitrary: p ys)
  case Nil
  then show ?case by (cases ys) auto
next
  case (Cons x xs)
  then show ?case by (cases ys) auto
qed

lemma chain_distinct: "chain z g p xs z \<Longrightarrow> distinct xs"
proof (induction xs arbitrary: p)
  case (Cons x xs)
  have "x \<notin> set xs"
  proof
    assume "x \<in> set xs"
    then obtain ys zs where "xs = ys @ x # zs" by (auto simp: in_set_conv_decomp)
    then have "chain z g x (x # zs) z" "chain z g x (x # xs) z" using Cons.prems by auto
    then have "x # zs = x # xs" by (rule chain_unique)
    then show False using \<open>xs = ys @ x # zs\<close> by simp
  qed
  then show ?case using Cons by auto
qed simp

lemma chain_cong: "(\<And>x. x \<in> set xs \<Longrightarrow> g' x = g x) \<Longrightarrow> chain z g' p xs q = chain z g p xs q"
  by (induction xs arbitrary: p) auto

lemma chain_upd: "u \<notin> set xs \<Longrightarrow> chain z (g(u := v)) p xs q = chain z g p xs q"
  by (rule chain_cong) auto

text \<open>The link of the last node can be redirected.\<close>

lemma chain_redirect:
  "chain z g p (us @ [u]) q \<Longrightarrow> u \<notin> set us \<Longrightarrow> chain z (g(u \<mapsto> r)) p (us @ [u]) r"
  by (auto simp: chain_upd)

lemma chain_mapped: "chain z g p xs q \<Longrightarrow> x \<in> set xs \<Longrightarrow> g x \<noteq> None \<and> x \<noteq> z"
  by (induction xs arbitrary: p) auto

lemma chain_head: "chain z g p xs z \<Longrightarrow> p = (if xs = [] then z else hd xs)"
  by (cases xs) auto

end
