(* ===== verification/Mmu.thy ===== *)
theory Mmu
  imports Prelude
begin

text \<open>
  The page tables of the kernel: the packed entry structs of pagetable.hh, the virtual address
  union \<open>vaddr\<close>, the bump-down page allocator of memory.cc and the three operations of
  pagetable.cc (\<open>map\<close>, \<open>is_mappped\<close>, \<open>break_2m\<close>).

  Physical memory is seen through the identity mapping the code relies on, as arrays of 512
  entries: \<open>tables k f i\<close> is the 64-bit entry \<open>i\<close> of the page frame \<open>f\<close> (the address
  \<open>f * 4096 + 8 * i\<close>). A failed \<open>assert\<close> is the result None.
\<close>

section \<open>Entries\<close>

text \<open>The one-bit flags all four entry structs share.\<close>

definition e_present :: "u64 \<Rightarrow> bool" where "e_present e \<longleftrightarrow> bf 0 1 e = 1"
definition e_PS :: "u64 \<Rightarrow> bool" where "e_PS e \<longleftrightarrow> bf 7 1 e = 1"
definition set_present_rw :: "u64 \<Rightarrow> u64" where
  "set_present_rw e = set_bf 1 1 1 (set_bf 0 1 1 e)"

text \<open>\<open>pte\<close>, \<open>pde_pt\<close>, \<open>pdpte_pd\<close> and \<open>pml4e\<close>: a 40-bit frame number at bit 12.\<close>

definition pte_page :: "u64 \<Rightarrow> u64" where
  "pte_page e = push_bit 12 (bf 12 40 e)"
definition pte_set_page :: "u64 \<Rightarrow> u64 \<Rightarrow> u64" where
  "pte_set_page p e = set_bf 12 40 (drop_bit 12 p) e"
definition pde_pt_pt :: "u64 \<Rightarrow> u64" where
  "pde_pt_pt e = push_bit 12 (bf 12 40 e)"
definition pdpte_pd_pd :: "u64 \<Rightarrow> u64" where
  "pdpte_pd_pd e = push_bit 12 (bf 12 40 e)"
definition pml4e_PDPTptr :: "u64 \<Rightarrow> u64" where
  "pml4e_PDPTptr e = push_bit 12 (bf 12 40 e)"
definition set_table_ptr :: "u64 \<Rightarrow> u64 \<Rightarrow> u64" where
  "set_table_ptr p e = set_bf 12 40 (drop_bit 12 p) e"

text \<open>
  \<open>pde2m::page\<close> shifts the 31-bit field \<open>addr\<close> (bits 21 to 51) by 20. A 31-bit unsigned bit
  field is promoted to \<open>int\<close>, so the shift is a 32-bit one and the cast to a pointer extends
  its sign.
\<close>

definition pde2m_page :: "u64 \<Rightarrow> u64" where
  "pde2m_page e = scast (push_bit 20 (ucast (bf 21 31 e) :: u32))"

datatype pd_type = PD_2M | PD_PT

definition pde_type :: "u64 \<Rightarrow> pd_type" where
  "pde_type e = (if e_PS e then PD_2M else PD_PT)"

definition pde_set_type :: "pd_type \<Rightarrow> u64 \<Rightarrow> u64" where
  "pde_set_type t e = set_bf 7 1 (if t = PD_2M then 1 else 0) e"

definition pde_page :: "u64 \<Rightarrow> u64" where
  "pde_page e = (case pde_type e of PD_2M \<Rightarrow> pde2m_page e | PD_PT \<Rightarrow> pde_pt_pt e)"

text \<open>\<open>to_pt\<close> and \<open>to_pd\<close> assert that the entry does not map a large page.\<close>

definition to_pt :: "u64 \<Rightarrow> unit option" where
  "to_pt e = (if pde_type e = PD_PT then Some () else None)"
definition to_pd :: "u64 \<Rightarrow> unit option" where
  "to_pd e = (if e_PS e then None else Some ())"

text \<open>\<open>init\<close>: clear the entry, then present, writable, user.\<close>

definition init_entry :: "u64 \<Rightarrow> u64" where
  "init_entry e = set_bf 2 1 1 (set_bf 1 1 1 (set_bf 0 1 1 0))"

section \<open>Virtual addresses\<close>

definition va_PML4 :: "u64 \<Rightarrow> u64" where "va_PML4 v = bf 39 9 v"
definition va_directoryPtr :: "u64 \<Rightarrow> u64" where "va_directoryPtr v = bf 30 9 v"
definition va_directory :: "u64 \<Rightarrow> u64" where "va_directory v = bf 21 9 v"
definition va_table :: "u64 \<Rightarrow> u64" where "va_table v = bf 12 9 v"
definition va_offset :: "u64 \<Rightarrow> u64" where "va_offset v = bf 0 12 v"

definition cannoncialize :: "u64 \<Rightarrow> u64" where
  "cannoncialize v = set_bf 48 16 (if va_PML4 v AND 256 = 0 then 0 else 0xFFFF) v"

text \<open>The constructor \<open>vaddr(u64)\<close>, the accessor \<open>to_u64\<close> and the setter \<open>PML4(int)\<close>.\<close>

definition vaddr_of :: "u64 \<Rightarrow> u64" where "vaddr_of u = cannoncialize u"

definition to_u64 :: "u64 \<Rightarrow> u64" where
  "to_u64 p = (if p AND push_bit 47 1 \<noteq> 0 then 0xFFFF800000000000 OR p else p)"

definition va_set_PML4 :: "int \<Rightarrow> u64 \<Rightarrow> u64 option" where
  "va_set_PML4 index v =
     (if index < 512 \<and> index \<ge> 0 then Some (cannoncialize (set_bf 39 9 (of_int index) v))
      else None)"

section \<open>The kernel's paging state and the page allocator\<close>

record kernel =
  tables :: "u64 \<Rightarrow> u64 \<Rightarrow> u64"
  allocation_addr :: u64
  cr3_reg :: u64

definition cr3_PML4 :: "u64 \<Rightarrow> u64" where "cr3_PML4 c = bf 12 40 c"

text \<open>
  \<open>alloc_page\<close> of memory.cc: the next lower page, zeroed. It never checks for exhaustion.
\<close>

definition alloc_page :: "kernel \<Rightarrow> u64 \<times> kernel" where
  "alloc_page k =
     (let a = allocation_addr k - 4096
      in (a, k\<lparr>allocation_addr := a,
               tables := (tables k)(drop_bit 12 a := (\<lambda>_. 0))\<rparr>))"

definition upd_entry :: "u64 \<Rightarrow> u64 \<Rightarrow> (u64 \<Rightarrow> u64) \<Rightarrow> kernel \<Rightarrow> kernel" where
  "upd_entry f i g k =
     k\<lparr>tables := (tables k)(f := (tables k f)(i := g (tables k f i)))\<rparr>"

definition alloc_into :: "u64 \<Rightarrow> u64 \<Rightarrow> kernel \<Rightarrow> kernel" where
  "alloc_into f i k = (case alloc_page k of (a, k') \<Rightarrow> upd_entry f i (set_table_ptr a) k')"

section \<open>break_2m, is_mappped and map\<close>

definition break_step :: "u64 \<Rightarrow> nat \<Rightarrow> u64 \<times> kernel \<Rightarrow> u64 \<times> kernel" where
  "break_step pt i sk = (case sk of (start, k) \<Rightarrow>
     (start + 1024 * 4,
      upd_entry pt (of_nat i) (\<lambda>e. pte_set_page start (set_present_rw e)) k))"

definition break_2m :: "u64 \<Rightarrow> u64 \<Rightarrow> kernel \<Rightarrow> kernel option" where
  "break_2m f i k = (
     let start = pde_page (tables k f i);
         k1 = upd_entry f i (pde_set_type PD_PT) k
     in do {
       to_pt (tables k1 f i);
       let k2 = alloc_into f i k1;
       let pt = bf 12 40 (tables k2 f i);
       Some (snd (fold (break_step pt) [0..<512] (start, k2)))
     })"

definition is_mappped :: "u64 \<Rightarrow> kernel \<Rightarrow> bool option" where
  "is_mappped addr k = (
     let e4 = tables k (cr3_PML4 (cr3_reg k)) (va_PML4 addr)
     in if \<not> e_present e4 then Some False
        else do {
          let e3 = tables k (bf 12 40 e4) (va_directoryPtr addr);
          to_pd e3;
          if \<not> e_present e3 then Some False
          else if pde_type (tables k (bf 12 40 e3) 0) = PD_2M then Some True
          else do {
            let e2 = tables k (bf 12 40 e3) (va_directory addr);
            to_pt e2;
            if \<not> e_present e2 then Some False
            else Some (e_present (tables k (bf 12 40 e2) (va_table addr)))
          }
        })"

text \<open>
  One level of \<open>map\<close>: mark the entry present and writable and give it a fresh table when it
  has none.
\<close>

definition ensure_table :: "u64 \<Rightarrow> u64 \<Rightarrow> kernel \<Rightarrow> kernel" where
  "ensure_table f i k = (
     let k1 = upd_entry f i set_present_rw k
     in if pml4e_PDPTptr (tables k1 f i) = 0 then alloc_into f i k1 else k1)"

definition map_page :: "u64 \<Rightarrow> u64 \<Rightarrow> kernel \<Rightarrow> kernel option" where
  "map_page addr phys k = (
     let f4 = cr3_PML4 (cr3_reg k);
         k1 = ensure_table f4 (va_PML4 addr) k;
         f3 = bf 12 40 (tables k1 f4 (va_PML4 addr))
     in do {
       to_pd (tables k1 f3 (va_directoryPtr addr));
       let k2 = ensure_table f3 (va_directoryPtr addr) k1;
       let f2 = bf 12 40 (tables k2 f3 (va_directoryPtr addr));
       k3 \<leftarrow> (if pde_type (tables k2 f2 0) = PD_2M then break_2m f2 0 k2 else Some k2);
       let f2' = bf 12 40 (tables k3 f3 (va_directoryPtr addr));
       to_pt (tables k3 f2' (va_directory addr));
       let k4 = ensure_table f2' (va_directory addr) k3;
       let f1 = bf 12 40 (tables k4 f2' (va_directory addr));
       Some (upd_entry f1 (va_table addr) (\<lambda>e. pte_set_page phys (set_present_rw e)) k4)
     })"

section \<open>Lemmas on entries and addresses\<close>

lemmas entry_defs = e_present_def e_PS_def set_present_rw_def pte_page_def pte_set_page_def
  pde_pt_pt_def pdpte_pd_pd_def pml4e_PDPTptr_def set_table_ptr_def pde_set_type_def

lemma take_bit_1_eq [simp]: "take_bit (Suc 0) (1 :: u64) = 1"
  by simp

lemma present_rw [simp]:
  "e_present (set_present_rw e)" "e_PS (set_present_rw e) = e_PS e"
  "bf 12 40 (set_present_rw e) = bf 12 40 e"
  by (simp_all add: entry_defs bf_simps)

lemma entry_zero [simp]: "\<not> e_PS 0" "\<not> e_present 0" "bf lo len 0 = 0"
  by (simp_all add: e_PS_def e_present_def bf_def)

lemma set_table_ptr_flags [simp]:
  "e_present (set_table_ptr p e) = e_present e" "e_PS (set_table_ptr p e) = e_PS e"
  "bf 12 40 (set_table_ptr p e) = take_bit 40 (drop_bit 12 p)"
  by (simp_all add: entry_defs bf_simps)

lemma pte_set_page_flags [simp]:
  "e_present (pte_set_page p e) = e_present e"
  "bf 12 40 (pte_set_page p e) = bf 12 40 p"
  by (simp_all add: entry_defs bf_simps bf_def [symmetric])

lemma pde_set_type_PT [simp]:
  "\<not> e_PS (pde_set_type PD_PT e)" "e_present (pde_set_type PD_PT e) = e_present e"
  by (simp_all add: entry_defs bf_simps)

lemma ptr_zero_iff [simp]: "pml4e_PDPTptr e = 0 \<longleftrightarrow> bf 12 40 e = 0"
proof
  assume "pml4e_PDPTptr e = 0"
  then have *: "\<not> bit (push_bit 12 (bf 12 40 e)) n" for n
    by (simp add: pml4e_PDPTptr_def)
  show "bf 12 40 e = 0"
  proof (rule bit_eqI)
    fix n
    show "bit (bf 12 40 e) n = bit (0 :: u64) n"
      using * [of "n + 12"] by (auto simp: bit_push_bit_iff bit_bf)
  qed
qed (simp add: pml4e_PDPTptr_def)

lemma bf_9_less: "bf lo 9 v < 512"
proof -
  have "bf lo 9 v \<le> mask 9" by (rule bf_le_mask)
  then have "unat (bf lo 9 v) \<le> 511" by (simp add: word_le_nat_alt mask_eq_exp_minus_1)
  then show ?thesis by (simp add: word_less_nat_alt)
qed

lemma va_index_less [simp]:
  "va_PML4 v < 512" "va_directoryPtr v < 512" "va_directory v < 512" "va_table v < 512"
  by (simp_all add: va_PML4_def va_directoryPtr_def va_directory_def va_table_def bf_9_less)

lemma PML4_sign: "va_PML4 v AND 256 = 0 \<longleftrightarrow> \<not> bit v 47"
proof -
  have "bit (va_PML4 v) 8 \<longleftrightarrow> va_PML4 v AND push_bit 8 1 \<noteq> 0"
    by (rule bit_iff_and_push_bit_not_eq_0)
  then have "va_PML4 v AND 256 = 0 \<longleftrightarrow> \<not> bit (va_PML4 v) 8" by simp
  then show ?thesis by (simp add: va_PML4_def bit_bf)
qed

lemma bit_cannoncialize:
  "bit (cannoncialize v) n \<longleftrightarrow> n < 64 \<and> bit v (min 47 n)"
proof -
  have "bit (0xFFFF :: u64) m \<longleftrightarrow> m < 16" for m
  proof -
    have *: "(0xFFFF :: u64) = mask 16" by (simp add: mask_eq_exp_minus_1)
    have "bit (mask 16 :: u64) m \<longleftrightarrow> m < 16" by (auto simp: bit_mask_iff)
    then show ?thesis by (simp only: *)
  qed
  moreover have "n < 64 \<Longrightarrow> n - 48 < 16" by linarith
  ultimately have "bit (cannoncialize v) n \<longleftrightarrow>
      n < 64 \<and> (if 48 \<le> n then bit v 47 else bit v n)"
    by (simp add: cannoncialize_def bit_set_bf PML4_sign)
  moreover have "\<not> 48 \<le> n \<Longrightarrow> min 47 n = n" "48 \<le> n \<Longrightarrow> min 47 n = 47"
    by simp_all
  ultimately show ?thesis by (cases "48 \<le> n") simp_all
qed


lemma to_u64_vaddr_of: "to_u64 (vaddr_of u) = signed_take_bit 47 u"
proof -
  have hi: "bit (0xFFFF800000000000 :: u64) n \<longleftrightarrow> 47 \<le> n \<and> n < 64" for n
  proof -
    have *: "(0xFFFF800000000000 :: u64) = push_bit 47 (mask 17)"
      by (simp add: mask_eq_exp_minus_1)
    have "bit (push_bit 47 (mask 17) :: u64) n \<longleftrightarrow> 47 \<le> n \<and> n < 64"
      by (auto simp: bit_push_bit_iff bit_mask_iff)
    then show ?thesis by (simp only: *)
  qed
  have "(vaddr_of u AND push_bit 47 1 \<noteq> 0) = bit u 47"
    unfolding bit_iff_and_push_bit_not_eq_0 [symmetric]
    by (simp add: vaddr_of_def bit_cannoncialize)
  then have "to_u64 (vaddr_of u) =
      (if bit u 47 then 0xFFFF800000000000 OR cannoncialize u else cannoncialize u)"
    by (simp only: to_u64_def vaddr_of_def)
  then show ?thesis
    by (intro bit_eqI)
      (auto simp only: bit_or_iff hi bit_signed_take_bit_iff bit_cannoncialize possible_bit_word
        min_def not_le split: if_splits, simp_all)
qed

section \<open>The levels of a well-formed table tree\<close>

text \<open>
  \<open>lvl f\<close> is 4 for the root frame, 3 to 1 for the tables below it and 0 for a frame that is no
  table. Frames from \<open>lo\<close> up to the allocation pointer are free.
\<close>

definition alloc_frame :: "kernel \<Rightarrow> nat" where
  "alloc_frame k = unat (drop_bit 12 (allocation_addr k))"

definition is_table_ref :: "(u64 \<Rightarrow> nat) \<Rightarrow> u64 \<Rightarrow> u64 \<Rightarrow> bool" where
  "is_table_ref lvl f e \<longleftrightarrow> lvl f \<ge> 2 \<and> (lvl f = 4 \<or> \<not> e_PS e) \<and> bf 12 40 e \<noteq> 0"

definition table_wf :: "(u64 \<Rightarrow> nat) \<Rightarrow> nat \<Rightarrow> kernel \<Rightarrow> bool" where
  "table_wf lvl lo k \<longleftrightarrow>
     lvl (cr3_PML4 (cr3_reg k)) = 4 \<and> (\<forall>f. lvl f \<le> 4) \<and>
     (\<forall>f i. i < 512 \<longrightarrow> is_table_ref lvl f (tables k f i) \<longrightarrow>
        lvl (bf 12 40 (tables k f i)) = lvl f - 1) \<and>
     (\<forall>f. lo \<le> unat f \<and> unat f < alloc_frame k \<longrightarrow> lvl f = 0) \<and>
     0 < lo \<and> take_bit 12 (allocation_addr k) = 0 \<and> alloc_frame k \<le> 2 ^ 40"

lemma alloc_frame_pred:
  assumes "0 < alloc_frame k"
  shows "drop_bit 12 (allocation_addr k - 4096) = drop_bit 12 (allocation_addr k) - 1"
    and "unat (drop_bit 12 (allocation_addr k - 4096)) = alloc_frame k - 1"
    and "take_bit 12 (allocation_addr k - 4096) = take_bit 12 (allocation_addr k)"
proof -
  let ?a = "allocation_addr k"
  have pos: "4096 \<le> unat ?a"
    using assms by (simp add: alloc_frame_def drop_bit_eq_div unat_div)
  then have un: "unat (?a - 4096) = unat ?a - 4096"
    by (simp add: unat_sub word_le_nat_alt)
  have fr: "alloc_frame k = unat ?a div 4096"
    by (simp add: alloc_frame_def drop_bit_eq_div unat_div)
  show 2: "unat (drop_bit 12 (?a - 4096)) = alloc_frame k - 1"
    using pos by (simp add: drop_bit_eq_div unat_div un fr le_div_geq)
  show "drop_bit 12 (?a - 4096) = drop_bit 12 ?a - 1"
    using assms 2
    by (metis alloc_frame_def less_numeral_extra(3) unat_minus_one unsigned_0 word_unat_eq_iff)
  show "take_bit 12 (?a - 4096) = take_bit 12 ?a"
  proof (rule word_unat_eq_iff [THEN iffD2])
    show "unat (take_bit 12 (?a - 4096)) = unat (take_bit 12 ?a)"
      using pos by (simp add: take_bit_eq_mod unat_mod un le_mod_geq)
  qed
qed


lemma upd_entry_simps [simp]:
  "tables (upd_entry f i g k) f' j =
     (if f' = f \<and> j = i then g (tables k f i) else tables k f' j)"
  "cr3_reg (upd_entry f i g k) = cr3_reg k"
  "allocation_addr (upd_entry f i g k) = allocation_addr k"
  "alloc_frame (upd_entry f i g k) = alloc_frame k"
  by (auto simp: upd_entry_def alloc_frame_def)

definition new_frame :: "kernel \<Rightarrow> u64" where
  "new_frame k = drop_bit 12 (allocation_addr k - 4096)"

lemma alloc_into_simps [simp]:
  "tables (alloc_into f i k) f' j =
     (if f' = f \<and> j = i
      then set_table_ptr (allocation_addr k - 4096) (if f = new_frame k then 0 else tables k f i)
      else if f' = new_frame k then 0 else tables k f' j)"
  "cr3_reg (alloc_into f i k) = cr3_reg k"
  "allocation_addr (alloc_into f i k) = allocation_addr k - 4096"
  by (auto simp: alloc_into_def alloc_page_def Let_def new_frame_def)

lemma new_frame_free:
  assumes "table_wf lvl lo k" "lo < alloc_frame k"
  shows "lvl (new_frame k) = 0" "new_frame k \<noteq> 0"
    "take_bit 40 (new_frame k) = new_frame k"
    "unat (new_frame k) = alloc_frame k - 1"
proof -
  have fr: "unat (new_frame k) = alloc_frame k - 1"
    using assms(2) alloc_frame_pred(2) by (simp add: new_frame_def)
  then show "unat (new_frame k) = alloc_frame k - 1" .
  show "lvl (new_frame k) = 0"
    using assms fr by (simp add: table_wf_def)
  show "new_frame k \<noteq> 0"
    using assms fr by (auto simp: table_wf_def)
  have "unat (new_frame k) < 2 ^ 40"
    using assms fr by (auto simp: table_wf_def)
  then show "take_bit 40 (new_frame k) = new_frame k"
    by (simp add: word_unat_eq_iff unsigned_take_bit_eq take_bit_nat_eq_self)
qed

text \<open>
  Two states that agree on the tables of \<open>lvl\<close> but for one entry; \<open>lvl'\<close> extends \<open>lvl\<close>.
\<close>

definition extends :: "(u64 \<Rightarrow> nat) \<Rightarrow> (u64 \<Rightarrow> nat) \<Rightarrow> bool" where
  "extends lvl lvl' \<longleftrightarrow> (\<forall>g. lvl g \<noteq> 0 \<longrightarrow> lvl' g = lvl g)"

definition agree_but :: "(u64 \<Rightarrow> nat) \<Rightarrow> u64 \<Rightarrow> u64 \<Rightarrow> kernel \<Rightarrow> kernel \<Rightarrow> bool" where
  "agree_but lvl f i k k' \<longleftrightarrow> cr3_reg k' = cr3_reg k \<and>
     (\<forall>g j. lvl g \<noteq> 0 \<longrightarrow> (g, j) \<noteq> (f, i) \<longrightarrow> tables k' g j = tables k g j)"

lemma alloc_into_wf:
  assumes wf: "table_wf lvl lo k" and lt: "lo < alloc_frame k"
    and f: "lvl f \<ge> 2" and i: "i < 512" and ps: "lvl f = 4 \<or> \<not> e_PS (tables k f i)"
  defines "k' \<equiv> alloc_into f i k" and "lvl' \<equiv> lvl(new_frame k := lvl f - 1)"
  shows "table_wf lvl' lo k'" "extends lvl lvl'" "agree_but lvl f i k k'"
    "bf 12 40 (tables k' f i) = new_frame k" "alloc_frame k' = alloc_frame k - 1"
    "e_present (tables k' f i) = e_present (tables k f i)"
    "e_PS (tables k' f i) = e_PS (tables k f i)"
proof -
  note nf = new_frame_free [OF wf lt]
  have fn: "f \<noteq> new_frame k" using f nf(1) by auto
  have entry: "tables k' f i = set_table_ptr (allocation_addr k - 4096) (tables k f i)"
    using fn by (simp add: k'_def)
  show nxt: "bf 12 40 (tables k' f i) = new_frame k"
    using nf(3) by (simp add: entry new_frame_def)
  show "e_present (tables k' f i) = e_present (tables k f i)"
    "e_PS (tables k' f i) = e_PS (tables k f i)"
    by (simp_all add: entry)
  show af: "alloc_frame k' = alloc_frame k - 1"
    using lt alloc_frame_pred(2) [of k] by (simp add: k'_def alloc_frame_def)
  show "extends lvl lvl'" using nf(1) by (simp add: extends_def lvl'_def)
  show "agree_but lvl f i k k'"
    using nf(1) fn by (auto simp: agree_but_def k'_def)
  have al: "take_bit 12 (allocation_addr k') = 0"
    using wf lt alloc_frame_pred(3) [of k] by (simp add: k'_def table_wf_def)
  have refs: "lvl' (bf 12 40 (tables k' g j)) = lvl' g - 1"
    if "j < 512" "is_table_ref lvl' g (tables k' g j)" for g j
  proof (cases "g = f \<and> j = i")
    case True
    then show ?thesis using nxt fn by (simp add: lvl'_def)
  next
    case False
    show ?thesis
    proof (cases "g = new_frame k")
      case True
      then have "tables k' g j = 0" using fn by (simp add: k'_def)
      then show ?thesis using that(2) by (simp add: is_table_ref_def bf_def)
    next
      case gn: False
      then have tk: "tables k' g j = tables k g j" using False fn by (auto simp: k'_def)
      then have "is_table_ref lvl g (tables k g j)"
        using that(2) gn by (simp add: is_table_ref_def lvl'_def)
      then have l: "lvl (bf 12 40 (tables k g j)) = lvl g - 1" "lvl g \<ge> 2"
        using wf that(1) by (auto simp: table_wf_def is_table_ref_def)
      then have "bf 12 40 (tables k g j) \<noteq> new_frame k" using nf(1) by auto
      then show ?thesis using l gn tk by (simp add: lvl'_def)
    qed
  qed
  show "table_wf lvl' lo k'"
    unfolding table_wf_def
  proof (intro conjI allI impI)
    show "lvl' (cr3_PML4 (cr3_reg k')) = 4"
      using wf nf(1) by (auto simp: table_wf_def lvl'_def k'_def)
    show "lvl' g \<le> 4" for g
      using wf by (auto simp: table_wf_def lvl'_def intro: le_trans [OF diff_le_self])
    show "lvl' g = 0" if "lo \<le> unat g \<and> unat g < alloc_frame k'" for g
      using that wf nf(4) lt by (auto simp: table_wf_def lvl'_def af)
    show "alloc_frame k' \<le> 2 ^ 40" using wf by (auto simp: table_wf_def af)
  qed (use refs al wf in \<open>simp_all add: table_wf_def\<close>)
qed


lemma upd_entry_wf:
  assumes wf: "table_wf lvl lo k" and "lvl f \<ge> 2 \<Longrightarrow> bf 12 40 (g (tables k f i)) = bf 12 40 (tables k f i)"
    and "lvl f \<ge> 2 \<Longrightarrow> e_PS (g (tables k f i)) = e_PS (tables k f i)"
  shows "table_wf lvl lo (upd_entry f i g k)"
proof -
  have "is_table_ref lvl f' (tables (upd_entry f i g k) f' j) = is_table_ref lvl f' (tables k f' j)"
    "is_table_ref lvl f' (tables k f' j) \<Longrightarrow>
       bf 12 40 (tables (upd_entry f i g k) f' j) = bf 12 40 (tables k f' j)" for f' j
    using assms by (auto simp: is_table_ref_def)
  then show ?thesis
    using wf unfolding table_wf_def by (auto simp del: upd_entry_simps(1))
qed

lemma agree_but_trans:
  "agree_but lvl f i k k1 \<Longrightarrow> agree_but lvl' f i k1 k2 \<Longrightarrow> extends lvl lvl' \<Longrightarrow>
   agree_but lvl f i k k2"
  by (auto simp: agree_but_def extends_def)

lemma ensure_table_wf:
  assumes wf: "table_wf lvl lo k" and lt: "lo < alloc_frame k"
    and f: "lvl f \<ge> 2" and i: "i < 512" and ps: "lvl f = 4 \<or> \<not> e_PS (tables k f i)"
  obtains lvl' where "table_wf lvl' lo (ensure_table f i k)" "extends lvl lvl'"
    "agree_but lvl f i k (ensure_table f i k)"
    "lvl' (bf 12 40 (tables (ensure_table f i k) f i)) = lvl f - 1"
    "e_present (tables (ensure_table f i k) f i)"
    "e_PS (tables (ensure_table f i k) f i) = e_PS (tables k f i)"
    "alloc_frame k - 1 \<le> alloc_frame (ensure_table f i k)"
proof -
  let ?k1 = "upd_entry f i set_present_rw k"
  have wf1: "table_wf lvl lo ?k1" by (rule upd_entry_wf [OF wf]) simp_all
  have ag1: "agree_but lvl f i k ?k1" by (auto simp: agree_but_def)
  have ps1: "lvl f = 4 \<or> \<not> e_PS (tables ?k1 f i)" using ps by simp
  show ?thesis
  proof (cases "bf 12 40 (tables k f i) = 0")
    case True
    then have ek: "ensure_table f i k = alloc_into f i ?k1" by (simp add: ensure_table_def)
    have lt1: "lo < alloc_frame ?k1" using lt by simp
    note a = alloc_into_wf [OF wf1 lt1 f i ps1, folded ek]
    show ?thesis
      by (rule that [OF a(1,2)])
        (use agree_but_trans [OF ag1 a(3)] a(4-7) in \<open>simp_all add: extends_def\<close>)
  next
    case False
    then have ek: "ensure_table f i k = ?k1" by (simp add: ensure_table_def)
    have "is_table_ref lvl f (tables k f i)"
      using f ps False by (simp add: is_table_ref_def)
    then have "lvl (bf 12 40 (tables k f i)) = lvl f - 1"
      using wf i by (auto simp: table_wf_def)
    then show ?thesis
      using wf1 ag1 by (intro that [of lvl]) (simp_all add: ek extends_def)
  qed
qed

lemma break_step_pair:
  "break_step pt i (s, k) =
     (s + 4096, upd_entry pt (of_nat i) (\<lambda>e. pte_set_page s (set_present_rw e)) k)"
  by (simp add: break_step_def)

lemma fold_break_step_aux:
  "n \<le> 512 \<Longrightarrow> \<exists>k'. fold (break_step pt) [0..<n] (s, k) = (s + 4096 * of_nat n, k') \<and>
     cr3_reg k' = cr3_reg k \<and> allocation_addr k' = allocation_addr k \<and>
     (\<forall>g j. tables k' g j =
       (if g = pt \<and> unat j < n
        then pte_set_page (s + 4096 * j) (set_present_rw (tables k pt j)) else tables k g j))"
proof (induction n)
  case (Suc n)
  then obtain k' where k': "fold (break_step pt) [0..<n] (s, k) = (s + 4096 * of_nat n, k')"
    "cr3_reg k' = cr3_reg k" "allocation_addr k' = allocation_addr k"
    "tables k' g j =
       (if g = pt \<and> unat j < n
        then pte_set_page (s + 4096 * j) (set_present_rw (tables k pt j)) else tables k g j)" for g j
    by auto
  have u: "unat (of_nat n :: u64) = n" using Suc.prems
    by (simp add: unsigned_of_nat take_bit_nat_eq_self)
  then have ueq: "(unat j = n) = (j = of_nat n)" for j :: u64
    by (metis word_unat_eq_iff)
  show ?case
    using k' by (auto simp: break_step_pair less_Suc_eq ueq u algebra_simps)
qed simp

lemma fold_break_step:
  assumes "snd (fold (break_step pt) [0..<512] (s, k)) = k'"
  shows "tables k' g j =
      (if g = pt \<and> j < 512
       then pte_set_page (s + 4096 * j) (set_present_rw (tables k pt j)) else tables k g j)"
    and "cr3_reg k' = cr3_reg k" and "allocation_addr k' = allocation_addr k"
  using fold_break_step_aux [of 512 pt s k] assms by (auto simp: word_less_nat_alt)


lemma wf_transfer:
  assumes "table_wf lvl lo k" "cr3_reg k' = cr3_reg k" "allocation_addr k' = allocation_addr k"
    and "\<And>g j. lvl g \<ge> 2 \<Longrightarrow> bf 12 40 (tables k' g j) \<noteq> 0 \<Longrightarrow> tables k' g j = tables k g j"
  shows "table_wf lvl lo k'"
  using assms unfolding table_wf_def is_table_ref_def alloc_frame_def by metis

lemma alloc_into_clear:
  "alloc_into f i (upd_entry f i (\<lambda>e. set_table_ptr 0 (g e)) k) = alloc_into f i (upd_entry f i g k)"
  by (simp add: alloc_into_def alloc_page_def Let_def upd_entry_def fun_eq_iff set_table_ptr_def bf_simps)

lemma break_2m_wf:
  assumes wf: "table_wf lvl lo k" and lt: "lo < alloc_frame k"
    and f: "lvl f = 2" and i: "i < 512"
  obtains k' lvl' where "break_2m f i k = Some k'" "table_wf lvl' lo k'" "extends lvl lvl'"
    "agree_but lvl f i k k'" "\<not> e_PS (tables k' f i)"
    "e_present (tables k' f i) = e_present (tables k f i)"
    "alloc_frame k' = alloc_frame k - 1"
    "\<And>j. j < 512 \<Longrightarrow> tables k' (bf 12 40 (tables k' f i)) j =
       pte_set_page (pde_page (tables k f i) + 4096 * j) (set_present_rw 0)"
proof -
  let ?k1 = "upd_entry f i (pde_set_type PD_PT) k"
  let ?k1' = "upd_entry f i (\<lambda>e. set_table_ptr 0 (pde_set_type PD_PT e)) k"
  let ?start = "pde_page (tables k f i)"
  define k2 where "k2 = alloc_into f i ?k1"
  define k' where "k' = snd (fold (break_step (new_frame k)) [0..<512] (?start, k2))"
  have wf1: "table_wf lvl lo ?k1'" by (rule wf_transfer [OF wf]) auto
  have ps1: "lvl f = 4 \<or> \<not> e_PS (tables ?k1' f i)" by simp
  have nk: "new_frame ?k1' = new_frame k" by (simp add: new_frame_def)
  have "lo < alloc_frame ?k1'" "2 \<le> lvl f" using lt f by simp_all
  note a = alloc_into_wf [OF wf1 this i ps1, unfolded alloc_into_clear, folded k2_def, unfolded nk]
  note nf = new_frame_free [OF wf lt]
  note fold = fold_break_step [OF k'_def [symmetric]]
  let ?lvl = "lvl(new_frame k := lvl f - 1)"
  have nf2: "f \<noteq> new_frame k" using nf(1) f by auto
  have "to_pt (tables ?k1 f i) = Some ()" by (simp add: to_pt_def pde_type_def)
  then have br: "break_2m f i k = Some k'"
    using a(4) by (simp add: break_2m_def Let_def k2_def k'_def)
  have wf': "table_wf ?lvl lo k'"
    by (rule wf_transfer [OF a(1)]) (use fold f in \<open>auto split: if_splits\<close>)
  have ag: "agree_but lvl f i k k'"
    using a(3) fold nf(1) by (auto simp: agree_but_def)
  have k'f: "tables k' f i = tables k2 f i" using fold nf2 by simp
  show ?thesis
  proof (rule that [OF br wf' a(2) ag])
    show "\<not> e_PS (tables k' f i)" "e_present (tables k' f i) = e_present (tables k f i)"
      using a(6,7) by (simp_all add: k'f)
    show "alloc_frame k' = alloc_frame k - 1"
      using a(5) fold(3) by (simp add: alloc_frame_def)
    show "tables k' (bf 12 40 (tables k' f i)) j =
       pte_set_page (pde_page (tables k f i) + 4096 * j) (set_present_rw 0)" if "j < 512" for j
    proof -
      have "tables k2 (new_frame k) j = 0" using nf2 by (simp add: k2_def nk new_frame_def)
      then have "tables k' (new_frame k) j =
          pte_set_page (pde_page (tables k f i) + 4096 * j) (set_present_rw 0)"
        using that by (simp add: fold)
      then show ?thesis using a(4) by (simp only: k'f)
    qed
  qed
qed


section \<open>What map establishes\<close>

lemma agree_keeps:
  "agree_but lvl f i k k' \<Longrightarrow> lvl g \<noteq> 0 \<Longrightarrow> g \<noteq> f \<Longrightarrow> tables k' g j = tables k g j"
  by (auto simp: agree_but_def)

lemma extends_lvl: "extends lvl lvl' \<Longrightarrow> lvl g = n \<Longrightarrow> 0 < n \<Longrightarrow> lvl' g = n"
  by (auto simp: extends_def)

text \<open>
  The path from the root to the final entry after a successful \<open>map\<close>, with the levels of the
  four tables on it.
\<close>

lemma map_page_path:
  assumes wf: "table_wf lvl lo k" and room: "lo + 4 \<le> alloc_frame k"
    and m: "map_page va phys k = Some k'"
  obtains lvl' f3 f2 f1 where
    "table_wf lvl' lo k'" "extends lvl lvl'" "alloc_frame k - 4 \<le> alloc_frame k'"
    "cr3_reg k' = cr3_reg k"
    "e_present (tables k' (cr3_PML4 (cr3_reg k)) (va_PML4 va))"
    "bf 12 40 (tables k' (cr3_PML4 (cr3_reg k)) (va_PML4 va)) = f3"
    "e_present (tables k' f3 (va_directoryPtr va))" "\<not> e_PS (tables k' f3 (va_directoryPtr va))"
    "bf 12 40 (tables k' f3 (va_directoryPtr va)) = f2"
    "\<not> e_PS (tables k' f2 0)"
    "e_present (tables k' f2 (va_directory va))" "\<not> e_PS (tables k' f2 (va_directory va))"
    "bf 12 40 (tables k' f2 (va_directory va)) = f1"
    "e_present (tables k' f1 (va_table va))" "bf 12 40 (tables k' f1 (va_table va)) = bf 12 40 phys"
proof -
  let ?f4 = "cr3_PML4 (cr3_reg k)"
  let ?k1 = "ensure_table ?f4 (va_PML4 va) k"
  define f3 where "f3 = bf 12 40 (tables ?k1 ?f4 (va_PML4 va))"
  let ?k2 = "ensure_table f3 (va_directoryPtr va) ?k1"
  define f2 where "f2 = bf 12 40 (tables ?k2 f3 (va_directoryPtr va))"
  have l4: "lvl ?f4 = 4" using wf by (simp add: table_wf_def)
  obtain l1 where 1: "table_wf l1 lo ?k1" "extends lvl l1" "agree_but lvl ?f4 (va_PML4 va) k ?k1"
    "l1 f3 = 3" "e_present (tables ?k1 ?f4 (va_PML4 va))" "alloc_frame k - 1 \<le> alloc_frame ?k1"
    by (rule ensure_table_wf [OF wf, of ?f4 "va_PML4 va"])
      (use l4 room in \<open>simp_all add: f3_def\<close>)
  have ps3: "\<not> e_PS (tables ?k1 f3 (va_directoryPtr va))"
    using m by (auto simp: map_page_def Let_def f3_def to_pd_def split: Option.bind_splits if_splits)
  obtain l2 where 2: "table_wf l2 lo ?k2" "extends l1 l2"
    "agree_but l1 f3 (va_directoryPtr va) ?k1 ?k2" "l2 f2 = 2"
    "e_present (tables ?k2 f3 (va_directoryPtr va))" "\<not> e_PS (tables ?k2 f3 (va_directoryPtr va))"
    "alloc_frame ?k1 - 1 \<le> alloc_frame ?k2"
    by (rule ensure_table_wf [OF 1(1), of f3 "va_directoryPtr va"])
      (use 1(4,6) room ps3 in \<open>simp_all add: f2_def\<close>)
  have pd: "to_pd (tables ?k1 f3 (va_directoryPtr va)) = Some ()" using ps3 by (simp add: to_pd_def)
  have m2: "Option.bind (if pde_type (tables ?k2 f2 0) = PD_2M then break_2m f2 0 ?k2 else Some ?k2)
      (\<lambda>k3. let f2' = bf 12 40 (tables k3 f3 (va_directoryPtr va)) in do {
         to_pt (tables k3 f2' (va_directory va));
         let k4 = ensure_table f2' (va_directory va) k3;
         let f1 = bf 12 40 (tables k4 f2' (va_directory va));
         Some (upd_entry f1 (va_table va) (\<lambda>e. pte_set_page phys (set_present_rw e)) k4)
       }) = Some k'"
    using m unfolding map_page_def Let_def f3_def [symmetric] pd f2_def [symmetric]
      bind.bind_lunit .
  then obtain k3 where
    k3: "(if pde_type (tables ?k2 f2 0) = PD_2M then break_2m f2 0 ?k2 else Some ?k2) = Some k3"
    unfolding bind_eq_Some_conv by blast
  have "\<exists>l3. table_wf l3 lo k3 \<and> extends l2 l3 \<and> agree_but l2 f2 0 ?k2 k3 \<and>
      \<not> e_PS (tables k3 f2 0) \<and> alloc_frame ?k2 - 1 \<le> alloc_frame k3"
  proof (cases "pde_type (tables ?k2 f2 0) = PD_2M")
    case True
    show ?thesis
      by (rule break_2m_wf [OF 2(1) _ 2(4), of 0])
        (use True k3 1(6) 2(7) room in auto)
  next
    case False
    then show ?thesis
      using k3 2(1) by (intro exI [of _ l2]) (auto simp: extends_def agree_but_def pde_type_def)
  qed
  then obtain l3 where 3: "table_wf l3 lo k3" "extends l2 l3" "agree_but l2 f2 0 ?k2 k3"
    "\<not> e_PS (tables k3 f2 0)" "alloc_frame ?k2 - 1 \<le> alloc_frame k3" by blast
  let ?k4 = "ensure_table f2 (va_directory va) k3"
  define f1 where "f1 = bf 12 40 (tables ?k4 f2 (va_directory va))"
  have l3f: "l3 ?f4 = 4" "l3 f3 = 3" "l3 f2 = 2" "l2 ?f4 = 4" "l2 f3 = 3" "l1 ?f4 = 4"
    using l4 1(2,4) 2(2,4) 3(2) by (simp_all add: extends_def)
  have ne: "?f4 \<noteq> f3" "?f4 \<noteq> f2" "f3 \<noteq> f2" using l3f by auto
  have f2': "bf 12 40 (tables k3 f3 (va_directoryPtr va)) = f2"
    using agree_keeps [OF 3(3), of f3] l3f ne by (simp add: f2_def)
  have ps2: "\<not> e_PS (tables k3 f2 (va_directory va))" and
    k': "k' = upd_entry f1 (va_table va) (\<lambda>e. pte_set_page phys (set_present_rw e)) ?k4"
    using m2 f2' unfolding k3
    by (auto simp: Let_def f1_def to_pt_def pde_type_def split: if_splits)
  obtain l5 where 4: "table_wf l5 lo ?k4" "extends l3 l5"
    "agree_but l3 f2 (va_directory va) k3 ?k4" "l5 f1 = 1"
    "e_present (tables ?k4 f2 (va_directory va))" "\<not> e_PS (tables ?k4 f2 (va_directory va))"
    "alloc_frame k3 - 1 \<le> alloc_frame ?k4"
    by (rule ensure_table_wf [OF 3(1), of f2 "va_directory va"])
      (use l3f 1(6) 2(7) 3(5) room ps2 in \<open>simp_all add: f1_def\<close>)
  have ne1: "f1 \<noteq> ?f4" "f1 \<noteq> f3" "f1 \<noteq> f2" using 4(2,4) l3f by (auto simp: extends_def)
  have t4: "tables k' ?f4 j = tables ?k1 ?f4 j" for j
    using agree_keeps [OF 4(3), of ?f4] agree_keeps [OF 3(3), of ?f4] agree_keeps [OF 2(3), of ?f4]
      l3f ne ne1 by (simp add: k')
  have t3: "tables k' f3 j = tables ?k2 f3 j" for j
    using agree_keeps [OF 4(3), of f3] agree_keeps [OF 3(3), of f3] l3f ne ne1 by (simp add: k')
  have t2: "tables k' f2 j = tables ?k4 f2 j" for j using ne1 by (simp add: k')
  have ps0: "\<not> e_PS (tables k' f2 0)"
    using 3(4) 4(3,6) l3f by (cases "va_directory va = 0") (auto simp: t2 agree_but_def)
  have wf': "table_wf l5 lo k'" unfolding k' by (rule upd_entry_wf [OF 4(1)]) (use 4(4) in simp_all)
  have ex: "extends lvl l5" using 1(2) 2(2) 3(2) 4(2) by (auto simp: extends_def)
  have cr: "cr3_reg k' = cr3_reg k" using 1(3) 2(3) 3(3) 4(3) by (simp add: k' agree_but_def)
  have af: "alloc_frame k - 4 \<le> alloc_frame k'" using 1(6) 2(7) 3(5) 4(7) by (simp add: k')
  have t1: "e_present (tables k' f1 (va_table va))" "bf 12 40 (tables k' f1 (va_table va)) = bf 12 40 phys"
    by (simp_all add: k')
  note p4 = 1(5) [folded t4] f3_def [folded t4, symmetric]
  note p3 = 2(5,6) [folded t3] f2_def [folded t3, symmetric]
  note p2 = 4(5,6) [folded t2] f1_def [folded t2, symmetric]
  show ?thesis by (rule that [OF wf' ex af cr p4 p3 ps0 p2 t1])
qed

section \<open>The hardware's view\<close>

text \<open>
  The translation an x86-64 processor performs with these tables (4-level paging): the
  specification against which \<open>map\<close> is judged. None is a page fault.
\<close>

definition x86_walk :: "kernel \<Rightarrow> u64 \<Rightarrow> u64 option" where
  "x86_walk k va = (
     let e4 = tables k (cr3_PML4 (cr3_reg k)) (va_PML4 va);
         e3 = tables k (bf 12 40 e4) (va_directoryPtr va);
         e2 = tables k (bf 12 40 e3) (va_directory va);
         e1 = tables k (bf 12 40 e2) (va_table va)
     in if \<not> e_present e4 then None
        else if \<not> e_present e3 then None
        else if e_PS e3 then Some (push_bit 30 (bf 30 22 e3) + bf 0 30 va)
        else if \<not> e_present e2 then None
        else if e_PS e2 then Some (push_bit 21 (bf 21 31 e2) + bf 0 21 va)
        else if \<not> e_present e1 then None
        else Some (push_bit 12 (bf 12 40 e1) + bf 0 12 va))"

text \<open>A state that satisfies \<open>table_wf\<close>: one empty root table below ten megabytes of free pages.\<close>

definition boot_kernel :: kernel where
  "boot_kernel = \<lparr>tables = (\<lambda>_ _. 0), allocation_addr = 1024 * 1024 * 10, cr3_reg = 0x2000000\<rparr>"

definition boot_lvl :: "u64 \<Rightarrow> nat" where
  "boot_lvl f = (if f = 0x2000 then 4 else 0)"

lemma boot_wf: "table_wf boot_lvl 1 boot_kernel" "alloc_frame boot_kernel = 2560"
  by (auto simp: table_wf_def boot_kernel_def boot_lvl_def is_table_ref_def bf_def cr3_PML4_def
      alloc_frame_def drop_bit_eq_div take_bit_eq_mod)


lemma ensure_table_entry:
  assumes "table_wf lvl lo k" "lo < alloc_frame k" "lvl f \<ge> 2" "i < 512"
    "lvl f = 4 \<or> \<not> e_PS (tables k f i)"
  shows "bf 12 40 (tables k f i) = 0 \<Longrightarrow>
      tables (ensure_table f i k) (bf 12 40 (tables (ensure_table f i k) f i)) j = 0"
    and "bf 12 40 (tables k f i) \<noteq> 0 \<Longrightarrow>
      bf 12 40 (tables (ensure_table f i k) f i) = bf 12 40 (tables k f i)"
proof -
  let ?k1 = "upd_entry f i set_present_rw k"
  have wf1: "table_wf lvl lo ?k1" by (rule upd_entry_wf [OF assms(1)]) simp_all
  show "tables (ensure_table f i k) (bf 12 40 (tables (ensure_table f i k) f i)) j = 0"
    if z: "bf 12 40 (tables k f i) = 0"
  proof -
    have ek: "ensure_table f i k = alloc_into f i ?k1" using z by (simp add: ensure_table_def)
    have "bf 12 40 (tables (alloc_into f i ?k1) f i) = new_frame ?k1"
      by (rule alloc_into_wf(4) [OF wf1]) (use assms in simp_all)
    moreover have "f \<noteq> new_frame ?k1" using new_frame_free(1) [OF wf1] assms(2,3) by auto
    ultimately show ?thesis unfolding ek by simp
  qed
  show "bf 12 40 (tables (ensure_table f i k) f i) = bf 12 40 (tables k f i)"
    if "bf 12 40 (tables k f i) \<noteq> 0"
    using that by (simp add: ensure_table_def)
qed

text \<open>The addresses \<open>map\<close> cannot handle: a 1G page, or a 2M page that is not the first of its table.\<close>

definition map_blocked :: "u64 \<Rightarrow> kernel \<Rightarrow> bool" where
  "map_blocked va k = (
     let e4 = tables k (cr3_PML4 (cr3_reg k)) (va_PML4 va);
         e3 = tables k (bf 12 40 e4) (va_directoryPtr va);
         e2 = tables k (bf 12 40 e3) (va_directory va)
     in bf 12 40 e4 \<noteq> 0 \<and>
        (e_PS e3 \<or> bf 12 40 e3 \<noteq> 0 \<and> va_directory va \<noteq> 0 \<and> e_PS e2))"

lemma map_page_None_iff:
  assumes wf: "table_wf lvl lo k" and room: "lo + 4 \<le> alloc_frame k"
  shows "map_page va phys k = None \<longleftrightarrow> map_blocked va k"
proof -
  let ?f4 = "cr3_PML4 (cr3_reg k)" and ?i3 = "va_directoryPtr va" and ?i2 = "va_directory va"
  let ?e4 = "tables k ?f4 (va_PML4 va)"
  let ?k1 = "ensure_table ?f4 (va_PML4 va) k"
  define f3 where "f3 = bf 12 40 (tables ?k1 ?f4 (va_PML4 va))"
  let ?k2 = "ensure_table f3 ?i3 ?k1"
  define f2 where "f2 = bf 12 40 (tables ?k2 f3 ?i3)"
  have l4: "lvl ?f4 = 4" using wf by (simp add: table_wf_def)
  have pre: "lo < alloc_frame k" "lvl ?f4 \<ge> 2" "va_PML4 va < 512"
    "lvl ?f4 = 4 \<or> \<not> e_PS (tables k ?f4 (va_PML4 va))" using l4 room by simp_all
  obtain l1 where 1: "table_wf l1 lo ?k1" "agree_but lvl ?f4 (va_PML4 va) k ?k1" "extends lvl l1"
    "l1 f3 = 3" "alloc_frame k - 1 \<le> alloc_frame ?k1"
    by (rule ensure_table_wf [OF wf pre]) (use l4 in \<open>simp_all add: f3_def\<close>)
  note e1 = ensure_table_entry [OF wf pre, folded f3_def]
  have l3: "lvl (bf 12 40 ?e4) = 3" if "bf 12 40 ?e4 \<noteq> 0"
    using wf l4 that pre(3) by (auto simp: table_wf_def is_table_ref_def)
  have t3: "tables ?k1 f3 j = (if bf 12 40 ?e4 = 0 then 0 else tables k (bf 12 40 ?e4) j)" for j
  proof (cases "bf 12 40 ?e4 = 0")
    case False
    then have "lvl f3 = 3" "f3 \<noteq> ?f4" using l3 e1(2) l4 by auto
    then show ?thesis using False e1(2) agree_keeps [OF 1(2)] by simp
  qed (use e1(1) in simp)
  show ?thesis
  proof (cases "e_PS (tables ?k1 f3 ?i3)")
    case True
    then have "map_page va phys k = None" by (simp add: map_page_def Let_def f3_def to_pd_def)
    moreover have "map_blocked va k"
      using True unfolding t3 map_blocked_def Let_def by (cases "bf 12 40 ?e4 = 0") simp_all
    ultimately show ?thesis by simp
  next
    case ps3: False
    have pre2: "lo < alloc_frame ?k1" "l1 f3 \<ge> 2" "?i3 < 512" "l1 f3 = 4 \<or> \<not> e_PS (tables ?k1 f3 ?i3)"
      using 1(4,5) room ps3 by simp_all
    obtain l2 where 2: "table_wf l2 lo ?k2" "agree_but l1 f3 ?i3 ?k1 ?k2" "extends l1 l2" "l2 f2 = 2"
      "alloc_frame ?k1 - 1 \<le> alloc_frame ?k2"
      by (rule ensure_table_wf [OF 1(1) pre2]) (use 1(4) in \<open>simp_all add: f2_def\<close>)
    note e2 = ensure_table_entry [OF 1(1) pre2, folded f2_def]
    have t2: "tables ?k2 f2 j = (if bf 12 40 (tables ?k1 f3 ?i3) = 0 then 0
        else tables k (bf 12 40 (tables ?k1 f3 ?i3)) j)" for j
    proof (cases "bf 12 40 (tables ?k1 f3 ?i3) = 0")
      case False
      then have 0: "bf 12 40 ?e4 \<noteq> 0" using t3 [of ?i3] by (auto simp: bf_def)
      have "is_table_ref lvl (bf 12 40 ?e4) (tables k (bf 12 40 ?e4) ?i3)"
        using False ps3 0 l3 by (simp add: is_table_ref_def t3)
      then have "lvl (bf 12 40 (tables k (bf 12 40 ?e4) ?i3)) = 2"
        using wf l3 [OF 0] by (auto simp: table_wf_def)
      then have l2f: "lvl f2 = 2" "l1 f2 = 2" using False e2(2) 0 1(3) by (auto simp: t3 extends_def)
      then have "f2 \<noteq> f3" "f2 \<noteq> ?f4" using 1(4) l4 by auto
      then have "tables ?k2 f2 j = tables k f2 j"
        using agree_keeps [OF 2(2), of f2] agree_keeps [OF 1(2), of f2] l2f by simp
      then show ?thesis using False e2(2) by simp
    qed (use e2(1) in simp)
    have "\<exists>k3. (if pde_type (tables ?k2 f2 0) = PD_2M then break_2m f2 0 ?k2 else Some ?k2) = Some k3
        \<and> agree_but l2 f2 0 ?k2 k3 \<and> \<not> e_PS (tables k3 f2 0)"
    proof (cases "pde_type (tables ?k2 f2 0) = PD_2M")
      case True
      show ?thesis
        by (rule break_2m_wf [OF 2(1) _ 2(4), of 0]) (use True 1(5) 2(5) room in auto)
    qed (auto simp: agree_but_def pde_type_def)
    then obtain k3 where k3:
      "(if pde_type (tables ?k2 f2 0) = PD_2M then break_2m f2 0 ?k2 else Some ?k2) = Some k3"
      "agree_but l2 f2 0 ?k2 k3" "\<not> e_PS (tables k3 f2 0)" by blast
    have "l2 f3 = 3" "f3 \<noteq> f2" using 1(4) 2(3,4) by (auto simp: extends_def)
    then have f2': "bf 12 40 (tables k3 f3 ?i3) = f2"
      using agree_keeps [OF k3(2), of f3] by (simp add: f2_def)
    have pd: "to_pd (tables ?k1 f3 ?i3) = Some ()" using ps3 by (simp add: to_pd_def)
    have "map_page va phys k = None \<longleftrightarrow> e_PS (tables k3 f2 ?i2)"
      unfolding map_page_def Let_def f3_def [symmetric] pd f2_def [symmetric] bind.bind_lunit k3(1) f2'
      by (auto simp: to_pt_def pde_type_def)
    also have "\<dots> \<longleftrightarrow> ?i2 \<noteq> 0 \<and> e_PS (tables ?k2 f2 ?i2)"
      using k3(2,3) 2(4) by (cases "?i2 = 0") (auto simp: agree_but_def)
    also have "\<dots> \<longleftrightarrow> map_blocked va k"
    proof (cases "bf 12 40 ?e4 = 0")
      case True
      then have "tables ?k2 f2 ?i2 = 0" unfolding t2 t3 by (simp only: if_True entry_zero refl)
      then show ?thesis using True by (simp only: map_blocked_def Let_def entry_zero simp_thms)
    next
      case z4: False
      then have k1: "tables ?k1 f3 ?i3 = tables k (bf 12 40 ?e4) ?i3" by (simp only: t3 if_False)
      with ps3 z4 have "map_blocked va k \<longleftrightarrow> bf 12 40 (tables ?k1 f3 ?i3) \<noteq> 0 \<and> ?i2 \<noteq> 0 \<and>
          e_PS (tables k (bf 12 40 (tables ?k1 f3 ?i3)) ?i2)"
        by (simp only: map_blocked_def Let_def simp_thms)
      then show ?thesis
        by (cases "bf 12 40 (tables ?k1 f3 ?i3) = 0") (simp_all only: t2 if_True if_False entry_zero simp_thms)
    qed
    finally show ?thesis .
  qed
qed


section \<open>Large pages\<close>

lemma bf_less_exp: "len < 64 \<Longrightarrow> unat (bf lo len x) < 2 ^ len"
  by (simp add: bf_def unsigned_take_bit_eq)

lemma pde2m_page_low:
  assumes "unat (bf 21 31 e) < 2 ^ 11"
  shows "unat (pde2m_page e) = unat (bf 21 31 e) * 2 ^ 20"
proof -
  let ?n = "bf 21 31 e"
  have "unat (ucast ?n :: u32) = unat ?n"
    using assms by (simp add: unsigned_ucast_eq take_bit_nat_eq_self)
  then have u: "unat (push_bit 20 (ucast ?n :: u32)) = unat ?n * 2 ^ 20"
    using assms by (simp add: push_bit_eq_mult unat_mult_lem [THEN iffD1])
  have "unat (push_bit 20 (ucast ?n :: u32)) < 2 ^ 31"
    using assms by (simp add: u)
  then have "\<not> bit (unat (push_bit 20 (ucast ?n :: u32))) 31"
    by (simp add: bit_iff_odd)
  then have "\<not> bit (push_bit 20 (ucast ?n :: u32)) 31"
    by (simp add: bit_unsigned_iff)
  then have "pde2m_page e = ucast (push_bit 20 (ucast ?n :: u32))"
    unfolding pde2m_page_def
    by (intro bit_eqI) (auto simp: bit_word_scast_iff bit_ucast_iff dest: bit_imp_le_length)
  then have "unat (pde2m_page e) = unat (push_bit 20 (ucast ?n :: u32))"
    by (simp add: unsigned_ucast_eq take_bit_nat_eq_self unsigned_less [THEN less_trans])
  then show ?thesis by (simp only: u)
qed


lemma frame_of_aligned:
  assumes "take_bit 12 a = 0" "unat a < 2 ^ 52"
  shows "push_bit 12 (bf 12 40 a) = a"
proof (rule bit_eqI)
  fix n
  have lo: "m < 12 \<Longrightarrow> \<not> bit a m" for m
    using assms(1) by (metis bit_take_bit_iff bit_0_eq bot_apply bot_bool_def)
  have "take_bit 52 a = a"
    using assms(2) by (simp add: word_unat_eq_iff unsigned_take_bit_eq take_bit_nat_eq_self)
  then have "bit a m \<Longrightarrow> m < 52" for m by (metis bit_take_bit_iff)
  note hi = this
  show "bit (push_bit 12 (bf 12 40 a)) n = bit a n"
  proof (cases "n < 12")
    case True
    then show ?thesis using lo [of n] by (simp add: bit_push_bit_iff)
  next
    case False
    then obtain m where m: "n = 12 + m" using le_Suc_ex [of 12 n] by auto
    then show ?thesis using hi [of n] by (auto simp: bit_push_bit_iff bit_bf dest: bit_imp_le_length)
  qed
qed

lemma boot_room: "1 + 4 \<le> alloc_frame boot_kernel"
  by (simp add: boot_wf(2))

lemma boot_maps: "\<exists>k'. map_page va p boot_kernel = Some k'"
proof -
  have "\<not> map_blocked va boot_kernel" by (simp add: map_blocked_def boot_kernel_def)
  then show ?thesis using map_page_None_iff [OF boot_wf(1) boot_room] by fastforce
qed

section \<open>Properties\<close>







text \<open>
  C32. Breaking a 2M page below 4 GiB into 4K pages keeps its translation only when the page
  starts at physical address 0: \<open>pde2m::page\<close> returns half of the page's base, so the new table
  maps the wrong memory for every other page.
\<close>

theorem break_2m_keeps_base_iff:
  assumes "table_wf lvl lo k" and "lo < alloc_frame k" and "lvl f = 2" and "i < 512"
    and "e_PS (tables k f i)" and "unat (bf 21 31 (tables k f i)) < 2 ^ 11"
  shows "\<exists>k'. break_2m f i k = Some k' \<and>
     ((\<forall>j < 512. pte_page (tables k' (bf 12 40 (tables k' f i)) j) =
         push_bit 21 (bf 21 31 (tables k f i)) + 4096 * j) \<longleftrightarrow> bf 21 31 (tables k f i) = 0)"
proof -
  let ?n = "bf 21 31 (tables k f i)"
  obtain k' where br: "break_2m f i k = Some k'"
    and tab: "\<And>j. j < 512 \<Longrightarrow> tables k' (bf 12 40 (tables k' f i)) j =
       pte_set_page (pde_page (tables k f i) + 4096 * j) (set_present_rw 0)"
    by (rule break_2m_wf [OF assms(1-4)], rule that)
  have pg: "pde_page (tables k f i) = pde2m_page (tables k f i)"
    using assms(5) by (simp add: pde_page_def pde_type_def)
  have un: "unat (pde2m_page (tables k f i)) = unat ?n * 2 ^ 20"
    by (rule pde2m_page_low [OF assms(6)])
  have page: "pte_page (tables k' (bf 12 40 (tables k' f i)) j) = pde2m_page (tables k f i) + 4096 * j"
    if "j < 512" for j
  proof -
    have j: "unat (4096 * j) = 4096 * unat j" "unat j < 512"
      using that by (simp_all add: unat_mult_lem [THEN iffD1] word_less_nat_alt)
    have sum: "unat (pde2m_page (tables k f i) + 4096 * j) = unat ?n * 2 ^ 20 + 4096 * unat j"
      using assms(6) un j by (simp add: unat_add_lem [THEN iffD1])
    have "unat ?n * 2 ^ 20 + 4096 * unat j = 4096 * (unat ?n * 2 ^ 8 + unat j)" by simp
    then have "(unat ?n * 2 ^ 20 + 4096 * unat j) mod 4096 = 0" by (metis mod_mult_self1_is_0)
    then have "unat ((pde2m_page (tables k f i) + 4096 * j) mod 4096) = 0"
      by (simp only: unat_mod sum unat_numeral) simp
    then have "take_bit 12 (pde2m_page (tables k f i) + 4096 * j) = 0"
      by (simp add: unat_eq_zero take_bit_eq_mod)
    moreover have "unat (pde2m_page (tables k f i) + 4096 * j) < 2 ^ 52"
      using assms(6) j(2) by (simp add: sum)
    ultimately show ?thesis
      using tab [OF that] by (simp add: pte_page_def frame_of_aligned pg)
  qed
  have pb: "unat (push_bit 21 ?n) = unat ?n * 2 ^ 21"
    using assms(6) by (simp add: push_bit_eq_mult unat_mult_lem [THEN iffD1])
  have "(\<forall>j < 512. pte_page (tables k' (bf 12 40 (tables k' f i)) j) = push_bit 21 ?n + 4096 * j)
      \<longleftrightarrow> pde2m_page (tables k f i) = push_bit 21 ?n"
  proof
    assume "\<forall>j < 512. pte_page (tables k' (bf 12 40 (tables k' f i)) j) = push_bit 21 ?n + 4096 * j"
    then have "pte_page (tables k' (bf 12 40 (tables k' f i)) 0) = push_bit 21 ?n" by simp
    then show "pde2m_page (tables k f i) = push_bit 21 ?n" using page [of 0] by simp
  qed (simp add: page)
  also have "\<dots> \<longleftrightarrow> ?n = 0"
    unfolding word_unat_eq_iff pb un by (simp add: unat_eq_zero)
  finally show ?thesis using br by blast
qed


text \<open>A table tree whose first page directory maps one 2M page at physical 2 MiB.\<close>

definition large_kernel :: kernel where
  "large_kernel = boot_kernel\<lparr>tables :=
     (\<lambda>f i. if f = 0x2001 \<and> i = 0 then 0x200083 else 0)\<rparr>"

definition large_lvl :: "u64 \<Rightarrow> nat" where
  "large_lvl f = (if f = 0x2000 then 4 else if f = 0x2001 then 2 else 0)"

lemma large_wf: "table_wf large_lvl 1 large_kernel" "1 < alloc_frame large_kernel"
  by (auto simp: table_wf_def large_kernel_def boot_kernel_def large_lvl_def is_table_ref_def
      cr3_PML4_def e_PS_def alloc_frame_def drop_bit_eq_div take_bit_eq_mod bf_def)

theorem break_2m_keeps_base_iff_witness:
  "\<exists>k'. break_2m 0x2001 0 large_kernel = Some k' \<and>
     \<not> (\<forall>j < 512. pte_page (tables k' (bf 12 40 (tables k' 0x2001 0)) j) =
         push_bit 21 (bf 21 31 (tables large_kernel 0x2001 0)) + 4096 * j)"
proof -
  have n: "bf 21 31 (tables large_kernel 0x2001 0) = 1" "e_PS (tables large_kernel 0x2001 0)"
    by (simp_all add: large_kernel_def bf_def e_PS_def drop_bit_eq_div take_bit_eq_mod)
  show ?thesis
    using break_2m_keeps_base_iff [OF large_wf, of "0x2001" 0] n by (simp add: large_lvl_def)
qed

text \<open>
  The \<open>vaddr\<close> constructor and \<open>to_u64\<close> give the canonical form of an address: bit 47 copied
  into all the bits above it.
\<close>

theorem vaddr_canonical: "to_u64 (vaddr_of u) = signed_take_bit 47 u"
  by (rule to_u64_vaddr_of)

end
