(* ===== verification/PdcString.thy ===== *)
theory PdcString
  imports Prelude "HOL-Library.Sublist"
begin

text \<open>
  The string functions of the C library linked into the kernel
  (pdclib/functions/string/*.c). Each function reads and writes the byte memory of the prelude;
  a loop that runs to a terminator is a \<open>partial_function (option)\<close>, so that None covers both a
  fault and a loop that does not end, and a loop over a count is primitive recursion.
\<close>

section \<open>Counted loops\<close>

primrec memchr_loop :: "mem \<Rightarrow> ptr \<Rightarrow> u8 \<Rightarrow> nat \<Rightarrow> ptr option" where
  "memchr_loop m p c 0 = Some NULL"
| "memchr_loop m p c (Suc n) = do {
     x \<leftarrow> m p;
     if x = c then Some p else memchr_loop m (Suc p) c n
   }"

definition memchr :: "mem \<Rightarrow> ptr \<Rightarrow> int \<Rightarrow> nat \<Rightarrow> ptr option" where
  "memchr m s c n = memchr_loop m s (of_int c) n"

primrec memcmp :: "mem \<Rightarrow> ptr \<Rightarrow> ptr \<Rightarrow> nat \<Rightarrow> int option" where
  "memcmp m p1 p2 0 = Some 0"
| "memcmp m p1 p2 (Suc n) = do {
     x \<leftarrow> m p1; y \<leftarrow> m p2;
     if x \<noteq> y then Some (uint x - uint y) else memcmp m (Suc p1) (Suc p2) n
   }"

primrec memcpy_loop :: "mem \<Rightarrow> ptr \<Rightarrow> ptr \<Rightarrow> nat \<Rightarrow> mem option" where
  "memcpy_loop m dest src 0 = Some m"
| "memcpy_loop m dest src (Suc n) = do {
     x \<leftarrow> m src; m' \<leftarrow> store m dest x;
     memcpy_loop m' (Suc dest) (Suc src) n
   }"

definition memcpy :: "mem \<Rightarrow> ptr \<Rightarrow> ptr \<Rightarrow> nat \<Rightarrow> (mem \<times> ptr) option" where
  "memcpy m s1 s2 n = do { m' \<leftarrow> memcpy_loop m s1 s2 n; Some (m', s1) }"

text \<open>\<open>memmove\<close>'s second loop: both pointers start one past the end and step down first.\<close>

primrec memmove_down :: "mem \<Rightarrow> ptr \<Rightarrow> ptr \<Rightarrow> nat \<Rightarrow> mem option" where
  "memmove_down m dest src 0 = Some m"
| "memmove_down m dest src (Suc n) = do {
     x \<leftarrow> m (src - 1); m' \<leftarrow> store m (dest - 1) x;
     memmove_down m' (dest - 1) (src - 1) n
   }"

definition memmove :: "mem \<Rightarrow> ptr \<Rightarrow> ptr \<Rightarrow> nat \<Rightarrow> (mem \<times> ptr) option" where
  "memmove m s1 s2 n = do {
     m' \<leftarrow> (if s1 \<le> s2 then memcpy_loop m s1 s2 n
            else memmove_down m (s1 + n) (s2 + n) n);
     Some (m', s1)
   }"

primrec memset_loop :: "mem \<Rightarrow> ptr \<Rightarrow> u8 \<Rightarrow> nat \<Rightarrow> mem option" where
  "memset_loop m p c 0 = Some m"
| "memset_loop m p c (Suc n) = do { m' \<leftarrow> store m p c; memset_loop m' (Suc p) c n }"

definition memset :: "mem \<Rightarrow> ptr \<Rightarrow> int \<Rightarrow> nat \<Rightarrow> (mem \<times> ptr) option" where
  "memset m s c n = do { m' \<leftarrow> memset_loop m s (of_int c) n; Some (m', s) }"

text \<open>The loop of \<open>strnlen\<close> counts \<open>len\<close> up to \<open>maxlen\<close>; \<open>k\<close> is what is left of it.\<close>

primrec strnlen_loop :: "mem \<Rightarrow> ptr \<Rightarrow> nat \<Rightarrow> nat \<Rightarrow> nat option" where
  "strnlen_loop m s len 0 = Some len"
| "strnlen_loop m s len (Suc k) = do {
     x \<leftarrow> m (s + len);
     if x = 0 then Some len else strnlen_loop m s (Suc len) k
   }"

definition strnlen :: "mem \<Rightarrow> ptr \<Rightarrow> nat \<Rightarrow> nat option" where
  "strnlen m s maxlen = strnlen_loop m s 0 maxlen"

primrec strncmp :: "mem \<Rightarrow> ptr \<Rightarrow> ptr \<Rightarrow> nat \<Rightarrow> int option" where
  "strncmp m s1 s2 0 = do { x \<leftarrow> m s1; Some 0 }"
| "strncmp m s1 s2 (Suc n) = do {
     x \<leftarrow> m s1;
     if x \<noteq> 0 then do {
       y \<leftarrow> m s2;
       if x = y then strncmp m (Suc s1) (Suc s2) n else Some (uint x - uint y)
     } else do { y \<leftarrow> m s2; Some (uint x - uint y) }
   }"

text \<open>\<open>strncpy\<close>: copy up to and including a NUL, then fill; \<open>n\<close> is left undecremented by the NUL.\<close>

primrec strncpy_copy :: "mem \<Rightarrow> ptr \<Rightarrow> ptr \<Rightarrow> nat \<Rightarrow> (mem \<times> ptr \<times> nat) option" where
  "strncpy_copy m s1 s2 0 = Some (m, s1, 0)"
| "strncpy_copy m s1 s2 (Suc n) = do {
     x \<leftarrow> m s2; m' \<leftarrow> store m s1 x;
     if x = 0 then Some (m', Suc s1, Suc n) else strncpy_copy m' (Suc s1) (Suc s2) n
   }"

primrec strncpy_fill :: "mem \<Rightarrow> ptr \<Rightarrow> nat \<Rightarrow> mem option" where
  "strncpy_fill m s1 0 = Some m"
| "strncpy_fill m s1 (Suc n) =
     (if Suc n > 1 then do { m' \<leftarrow> store m s1 0; strncpy_fill m' (Suc s1) n } else Some m)"

definition strncpy :: "mem \<Rightarrow> ptr \<Rightarrow> ptr \<Rightarrow> nat \<Rightarrow> (mem \<times> ptr) option" where
  "strncpy m s1 s2 n = do {
     (m', p, n') \<leftarrow> strncpy_copy m s1 s2 n;
     m'' \<leftarrow> strncpy_fill m' p n';
     Some (m'', s1)
   }"

section \<open>Loops to a terminator\<close>

partial_function (option) strlen_loop :: "mem \<Rightarrow> ptr \<Rightarrow> nat \<Rightarrow> nat option" where
  "strlen_loop m s rc = do {
     x \<leftarrow> m (s + rc);
     if x \<noteq> 0 then strlen_loop m s (Suc rc) else Some rc
   }"

definition strlen :: "mem \<Rightarrow> ptr \<Rightarrow> nat option" where
  "strlen m s = strlen_loop m s 0"

partial_function (option) strcpy_loop :: "mem \<Rightarrow> ptr \<Rightarrow> ptr \<Rightarrow> mem option" where
  "strcpy_loop m s1 s2 = do {
     x \<leftarrow> m s2; m' \<leftarrow> store m s1 x;
     if x \<noteq> 0 then strcpy_loop m' (Suc s1) (Suc s2) else Some m'
   }"

definition strcpy :: "mem \<Rightarrow> ptr \<Rightarrow> ptr \<Rightarrow> (mem \<times> ptr) option" where
  "strcpy m s1 s2 = do { m' \<leftarrow> strcpy_loop m s1 s2; Some (m', s1) }"

partial_function (option) skip_to_nul :: "mem \<Rightarrow> ptr \<Rightarrow> ptr option" where
  "skip_to_nul m s = do { x \<leftarrow> m s; if x \<noteq> 0 then skip_to_nul m (Suc s) else Some s }"

definition strcat :: "mem \<Rightarrow> ptr \<Rightarrow> ptr \<Rightarrow> (mem \<times> ptr) option" where
  "strcat m s1 s2 = do {
     x \<leftarrow> m s1;
     e \<leftarrow> (if x \<noteq> 0 then skip_to_nul m (Suc s1) else Some s1);
     m' \<leftarrow> strcpy_loop m e s2;
     Some (m', s1)
   }"

primrec strncat_copy :: "mem \<Rightarrow> ptr \<Rightarrow> ptr \<Rightarrow> nat \<Rightarrow> (mem \<times> ptr \<times> nat) option" where
  "strncat_copy m s1 s2 0 = Some (m, s1, 0)"
| "strncat_copy m s1 s2 (Suc n) = do {
     x \<leftarrow> m s2; m' \<leftarrow> store m s1 x;
     if x \<noteq> 0 then strncat_copy m' (Suc s1) (Suc s2) n else Some (m', Suc s1, Suc n)
   }"

definition strncat :: "mem \<Rightarrow> ptr \<Rightarrow> ptr \<Rightarrow> nat \<Rightarrow> (mem \<times> ptr) option" where
  "strncat m s1 s2 n = do {
     e \<leftarrow> skip_to_nul m s1;
     (m', p, n') \<leftarrow> strncat_copy m e s2 n;
     m'' \<leftarrow> (if n' = 0 then store m' p 0 else Some m');
     Some (m'', s1)
   }"

partial_function (option) strchr_loop :: "mem \<Rightarrow> ptr \<Rightarrow> u8 \<Rightarrow> ptr option" where
  "strchr_loop m s c = do {
     x \<leftarrow> m s;
     if x = c then Some s else if x \<noteq> 0 then strchr_loop m (Suc s) c else Some NULL
   }"

definition strchr :: "mem \<Rightarrow> ptr \<Rightarrow> int \<Rightarrow> ptr option" where
  "strchr m s c = strchr_loop m s (of_int c)"

partial_function (option) strrchr_len :: "mem \<Rightarrow> ptr \<Rightarrow> nat \<Rightarrow> nat option" where
  "strrchr_len m s i = do { x \<leftarrow> m (s + i); if x \<noteq> 0 then strrchr_len m s (Suc i) else Some (Suc i) }"

primrec strrchr_back :: "mem \<Rightarrow> ptr \<Rightarrow> u8 \<Rightarrow> nat \<Rightarrow> ptr option" where
  "strrchr_back m s c 0 = Some NULL"
| "strrchr_back m s c (Suc i) = do {
     x \<leftarrow> m (s + i);
     if x = c then Some (s + i) else strrchr_back m s c i
   }"

definition strrchr :: "mem \<Rightarrow> ptr \<Rightarrow> int \<Rightarrow> ptr option" where
  "strrchr m s c = do { i \<leftarrow> strrchr_len m s 0; strrchr_back m s (of_int c) i }"

partial_function (option) strcmp :: "mem \<Rightarrow> ptr \<Rightarrow> ptr \<Rightarrow> int option" where
  "strcmp m s1 s2 = do {
     x \<leftarrow> m s1;
     if x \<noteq> 0 then do {
       y \<leftarrow> m s2;
       if x = y then strcmp m (Suc s1) (Suc s2) else Some (uint x - uint y)
     } else do { y \<leftarrow> m s2; Some (uint x - uint y) }
   }"

text \<open>\<open>coll\<close> is the collation field of the current locale's character table.\<close>

partial_function (option) strcoll :: "(u8 \<Rightarrow> u8) \<Rightarrow> mem \<Rightarrow> ptr \<Rightarrow> ptr \<Rightarrow> int option" where
  "strcoll coll m s1 s2 = do {
     x \<leftarrow> m s1;
     if x \<noteq> 0 then do {
       y \<leftarrow> m s2;
       if coll x = coll y then strcoll coll m (Suc s1) (Suc s2)
       else Some (if coll x = coll y then 1 else 0)
     } else do { y \<leftarrow> m s2; Some (if coll x = coll y then 1 else 0) }
   }"

text \<open>
  The inner loop of \<open>strcspn\<close> and \<open>strpbrk\<close> and, with the pointer kept at the match, of
  \<open>strspn\<close>: is the byte \<open>c\<close> in the set string at \<open>p\<close>?
\<close>

partial_function (option) in_set_loop :: "mem \<Rightarrow> u8 \<Rightarrow> ptr \<Rightarrow> bool option" where
  "in_set_loop m c p = do {
     y \<leftarrow> m p;
     if y \<noteq> 0 then (if c = y then Some True else in_set_loop m c (Suc p)) else Some False
   }"

partial_function (option) strcspn_loop :: "mem \<Rightarrow> ptr \<Rightarrow> ptr \<Rightarrow> nat \<Rightarrow> nat option" where
  "strcspn_loop m s1 s2 len = do {
     x \<leftarrow> m (s1 + len);
     if x \<noteq> 0 then do {
       b \<leftarrow> in_set_loop m x s2;
       if b then Some len else strcspn_loop m s1 s2 (Suc len)
     } else Some len
   }"

definition strcspn :: "mem \<Rightarrow> ptr \<Rightarrow> ptr \<Rightarrow> nat option" where
  "strcspn m s1 s2 = strcspn_loop m s1 s2 0"

partial_function (option) strspn_loop :: "mem \<Rightarrow> ptr \<Rightarrow> ptr \<Rightarrow> nat \<Rightarrow> nat option" where
  "strspn_loop m s1 s2 len = do {
     x \<leftarrow> m (s1 + len);
     if x \<noteq> 0 then do {
       b \<leftarrow> in_set_loop m x s2;
       if \<not> b then Some len else strspn_loop m s1 s2 (Suc len)
     } else Some len
   }"

definition strspn :: "mem \<Rightarrow> ptr \<Rightarrow> ptr \<Rightarrow> nat option" where
  "strspn m s1 s2 = strspn_loop m s1 s2 0"

partial_function (option) strpbrk :: "mem \<Rightarrow> ptr \<Rightarrow> ptr \<Rightarrow> ptr option" where
  "strpbrk m p1 s2 = do {
     x \<leftarrow> m p1;
     if x \<noteq> 0 then do {
       b \<leftarrow> in_set_loop m x s2;
       if b then Some p1 else strpbrk m (Suc p1) s2
     } else Some NULL
   }"

text \<open>The inner loop of \<open>strstr\<close>: true when all of the needle at \<open>p2\<close> matched at \<open>p1\<close>.\<close>

partial_function (option) strstr_match :: "mem \<Rightarrow> ptr \<Rightarrow> ptr \<Rightarrow> bool option" where
  "strstr_match m p1 p2 = do {
     y \<leftarrow> m p2;
     if y \<noteq> 0 then do {
       x \<leftarrow> m p1;
       if x = y then strstr_match m (Suc p1) (Suc p2) else Some False
     } else Some True
   }"

partial_function (option) strstr :: "mem \<Rightarrow> ptr \<Rightarrow> ptr \<Rightarrow> ptr option" where
  "strstr m s1 s2 = do {
     x \<leftarrow> m s1;
     if x \<noteq> 0 then do {
       b \<leftarrow> strstr_match m s1 s2;
       if b then Some s1 else strstr m (Suc s1) s2
     } else Some NULL
   }"


section \<open>strtok, strxfrm, strdup\<close>

text \<open>Skipping the separators: after a hit the separator string is scanned again from its start.\<close>

partial_function (option) strtok_skip :: "mem \<Rightarrow> ptr \<Rightarrow> ptr \<Rightarrow> ptr \<Rightarrow> ptr option" where
  "strtok_skip m s2 p s1 = do {
     y \<leftarrow> m p;
     if y \<noteq> 0 then do {
       x \<leftarrow> m s1;
       if x \<noteq> 0 then (if x = y then strtok_skip m s2 s2 (Suc s1) else strtok_skip m s2 (Suc p) s1)
       else Some s1
     } else Some s1
   }"

text \<open>The scan for the token's end: Some address of the separator found, or NULL at the string's end.\<close>

partial_function (option) strtok_scan :: "mem \<Rightarrow> ptr \<Rightarrow> ptr \<Rightarrow> ptr option" where
  "strtok_scan m s2 tmp = do {
     x \<leftarrow> m tmp;
     if x \<noteq> 0 then do {
       b \<leftarrow> in_set_loop m x s2;
       if b then Some tmp else strtok_scan m s2 (Suc tmp)
     } else Some NULL
   }"

text \<open>\<open>tmp\<close> is the static variable: memory, new \<open>tmp\<close> and the returned pointer.\<close>

definition strtok :: "mem \<Rightarrow> ptr \<Rightarrow> ptr \<Rightarrow> ptr \<Rightarrow> (mem \<times> ptr \<times> ptr) option" where
  "strtok m tmp s1 s2 = (
     if s1 = NULL \<and> tmp = NULL then Some (m, tmp, NULL)
     else do {
       s \<leftarrow> strtok_skip m s2 s2 (if s1 \<noteq> NULL then s1 else tmp);
       x \<leftarrow> m s;
       if x = 0 then Some (m, NULL, NULL)
       else do {
         e \<leftarrow> strtok_scan m s2 s;
         if e = NULL then Some (m, NULL, s)
         else do { m' \<leftarrow> store m e 0; Some (m', Suc e, s) }
       }
     })"

primrec strxfrm_loop :: "(u8 \<Rightarrow> u8) \<Rightarrow> mem \<Rightarrow> ptr \<Rightarrow> ptr \<Rightarrow> nat \<Rightarrow> mem option" where
  "strxfrm_loop coll m s1 s2 0 = Some m"
| "strxfrm_loop coll m s1 s2 (Suc n) = do {
     x \<leftarrow> m s2; m' \<leftarrow> store m s1 (coll x);
     if coll x \<noteq> 0 then strxfrm_loop coll m' (Suc s1) (Suc s2) n else Some m'
   }"

definition strxfrm :: "(u8 \<Rightarrow> u8) \<Rightarrow> mem \<Rightarrow> ptr \<Rightarrow> ptr \<Rightarrow> nat \<Rightarrow> (mem \<times> nat) option" where
  "strxfrm coll m s1 s2 n = do {
     len \<leftarrow> strlen m s2;
     m' \<leftarrow> (if len < n then strxfrm_loop coll m s1 s2 n else Some m);
     Some (m', len)
   }"

text \<open>\<open>malloc\<close> (not part of the C library's sources here) is a parameter.\<close>

definition strdup :: "(mem \<Rightarrow> nat \<Rightarrow> mem \<times> ptr) \<Rightarrow> mem \<Rightarrow> ptr \<Rightarrow> (mem \<times> ptr) option" where
  "strdup malloc m s = (
     if s \<noteq> NULL then do {
       l \<leftarrow> strlen m s;
       let len = l + 1;
       let (m', ns) = malloc m len;
       m'' \<leftarrow> (if ns \<noteq> NULL then map_option fst (strncpy m' ns s len) else Some m');
       Some (m'', ns)
     } else Some (m, NULL))"

definition strndup :: "(mem \<Rightarrow> nat \<Rightarrow> mem \<times> ptr) \<Rightarrow> mem \<Rightarrow> ptr \<Rightarrow> nat \<Rightarrow> (mem \<times> ptr) option" where
  "strndup malloc m s len = (
     if s \<noteq> NULL then (
       let (m', ns) = malloc m (len + 1)
       in if ns \<noteq> NULL then do { m'' \<leftarrow> store m' (ns + len) 0; strncpy m'' ns s len }
          else Some (m', ns))
     else Some (m, NULL))"

section \<open>Functional behaviour\<close>

lemma strlen_loop_cstr: "cstr m (p + rc) s \<Longrightarrow> strlen_loop m p rc = Some (rc + length s)"
  by (induction s arbitrary: rc) (subst strlen_loop.simps, auto simp: mem_simps)+

lemma strlen_cstr: "cstr m p s \<Longrightarrow> strlen m p = Some (length s)"
  using strlen_loop_cstr [of m p 0] by (simp add: strlen_def)

lemma skip_to_nul_cstr: "cstr m p s \<Longrightarrow> skip_to_nul m p = Some (p + length s)"
  by (induction s arbitrary: p) (subst skip_to_nul.simps, auto simp: mem_simps)+

lemma in_set_loop_cstr: "cstr m p t \<Longrightarrow> in_set_loop m c p = Some (c \<in> set t)"
  by (induction t arbitrary: p) (subst in_set_loop.simps, auto simp: mem_simps)+

lemma strspn_loop_cstr:
  "cstr m (p + n) s \<Longrightarrow> cstr m q t \<Longrightarrow>
   strspn_loop m p q n = Some (n + length (takeWhile (\<lambda>c. c \<in> set t) s))"
  by (induction s arbitrary: n)
    (subst strspn_loop.simps, auto simp: mem_simps in_set_loop_cstr)+

lemma strcspn_loop_cstr:
  "cstr m (p + n) s \<Longrightarrow> cstr m q t \<Longrightarrow>
   strcspn_loop m p q n = Some (n + length (takeWhile (\<lambda>c. c \<notin> set t) s))"
  by (induction s arbitrary: n)
    (subst strcspn_loop.simps, auto simp: mem_simps in_set_loop_cstr)+

lemma strnlen_loop_cstr:
  "cstr m (p + n) s \<Longrightarrow> strnlen_loop m p n k = Some (n + min k (length s))"
proof (induction k arbitrary: n s)
  case (Suc k)
  then show ?case by (cases s) (auto simp: mem_simps)
qed simp

lemma strcmp_cstr:
  "cstr m p s \<Longrightarrow> cstr m q t \<Longrightarrow>
   \<exists>r. strcmp m p q = Some r \<and> (r = 0 \<longleftrightarrow> s = t) \<and> (r < 0 \<longleftrightarrow> ord_class.lexordp s t)"
proof (induction s arbitrary: p q t)
  case Nil
  then show ?case
    by (subst strcmp.simps, cases t)
      (auto simp: mem_simps word_greater_zero_iff uint_0_iff
        less_le simp del: word_neq_0_conv)
next
  case (Cons x s)
  show ?case
  proof (cases t)
    case Nil
    then show ?thesis using Cons.prems
      by (subst strcmp.simps) (auto simp: mem_simps not_less uint_0_iff simp del: word_neq_0_conv)
  next
    case (Cons y u)
    then show ?thesis
      using Cons.prems Cons.IH [of "Suc p" "Suc q" u]
      by (subst strcmp.simps) (auto simp: mem_simps word_less_def word_uint_eq_iff)
  qed
qed


lemma memcpy_loop_write:
  "bytes_at m src xs \<Longrightarrow> mapped m dest (length xs) \<Longrightarrow>
   dest \<le> src \<or> src + length xs \<le> dest \<Longrightarrow>
   memcpy_loop m dest src (length xs) = Some (write_bytes m dest xs)"
proof (induction xs arbitrary: m dest src)
  case (Cons x xs)
  have "bytes_at (m(dest \<mapsto> x)) (Suc src) xs"
    using Cons.prems by (subst bytes_at_upd) auto
  then show ?case
    using Cons.prems Cons.IH [of "m(dest \<mapsto> x)" "Suc src" "Suc dest"]
    by (auto simp: mem_simps simp del: fun_upd_apply)
qed simp

lemma memmove_down_write:
  "bytes_at m src xs \<Longrightarrow> mapped m dest (length xs) \<Longrightarrow> src < dest \<Longrightarrow>
   memmove_down m (dest + length xs) (src + length xs) (length xs) = Some (write_bytes m dest xs)"
proof (induction xs arbitrary: m rule: rev_induct)
  case (snoc x xs)
  let ?m = "m(dest + length xs \<mapsto> x)"
  have "m (dest + length xs) \<noteq> None" using snoc.prems(2) by (simp add: mapped_def)
  then obtain y where y: "m (dest + length xs) = Some y" by auto
  have x: "m (src + length xs) = Some x" and xs: "bytes_at m src xs"
    using snoc.prems(1) by (simp_all add: bytes_at_append)
  have "bytes_at ?m src xs" using xs snoc.prems(3) by (subst bytes_at_upd) auto
  moreover have "mapped ?m dest (length xs)"
    using snoc.prems(2) by (auto simp: mapped_def)
  ultimately have "memmove_down ?m (dest + length xs) (src + length xs) (length xs)
      = Some (write_bytes ?m dest xs)"
    using snoc.IH snoc.prems(3) by blast
  then show ?case using x y by (simp add: mem_simps write_bytes_snoc)
qed simp

lemma strcpy_loop_write:
  "cstr m q s \<Longrightarrow> mapped m p (Suc (length s)) \<Longrightarrow> p + length s < q \<or> q + length s < p \<Longrightarrow>
   strcpy_loop m p q = Some (write_bytes m p (s @ [0]))"
proof (induction s arbitrary: m p q)
  case Nil
  then show ?case by (subst strcpy_loop.simps) (auto simp: mem_simps)
next
  case (Cons x s)
  have src: "cstr (m(p \<mapsto> x)) (Suc q) s"
    using Cons.prems by (subst cstr_upd) (auto simp: mem_simps)
  obtain y where y: "m p = Some y" "mapped m (Suc p) (Suc (length s))"
    using Cons.prems(2) mapped_Suc [of m p "Suc (length s)"] by auto
  have "strcpy_loop (m(p \<mapsto> x)) (Suc p) (Suc q) = Some (write_bytes (m(p \<mapsto> x)) (Suc p) (s @ [0]))"
    by (rule Cons.IH [OF src mapped_upd [OF y(2)]]) (use Cons.prems(3) in auto)
  then show ?case
    using Cons.prems(1) y(1) by (subst strcpy_loop.simps) (simp add: mem_simps)
qed

lemma strncpy_copy_write:
  "cstr m q s \<Longrightarrow> mapped m p n \<Longrightarrow> p + n \<le> q \<or> q + length s < p \<Longrightarrow>
   strncpy_copy m p q n =
     Some (if length s < n
       then (write_bytes m p (s @ [0]), p + Suc (length s), n - length s)
       else (write_bytes m p (take n s), p + n, 0))"
proof (induction n arbitrary: m p q s)
  case (Suc n)
  show ?case
  proof (cases s)
    case Nil
    then show ?thesis using Suc.prems by (auto simp: mem_simps)
  next
    case (Cons x t)
    have "cstr (m(p \<mapsto> x)) (Suc q) t"
      using Suc.prems Cons by (subst cstr_upd) (auto simp: mem_simps)
    then show ?thesis
      using Suc.prems Suc.IH [of "m(p \<mapsto> x)" "Suc q" t "Suc p"] Cons
      by (auto simp: mem_simps simp del: fun_upd_apply)
  qed
qed simp

lemma strncpy_fill_write:
  "mapped m p (n - 1) \<Longrightarrow> strncpy_fill m p n = Some (write_bytes m p (replicate (n - 1) 0))"
proof (induction n arbitrary: m p)
  case (Suc n)
  show ?case
  proof (cases n)
    case (Suc k)
    then show ?thesis using Suc.prems Suc.IH [of "m(p \<mapsto> 0)" "Suc p"] by (auto simp: mem_simps simp del: fun_upd_apply)
  qed simp
qed simp


lemma strncpy_write:
  assumes "cstr m q s" "mapped m p n" "p + n \<le> q \<or> q + length s < p"
  shows "strncpy m p q n = Some (write_bytes m p (take n s @ replicate (n - length s) 0), p)"
proof (cases "length s < n")
  case True
  let ?m = "write_bytes m p (s @ [0])"
  have "mapped ?m (p + Suc (length s)) (n - length s - 1)"
    by (rule mapped_write_bytes [OF mapped_sub [OF assms(2)]]) (use True in simp)
  then have "strncpy_fill ?m (p + Suc (length s)) (n - length s) =
      Some (write_bytes ?m (p + Suc (length s)) (replicate (n - length s - 1) 0))"
    by (rule strncpy_fill_write)
  also have "write_bytes ?m (p + Suc (length s)) (replicate (n - length s - 1) 0) =
      write_bytes m p ((s @ [0]) @ replicate (n - length s - 1) 0)"
    by (simp only: write_bytes_append) simp
  also have "(s @ [0]) @ replicate (n - length s - 1) 0 = s @ replicate (n - length s) 0"
    using True by (cases "n - length s") auto
  finally show ?thesis
    using True strncpy_copy_write [OF assms] by (simp add: strncpy_def)
next
  case False
  then show ?thesis using strncpy_copy_write [OF assms] by (simp add: strncpy_def)
qed

lemma strcat_write:
  assumes d: "cstr m p t" and q: "cstr m q s" and mp: "mapped m (p + length t) (Suc (length s))"
    and dis: "p + length t + length s < q \<or> q + length s < p + length t"
  shows "strcat m p q = Some (write_bytes m (p + length t) (s @ [0]), p)"
proof -
  have "\<exists>x. m p = Some x \<and>
      (if x \<noteq> 0 then skip_to_nul m (Suc p) else Some p) = Some (p + length t)"
    using d by (cases t) (auto simp: mem_simps skip_to_nul_cstr)
  then show ?thesis
    using strcpy_loop_write [OF q mp dis] by (auto simp: strcat_def)
qed

lemma strncat_copy_write:
  "cstr m q s \<Longrightarrow> mapped m p n \<Longrightarrow> p + n \<le> q \<or> q + length s < p \<Longrightarrow>
   strncat_copy m p q n = strncpy_copy m p q n"
proof (induction n arbitrary: m p q s)
  case (Suc n)
  obtain x where x: "m q = Some x" using Suc.prems(1) by (cases s) (auto simp: mem_simps)
  obtain y where y: "m p = Some y" "mapped m (Suc p) n" using Suc.prems(2) by (auto simp: mem_simps)
  show ?case
  proof (cases s)
    case (Cons c t)
    have src: "cstr (m(p \<mapsto> c)) (Suc q) t"
      using Suc.prems Cons by (subst cstr_upd) (auto simp: mem_simps)
    have "strncat_copy (m(p \<mapsto> c)) (Suc p) (Suc q) n = strncpy_copy (m(p \<mapsto> c)) (Suc p) (Suc q) n"
      by (rule Suc.IH [OF src mapped_upd [OF y(2)]]) (use Suc.prems(3) Cons in auto)
    then show ?thesis using x y Suc.prems(1) Cons by (simp add: mem_simps)
  qed (use Suc.prems(1) in \<open>simp add: mem_simps\<close>)
qed simp

lemma strncat_write:
  assumes d: "cstr m p t" and q: "cstr m q s" and mp: "mapped m (p + length t) (Suc n)"
    and dis: "p + length t + n \<le> q \<or> q + length s < p + length t"
  shows "strncat m p q n = Some (write_bytes m (p + length t) (take n s @ [0]), p)"
proof -
  let ?e = "p + length t"
  have "strncat_copy m ?e q n = strncpy_copy m ?e q n"
    by (rule strncat_copy_write [OF q mapped_le [OF mp]]) (use dis in auto)
  then have cp: "strncat_copy m ?e q n = Some (if length s < n
       then (write_bytes m ?e (s @ [0]), ?e + Suc (length s), n - length s)
       else (write_bytes m ?e (take n s), ?e + n, 0))"
    using strncpy_copy_write [OF q mapped_le [OF mp]] dis by simp
  show ?thesis
  proof (cases "length s < n")
    case True
    then show ?thesis using cp by (simp add: strncat_def skip_to_nul_cstr [OF d])
  next
    case False
    have "write_bytes m ?e (take n s) (?e + n) \<noteq> None"
      using mp False by (simp add: write_bytes_apply mapped_def)
    then have "store (write_bytes m ?e (take n s)) (?e + n) 0 =
        Some ((write_bytes m ?e (take n s))(?e + n \<mapsto> 0))"
      by (simp add: store_def)
    also have "(write_bytes m ?e (take n s))(?e + n \<mapsto> 0) = write_bytes m ?e (take n s @ [0])"
      using False by (simp only: write_bytes_append) simp
    finally show ?thesis using cp False by (simp add: strncat_def skip_to_nul_cstr [OF d])
  qed
qed

lemma memmove_write:
  assumes "bytes_at m src xs" "mapped m dest (length xs)"
  shows "memmove m dest src (length xs) = Some (write_bytes m dest xs, dest)"
  using assms memcpy_loop_write [of m src xs dest] memmove_down_write [of m src xs dest]
  by (simp add: memmove_def)

lemma memcmp_bytes:
  "bytes_at m p xs \<Longrightarrow> bytes_at m q ys \<Longrightarrow> length xs = length ys \<Longrightarrow>
   \<exists>r. memcmp m p q (length xs) = Some r \<and> (r = 0 \<longleftrightarrow> xs = ys) \<and> (r < 0 \<longleftrightarrow> ord_class.lexordp xs ys)"
proof (induction xs arbitrary: p q ys)
  case (Cons x xs)
  then obtain y zs where "ys = y # zs" by (cases ys) auto
  then show ?case
    using Cons.prems Cons.IH [of "Suc p" "Suc q" zs]
    by (auto simp: word_less_def word_uint_eq_iff)
qed simp

lemma strchr_loop_cstr:
  "cstr m p s \<Longrightarrow> strchr_loop m p c =
     Some (if c \<in> set s \<or> c = 0 then p + length (takeWhile (\<lambda>x. x \<noteq> c) s) else NULL)"
  by (induction s arbitrary: p) (subst strchr_loop.simps, auto simp: mem_simps)+

lemma strrchr_len_cstr: "cstr m (p + i) s \<Longrightarrow> strrchr_len m p i = Some (Suc (i + length s))"
  by (induction s arbitrary: i) (subst strrchr_len.simps, auto simp: mem_simps)+

lemma strrchr_back_bytes:
  "bytes_at m p xs \<Longrightarrow> strrchr_back m p c (length xs) =
     Some (if c \<in> set xs then p + (length xs - 1 - length (takeWhile (\<lambda>x. x \<noteq> c) (rev xs))) else NULL)"
  by (induction xs rule: rev_induct) (auto simp: bytes_at_append)

lemma strcoll_cstr:
  "cstr m p s \<Longrightarrow> cstr m q t \<Longrightarrow> coll 0 \<notin> coll ` (set s \<union> set t) \<Longrightarrow>
   strcoll coll m p q = Some (if map coll s = map coll t then 1 else 0)"
proof (induction s arbitrary: p q t)
  case Nil
  then show ?case by (subst strcoll.simps, cases t) (auto simp: mem_simps)
next
  case (Cons x s)
  then show ?case
    by (subst strcoll.simps, cases t) (auto simp: mem_simps)
qed


lemma strstr_match_cstr: "cstr m p s \<Longrightarrow> cstr m q t \<Longrightarrow> strstr_match m p q = Some (prefix t s)"
proof (induction t arbitrary: p q s)
  case Nil
  then show ?case by (subst strstr_match.simps) (simp add: mem_simps)
next
  case (Cons y t)
  then show ?case
    by (subst strstr_match.simps, cases s) (auto simp: mem_simps)
qed

text \<open>The C standard's \<open>strstr\<close>: the first index at which the needle occurs.\<close>

fun find_sub :: "u8 list \<Rightarrow> u8 list \<Rightarrow> nat option" where
  "find_sub t [] = (if t = [] then Some 0 else None)"
| "find_sub t (x # s) = (if prefix t (x # s) then Some 0 else map_option Suc (find_sub t s))"

lemma find_sub_Some_iff:
  "find_sub t s = Some i \<longleftrightarrow>
     i \<le> length s \<and> prefix t (drop i s) \<and> (\<forall>j < i. \<not> prefix t (drop j s))"
proof (induction s arbitrary: i)
  case (Cons x s)
  show ?case by (cases i) (auto simp: Cons.IH All_less_Suc2)
qed auto

lemma sublist_iff_find_sub: "sublist t s \<longleftrightarrow> find_sub t s \<noteq> None"
  by (induction s) (auto simp: sublist_Cons_right)

lemma strstr_cstr:
  "cstr m p s \<Longrightarrow> cstr m q t \<Longrightarrow> strstr m p q =
     Some (if s = [] then NULL else case find_sub t s of None \<Rightarrow> NULL | Some i \<Rightarrow> p + i)"
proof (induction s arbitrary: p)
  case Nil
  then show ?case by (subst strstr.simps) (simp add: mem_simps)
next
  case (Cons x s)
  have mt: "strstr_match m p q = Some (prefix t (x # s))"
    using Cons.prems by (rule strstr_match_cstr)
  have tl: "s = [] \<Longrightarrow> \<not> prefix t (x # s) \<Longrightarrow> find_sub t s = None" by auto
  show ?case
    using Cons.prems mt tl
    by (subst strstr.simps) (auto simp: mem_simps Cons.IH split: option.splits)
qed

lemma strtok_skip_char:
  "m s1 = Some x \<Longrightarrow> x \<noteq> 0 \<Longrightarrow> cstr m p b \<Longrightarrow>
   strtok_skip m q p s1 = (if x \<in> set b then strtok_skip m q q (Suc s1) else Some s1)"
  by (induction b arbitrary: p) (subst strtok_skip.simps, auto simp: mem_simps)+

lemma strtok_skip_cstr:
  "cstr m s1 s \<Longrightarrow> cstr m q seps \<Longrightarrow>
   strtok_skip m q q s1 = Some (s1 + length (takeWhile (\<lambda>c. c \<in> set seps) s))"
proof (induction s arbitrary: s1)
  case Nil
  then show ?case by (subst strtok_skip.simps, cases seps) (auto simp: mem_simps)
next
  case (Cons x s)
  then have "strtok_skip m q q s1 =
      (if x \<in> set seps then strtok_skip m q q (Suc s1) else Some s1)"
    by (intro strtok_skip_char) (auto simp: mem_simps)
  then show ?case using Cons by (auto simp: mem_simps)
qed

lemma strtok_scan_cstr:
  "cstr m p s \<Longrightarrow> cstr m q seps \<Longrightarrow> strtok_scan m q p =
     Some (if set s \<inter> set seps = {} then NULL else p + length (takeWhile (\<lambda>c. c \<notin> set seps) s))"
proof (induction s arbitrary: p)
  case Nil
  then show ?case by (subst strtok_scan.simps) (simp add: mem_simps)
next
  case (Cons x s)
  have b: "in_set_loop m x q = Some (x \<in> set seps)"
    using Cons.prems by (auto simp: mem_simps in_set_loop_cstr)
  have ih: "strtok_scan m q (Suc p) = Some (if set s \<inter> set seps = {} then NULL
      else Suc p + length (takeWhile (\<lambda>c. c \<notin> set seps) s))"
    using Cons by (simp add: mem_simps)
  show ?case using Cons.prems b ih by (subst strtok_scan.simps) (simp add: mem_simps)
qed

lemma dropWhile_eq_drop_takeWhile: "dropWhile P s = drop (length (takeWhile P s)) s"
  by (induction s) auto

text \<open>One call of \<open>strtok\<close> on a string: the leading separators, the token, what follows.\<close>

lemma strtok_cut:
  assumes s: "cstr m p s" and q: "cstr m q seps" and p: "p \<noteq> NULL"
    and dis: "p + length s < q \<or> q + length seps < p"
    and rest: "dropWhile (\<lambda>c. c \<in> set seps) s = tok @ x # r" and x: "x \<in> set seps"
    and tok: "set tok \<inter> set seps = {}"
  defines "b \<equiv> p + length (takeWhile (\<lambda>c. c \<in> set seps) s)"
  shows "tok \<noteq> [] \<and> strtok m tmp p q = Some (m(b + length tok \<mapsto> 0), b + length tok + 1, b) \<and>
    cstr (m(b + length tok \<mapsto> 0)) b tok \<and> cstr (m(b + length tok \<mapsto> 0)) (b + length tok + 1) r \<and>
    cstr (m(b + length tok \<mapsto> 0)) q seps"
proof -
  have len: "length (takeWhile (\<lambda>c. c \<in> set seps) s) + length (tok @ x # r) = length s"
    using rest by (metis length_append takeWhile_dropWhile_id)
  have rs: "cstr m b (tok @ x # r)"
    using cstr_drop [OF s, of "length (takeWhile (\<lambda>c. c \<in> set seps) s)"] rest len
    by (simp add: b_def dropWhile_eq_drop_takeWhile)
  have ne: "tok \<noteq> []"
  proof
    assume "tok = []"
    then have "hd (dropWhile (\<lambda>c. c \<in> set seps) s) \<in> set seps" using rest x by simp
    then show False using rest hd_dropWhile [of "\<lambda>c. c \<in> set seps" s] by auto
  qed
  have tw: "takeWhile (\<lambda>c. c \<notin> set seps) (tok @ x # r) = tok"
    using tok x by (subst takeWhile_append2) auto
  have first: "m b \<noteq> Some 0" "m b \<noteq> None" using rs ne by (cases tok; auto simp: mem_simps)+
  have skip: "strtok_skip m q q p = Some b" using strtok_skip_cstr [OF s q] by (simp add: b_def)
  have scan: "strtok_scan m q b = Some (b + length tok)"
    using strtok_scan_cstr [OF rs q] tw x by auto
  have at: "m (b + length tok) = Some x" "cstr m (b + length tok + 1) r"
    using cstr_nth [OF rs, of "length tok"] cstr_drop [OF rs, of "Suc (length tok)"]
    by auto
  have z: "0 \<notin> set tok" using rs by (simp add: cstr_def)
  have "bytes_at m b tok" using rs by (simp add: cstr_def bytes_at_append)
  then have "cstr (m(b + length tok \<mapsto> 0)) b tok"
    using z by (simp add: cstr_def bytes_at_append bytes_at_upd del: fun_upd_apply) simp
  moreover have "cstr (m(b + length tok \<mapsto> 0)) (b + length tok + 1) r"
    by (subst cstr_upd) (use at in auto)
  moreover have "cstr (m(b + length tok \<mapsto> 0)) q seps"
    by (subst cstr_upd) (use q dis len in \<open>auto simp: b_def\<close>)
  ultimately show ?thesis
    using ne first skip scan at p
    by (auto simp: strtok_def mem_simps NULL_def simp del: fun_upd_apply)
qed

section \<open>Properties\<close>

text \<open>
  C38. \<open>memmove\<close> copies correctly for every overlap of source and destination: the bytes that were
  at the source are afterwards at the destination and nothing else changes.
\<close>

theorem memmove_overlap_safe:
  assumes "bytes_at m src xs" and "mapped m dest (length xs)"
  shows "\<exists>m'. memmove m dest src (length xs) = Some (m', dest) \<and> bytes_at m' dest xs \<and>
    (\<forall>a. a < dest \<or> dest + length xs \<le> a \<longrightarrow> m' a = m a)"
  using memmove_write [OF assms] by (auto simp: write_bytes_bytes write_bytes_other)

theorem memmove_overlap_safe_witness:
  "\<exists>m'. memmove (mem_of 10 [1, 2, 3, 4]) 11 10 3 = Some (m', 11) \<and> bytes_at m' 11 [1, 2, 3]"
  using memmove_overlap_safe [of "mem_of 10 [1, 2, 3, 4]" 10 "[1, 2, 3]" 11]
  by (simp add: mapped_def less_Suc_eq numeral_eq_Suc) blast

text \<open>
  \<open>strcmp\<close> returns 0 exactly on equal strings and a negative number exactly when the first
  string comes before the second in the lexicographic order of unsigned bytes.
\<close>

theorem strcmp_lexicographic:
  assumes "cstr m p s" and "cstr m q t"
  shows "\<exists>r. strcmp m p q = Some r \<and> (r = 0 \<longleftrightarrow> s = t) \<and> (r < 0 \<longleftrightarrow> ord_class.lexordp s t)"
  using assms by (rule strcmp_cstr)

theorem strcmp_lexicographic_witness:
  "\<exists>r. strcmp (mem_of 1 [97, 0, 200, 0]) 1 3 = Some r \<and> r < 0"
proof -
  have "cstr (mem_of 1 [97, 0, 200, 0]) 1 [97]" "cstr (mem_of 1 [97, 0, 200, 0]) 3 [200]"
    by (simp_all add: cstr_def)
  from strcmp_lexicographic [OF this] show ?thesis by auto
qed

text \<open>
  \<open>strncpy\<close> writes exactly \<open>n\<close> bytes: the string cut at \<open>n\<close>, padded with NULs to \<open>n\<close>.
\<close>

theorem strncpy_pads:
  assumes "cstr m q s" and "mapped m p n" and "p + n \<le> q \<or> q + length s < p"
  shows "\<exists>m'. strncpy m p q n = Some (m', p) \<and>
    bytes_at m' p (take n s @ replicate (n - length s) 0) \<and>
    (\<forall>a. a < p \<or> p + n \<le> a \<longrightarrow> m' a = m a)"
  using strncpy_write [OF assms]
  by (auto simp: write_bytes_bytes intro!: write_bytes_other simp del: bytes_at_append)

theorem strncpy_pads_witness:
  "\<exists>m'. strncpy (mem_of 1 [97, 0, 5, 5, 5, 5]) 3 1 4 = Some (m', 3) \<and> bytes_at m' 3 [97, 0, 0, 0]"
proof -
  let ?m = "mem_of 1 [97, 0, 5, 5, 5, 5]"
  have "cstr ?m 1 [97]" by (simp add: cstr_def)
  moreover have "mapped ?m 3 4" by (simp add: mapped_def less_Suc_eq numeral_eq_Suc)
  moreover have "replicate (4 - length [97 :: u8]) (0 :: u8) = [0, 0, 0]" by (simp add: numeral_eq_Suc)
  ultimately show ?thesis using strncpy_pads [of ?m 1 "[97]" 3 4] by auto
qed

text \<open>
  One call of \<open>strtok\<close> on a string with a separator after its first token returns the
  token after the leading separators as a terminated string, leaves the separator string alone
  and keeps the rest of the string for the next call.
\<close>

theorem strtok_first_token:
  assumes "cstr m p s" and "cstr m q seps" and "p \<noteq> NULL"
    and "p + length s < q \<or> q + length seps < p"
    and "dropWhile (\<lambda>c. c \<in> set seps) s = tok @ x # r" and "x \<in> set seps"
    and "set tok \<inter> set seps = {}"
  shows "\<exists>m' b tmp'. strtok m tmp p q = Some (m', tmp', b) \<and> tok \<noteq> [] \<and>
    cstr m' b tok \<and> cstr m' tmp' r \<and> cstr m' q seps"
  using strtok_cut [OF assms] by blast

theorem strtok_first_token_witness:
  "\<exists>m' b tmp'. strtok (mem_of 1 [44, 97, 98, 44, 99, 0, 44, 0]) 0 1 7 = Some (m', tmp', b) \<and>
    cstr m' b [97, 98] \<and> cstr m' tmp' [99]"
proof -
  let ?m = "mem_of 1 [44, 97, 98, 44, 99, 0, 44, 0]"
  have "cstr ?m 1 [44, 97, 98, 44, 99]" "cstr ?m 7 [44]" by (simp_all add: cstr_def)
  from strtok_first_token [OF this, of "[97, 98]" 44 "[99]" 0] show ?thesis
    by (auto simp: NULL_def)
qed

text \<open>
  \<open>strstr\<close> on a non-empty haystack finds the first occurrence of the needle, and NULL
  exactly when there is none; on an empty haystack it returns NULL even for the empty needle.
\<close>

theorem strstr_first_occurrence:
  assumes "cstr m p s" and "cstr m q t" and "p \<noteq> NULL"
  shows "\<exists>r. strstr m p q = Some r \<and> (r = NULL \<longleftrightarrow> s = [] \<or> \<not> sublist t s) \<and>
    (\<forall>i. r = p + i \<longrightarrow> prefix t (drop i s) \<and> (\<forall>j < i. \<not> prefix t (drop j s)))"
proof -
  have sub: "sublist t s \<longleftrightarrow> find_sub t s \<noteq> None" by (rule sublist_iff_find_sub)
  show ?thesis
  proof (cases "find_sub t s")
    case None
    then have "\<not> sublist t s" by (simp add: sub)
    then show ?thesis using strstr_cstr [OF assms(1,2)] None assms(3) by (auto simp: NULL_def)
  next
    case (Some i)
    then have "i \<le> length s \<and> prefix t (drop i s) \<and> (\<forall>j < i. \<not> prefix t (drop j s))"
      by (simp add: find_sub_Some_iff)
    then show ?thesis using strstr_cstr [OF assms(1,2)] Some assms(3)
      by (auto simp: NULL_def sub)
  qed
qed

theorem strstr_first_occurrence_witness:
  "\<exists>r. strstr (mem_of 1 [97, 98, 97, 0, 98, 0]) 1 5 = Some r \<and> r \<noteq> NULL"
proof -
  let ?m = "mem_of 1 [97, 98, 97, 0, 98, 0]"
  have "cstr ?m 1 [97, 98, 97]" "cstr ?m 5 [98]" by (simp_all add: cstr_def)
  moreover have "sublist [98 :: u8] [97, 98, 97]" by (simp add: sublist_code)
  ultimately show ?thesis using strstr_first_occurrence [of ?m 1 "[97, 98, 97]" 5 "[98]"]
    by (auto simp: NULL_def)
qed

text \<open>
  \<open>strcoll\<close> returns 1 on strings that collate equal and 0 on all others, so it is never
  negative and its zero does not mean equality.
\<close>

theorem strcoll_is_equality_flag:
  assumes "cstr m p s" and "cstr m q t" and "coll 0 \<notin> coll ` (set s \<union> set t)"
  shows "strcoll coll m p q = Some (if map coll s = map coll t then 1 else 0)"
  using assms by (rule strcoll_cstr)

theorem strcoll_is_equality_flag_witness:
  "strcoll id (mem_of 1 [97, 0, 98, 0]) 1 3 = Some 0 \<and> strcoll id (mem_of 1 [97, 0, 98, 0]) 1 1 = Some 1"
proof -
  let ?m = "mem_of 1 [97, 0, 98, 0]"
  have "cstr ?m 1 [97]" "cstr ?m 3 [98]" by (simp_all add: cstr_def)
  then show ?thesis
    using strcoll_is_equality_flag [of ?m 1 "[97]" 3 "[98]" id]
      strcoll_is_equality_flag [of ?m 1 "[97]" 1 "[97]" id] by simp
qed

end
