(* ===== verification/PdcCtype.thy ===== *)
theory PdcCtype
  imports Prelude
begin

text \<open>
  The character classes of the C library (pdclib/functions/ctype/*.c): the table of the C locale
  in pdclib_platform/functions/_PDCLIB/stdinit.c with the functions that index it. The locale's
  \<open>_CType\<close> points at the table's second entry, so that the index -1 (EOF) is its first.
  An index outside -1..255 is a read outside the table, the value None.
\<close>

section \<open>The table\<close>

definition CT_ALPHA :: u16 where "CT_ALPHA = 1"
definition CT_BLANK :: u16 where "CT_BLANK = 2"
definition CT_CNTRL :: u16 where "CT_CNTRL = 4"
definition CT_GRAPH :: u16 where "CT_GRAPH = 8"
definition CT_PUNCT :: u16 where "CT_PUNCT = 16"
definition CT_SPACE :: u16 where "CT_SPACE = 32"
definition CT_LOWER :: u16 where "CT_LOWER = 64"
definition CT_UPPER :: u16 where "CT_UPPER = 128"
definition CT_DIGIT :: u16 where "CT_DIGIT = 256"
definition CT_XDIGT :: u16 where "CT_XDIGT = 512"

lemmas CT_defs = CT_ALPHA_def CT_BLANK_def CT_CNTRL_def CT_GRAPH_def CT_PUNCT_def CT_SPACE_def CT_LOWER_def CT_UPPER_def CT_DIGIT_def CT_XDIGT_def

text \<open>\<open>_PDCLIB_ctype_t\<close>, in the order of the struct: flags, upper, lower, collation.\<close>

record crow =
  flags :: u16
  upper :: u8
  lower :: u8
  collation :: u8

definition crow :: "u16 \<Rightarrow> u8 \<Rightarrow> u8 \<Rightarrow> u8 \<Rightarrow> crow" where
  "crow f u l c = \<lparr>flags = f, upper = u, lower = l, collation = c\<rparr>"

definition ctype_ascii :: "crow list" where
  "ctype_ascii = [
   crow 0 0 0 0,
   crow (CT_CNTRL) 0x00 0x00 0x00,
   crow (CT_CNTRL) 0x01 0x01 0x01,
   crow (CT_CNTRL) 0x02 0x02 0x02,
   crow (CT_CNTRL) 0x03 0x03 0x03,
   crow (CT_CNTRL) 0x04 0x04 0x04,
   crow (CT_CNTRL) 0x05 0x05 0x05,
   crow (CT_CNTRL) 0x06 0x06 0x06,
   crow (CT_CNTRL) 0x07 0x07 0x07,
   crow (CT_CNTRL) 0x08 0x08 0x08,
   crow (CT_CNTRL OR CT_BLANK OR CT_SPACE) 0x09 0x09 0x09,
   crow (CT_CNTRL OR CT_SPACE) 0x0a 0x0a 0x0a,
   crow (CT_CNTRL OR CT_SPACE) 0x0b 0x0b 0x0b,
   crow (CT_CNTRL OR CT_SPACE) 0x0c 0x0c 0x0c,
   crow (CT_CNTRL OR CT_SPACE) 0x0d 0x0d 0x0d,
   crow (CT_CNTRL) 0x0e 0x0e 0x0e,
   crow (CT_CNTRL) 0x0f 0x0f 0x0f,
   crow (CT_CNTRL) 0x10 0x10 0x10,
   crow (CT_CNTRL) 0x11 0x11 0x11,
   crow (CT_CNTRL) 0x12 0x12 0x12,
   crow (CT_CNTRL) 0x13 0x13 0x13,
   crow (CT_CNTRL) 0x14 0x14 0x14,
   crow (CT_CNTRL) 0x15 0x15 0x15,
   crow (CT_CNTRL) 0x16 0x16 0x16,
   crow (CT_CNTRL) 0x17 0x17 0x17,
   crow (CT_CNTRL) 0x18 0x18 0x18,
   crow (CT_CNTRL) 0x19 0x19 0x19,
   crow (CT_CNTRL) 0x1a 0x1a 0x1a,
   crow (CT_CNTRL) 0x1b 0x1b 0x1b,
   crow (CT_CNTRL) 0x1c 0x1c 0x1c,
   crow (CT_CNTRL) 0x1d 0x1d 0x1d,
   crow (CT_CNTRL) 0x1e 0x1e 0x1e,
   crow (CT_CNTRL) 0x1f 0x1f 0x1f,
   crow (CT_BLANK OR CT_SPACE) 0x20 0x20 0x20,
   crow (CT_GRAPH OR CT_PUNCT) 0x21 0x21 0x21,
   crow (CT_GRAPH OR CT_PUNCT) 0x22 0x22 0x22,
   crow (CT_GRAPH OR CT_PUNCT) 0x23 0x23 0x23,
   crow (CT_GRAPH OR CT_PUNCT) 0x24 0x24 0x24,
   crow (CT_GRAPH OR CT_PUNCT) 0x25 0x25 0x25,
   crow (CT_GRAPH OR CT_PUNCT) 0x26 0x26 0x26,
   crow (CT_GRAPH OR CT_PUNCT) 0x27 0x27 0x27,
   crow (CT_GRAPH OR CT_PUNCT) 0x28 0x28 0x28,
   crow (CT_GRAPH OR CT_PUNCT) 0x29 0x29 0x29,
   crow (CT_GRAPH OR CT_PUNCT) 0x2a 0x2a 0x2a,
   crow (CT_GRAPH OR CT_PUNCT) 0x2b 0x2b 0x2b,
   crow (CT_GRAPH OR CT_PUNCT) 0x2c 0x2c 0x2c,
   crow (CT_GRAPH OR CT_PUNCT) 0x2d 0x2d 0x2d,
   crow (CT_GRAPH OR CT_PUNCT) 0x2e 0x2e 0x2e,
   crow (CT_GRAPH OR CT_PUNCT) 0x2f 0x2f 0x2f,
   crow (CT_GRAPH OR CT_DIGIT OR CT_XDIGT) 0x30 0x30 0x30,
   crow (CT_GRAPH OR CT_DIGIT OR CT_XDIGT) 0x31 0x31 0x31,
   crow (CT_GRAPH OR CT_DIGIT OR CT_XDIGT) 0x32 0x32 0x32,
   crow (CT_GRAPH OR CT_DIGIT OR CT_XDIGT) 0x33 0x33 0x33,
   crow (CT_GRAPH OR CT_DIGIT OR CT_XDIGT) 0x34 0x34 0x34,
   crow (CT_GRAPH OR CT_DIGIT OR CT_XDIGT) 0x35 0x35 0x35,
   crow (CT_GRAPH OR CT_DIGIT OR CT_XDIGT) 0x36 0x36 0x36,
   crow (CT_GRAPH OR CT_DIGIT OR CT_XDIGT) 0x37 0x37 0x37,
   crow (CT_GRAPH OR CT_DIGIT OR CT_XDIGT) 0x38 0x38 0x38,
   crow (CT_GRAPH OR CT_DIGIT OR CT_XDIGT) 0x39 0x39 0x39,
   crow (CT_GRAPH OR CT_PUNCT) 0x3a 0x3a 0x3a,
   crow (CT_GRAPH OR CT_PUNCT) 0x3b 0x3b 0x3b,
   crow (CT_GRAPH OR CT_PUNCT) 0x3c 0x3c 0x3c,
   crow (CT_GRAPH OR CT_PUNCT) 0x3d 0x3d 0x3d,
   crow (CT_GRAPH OR CT_PUNCT) 0x3e 0x3e 0x3e,
   crow (CT_GRAPH OR CT_PUNCT) 0x3f 0x3f 0x3f,
   crow (CT_GRAPH OR CT_PUNCT) 0x40 0x40 0x40,
   crow (CT_GRAPH OR CT_ALPHA OR CT_UPPER OR CT_XDIGT) 0x41 0x61 0x41,
   crow (CT_GRAPH OR CT_ALPHA OR CT_UPPER OR CT_XDIGT) 0x42 0x62 0x42,
   crow (CT_GRAPH OR CT_ALPHA OR CT_UPPER OR CT_XDIGT) 0x43 0x63 0x43,
   crow (CT_GRAPH OR CT_ALPHA OR CT_UPPER OR CT_XDIGT) 0x44 0x64 0x44,
   crow (CT_GRAPH OR CT_ALPHA OR CT_UPPER OR CT_XDIGT) 0x45 0x65 0x45,
   crow (CT_GRAPH OR CT_ALPHA OR CT_UPPER OR CT_XDIGT) 0x46 0x66 0x46,
   crow (CT_GRAPH OR CT_ALPHA OR CT_UPPER) 0x47 0x67 0x47,
   crow (CT_GRAPH OR CT_ALPHA OR CT_UPPER) 0x48 0x68 0x48,
   crow (CT_GRAPH OR CT_ALPHA OR CT_UPPER) 0x49 0x69 0x49,
   crow (CT_GRAPH OR CT_ALPHA OR CT_UPPER) 0x4a 0x6a 0x4a,
   crow (CT_GRAPH OR CT_ALPHA OR CT_UPPER) 0x4b 0x6b 0x4b,
   crow (CT_GRAPH OR CT_ALPHA OR CT_UPPER) 0x4c 0x6c 0x4c,
   crow (CT_GRAPH OR CT_ALPHA OR CT_UPPER) 0x4d 0x6d 0x4d,
   crow (CT_GRAPH OR CT_ALPHA OR CT_UPPER) 0x4e 0x6e 0x4e,
   crow (CT_GRAPH OR CT_ALPHA OR CT_UPPER) 0x4f 0x6f 0x4f,
   crow (CT_GRAPH OR CT_ALPHA OR CT_UPPER) 0x50 0x70 0x50,
   crow (CT_GRAPH OR CT_ALPHA OR CT_UPPER) 0x51 0x71 0x51,
   crow (CT_GRAPH OR CT_ALPHA OR CT_UPPER) 0x52 0x72 0x52,
   crow (CT_GRAPH OR CT_ALPHA OR CT_UPPER) 0x53 0x73 0x53,
   crow (CT_GRAPH OR CT_ALPHA OR CT_UPPER) 0x54 0x74 0x54,
   crow (CT_GRAPH OR CT_ALPHA OR CT_UPPER) 0x55 0x75 0x55,
   crow (CT_GRAPH OR CT_ALPHA OR CT_UPPER) 0x56 0x76 0x56,
   crow (CT_GRAPH OR CT_ALPHA OR CT_UPPER) 0x57 0x77 0x57,
   crow (CT_GRAPH OR CT_ALPHA OR CT_UPPER) 0x58 0x78 0x58,
   crow (CT_GRAPH OR CT_ALPHA OR CT_UPPER) 0x59 0x79 0x59,
   crow (CT_GRAPH OR CT_ALPHA OR CT_UPPER) 0x5a 0x7a 0x5a,
   crow (CT_GRAPH OR CT_PUNCT) 0x5b 0x5b 0x5b,
   crow (CT_GRAPH OR CT_PUNCT) 0x5c 0x5c 0x5c,
   crow (CT_GRAPH OR CT_PUNCT) 0x5d 0x5d 0x5d,
   crow (CT_GRAPH OR CT_PUNCT) 0x5e 0x5e 0x5e,
   crow (CT_GRAPH OR CT_PUNCT) 0x5f 0x5f 0x5f,
   crow (CT_GRAPH OR CT_PUNCT) 0x60 0x60 0x60,
   crow (CT_GRAPH OR CT_ALPHA OR CT_LOWER OR CT_XDIGT) 0x41 0x61 0x61,
   crow (CT_GRAPH OR CT_ALPHA OR CT_LOWER OR CT_XDIGT) 0x42 0x62 0x62,
   crow (CT_GRAPH OR CT_ALPHA OR CT_LOWER OR CT_XDIGT) 0x43 0x63 0x63,
   crow (CT_GRAPH OR CT_ALPHA OR CT_LOWER OR CT_XDIGT) 0x44 0x64 0x64,
   crow (CT_GRAPH OR CT_ALPHA OR CT_LOWER OR CT_XDIGT) 0x45 0x65 0x65,
   crow (CT_GRAPH OR CT_ALPHA OR CT_LOWER OR CT_XDIGT) 0x46 0x66 0x66,
   crow (CT_GRAPH OR CT_ALPHA OR CT_LOWER) 0x47 0x67 0x67,
   crow (CT_GRAPH OR CT_ALPHA OR CT_LOWER) 0x48 0x68 0x68,
   crow (CT_GRAPH OR CT_ALPHA OR CT_LOWER) 0x49 0x69 0x69,
   crow (CT_GRAPH OR CT_ALPHA OR CT_LOWER) 0x4a 0x6a 0x6a,
   crow (CT_GRAPH OR CT_ALPHA OR CT_LOWER) 0x4b 0x6b 0x6b,
   crow (CT_GRAPH OR CT_ALPHA OR CT_LOWER) 0x4c 0x6c 0x6c,
   crow (CT_GRAPH OR CT_ALPHA OR CT_LOWER) 0x4d 0x6d 0x6d,
   crow (CT_GRAPH OR CT_ALPHA OR CT_LOWER) 0x4e 0x6e 0x6e,
   crow (CT_GRAPH OR CT_ALPHA OR CT_LOWER) 0x4f 0x6f 0x6f,
   crow (CT_GRAPH OR CT_ALPHA OR CT_LOWER) 0x50 0x70 0x70,
   crow (CT_GRAPH OR CT_ALPHA OR CT_LOWER) 0x51 0x71 0x71,
   crow (CT_GRAPH OR CT_ALPHA OR CT_LOWER) 0x52 0x72 0x72,
   crow (CT_GRAPH OR CT_ALPHA OR CT_LOWER) 0x53 0x73 0x73,
   crow (CT_GRAPH OR CT_ALPHA OR CT_LOWER) 0x54 0x74 0x74,
   crow (CT_GRAPH OR CT_ALPHA OR CT_LOWER) 0x55 0x75 0x75,
   crow (CT_GRAPH OR CT_ALPHA OR CT_LOWER) 0x56 0x76 0x76,
   crow (CT_GRAPH OR CT_ALPHA OR CT_LOWER) 0x57 0x77 0x77,
   crow (CT_GRAPH OR CT_ALPHA OR CT_LOWER) 0x58 0x78 0x78,
   crow (CT_GRAPH OR CT_ALPHA OR CT_LOWER) 0x59 0x79 0x79,
   crow (CT_GRAPH OR CT_ALPHA OR CT_LOWER) 0x5a 0x7a 0x7a,
   crow (CT_GRAPH OR CT_PUNCT) 0x7b 0x7b 0x7b,
   crow (CT_GRAPH OR CT_PUNCT) 0x7c 0x7c 0x7c,
   crow (CT_GRAPH OR CT_PUNCT) 0x7d 0x7d 0x7d,
   crow (CT_GRAPH OR CT_PUNCT) 0x7e 0x7e 0x7e,
   crow (CT_CNTRL) 0x7f 0x7f 0x7f]"

definition ctype_high :: "crow list" where
  "ctype_high = map (\<lambda>c. crow 0 (of_nat c) (of_nat c) (of_nat c)) [0x80..<0x100]"

definition global_ctype :: "crow list" where
  "global_ctype = ctype_ascii @ ctype_high"

section \<open>The functions\<close>

text \<open>\<open>_PDCLIB_threadlocale()->_CType[c]\<close>, with \<open>_CType = &global_ctype[1]\<close>.\<close>

definition ctype_at :: "int \<Rightarrow> crow option" where
  "ctype_at c = (if -1 \<le> c \<and> c < 256 then Some (global_ctype ! nat (c + 1)) else None)"

text \<open>The value of \<open>flags & mask\<close> as the int the function returns.\<close>

definition class_of :: "u16 \<Rightarrow> int \<Rightarrow> int option" where
  "class_of fmask c = map_option (\<lambda>e. uint (flags e AND fmask)) (ctype_at c)"

definition isalnum :: "int \<Rightarrow> int option" where "isalnum c = class_of (CT_ALPHA OR CT_DIGIT) c"
definition isalpha :: "int \<Rightarrow> int option" where "isalpha c = class_of (CT_ALPHA) c"
definition isblank :: "int \<Rightarrow> int option" where "isblank c = class_of (CT_BLANK) c"
definition iscntrl :: "int \<Rightarrow> int option" where "iscntrl c = class_of (CT_CNTRL) c"
definition isdigit :: "int \<Rightarrow> int option" where "isdigit c = class_of (CT_DIGIT) c"
definition isgraph :: "int \<Rightarrow> int option" where "isgraph c = class_of (CT_GRAPH) c"
definition islower :: "int \<Rightarrow> int option" where "islower c = class_of (CT_LOWER) c"
definition ispunct :: "int \<Rightarrow> int option" where "ispunct c = class_of (CT_PUNCT) c"
definition isspace :: "int \<Rightarrow> int option" where "isspace c = class_of (CT_SPACE) c"
definition isupper :: "int \<Rightarrow> int option" where "isupper c = class_of (CT_UPPER) c"
definition isxdigit :: "int \<Rightarrow> int option" where "isxdigit c = class_of (CT_XDIGT) c"

definition isprint :: "int \<Rightarrow> int option" where
  "isprint c = map_option (\<lambda>e. if flags e AND CT_GRAPH \<noteq> 0 \<or> c = 0x20 then 1 else 0) (ctype_at c)"

definition tolower :: "int \<Rightarrow> int option" where
  "tolower c = map_option (\<lambda>e. uint (lower e)) (ctype_at c)"

definition toupper :: "int \<Rightarrow> int option" where
  "toupper c = map_option (\<lambda>e. uint (upper e)) (ctype_at c)"

section \<open>What the table says\<close>

text \<open>A check of every row against its index, in one pass over the table.\<close>

fun rows_ok :: "(int \<Rightarrow> crow \<Rightarrow> bool) \<Rightarrow> int \<Rightarrow> crow list \<Rightarrow> bool" where
  "rows_ok P i [] = True"
| "rows_ok P i (e # es) = (P i e \<and> rows_ok P (i + 1) es)"

lemma rows_ok_nth: "rows_ok P i es \<Longrightarrow> k < length es \<Longrightarrow> P (i + int k) (es ! k)"
proof (induction es arbitrary: i k)
  case (Cons e es)
  show ?case
  proof (cases k)
    case (Suc j)
    then show ?thesis using Cons.prems Cons.IH [of "i + 1" j] by (simp add: algebra_simps)
  qed (use Cons.prems in simp)
qed simp

lemma rows_ok_append: "rows_ok P i (xs @ ys) \<longleftrightarrow> rows_ok P i xs \<and> rows_ok P (i + int (length xs)) ys"
  by (induction xs arbitrary: i) (auto simp: algebra_simps)

lemma length_ctype_ascii: "length ctype_ascii = 129"
  by (simp add: ctype_ascii_def)

lemma ctype_at_row: "rows_ok P (-1) global_ctype \<Longrightarrow> ctype_at c = Some e \<Longrightarrow> P c e"
  using rows_ok_nth [of P "-1" global_ctype "nat (c + 1)"]
  by (auto simp: ctype_at_def global_ctype_def length_ctype_ascii ctype_high_def split: if_splits)

text \<open>The class of an ASCII code as the C standard gives it for the C locale.\<close>

definition ascii_class :: "int \<Rightarrow> u16" where
  "ascii_class c =
     (if 65 \<le> c \<and> c \<le> 90 \<or> 97 \<le> c \<and> c \<le> 122 then CT_ALPHA else 0) OR
     (if c = 9 \<or> c = 32 then CT_BLANK else 0) OR
     (if 0 \<le> c \<and> c < 32 \<or> c = 127 then CT_CNTRL else 0) OR
     (if 33 \<le> c \<and> c \<le> 126 then CT_GRAPH else 0) OR
     (if 33 \<le> c \<and> c \<le> 47 \<or> 58 \<le> c \<and> c \<le> 64 \<or> 91 \<le> c \<and> c \<le> 96 \<or> 123 \<le> c \<and> c \<le> 126
      then CT_PUNCT else 0) OR
     (if 9 \<le> c \<and> c \<le> 13 \<or> c = 32 then CT_SPACE else 0) OR
     (if 97 \<le> c \<and> c \<le> 122 then CT_LOWER else 0) OR
     (if 65 \<le> c \<and> c \<le> 90 then CT_UPPER else 0) OR
     (if 48 \<le> c \<and> c \<le> 57 then CT_DIGIT else 0) OR
     (if 48 \<le> c \<and> c \<le> 57 \<or> 65 \<le> c \<and> c \<le> 70 \<or> 97 \<le> c \<and> c \<le> 102 then CT_XDIGT else 0)"

definition row_spec :: "int \<Rightarrow> crow \<Rightarrow> bool" where
  "row_spec c e \<longleftrightarrow> flags e = ascii_class c \<and>
     uint (lower e) = (if c = -1 then 0 else if 65 \<le> c \<and> c \<le> 90 then c + 32 else c) \<and>
     uint (upper e) = (if c = -1 then 0 else if 97 \<le> c \<and> c \<le> 122 then c - 32 else c)"

lemma ctype_ascii_rows: "rows_ok row_spec (-1) ctype_ascii"
  by (simp add: ctype_ascii_def row_spec_def crow_def ascii_class_def CT_defs)

lemma ctype_high_rows: "rows_ok row_spec 128 ctype_high"
proof -
  have "rows_ok row_spec (int k) (map (\<lambda>c. crow 0 (of_nat c) (of_nat c) (of_nat c)) [k..<0x100])"
    if "128 \<le> k" for k
    using that
  proof (induction "0x100 - k" arbitrary: k)
    case (Suc n)
    then have "[k..<0x100] = k # [Suc k..<0x100]" by (simp add: upt_conv_Cons)
    moreover have "row_spec (int k) (crow 0 (of_nat k) (of_nat k) (of_nat k))"
      using Suc by (simp add: row_spec_def crow_def ascii_class_def uint_nat unsigned_of_nat
        take_bit_nat_eq_self)
    ultimately show ?case using Suc.hyps(1) [of "Suc k"] Suc by (simp add: algebra_simps)
  qed simp
  from this [of 128] show ?thesis by (simp add: ctype_high_def)
qed

lemma ctype_row: "ctype_at c = Some e \<Longrightarrow> row_spec c e"
  by (rule ctype_at_row)
    (simp_all add: global_ctype_def rows_ok_append ctype_ascii_rows ctype_high_rows length_ctype_ascii)

lemma ctype_at_Some: "-1 \<le> c \<Longrightarrow> c < 256 \<Longrightarrow> \<exists>e. ctype_at c = Some e \<and> row_spec c e"
  using ctype_row by (simp add: ctype_at_def)

section \<open>The classes of the C locale\<close>

text \<open>A class function holds when its int is not zero; None is a read outside the table.\<close>

definition truth :: "int option \<Rightarrow> bool option" where
  "truth r = map_option (\<lambda>x. x \<noteq> 0) r"

lemma flag_bits:
  "x AND CT_ALPHA \<noteq> 0 \<longleftrightarrow> bit x 0" "x AND CT_BLANK \<noteq> 0 \<longleftrightarrow> bit x (Suc 0)"
  "x AND CT_CNTRL \<noteq> 0 \<longleftrightarrow> bit x 2" "x AND CT_GRAPH \<noteq> 0 \<longleftrightarrow> bit x 3"
  "x AND CT_PUNCT \<noteq> 0 \<longleftrightarrow> bit x 4" "x AND CT_SPACE \<noteq> 0 \<longleftrightarrow> bit x 5"
  "x AND CT_LOWER \<noteq> 0 \<longleftrightarrow> bit x 6" "x AND CT_UPPER \<noteq> 0 \<longleftrightarrow> bit x 7"
  "x AND CT_DIGIT \<noteq> 0 \<longleftrightarrow> bit x 8" "x AND CT_XDIGT \<noteq> 0 \<longleftrightarrow> bit x 9"
  using and_exp_eq_0_iff_not_bit [of x 0] and_exp_eq_0_iff_not_bit [of x 1]
    and_exp_eq_0_iff_not_bit [of x 2] and_exp_eq_0_iff_not_bit [of x 3]
    and_exp_eq_0_iff_not_bit [of x 4] and_exp_eq_0_iff_not_bit [of x 5]
    and_exp_eq_0_iff_not_bit [of x 6] and_exp_eq_0_iff_not_bit [of x 7]
    and_exp_eq_0_iff_not_bit [of x 8] and_exp_eq_0_iff_not_bit [of x 9]
  by (simp_all add: CT_defs)

lemma uint_nonzero: "uint x \<noteq> 0 \<longleftrightarrow> x \<noteq> 0"
  by (simp add: word_uint_eq_iff)

lemma ascii_class_bits:
  "bit (ascii_class c) 0 \<longleftrightarrow> 65 \<le> c \<and> c \<le> 90 \<or> 97 \<le> c \<and> c \<le> 122"
  "bit (ascii_class c) (Suc 0) \<longleftrightarrow> c = 9 \<or> c = 32"
  "bit (ascii_class c) 2 \<longleftrightarrow> 0 \<le> c \<and> c < 32 \<or> c = 127"
  "bit (ascii_class c) 3 \<longleftrightarrow> 33 \<le> c \<and> c \<le> 126"
  "bit (ascii_class c) 4 \<longleftrightarrow> 33 \<le> c \<and> c \<le> 47 \<or> 58 \<le> c \<and> c \<le> 64 \<or> 91 \<le> c \<and> c \<le> 96 \<or> 123 \<le> c \<and> c \<le> 126"
  "bit (ascii_class c) 5 \<longleftrightarrow> 9 \<le> c \<and> c \<le> 13 \<or> c = 32"
  "bit (ascii_class c) 6 \<longleftrightarrow> 97 \<le> c \<and> c \<le> 122"
  "bit (ascii_class c) 7 \<longleftrightarrow> 65 \<le> c \<and> c \<le> 90"
  "bit (ascii_class c) 8 \<longleftrightarrow> 48 \<le> c \<and> c \<le> 57"
  "bit (ascii_class c) 9 \<longleftrightarrow> 48 \<le> c \<and> c \<le> 57 \<or> 65 \<le> c \<and> c \<le> 70 \<or> 97 \<le> c \<and> c \<le> 102"
  by (auto simp: ascii_class_def CT_defs bit_or_iff)

lemma truth_class_of:
  assumes "-1 \<le> c" and "c < 256"
  shows "truth (class_of m c) = Some (ascii_class c AND m \<noteq> 0)"
proof -
  obtain e where "ctype_at c = Some e" "flags e = ascii_class c"
    using ctype_at_Some [OF assms] by (auto simp: row_spec_def)
  then show ?thesis by (simp add: truth_def class_of_def uint_nonzero)
qed

lemma isalpha_truth:
  "-1 \<le> c \<Longrightarrow> c < 256 \<Longrightarrow> truth (isalpha c) = Some (65 \<le> c \<and> c \<le> 90 \<or> 97 \<le> c \<and> c \<le> 122)"
  by (simp add: isalpha_def truth_class_of flag_bits ascii_class_bits)

lemma isblank_truth:
  "-1 \<le> c \<Longrightarrow> c < 256 \<Longrightarrow> truth (isblank c) = Some (c = 9 \<or> c = 32)"
  by (simp add: isblank_def truth_class_of flag_bits ascii_class_bits)

lemma iscntrl_truth:
  "-1 \<le> c \<Longrightarrow> c < 256 \<Longrightarrow> truth (iscntrl c) = Some (0 \<le> c \<and> c < 32 \<or> c = 127)"
  by (simp add: iscntrl_def truth_class_of flag_bits ascii_class_bits)

lemma isgraph_truth:
  "-1 \<le> c \<Longrightarrow> c < 256 \<Longrightarrow> truth (isgraph c) = Some (33 \<le> c \<and> c \<le> 126)"
  by (simp add: isgraph_def truth_class_of flag_bits ascii_class_bits)

lemma ispunct_truth:
  "-1 \<le> c \<Longrightarrow> c < 256 \<Longrightarrow> truth (ispunct c) = Some (33 \<le> c \<and> c \<le> 47 \<or> 58 \<le> c \<and> c \<le> 64 \<or> 91 \<le> c \<and> c \<le> 96 \<or> 123 \<le> c \<and> c \<le> 126)"
  by (simp add: ispunct_def truth_class_of flag_bits ascii_class_bits)

lemma isspace_truth:
  "-1 \<le> c \<Longrightarrow> c < 256 \<Longrightarrow> truth (isspace c) = Some (9 \<le> c \<and> c \<le> 13 \<or> c = 32)"
  by (simp add: isspace_def truth_class_of flag_bits ascii_class_bits)

lemma islower_truth:
  "-1 \<le> c \<Longrightarrow> c < 256 \<Longrightarrow> truth (islower c) = Some (97 \<le> c \<and> c \<le> 122)"
  by (simp add: islower_def truth_class_of flag_bits ascii_class_bits)

lemma isupper_truth:
  "-1 \<le> c \<Longrightarrow> c < 256 \<Longrightarrow> truth (isupper c) = Some (65 \<le> c \<and> c \<le> 90)"
  by (simp add: isupper_def truth_class_of flag_bits ascii_class_bits)

lemma isdigit_truth:
  "-1 \<le> c \<Longrightarrow> c < 256 \<Longrightarrow> truth (isdigit c) = Some (48 \<le> c \<and> c \<le> 57)"
  by (simp add: isdigit_def truth_class_of flag_bits ascii_class_bits)

lemma isxdigit_truth:
  "-1 \<le> c \<Longrightarrow> c < 256 \<Longrightarrow> truth (isxdigit c) = Some (48 \<le> c \<and> c \<le> 57 \<or> 65 \<le> c \<and> c \<le> 70 \<or> 97 \<le> c \<and> c \<le> 102)"
  by (simp add: isxdigit_def truth_class_of flag_bits ascii_class_bits)

lemma isprint_truth:
  "-1 \<le> c \<Longrightarrow> c < 256 \<Longrightarrow> truth (isprint c) = Some (32 \<le> c \<and> c \<le> 126)"
proof -
  assume "-1 \<le> c" "c < 256"
  then obtain e where "ctype_at c = Some e" "flags e = ascii_class c"
    using ctype_at_Some [of c] by (auto simp: row_spec_def)
  then show ?thesis by (simp add: isprint_def truth_def flag_bits ascii_class_bits)
qed

lemma isalnum_truth:
  "-1 \<le> c \<Longrightarrow> c < 256 \<Longrightarrow> truth (isalnum c) = Some (48 \<le> c \<and> c \<le> 57 \<or> 65 \<le> c \<and> c \<le> 90 \<or> 97 \<le> c \<and> c \<le> 122)"
  by (auto simp: isalnum_def truth_class_of bit.conj_disj_distrib or_eq_0_iff flag_bits [simplified] ascii_class_bits)

lemma tolower_val:
  "-1 \<le> c \<Longrightarrow> c < 256 \<Longrightarrow>
   tolower c = Some (if c = -1 then 0 else if 65 \<le> c \<and> c \<le> 90 then c + 32 else c)"
  using ctype_at_Some [of c] by (auto simp: tolower_def row_spec_def)

lemma toupper_val:
  "-1 \<le> c \<Longrightarrow> c < 256 \<Longrightarrow>
   toupper c = Some (if c = -1 then 0 else if 97 \<le> c \<and> c \<le> 122 then c - 32 else c)"
  using ctype_at_Some [of c] by (auto simp: toupper_def row_spec_def)

lemmas class_truths = isalpha_truth isblank_truth iscntrl_truth isgraph_truth ispunct_truth isspace_truth islower_truth isupper_truth isdigit_truth isxdigit_truth isprint_truth isalnum_truth

section \<open>Properties\<close>

text \<open>
  C33. In the kernel's C locale every character function gives the ASCII class: the table's 256
  rows and the functions' masks agree with the ranges of the C standard for each code.
\<close>

theorem ctype_ascii_classes:
  assumes "-1 \<le> c" and "c < 256"
  shows "truth (isalpha c) = Some (65 \<le> c \<and> c \<le> 90 \<or> 97 \<le> c \<and> c \<le> 122) \<and>
    truth (isdigit c) = Some (48 \<le> c \<and> c \<le> 57) \<and>
    truth (isalnum c) = Some (48 \<le> c \<and> c \<le> 57 \<or> 65 \<le> c \<and> c \<le> 90 \<or> 97 \<le> c \<and> c \<le> 122) \<and>
    truth (isxdigit c) = Some (48 \<le> c \<and> c \<le> 57 \<or> 65 \<le> c \<and> c \<le> 70 \<or> 97 \<le> c \<and> c \<le> 102) \<and>
    truth (isspace c) = Some (9 \<le> c \<and> c \<le> 13 \<or> c = 32) \<and>
    truth (isblank c) = Some (c = 9 \<or> c = 32) \<and>
    truth (iscntrl c) = Some (0 \<le> c \<and> c < 32 \<or> c = 127) \<and>
    truth (isprint c) = Some (32 \<le> c \<and> c \<le> 126) \<and>
    truth (isgraph c) = Some (33 \<le> c \<and> c \<le> 126) \<and>
    truth (isupper c) = Some (65 \<le> c \<and> c \<le> 90) \<and>
    truth (islower c) = Some (97 \<le> c \<and> c \<le> 122) \<and>
    truth (ispunct c) = Some (33 \<le> c \<and> c \<le> 126 \<and>
      \<not> (48 \<le> c \<and> c \<le> 57 \<or> 65 \<le> c \<and> c \<le> 90 \<or> 97 \<le> c \<and> c \<le> 122)) \<and>
    tolower c = Some (if c = -1 then 0 else if 65 \<le> c \<and> c \<le> 90 then c + 32 else c) \<and>
    toupper c = Some (if c = -1 then 0 else if 97 \<le> c \<and> c \<le> 122 then c - 32 else c)"
proof -
  have "truth (ispunct c) = Some (33 \<le> c \<and> c \<le> 126 \<and>
      \<not> (48 \<le> c \<and> c \<le> 57 \<or> 65 \<le> c \<and> c \<le> 90 \<or> 97 \<le> c \<and> c \<le> 122))"
    using ispunct_truth [OF assms] by (simp only: option.inject) presburger
  then show ?thesis using assms by (simp only: class_truths tolower_val toupper_val simp_thms)
qed

theorem ctype_ascii_classes_witness:
  "truth (isxdigit 70) = Some True \<and> truth (isspace 65) = Some False \<and> tolower 65 = Some 97"
  using ctype_ascii_classes [of 70] ctype_ascii_classes [of 65] by simp

end
