(* ===== verification/PdcStrtol.thy ===== *)
theory PdcStrtol
  imports PdcString PdcCtype "HOL-Library.Signed_Division"
begin

text \<open>
  The number parsers of the C library: \<open>_PDCLIB_strtox_prelim\<close>, \<open>_PDCLIB_strtox_main\<close>, the
  \<open>strtol\<close> family on top of them, \<open>_PDCLIB_atomax\<close> and \<open>atoi\<close>. Plain \<open>char\<close> is signed, so a
  character argument of \<open>isspace\<close> and \<open>tolower\<close> is the sint of the byte. The parsed string is in
  the memory \<open>m\<close>; the static table of digits is a memory of its own. All of \<open>long\<close>,
  \<open>long long\<close>, \<open>intmax_t\<close> are 64 bits wide; signed results are their 64-bit patterns.
\<close>

section \<open>Digits, sign and base\<close>

text \<open>"0123456789abcdefghijklmnopqrstuvwxyz" with its terminator, at address 1.\<close>

definition digit_chars :: "u8 list" where
  "digit_chars = [0x30, 0x31, 0x32, 0x33, 0x34, 0x35, 0x36, 0x37, 0x38, 0x39,
     0x61, 0x62, 0x63, 0x64, 0x65, 0x66, 0x67, 0x68, 0x69, 0x6a, 0x6b, 0x6c, 0x6d,
     0x6e, 0x6f, 0x70, 0x71, 0x72, 0x73, 0x74, 0x75, 0x76, 0x77, 0x78, 0x79, 0x7a]"

definition pdclib_digits :: mem where
  "pdclib_digits = mem_of 1 (digit_chars @ [0])"

text \<open>\<open>memchr( _PDCLIB_digits, tolower(c), base )\<close>\<close>

definition find_digit :: "u8 \<Rightarrow> nat \<Rightarrow> ptr option" where
  "find_digit c base = do { t \<leftarrow> tolower (sint c); memchr pdclib_digits 1 t base }"

partial_function (option) skip_space :: "mem \<Rightarrow> ptr \<Rightarrow> ptr option" where
  "skip_space m p = do {
     x \<leftarrow> m p; b \<leftarrow> isspace (sint x);
     if b \<noteq> 0 then skip_space m (Suc p) else Some p
   }"

text \<open>The result is the new pointer (NULL for a bad base), the sign and the base.\<close>

definition strtox_prelim :: "mem \<Rightarrow> ptr \<Rightarrow> int \<Rightarrow> (ptr \<times> u8 \<times> int) option" where
  "strtox_prelim m p0 base = do {
     p \<leftarrow> skip_space m p0;
     x \<leftarrow> m p;
     let (sign, p) = (if x \<noteq> 0x2b \<and> x \<noteq> 0x2d then (0x2b, p) else (x, Suc p));
     y \<leftarrow> m p;
     (base, p) \<leftarrow>
       (if y = 0x30 then do {
          z \<leftarrow> (if base = 0 \<or> base = 16 then m (Suc p) else Some 0);
          if (base = 0 \<or> base = 16) \<and> (z = 0x78 \<or> z = 0x58) then do {
            d \<leftarrow> m (p + 2);
            q \<leftarrow> find_digit d 16;
            Some (16, if q = NULL then p else p + 2)
          }
          else if base = 0 then Some (8, Suc p)
          else Some (base, p)
        }
        else Some (if base = 0 then (10, p) else (base, p)));
     Some (if 2 \<le> base \<and> base \<le> 36 then p else NULL, sign, base)
   }"

section \<open>The conversion loop\<close>

text \<open>The loop that skips the rest of an overflowing digit sequence.\<close>

partial_function (option) skip_digits :: "mem \<Rightarrow> nat \<Rightarrow> ptr \<Rightarrow> ptr option" where
  "skip_digits m base p = do {
     c \<leftarrow> m p; x \<leftarrow> find_digit c base;
     if x \<noteq> NULL then skip_digits m base (Suc p) else Some p
   }"

text \<open>
  \<open>digit\<close> is -1 until a digit was read. The result is the value, the pointer (NULL when no digit
  was read), the sign and whether \<open>errno\<close> was set to ERANGE.
\<close>

partial_function (option) strtox_loop ::
  "mem \<Rightarrow> u64 \<Rightarrow> u64 \<Rightarrow> u64 \<Rightarrow> int \<Rightarrow> u8 \<Rightarrow> ptr \<Rightarrow> u64 \<Rightarrow> int \<Rightarrow> (u64 \<times> ptr \<times> u8 \<times> bool) option"
where
  "strtox_loop m base error limval limdigit sign p rc digit = do {
     c \<leftarrow> m p; x \<leftarrow> find_digit c (unat base);
     if x \<noteq> NULL then (
       let digit = int x - 1 in
       if rc < limval \<or> rc = limval \<and> digit \<le> limdigit
       then strtox_loop m base error limval limdigit sign (Suc p) (rc * base + of_int digit) digit
       else do { q \<leftarrow> skip_digits m (unat base) p; Some (error, q, 0x2b, True) })
     else if digit = -1 then Some (0, NULL, sign, False)
     else Some (rc, p, sign, False)
   }"

definition strtox_main ::
  "mem \<Rightarrow> ptr \<Rightarrow> u64 \<Rightarrow> u64 \<Rightarrow> u64 \<Rightarrow> int \<Rightarrow> u8 \<Rightarrow> (u64 \<times> ptr \<times> u8 \<times> bool) option" where
  "strtox_main m p base error limval limdigit sign =
     strtox_loop m base error limval limdigit sign p 0 (-1)"

section \<open>The strtol family\<close>

definition LONG_MAX :: int where "LONG_MAX = 0x7fffffffffffffff"
definition LONG_MIN :: int where "LONG_MIN = - LONG_MAX - 1"
definition ULONG_MAX :: int where "ULONG_MAX = 0xffffffffffffffff"

text \<open>
  The value, what is stored through a non-null \<open>endptr\<close> (None: nothing) and whether errno was set.
\<close>

definition strtol :: "mem \<Rightarrow> ptr \<Rightarrow> int \<Rightarrow> (u64 \<times> ptr option \<times> bool) option" where
  "strtol m s base0 = do {
     (p, sign, base) \<leftarrow> strtox_prelim m s base0;
     if base < 2 \<or> base > 36 then Some (0, None, False)
     else do {
       (rc, p, sign, e) \<leftarrow>
         (if sign = 0x2b
          then strtox_main m p (of_int base) (of_int LONG_MAX)
                 (of_int (LONG_MAX sdiv base)) (LONG_MAX smod base) sign
          else strtox_main m p (of_int base) (of_int LONG_MIN)
                 (of_int (LONG_MIN sdiv (- base))) (- (LONG_MIN smod base)) sign);
       Some (if sign = 0x2b then rc else - rc, Some (if p \<noteq> NULL then p else s), e)
     }
   }"

definition strtoul :: "mem \<Rightarrow> ptr \<Rightarrow> int \<Rightarrow> (u64 \<times> ptr option \<times> bool) option" where
  "strtoul m s base0 = do {
     (p, sign, base) \<leftarrow> strtox_prelim m s base0;
     if base < 2 \<or> base > 36 then Some (0, None, False)
     else do {
       (rc, p, sign, e) \<leftarrow> strtox_main m p (of_int base) (of_int ULONG_MAX)
         (of_int (ULONG_MAX div base)) (ULONG_MAX mod base) sign;
       Some (if sign = 0x2b then rc else - rc, Some (if p \<noteq> NULL then p else s), e)
     }
   }"

text \<open>
  \<open>strtoll\<close> and \<open>strtoimax\<close> repeat the body of \<open>strtol\<close> with the limits of their own type, and
  \<open>strtoull\<close> and \<open>strtoumax\<close> that of \<open>strtoul\<close>; the types have the same width.
\<close>

definition strtoll :: "mem \<Rightarrow> ptr \<Rightarrow> int \<Rightarrow> (u64 \<times> ptr option \<times> bool) option" where
  "strtoll = strtol"

definition strtoimax :: "mem \<Rightarrow> ptr \<Rightarrow> int \<Rightarrow> (u64 \<times> ptr option \<times> bool) option" where
  "strtoimax = strtol"

definition strtoull :: "mem \<Rightarrow> ptr \<Rightarrow> int \<Rightarrow> (u64 \<times> ptr option \<times> bool) option" where
  "strtoull = strtoul"

definition strtoumax :: "mem \<Rightarrow> ptr \<Rightarrow> int \<Rightarrow> (u64 \<times> ptr option \<times> bool) option" where
  "strtoumax = strtoul"

text \<open>\<open>_PDCLIB_atomax\<close>: no limit, the 64-bit result wraps.\<close>

partial_function (option) atomax_loop :: "mem \<Rightarrow> ptr \<Rightarrow> u64 \<Rightarrow> u64 option" where
  "atomax_loop m s rc = do {
     c \<leftarrow> m s; x \<leftarrow> find_digit c 10;
     if x \<noteq> NULL then atomax_loop m (Suc s) (rc * 10 + of_nat (x - 1)) else Some rc
   }"

definition atomax :: "mem \<Rightarrow> ptr \<Rightarrow> u64 option" where
  "atomax m s0 = do {
     s \<leftarrow> skip_space m s0;
     x \<leftarrow> m s;
     let (sign, s) = (if x = 0x2b then (0x2b, Suc s) else if x = 0x2d then (x, Suc s) else (0x2b, s));
     rc \<leftarrow> atomax_loop m s 0;
     Some (if sign = 0x2b then rc else - rc)
   }"

definition atoi :: "mem \<Rightarrow> ptr \<Rightarrow> u32 option" where
  "atoi m s = map_option ucast (atomax m s)"

definition atol :: "mem \<Rightarrow> ptr \<Rightarrow> u64 option" where
  "atol m s = atomax m s"

definition atoll :: "mem \<Rightarrow> ptr \<Rightarrow> u64 option" where
  "atoll m s = atomax m s"

section \<open>Digit values\<close>

definition dval :: "u8 \<Rightarrow> nat" where
  "dval c = (if 0x30 \<le> unat c \<and> unat c \<le> 0x39 then unat c - 0x30
     else if 0x41 \<le> unat c \<and> unat c \<le> 0x5a then unat c - 0x37
     else if 0x61 \<le> unat c \<and> unat c \<le> 0x7a then unat c - 0x57 else 36)"

lemma memchr_loop_bytes:
  "bytes_at m p xs \<Longrightarrow> n \<le> length xs \<Longrightarrow> memchr_loop m p c n =
     Some (if c \<in> set (take n xs) then p + length (takeWhile (\<lambda>x. x \<noteq> c) xs) else NULL)"
proof (induction n arbitrary: p xs)
  case (Suc n)
  then obtain x ys where "xs = x # ys" by (cases xs) auto
  then show ?case using Suc by auto
qed simp

lemma digit_chars_map: "digit_chars = map of_nat ([48..<58] @ [97..<123])"
  by (simp add: digit_chars_def upt_rec)

lemma length_digit_chars: "length digit_chars = 36"
  by (simp add: digit_chars_def)

lemma digit_chars_nth: "k < 36 \<Longrightarrow> digit_chars ! k = of_nat (if k < 10 then k + 48 else k + 87)"
  unfolding digit_chars_map by (auto simp: nth_append simp del: upt_rec_numeral upt_rec)

lemma distinct_digit_chars: "distinct digit_chars"
  by (auto simp: distinct_conv_nth length_digit_chars digit_chars_nth of_nat_u8_inject)

lemma takeWhile_neq_nth:
  "distinct xs \<Longrightarrow> k < length xs \<Longrightarrow> length (takeWhile (\<lambda>x. x \<noteq> xs ! k) xs) = k"
proof (induction xs arbitrary: k)
  case (Cons x xs)
  then show ?case by (cases k) auto
qed simp

lemma digit_chars_take:
  assumes "k < 256" and "base \<le> 36"
  shows "(of_nat k :: u8) \<in> set (take base digit_chars) \<longleftrightarrow>
    (\<exists>i < base. k = (if i < 10 then i + 48 else i + 87))"
proof -
  have "(of_nat k :: u8) = digit_chars ! i \<longleftrightarrow> k = (if i < 10 then i + 48 else i + 87)" if "i < base" for i
    unfolding digit_chars_nth [OF less_le_trans [OF that assms(2)]]
    by (rule of_nat_u8_inject) (use that assms in auto)
  moreover have "(of_nat k :: u8) \<in> set (take base digit_chars) \<longleftrightarrow> (\<exists>i < base. of_nat k = digit_chars ! i)"
    using assms(2) by (auto simp: in_set_conv_nth length_digit_chars)
  ultimately show ?thesis by (simp only: cong: conj_cong)
qed

text \<open>An ASCII character is found in the table exactly at its digit value.\<close>

lemma find_digit_ascii:
  assumes "unat c < 128" and "base \<le> 36"
  shows "find_digit c base = Some (if dval c < base then 1 + dval c else NULL)"
proof -
  let ?t = "if 65 \<le> unat c \<and> unat c \<le> 90 then unat c + 32 else unat c"
  have t: "tolower (sint c) = Some (int ?t)"
    using assms(1) tolower_val [of "int (unat c)"] by (auto simp: sint_ascii simp del: of_nat_unat)
  have b: "bytes_at pdclib_digits 1 digit_chars"
    using mem_of_bytes [of 1 "digit_chars @ [0]"] by (simp only: pdclib_digits_def bytes_at_append)
  have tl: "?t < 256" using assms(1) by auto
  have "(\<exists>i < base. ?t = (if i < 10 then i + 48 else i + 87)) \<longleftrightarrow> dval c < base"
    using assms by (auto simp: dval_def intro!: exI [of _ "dval c"])
  then have mem: "(of_nat ?t :: u8) \<in> set (take base digit_chars) \<longleftrightarrow> dval c < base"
    by (simp only: digit_chars_take [OF tl assms(2)])
  have pos: "length (takeWhile (\<lambda>x. x \<noteq> of_nat ?t) digit_chars) = dval c" if "dval c < 36"
    using takeWhile_neq_nth [OF distinct_digit_chars, of "dval c"] that
    by (auto simp: length_digit_chars digit_chars_nth dval_def add.commute [of 32] split: if_splits)
  show ?thesis
    using t memchr_loop_bytes [OF b, of base "of_nat ?t"] assms(2) mem pos
    by (simp add: find_digit_def memchr_def length_digit_chars)
qed

section \<open>The loops on a string of digits\<close>

definition digits_of :: "nat \<Rightarrow> u8 list \<Rightarrow> bool" where
  "digits_of base ds \<longleftrightarrow> (\<forall>c \<in> set ds. unat c < 128 \<and> dval c < base)"

text \<open>What follows the number: nothing, or an ASCII character that is no digit of the base.\<close>

definition stops :: "nat \<Rightarrow> u8 list \<Rightarrow> bool" where
  "stops base rest \<longleftrightarrow> rest = [] \<or> unat (hd rest) < 128 \<and> base \<le> dval (hd rest)"

definition numval :: "nat \<Rightarrow> nat \<Rightarrow> u8 list \<Rightarrow> nat" where
  "numval base v ds = foldl (\<lambda>r c. r * base + dval c) v ds"

lemma numval_simps [simp]:
  "numval base v [] = v" "numval base v (c # ds) = numval base (v * base + dval c) ds"
  by (simp_all add: numval_def)

lemma numval_ge: "0 < base \<Longrightarrow> v \<le> numval base v ds"
proof (induction ds arbitrary: v)
  case (Cons c ds)
  have "v \<le> v * base + dval c" using Cons.prems by (cases base) auto
  also have "\<dots> \<le> numval base (v * base + dval c) ds" by (rule Cons.IH [OF Cons.prems])
  finally show ?case by simp
qed simp

lemma digits_of_Cons [simp]:
  "digits_of base (c # ds) \<longleftrightarrow> unat c < 128 \<and> dval c < base \<and> digits_of base ds"
  by (auto simp: digits_of_def)

lemma digits_of_Nil [simp]: "digits_of base []"
  by (simp add: digits_of_def)

text \<open>At the end of the digits the next byte exists and is not found in the table.\<close>

lemma stops_char:
  assumes "cstr m p rest" and "stops base rest" and "base \<le> 36"
  shows "\<exists>c. m p = Some c \<and> find_digit c base = Some NULL"
proof (cases rest)
  case Nil
  then show ?thesis using assms by (simp add: mem_simps find_digit_ascii dval_def)
next
  case (Cons c r)
  then show ?thesis using assms by (simp add: mem_simps find_digit_ascii stops_def)
qed

lemma digit_char:
  "unat c < 128 \<Longrightarrow> dval c < base \<Longrightarrow> base \<le> 36 \<Longrightarrow> find_digit c base = Some (Suc (dval c))"
  by (simp add: find_digit_ascii)

lemma skip_digits_cstr:
  "cstr m p (ds @ rest) \<Longrightarrow> digits_of base ds \<Longrightarrow> stops base rest \<Longrightarrow> base \<le> 36 \<Longrightarrow>
   skip_digits m base p = Some (p + length ds)"
proof (induction ds arbitrary: p)
  case Nil
  then show ?case using stops_char [of m p rest base] by (subst skip_digits.simps) auto
next
  case (Cons c ds)
  then show ?case by (subst skip_digits.simps) (simp add: mem_simps digit_char NULL_def)
qed

lemma limit_test:
  fixes lv ld d v base :: nat
  assumes "d < base" and "ld < base"
  shows "v < lv \<or> v = lv \<and> d \<le> ld \<longleftrightarrow> v * base + d \<le> lv * base + ld"
proof -
  have "v < lv \<Longrightarrow> v * base + d < lv * base"
    using assms mult_le_mono1 [of "Suc v" lv base] by simp
  moreover have "lv < v \<Longrightarrow> lv * base + ld < v * base"
    using assms mult_le_mono1 [of "Suc lv" v base] by simp
  ultimately show ?thesis by (cases v lv rule: linorder_cases) auto
qed

lemma strtox_loop_cstr:
  assumes "2 \<le> base" "base \<le> 36" "ld < base" "lv * base + ld < 2 ^ 64" "stops base rest"
  shows "cstr m p (ds @ rest) \<Longrightarrow> digits_of base ds \<Longrightarrow> v \<le> lv * base + ld \<Longrightarrow>
    strtox_loop m (of_nat base) err (of_nat lv) (int ld) sign p (of_nat v) digit =
    Some (if numval base v ds \<le> lv * base + ld
      then (if ds = [] \<and> digit = -1 then (0, NULL, sign, False)
            else (of_nat (numval base v ds), p + length ds, sign, False))
      else (err, p + length ds, 0x2b, True))"
proof (induction ds arbitrary: p v digit)
  case Nil
  have b: "unat (of_nat base :: u64) = base"
    using assms(2) by (simp add: unat_of_nat_u64)
  show ?case using Nil stops_char [of m p rest base] assms b
    by (subst strtox_loop.simps) (auto simp: NULL_def)
next
  case (Cons c ds)
  have b: "unat (of_nat base :: u64) = base"
    using assms(2) by (simp add: unat_of_nat_u64)
  have lv: "unat (of_nat lv :: u64) = lv"
    using assms(1,4) mult_le_mono2 [of 1 base lv] by (intro unat_of_nat_u64) linarith
  have v: "unat (of_nat v :: u64) = v"
    using assms(4) Cons.prems(3) by (intro unat_of_nat_u64) linarith
  have c: "m p = Some c" "cstr m (Suc p) (ds @ rest)" "dval c < base"
      "find_digit c base = Some (Suc (dval c))"
    using Cons.prems assms(2) by (auto simp: mem_simps digit_char)
  have test: "(of_nat v :: u64) < of_nat lv \<or> (of_nat v :: u64) = of_nat lv \<and> int (dval c) \<le> int ld
      \<longleftrightarrow> v * base + dval c \<le> lv * base + ld"
    using limit_test [OF c(3) assms(3), of v lv] lv v by (simp add: word_less_nat_alt word_unat_eq_iff)
  show ?case
  proof (cases "v * base + dval c \<le> lv * base + ld")
    case True
    then have "strtox_loop m (of_nat base) err (of_nat lv) (int ld) sign (Suc p)
        (of_nat (v * base + dval c)) (int (dval c)) =
      Some (if numval base (v * base + dval c) ds \<le> lv * base + ld
        then (of_nat (numval base (v * base + dval c) ds), Suc p + length ds, sign, False)
        else (err, Suc p + length ds, 0x2b, True))"
      using Cons.IH [OF c(2) _ True, of "int (dval c)"] Cons.prems(2) by simp
    then show ?thesis
      using True test c b by (subst strtox_loop.simps) (simp add: NULL_def)
  next
    case False
    then have "\<not> numval base (v * base + dval c) ds \<le> lv * base + ld"
      using numval_ge [of base "v * base + dval c" ds] assms(1) by linarith
    moreover have "skip_digits m base p = Some (p + length (c # ds))"
      by (rule skip_digits_cstr [OF Cons.prems(1,2) assms(5,2)])
    ultimately show ?thesis
      using False test c b by (subst strtox_loop.simps) (auto simp: NULL_def Let_def)
  qed
qed

section \<open>White space and sign\<close>

definition space_byte :: "u8 \<Rightarrow> bool" where
  "space_byte c \<longleftrightarrow> 9 \<le> unat c \<and> unat c \<le> 13 \<or> unat c = 32"

lemma isspace_ascii:
  assumes "unat c < 128"
  shows "\<exists>b. isspace (sint c) = Some b \<and> (b \<noteq> 0 \<longleftrightarrow> space_byte c)"
  using isspace_truth [of "int (unat c)"] assms
  by (auto simp: truth_def sint_ascii space_byte_def simp del: of_nat_unat)

lemma skip_space_cstr:
  "cstr m p (ws @ c # r) \<Longrightarrow> \<forall>x \<in> set ws. space_byte x \<Longrightarrow> unat c < 128 \<Longrightarrow> \<not> space_byte c \<Longrightarrow>
   skip_space m p = Some (p + length ws)"
proof (induction ws arbitrary: p)
  case Nil
  then show ?case using isspace_ascii [of c]
    by (subst skip_space.simps) (auto simp: mem_simps)
next
  case (Cons x ws)
  then have "unat x < 128" by (auto simp: space_byte_def)
  then show ?case using Cons isspace_ascii [of x]
    by (subst skip_space.simps) (auto simp: mem_simps)
qed

text \<open>A number with its sign, as it stands after the white space.\<close>

definition signed_digits :: "nat \<Rightarrow> u8 list \<Rightarrow> u8 list \<Rightarrow> u8 list \<Rightarrow> bool" where
  "signed_digits base sg ds rest \<longleftrightarrow> sg \<in> {[], [0x2b], [0x2d]} \<and> ds \<noteq> [] \<and>
     digits_of base ds \<and> stops base rest \<and>
     \<not> (base = 16 \<and> ds = [0x30] \<and> rest \<noteq> [] \<and> (hd rest = 0x78 \<or> hd rest = 0x58))"

lemma digit_byte: "dval c < base \<Longrightarrow> base \<le> 36 \<Longrightarrow> c \<noteq> 0x2b \<and> c \<noteq> 0x2d \<and> \<not> space_byte c"
  by (auto simp: dval_def space_byte_def split: if_splits)

lemma not_x_digit: "dval 0x78 = 33" "dval 0x58 = 33"
  by (simp_all add: dval_def)

lemma strtox_prelim_cstr:
  assumes cs: "cstr m p (ws @ sg @ ds @ rest)" and ws: "\<forall>x \<in> set ws. space_byte x"
    and sd: "signed_digits base sg ds rest" and b: "2 \<le> base" "base \<le> 36"
  shows "strtox_prelim m p (int base) =
    Some (p + length ws + length sg, if sg = [0x2d] then 0x2d else 0x2b, int base)"
proof -
  obtain d ds' where ds: "ds = d # ds'" using sd by (cases ds) (auto simp: signed_digits_def)
  have d: "unat d < 128" "dval d < base" using sd ds by (auto simp: signed_digits_def)
  obtain c r where cr: "sg @ ds @ rest = c # r" "unat c < 128" "\<not> space_byte c"
    using sd ds d digit_byte [OF d(2) b(2)]
    by (auto simp: signed_digits_def space_byte_def)
  have sk: "skip_space m p = Some (p + length ws)"
    using cs ws cr by (metis skip_space_cstr)
  have at: "cstr m (p + length ws) (sg @ ds @ rest)" using cstr_drop [OF cs, of "length ws"] by simp
  have rest: "m (p + length ws + length sg) = Some d"
      "cstr m (Suc (p + length ws + length sg)) (ds' @ rest)"
    using cstr_drop [OF at, of "length sg"] ds by (simp_all add: mem_simps)
  have sgn: "\<exists>x. m (p + length ws) = Some x \<and>
      (if x \<noteq> 0x2b \<and> x \<noteq> 0x2d then (0x2b, p + length ws) else (x, Suc (p + length ws))) =
      (if sg = [0x2d] then 0x2d else 0x2b, p + length ws + length sg)"
  proof -
    have "sg = [] \<or> sg = [0x2b] \<or> sg = [0x2d]" using sd by (simp add: signed_digits_def)
    then show ?thesis
    proof (elim disjE)
      assume "sg = []"
      then show ?thesis using rest(1) digit_byte [OF d(2) b(2)] by simp
    next
      assume "sg = [0x2b]"
      then show ?thesis using at by (simp add: mem_simps)
    next
      assume "sg = [0x2d]"
      then show ?thesis using at by (simp add: mem_simps)
    qed
  qed
  have hex: "\<exists>z. m (Suc (p + length ws + length sg)) = Some z \<and> (base = 16 \<and> d = 0x30 \<longrightarrow> z \<noteq> 0x78 \<and> z \<noteq> 0x58)"
  proof (cases "ds' @ rest")
    case Nil
    then show ?thesis using rest(2) by (simp add: mem_simps)
  next
    case (Cons z t)
    have "base = 16 \<and> d = 0x30 \<longrightarrow> z \<noteq> 0x78 \<and> z \<noteq> 0x58"
      using sd ds Cons by (cases ds') (auto simp: signed_digits_def not_x_digit)
    then show ?thesis using rest(2) Cons by (simp add: mem_simps)
  qed
  obtain x z where x: "m (p + length ws) = Some x"
      "(if x \<noteq> 0x2b \<and> x \<noteq> 0x2d then (0x2b, p + length ws) else (x, Suc (p + length ws))) =
        (if sg = [0x2d] then 0x2d else 0x2b, p + length ws + length sg)"
    and z: "m (Suc (p + length ws + length sg)) = Some z"
      "base = 16 \<and> d = 0x30 \<longrightarrow> z \<noteq> 0x78 \<and> z \<noteq> 0x58"
    using sgn hex by blast
  show ?thesis
    unfolding strtox_prelim_def sk x(1) bind.bind_lunit Let_def x(2) prod.case rest(1)
    using z b by simp
qed

section \<open>The whole conversion\<close>

lemma cstr_after_sign:
  "cstr m p (ws @ sg @ ds @ rest) \<Longrightarrow> cstr m (p + length ws + length sg) (ds @ rest)"
  using cstr_drop [of m p "ws @ sg @ ds @ rest" "length ws + length sg"] by (simp add: add.assoc)

text \<open>The loop under the limit \<open>l\<close>, split into quotient and remainder as the callers pass it.\<close>

lemma strtox_main_limit:
  assumes cs: "cstr m p (ds @ rest)" and d: "digits_of base ds" "ds \<noteq> []" "stops base rest"
    and b: "2 \<le> base" "base \<le> 36" and l: "l < 2 ^ 64"
  shows "strtox_main m p (of_nat base) err (of_nat (l div base)) (int (l mod base)) sign =
    Some (if numval base 0 ds \<le> l then (of_nat (numval base 0 ds), p + length ds, sign, False)
      else (err, p + length ds, 0x2b, True))"
  using strtox_loop_cstr [of base "l mod base" "l div base" rest m p ds 0 err sign "-1"] assms
  by (simp add: strtox_main_def)

lemma limits_nat:
  "LONG_MAX = int (2 ^ 63 - 1)" "LONG_MIN = - int (2 ^ 63)" "ULONG_MAX = int (2 ^ 64 - 1)"
  by (simp_all add: LONG_MAX_def LONG_MIN_def ULONG_MAX_def)

lemma signed_quotients:
  "int n sdiv int b = int (n div b)" "int n smod int b = int (n mod b)"
  "(- int n) sdiv (- int b) = int (n div b)" "- ((- int n) smod int b) = int (n mod b)"
  by (cases "n = 0"; cases "b = 0";
      simp add: signed_divide_int_def signed_modulo_int_def sgn_if zdiv_int zmod_int)+

lemma limit_words:
  "(of_int (LONG_MAX sdiv int base) :: u64) = of_nat ((2 ^ 63 - 1) div base)"
  "LONG_MAX smod int base = int ((2 ^ 63 - 1) mod base)"
  "(of_int (LONG_MIN sdiv - int base) :: u64) = of_nat (2 ^ 63 div base)"
  "- (LONG_MIN smod int base) = int (2 ^ 63 mod base)"
  "(of_int (ULONG_MAX div int base) :: u64) = of_nat ((2 ^ 64 - 1) div base)"
  "ULONG_MAX mod int base = int ((2 ^ 64 - 1) mod base)"
  by (simp_all only: limits_nat signed_quotients zdiv_int [symmetric] zmod_int [symmetric]
      of_int_of_nat_eq)

lemma strtol_cstr:
  assumes cs: "cstr m s (ws @ sg @ ds @ rest)" and ws: "\<forall>x \<in> set ws. space_byte x"
    and sd: "signed_digits base sg ds rest" and b: "2 \<le> base" "base \<le> 36"
    and s: "s \<noteq> NULL"
  defines "v \<equiv> (if sg = [0x2d] then - int (numval base 0 ds) else int (numval base 0 ds))"
  shows "strtol m s (int base) = Some (of_int (max LONG_MIN (min LONG_MAX v)),
    Some (s + length (ws @ sg @ ds)), v < LONG_MIN \<or> LONG_MAX < v)"
proof -
  have d: "digits_of base ds" "ds \<noteq> []" "stops base rest"
    using sd by (simp_all add: signed_digits_def)
  note at = cstr_after_sign [OF cs]
  note pre = strtox_prelim_cstr [OF cs ws sd b]
  show ?thesis
  proof (cases "sg = [0x2d]")
    case True
    have "strtox_main m (s + length ws + length sg) (of_nat base) (of_int LONG_MIN)
        (of_int (LONG_MIN sdiv - int base)) (- (LONG_MIN smod int base)) 0x2d =
      Some (if numval base 0 ds \<le> 2 ^ 63
        then (of_nat (numval base 0 ds), s + length ws + length sg + length ds, 0x2d, False)
        else (of_int LONG_MIN, s + length ws + length sg + length ds, 0x2b, True))"
      unfolding limit_words by (rule strtox_main_limit [OF at d b]) simp
    then show ?thesis
      using pre b s True by (auto simp: strtol_def v_def limits_nat NULL_def max_def min_def)
  next
    case False
    have "strtox_main m (s + length ws + length sg) (of_nat base) (of_int LONG_MAX)
        (of_int (LONG_MAX sdiv int base)) (LONG_MAX smod int base) 0x2b =
      Some (if numval base 0 ds \<le> 2 ^ 63 - 1
        then (of_nat (numval base 0 ds), s + length ws + length sg + length ds, 0x2b, False)
        else (of_int LONG_MAX, s + length ws + length sg + length ds, 0x2b, True))"
      unfolding limit_words by (rule strtox_main_limit [OF at d b]) simp
    then show ?thesis
      using pre b s False by (auto simp: strtol_def v_def limits_nat NULL_def max_def min_def)
  qed
qed

lemma strtoul_cstr:
  assumes cs: "cstr m s (ws @ sg @ ds @ rest)" and ws: "\<forall>x \<in> set ws. space_byte x"
    and sd: "signed_digits base sg ds rest" and b: "2 \<le> base" "base \<le> 36"
    and s: "s \<noteq> NULL"
  shows "strtoul m s (int base) = Some
    (if numval base 0 ds < 2 ^ 64
       then of_int (if sg = [0x2d] then - int (numval base 0 ds) else int (numval base 0 ds))
       else of_int ULONG_MAX,
     Some (s + length (ws @ sg @ ds)), 2 ^ 64 \<le> numval base 0 ds)"
proof -
  have d: "digits_of base ds" "ds \<noteq> []" "stops base rest"
    using sd by (simp_all add: signed_digits_def)
  have "strtox_main m (s + length ws + length sg) (of_nat base) (of_int ULONG_MAX)
      (of_int (ULONG_MAX div int base)) (ULONG_MAX mod int base) sign =
    Some (if numval base 0 ds \<le> 2 ^ 64 - 1
      then (of_nat (numval base 0 ds), s + length ws + length sg + length ds, sign, False)
      else (of_int ULONG_MAX, s + length ws + length sg + length ds, 0x2b, True))" for sign
    unfolding limit_words by (rule strtox_main_limit [OF cstr_after_sign [OF cs] d b]) simp
  then show ?thesis
    using strtox_prelim_cstr [OF cs ws sd b] b s by (auto simp: strtoul_def NULL_def)
qed

lemma atomax_loop_cstr:
  "cstr m p (ds @ rest) \<Longrightarrow> digits_of 10 ds \<Longrightarrow> stops 10 rest \<Longrightarrow>
   atomax_loop m p (of_nat v) = Some (of_nat (numval 10 v ds))"
proof (induction ds arbitrary: p v)
  case Nil
  then show ?case using stops_char [of m p rest 10] by (subst atomax_loop.simps) auto
next
  case (Cons c ds)
  have "atomax_loop m (Suc p) (of_nat (v * 10 + dval c)) = Some (of_nat (numval 10 (v * 10 + dval c) ds))"
    by (rule Cons.IH) (use Cons.prems in \<open>simp_all add: mem_simps\<close>)
  then show ?case using Cons.prems
    by (subst atomax_loop.simps) (simp add: mem_simps digit_char NULL_def)
qed

section \<open>Properties\<close>

text \<open>
  C33. \<open>strtol\<close> in a given base reads white space, a sign and digits, returns their value cut off
  at LONG_MIN and LONG_MAX, sets errno exactly when it was cut off, and stores the end of the
  digits through \<open>endptr\<close>, also after an overflow.
\<close>

theorem strtol_saturates:
  assumes "cstr m s (ws @ sg @ ds @ rest)" and "\<forall>x \<in> set ws. space_byte x"
    and "signed_digits base sg ds rest" and "2 \<le> base" and "base \<le> 36" and "s \<noteq> NULL"
    and "v = (if sg = [0x2d] then - int (numval base 0 ds) else int (numval base 0 ds))"
  shows "strtol m s (int base) = Some (of_int (max LONG_MIN (min LONG_MAX v)),
    Some (s + length (ws @ sg @ ds)), v < LONG_MIN \<or> LONG_MAX < v)"
  unfolding assms(7) using assms(1-6) by (rule strtol_cstr)

theorem strtol_saturates_witness:
  "strtol (mem_of 1 [0x20, 0x2d, 0x34, 0x32, 0x78, 0]) 1 10 = Some (- 42, Some 5, False)"
proof -
  have "cstr (mem_of 1 [0x20, 0x2d, 0x34, 0x32, 0x78, 0]) 1 ([0x20] @ [0x2d] @ [0x34, 0x32] @ [0x78])"
    by (simp add: cstr_def)
  from strtol_saturates [OF this, of 10 "-42"] show ?thesis
    by (simp add: space_byte_def signed_digits_def stops_def dval_def NULL_def LONG_MIN_def LONG_MAX_def)
qed

text \<open>
  \<open>strtoul\<close> negates the value of a negative number modulo 2^64, as the C standard asks, and
  returns ULONG_MAX with errno set exactly when the digits exceed it.
\<close>

theorem strtoul_wraps:
  assumes "cstr m s (ws @ sg @ ds @ rest)" and "\<forall>x \<in> set ws. space_byte x"
    and "signed_digits base sg ds rest" and "2 \<le> base" and "base \<le> 36" and "s \<noteq> NULL"
  shows "strtoul m s (int base) = Some
    (if numval base 0 ds < 2 ^ 64
       then of_int (if sg = [0x2d] then - int (numval base 0 ds) else int (numval base 0 ds))
       else of_int ULONG_MAX,
     Some (s + length (ws @ sg @ ds)), 2 ^ 64 \<le> numval base 0 ds)"
  using assms by (rule strtoul_cstr)

theorem strtoul_wraps_witness:
  "strtoul (mem_of 1 [0x2d, 0x66, 0]) 1 16 = Some (- 15, Some 3, False)"
proof -
  have "cstr (mem_of 1 [0x2d, 0x66, 0]) 1 ([] @ [0x2d] @ [0x66] @ [])"
    by (simp add: cstr_def)
  from strtoul_wraps [OF this, of 16] show ?thesis
    by (simp add: signed_digits_def stops_def dval_def NULL_def)
qed

text \<open>
  With base 0 a lone zero is not converted: \<open>strtol\<close> takes its 0 for the octal prefix, finds
  no digit after it and stores the start of the string as the end, as if it had no number.
\<close>

theorem strtol_lone_zero_rejected:
  assumes "cstr m s (0x30 # rest)" and "stops 8 rest" and "rest = [] \<or> hd rest \<noteq> 0x78 \<and> hd rest \<noteq> 0x58"
    and "s \<noteq> NULL"
  shows "strtol m s 0 = Some (0, Some s, False)"
proof -
  have r: "cstr m (Suc s) rest" and z: "m s = Some 0x30" using assms(1) by (simp_all add: mem_simps)
  obtain c where c: "m (Suc s) = Some c" "c \<noteq> 0x78 \<and> c \<noteq> 0x58"
    using r assms(3) by (cases rest) (auto simp: mem_simps)
  have sk: "skip_space m s = Some s"
    using skip_space_cstr [of m s "[]" "0x30" rest] assms(1) by (simp add: space_byte_def)
  have "strtox_main m (Suc s) (of_nat 8) (of_int LONG_MAX) (of_int (LONG_MAX sdiv int 8))
      (LONG_MAX smod int 8) 0x2b = Some (0, NULL, 0x2b, False)"
    unfolding limit_words strtox_main_def
    using strtox_loop_cstr [of 8 "(2 ^ 63 - 1) mod 8" "(2 ^ 63 - 1) div 8" rest m "Suc s" "[]" 0 _ _ "-1"]
      r assms(2) by simp
  then show ?thesis
    using sk z c by (simp add: strtol_def strtox_prelim_def)
qed

theorem strtol_lone_zero_rejected_witness:
  "strtol (mem_of 1 [0x30, 0]) 1 0 = Some (0, Some 1, False)"
  using strtol_lone_zero_rejected [of "mem_of 1 [0x30, 0]" 1 "[]"]
  by (simp add: cstr_def stops_def NULL_def)

text \<open>
  A string whose first byte is 0x80 to 0xfe makes \<open>strtol\<close> read outside the class table:
  plain \<open>char\<close> is signed and the byte indexes the table with a number below -1.
\<close>

theorem strtol_high_byte_faults:
  assumes "m s = Some c" and "0x80 \<le> unat c" and "unat c < 0xff"
  shows "strtol m s base = None"
proof -
  have "isspace (sint c) = None"
    using assms(2,3) by (simp add: isspace_def class_of_def ctype_at_def sint_high del: of_nat_unat)
  then have "skip_space m s = None" using assms(1) by (subst skip_space.simps) simp
  then show ?thesis by (simp add: strtol_def strtox_prelim_def)
qed

theorem strtol_high_byte_faults_witness:
  "strtol (mem_of 1 [0x80, 0]) 1 10 = None"
  using strtol_high_byte_faults [of "mem_of 1 [0x80, 0]" 1 "0x80" 10] by simp

end
