(* ===== verification/PdcSort.thy ===== *)
theory PdcSort
  imports Prelude "HOL-Library.Multiset"
begin

text \<open>
  \<open>qsort\<close> and \<open>bsearch\<close> of the C library. Every pointer of these functions is the array's base
  plus a multiple of the element size, so an array is the list of its elements and a pointer is
  an index; an access outside the array is the fault None. The contract of the comparison
  function is the locale \<open>comparator\<close>.
\<close>

section \<open>Array access\<close>

definition elem_at :: "'a list \<Rightarrow> nat \<Rightarrow> 'a option" where
  "elem_at xs i = (if i < length xs then Some (xs ! i) else None)"

definition cmp_at :: "('a \<Rightarrow> 'a \<Rightarrow> int) \<Rightarrow> 'a list \<Rightarrow> nat \<Rightarrow> nat \<Rightarrow> int option" where
  "cmp_at compar xs i j = do { x \<leftarrow> elem_at xs i; y \<leftarrow> elem_at xs j; Some (compar x y) }"

definition memswp :: "'a list \<Rightarrow> nat \<Rightarrow> nat \<Rightarrow> 'a list option" where
  "memswp xs i j = do { x \<leftarrow> elem_at xs i; y \<leftarrow> elem_at xs j; Some (xs[i := y, j := x]) }"

section \<open>qsort\<close>

text \<open>The two scans of the partition: both step before they compare.\<close>

partial_function (option) scan_up :: "('a \<Rightarrow> 'a \<Rightarrow> int) \<Rightarrow> 'a list \<Rightarrow> nat \<Rightarrow> nat \<Rightarrow> nat option" where
  "scan_up compar xs b i = do {
     c \<leftarrow> cmp_at compar xs (Suc i) b;
     if c < 0 then scan_up compar xs b (Suc i) else Some (Suc i)
   }"

primrec scan_down :: "('a \<Rightarrow> 'a \<Rightarrow> int) \<Rightarrow> 'a list \<Rightarrow> nat \<Rightarrow> nat \<Rightarrow> nat option" where
  "scan_down compar xs b 0 = None"
| "scan_down compar xs b (Suc j) = do {
     c \<leftarrow> cmp_at compar xs j b;
     if c > 0 then scan_down compar xs b j else Some j
   }"

partial_function (option) partition_loop ::
  "('a \<Rightarrow> 'a \<Rightarrow> int) \<Rightarrow> 'a list \<Rightarrow> nat \<Rightarrow> nat \<Rightarrow> nat \<Rightarrow> ('a list \<times> nat \<times> nat) option" where
  "partition_loop compar xs b i j = do {
     i \<leftarrow> scan_up compar xs b i;
     j \<leftarrow> scan_down compar xs b j;
     if i > j then Some (xs, i, j)
     else do { xs \<leftarrow> memswp xs i j; partition_loop compar xs b i j }
   }"

definition swap_if_greater :: "('a \<Rightarrow> 'a \<Rightarrow> int) \<Rightarrow> nat \<Rightarrow> nat \<Rightarrow> 'a list \<Rightarrow> 'a list option" where
  "swap_if_greater compar i j xs = do {
     c \<leftarrow> cmp_at compar xs i j;
     if c > 0 then memswp xs i j else Some xs
   }"

text \<open>The median of three, the partition and the move of the pivot, for one subfile.\<close>

definition qsort_split ::
  "('a \<Rightarrow> 'a \<Rightarrow> int) \<Rightarrow> 'a list \<Rightarrow> nat \<Rightarrow> nat \<Rightarrow> ('a list \<times> nat \<times> nat) option" where
  "qsort_split compar xs b l = do {
     let i = b + 1; let j = l - 1;
     xs \<leftarrow> memswp xs ((l - b) div 2 + b) b;
     xs \<leftarrow> swap_if_greater compar i j xs;
     xs \<leftarrow> swap_if_greater compar b j xs;
     xs \<leftarrow> swap_if_greater compar i b xs;
     (xs, i, j) \<leftarrow> partition_loop compar xs b i j;
     xs \<leftarrow> memswp xs b j;
     Some (xs, i, j)
   }"

primrec insert_down :: "('a \<Rightarrow> 'a \<Rightarrow> int) \<Rightarrow> nat \<Rightarrow> nat \<Rightarrow> 'a list \<Rightarrow> 'a list option" where
  "insert_down compar b 0 xs = do {
     c \<leftarrow> cmp_at compar xs 0 1;
     if c > 0 then do { xs \<leftarrow> memswp xs 0 1; if 0 = b then Some xs else None } else Some xs
   }"
| "insert_down compar b (Suc j) xs = do {
     c \<leftarrow> cmp_at compar xs (Suc j) (Suc (Suc j));
     if c > 0 then do {
       xs \<leftarrow> memswp xs (Suc j) (Suc (Suc j));
       if Suc j = b then Some xs else insert_down compar b j xs
     } else Some xs
   }"

text \<open>The outer insertion loop; its \<open>i\<close> is always \<open>j + 1\<close>, and \<open>n\<close> of its rounds are left.\<close>

primrec insertion_loop :: "('a \<Rightarrow> 'a \<Rightarrow> int) \<Rightarrow> nat \<Rightarrow> nat \<Rightarrow> nat \<Rightarrow> 'a list \<Rightarrow> 'a list option" where
  "insertion_loop compar b j 0 xs = Some xs"
| "insertion_loop compar b j (Suc n) xs = do {
     xs \<leftarrow> insert_down compar b j xs;
     insertion_loop compar b (Suc j) n xs
   }"

definition qsort_T :: nat where "qsort_T = 7"

text \<open>64 pointers of stack hold 32 subfiles; a push beyond it writes outside the array: None.\<close>

definition qsort_slots :: nat where "qsort_slots = 32"

partial_function (option) qsort_loop ::
  "('a \<Rightarrow> 'a \<Rightarrow> int) \<Rightarrow> 'a list \<Rightarrow> nat \<Rightarrow> nat \<Rightarrow> (nat \<times> nat) list \<Rightarrow> 'a list option" where
  "qsort_loop compar xs b l stack = (
     if l < b then None
     else if l - b > qsort_T then do {
       (xs, i, j) \<leftarrow> qsort_split compar xs b l;
       if length stack \<ge> qsort_slots then None
       else if int j - int b > int l - int i
       then qsort_loop compar xs i l ((b, j) # stack)
       else qsort_loop compar xs b j ((i, l) # stack)
     }
     else do {
       xs \<leftarrow> insertion_loop compar b b (l - Suc b) xs;
       case stack of
         [] \<Rightarrow> Some xs
       | (b, l) # stack' \<Rightarrow> qsort_loop compar xs b l stack'
     })"

definition qsort :: "('a \<Rightarrow> 'a \<Rightarrow> int) \<Rightarrow> 'a list \<Rightarrow> nat \<Rightarrow> 'a list option" where
  "qsort compar xs nmemb = qsort_loop compar xs 0 nmemb []"

section \<open>bsearch\<close>

text \<open>The inner option of the result is the returned pointer, None for NULL.\<close>

function bsearch_loop :: "('k \<Rightarrow> 'a \<Rightarrow> int) \<Rightarrow> 'k \<Rightarrow> 'a list \<Rightarrow> nat \<Rightarrow> nat \<Rightarrow> nat option option" where
  "bsearch_loop compar key xs b nmemb = (
     if nmemb = 0 then Some None
     else do {
       let corr = nmemb mod 2;
       let n = nmemb div 2;
       let pivot = b + n;
       x \<leftarrow> elem_at xs pivot;
       let rc = compar key x;
       if rc > 0 then bsearch_loop compar key xs (pivot + 1) (n - (1 - corr))
       else if rc = 0 then Some (Some pivot)
       else bsearch_loop compar key xs b n
     })"
  by pat_completeness auto
termination
  by (relation "measure (\<lambda>(_, _, _, _, n). n)") auto

declare bsearch_loop.simps [simp del]

definition bsearch :: "('k \<Rightarrow> 'a \<Rightarrow> int) \<Rightarrow> 'k \<Rightarrow> 'a list \<Rightarrow> nat \<Rightarrow> nat option option" where
  "bsearch compar key xs nmemb = bsearch_loop compar key xs 0 nmemb"

text \<open>The comparison function of the library's own test driver.\<close>

definition compare_bytes :: "u8 \<Rightarrow> u8 \<Rightarrow> int" where
  "compare_bytes left right = uint left - uint right"

section \<open>Changes inside a subfile\<close>

text \<open>\<open>ys\<close> is \<open>xs\<close> with the elements of the indexes from \<open>b\<close> to before \<open>l\<close> permuted.\<close>

definition within :: "nat \<Rightarrow> nat \<Rightarrow> 'a list \<Rightarrow> 'a list \<Rightarrow> bool" where
  "within b l xs ys \<longleftrightarrow> length ys = length xs \<and> mset ys = mset xs \<and>
     (\<forall>k. k < b \<or> l \<le> k \<longrightarrow> k < length xs \<longrightarrow> ys ! k = xs ! k) \<and>
     (\<forall>k. b \<le> k \<and> k < l \<longrightarrow> (\<exists>k'. b \<le> k' \<and> k' < l \<and> ys ! k = xs ! k'))"

lemma within_refl [simp, intro]: "within b l xs xs"
  by (auto simp: within_def)

lemma within_trans: "within b l xs ys \<Longrightarrow> within b l ys zs \<Longrightarrow> within b l xs zs"
  unfolding within_def by (metis (no_types, lifting))

lemma within_sub: "within b l xs ys \<Longrightarrow> b' \<le> b \<Longrightarrow> l \<le> l' \<Longrightarrow> l' \<le> length xs \<Longrightarrow> within b' l' xs ys"
  unfolding within_def by (metis (no_types, lifting) le_trans less_le_trans not_le)

lemma within_length: "within b l xs ys \<Longrightarrow> length ys = length xs"
  by (simp add: within_def)

lemma memswp_Some:
  "i < length xs \<Longrightarrow> j < length xs \<Longrightarrow> memswp xs i j = Some (xs[i := xs ! j, j := xs ! i])"
  by (simp add: memswp_def elem_at_def)

lemma memswp_within:
  assumes "b \<le> i" "i < l" "b \<le> j" "j < l" "l \<le> length xs"
  shows "within b l xs (xs[i := xs ! j, j := xs ! i])"
proof -
  have "mset (xs[i := xs ! j, j := xs ! i]) = mset xs"
    by (rule mset_swap) (use assms in auto)
  moreover have "\<exists>k'. b \<le> k' \<and> k' < l \<and> xs[i := xs ! j, j := xs ! i] ! k = xs ! k'"
    if "b \<le> k" "k < l" for k
    using that assms by (cases "k = j"; cases "k = i") auto
  ultimately show ?thesis using assms by (auto simp: within_def nth_list_update)
qed

lemma cmp_at_Some:
  "i < length xs \<Longrightarrow> j < length xs \<Longrightarrow> cmp_at compar xs i j = Some (compar (xs ! i) (xs ! j))"
  by (simp add: cmp_at_def elem_at_def)

definition sorted_range :: "('a \<Rightarrow> 'a \<Rightarrow> int) \<Rightarrow> nat \<Rightarrow> nat \<Rightarrow> 'a list \<Rightarrow> bool" where
  "sorted_range compar b l xs \<longleftrightarrow> (\<forall>p q. b \<le> p \<and> p < q \<and> q < l \<longrightarrow> compar (xs ! p) (xs ! q) \<le> 0)"

text \<open>The subfiles still to sort, the current one first: disjoint and inside the array.\<close>

definition segments_ok :: "nat \<Rightarrow> (nat \<times> nat) list \<Rightarrow> bool" where
  "segments_ok n S \<longleftrightarrow> (\<forall>(b, l) \<in> set S. b \<le> l \<and> l \<le> n) \<and>
     sorted_wrt (\<lambda>(b, l) (b', l'). l \<le> b' \<or> l' \<le> b) S"

definition covered :: "(nat \<times> nat) list \<Rightarrow> nat \<Rightarrow> nat \<Rightarrow> bool" where
  "covered S p q \<longleftrightarrow> (\<exists>(b, l) \<in> set S. b \<le> p \<and> q < l)"

lemma covered_append: "covered (S @ T) p q \<longleftrightarrow> covered S p q \<or> covered T p q"
  by (simp add: covered_def bex_Un)

text \<open>Whatever is not inside one and the same subfile is in order already.\<close>

definition ordered_except :: "('a \<Rightarrow> 'a \<Rightarrow> int) \<Rightarrow> (nat \<times> nat) list \<Rightarrow> 'a list \<Rightarrow> bool" where
  "ordered_except compar S xs \<longleftrightarrow>
     (\<forall>p q. p < q \<and> q < length xs \<longrightarrow> covered S p q \<or> compar (xs ! p) (xs ! q) \<le> 0)"

text \<open>A subfile with \<open>d\<close> others below it on the stack has at most \<open>N / 2 ^ d\<close> elements.\<close>

fun depth_ok :: "nat \<Rightarrow> (nat \<times> nat) list \<Rightarrow> bool" where
  "depth_ok N [] = True"
| "depth_ok N ((b, l) # S) = ((l - b) * 2 ^ length S \<le> N \<and> depth_ok N S)"

definition work :: "(nat \<times> nat) list \<Rightarrow> nat" where
  "work S = sum_list (map (\<lambda>(b, l). 2 * (l - b) + 1) S)"

lemma depth_split:
  assumes "depth_ok N ((b, l) # S)" "2 * (l1 - b1) \<le> l - b" "l2 - b2 \<le> l - b"
  shows "depth_ok N ((b1, l1) # (b2, l2) # S)"
proof -
  have n: "(l - b) * 2 ^ length S \<le> N" "depth_ok N S" using assms(1) by simp_all
  have "2 * (l1 - b1) * 2 ^ length S \<le> N"
    by (rule order_trans [OF mult_le_mono1 [OF assms(2)] n(1)])
  moreover have "(l2 - b2) * 2 ^ length S \<le> N"
    by (rule order_trans [OF mult_le_mono1 [OF assms(3)] n(1)])
  ultimately show ?thesis using n(2) by (simp add: mult_ac)
qed

lemma depth_bound:
  assumes "depth_ok N ((b, l) # S)" "7 < l - b" "N < 2 ^ 35"
  shows "\<not> length S \<ge> qsort_slots"
proof
  assume "qsort_slots \<le> length S"
  then have "(2::nat) ^ 32 \<le> 2 ^ length S" by (intro power_increasing) (auto simp: qsort_slots_def)
  then have "8 * 2 ^ 32 \<le> (l - b) * 2 ^ length S" using assms(2) by (intro mult_le_mono) auto
  then show False using assms(1,3) by simp
qed

section \<open>The contract of a comparison function\<close>

locale comparator =
  fixes compar :: "'a \<Rightarrow> 'a \<Rightarrow> int"
  assumes antisymmetric: "compar x y > 0 \<longleftrightarrow> compar y x < 0"
    and transitive: "compar x y \<le> 0 \<Longrightarrow> compar y z \<le> 0 \<Longrightarrow> compar x z \<le> 0"
begin

lemma cmp_total: "compar x y \<le> 0 \<or> compar y x \<le> 0"
  using antisymmetric [of x y] by linarith

lemma cmp_refl: "compar x x = 0"
  using antisymmetric [of x x] by linarith

lemma cmp_ge: "0 \<le> compar x y \<longleftrightarrow> compar y x \<le> 0"
  using antisymmetric [of y x] by linarith

subsection \<open>The scans\<close>

lemma scan_up_finds:
  assumes "i < k" "k < length xs" "b < length xs" "compar (xs ! k) (xs ! b) \<ge> 0"
  shows "\<exists>i'. scan_up compar xs b i = Some i' \<and> i < i' \<and> i' \<le> k \<and>
    compar (xs ! b) (xs ! i') \<le> 0 \<and> (\<forall>h. i < h \<and> h < i' \<longrightarrow> compar (xs ! h) (xs ! b) \<le> 0)"
  using assms
proof (induction "k - i" arbitrary: i)
  case (Suc d)
  show ?case
  proof (cases "compar (xs ! Suc i) (xs ! b) < 0")
    case True
    then have "Suc i \<noteq> k" using Suc.prems by auto
    then have "d = k - Suc i" "Suc i < k" using Suc.hyps(2) Suc.prems by auto
    from Suc.hyps(1) [OF this Suc.prems(2-4)] obtain i' where i':
      "scan_up compar xs b (Suc i) = Some i'" "Suc i < i'" "i' \<le> k" "compar (xs ! b) (xs ! i') \<le> 0"
      "\<forall>h. Suc i < h \<and> h < i' \<longrightarrow> compar (xs ! h) (xs ! b) \<le> 0" by blast
    have "compar (xs ! h) (xs ! b) \<le> 0" if "i < h" "h < i'" for h
      using that i'(5) True by (cases "h = Suc i") auto
    then show ?thesis using True i' Suc.prems
      by (subst scan_up.simps) (auto simp: cmp_at_Some)
  next
    case False
    then have "compar (xs ! b) (xs ! Suc i) \<le> 0" by (simp add: cmp_ge [symmetric])
    moreover have "Suc i \<le> k" using Suc.prems by simp
    ultimately show ?thesis using False Suc.prems
      by (subst scan_up.simps) (auto simp: cmp_at_Some)
  qed
qed simp

lemma scan_down_finds:
  assumes "b < j" "j \<le> length xs"
  shows "\<exists>j'. scan_down compar xs b j = Some j' \<and> b \<le> j' \<and> j' < j \<and>
    compar (xs ! j') (xs ! b) \<le> 0 \<and> (\<forall>h. j' < h \<and> h < j \<longrightarrow> compar (xs ! b) (xs ! h) \<le> 0)"
  using assms
proof (induction j)
  case (Suc j)
  have c: "cmp_at compar xs j b = Some (compar (xs ! j) (xs ! b))"
    using Suc.prems by (simp add: cmp_at_Some)
  show ?case
  proof (cases "compar (xs ! j) (xs ! b) > 0")
    case True
    then have "j \<noteq> b" by (auto simp: cmp_refl)
    then obtain j' where j': "scan_down compar xs b j = Some j'" "b \<le> j'" "j' < j"
        "compar (xs ! j') (xs ! b) \<le> 0" "\<forall>h. j' < h \<and> h < j \<longrightarrow> compar (xs ! b) (xs ! h) \<le> 0"
      using Suc.IH Suc.prems by auto
    have "compar (xs ! b) (xs ! h) \<le> 0" if "j' < h" "h < Suc j" for h
      using that j'(5) True by (cases "h = j") (auto simp: antisymmetric)
    then show ?thesis using True j' c by auto
  next
    case False
    then show ?thesis using c Suc.prems by (auto simp: not_less)
  qed
qed simp

subsection \<open>The partition\<close>

lemma partition_loop_ok:
  assumes "b < i" "i \<le> j" "j < l" "l \<le> length xs" "i < j \<or> Suc j < l"
    and "\<forall>k. b \<le> k \<and> k \<le> i \<longrightarrow> compar (xs ! k) (xs ! b) \<le> 0"
    and "\<forall>k. j \<le> k \<and> k < l \<longrightarrow> compar (xs ! b) (xs ! k) \<le> 0"
  shows "\<exists>ys i' j'. partition_loop compar xs b i j = Some (ys, i', j') \<and>
    within (Suc b) l xs ys \<and> b \<le> j' \<and> j' < j \<and> j' < i' \<and> i < i' \<and> i' < l \<and>
    compar (ys ! j') (ys ! b) \<le> 0 \<and>
    (\<forall>k. b \<le> k \<and> k < i' \<longrightarrow> compar (ys ! k) (ys ! b) \<le> 0) \<and>
    (\<forall>k. j' < k \<and> k < l \<longrightarrow> compar (ys ! b) (ys ! k) \<le> 0)"
  using assms
proof (induction "j - i" arbitrary: xs i j rule: less_induct)
  case less
  define k where "k = (if i < j then j else Suc j)"
  have k: "i < k" "k < l" "j \<le> k" using less.prems by (auto simp: k_def)
  have "0 \<le> compar (xs ! k) (xs ! b)" using less.prems(7) k by (simp add: cmp_ge)
  then obtain i' where i': "scan_up compar xs b i = Some i'" "i < i'" "i' \<le> k"
      "compar (xs ! b) (xs ! i') \<le> 0" "\<forall>h. i < h \<and> h < i' \<longrightarrow> compar (xs ! h) (xs ! b) \<le> 0"
    using scan_up_finds [of i k xs b] k less.prems by auto
  obtain j' where j': "scan_down compar xs b j = Some j'" "b \<le> j'" "j' < j"
      "compar (xs ! j') (xs ! b) \<le> 0" "\<forall>h. j' < h \<and> h < j \<longrightarrow> compar (xs ! b) (xs ! h) \<le> 0"
    using scan_down_finds [of b j xs] less.prems by auto
  have lo: "compar (xs ! h) (xs ! b) \<le> 0" if "b \<le> h" "h < i'" for h
    using that less.prems(6) i'(5) by (cases "h \<le> i") auto
  have hi: "compar (xs ! b) (xs ! h) \<le> 0" if "j' < h" "h < l" for h
    using that less.prems(7) j'(5) by (cases "j \<le> h") auto
  show ?case
  proof (cases "i' > j'")
    case True
    then have "partition_loop compar xs b i j = Some (xs, i', j')"
      using i' j' by (subst partition_loop.simps) auto
    then show ?thesis using True i' j' k lo hi by auto
  next
    case False
    let ?ys = "xs[i' := xs ! j', j' := xs ! i']"
    have len: "i' < length xs" "j' < length xs" using False less.prems j' by auto
    have b: "?ys ! b = xs ! b" using i'(2) False less.prems(1) by (simp add: nth_list_update)
    have w: "within (Suc b) l xs ?ys"
      by (rule memswp_within) (use i'(2) j'(3) False less.prems in auto)
    have p6: "\<forall>k. b \<le> k \<and> k \<le> i' \<longrightarrow> compar (?ys ! k) (?ys ! b) \<le> 0"
      unfolding b using lo j'(4) len False by (auto simp: nth_list_update le_less)
    have p7: "\<forall>k. j' \<le> k \<and> k < l \<longrightarrow> compar (?ys ! b) (?ys ! k) \<le> 0"
      unfolding b using hi i'(4) len False by (auto simp: nth_list_update le_less)
    have step: "partition_loop compar xs b i j = partition_loop compar ?ys b i' j'"
      using i' j' False len by (subst partition_loop.simps) (simp add: memswp_Some)
    have "\<exists>ys i'' j''. partition_loop compar ?ys b i' j' = Some (ys, i'', j'') \<and>
      within (Suc b) l ?ys ys \<and> b \<le> j'' \<and> j'' < j' \<and> j'' < i'' \<and> i' < i'' \<and> i'' < l \<and>
      compar (ys ! j'') (ys ! b) \<le> 0 \<and>
      (\<forall>k. b \<le> k \<and> k < i'' \<longrightarrow> compar (ys ! k) (ys ! b) \<le> 0) \<and>
      (\<forall>k. j'' < k \<and> k < l \<longrightarrow> compar (ys ! b) (ys ! k) \<le> 0)"
      by (rule less.hyps) (use i'(2) j'(3) False less.prems p6 p7 in auto)
    then show ?thesis unfolding step using w i'(2) j'(3) by (metis less_trans within_trans)
  qed
qed

lemma swap_if_greater_ok:
  assumes "b \<le> i" "i < l" "b \<le> j" "j < l" "l \<le> length xs" "i \<noteq> j"
  shows "\<exists>ys. swap_if_greater compar i j xs = Some ys \<and> within b l xs ys \<and>
    compar (ys ! i) (ys ! j) \<le> 0 \<and> (\<forall>k. k \<noteq> i \<and> k \<noteq> j \<longrightarrow> ys ! k = xs ! k) \<and>
    (ys ! i = xs ! i \<and> ys ! j = xs ! j \<or>
     ys ! i = xs ! j \<and> ys ! j = xs ! i \<and> compar (xs ! j) (xs ! i) \<le> 0)"
  using assms memswp_within [OF assms(1-5)] antisymmetric [of "xs ! i" "xs ! j"]
  by (auto simp: swap_if_greater_def cmp_at_Some memswp_Some)

text \<open>After the three conditional swaps the first element is the median of the three.\<close>

lemma median_of_three:
  assumes "b + 2 < l" "l \<le> length xs"
  shows "\<exists>ys zs ws. swap_if_greater compar (b + 1) (l - 1) xs = Some ys \<and>
    swap_if_greater compar b (l - 1) ys = Some zs \<and> swap_if_greater compar (b + 1) b zs = Some ws \<and>
    within b l xs ws \<and> compar (ws ! (b + 1)) (ws ! b) \<le> 0 \<and> compar (ws ! b) (ws ! (l - 1)) \<le> 0"
proof -
  have ix: "b \<le> b + 1" "b + 1 < l" "b \<le> l - 1" "l - 1 < l" "b + 1 \<noteq> l - 1" "b \<noteq> l - 1" "b < l"
    using assms(1) by auto
  obtain ys where ys: "swap_if_greater compar (b + 1) (l - 1) xs = Some ys" "within b l xs ys"
      "compar (ys ! (b + 1)) (ys ! (l - 1)) \<le> 0"
    using swap_if_greater_ok [OF ix(1-4) assms(2) ix(5)] by blast
  have l1: "l \<le> length ys" using assms(2) within_length [OF ys(2)] by simp
  obtain zs where zs: "swap_if_greater compar b (l - 1) ys = Some zs" "within b l ys zs"
      "compar (zs ! b) (zs ! (l - 1)) \<le> 0" "\<forall>k. k \<noteq> b \<and> k \<noteq> l - 1 \<longrightarrow> zs ! k = ys ! k"
      "zs ! (l - 1) = ys ! (l - 1) \<or> zs ! (l - 1) = ys ! b \<and> compar (ys ! (l - 1)) (ys ! b) \<le> 0"
    using swap_if_greater_ok [OF le_refl ix(7) ix(3,4) l1 ix(6)] by blast
  have l2: "l \<le> length zs" using l1 within_length [OF zs(2)] by simp
  have one: "zs ! (b + 1) = ys ! (b + 1)" using zs(4) ix(5) by simp
  have top: "compar (zs ! (b + 1)) (zs ! (l - 1)) \<le> 0"
    unfolding one using zs(5) ys(3) transitive by metis
  obtain ws where ws: "swap_if_greater compar (b + 1) b zs = Some ws" "within b l zs ws"
      "compar (ws ! (b + 1)) (ws ! b) \<le> 0" "\<forall>k. k \<noteq> b + 1 \<and> k \<noteq> b \<longrightarrow> ws ! k = zs ! k"
      "ws ! b = zs ! b \<or> ws ! b = zs ! (b + 1)"
    using swap_if_greater_ok [OF ix(1,2) le_refl ix(7) l2] by force
  have last: "ws ! (l - 1) = zs ! (l - 1)" using ws(4) ix(5,6) by metis
  have "compar (ws ! b) (ws ! (l - 1)) \<le> 0"
    unfolding last using ws(5) zs(3) top by auto
  then show ?thesis using ys zs ws by (meson within_trans)
qed

text \<open>One round of the quicksort: two smaller subfiles, and order between all that is not in them.\<close>

lemma qsort_split_ok:
  assumes "b + 7 < l" "l \<le> length xs"
  shows "\<exists>ys i j. qsort_split compar xs b l = Some (ys, i, j) \<and> within b l xs ys \<and>
    b \<le> j \<and> j < i \<and> i \<le> l \<and>
    (\<forall>p q. b \<le> p \<and> p < q \<and> q < l \<longrightarrow> q < j \<or> i \<le> p \<or> compar (ys ! p) (ys ! q) \<le> 0)"
proof -
  let ?m = "(l - b) div 2 + b"
  let ?xs = "xs[?m := xs ! b, b := xs ! ?m]"
  have m: "b \<le> ?m" "?m < l" using assms by auto
  have w0: "within b l xs ?xs" using m assms by (intro memswp_within) auto
  have len: "length ?xs = length xs" by simp
  obtain ys zs ws where ws: "swap_if_greater compar (b + 1) (l - 1) ?xs = Some ys"
      "swap_if_greater compar b (l - 1) ys = Some zs" "swap_if_greater compar (b + 1) b zs = Some ws"
      "within b l ?xs ws" "compar (ws ! (b + 1)) (ws ! b) \<le> 0" "compar (ws ! b) (ws ! (l - 1)) \<le> 0"
    using median_of_three [of b l ?xs] assms len by auto
  have lw: "length ws = length xs" using within_length [OF ws(4)] by simp
  have low: "\<forall>k. b \<le> k \<and> k \<le> b + 1 \<longrightarrow> compar (ws ! k) (ws ! b) \<le> 0"
  proof (intro allI impI)
    fix k assume "b \<le> k \<and> k \<le> b + 1"
    then have "k = b \<or> k = b + 1" by linarith
    then show "compar (ws ! k) (ws ! b) \<le> 0" using ws(5) cmp_refl [of "ws ! b"] by auto
  qed
  have high: "\<forall>k. l - 1 \<le> k \<and> k < l \<longrightarrow> compar (ws ! b) (ws ! k) \<le> 0"
  proof (intro allI impI)
    fix k assume "l - 1 \<le> k \<and> k < l"
    then have "k = l - 1" by linarith
    then show "compar (ws ! b) (ws ! k) \<le> 0" using ws(6) by simp
  qed
  obtain us i j where us: "partition_loop compar ws b (b + 1) (l - 1) = Some (us, i, j)"
      "within (Suc b) l ws us" "b \<le> j" "j < l - 1" "j < i" "i < l" "compar (us ! j) (us ! b) \<le> 0"
      "\<forall>k. b \<le> k \<and> k < i \<longrightarrow> compar (us ! k) (us ! b) \<le> 0"
      "\<forall>k. j < k \<and> k < l \<longrightarrow> compar (us ! b) (us ! k) \<le> 0"
    using partition_loop_ok [of b "b + 1" "l - 1" l ws] assms lw low high by fastforce
  let ?vs = "us[b := us ! j, j := us ! b]"
  have lu: "length us = length xs" using within_length [OF us(2)] lw by simp
  have "within b l us ?vs" using us assms lu by (intro memswp_within) auto
  moreover have "within b l ws us" by (rule within_sub [OF us(2)]) (use assms lw in auto)
  ultimately have w: "within b l xs ?vs" using within_trans w0 ws(4) by metis
  have lo: "compar (?vs ! k) (us ! b) \<le> 0" if "b \<le> k" "k < i" for k
    using that us lu assms by (auto simp: nth_list_update cmp_refl)
  have hi: "compar (us ! b) (?vs ! k) \<le> 0" if "j \<le> k" "k < l" for k
    using that us lu assms by (cases "k = j") (auto simp: nth_list_update cmp_refl)
  have ord: "q < j \<or> i \<le> p \<or> compar (?vs ! p) (?vs ! q) \<le> 0" if "b \<le> p" "p < q" "q < l" for p q
    using that lo [of p] hi [of q] transitive by (meson not_less)
  have "qsort_split compar xs b l = Some (?vs, i, j)"
    using ws us m assms lu by (simp add: qsort_split_def memswp_Some)
  then show ?thesis using w us ord by auto
qed

subsection \<open>The insertion sort\<close>

text \<open>
  While an element sinks from \<open>j + 1\<close>, every pair of the range is in order but those with it as
  the upper one.
\<close>

lemma insert_step:
  assumes ord: "\<forall>p q. b \<le> p \<and> p < q \<and> q < m \<and> q \<noteq> Suc j \<longrightarrow> compar (xs ! p) (xs ! q) \<le> 0"
    and gt: "compar (xs ! j) (xs ! Suc j) > 0" and ix: "b \<le> j" "Suc j < m" "m \<le> length xs"
  shows "\<forall>p q. b \<le> p \<and> p < q \<and> q < m \<and> q \<noteq> j \<longrightarrow>
    compar (xs[j := xs ! Suc j, Suc j := xs ! j] ! p) (xs[j := xs ! Suc j, Suc j := xs ! j] ! q) \<le> 0"
proof (intro allI impI)
  fix p q assume pq: "b \<le> p \<and> p < q \<and> q < m \<and> q \<noteq> j"
  have lt: "compar (xs ! Suc j) (xs ! j) \<le> 0" using gt antisymmetric by (simp add: less_imp_le)
  consider "q = Suc j" "p = j" | "q = Suc j" "p < j" | "q < j" | "q > Suc j" using pq by linarith
  then show "compar (xs[j := xs ! Suc j, Suc j := xs ! j] ! p)
      (xs[j := xs ! Suc j, Suc j := xs ! j] ! q) \<le> 0"
    using pq ord lt ix by cases (auto simp: nth_list_update)
qed

lemma insert_down_ok:
  assumes "b \<le> j" "Suc j < m" "m \<le> length xs"
    and "\<forall>p q. b \<le> p \<and> p < q \<and> q < m \<and> q \<noteq> Suc j \<longrightarrow> compar (xs ! p) (xs ! q) \<le> 0"
  shows "\<exists>ys. insert_down compar b j xs = Some ys \<and> within b m xs ys \<and> sorted_range compar b m ys"
  using assms
proof (induction j arbitrary: xs)
  case 0
  let ?ys = "xs[0 := xs ! 1, 1 := xs ! 0]"
  have w: "within b m xs ?ys" using 0 by (intro memswp_within) auto
  have len: "0 < length xs" "1 < length xs" using 0 by linarith+
  have c: "cmp_at compar xs 0 1 = Some (compar (xs ! 0) (xs ! 1))" and b: "b = 0"
    using 0 by (simp_all only: cmp_at_Some len)
  have sw: "memswp xs 0 1 = Some ?ys" by (rule memswp_Some [OF len])
  show ?case
  proof (cases "compar (xs ! 0) (xs ! 1) > 0")
    case True
    have "sorted_range compar b m ?ys"
      using insert_step [OF 0(4) _ 0(1-3)] True b by (auto simp: sorted_range_def)
    then show ?thesis using True c w b sw by auto
  next
    case False
    then have "sorted_range compar b m xs"
      using 0(4) by (auto simp: sorted_range_def not_less)
    then show ?thesis using False c by auto
  qed
next
  case (Suc j)
  let ?ys = "xs[Suc j := xs ! Suc (Suc j), Suc (Suc j) := xs ! Suc j]"
  have w: "within b m xs ?ys" using Suc.prems by (intro memswp_within) auto
  have c: "cmp_at compar xs (Suc j) (Suc (Suc j)) = Some (compar (xs ! Suc j) (xs ! Suc (Suc j)))"
    and sw: "memswp xs (Suc j) (Suc (Suc j)) = Some ?ys"
    using Suc.prems by (simp_all add: cmp_at_Some memswp_Some)
  show ?case
  proof (cases "compar (xs ! Suc j) (xs ! Suc (Suc j)) > 0")
    case True
    note step = insert_step [OF Suc.prems(4) True Suc.prems(1-3)]
    show ?thesis
    proof (cases "Suc j = b")
      case True
      then have "sorted_range compar b m ?ys" using step by (auto simp: sorted_range_def)
      then show ?thesis using True \<open>compar _ _ > 0\<close> c sw w by auto
    next
      case False
      then obtain ys where "insert_down compar b j ?ys = Some ys" "within b m ?ys ys"
          "sorted_range compar b m ys"
        using Suc.IH [of ?ys] step Suc.prems by auto
      then show ?thesis using False \<open>compar _ _ > 0\<close> c sw within_trans [OF w] by auto
    qed
  next
    case False
    have "compar (xs ! p) (xs ! q) \<le> 0" if pq: "b \<le> p" "p < q" "q < m" for p q
    proof (cases "q = Suc (Suc j)")
      case True
      show ?thesis
      proof (cases "p = Suc j")
        case False
        then have "compar (xs ! p) (xs ! Suc j) \<le> 0" using Suc.prems pq True by auto
        then show ?thesis using transitive \<open>\<not> compar _ _ > 0\<close> True by (meson not_less)
      qed (use \<open>\<not> compar _ _ > 0\<close> True in auto)
    qed (use Suc.prems(4) pq in auto)
    then have "sorted_range compar b m xs" by (simp add: sorted_range_def)
    then show ?thesis using False c by auto
  qed
qed

lemma insertion_loop_ok:
  assumes "b \<le> j" "Suc j + n \<le> length xs" "sorted_range compar b (Suc j) xs"
  shows "\<exists>ys. insertion_loop compar b j n xs = Some ys \<and> within b (Suc j + n) xs ys \<and>
    sorted_range compar b (Suc j + n) ys"
  using assms
proof (induction n arbitrary: j xs)
  case (Suc n)
  obtain ys where ys: "insert_down compar b j xs = Some ys" "within b (Suc (Suc j)) xs ys"
      "sorted_range compar b (Suc (Suc j)) ys"
    using insert_down_ok [of b j "Suc (Suc j)" xs] Suc.prems
    by (auto simp: sorted_range_def less_Suc_eq)
  obtain zs where zs: "insertion_loop compar b (Suc j) n ys = Some zs"
      "within b (Suc (Suc j) + n) ys zs" "sorted_range compar b (Suc (Suc j) + n) zs"
    using Suc.IH [of "Suc j" ys] Suc.prems ys within_length [OF ys(2)] by auto
  have "within b (Suc (Suc j) + n) xs ys" by (rule within_sub [OF ys(2)]) (use Suc.prems in auto)
  from within_trans [OF this zs(2)] show ?case using ys zs by auto
qed auto

subsection \<open>The main loop\<close>

lemma ordered_refine:
  assumes ord: "ordered_except compar ((b, l) # S) xs" and dis: "segments_ok (length xs) ((b, l) # S)"
    and w: "within b l xs ys"
    and inner: "\<forall>p q. b \<le> p \<and> p < q \<and> q < l \<longrightarrow>
      covered T p q \<or> compar (ys ! p) (ys ! q) \<le> 0"
  shows "ordered_except compar (T @ S) ys"
  unfolding ordered_except_def
proof (intro allI impI)
  fix p q assume pq: "p < q \<and> q < length ys"
  have len: "length ys = length xs" using w by (rule within_length)
  have off: "ys ! k = xs ! k" if "k < b \<or> l \<le> k" "k < length ys" for k
    using w that len unfolding within_def by metis
  have on: "\<exists>k'. b \<le> k' \<and> k' < l \<and> ys ! k = xs ! k'" if "b \<le> k" "k < l" for k
    using w that by (simp add: within_def)
  have old: "compar (xs ! p') (xs ! q') \<le> 0"
    if "p' < q'" "q' < length xs" "\<not> covered ((b, l) # S) p' q'" for p' q'
    using ord that by (auto simp: ordered_except_def)
  have cov: "covered S p q" if "covered S p' q'" "p' < b \<or> l \<le> q'"
    "p' = p \<or> b \<le> p' \<and> p' < l" "q' = q \<or> b \<le> q' \<and> q' < l" "p' < q'" for p' q'
    using that dis by (auto simp: covered_def segments_ok_def)
  have bl: "b \<le> l" "l \<le> length xs" using dis by (auto simp: segments_ok_def)
  show "covered (T @ S) p q \<or> compar (ys ! p) (ys ! q) \<le> 0"
  proof (cases "b \<le> p \<and> q < l")
    case True
    then show ?thesis using inner pq covered_append [of T S] by blast
  next
    case outside: False
    obtain p' where p': "ys ! p = xs ! p'" "p' = p \<and> (p < b \<or> l \<le> p) \<or> b \<le> p' \<and> p' < l \<and> b \<le> p \<and> p < l"
      using on [of p] off [of p] pq by (cases "b \<le> p \<and> p < l") auto
    obtain q' where q': "ys ! q = xs ! q'" "q' = q \<and> (q < b \<or> l \<le> q) \<or> b \<le> q' \<and> q' < l \<and> b \<le> q \<and> q < l"
      using on [of q] off [of q] pq by (cases "b \<le> q \<and> q < l") auto
    have lt: "p' < q'" "q' < length xs" "p' < b \<or> l \<le> q'" using p' q' pq len bl outside by auto
    show ?thesis
    proof (cases "covered S p' q'")
      case True
      then show ?thesis using cov [of p' q'] p' q' lt covered_append [of T S] by blast
    next
      case False
      then have "\<not> covered ((b, l) # S) p' q'" using lt by (auto simp: covered_def)
      then show ?thesis using old [OF lt(1,2)] p' q' by simp
    qed
  qed
qed

lemma qsort_loop_ok:
  assumes "segments_ok (length xs) ((b, l) # S)" "ordered_except compar ((b, l) # S) xs"
    and "depth_ok N ((b, l) # S)" "N < 2 ^ 35"
  shows "\<exists>ys. qsort_loop compar xs b l S = Some ys \<and> mset ys = mset xs \<and>
    sorted_range compar 0 (length xs) ys"
  using assms
proof (induction "work ((b, l) # S)" arbitrary: xs b l S rule: less_induct)
  case less
  have bl: "b \<le> l" "l \<le> length xs" using less.prems by (auto simp: segments_ok_def)
  show ?case
  proof (cases "l - b > qsort_T")
    case True
    then obtain ys i j where sp: "qsort_split compar xs b l = Some (ys, i, j)" "within b l xs ys"
        "b \<le> j" "j < i" "i \<le> l"
        "\<forall>p q. b \<le> p \<and> p < q \<and> q < l \<longrightarrow> q < j \<or> i \<le> p \<or> compar (ys ! p) (ys ! q) \<le> 0"
      using qsort_split_ok [of b l xs, OF _ bl(2)] unfolding qsort_T_def by fastforce
    have len: "length ys = length xs" and ms: "mset ys = mset xs"
      using sp(2) by (simp_all add: within_def)
    have depth: "\<not> length S \<ge> qsort_slots"
      using less.prems(3,4) True by (intro depth_bound) (auto simp: qsort_T_def)
    have ord: "ordered_except compar (T @ S) ys" if "set T = {(b, j), (i, l)}" for T
    proof (rule ordered_refine [OF less.prems(2,1) sp(2)])
      show "\<forall>p q. b \<le> p \<and> p < q \<and> q < l \<longrightarrow> covered T p q \<or> compar (ys ! p) (ys ! q) \<le> 0"
        using sp(6) that by (fastforce simp: covered_def)
    qed
    have seg: "segments_ok (length ys) ([(i, l), (b, j)] @ S)" "segments_ok (length ys) ([(b, j), (i, l)] @ S)"
      using less.prems(1) sp(3-5) len by (fastforce simp: segments_ok_def)+
    show ?thesis
    proof (cases "int j - int b > int l - int i")
      case big: True
      have d: "depth_ok N ((i, l) # (b, j) # S)"
        by (rule depth_split [OF less.prems(3)]) (use big sp(3-5) in auto)
      have "\<exists>zs. qsort_loop compar ys i l ((b, j) # S) = Some zs \<and> mset zs = mset ys \<and>
          sorted_range compar 0 (length ys) zs"
        by (rule less.hyps) (use sp(3-5) seg ord [of "[(i, l), (b, j)]"] d less.prems(4) in \<open>auto simp: work_def\<close>)
      then show ?thesis using sp(1) depth big True bl ms len
        by (subst qsort_loop.simps) auto
    next
      case small: False
      have d: "depth_ok N ((b, j) # (i, l) # S)"
        by (rule depth_split [OF less.prems(3)]) (use small sp(3-5) in auto)
      have "\<exists>zs. qsort_loop compar ys b j ((i, l) # S) = Some zs \<and> mset zs = mset ys \<and>
          sorted_range compar 0 (length ys) zs"
        by (rule less.hyps) (use sp(3-5) seg ord [of "[(b, j), (i, l)]"] d less.prems(4) in \<open>auto simp: work_def\<close>)
      then show ?thesis using sp(1) depth small True bl ms len
        by (subst qsort_loop.simps) auto
    qed
  next
    case False
    obtain ys where ys: "insertion_loop compar b b (l - Suc b) xs = Some ys" "within b l xs ys"
        "sorted_range compar b l ys"
    proof (cases "b < l")
      case True
      then show ?thesis using that insertion_loop_ok [of b b "l - Suc b" xs] bl
        by (auto simp: sorted_range_def)
    next
      case False
      then show ?thesis using that [of xs] bl by (auto simp: sorted_range_def)
    qed
    have len: "length ys = length xs" and ms: "mset ys = mset xs"
      using ys(2) by (simp_all add: within_def)
    have ord: "ordered_except compar ([] @ S) ys"
      by (rule ordered_refine [OF less.prems(2,1) ys(2)]) (use ys(3) in \<open>auto simp: sorted_range_def\<close>)
    show ?thesis
    proof (cases S)
      case Nil
      then show ?thesis using ys False bl ord ms len
        by (subst qsort_loop.simps) (auto simp: ordered_except_def covered_def sorted_range_def)
    next
      case (Cons s S')
      obtain b' l' where s: "s = (b', l')" by (cases s)
      have "\<exists>zs. qsort_loop compar ys b' l' S' = Some zs \<and> mset zs = mset ys \<and>
          sorted_range compar 0 (length ys) zs"
        by (rule less.hyps)
          (use less.prems ord len Cons s in \<open>auto simp: work_def segments_ok_def\<close>)
      then show ?thesis using ys(1) False bl Cons s ms len by (subst qsort_loop.simps) auto
    qed
  qed
qed

lemma qsort_ok:
  assumes "length xs < 2 ^ 35"
  shows "\<exists>ys. qsort compar xs (length xs) = Some ys \<and> mset ys = mset xs \<and>
    sorted_range compar 0 (length xs) ys"
  unfolding qsort_def
  by (rule qsort_loop_ok [where N = "length xs"])
    (use assms in \<open>auto simp: segments_ok_def ordered_except_def covered_def\<close>)

text \<open>A sorted array is monotone in the comparison with any key.\<close>

lemma sorted_key_mono:
  assumes "sorted_range compar 0 n xs" "i < j" "j < n"
  shows "compar key (xs ! i) < 0 \<Longrightarrow> compar key (xs ! j) < 0"
    and "compar key (xs ! j) > 0 \<Longrightarrow> compar key (xs ! i) > 0"
proof -
  have le: "compar (xs ! i) (xs ! j) \<le> 0" using assms by (simp add: sorted_range_def)
  show "compar key (xs ! i) < 0 \<Longrightarrow> compar key (xs ! j) < 0"
    using transitive [OF le, of key] antisymmetric by (metis not_less)
  show "compar key (xs ! j) > 0 \<Longrightarrow> compar key (xs ! i) > 0"
    using transitive [OF _ le, of key] by (metis not_less)
qed

lemma bsearch_loop_ok:
  assumes "sorted_range compar 0 N xs" "N \<le> length xs" "b + n \<le> N"
    and "\<forall>i. i < b \<longrightarrow> compar key (xs ! i) \<noteq> 0" "\<forall>i. b + n \<le> i \<and> i < N \<longrightarrow> compar key (xs ! i) \<noteq> 0"
  shows "\<exists>r. bsearch_loop compar key xs b n = Some r \<and>
    (case r of None \<Rightarrow> \<forall>i < N. compar key (xs ! i) \<noteq> 0 | Some i \<Rightarrow> i < N \<and> compar key (xs ! i) = 0)"
  using assms
proof (induction n arbitrary: b rule: less_induct)
  case (less n)
  show ?case
  proof (cases "n = 0")
    case True
    have "compar key (xs ! i) \<noteq> 0" if "i < N" for i
      using less.prems(4,5) that True by (cases "i < b") auto
    then show ?thesis using True by (subst bsearch_loop.simps) auto
  next
    case False
    let ?p = "b + n div 2"
    have pn: "?p < N" using less.prems(3) False by (auto simp: less_le_trans)
    have el: "elem_at xs ?p = Some (xs ! ?p)" using pn less.prems(2) by (simp add: elem_at_def)
    consider (up) "compar key (xs ! ?p) > 0" | (eq) "compar key (xs ! ?p) = 0" | (dn) "compar key (xs ! ?p) < 0"
      by linarith
    then show ?thesis
    proof cases
      case up
      have n': "?p + 1 + (n div 2 - (1 - n mod 2)) = b + n"
        using False by (cases "even n") (auto elim!: evenE oddE)
      have lo: "\<forall>i. i < ?p + 1 \<longrightarrow> compar key (xs ! i) \<noteq> 0"
      proof (intro allI impI)
        fix i assume "i < ?p + 1"
        then show "compar key (xs ! i) \<noteq> 0"
          using sorted_key_mono(2) [OF less.prems(1) _ pn, of i key] up by (cases "i = ?p") auto
      qed
      have "\<exists>r. bsearch_loop compar key xs (?p + 1) (n div 2 - (1 - n mod 2)) = Some r \<and>
          (case r of None \<Rightarrow> \<forall>i < N. compar key (xs ! i) \<noteq> 0 | Some i \<Rightarrow> i < N \<and> compar key (xs ! i) = 0)"
        by (rule less.IH) (use False less.prems lo n' in auto)
      then show ?thesis using False up el by (subst bsearch_loop.simps) (simp add: Let_def)
    next
      case eq
      then show ?thesis using False pn el by (subst bsearch_loop.simps) (simp add: Let_def)
    next
      case dn
      have hi: "\<forall>i. b + n div 2 \<le> i \<and> i < N \<longrightarrow> compar key (xs ! i) \<noteq> 0"
      proof (intro allI impI)
        fix i assume "b + n div 2 \<le> i \<and> i < N"
        then show "compar key (xs ! i) \<noteq> 0"
          using sorted_key_mono(1) [OF less.prems(1), of ?p i key] dn by (cases "i = ?p") auto
      qed
      have "\<exists>r. bsearch_loop compar key xs b (n div 2) = Some r \<and>
          (case r of None \<Rightarrow> \<forall>i < N. compar key (xs ! i) \<noteq> 0 | Some i \<Rightarrow> i < N \<and> compar key (xs ! i) = 0)"
        by (rule less.IH) (use False less.prems hi in auto)
      then show ?thesis using False dn el by (subst bsearch_loop.simps) (simp add: Let_def)
    qed
  qed
qed

lemma bsearch_ok:
  assumes "sorted_range compar 0 (length xs) xs"
  shows "\<exists>r. bsearch compar key xs (length xs) = Some r \<and>
    (case r of None \<Rightarrow> \<forall>x \<in> set xs. compar key x \<noteq> 0 | Some i \<Rightarrow> i < length xs \<and> compar key (xs ! i) = 0)"
proof -
  have "\<exists>r. bsearch_loop compar key xs 0 (length xs) = Some r \<and>
    (case r of None \<Rightarrow> \<forall>i < length xs. compar key (xs ! i) \<noteq> 0
     | Some i \<Rightarrow> i < length xs \<and> compar key (xs ! i) = 0)"
    by (rule bsearch_loop_ok) (use assms in auto)
  then show ?thesis by (auto simp: bsearch_def all_set_conv_all_nth split: option.splits)
qed

end

interpretation byte_order: comparator compare_bytes
  by unfold_locales (auto simp: compare_bytes_def)

section \<open>Properties\<close>

text \<open>
  C38. For every comparison function that orders its arguments and every array of less than 2^35
  elements, \<open>qsort\<close> returns: it never reads or writes outside the array, its stack of 32
  subfiles never overflows, and it leaves a sorted permutation of the array.
\<close>

theorem qsort_sorts:
  assumes "comparator compar" and "length xs < 2 ^ 35"
  shows "\<exists>ys. qsort compar xs (length xs) = Some ys \<and> mset ys = mset xs \<and>
    sorted_wrt (\<lambda>x y. compar x y \<le> 0) ys"
proof -
  obtain ys where ys: "qsort compar xs (length xs) = Some ys" "mset ys = mset xs"
      "sorted_range compar 0 (length xs) ys"
    using comparator.qsort_ok [OF assms] by blast
  moreover have "length ys = length xs" using ys(2) by (rule mset_eq_length)
  ultimately show ?thesis by (auto simp: sorted_range_def sorted_wrt_iff_nth_less)
qed

theorem qsort_sorts_witness:
  "\<exists>ys. qsort compare_bytes [5, 3, 9, 1, 7, 2, 8, 6, 4] 9 = Some ys \<and>
    mset ys = mset [5, 3, 9, 1, 7, 2, 8, 6, 4] \<and> sorted_wrt (\<lambda>x y. compare_bytes x y \<le> 0) ys"
proof -
  have "length [5, 3, 9, 1, 7, 2, 8, 6, 4 :: u8] = 9" by simp
  then show ?thesis
    using qsort_sorts [OF byte_order.comparator_axioms, of "[5, 3, 9, 1, 7, 2, 8, 6, 4]"]
    by (simp del: list.size)
qed

text \<open>
  On a sorted array \<open>bsearch\<close> returns an element that compares equal to the key, and NULL
  exactly when the array holds none.
\<close>

theorem bsearch_finds:
  assumes "comparator compar" and "sorted_wrt (\<lambda>x y. compar x y \<le> 0) xs"
  shows "\<exists>r. bsearch compar key xs (length xs) = Some r \<and>
    (case r of None \<Rightarrow> \<forall>x \<in> set xs. compar key x \<noteq> 0
     | Some i \<Rightarrow> i < length xs \<and> compar key (xs ! i) = 0)"
  by (rule comparator.bsearch_ok [OF assms(1)])
    (use assms(2) in \<open>simp add: sorted_range_def sorted_wrt_iff_nth_less\<close>)

theorem bsearch_finds_witness:
  "\<exists>i. bsearch compare_bytes 4 [1, 2, 4, 8] 4 = Some (Some i)"
proof -
  have "sorted_wrt (\<lambda>x y. compare_bytes x y \<le> 0) [1, 2, 4, 8]" by (simp add: compare_bytes_def)
  moreover have "length [1, 2, 4, 8 :: u8] = 4" by simp
  ultimately show ?thesis
    using bsearch_finds [OF byte_order.comparator_axioms, of "[1, 2, 4, 8]" 4]
    by (auto simp: compare_bytes_def simp del: list.size split: option.splits)
qed

end
