(* ===== verification/PdcStdlib.thy ===== *)
theory PdcStdlib
  imports Prelude "HOL-Library.Signed_Division"
begin

text \<open>
  The rest of the C library's stdlib that keeps state or computes: the exit handlers
  (\<open>atexit\<close>, \<open>exit\<close>), the random number generator, integer division and absolute value.
\<close>

section \<open>atexit and exit\<close>

text \<open>
  The static \<open>_PDCLIB_regstack\<close> of 40 function pointers (None is the null pointer), of which
  slot 0 starts as \<open>_PDCLIB_closeall\<close>, and the index \<open>_PDCLIB_regptr\<close>; \<open>calls\<close> records the
  functions called, in order, and \<open>exited\<close> the status given to \<open>_Exit\<close>.
\<close>

datatype exit_fn = Closeall | User_fn nat

definition NUMBER_OF_SLOTS :: nat where "NUMBER_OF_SLOTS = 40"

record exit_state =
  regstack :: "nat \<Rightarrow> exit_fn option"
  regptr :: nat
  calls :: "exit_fn list"
  exited :: "int option"

definition exit_init :: exit_state where
  "exit_init = \<lparr>regstack = (\<lambda>_. None)(0 \<mapsto> Closeall), regptr = NUMBER_OF_SLOTS, calls = [], exited = None\<rparr>"

definition atexit :: "exit_fn \<Rightarrow> exit_state \<Rightarrow> int \<times> exit_state" where
  "atexit func s =
     (if regptr s = 0 then (- 1, s)
      else (0, s\<lparr>regptr := regptr s - 1, regstack := (regstack s)(regptr s - 1 \<mapsto> func)\<rparr>))"

text \<open>
  \<open>run\<close> is what the body of a handler does to the state; it may call \<open>atexit\<close> again. A call
  through a null pointer is None, and so is a loop that never ends.
\<close>

partial_function (option) exit_loop :: "(exit_fn \<Rightarrow> exit_state \<Rightarrow> exit_state) \<Rightarrow> exit_state \<Rightarrow> exit_state option" where
  "exit_loop run s =
     (if regptr s < NUMBER_OF_SLOTS then
        case regstack s (regptr s) of
          None \<Rightarrow> None
        | Some f \<Rightarrow> exit_loop run (run f (s\<lparr>regptr := regptr s + 1, calls := calls s @ [f]\<rparr>))
      else Some s)"

definition exit_prog :: "(exit_fn \<Rightarrow> exit_state \<Rightarrow> exit_state) \<Rightarrow> int \<Rightarrow> exit_state \<Rightarrow> exit_state option" where
  "exit_prog run status s = map_option (\<lambda>s. s\<lparr>exited := Some status\<rparr>) (exit_loop run s)"

text \<open>A program's calls of \<open>atexit\<close>, in order, with their results.\<close>

fun atexit_all :: "exit_fn list \<Rightarrow> exit_state \<Rightarrow> int list \<times> exit_state" where
  "atexit_all [] s = ([], s)"
| "atexit_all (f # fs) s = (case atexit f s of (r, s) \<Rightarrow> case atexit_all fs s of (rs, s) \<Rightarrow> (r # rs, s))"

section \<open>rand and srand\<close>

definition pdclib_seed :: u64 where "pdclib_seed = 1"

text \<open>The seed is an \<open>unsigned long\<close>; the quotient is cut to an \<open>int\<close> before the remainder.\<close>

definition rand :: "u64 \<Rightarrow> int \<times> u64" where
  "rand seed = (let seed' = seed * 1103515245 + 12345
     in (sint (ucast (seed' div 65536) :: u32) smod 32768, seed'))"

definition srand :: "u32 \<Rightarrow> u64 \<Rightarrow> u64" where
  "srand s seed = ucast s"

primrec rand_seq :: "nat \<Rightarrow> u64 \<Rightarrow> int list" where
  "rand_seq 0 seed = []"
| "rand_seq (Suc n) seed = fst (rand seed) # rand_seq n (snd (rand seed))"

section \<open>Division and absolute value\<close>

definition in_range :: "nat \<Rightarrow> int \<Rightarrow> bool" where
  "in_range w x \<longleftrightarrow> - (2 ^ (w - 1)) \<le> x \<and> x < 2 ^ (w - 1)"

text \<open>
  \<open>div\<close>, \<open>ldiv\<close>, \<open>lldiv\<close> and \<open>imaxdiv\<close> at their width: the quotient and remainder of the
  machine's truncating division, which traps on a zero divisor and on an overflowing quotient.
\<close>

definition div_fn :: "nat \<Rightarrow> int \<Rightarrow> int \<Rightarrow> (int \<times> int) option" where
  "div_fn w numer denom =
     (if denom = 0 \<or> \<not> in_range w (numer sdiv denom) then None
      else Some (numer sdiv denom, numer smod denom))"

definition div_int :: "int \<Rightarrow> int \<Rightarrow> (int \<times> int) option" where "div_int = div_fn 32"
definition ldiv :: "int \<Rightarrow> int \<Rightarrow> (int \<times> int) option" where "ldiv = div_fn 64"
definition lldiv :: "int \<Rightarrow> int \<Rightarrow> (int \<times> int) option" where "lldiv = div_fn 64"
definition imaxdiv :: "int \<Rightarrow> int \<Rightarrow> (int \<times> int) option" where "imaxdiv = div_fn 64"

text \<open>The negation wraps at the width of the type.\<close>

definition abs_int :: "u32 \<Rightarrow> u32" where "abs_int j = (if 0 \<le> sint j then j else - j)"
definition labs :: "u64 \<Rightarrow> u64" where "labs j = (if 0 \<le> sint j then j else - j)"
definition llabs :: "u64 \<Rightarrow> u64" where "llabs j = (if 0 \<le> sint j then j else - j)"
definition imaxabs :: "u64 \<Rightarrow> u64" where "imaxabs j = (if 0 \<le> sint j then j else - j)"

section \<open>Exit handlers run in reverse order\<close>

text \<open>What registering the functions \<open>fs\<close> leaves in the table.\<close>

definition registered :: "exit_fn list \<Rightarrow> exit_state \<Rightarrow> bool" where
  "registered fs s \<longleftrightarrow> regptr s + length fs = NUMBER_OF_SLOTS \<and>
     (\<forall>i < length fs. regstack s (regptr s + i) = Some (fs ! i))"

lemma registered_atexit:
  assumes "registered fs s" "length fs < NUMBER_OF_SLOTS"
  shows "fst (atexit f s) = 0 \<and> registered (f # fs) (snd (atexit f s)) \<and>
    calls (snd (atexit f s)) = calls s"
  using assms by (auto simp: registered_def atexit_def nth_Cons split: nat.splits)

lemma registered_atexit_all:
  "registered gs s \<Longrightarrow> length gs + length fs \<le> NUMBER_OF_SLOTS \<Longrightarrow>
   fst (atexit_all fs s) = replicate (length fs) 0 \<and>
   registered (rev fs @ gs) (snd (atexit_all fs s)) \<and> calls (snd (atexit_all fs s)) = calls s"
proof (induction fs arbitrary: gs s)
  case (Cons f fs)
  obtain r s' where a: "atexit f s = (r, s')" by (cases "atexit f s")
  have s': "r = 0" "registered (f # gs) s'" "calls s' = calls s"
    using registered_atexit [of gs s f] Cons.prems a by auto
  have "fst (atexit_all fs s') = replicate (length fs) 0 \<and>
      registered (rev fs @ f # gs) (snd (atexit_all fs s')) \<and> calls (snd (atexit_all fs s')) = calls s'"
    by (rule Cons.IH [OF s'(2)]) (use Cons.prems in simp)
  then show ?case using a s' by (auto split: prod.splits)
qed simp

lemma exit_loop_registered:
  assumes "registered fs s"
  shows "\<exists>s'. exit_loop (\<lambda>f s. s) s = Some s' \<and> calls s' = calls s @ fs"
  using assms
proof (induction fs arbitrary: s)
  case Nil
  then show ?case by (subst exit_loop.simps) (simp add: registered_def)
next
  case (Cons f fs)
  let ?s = "s\<lparr>regptr := regptr s + 1, calls := calls s @ [f]\<rparr>"
  have f: "regstack s (regptr s) = Some f" "regptr s < NUMBER_OF_SLOTS"
    using Cons.prems by (auto simp: registered_def)
  have "registered fs ?s" using Cons.prems by (auto simp: registered_def)
  from Cons.IH [OF this] show ?case using f by (subst exit_loop.simps) auto
qed

lemma registered_init: "registered [] exit_init"
  by (simp add: registered_def exit_init_def)

section \<open>Division\<close>

lemma trunc_bounds:
  fixes n d :: int
  assumes "d \<noteq> 0"
  shows "d * (n sdiv d) + n smod d = n" "\<bar>n smod d\<bar> < \<bar>d\<bar>" "n smod d = 0 \<or> (n smod d < 0 \<longleftrightarrow> n < 0)"
proof -
  have m: "n smod d = sgn n * (\<bar>n\<bar> mod \<bar>d\<bar>)" by (simp add: signed_modulo_int_def)
  have "d * (n sdiv d) + n smod d = sgn n * (d * sgn d * (\<bar>n\<bar> div \<bar>d\<bar>) + \<bar>n\<bar> mod \<bar>d\<bar>)"
    by (simp add: signed_modulo_int_def signed_divide_int_def algebra_simps)
  also have "\<dots> = sgn n * \<bar>n\<bar>" by (simp add: abs_sgn [symmetric])
  finally show "d * (n sdiv d) + n smod d = n" by (simp add: mult_sgn_abs)
  have r: "0 \<le> \<bar>n\<bar> mod \<bar>d\<bar>" "\<bar>n\<bar> mod \<bar>d\<bar> < \<bar>d\<bar>" using assms by simp_all
  show "\<bar>n smod d\<bar> < \<bar>d\<bar>" unfolding m using r by (auto simp: abs_mult sgn_if)
  show "n smod d = 0 \<or> (n smod d < 0 \<longleftrightarrow> n < 0)" unfolding m using r by (auto simp: sgn_if)
qed

lemma sdiv_overflow:
  assumes "in_range w n" "d \<noteq> 0" "\<not> in_range w (n sdiv d)"
  shows "n = - (2 ^ (w - 1)) \<and> d = - 1"
proof -
  define M :: int where "M = 2 ^ (w - 1)"
  have M: "0 < M" "- M \<le> n" "n < M" using assms(1) by (simp_all add: in_range_def M_def)
  have a: "\<bar>n sdiv d\<bar> = \<bar>n\<bar> div \<bar>d\<bar>"
    using assms(2) by (cases "n = 0") (auto simp: signed_divide_int_def abs_mult pos_imp_zdiv_nonneg_iff)
  have out: "\<not> (- M \<le> n sdiv d \<and> n sdiv d < M)" using assms(3) by (simp add: in_range_def M_def)
  have "\<bar>d\<bar> = 1"
  proof (rule ccontr)
    assume "\<bar>d\<bar> \<noteq> 1"
    then have "2 \<le> \<bar>d\<bar>" using assms(2) by linarith
    then have "\<bar>n\<bar> div \<bar>d\<bar> \<le> \<bar>n\<bar> div 2" by (intro zdiv_mono2) auto
    then have "\<bar>n sdiv d\<bar> < M" using M a by linarith
    then show False using out by linarith
  qed
  then have "d = 1 \<or> d = - 1" by linarith
  then have "n = - M \<and> d = - 1" using M out by (auto simp: signed_divide_int_def sgn_if split: if_splits)
  then show ?thesis by (simp add: M_def)
qed

section \<open>Properties\<close>

text \<open>
  C37. Up to 40 functions can be registered with \<open>atexit\<close>, each call returning 0, and the 41st
  returns -1; \<open>exit\<close> then calls exactly these functions, the last registered first, and so never
  \<open>_PDCLIB_closeall\<close>, which waits in slot 0 for a call that only a user function can take.
\<close>

theorem exit_runs_in_reverse:
  assumes "length fs \<le> 40"
  shows "case atexit_all fs exit_init of (rs, s) \<Rightarrow>
    rs = replicate (length fs) 0 \<and>
    (\<exists>s'. exit_prog (\<lambda>f s. s) status s = Some s' \<and> calls s' = rev fs \<and> exited s' = Some status) \<and>
    (length fs = 40 \<longrightarrow> (\<forall>f. atexit f s = (- 1, s)))"
proof -
  obtain rs s where s: "atexit_all fs exit_init = (rs, s)" by (cases "atexit_all fs exit_init")
  have r: "rs = replicate (length fs) 0" "registered (rev fs) s" "calls s = []"
    using registered_atexit_all [OF registered_init, of fs] assms s
    by (auto simp: NUMBER_OF_SLOTS_def exit_init_def)
  obtain s' where "exit_loop (\<lambda>f s. s) s = Some s'" "calls s' = rev fs"
    using exit_loop_registered [OF r(2)] r(3) by auto
  then show ?thesis
    using s r by (auto simp: exit_prog_def atexit_def registered_def NUMBER_OF_SLOTS_def)
qed

theorem exit_runs_in_reverse_witness:
  "\<exists>s'. exit_prog (\<lambda>f s. s) 3 (snd (atexit_all [User_fn 1, User_fn 2] exit_init)) = Some s' \<and>
    calls s' = [User_fn 2, User_fn 1]"
  using exit_runs_in_reverse [of "[User_fn 1, User_fn 2]" 3] by (auto split: prod.splits)

text \<open>
  \<open>rand\<close> returns values from -32767 to 32767, not from 0 to RAND_MAX: the third number a
  program draws without calling \<open>srand\<close> is negative.
\<close>

theorem rand_goes_negative:
  "\<bar>fst (rand seed)\<bar> \<le> 32767 \<and> rand_seq 3 pdclib_seed = [16838, 5758, - 22655]"
proof
  show "\<bar>fst (rand seed)\<bar> \<le> 32767"
    using trunc_bounds(2) [of 32768 "sint (ucast ((seed * 1103515245 + 12345) div 65536) :: u32)"]
    by (simp add: rand_def Let_def)
  show "rand_seq 3 pdclib_seed = [16838, 5758, - 22655]"
    by (simp add: numeral_3_eq_3 pdclib_seed_def rand_def Let_def)
qed

text \<open>
  C38. \<open>div\<close> and its wider variants satisfy the division identity with a remainder smaller than
  the divisor and of the dividend's sign, and trap exactly on a zero divisor and on the one
  quotient that overflows.
\<close>

theorem div_fn_identity:
  assumes "in_range w n" and "in_range w d" and "0 < w"
  shows "case div_fn w n d of
      None \<Rightarrow> d = 0 \<or> n = - (2 ^ (w - 1)) \<and> d = - 1
    | Some (q, r) \<Rightarrow> q * d + r = n \<and> \<bar>r\<bar> < \<bar>d\<bar> \<and> (r = 0 \<or> (r < 0 \<longleftrightarrow> n < 0)) \<and> in_range w q"
proof (cases "d = 0")
  case False
  then show ?thesis
    using trunc_bounds [OF False, of n] sdiv_overflow [OF assms(1) False]
    by (auto simp: div_fn_def mult.commute)
qed (simp add: div_fn_def)

theorem div_fn_identity_witness:
  "div_fn 32 (- 7) 2 = Some (- 3, - 1) \<and> div_fn 32 (- (2 ^ 31)) (- 1) = None"
proof -
  have "in_range 32 (- 7)" "in_range 32 2" by (simp_all add: in_range_def)
  then have "case div_fn 32 (- 7) 2 of None \<Rightarrow> False | Some (q, r) \<Rightarrow> q * 2 + r = - 7 \<and> \<bar>r\<bar> < 2"
    using div_fn_identity [of 32 "- 7" 2] by (auto split: option.splits)
  moreover have "div_fn 32 (- 7) 2 = Some (- 3, - 1)"
    by (simp add: div_fn_def in_range_def signed_divide_int_def signed_modulo_int_def)
  moreover have "div_fn 32 (- (2 ^ 31)) (- 1) = None"
    by (simp add: div_fn_def in_range_def signed_divide_int_def)
  ultimately show ?thesis by simp
qed

end
