(* ===== verification/PdcStdio.thy ===== *)
theory PdcStdio
  imports PdcString
begin

text \<open>
  The buffered streams of the C library (pdclib/functions/stdio, _PDCLIB_io.h) and the kernel's
  file operations under them (pdclib_platform). A stream holds its operations, the state of the
  device behind its handle, the buffer (None is a null pointer) and the indexes into it; every
  operation returns the changed stream, and None is an access outside a buffer or a loop that
  does not end. \<open>errno\<close> and the (always free) lock of a stream are left out.
\<close>

section \<open>The stream\<close>

text \<open>
  \<open>_PDCLIB_fileops\<close>. A read returns the bytes read, a write the number of bytes written, a seek
  the new position; the flag is the \<open>bool\<close> the function returns.
\<close>

record 'd fileops =
  op_read :: "'d \<Rightarrow> nat \<Rightarrow> bool \<times> u8 list \<times> 'd"
  op_write :: "'d \<Rightarrow> u8 list \<Rightarrow> bool \<times> nat \<times> 'd"
  op_seek :: "'d \<Rightarrow> int \<Rightarrow> int \<Rightarrow> bool \<times> int \<times> 'd"
  op_close :: "'d \<Rightarrow> 'd"

record 'd FILE =
  ops :: "'d fileops"
  handle :: 'd
  buffer :: "u8 list option"
  bufsize :: nat
  bufidx :: nat
  bufend :: nat
  ungetidx :: nat
  ungetbuf :: "u8 list"
  status :: u32
  pos_offset :: u64

definition EOF :: int where "EOF = - 1"

definition IOFBF :: u32 where "IOFBF = 1"
definition IOLBF :: u32 where "IOLBF = 2"
definition IONBF :: u32 where "IONBF = 4"
definition FREAD :: u32 where "FREAD = 8"
definition FWRITE :: u32 where "FWRITE = 16"
definition FAPPEND :: u32 where "FAPPEND = 32"
definition FRW :: u32 where "FRW = 64"
definition FBIN :: u32 where "FBIN = 128"
definition FREEBUFFER :: u32 where "FREEBUFFER = 512"
definition ERRORFLAG :: u32 where "ERRORFLAG = 1024"
definition EOFFLAG :: u32 where "EOFFLAG = 2048"
definition WIDESTREAM :: u32 where "WIDESTREAM = 4096"
definition BYTESTREAM :: u32 where "BYTESTREAM = 8192"
definition DELONCLOSE :: u32 where "DELONCLOSE = 16384"
definition F_STATIC :: u32 where "F_STATIC = 32768"
definition BUFSIZ :: nat where "BUFSIZ = 1024"
definition UNGETCBUFSIZE :: nat where "UNGETCBUFSIZE = 1"
definition SEEK_SET :: int where "SEEK_SET = 0"
definition SEEK_CUR :: int where "SEEK_CUR = 1"

lemmas flag_defs = IOFBF_def IOLBF_def IONBF_def FREAD_def FWRITE_def FAPPEND_def FRW_def FBIN_def
  FREEBUFFER_def ERRORFLAG_def EOFFLAG_def WIDESTREAM_def BYTESTREAM_def DELONCLOSE_def F_STATIC_def

definition set_flags :: "u32 \<Rightarrow> 'd FILE \<Rightarrow> 'd FILE" where
  "set_flags x f = f\<lparr>status := status f OR x\<rparr>"

definition clear_flags :: "u32 \<Rightarrow> 'd FILE \<Rightarrow> 'd FILE" where
  "clear_flags x f = f\<lparr>status := status f AND NOT x\<rparr>"

definition has_flag :: "u32 \<Rightarrow> 'd FILE \<Rightarrow> bool" where
  "has_flag x f \<longleftrightarrow> status f AND x \<noteq> 0"

section \<open>Flushing and filling\<close>

text \<open>\<open>stream->buffer[i] = c\<close>\<close>

definition buf_put :: "u8 \<Rightarrow> 'd FILE \<Rightarrow> 'd FILE option" where
  "buf_put c f = do {
     b \<leftarrow> buffer f;
     if bufidx f < length b then Some (f\<lparr>buffer := Some (b[bufidx f := c]), bufidx := bufidx f + 1\<rparr>) else None
   }"

text \<open>\<open>memmove(buffer, buffer + from, n)\<close>\<close>

definition buf_move :: "nat \<Rightarrow> nat \<Rightarrow> u8 list \<Rightarrow> u8 list" where
  "buf_move from n b = take n (drop from b) @ drop n b"

partial_function (option) flush_loop :: "'d FILE \<Rightarrow> nat \<Rightarrow> (int \<times> 'd FILE) option" where
  "flush_loop f written =
     (if written = bufidx f then Some (0, f\<lparr>bufidx := 0\<rparr>)
      else do {
        b \<leftarrow> buffer f;
        let toWrite = bufidx f - written;
        let (res, justWrote, d) = op_write (ops f) (handle f) (take toWrite (drop written b));
        let written = written + justWrote;
        let f = f\<lparr>handle := d, pos_offset := pos_offset f + of_nat justWrote\<rparr>;
        if \<not> res then
          (let n = bufidx f - written
           in Some (EOF, set_flags ERRORFLAG (f\<lparr>bufidx := n, buffer := Some (buf_move written n b)\<rparr>)))
        else flush_loop f written
      })"

definition flushbuffer :: "'d FILE \<Rightarrow> (int \<times> 'd FILE) option" where
  "flushbuffer f = flush_loop f 0"

definition fillbuffer :: "'d FILE \<Rightarrow> (int \<times> 'd FILE) option" where
  "fillbuffer f = do {
     b \<leftarrow> buffer f;
     let (ok, bs, d) = op_read (ops f) (handle f) (bufsize f);
     let f = f\<lparr>handle := d\<rparr>;
     if ok then
       (if bs = [] then Some (EOF, set_flags EOFFLAG f)
        else if length bs \<le> length b then
          Some (0, f\<lparr>buffer := Some (bs @ drop (length bs) b), pos_offset := pos_offset f + of_nat (length bs),
                     bufend := length bs, bufidx := 0\<rparr>)
        else None)
     else Some (EOF, set_flags ERRORFLAG f)
   }"

definition prepread :: "'d FILE \<Rightarrow> (int \<times> 'd FILE) option" where
  "prepread f =
     (if bufidx f > bufend f \<or> has_flag (FWRITE OR FAPPEND OR ERRORFLAG OR WIDESTREAM OR EOFFLAG) f \<or>
         \<not> has_flag (FREAD OR FRW) f
      then Some (EOF, set_flags ERRORFLAG f)
      else let f = set_flags (FREAD OR BYTESTREAM) f
           in if bufidx f = bufend f \<and> ungetidx f = 0 then fillbuffer f else Some (0, f))"

definition prepwrite :: "'d FILE \<Rightarrow> int \<times> 'd FILE" where
  "prepwrite f =
     (if bufidx f < bufend f \<or> ungetidx f > 0 \<or>
         has_flag (FREAD OR ERRORFLAG OR WIDESTREAM OR EOFFLAG) f \<or>
         \<not> has_flag (FWRITE OR FAPPEND OR FRW) f
      then (EOF, set_flags ERRORFLAG f)
      else (0, set_flags (FWRITE OR BYTESTREAM) f))"

section \<open>Output\<close>

text \<open>The value written is \<open>(char)c\<close>; the comparison with the newline is on that value.\<close>

definition fputc :: "int \<Rightarrow> 'd FILE \<Rightarrow> (int \<times> 'd FILE) option" where
  "fputc c f = (case prepwrite f of (r, f) \<Rightarrow>
     if r = EOF then Some (EOF, f)
     else do {
       f \<leftarrow> buf_put (of_int c) f;
       if bufidx f = bufsize f \<or> has_flag IOLBF f \<and> (of_int c :: u8) = 0x0a \<or> has_flag IONBF f
       then do { (r, f) \<leftarrow> flushbuffer f; Some (if r = 0 then c else EOF, f) }
       else Some (c, f)
     })"

primrec fputs_loop :: "u8 list \<Rightarrow> 'd FILE \<Rightarrow> (int \<times> 'd FILE) option" where
  "fputs_loop [] f = Some (0, f)"
| "fputs_loop (c # s) f = do {
     f \<leftarrow> buf_put c f;
     (r, f) \<leftarrow> (if bufidx f = bufsize f \<or> has_flag IOLBF f \<and> c = 0x0a then flushbuffer f else Some (0, f));
     if r = EOF then Some (EOF, f) else fputs_loop s f
   }"

text \<open>\<open>s\<close> is the string without its terminator.\<close>

definition fputs :: "u8 list \<Rightarrow> 'd FILE \<Rightarrow> (int \<times> 'd FILE) option" where
  "fputs s f = (case prepwrite f of (r, f) \<Rightarrow>
     if r = EOF then Some (EOF, f)
     else do {
       (r, f) \<leftarrow> fputs_loop s f;
       if r = EOF then Some (EOF, f)
       else if has_flag IONBF f then do {
         (r, f) \<leftarrow> flushbuffer f;
         Some (if r = EOF then EOF else 0, f)
       }
       else Some (0, f)
     })"

primrec puts_loop :: "u8 list \<Rightarrow> 'd FILE \<Rightarrow> (int \<times> 'd FILE) option" where
  "puts_loop [] f = Some (0, f)"
| "puts_loop (c # s) f = do {
     f \<leftarrow> buf_put c f;
     (r, f) \<leftarrow> (if bufidx f = bufsize f then flushbuffer f else Some (0, f));
     if r = EOF then Some (EOF, f) else puts_loop s f
   }"

definition puts :: "u8 list \<Rightarrow> 'd FILE \<Rightarrow> (int \<times> 'd FILE) option" where
  "puts s f = (case prepwrite f of (r, f) \<Rightarrow>
     if r = EOF then Some (EOF, f)
     else do {
       (r, f) \<leftarrow> puts_loop s f;
       if r = EOF then Some (EOF, f)
       else do {
         f \<leftarrow> buf_put 0x0a f;
         if bufidx f = bufsize f \<or> has_flag (IOLBF OR IONBF) f then flushbuffer f else Some (0, f)
       }
     })"

text \<open>
  The two loops of \<open>fwrite\<close> run over the bytes of all objects in order; \<open>k\<close> counts the bytes, so
  that \<open>k div size\<close> objects are complete. Inl is the early return.
\<close>

primrec fwrite_loop :: "nat \<Rightarrow> u8 list \<Rightarrow> nat \<Rightarrow> nat \<Rightarrow> 'd FILE \<Rightarrow> ((nat + nat) \<times> 'd FILE) option" where
  "fwrite_loop sz [] k offset f = Some (Inr offset, f)"
| "fwrite_loop sz (c # bs) k offset f = do {
     f \<leftarrow> buf_put c f;
     let offset = (if c = 0x0a then bufidx f else offset);
     if bufidx f = bufsize f then do {
       (r, f) \<leftarrow> flushbuffer f;
       if r = EOF then Some (Inl (k div sz), f) else fwrite_loop sz bs (Suc k) 0 f
     }
     else fwrite_loop sz bs (Suc k) offset f
   }"

definition fwrite :: "u8 list \<Rightarrow> nat \<Rightarrow> nat \<Rightarrow> 'd FILE \<Rightarrow> (u64 \<times> 'd FILE) option" where
  "fwrite data sz nmemb f = (case prepwrite f of (r, f) \<Rightarrow>
     if r = EOF then Some (0, f)
     else do {
       (x, f) \<leftarrow> fwrite_loop sz (take (nmemb * sz) data) 0 0 f;
       case x of
         Inl n \<Rightarrow> Some (of_nat n, f)
       | Inr offset \<Rightarrow>
           let mode = status f AND (IONBF OR IOLBF) in
           if mode = IONBF then do {
             (r, f) \<leftarrow> flushbuffer f;
             Some (if r = EOF then of_nat nmemb - 1 else of_nat nmemb, f)
           }
           else if mode = IOLBF then do {
             let idx = bufidx f;
             (r, f) \<leftarrow> flushbuffer (f\<lparr>bufidx := offset\<rparr>);
             if r = EOF then Some (of_nat nmemb - 1, f\<lparr>bufidx := idx\<rparr>)
             else do {
               b \<leftarrow> buffer f;
               Some (of_nat nmemb, f\<lparr>bufidx := idx - offset, buffer := Some (buf_move offset (idx - offset) b)\<rparr>)
             }
           }
           else Some (of_nat nmemb, f)
     })"

section \<open>Input\<close>

text \<open>
  \<open>_PDCLIB_getchars\<close>: the pushed-back characters first, then the buffer. The flag says that the
  stop character was met. After a character that empties the buffer the buffer is filled again
  at once, even when no more characters are wanted.
\<close>

primrec unget_loop :: "nat \<Rightarrow> int \<Rightarrow> 'd FILE \<Rightarrow> u8 list \<times> bool \<times> 'd FILE" where
  "unget_loop 0 stop f = ([], False, f)"
| "unget_loop (Suc n) stop f =
     (if ungetidx f > 0 then
        let c = ungetbuf f ! (ungetidx f - 1); f = f\<lparr>ungetidx := ungetidx f - 1\<rparr>
        in if uint c = stop then ([c], True, f)
           else case unget_loop n stop f of (cs, s, f) \<Rightarrow> (c # cs, s, f)
      else ([], False, f))"

primrec buf_loop :: "nat \<Rightarrow> int \<Rightarrow> 'd FILE \<Rightarrow> (u8 list \<times> 'd FILE) option" where
  "buf_loop 0 stop f = Some ([], f)"
| "buf_loop (Suc n) stop f = do {
     (r, f) \<leftarrow> (if bufidx f = bufend f then fillbuffer f else Some (0, f));
     if r = EOF then Some ([], f)
     else do {
       b \<leftarrow> buffer f;
       c \<leftarrow> (if bufidx f < length b then Some (b ! bufidx f) else None);
       let f = f\<lparr>bufidx := bufidx f + 1\<rparr>;
       if uint c = stop then Some ([c], f)
       else do {
         (r, f) \<leftarrow> (if bufidx f = bufend f then fillbuffer f else Some (0, f));
         if r = EOF then Some ([c], f)
         else do { (cs, f) \<leftarrow> buf_loop n stop f; Some (c # cs, f) }
       }
     }
   }"

definition getchars :: "nat \<Rightarrow> int \<Rightarrow> 'd FILE \<Rightarrow> (u8 list \<times> 'd FILE) option" where
  "getchars n stop f = (case unget_loop n stop f of (cs, stopped, f) \<Rightarrow>
     if stopped then Some (cs, f)
     else do { (ds, f) \<leftarrow> buf_loop (n - length cs) stop f; Some (cs @ ds, f) })"

definition fgetc :: "'d FILE \<Rightarrow> (int \<times> 'd FILE) option" where
  "fgetc f = do {
     (r, f) \<leftarrow> prepread f;
     if r = EOF then Some (EOF, f)
     else do {
       (cs, f) \<leftarrow> getchars 1 EOF f;
       Some (case cs of [] \<Rightarrow> EOF | c # _ \<Rightarrow> uint c, f)
     }
   }"

text \<open>The objects of \<open>fread\<close>, as the list of the bytes stored and the number of objects.\<close>

primrec fread_loop :: "nat \<Rightarrow> nat \<Rightarrow> 'd FILE \<Rightarrow> (nat \<times> u8 list \<times> 'd FILE) option" where
  "fread_loop sz 0 f = Some (0, [], f)"
| "fread_loop sz (Suc n) f = do {
     (cs, f) \<leftarrow> getchars sz EOF f;
     if length cs \<noteq> sz then Some (0, cs, f)
     else do { (k, ds, f) \<leftarrow> fread_loop sz n f; Some (Suc k, cs @ ds, f) }
   }"

definition fread :: "nat \<Rightarrow> nat \<Rightarrow> 'd FILE \<Rightarrow> (nat \<times> u8 list \<times> 'd FILE) option" where
  "fread sz nmemb f = do {
     (r, f) \<leftarrow> prepread f;
     if r = EOF then Some (0, [], f) else fread_loop sz nmemb f
   }"

text \<open>The line is stored at \<open>s\<close> in the memory; the result is NULL or \<open>s\<close>.\<close>

primrec store_bytes :: "mem \<Rightarrow> ptr \<Rightarrow> u8 list \<Rightarrow> mem option" where
  "store_bytes m p [] = Some m"
| "store_bytes m p (c # cs) = do { m \<leftarrow> store m p c; store_bytes m (Suc p) cs }"

definition fgets :: "mem \<Rightarrow> ptr \<Rightarrow> nat \<Rightarrow> 'd FILE \<Rightarrow> (ptr \<times> mem \<times> 'd FILE) option" where
  "fgets m s sz f =
     (if sz = 0 then Some (NULL, m, f)
      else if sz = 1 then do { m \<leftarrow> store m s 0; Some (s, m, f) }
      else do {
        (r, f) \<leftarrow> prepread f;
        if r = EOF then Some (NULL, m, f)
        else do {
          (cs, f) \<leftarrow> getchars (sz - 1) 0x0a f;
          m \<leftarrow> store_bytes m s (cs @ [0]);
          Some (if cs = [] then NULL else s, m, f)
        }
      })"

definition gets :: "mem \<Rightarrow> ptr \<Rightarrow> 'd FILE \<Rightarrow> (ptr \<times> mem \<times> 'd FILE) option" where
  "gets m s f = do {
     (r, f) \<leftarrow> prepread f;
     if r = EOF then Some (NULL, m, f)
     else do {
       (cs, f) \<leftarrow> getchars (2 ^ 64 - 1) 0x0a f;
       m \<leftarrow> store_bytes m s cs;
       let dest = s + length cs;
       x \<leftarrow> m (dest - 1);
       let dest = (if x = 0x0a then dest - 1 else dest);
       m \<leftarrow> store m dest 0;
       Some (if dest = s then NULL else s, m, f)
     }
   }"

definition ungetc :: "int \<Rightarrow> 'd FILE \<Rightarrow> int \<times> 'd FILE" where
  "ungetc c f =
     (if c = EOF \<or> ungetidx f = UNGETCBUFSIZE then (- 1, f)
      else (uint (of_int c :: u8), f\<lparr>ungetbuf := (ungetbuf f)[ungetidx f := of_int c], ungetidx := ungetidx f + 1\<rparr>))"

section \<open>Positions, state flags and modes\<close>

text \<open>\<open>fflush\<close> of one stream, and of the list of all open streams for \<open>fflush(NULL)\<close>.\<close>

definition fflush :: "'d FILE \<Rightarrow> (int \<times> 'd FILE) option" where
  "fflush f = flushbuffer f"

primrec fflush_all :: "'d FILE list \<Rightarrow> int \<Rightarrow> (int \<times> 'd FILE list) option" where
  "fflush_all [] rc = Some (rc, [])"
| "fflush_all (f # fs) rc = do {
     (r, f) \<leftarrow> (if has_flag FWRITE f then flushbuffer f else Some (0, f));
     (rc, fs) \<leftarrow> fflush_all fs (if r = EOF then EOF else rc);
     Some (rc, f # fs)
   }"

definition seek :: "int \<Rightarrow> int \<Rightarrow> 'd FILE \<Rightarrow> int \<times> 'd FILE" where
  "seek offset whence f = (case op_seek (ops f) (handle f) offset whence of (ok, newPos, d) \<Rightarrow>
     let f = f\<lparr>handle := d\<rparr>
     in if \<not> ok then (EOF, f)
        else (newPos, f\<lparr>ungetidx := 0, bufidx := 0, bufend := 0, pos_offset := of_int newPos\<rparr>))"

text \<open>The buffer indexes are cut to \<open>int\<close>; the difference is added to the 64-bit offset.\<close>

definition as_int :: "nat \<Rightarrow> int" where
  "as_int n = sint (of_nat n :: u32)"

definition ftell64 :: "'d FILE \<Rightarrow> u64" where
  "ftell64 f = pos_offset f - of_int ((as_int (bufend f) - as_int (bufidx f)) + as_int (ungetidx f))"

definition ftell :: "'d FILE \<Rightarrow> int" where
  "ftell f = (if uint (ftell64 f) > 0x7fffffffffffffff then - 1 else uint (ftell64 f))"

definition fseek :: "int \<Rightarrow> int \<Rightarrow> 'd FILE \<Rightarrow> (int \<times> 'd FILE) option" where
  "fseek loffset whence f = do {
     (r, f) \<leftarrow> (if has_flag FWRITE f then flushbuffer f else Some (0, f));
     if r = EOF then Some (EOF, f)
     else
       (let f = clear_flags EOFFLAG f;
            f = (if has_flag FRW f then clear_flags (FREAD OR FWRITE) f else f);
            (whence, offset) = (if whence = SEEK_CUR
               then (SEEK_SET, sint (of_int loffset + ftell64 f)) else (whence, loffset));
            (r, f) = seek offset whence f
        in Some (if r \<noteq> EOF then 0 else EOF, f))
   }"

definition rewind :: "'d FILE \<Rightarrow> 'd FILE option" where
  "rewind f = map_option snd (fseek 0 SEEK_SET (clear_flags ERRORFLAG f))"

definition fgetpos :: "'d FILE \<Rightarrow> u64" where
  "fgetpos f = pos_offset f + of_nat (bufidx f) - of_nat (ungetidx f)"

definition fsetpos :: "u64 \<Rightarrow> 'd FILE \<Rightarrow> (int \<times> 'd FILE) option" where
  "fsetpos pos f = do {
     (r, f) \<leftarrow> (if has_flag FWRITE f then flushbuffer f else Some (0, f));
     if r = EOF then Some (EOF, f)
     else (case seek (sint pos) SEEK_SET f of (r, f) \<Rightarrow> Some (if r = EOF then EOF else 0, f))
   }"

definition feof :: "'d FILE \<Rightarrow> int" where "feof f = uint (status f AND EOFFLAG)"
definition ferror :: "'d FILE \<Rightarrow> int" where "ferror f = uint (status f AND ERRORFLAG)"
definition clearerr :: "'d FILE \<Rightarrow> 'd FILE" where "clearerr f = clear_flags (ERRORFLAG OR EOFFLAG) f"

text \<open>
  \<open>setvbuf\<close>: \<open>buf\<close> is None for NULL; \<open>malloc\<close> is a parameter, None when it fails. The mode is one
  of the three flags, anything else is refused.
\<close>

definition setvbuf ::
  "(nat \<Rightarrow> u8 list option) \<Rightarrow> u8 list option \<Rightarrow> u32 \<Rightarrow> nat \<Rightarrow> 'd FILE \<Rightarrow> int \<times> 'd FILE" where
  "setvbuf malloc buf mode sz f = (
     let finish = (\<lambda>f. (0, set_flags mode (clear_flags (IOFBF OR IOLBF OR IONBF) f)))
     in if mode = IONBF then finish f
        else if mode = IOFBF \<or> mode = IOLBF then
          (if sz > 0x7fffffff \<or> sz = 0 then (- 1, f)
           else if buf = None \<and> (bufsize f < sz \<or> bufsize f > sz * 2) then
             (case malloc sz of
                None \<Rightarrow> (- 1, f)
              | Some b \<Rightarrow> finish ((set_flags FREEBUFFER f)\<lparr>buffer := Some b, bufsize := sz\<rparr>))
           else finish (f\<lparr>buffer := buf, bufsize := sz\<rparr>))
        else (- 1, f))"

definition setbuf :: "(nat \<Rightarrow> u8 list option) \<Rightarrow> u8 list option \<Rightarrow> 'd FILE \<Rightarrow> 'd FILE" where
  "setbuf malloc buf f = snd (setvbuf malloc buf (if buf = None then IONBF else IOFBF) BUFSIZ f)"

text \<open>\<open>_PDCLIB_filemode\<close> on the mode string in memory; NULL gives 0.\<close>

primrec filemode_loop :: "mem \<Rightarrow> ptr \<Rightarrow> nat \<Rightarrow> u32 \<Rightarrow> u32 option" where
  "filemode_loop m p 0 rc = Some 0"
| "filemode_loop m p (Suc n) rc = do {
     c \<leftarrow> m p;
     if c = 0x2b then (if rc AND FRW \<noteq> 0 then Some 0 else filemode_loop m (Suc p) n (rc OR FRW))
     else if c = 0x62 then (if rc AND FBIN \<noteq> 0 then Some 0 else filemode_loop m (Suc p) n (rc OR FBIN))
     else if c = 0 then Some rc
     else Some 0
   }"

definition filemode :: "mem \<Rightarrow> ptr \<Rightarrow> u32 option" where
  "filemode m mode =
     (if mode = NULL then Some 0
      else do {
        c \<leftarrow> m mode;
        if c = 0x72 then filemode_loop m (Suc mode) 3 FREAD
        else if c = 0x77 then filemode_loop m (Suc mode) 3 FWRITE
        else if c = 0x61 then filemode_loop m (Suc mode) 3 (FAPPEND OR FWRITE)
        else Some 0
      })"

section \<open>The kernel's file operations\<close>

text \<open>
  Every handle is the serial console: the bytes sent, the bytes received so far and the bytes that
  will arrive. \<open>readf\<close> waits for all bytes asked for; \<open>writef\<close> sends everything and returns
  \<open>false\<close>.
\<close>

record console =
  sent :: "u8 list"
  received :: "u8 list"
  keys :: "nat \<Rightarrow> u8"

text \<open>A console on which the key x is held down; the witnesses start from it.\<close>

definition idle_console :: console where
  "idle_console = \<lparr>sent = [], received = [], keys = (\<lambda>_. 120)\<rparr>"

definition readf :: "console \<Rightarrow> nat \<Rightarrow> bool \<times> u8 list \<times> console" where
  "readf d len = (let bs = map (keys d) [length (received d)..<length (received d) + len]
     in (True, bs, d\<lparr>received := received d @ bs\<rparr>))"

definition writef :: "console \<Rightarrow> u8 list \<Rightarrow> bool \<times> nat \<times> console" where
  "writef d bs = (False, length bs, d\<lparr>sent := sent d @ bs\<rparr>)"

definition seekf :: "console \<Rightarrow> int \<Rightarrow> int \<Rightarrow> bool \<times> int \<times> console" where
  "seekf d offset whence = (False, 0, d)"

definition closef :: "console \<Rightarrow> console" where
  "closef d = d"

definition kernel_fileops :: "console fileops" where
  "kernel_fileops = \<lparr>op_read = readf, op_write = writef, op_seek = seekf, op_close = closef\<rparr>"

text \<open>The initial \<open>stdin\<close>, \<open>stdout\<close> and \<open>stderr\<close> of stdinit.c.\<close>

definition std_stream :: "u32 \<Rightarrow> console \<Rightarrow> console FILE" where
  "std_stream st d = \<lparr>ops = kernel_fileops, handle = d, buffer = Some (replicate BUFSIZ 0),
     bufsize = BUFSIZ, bufidx = 0, bufend = 0, ungetidx = 0, ungetbuf = replicate UNGETCBUFSIZE 0,
     status = st, pos_offset = 0\<rparr>"

definition stdin :: "console \<Rightarrow> console FILE" where
  "stdin = std_stream (IOLBF OR FREAD OR F_STATIC)"

definition stdout :: "console \<Rightarrow> console FILE" where
  "stdout = std_stream (IOLBF OR FWRITE OR F_STATIC)"

definition stderr :: "console \<Rightarrow> console FILE" where
  "stderr = std_stream (IONBF OR FWRITE OR F_STATIC)"

lemma or_and_self [simp]: "(x OR y) AND y = (y :: u32)"
  by (rule bit_eqI) (auto simp: bit_simps)

lemma or_or_self [simp]: "(x OR y) OR y = (x OR y :: u32)"
  by (rule bit_eqI) (auto simp: bit_simps)

section \<open>What a device promises\<close>

text \<open>The bytes a stream has taken: what reached the device and what waits in the buffer.\<close>

definition pending :: "'d FILE \<Rightarrow> u8 list" where
  "pending f = take (bufidx f) (the (buffer f))"

definition unread :: "'d FILE \<Rightarrow> u8 list" where
  "unread f = drop (bufidx f) (take (bufend f) (the (buffer f)))"

text \<open>What an operation leaves alone: everything but the device, the buffer's content and the indexes.\<close>

definition same_stream :: "'d FILE \<Rightarrow> 'd FILE \<Rightarrow> bool" where
  "same_stream f f' \<longleftrightarrow> ops f' = ops f \<and> bufsize f' = bufsize f \<and> bufend f' = bufend f \<and>
     ungetidx f' = ungetidx f \<and> map_option length (buffer f') = map_option length (buffer f) \<and>
     status f' OR ERRORFLAG = status f OR ERRORFLAG \<and>
     (has_flag ERRORFLAG f \<longrightarrow> has_flag ERRORFLAG f')"

definition buffer_ok :: "'d FILE \<Rightarrow> bool" where
  "buffer_ok f \<longleftrightarrow> map_option length (buffer f) = Some (bufsize f) \<and> bufidx f \<le> bufsize f \<and>
     bufend f \<le> bufsize f"

text \<open>
  The contract of \<open>_PDCLIB_io.h\<close>: a write sends a prefix of what it is given, more than nothing
  when it succeeds; a read delivers at most what was asked for. \<open>out\<close> and \<open>got\<close> are what the
  device has sent and received so far.
\<close>

lemma drop_take_split:
  assumes "n \<le> i - w"
  shows "drop w (take i b) = take n (drop w b) @ drop (w + n) (take i b)"
proof -
  have "drop w (take i b) = take n (drop w (take i b)) @ drop n (drop w (take i b))"
    by (rule append_take_drop_id [symmetric])
  also have "take n (drop w (take i b)) = take n (drop w b)" using assms by (simp add: drop_take)
  also have "drop n (drop w (take i b)) = drop (w + n) (take i b)" by (simp add: add.commute)
  finally show ?thesis .
qed

text \<open>A stream open for writing whose buffer has room for a character.\<close>

definition room :: "'d FILE \<Rightarrow> bool" where
  "room f \<longleftrightarrow> buffer_ok f \<and> 0 < bufsize f \<and> bufend f = 0 \<and> bufidx f < bufsize f"

locale stdio_device =
  fixes rd :: "'d \<Rightarrow> nat \<Rightarrow> bool \<times> u8 list \<times> 'd"
    and wr :: "'d \<Rightarrow> u8 list \<Rightarrow> bool \<times> nat \<times> 'd"
    and out :: "'d \<Rightarrow> u8 list"
    and got :: "'d \<Rightarrow> u8 list"
  assumes write_prefix: "wr d bs = (ok, n, d') \<Longrightarrow> n \<le> length bs \<and> out d' = out d @ take n bs"
    and write_progress: "wr d bs = (True, n, d') \<Longrightarrow> bs \<noteq> [] \<Longrightarrow> 0 < n"
    and read_bound: "rd d k = (ok, bs, d') \<Longrightarrow> ok \<Longrightarrow> length bs \<le> k \<and> got d' = got d @ bs"
    and read_error: "rd d k = (False, bs, d') \<Longrightarrow> got d' = got d"
begin

lemma flush_loop_ok:
  assumes "op_write (ops f) = wr" "buffer f = Some b" "bufidx f \<le> length b" "w \<le> bufidx f"
  shows "\<exists>r f'. flush_loop f w = Some (r, f') \<and> same_stream f f' \<and> bufidx f' \<le> bufidx f \<and>
    out (handle f') @ pending f' = out (handle f) @ drop w (pending f) \<and>
    (r = 0 \<and> bufidx f' = 0 \<and> status f' = status f \<and> buffer f' = buffer f \<or> r = EOF \<and> has_flag ERRORFLAG f')"
  using assms
proof (induction "bufidx f - w" arbitrary: f w rule: less_induct)
  case less
  show ?case
  proof (cases "w = bufidx f")
    case True
    then show ?thesis using less.prems
      by (subst flush_loop.simps) (auto simp: same_stream_def pending_def has_flag_def)
  next
    case False
    obtain ok n d where wr: "wr (handle f) (take (bufidx f - w) (drop w b)) = (ok, n, d)"
      by (cases "wr (handle f) (take (bufidx f - w) (drop w b))")
    let ?f = "f\<lparr>handle := d, pos_offset := pos_offset f + of_nat n\<rparr>"
    have n: "n \<le> bufidx f - w" "out d = out (handle f) @ take n (drop w b)"
      using write_prefix [OF wr] less.prems by (auto simp: min_absorb2)
    have split: "drop w (take (bufidx f) b) = take n (drop w b) @ drop (w + n) (take (bufidx f) b)"
      by (rule drop_take_split [OF n(1)])
    show ?thesis
    proof (cases ok)
      case True
      have "0 < n" using write_progress [of "handle f" _ n d] wr True False less.prems by auto
      then have "\<exists>r f'. flush_loop ?f (w + n) = Some (r, f') \<and> same_stream ?f f' \<and> bufidx f' \<le> bufidx ?f \<and>
          out (handle f') @ pending f' = out (handle ?f) @ drop (w + n) (pending ?f) \<and>
          (r = 0 \<and> bufidx f' = 0 \<and> status f' = status ?f \<and> buffer f' = buffer ?f \<or> r = EOF \<and> has_flag ERRORFLAG f')"
        using n(1) False less.prems by (intro less.hyps) auto
      then obtain r f' where rf: "flush_loop ?f (w + n) = Some (r, f')" "same_stream ?f f'"
          "bufidx f' \<le> bufidx ?f"
          "out (handle f') @ pending f' = out (handle ?f) @ drop (w + n) (pending ?f)"
          "r = 0 \<and> bufidx f' = 0 \<and> status f' = status ?f \<and> buffer f' = buffer ?f \<or> r = EOF \<and> has_flag ERRORFLAG f'" by blast
      have "out (handle f') @ pending f' = out (handle f) @ drop w (pending f)"
        using rf(4) n(2) split less.prems(2) by (simp add: pending_def)
      moreover have "same_stream f f'" using rf(2) by (auto simp: same_stream_def has_flag_def)
      moreover have "flush_loop f w = Some (r, f')"
        using rf(1) True False wr less.prems by (subst flush_loop.simps) simp
      ultimately show ?thesis using rf(3,5) by auto
    next
      case err: False
      let ?k = "bufidx f - (w + n)"
      have len: "length (buf_move (w + n) ?k b) = length b" "take ?k (buf_move (w + n) ?k b) = take ?k (drop (w + n) b)"
        using less.prems(3) n(1) by (auto simp: buf_move_def)
      have d: "take ?k (drop (w + n) b) = drop (w + n) (take (bufidx f) b)"
        by (simp add: drop_take)
      let ?g = "set_flags ERRORFLAG (?f\<lparr>bufidx := ?k, buffer := Some (buf_move (w + n) ?k b)\<rparr>)"
      have run: "flush_loop f w = Some (EOF, ?g)"
        using err False wr less.prems(1,2) by (subst flush_loop.simps) (simp add: Let_def)
      have same: "same_stream f ?g" "has_flag ERRORFLAG ?g"
        using less.prems(2) len(1)
        by (simp_all add: same_stream_def has_flag_def set_flags_def ERRORFLAG_def)
      have "out (handle ?g) @ pending ?g = out (handle f) @ drop w (pending f)"
        using n(2) split len d less.prems(2) by (simp add: pending_def set_flags_def)
      then show ?thesis using run same by (auto simp: set_flags_def)
    qed
  qed
qed

lemma flushbuffer_ok:
  assumes "op_write (ops f) = wr" "buffer_ok f"
  shows "\<exists>r f'. flushbuffer f = Some (r, f') \<and> same_stream f f' \<and> buffer_ok f' \<and>
    bufidx f' \<le> bufidx f \<and> out (handle f') @ pending f' = out (handle f) @ pending f \<and>
    (r = 0 \<and> bufidx f' = 0 \<and> status f' = status f \<and> buffer f' = buffer f \<or> r = EOF \<and> has_flag ERRORFLAG f')"
proof -
  obtain b where b: "buffer f = Some b" "bufidx f \<le> length b" using assms(2) by (auto simp: buffer_ok_def)
  from flush_loop_ok [OF assms(1) b, of 0] obtain r f' where f':
    "flush_loop f 0 = Some (r, f')" "same_stream f f'" "bufidx f' \<le> bufidx f"
    "out (handle f') @ pending f' = out (handle f) @ pending f"
    "r = 0 \<and> bufidx f' = 0 \<and> status f' = status f \<and> buffer f' = buffer f \<or> r = EOF \<and> has_flag ERRORFLAG f'" by auto
  then have "buffer_ok f'" using assms(2) by (auto simp: buffer_ok_def same_stream_def)
  then show ?thesis using f' by (auto simp: flushbuffer_def)
qed

text \<open>One character more in the buffer.\<close>

lemma buf_put_ok:
  assumes "buffer_ok f" "bufidx f < bufsize f"
  shows "\<exists>f'. buf_put c f = Some f' \<and> same_stream f f' \<and> status f' = status f \<and>
    buffer_ok f' \<and> bufidx f' = Suc (bufidx f) \<and> handle f' = handle f \<and> pending f' = pending f @ [c]"
  using assms by (auto simp: buffer_ok_def buf_put_def same_stream_def pending_def take_Suc_conv_app_nth
      has_flag_def)

lemma put_flush_ok:
  assumes "op_write (ops f) = wr \<and> room f"
  shows "\<exists>f1. buf_put c f = Some f1 \<and> status f1 = status f \<and> bufsize f1 = bufsize f \<and>
    bufidx f1 = Suc (bufidx f) \<and> handle f1 = handle f \<and> (bufidx f1 \<noteq> bufsize f \<longrightarrow> op_write (ops f1) = wr \<and> room f1) \<and>
    out (handle f1) @ pending f1 = out (handle f) @ pending f @ [c] \<and>
    (\<exists>r f2. flushbuffer f1 = Some (r, f2) \<and>
      out (handle f2) @ pending f2 = out (handle f) @ pending f @ [c] \<and>
      (r = 0 \<and> status f2 = status f \<and> bufsize f2 = bufsize f \<and> op_write (ops f2) = wr \<and> room f2 \<or>
       r = EOF \<and> has_flag ERRORFLAG f2))"
proof -
  have w: "op_write (ops f) = wr" "buffer_ok f" "0 < bufsize f" "bufend f = 0" "bufidx f < bufsize f"
    using assms by (simp_all add: room_def)
  obtain f1 where f1: "buf_put c f = Some f1" "same_stream f f1" "status f1 = status f" "buffer_ok f1"
      "bufidx f1 = Suc (bufidx f)" "handle f1 = handle f" "pending f1 = pending f @ [c]"
    using buf_put_ok [OF w(2,5), of c] by blast
  have ops1: "op_write (ops f1) = wr" "bufsize f1 = bufsize f" "bufend f1 = 0"
    using f1(2) w by (simp_all add: same_stream_def)
  obtain r f2 where f2: "flushbuffer f1 = Some (r, f2)" "same_stream f1 f2" "buffer_ok f2"
      "out (handle f2) @ pending f2 = out (handle f1) @ pending f1"
      "r = 0 \<and> bufidx f2 = 0 \<and> status f2 = status f1 \<and> buffer f2 = buffer f1 \<or> r = EOF \<and> has_flag ERRORFLAG f2"
    using flushbuffer_ok [OF ops1(1) f1(4)] by blast
  have "bufidx f1 \<noteq> bufsize f \<longrightarrow> op_write (ops f1) = wr \<and> room f1" using f1 ops1 w by (auto simp: room_def)
  moreover have "r = 0 \<Longrightarrow> op_write (ops f2) = wr \<and> room f2"
    using f2(2,3,5) ops1 w by (auto simp: room_def same_stream_def EOF_def)
  ultimately show ?thesis
    using f1 f2 ops1 by (auto simp: same_stream_def)
qed

lemma fputs_loop_ok:
  assumes "op_write (ops f) = wr \<and> room f"
  shows "\<exists>r f' k. fputs_loop s f = Some (r, f') \<and> k \<le> length s \<and>
    out (handle f') @ pending f' = out (handle f) @ pending f @ take k s \<and>
    (r = 0 \<and> k = length s \<and> op_write (ops f') = wr \<and> room f' \<and> status f' = status f \<or> r = EOF \<and> has_flag ERRORFLAG f')"
  using assms
proof (induction s arbitrary: f)
  case (Cons c s)
  from put_flush_ok [OF Cons.prems, of c] obtain f1 r f2 where f1: "buf_put c f = Some f1"
      "status f1 = status f" "bufsize f1 = bufsize f" "handle f1 = handle f"
      "bufidx f1 \<noteq> bufsize f \<longrightarrow> op_write (ops f1) = wr \<and> room f1"
      "out (handle f1) @ pending f1 = out (handle f) @ pending f @ [c]"
    and f2: "flushbuffer f1 = Some (r, f2)" "out (handle f2) @ pending f2 = out (handle f) @ pending f @ [c]"
      "r = 0 \<and> status f2 = status f \<and> bufsize f2 = bufsize f \<and> op_write (ops f2) = wr \<and> room f2 \<or> r = EOF \<and> has_flag ERRORFLAG f2"
    by blast
  have go: "\<exists>r f' k. fputs_loop s g = Some (r, f') \<and> k \<le> length (c # s) \<and>
      out (handle f') @ pending f' = out (handle f) @ pending f @ take k (c # s) \<and>
      (r = 0 \<and> k = length (c # s) \<and> op_write (ops f') = wr \<and> room f' \<and> status f' = status f \<or> r = EOF \<and> has_flag ERRORFLAG f')"
    if g: "op_write (ops g) = wr \<and> room g" "status g = status f" "out (handle g) @ pending g = out (handle f) @ pending f @ [c]" for g
  proof -
    obtain r f' k where ih: "fputs_loop s g = Some (r, f')" "k \<le> length s"
        "out (handle f') @ pending f' = out (handle g) @ pending g @ take k s"
        "r = 0 \<and> k = length s \<and> op_write (ops f') = wr \<and> room f' \<and> status f' = status g \<or> r = EOF \<and> has_flag ERRORFLAG f'"
      using Cons.IH [OF g(1)] by blast
    have "out (handle f') @ pending f' = out (handle f) @ pending f @ take (Suc k) (c # s)"
      using ih(3) g(3) by (metis append.assoc append_Cons append_Nil take_Suc_Cons)
    then show ?thesis using ih g(2) by (intro exI [of _ r] exI [of _ f'] exI [of _ "Suc k"]) auto
  qed
  have one: "out (handle f2) @ pending f2 = out (handle f) @ pending f @ take (Suc 0) (c # s)"
    using f2(2) by simp
  show ?case
  proof (cases "bufidx f1 = bufsize f1 \<or> has_flag IOLBF f1 \<and> c = 0x0a")
    case False
    then show ?thesis using go [of f1] f1 by (auto simp: EOF_def)
  next
    case flush: True
    show ?thesis
    proof (cases "r = EOF")
      case False
      then show ?thesis using go [of f2] f1(1) f2 flush by simp
    next
      case True
      then show ?thesis using f1(1) f2 flush one
        by (auto simp: EOF_def intro!: exI [of _ "Suc 0"])
    qed
  qed
qed (auto simp: EOF_def)

lemma fwrite_loop_ok:
  assumes "op_write (ops f) = wr \<and> room f" "offset \<le> bufidx f"
  shows "\<exists>x f' j. fwrite_loop sz bs k offset f = Some (x, f') \<and> j \<le> length bs \<and>
    out (handle f') @ pending f' = out (handle f) @ pending f @ take j bs \<and>
    ((\<exists>o'. x = Inr o' \<and> o' \<le> bufidx f') \<and> j = length bs \<and> op_write (ops f') = wr \<and> room f' \<and>
        status f' = status f \<or>
     x = Inl ((k + j - 1) div sz) \<and> 0 < j \<and> has_flag ERRORFLAG f')"
  using assms
proof (induction bs arbitrary: f k offset)
  case (Cons c bs)
  from put_flush_ok [OF Cons.prems(1), of c] obtain f1 r f2 where f1: "buf_put c f = Some f1"
      "status f1 = status f" "bufsize f1 = bufsize f" "bufidx f1 = Suc (bufidx f)"
      "bufidx f1 \<noteq> bufsize f \<longrightarrow> op_write (ops f1) = wr \<and> room f1"
      "out (handle f1) @ pending f1 = out (handle f) @ pending f @ [c]"
    and f2: "flushbuffer f1 = Some (r, f2)" "out (handle f2) @ pending f2 = out (handle f) @ pending f @ [c]"
      "r = 0 \<and> status f2 = status f \<and> bufsize f2 = bufsize f \<and> op_write (ops f2) = wr \<and> room f2 \<or>
       r = EOF \<and> has_flag ERRORFLAG f2"
    by blast
  have go: "\<exists>x f' j. fwrite_loop sz bs (Suc k) off g = Some (x, f') \<and> j \<le> length (c # bs) \<and>
      out (handle f') @ pending f' = out (handle f) @ pending f @ take j (c # bs) \<and>
      ((\<exists>o'. x = Inr o' \<and> o' \<le> bufidx f') \<and> j = length (c # bs) \<and> op_write (ops f') = wr \<and> room f' \<and>
        status f' = status f \<or>
       x = Inl ((k + j - 1) div sz) \<and> 0 < j \<and> has_flag ERRORFLAG f')"
    if g: "op_write (ops g) = wr \<and> room g" "off \<le> bufidx g" "status g = status f"
      "out (handle g) @ pending g = out (handle f) @ pending f @ [c]" for g off
  proof -
    obtain x f' j where ih: "fwrite_loop sz bs (Suc k) off g = Some (x, f')" "j \<le> length bs"
        "out (handle f') @ pending f' = out (handle g) @ pending g @ take j bs"
        "(\<exists>o'. x = Inr o' \<and> o' \<le> bufidx f') \<and> j = length bs \<and> op_write (ops f') = wr \<and> room f' \<and>
           status f' = status g \<or>
         x = Inl ((Suc k + j - 1) div sz) \<and> 0 < j \<and> has_flag ERRORFLAG f'"
      using Cons.IH [OF g(1,2), of "Suc k"] by blast
    have "out (handle f') @ pending f' = out (handle f) @ pending f @ take (Suc j) (c # bs)"
      using ih(3) g(4) by (metis append.assoc append_Cons append_Nil take_Suc_Cons)
    then show ?thesis using ih g(3) by (intro exI [of _ x] exI [of _ f'] exI [of _ "Suc j"]) auto
  qed
  show ?case
  proof (cases "bufidx f1 = bufsize f1")
    case False
    then have "op_write (ops f1) = wr \<and> room f1" using f1 by simp
    then show ?thesis
      using go [of f1 "if c = 0x0a then bufidx f1 else offset"] f1 False Cons.prems(2) by (simp add: Let_def)
  next
    case full: True
    show ?thesis
    proof (cases "r = EOF")
      case False
      then show ?thesis using go [of f2 0] f1(1) f2 full by (simp add: Let_def)
    next
      case True
      then show ?thesis using f1(1) f2 full
        by (auto simp: EOF_def Let_def intro!: exI [of _ "Suc 0"])
    qed
  qed
qed auto

lemma fputs_ok:
  assumes "op_write (ops f) = wr" "room f"
  shows "\<exists>r f' k. fputs s f = Some (r, f') \<and> k \<le> length s \<and>
    out (handle f') @ pending f' = out (handle f) @ pending f @ take k s \<and>
    (r = 0 \<and> k = length s \<or> r = EOF \<and> has_flag ERRORFLAG f')"
proof (cases "fst (prepwrite f) = EOF")
  case True
  then have p: "prepwrite f = (EOF, set_flags ERRORFLAG f)"
    by (auto simp: prepwrite_def EOF_def split: if_splits)
  show ?thesis
    by (rule exI [of _ EOF], rule exI [of _ "set_flags ERRORFLAG f"], rule exI [of _ 0])
      (simp add: fputs_def p, simp add: set_flags_def pending_def has_flag_def ERRORFLAG_def)
next
  case False
  define g where "g = set_flags (FWRITE OR BYTESTREAM) f"
  have p: "prepwrite f = (0, g)" using False by (auto simp: prepwrite_def g_def split: if_splits)
  have g: "op_write (ops g) = wr \<and> room g" "handle g = handle f" "pending g = pending f"
    using assms by (simp_all add: g_def set_flags_def room_def buffer_ok_def pending_def)
  obtain r h k where h: "fputs_loop s g = Some (r, h)" "k \<le> length s"
      "out (handle h) @ pending h = out (handle g) @ pending g @ take k s"
      "r = 0 \<and> k = length s \<and> op_write (ops h) = wr \<and> room h \<and> status h = status g \<or>
       r = EOF \<and> has_flag ERRORFLAG h"
    using fputs_loop_ok [OF g(1)] by blast
  show ?thesis
  proof (cases "r = EOF \<or> \<not> has_flag IONBF h")
    case True
    then show ?thesis using h p g by (auto simp: fputs_def EOF_def)
  next
    case False
    then have hw: "op_write (ops h) = wr" "buffer_ok h" "k = length s" using h(4) by (auto simp: room_def)
    obtain r' h' where "flushbuffer h = Some (r', h')"
        "out (handle h') @ pending h' = out (handle h) @ pending h"
        "r' = 0 \<or> r' = EOF \<and> has_flag ERRORFLAG h'"
      using flushbuffer_ok [OF hw(1,2)] by blast
    then show ?thesis using h p g False hw(3) by (auto simp: fputs_def EOF_def)
  qed
qed

text \<open>All of an array is taken, or the returned count says that it was not.\<close>

lemma fwrite_ok:
  assumes "op_write (ops f) = wr" "room f" "length data = nmemb * sz" "nmemb < 2 ^ 64"
  shows "\<exists>r f'. fwrite data sz nmemb f = Some (r, f') \<and>
    (r = of_nat nmemb \<and> out (handle f') @ pending f' = out (handle f) @ pending f @ data \<or>
     r \<noteq> of_nat nmemb \<and> has_flag ERRORFLAG f')"
proof (cases "fst (prepwrite f) = EOF")
  case True
  then have p: "prepwrite f = (EOF, set_flags ERRORFLAG f)"
    by (auto simp: prepwrite_def EOF_def split: if_splits)
  have "r0 \<noteq> of_nat nmemb \<or> data = []" if "r0 = (0 :: u64)" for r0
    using assms(3) unat_of_nat_u64 [OF assms(4)] that by (cases "nmemb = 0") (auto simp flip: unat_eq_0)
  then show ?thesis
    by (auto simp: fwrite_def p set_flags_def pending_def has_flag_def ERRORFLAG_def)
next
  case False
  define g where "g = set_flags (FWRITE OR BYTESTREAM) f"
  have p: "prepwrite f = (0, g)" using False by (auto simp: prepwrite_def g_def split: if_splits)
  have g: "op_write (ops g) = wr \<and> room g" "handle g = handle f" "pending g = pending f"
    using assms by (simp_all add: g_def set_flags_def room_def buffer_ok_def pending_def)
  obtain x h j where h: "fwrite_loop sz data 0 0 g = Some (x, h)" "j \<le> length data"
      "out (handle h) @ pending h = out (handle g) @ pending g @ take j data"
      "(\<exists>o'. x = Inr o' \<and> o' \<le> bufidx h) \<and> j = length data \<and> op_write (ops h) = wr \<and> room h \<and>
         status h = status g \<or>
       x = Inl ((0 + j - 1) div sz) \<and> 0 < j \<and> has_flag ERRORFLAG h"
    using fwrite_loop_ok [OF g(1) le0, of sz data 0] by blast
  have short: "(of_nat nmemb :: u64) - 1 \<noteq> of_nat nmemb" by simp
  show ?thesis
  proof (cases x)
    case (Inl n)
    then have n: "n = (j - 1) div sz" "0 < j" "has_flag ERRORFLAG h" using h(4) by auto
    have "(j - 1) div sz < nmemb"
      using h(2) assms(3) n(2) by (intro less_mult_imp_div_less) auto
    then have "(of_nat n :: u64) \<noteq> of_nat nmemb"
      using n(1) assms(4) by (auto simp: word_unat_eq_iff unat_of_nat_u64)
    then show ?thesis using h(1) p assms(3) Inl n(3) by (simp add: fwrite_def EOF_def)
  next
    case (Inr offset)
    then have o: "offset \<le> bufidx h" "j = length data" "op_write (ops h) = wr" "room h"
      using h(4) by auto
    obtain b where b: "buffer h = Some b" "length b = bufsize h" using o(4) by (auto simp: room_def buffer_ok_def)
    have all: "out (handle h) @ pending h = out (handle f) @ pending f @ data" using h(3) g o(2) by simp
    let ?h = "h\<lparr>bufidx := offset\<rparr>"
    obtain r f' where f': "flushbuffer ?h = Some (r, f')" "out (handle f') @ pending f' = out (handle ?h) @ pending ?h"
        "r = 0 \<and> bufidx f' = 0 \<and> buffer f' = buffer ?h \<or> r = EOF \<and> has_flag ERRORFLAG f'"
      using flushbuffer_ok [of ?h] o by (auto simp: room_def buffer_ok_def)
    obtain r1 f1 where f1: "flushbuffer h = Some (r1, f1)" "out (handle f1) @ pending f1 = out (handle h) @ pending h"
        "r1 = 0 \<or> r1 = EOF \<and> has_flag ERRORFLAG f1"
      using flushbuffer_ok [of h] o by (auto simp: room_def)
    have tail: "take (bufidx h - offset) (buf_move offset (bufidx h - offset) b) = drop offset (take (bufidx h) b)"
      using b o by (auto simp: buf_move_def drop_take room_def buffer_ok_def)
    have "take offset b @ drop offset (take (bufidx h) b) = take (bufidx h) b"
      using o(1) by (metis append_take_drop_id min.absorb1 take_take)
    then have lbf: "r = 0 \<Longrightarrow> out (handle f') @ take (bufidx h - offset) (buf_move offset (bufidx h - offset) b) =
        out (handle f) @ pending f @ data"
      using f'(2,3) all b(1) tail by (simp add: pending_def EOF_def)
    consider (n) "status h AND (IONBF OR IOLBF) = IONBF"
      | (l) "status h AND (IONBF OR IOLBF) \<noteq> IONBF" "status h AND (IONBF OR IOLBF) = IOLBF"
      | (f) "status h AND (IONBF OR IOLBF) \<noteq> IONBF" "status h AND (IONBF OR IOLBF) \<noteq> IOLBF" by blast
    then show ?thesis
    proof cases
      case n
      then show ?thesis using h(1) p assms(3) Inr f1 all short
        by (auto simp: fwrite_def Let_def EOF_def)
    next
      case l
      then show ?thesis using h(1) p assms(3) Inr f' lbf short b(1)
        by (auto simp: fwrite_def Let_def EOF_def pending_def has_flag_def)
    next
      case f
      then show ?thesis using h(1) p assms(3) Inr all by (simp add: fwrite_def Let_def EOF_def)
    qed
  qed
qed

subsection \<open>Reading\<close>

lemma fillbuffer_ok:
  assumes "op_read (ops f) = rd" "buffer_ok f" "unread f = []"
  shows "\<exists>r f'. fillbuffer f = Some (r, f') \<and> op_read (ops f') = rd \<and> buffer_ok f' \<and> ungetidx f' = ungetidx f \<and>
    got (handle f') = got (handle f) @ unread f' \<and>
    (r = 0 \<and> bufidx f' < bufend f' \<or> r = EOF \<and> unread f' = [])"
proof -
  obtain b where b: "buffer f = Some b" "length b = bufsize f" using assms(2) by (auto simp: buffer_ok_def)
  obtain ok bs d where r: "rd (handle f) (bufsize f) = (ok, bs, d)"
    by (cases "rd (handle f) (bufsize f)")
  show ?thesis
  proof (cases ok)
    case True
    then have l: "length bs \<le> length b" "got d = got (handle f) @ bs" using read_bound [OF r] b by auto
    show ?thesis
    proof (cases "bs = []")
      case True
      then show ?thesis using r b assms l \<open>ok\<close>
        by (auto simp: fillbuffer_def set_flags_def buffer_ok_def unread_def)
    next
      case False
      then show ?thesis using r b assms l \<open>ok\<close>
        by (auto simp: fillbuffer_def buffer_ok_def unread_def)
    qed
  next
    case False
    then show ?thesis using r b assms read_error [of "handle f" "bufsize f" bs d]
      by (auto simp: fillbuffer_def set_flags_def buffer_ok_def unread_def)
  qed
qed

text \<open>Taking one character from the buffer.\<close>

lemma take_char:
  assumes "buffer_ok f" "bufidx f < bufend f"
  shows "\<exists>b. buffer f = Some b \<and> bufidx f < length b \<and>
    unread f = b ! bufidx f # unread (f\<lparr>bufidx := bufidx f + 1\<rparr>) \<and> buffer_ok (f\<lparr>bufidx := bufidx f + 1\<rparr>)"
proof -
  obtain b where b: "buffer f = Some b" "length b = bufsize f" using assms(1) by (auto simp: buffer_ok_def)
  have "bufidx f < length (take (bufend f) b)" using assms b by (auto simp: buffer_ok_def)
  then have "drop (bufidx f) (take (bufend f) b) = take (bufend f) b ! bufidx f # drop (Suc (bufidx f)) (take (bufend f) b)"
    by (rule Cons_nth_drop_Suc [symmetric])
  then show ?thesis using assms b by (auto simp: unread_def buffer_ok_def)
qed

text \<open>Everything the device delivered is returned or still unread, in order.\<close>

lemma buf_loop_ok:
  assumes "op_read (ops f) = rd" "buffer_ok f" "bufidx f \<le> bufend f" "got (handle f) = P @ unread f"
  shows "\<exists>cs f'. buf_loop n stop f = Some (cs, f') \<and> op_read (ops f') = rd \<and> buffer_ok f' \<and>
    got (handle f') = P @ cs @ unread f' \<and> length cs \<le> n \<and> ungetidx f' = ungetidx f"
  using assms
proof (induction n arbitrary: f P)
  case (Suc n)
  have "\<exists>r g. (if bufidx f = bufend f then fillbuffer f else Some (0, f)) = Some (r, g) \<and>
      op_read (ops g) = rd \<and> buffer_ok g \<and> ungetidx g = ungetidx f \<and> got (handle g) = P @ unread g \<and>
      (r = 0 \<and> bufidx g < bufend g \<or> r = EOF)"
  proof (cases "bufidx f = bufend f")
    case True
    then have "unread f = []" by (simp add: unread_def)
    then show ?thesis using fillbuffer_ok [OF Suc.prems(1,2)] Suc.prems(4) True by auto
  next
    case False
    then show ?thesis using Suc.prems by simp
  qed
  then obtain r g where g: "(if bufidx f = bufend f then fillbuffer f else Some (0, f)) = Some (r, g)"
      "op_read (ops g) = rd" "buffer_ok g" "ungetidx g = ungetidx f" "got (handle g) = P @ unread g"
      "r = 0 \<and> bufidx g < bufend g \<or> r = EOF" by blast
  show ?case
  proof (cases "r = EOF")
    case True
    then show ?thesis using g by simp
  next
    case False
    let ?h = "g\<lparr>bufidx := bufidx g + 1\<rparr>"
    have lt: "bufidx g < bufend g" using False g(6) by simp
    obtain b where b: "buffer g = Some b" "bufidx g < length b" "unread g = b ! bufidx g # unread ?h" "buffer_ok ?h"
      using take_char [OF g(3) lt] by blast
    let ?c = "b ! bufidx g"
    have gh: "got (handle ?h) = (P @ [?c]) @ unread ?h" using g(5) b(3) by simp
    show ?thesis
    proof (cases "uint ?c = stop")
      case True
      then show ?thesis using False g b by (simp add: Let_def)
    next
      case nostop: False
      have "\<exists>r k. (if bufidx ?h = bufend ?h then fillbuffer ?h else Some (0, ?h)) = Some (r, k) \<and>
          op_read (ops k) = rd \<and> buffer_ok k \<and> ungetidx k = ungetidx f \<and>
          got (handle k) = (P @ [?c]) @ unread k \<and> (r = 0 \<and> bufidx k \<le> bufend k \<or> r = EOF)"
      proof (cases "bufidx ?h = bufend ?h")
        case True
        then have "unread ?h = []" by (simp add: unread_def)
        then have "\<exists>r k. fillbuffer ?h = Some (r, k) \<and> op_read (ops k) = rd \<and> buffer_ok k \<and>
            ungetidx k = ungetidx ?h \<and> got (handle k) = got (handle ?h) @ unread k \<and>
            (r = 0 \<and> bufidx k < bufend k \<or> r = EOF \<and> unread k = [])"
          using fillbuffer_ok [of ?h] g(2) b(4) by simp
        then show ?thesis using True gh g(4) \<open>unread ?h = []\<close> by auto
      next
        case False
        then show ?thesis using g b gh lt by simp
      qed
      then obtain r' k where k: "(if bufidx ?h = bufend ?h then fillbuffer ?h else Some (0, ?h)) = Some (r', k)"
          "op_read (ops k) = rd" "buffer_ok k" "ungetidx k = ungetidx f" "got (handle k) = (P @ [?c]) @ unread k"
          "r' = 0 \<and> bufidx k \<le> bufend k \<or> r' = EOF" by blast
      have run: "buf_loop (Suc n) stop f = (if r' = EOF then Some ([?c], k)
          else do { (cs, f) \<leftarrow> buf_loop n stop k; Some (?c # cs, f) })"
        by (simp only: buf_loop.simps g(1) bind.bind_lunit prod.case False b(1,2) nostop k(1) Let_def if_True if_False)
      show ?thesis
      proof (cases "r' = EOF")
        case True
        then show ?thesis using run k by simp
      next
        case False
        then obtain cs f' where "buf_loop n stop k = Some (cs, f')" "op_read (ops f') = rd" "buffer_ok f'"
            "got (handle f') = (P @ [?c]) @ cs @ unread f'" "length cs \<le> n" "ungetidx f' = ungetidx k"
          using Suc.IH [OF k(2,3) _ k(5)] k(6) by blast
        then show ?thesis using run False k(4) by simp
      qed
    qed
  qed
qed simp

end

section \<open>The kernel's console is a device\<close>

interpretation kernel_console: stdio_device readf writef sent received
  by unfold_locales (auto simp: readf_def writef_def Let_def)

lemma std_room: "room (std_stream st d)"
  by (simp add: room_def buffer_ok_def std_stream_def BUFSIZ_def)

text \<open>After the first flush of a console stream its error flag is set, and nothing is written any more.\<close>

lemma console_flush:
  assumes "op_write (ops f) = writef" "buffer f = Some b" "bufidx f \<le> length b" "0 < bufidx f"
  shows "\<exists>f'. flushbuffer f = Some (EOF, f') \<and> has_flag ERRORFLAG f' \<and>
    sent (handle f') = sent (handle f) @ take (bufidx f) b \<and> bufidx f' = 0"
proof -
  have l: "length (take (bufidx f) b) = bufidx f" using assms(3) by simp
  show ?thesis
    unfolding flushbuffer_def using assms l
    by (subst flush_loop.simps) (auto simp: writef_def Let_def set_flags_def has_flag_def ERRORFLAG_def min_absorb2)
qed

lemma prepwrite_error: "has_flag ERRORFLAG f \<Longrightarrow> prepwrite f = (EOF, set_flags ERRORFLAG f)"
  by (auto simp: prepwrite_def has_flag_def bit.conj_disj_distrib or_eq_0_iff)

lemma fputs_error: "has_flag ERRORFLAG f \<Longrightarrow> fputs s f = Some (EOF, set_flags ERRORFLAG f)"
  by (simp add: fputs_def prepwrite_error)

lemma puts_error: "has_flag ERRORFLAG f \<Longrightarrow> puts s f = Some (EOF, set_flags ERRORFLAG f)"
  by (simp add: puts_def prepwrite_error)

text \<open>Characters that neither fill the buffer nor end the line only collect in it.\<close>

lemma puts_loop_collects:
  assumes "buffer f = Some b" "length b = bufsize f" "bufidx f + length s < bufsize f"
  shows "\<exists>f'. puts_loop s f = Some (0, f') \<and> handle f' = handle f \<and> ops f' = ops f \<and> status f' = status f \<and>
    bufsize f' = bufsize f \<and> bufidx f' = bufidx f + length s \<and>
    buffer f' = Some (take (bufidx f) b @ s @ drop (bufidx f + length s) b)"
  using assms
proof (induction s arbitrary: f b)
  case (Cons c s)
  let ?f = "f\<lparr>buffer := Some (b[bufidx f := c]), bufidx := bufidx f + 1\<rparr>"
  have put: "buf_put c f = Some ?f" using Cons.prems by (simp add: buf_put_def)
  have "b[bufidx f := c] = take (bufidx f) b @ c # drop (Suc (bufidx f)) b"
    using Cons.prems by (intro upd_conv_take_nth_drop) simp
  then have tk: "take (bufidx ?f) (b[bufidx f := c]) = take (bufidx f) b @ [c]"
    "drop (bufidx ?f + length s) (b[bufidx f := c]) = drop (bufidx f + length (c # s)) b"
    using Cons.prems by (simp_all add: add.commute)
  have "\<exists>f'. puts_loop s ?f = Some (0, f') \<and> handle f' = handle ?f \<and> ops f' = ops ?f \<and> status f' = status ?f \<and>
      bufsize f' = bufsize ?f \<and> bufidx f' = bufidx ?f + length s \<and>
      buffer f' = Some (take (bufidx ?f) (b[bufidx f := c]) @ s @ drop (bufidx ?f + length s) (b[bufidx f := c]))"
    using Cons.prems by (intro Cons.IH) auto
  then show ?case using put Cons.prems unfolding tk by (auto simp: EOF_def)
qed auto

lemma fwrite_loop_collects:
  assumes "buffer f = Some b" "length b = bufsize f" "bufidx f + length s < bufsize f" "0x0a \<notin> set s"
  shows "\<exists>f'. fwrite_loop sz (s @ t) k off f = fwrite_loop sz t (k + length s) off f' \<and>
    handle f' = handle f \<and> ops f' = ops f \<and> status f' = status f \<and>
    bufsize f' = bufsize f \<and> bufidx f' = bufidx f + length s \<and>
    buffer f' = Some (take (bufidx f) b @ s @ drop (bufidx f + length s) b)"
  using assms
proof (induction s arbitrary: f b k)
  case (Cons c s)
  let ?f = "f\<lparr>buffer := Some (b[bufidx f := c]), bufidx := bufidx f + 1\<rparr>"
  have put: "buf_put c f = Some ?f" using Cons.prems by (simp add: buf_put_def)
  have "b[bufidx f := c] = take (bufidx f) b @ c # drop (Suc (bufidx f)) b"
    using Cons.prems by (intro upd_conv_take_nth_drop) simp
  then have tk: "take (bufidx ?f) (b[bufidx f := c]) = take (bufidx f) b @ [c]"
    "drop (bufidx ?f + length s) (b[bufidx f := c]) = drop (bufidx f + length (c # s)) b"
    using Cons.prems by (simp_all add: add.commute)
  have "\<exists>f'. fwrite_loop sz (s @ t) (Suc k) off ?f = fwrite_loop sz t (Suc k + length s) off f' \<and>
      handle f' = handle ?f \<and> ops f' = ops ?f \<and> status f' = status ?f \<and>
      bufsize f' = bufsize ?f \<and> bufidx f' = bufidx ?f + length s \<and>
      buffer f' = Some (take (bufidx ?f) (b[bufidx f := c]) @ s @ drop (bufidx ?f + length s) (b[bufidx f := c]))"
    using Cons.prems by (intro Cons.IH) auto
  then show ?case using put Cons.prems unfolding tk by (auto simp: Let_def)
qed auto

lemma std_prepwrite:
  "prepwrite (stdout d) = (0, set_flags (FWRITE OR BYTESTREAM) (stdout d))"
  by (simp add: prepwrite_def stdout_def std_stream_def has_flag_def flag_defs)

section \<open>Properties\<close>

text \<open>
  C39. On every device that keeps the contract of the file operations, \<open>fwrite\<close> either returns
  the number of objects it was given, and then the device and the stream's buffer together hold
  exactly the old bytes followed by all new ones, or it returns another number and the error flag
  is set.
\<close>

theorem fwrite_all_or_error:
  assumes "stdio_device (op_read (ops f)) (op_write (ops f)) out got" and "room f"
    and "length data = nmemb * sz" and "nmemb < 2 ^ 64"
  shows "\<exists>r f'. fwrite data sz nmemb f = Some (r, f') \<and>
    (r = of_nat nmemb \<and> out (handle f') @ pending f' = out (handle f) @ pending f @ data \<or>
     r \<noteq> of_nat nmemb \<and> has_flag ERRORFLAG f')"
  by (rule stdio_device.fwrite_ok [OF assms(1) refl assms(2-4)])

theorem fwrite_all_or_error_witness:
  "\<exists>r f'. fwrite [97, 98] 1 2 (std_stream (IOFBF OR FWRITE) idle_console) = Some (r, f') \<and>
    (r = 2 \<and> sent (handle f') @ pending f' = sent idle_console @ [97, 98] \<or> r \<noteq> 2 \<and> has_flag ERRORFLAG f')"
proof -
  have "stdio_device (op_read (ops (std_stream (IOFBF OR FWRITE) idle_console))) (op_write (ops (std_stream (IOFBF OR FWRITE) idle_console)))
      sent received"
    using kernel_console.stdio_device_axioms by (simp add: std_stream_def kernel_fileops_def)
  from fwrite_all_or_error [OF this std_room, of "[97, 98]" 2 1] show ?thesis
    by (simp add: std_stream_def pending_def)
qed

text \<open>
  \<open>_PDCLIB_getchars\<close>, on which all reading functions rest, loses, repeats and reorders
  nothing: what the device delivered is what was returned before, what it returns now and what
  is left unread in the buffer, in this order.
\<close>

theorem getchars_in_order:
  assumes "stdio_device (op_read (ops f)) (op_write (ops f)) out got" and "buffer_ok f"
    and "bufidx f \<le> bufend f" and "ungetidx f = 0" and "got (handle f) = before @ unread f"
  shows "\<exists>cs f'. getchars n stop f = Some (cs, f') \<and> length cs \<le> n \<and>
    got (handle f') = before @ cs @ unread f'"
proof -
  have "unget_loop n stop f = ([], False, f)" using assms(4) by (cases n) auto
  then show ?thesis
    using stdio_device.buf_loop_ok [OF assms(1) refl assms(2,3,5), of n stop]
    by (auto simp: getchars_def)
qed

theorem getchars_in_order_witness:
  "\<exists>cs f'. getchars 3 EOF (stdin \<lparr>sent = [], received = [], keys = (\<lambda>_. 120)\<rparr>) = Some (cs, f') \<and>
    received (handle f') = cs @ unread f'"
proof -
  let ?d = "\<lparr>sent = [], received = [], keys = (\<lambda>_. 120)\<rparr>"
  have "stdio_device (op_read (ops (stdin ?d))) (op_write (ops (stdin ?d))) sent received"
    using kernel_console.stdio_device_axioms by (simp add: stdin_def std_stream_def kernel_fileops_def)
  moreover have "buffer_ok (stdin ?d)" "bufidx (stdin ?d) \<le> bufend (stdin ?d)" "ungetidx (stdin ?d) = 0"
      "received (handle (stdin ?d)) = [] @ unread (stdin ?d)"
    by (simp_all add: stdin_def std_stream_def buffer_ok_def unread_def BUFSIZ_def)
  ultimately show ?thesis using getchars_in_order [of "stdin ?d" sent received "[]" 3 EOF] by auto
qed

text \<open>
  The kernel's \<open>stdout\<close> works for one line: \<open>puts\<close> sends the line to the console but returns
  EOF, because \<open>writef\<close> answers \<open>false\<close> after sending everything; the error flag it leaves makes
  every later \<open>puts\<close> fail without sending a byte.
\<close>

theorem stdout_stops_after_one_line:
  assumes "length s + 1 < BUFSIZ"
  shows "\<exists>f. puts s (stdout d) = Some (EOF, f) \<and> sent (handle f) = sent d @ s @ [0x0a] \<and>
    (\<forall>t. \<exists>f'. puts t f = Some (EOF, f') \<and> handle f' = handle f)"
proof -
  let ?o = "set_flags (FWRITE OR BYTESTREAM) (stdout d)"
  have o: "buffer ?o = Some (replicate BUFSIZ 0)" "bufsize ?o = BUFSIZ" "bufidx ?o = 0" "handle ?o = d"
      "op_write (ops ?o) = writef" "has_flag (IOLBF OR IONBF) ?o"
    by (simp_all add: set_flags_def stdout_def std_stream_def kernel_fileops_def has_flag_def flag_defs)
  obtain f1 where f1: "puts_loop s ?o = Some (0, f1)" "handle f1 = d" "op_write (ops f1) = writef"
      "status f1 = status ?o" "bufsize f1 = BUFSIZ" "bufidx f1 = length s"
      "buffer f1 = Some (s @ drop (length s) (replicate BUFSIZ 0))"
    using puts_loop_collects [OF o(1), of s] assms o by auto
  let ?b = "s @ 0x0a # drop (Suc (length s)) (replicate BUFSIZ 0)"
  have ne: "drop (length s) (replicate BUFSIZ (0 :: u8)) = 0 # drop (Suc (length s)) (replicate BUFSIZ 0)"
    using assms by (subst Cons_nth_drop_Suc [symmetric]) auto
  let ?f2 = "f1\<lparr>buffer := Some ?b, bufidx := Suc (length s)\<rparr>"
  have put: "buf_put 0x0a f1 = Some ?f2"
    using f1 assms ne by (simp add: buf_put_def list_update_append)
  obtain f3 where f3: "flushbuffer ?f2 = Some (EOF, f3)" "has_flag ERRORFLAG f3"
      "sent (handle f3) = sent (handle ?f2) @ take (bufidx ?f2) ?b"
    using console_flush [of ?f2 ?b] f1(3) by auto
  have "puts s (stdout d) = Some (EOF, f3)"
    using f1(1,4) put f3(1) o(6) std_prepwrite [of d]
    by (simp add: puts_def EOF_def has_flag_def)
  moreover have "sent (handle f3) = sent d @ s @ [0x0a]" using f3(3) f1(2) by simp
  moreover have "\<exists>f'. puts t f3 = Some (EOF, f') \<and> handle f' = handle f3" for t
    using puts_error [OF f3(2), of t] by (simp add: set_flags_def)
  ultimately show ?thesis by blast
qed

theorem stdout_stops_after_one_line_witness:
  "\<exists>f f'. puts [104, 105] (stdout idle_console) = Some (EOF, f) \<and> puts [33] f = Some (EOF, f') \<and>
    sent (handle f') = sent idle_console @ [104, 105, 10]"
  using stdout_stops_after_one_line [of "[104, 105]" idle_console] by (auto simp: BUFSIZ_def) metis

text \<open>
  When a buffer size between the present one and half of it is requested and the allocation
  is left to the library, \<open>setvbuf\<close> means to keep the present buffer but stores the null pointer:
  it reports success and the next character written goes through that pointer.
\<close>

theorem setvbuf_drops_buffer:
  assumes "mode = IOFBF \<or> mode = IOLBF" and "0 < sz" and "sz \<le> bufsize f" and "bufsize f \<le> 2 * sz"
    and "sz \<le> 0x7fffffff"
  shows "case setvbuf malloc None mode sz f of (r, f') \<Rightarrow>
    r = 0 \<and> buffer f' = None \<and> bufsize f' = sz \<and> (fst (prepwrite f') = EOF \<or> fputc c f' = None)"
proof -
  obtain r g where g: "setvbuf malloc None mode sz f = (r, g)" by (cases "setvbuf malloc None mode sz f")
  then have b: "r = 0" "buffer g = None" "bufsize g = sz"
    using assms by (auto simp: setvbuf_def IOFBF_def IOLBF_def IONBF_def set_flags_def clear_flags_def)
  have "fst (prepwrite g) = EOF \<or> fputc c g = None"
    using b(2) by (auto simp: fputc_def prepwrite_def buf_put_def set_flags_def EOF_def)
  then show ?thesis using g b by simp
qed

theorem setvbuf_drops_buffer_witness:
  "fputc 65 (snd (setvbuf (\<lambda>_. None) None IOFBF 600 (stdout idle_console))) = None"
proof -
  let ?g = "snd (setvbuf (\<lambda>_. None) None IOFBF 600 (stdout idle_console))"
  have "fst (prepwrite ?g) = EOF \<or> fputc 65 ?g = None"
    using setvbuf_drops_buffer [of IOFBF 600 "stdout idle_console" 65 "\<lambda>_. None"]
    by (auto simp: stdout_def std_stream_def BUFSIZ_def split: prod.splits)
  moreover have "fst (prepwrite ?g) = 0"
    by (simp add: setvbuf_def prepwrite_def stdout_def std_stream_def has_flag_def set_flags_def
      clear_flags_def flag_defs BUFSIZ_def)
  ultimately show ?thesis by (simp add: EOF_def)
qed

end
