(* ===== verification/PdcPrint.thy ===== *)
theory PdcPrint
  imports PdcStdio PdcStrtol
begin

text \<open>
  The formatted output of the C library: \<open>_PDCLIB_print\<close> with its helpers \<open>int2base\<close>,
  \<open>printstr\<close> and \<open>printchar\<close>, and the loops over the format in \<open>vfprintf\<close> and \<open>vsnprintf\<close>.
  The format, the string arguments and the target of \<open>sprintf\<close> are in the byte memory, the
  variable arguments are a list of 64-bit values.
\<close>

section \<open>Conversion status\<close>

definition E_minus :: u32 where "E_minus = 1"
definition E_plus :: u32 where "E_plus = 2"
definition E_alt :: u32 where "E_alt = 4"
definition E_space :: u32 where "E_space = 8"
definition E_zero :: u32 where "E_zero = 0x10"
definition E_done :: u32 where "E_done = 0x20"
definition E_char :: u32 where "E_char = 0x40"
definition E_short :: u32 where "E_short = 0x80"
definition E_long :: u32 where "E_long = 0x100"
definition E_llong :: u32 where "E_llong = 0x200"
definition E_intmax :: u32 where "E_intmax = 0x400"
definition E_size :: u32 where "E_size = 0x800"
definition E_ptrdiff :: u32 where "E_ptrdiff = 0x1000"
definition E_intptr :: u32 where "E_intptr = 0x2000"
definition E_ldouble :: u32 where "E_ldouble = 0x4000"
definition E_lower :: u32 where "E_lower = 0x8000"
definition E_unsigned :: u32 where "E_unsigned = 0x10000"
definition E_TYPES :: u32 where
  "E_TYPES = E_char OR E_short OR E_long OR E_llong OR E_intmax OR E_size OR E_ptrdiff OR E_intptr"

lemmas E_defs = E_minus_def E_plus_def E_alt_def E_space_def E_zero_def E_done_def E_char_def
  E_short_def E_long_def E_llong_def E_intmax_def E_size_def E_ptrdiff_def E_intptr_def
  E_ldouble_def E_lower_def E_unsigned_def E_TYPES_def

text \<open>\<open>struct _PDCLIB_status_t\<close>; \<open>n\<close>, \<open>i\<close>, \<open>current\<close> and \<open>width\<close> are 32-bit unsigned.\<close>

record 'd pstatus =
  p_base :: int
  p_flags :: u32
  p_n :: nat
  p_i :: nat
  p_current :: nat
  p_s :: ptr
  p_width :: nat
  p_prec :: int
  p_stream :: "'d FILE option"
  p_arg :: "u64 list"
  p_mem :: mem

definition flag :: "u32 \<Rightarrow> 'd pstatus \<Rightarrow> bool" where
  "flag x st \<longleftrightarrow> p_flags st AND x \<noteq> 0"

definition add_flags :: "u32 \<Rightarrow> 'd pstatus \<Rightarrow> 'd pstatus" where
  "add_flags x st = st\<lparr>p_flags := p_flags st OR x\<rparr>"

text \<open>The macro \<open>PUT\<close>.\<close>

definition PUT :: "u8 \<Rightarrow> 'd pstatus \<Rightarrow> 'd pstatus option" where
  "PUT c st = do {
     st \<leftarrow> (if p_i st < p_n st then
       (case p_stream st of
          Some f \<Rightarrow> do { (r, f) \<leftarrow> fputc (sint c) f; Some (st\<lparr>p_stream := Some f\<rparr>) }
        | None \<Rightarrow> do { m \<leftarrow> store (p_mem st) (p_s st + p_i st) c; Some (st\<lparr>p_mem := m\<rparr>) })
       else Some st);
     Some (st\<lparr>p_i := (p_i st + 1) mod 2 ^ 32\<rparr>)
   }"

text \<open>Several characters in a row, each counted in \<open>current\<close> by \<open>cur\<close>.\<close>

primrec PUT_all :: "nat \<Rightarrow> u8 list \<Rightarrow> 'd pstatus \<Rightarrow> 'd pstatus option" where
  "PUT_all cur [] st = Some st"
| "PUT_all cur (c # cs) st = do {
     st \<leftarrow> PUT c st;
     PUT_all cur cs (st\<lparr>p_current := (p_current st + cur) mod 2 ^ 32\<rparr>)
   }"

section \<open>int2base\<close>

text \<open>\<open>sizeof(intmax_t) * CHAR_BIT / 3 + 1\<close>\<close>

definition maxIntLen :: nat where "maxIntLen = 64 div 3 + 1"

definition xdigit_chars :: "u8 list" where
  "xdigit_chars = [0x30, 0x31, 0x32, 0x33, 0x34, 0x35, 0x36, 0x37, 0x38, 0x39,
     0x41, 0x42, 0x43, 0x44, 0x45, 0x46]"

text \<open>
  The output buffer is built backwards; the list starts at \<open>outend[-written]\<close>. A write beyond its
  \<open>bufLen\<close> bytes is the fault None.
\<close>

definition push_out :: "nat \<Rightarrow> u8 \<Rightarrow> u8 list \<Rightarrow> u8 list option" where
  "push_out bufLen c out = (if length out < bufLen then Some (c # out) else None)"

text \<open>The digit loop, for a base of at least 2.\<close>

function digits_loop :: "nat \<Rightarrow> nat \<Rightarrow> u8 list \<Rightarrow> nat \<Rightarrow> u8 list \<Rightarrow> u8 list option" where
  "digits_loop bufLen base digits remaining out =
     (if base < 2 then None
      else do {
        out \<leftarrow> push_out bufLen (digits ! (remaining mod base)) out;
        if remaining div base \<noteq> 0 then digits_loop bufLen base digits (remaining div base) out
        else Some out
      })"
  by pat_completeness auto
termination
  by (relation "measure (\<lambda>(_, _, _, r, _). r)") (auto intro!: div_less_dividend gr0I)

declare digits_loop.simps [simp del]

text \<open>\<open>while ( written < k ) outend[-++written] = c\<close>\<close>

primrec push_many :: "nat \<Rightarrow> u8 \<Rightarrow> nat \<Rightarrow> u8 list \<Rightarrow> u8 list option" where
  "push_many bufLen c 0 out = Some out"
| "push_many bufLen c (Suc k) out = do { out \<leftarrow> push_out bufLen c out; push_many bufLen c k out }"

text \<open>The sign (0 for none) and the absolute value.\<close>

definition int2base_sign :: "u64 \<Rightarrow> 'd pstatus \<Rightarrow> u8 \<times> u64" where
  "int2base_sign value st =
     (if flag E_unsigned st then (0, value)
      else if sint value < 0 then (0x2d, - value)
      else if flag E_plus st then (0x2b, value)
      else if flag E_space st then (0x20, value)
      else (0, value))"

definition int2base_buflen :: "'d pstatus \<Rightarrow> nat" where
  "int2base_buflen st = (if p_width st > maxIntLen then p_width st else maxIntLen) + 2"

text \<open>The digits, none for a zero of precision 0, and the zeros of the precision.\<close>

definition int2base_digits :: "u64 \<Rightarrow> 'd pstatus \<Rightarrow> u8 list option" where
  "int2base_digits value st = do {
     let digits = (if flag E_lower st then digit_chars else xdigit_chars);
     out \<leftarrow> (if p_prec st \<noteq> 0 \<or> value \<noteq> 0
             then digits_loop (int2base_buflen st) (nat (p_base st)) digits (unat value) [] else Some []);
     push_many (int2base_buflen st) 0x30 (nat (p_prec st) - length out) out
   }"

text \<open>The sign or the prefix of the base, over the zero padding when there is some.\<close>

definition int2base_prefix :: "u8 \<Rightarrow> u64 \<Rightarrow> nat \<Rightarrow> 'd pstatus \<Rightarrow> u8 list \<Rightarrow> u8 list option" where
  "int2base_prefix sign value padding st out =
     (if sign \<noteq> 0 then
        (if padding = 0 then push_out (int2base_buflen st) sign out else Some (sign # tl out))
      else if flag E_alt st then
        (if p_base st = 8 then
           (if out = [] then None else if hd out = 0x30 then Some out
            else push_out (int2base_buflen st) 0x30 out)
         else if p_base st = 16 \<and> value \<noteq> 0 then do {
           let x = (if flag E_lower st then 0x78 else 0x58);
           out \<leftarrow> push_out (int2base_buflen st) x (drop (min padding 2) out);
           push_out (int2base_buflen st) 0x30 out
         }
         else Some out)
      else Some out)"

definition int2base_padding :: "'d pstatus \<Rightarrow> u8 list \<Rightarrow> nat" where
  "int2base_padding st out = nat (as_int (p_width st)) - length out"

definition int2base_text :: "u64 \<Rightarrow> 'd pstatus \<Rightarrow> u8 list option" where
  "int2base_text value0 st = do {
     let (sign, value) = int2base_sign value0 st;
     out \<leftarrow> int2base_digits value st;
     let padding = (if \<not> flag E_minus st \<and> flag E_zero st then int2base_padding st out else 0);
     out \<leftarrow> push_many (int2base_buflen st) 0x30 padding out;
     out \<leftarrow> int2base_prefix sign value padding st out;
     if \<not> flag (E_minus OR E_zero) st
     then push_many (int2base_buflen st) 0x20 (int2base_padding st out) out
     else Some out
   }"

definition int2base :: "u64 \<Rightarrow> 'd pstatus \<Rightarrow> 'd pstatus option" where
  "int2base value st = do {
     out \<leftarrow> int2base_text value st;
     PUT_all 0 out (st\<lparr>p_current := length out\<rparr>)
   }"

section \<open>printstr and printchar\<close>

partial_function (option) printstr_loop :: "ptr \<Rightarrow> 'd pstatus \<Rightarrow> 'd pstatus option" where
  "printstr_loop str st = do {
     c \<leftarrow> p_mem st (str + p_current st);
     if c \<noteq> 0 \<and> (p_prec st < 0 \<or> int (p_current st) < p_prec st) then do {
       st \<leftarrow> PUT c (st\<lparr>p_current := (p_current st + 1) mod 2 ^ 32\<rparr>);
       printstr_loop str st
     } else Some st
   }"

primrec printstr_copy :: "ptr \<Rightarrow> nat \<Rightarrow> 'd pstatus \<Rightarrow> 'd pstatus option" where
  "printstr_copy str 0 st = Some st"
| "printstr_copy str (Suc k) st = do {
     c \<leftarrow> p_mem st str;
     st \<leftarrow> PUT c st;
     printstr_copy (Suc str) k (st\<lparr>p_current := (p_current st + 1) mod 2 ^ 32\<rparr>)
   }"

definition printstr :: "ptr \<Rightarrow> 'd pstatus \<Rightarrow> 'd pstatus option" where
  "printstr str st =
     (if p_width st = 0 \<or> flag E_minus st then do {
        st \<leftarrow> printstr_loop str st;
        PUT_all 1 (replicate (p_width st - p_current st) 0x20) st
      }
      else do {
        len \<leftarrow> (if p_prec st \<ge> 0 then strnlen (p_mem st) str (nat (p_prec st)) else strlen (p_mem st) str);
        let padding = sint (of_nat (p_width st) - of_nat len :: u32);
        st \<leftarrow> PUT_all 1 (replicate (nat (padding - int (p_current st))) 0x20) st;
        printstr_copy str len st
      })"

definition printchar :: "u8 \<Rightarrow> 'd pstatus \<Rightarrow> 'd pstatus option" where
  "printchar chr st =
     (if \<not> flag E_minus st then do {
        st \<leftarrow> PUT_all 1 (replicate (p_width st - (p_current st + 1)) 0x20) st;
        PUT_all 1 [chr] st
      }
      else do {
        st \<leftarrow> PUT_all 1 [chr] st;
        PUT_all 1 (replicate (p_width st - p_current st) 0x20) st
      })"

section \<open>_PDCLIB_print\<close>

partial_function (option) parse_flags :: "mem \<Rightarrow> ptr \<Rightarrow> u32 \<Rightarrow> (ptr \<times> u32) option" where
  "parse_flags m spec fl = do {
     c \<leftarrow> m spec;
     if c = 0x2d then parse_flags m (Suc spec) (fl OR E_minus)
     else if c = 0x2b then parse_flags m (Suc spec) (fl OR E_plus)
     else if c = 0x23 then parse_flags m (Suc spec) (fl OR E_alt)
     else if c = 0x20 then parse_flags m (Suc spec) (fl OR E_space)
     else if c = 0x30 then parse_flags m (Suc spec) (fl OR E_zero)
     else Some (spec, fl OR E_done)
   }"

definition va_arg :: "'d pstatus \<Rightarrow> (u64 \<times> 'd pstatus) option" where
  "va_arg st = (case p_arg st of [] \<Rightarrow> None | a # as \<Rightarrow> Some (a, st\<lparr>p_arg := as\<rparr>))"

text \<open>\<open>va_arg( arg, int )\<close> and \<open>(int)strtol( spec, &spec, 10 )\<close>\<close>

definition int_of_arg :: "u64 \<Rightarrow> int" where
  "int_of_arg a = sint (ucast a :: u32)"

definition parse_int :: "mem \<Rightarrow> ptr \<Rightarrow> (int \<times> ptr) option" where
  "parse_int m spec = do {
     (rc, e, err) \<leftarrow> strtol m spec 10;
     q \<leftarrow> e;
     Some (int_of_arg rc, q)
   }"

definition parse_width :: "ptr \<Rightarrow> 'd pstatus \<Rightarrow> (ptr \<times> 'd pstatus) option" where
  "parse_width spec st = do {
     c \<leftarrow> p_mem st spec;
     if c = 0x2a then do {
       (a, st) \<leftarrow> va_arg st;
       let width = int_of_arg a;
       Some (Suc spec,
         if width < 0 then (add_flags E_minus st)\<lparr>p_width := nat (- width)\<rparr> else st\<lparr>p_width := nat width\<rparr>)
     }
     else do {
       (w, spec) \<leftarrow> parse_int (p_mem st) spec;
       Some (spec, st\<lparr>p_width := unat (of_int w :: u32)\<rparr>)
     }
   }"

definition parse_prec :: "ptr \<Rightarrow> 'd pstatus \<Rightarrow> (ptr \<times> 'd pstatus) option" where
  "parse_prec spec st = do {
     c \<leftarrow> p_mem st spec;
     if c = 0x2e then do {
       d \<leftarrow> p_mem st (Suc spec);
       (spec, st) \<leftarrow>
         (if d = 0x2a then do {
            (a, st) \<leftarrow> va_arg st;
            Some (spec + 2, st\<lparr>p_prec := int_of_arg a\<rparr>)
          }
          else do {
            (w, spec) \<leftarrow> parse_int (p_mem st) (Suc spec);
            Some (spec, st\<lparr>p_prec := w\<rparr>)
          });
       Some (spec, st\<lparr>p_flags := p_flags st AND NOT E_zero\<rparr>)
     }
     else Some (spec, st)
   }"

definition parse_length :: "ptr \<Rightarrow> 'd pstatus \<Rightarrow> (ptr \<times> 'd pstatus) option" where
  "parse_length spec st = do {
     c \<leftarrow> p_mem st spec;
     if c = 0x68 then do {
       d \<leftarrow> p_mem st (Suc spec);
       Some (if d = 0x68 then (spec + 2, add_flags E_char st) else (Suc spec, add_flags E_short st))
     }
     else if c = 0x6c then do {
       d \<leftarrow> p_mem st (Suc spec);
       Some (if d = 0x6c then (spec + 2, add_flags E_llong st) else (Suc spec, add_flags E_long st))
     }
     else if c = 0x6a then Some (Suc spec, add_flags E_intmax st)
     else if c = 0x7a then Some (Suc spec, add_flags E_size st)
     else if c = 0x74 then Some (Suc spec, add_flags E_ptrdiff st)
     else if c = 0x4c then Some (Suc spec, add_flags E_ldouble st)
     else Some (spec, st)
   }"

text \<open>
  The value of an integer conversion, widened from the type its flags name; with several length
  flags the unsigned case leaves its variable uninitialised (None) and the signed one prints
  nothing.
\<close>

definition unsigned_value :: "u32 \<Rightarrow> u64 \<Rightarrow> u64 option" where
  "unsigned_value ty a =
     (if ty = E_char then Some (ucast (ucast a :: u8))
      else if ty = E_short then Some (ucast (ucast a :: u16))
      else if ty = 0 then Some (ucast (ucast a :: u32))
      else if ty \<in> {E_long, E_llong, E_size, E_intptr, E_ptrdiff, E_intmax} then Some a
      else None)"

definition signed_value :: "u32 \<Rightarrow> u64 \<Rightarrow> u64 option" where
  "signed_value ty a =
     (if ty = E_char then Some (scast (ucast a :: u8))
      else if ty = E_short then Some (scast (ucast a :: u16))
      else if ty = 0 then Some (scast (ucast a :: u32))
      else if ty \<in> {E_long, E_llong, E_size, E_intptr, E_ptrdiff, E_intmax} then Some a
      else None)"

definition print_integer :: "'d pstatus \<Rightarrow> 'd pstatus option" where
  "print_integer st = do {
     let ty = p_flags st AND E_TYPES;
     st \<leftarrow>
       (if flag E_unsigned st then do {
          (a, st) \<leftarrow> va_arg st;
          v \<leftarrow> unsigned_value ty a;
          int2base v st
        }
        else if signed_value ty 0 = None then Some st
        else do {
          (a, st) \<leftarrow> va_arg st;
          v \<leftarrow> signed_value ty a;
          int2base v st
        });
     st \<leftarrow> (if flag E_minus st then PUT_all 1 (replicate (p_width st - p_current st) 0x20) st else Some st);
     if p_i st \<ge> p_n st \<and> p_n st > 0 then do {
       m \<leftarrow> store (p_mem st) (p_s st + (p_n st - 1)) 0;
       Some (st\<lparr>p_mem := m\<rparr>)
     }
     else Some st
   }"

text \<open>
  The conversion specifier. The result is the pointer behind it, or the pointer \<open>orig\<close> to the
  percent sign when there is no such specifier.
\<close>

definition print_conv :: "ptr \<Rightarrow> ptr \<Rightarrow> 'd pstatus \<Rightarrow> (ptr \<times> 'd pstatus) option" where
  "print_conv orig spec st = do {
     c \<leftarrow> p_mem st spec;
     let int_conv = (\<lambda>b fl. do { st \<leftarrow> print_integer (add_flags fl (st\<lparr>p_base := b\<rparr>)); Some (Suc spec, st) });
     if c = 0x64 \<or> c = 0x69 then int_conv 10 0
     else if c = 0x6f then int_conv 8 E_unsigned
     else if c = 0x75 then int_conv 10 E_unsigned
     else if c = 0x78 then int_conv 16 (E_lower OR E_unsigned)
     else if c = 0x58 then int_conv 16 E_unsigned
     else if c \<in> {0x66, 0x46, 0x65, 0x45, 0x67, 0x47, 0x61, 0x41} then Some (Suc spec, st)
     else if c = 0x63 then do {
       (a, st) \<leftarrow> va_arg st;
       st \<leftarrow> printchar (ucast a) st;
       Some (Suc spec, st)
     }
     else if c = 0x73 then do {
       (a, st) \<leftarrow> va_arg st;
       st \<leftarrow> printstr (unat a) st;
       Some (Suc spec, st)
     }
     else if c = 0x70 then int_conv 16 (E_lower OR E_unsigned OR E_alt OR E_intptr)
     else if c = 0x6e then do {
       (a, st) \<leftarrow> va_arg st;
       m \<leftarrow> store_bytes (p_mem st) (unat a) (map (\<lambda>k. of_nat (p_i st div 256 ^ k)) [0..<4]);
       Some (Suc spec, st\<lparr>p_mem := m\<rparr>)
     }
     else Some (orig, st)
   }"

definition pdclib_print :: "ptr \<Rightarrow> 'd pstatus \<Rightarrow> (ptr \<times> 'd pstatus) option" where
  "pdclib_print spec0 st = do {
     let spec = Suc spec0;
     c \<leftarrow> p_mem st spec;
     if c = 0x25 then do { st \<leftarrow> PUT c st; Some (Suc spec, st) }
     else do {
       (spec, fl) \<leftarrow> parse_flags (p_mem st) spec 0;
       let st = st\<lparr>p_flags := fl, p_base := 0, p_current := 0, p_width := 0, p_prec := EOF\<rparr>;
       (spec, st) \<leftarrow> parse_width spec st;
       (spec, st) \<leftarrow> parse_prec spec st;
       (spec, st) \<leftarrow> parse_length spec st;
       print_conv spec0 spec st
     }
   }"

section \<open>The loops over the format\<close>

definition print_init :: "nat \<Rightarrow> ptr \<Rightarrow> 'd FILE option \<Rightarrow> u64 list \<Rightarrow> mem \<Rightarrow> 'd pstatus" where
  "print_init n s f arg m = \<lparr>p_base = 0, p_flags = 0, p_n = n, p_i = 0, p_current = 0, p_s = s,
     p_width = 0, p_prec = 0, p_stream = f, p_arg = arg, p_mem = m\<rparr>"

partial_function (option) vfprintf_loop :: "ptr \<Rightarrow> 'd pstatus \<Rightarrow> 'd pstatus option" where
  "vfprintf_loop format st = do {
     c \<leftarrow> p_mem st format;
     if c = 0 then Some st
     else do {
       (rc, st) \<leftarrow> (if c \<noteq> 0x25 then Some (format, st) else pdclib_print format st);
       if rc = format then do {
         f \<leftarrow> p_stream st;
         (r, f) \<leftarrow> fputc (sint c) f;
         vfprintf_loop (Suc format) (st\<lparr>p_stream := Some f, p_i := (p_i st + 1) mod 2 ^ 32\<rparr>)
       }
       else vfprintf_loop rc st
     }
   }"

definition vfprintf :: "'d FILE \<Rightarrow> ptr \<Rightarrow> u64 list \<Rightarrow> mem \<Rightarrow> (int \<times> 'd FILE \<times> mem) option" where
  "vfprintf f format arg m = do {
     st \<leftarrow> vfprintf_loop format (print_init (2 ^ 32 - 1) NULL (Some f) arg m);
     f \<leftarrow> p_stream st;
     Some (as_int (p_i st), f, p_mem st)
   }"

text \<open>\<open>n\<close> is the \<open>size_t\<close> argument; the status holds only its low 32 bits.\<close>

partial_function (option) vsnprintf_loop :: "nat \<Rightarrow> ptr \<Rightarrow> 'd pstatus \<Rightarrow> 'd pstatus option" where
  "vsnprintf_loop n format st = do {
     c \<leftarrow> p_mem st format;
     if c = 0 then Some st
     else do {
       (rc, st) \<leftarrow> (if c \<noteq> 0x25 then Some (format, st) else pdclib_print format st);
       if rc = format then do {
         m \<leftarrow> (if p_i st < n then store (p_mem st) (p_s st + p_i st) c else Some (p_mem st));
         vsnprintf_loop n (Suc format) (st\<lparr>p_mem := m, p_i := (p_i st + 1) mod 2 ^ 32\<rparr>)
       }
       else vsnprintf_loop n rc st
     }
   }"

definition vsnprintf :: "ptr \<Rightarrow> nat \<Rightarrow> ptr \<Rightarrow> u64 list \<Rightarrow> mem \<Rightarrow> (int \<times> mem) option" where
  "vsnprintf s n format arg m = do {
     st \<leftarrow> vsnprintf_loop n format (print_init (n mod 2 ^ 32) s (None :: unit FILE option) arg m);
     m \<leftarrow> (if p_i st < n then store (p_mem st) (s + p_i st) 0 else Some (p_mem st));
     Some (as_int (p_i st), m)
   }"

definition vsprintf :: "ptr \<Rightarrow> ptr \<Rightarrow> u64 list \<Rightarrow> mem \<Rightarrow> (int \<times> mem) option" where
  "vsprintf s format arg m = vsnprintf s (2 ^ 64 - 1) format arg m"

definition snprintf :: "ptr \<Rightarrow> nat \<Rightarrow> ptr \<Rightarrow> u64 list \<Rightarrow> mem \<Rightarrow> (int \<times> mem) option" where
  "snprintf s n format arg m = vsnprintf s n format arg m"

definition sprintf :: "ptr \<Rightarrow> ptr \<Rightarrow> u64 list \<Rightarrow> mem \<Rightarrow> (int \<times> mem) option" where
  "sprintf s format arg m = vsnprintf s (2 ^ 64 - 1) format arg m"

section \<open>The text of an integer\<close>

lemma numval_append: "numval b v (xs @ ys) = numval b (numval b v xs) ys"
  by (simp add: numval_def)

lemma numval_zeros: "numval b 0 (replicate k 0x30 @ ds) = numval b 0 ds"
  by (induction k) (simp_all add: dval_def)

lemma digits_of_append: "digits_of b (xs @ ys) \<longleftrightarrow> digits_of b xs \<and> digits_of b ys"
  by (auto simp: digits_of_def)

lemma digits_of_zeros: "2 \<le> b \<Longrightarrow> digits_of b (replicate k 0x30)"
  by (simp add: digits_of_def dval_def)

lemma push_out_Some: "push_out L c out = Some res \<longleftrightarrow> res = c # out \<and> length out < L"
  by (auto simp: push_out_def)

lemma push_many_Some:
  "push_many L c k out = Some res \<longleftrightarrow> res = replicate k c @ out \<and> (k = 0 \<or> k + length out \<le> L)"
proof (induction k arbitrary: out)
  case (Suc k)
  show ?case
    by (cases "length out < L") (auto simp: push_out_def Suc.IH replicate_app_Cons_same)
qed auto

text \<open>A table whose entries have their index as digit value.\<close>

definition digit_table :: "nat \<Rightarrow> u8 list \<Rightarrow> bool" where
  "digit_table b t \<longleftrightarrow> (\<forall>k < b. unat (t ! k) < 128 \<and> dval (t ! k) = k)"

lemma digit_tables: "b \<le> 16 \<Longrightarrow> digit_table b digit_chars" "b \<le> 16 \<Longrightarrow> digit_table b xdigit_chars"
proof -
  have "list_all (\<lambda>k. unat (digit_chars ! k) < 128 \<and> dval (digit_chars ! k) = k) [0..<16]"
    by (simp add: upt_rec digit_chars_def dval_def)
  then show "b \<le> 16 \<Longrightarrow> digit_table b digit_chars" by (auto simp: digit_table_def list_all_iff)
  have "list_all (\<lambda>k. unat (xdigit_chars ! k) < 128 \<and> dval (xdigit_chars ! k) = k) [0..<16]"
    by (simp add: upt_rec xdigit_chars_def dval_def)
  then show "b \<le> 16 \<Longrightarrow> digit_table b xdigit_chars" by (auto simp: digit_table_def list_all_iff)
qed

lemma digits_loop_value:
  assumes "2 \<le> b" "digit_table b t" "digits_loop L b t r out = Some res"
  shows "\<exists>ds. res = ds @ out \<and> ds \<noteq> [] \<and> numval b 0 ds = r \<and> digits_of b ds"
  using assms(3)
proof (induction r arbitrary: out rule: less_induct)
  case (less r)
  let ?d = "t ! (r mod b)"
  have d: "unat ?d < 128" "dval ?d = r mod b" "r mod b < b"
    using assms(1,2) by (auto simp: digit_table_def)
  have step: "(if r div b \<noteq> 0 then digits_loop L b t (r div b) (?d # out) else Some (?d # out)) = Some res"
    using less.prems assms(1) by (subst (asm) digits_loop.simps) (auto simp: push_out_def split: if_splits)
  show ?case
  proof (cases "r div b = 0")
    case True
    then have "r < b" using assms(1) by (simp add: div_eq_0_iff)
    then show ?thesis using True step d by (intro exI [of _ "[?d]"]) auto
  next
    case False
    then have "r div b < r" using assms(1) by (intro div_less_dividend) (auto intro: gr0I)
    moreover have "digits_loop L b t (r div b) (?d # out) = Some res" using step False by simp
    ultimately obtain ds where ds: "res = ds @ ?d # out" "numval b 0 ds = r div b" "digits_of b ds"
      using less.IH by blast
    then show ?thesis using d by (intro exI [of _ "ds @ [?d]"]) (auto simp: numval_append digits_of_append)
  qed
qed

lemma int2base_digits_value:
  assumes "int2base_digits v st = Some out" "2 \<le> b" "b \<le> 16" "p_base st = int b" "p_prec st \<noteq> 0 \<or> v \<noteq> 0"
  shows "out \<noteq> [] \<and> digits_of b out \<and> numval b 0 out = unat v"
proof -
  obtain t where t: "digit_table b t" "t = (if flag E_lower st then digit_chars else xdigit_chars)"
    using digit_tables [OF assms(3)] by auto
  obtain out1 where o1: "digits_loop (int2base_buflen st) b t (unat v) [] = Some out1"
      "push_many (int2base_buflen st) 0x30 (nat (p_prec st) - length out1) out1 = Some out"
    using assms t(2) by (simp add: int2base_digits_def bind_eq_Some_conv Let_def) blast
  from digits_loop_value [OF assms(2) t(1) o1(1)]
  have d1: "out1 \<noteq> []" "numval b 0 out1 = unat v" "digits_of b out1" by auto
  show ?thesis
    using o1(2) d1 assms(2) by (auto simp: push_many_Some digits_of_append digits_of_zeros numval_zeros)
qed

text \<open>A signed decimal conversion: blanks, a sign, zeros and digits of the value.\<close>

lemma int2base_text_shape:
  assumes "int2base_text v st = Some txt" "\<not> flag E_unsigned st" "p_base st = 10" "p_prec st \<noteq> 0 \<or> v \<noteq> 0"
  shows "\<exists>ws sg ds. txt = ws @ sg @ ds \<and> (\<forall>c \<in> set ws. c = 0x20) \<and> sg \<in> {[], [0x2b], [0x2d]} \<and>
    (sg = [0x2d] \<longleftrightarrow> sint v < 0) \<and> ds \<noteq> [] \<and> digits_of 10 ds \<and>
    numval 10 0 ds = unat (if sint v < 0 then - v else v)"
proof -
  define w where "w = (if sint v < 0 then - v else v)"
  define sg where "sg = (if sint v < 0 then (0x2d :: u8) else if flag E_plus st then 0x2b
    else if flag E_space st then 0x20 else 0)"
  have sign: "int2base_sign v st = (sg, w)" using assms(2) by (simp add: int2base_sign_def sg_def w_def)
  have sgs: "sg \<in> {0, 0x20, 0x2b, 0x2d}" "sg = 0x2d \<longleftrightarrow> sint v < 0" by (auto simp: sg_def)
  have w0: "p_prec st \<noteq> 0 \<or> w \<noteq> 0" using assms(4) by (auto simp: w_def)
  let ?L = "int2base_buflen st"
  obtain out1 out3 out4 pad where o1: "int2base_digits w st = Some out1"
    and o3: "push_many ?L 0x30 pad out1 = Some out3" and o4: "int2base_prefix sg w pad st out3 = Some out4"
    and o5: "(if \<not> flag (E_minus OR E_zero) st then push_many ?L 0x20 (int2base_padding st out4) out4
      else Some out4) = Some txt"
    using assms(1) unfolding int2base_text_def sign Let_def prod.case bind_eq_Some_conv by blast
  have d1: "out1 \<noteq> []" "digits_of 10 out1" "numval 10 0 out1 = unat w"
    using int2base_digits_value [OF o1, of 10] assms(3) w0 by auto
  from o3 have d3: "out3 = replicate pad 0x30 @ out1" by (auto simp: push_many_Some)
  have out4: "out4 = (if sg \<noteq> 0 then [sg] else []) @ (replicate (if sg \<noteq> 0 then pad - 1 else pad) 0x30 @ out1)"
    using o4 d3 assms(3) by (cases pad) (auto simp: int2base_prefix_def push_out_Some split: if_splits)
  define ds where "ds = replicate (if sg \<noteq> 0 then pad - 1 else pad) 0x30 @ out1"
  have ds: "out4 = (if sg \<noteq> 0 then [sg] else []) @ ds" "ds \<noteq> []" "digits_of 10 ds" "numval 10 0 ds = unat w"
    using out4 d1 by (simp_all add: ds_def digits_of_append digits_of_zeros numval_zeros)
  obtain ws where ws: "txt = ws @ out4" "\<forall>c \<in> set ws. c = 0x20"
    using o5 by (auto simp: push_many_Some split: if_splits)
  have ans: "numval 10 0 ds = unat (if sint v < 0 then - v else v)" using ds(4) by (simp add: w_def)
  consider "sg = 0" | "sg = 0x20" | "sg = 0x2b" | "sg = 0x2d" using sgs(1) by auto
  then show ?thesis
  proof cases
    case 1
    then show ?thesis using ws ds ans sgs(2) by (intro exI [of _ ws] exI [of _ "[]"] exI [of _ ds]) auto
  next
    case 2
    then show ?thesis using ws ds ans sgs(2)
      by (intro exI [of _ "ws @ [0x20]"] exI [of _ "[]"] exI [of _ ds]) auto
  next
    case 3
    then show ?thesis using ws ds ans sgs(2) by (intro exI [of _ ws] exI [of _ "[0x2b]"] exI [of _ ds]) auto
  next
    case 4
    then show ?thesis using ws ds ans sgs(2) by (intro exI [of _ ws] exI [of _ "[0x2d]"] exI [of _ ds]) auto
  qed
qed

lemma signed_value_of_abs:
  fixes v :: u64
  shows "(if sint v < 0 then - int (unat (if sint v < 0 then - v else v))
    else int (unat (if sint v < 0 then - v else v))) = sint v"
  using uint_bounded [of v] by (auto simp: sint_u64 uint_minus_u64)

lemma as_int_small: "n < 2 ^ 31 \<Longrightarrow> as_int n = int n"
  by (simp add: as_int_def sint_u32 uint_nat unat_of_nat_u32 del: of_nat_unat)

lemma digits_loop_nonempty:
  assumes "2 \<le> b" shows "digits_loop L b t r out = Some res \<Longrightarrow> res \<noteq> []"
proof (induction r arbitrary: out rule: less_induct)
  case (less r)
  show ?case
  proof (cases "r div b = 0")
    case True
    then show ?thesis using less.prems assms
      by (subst (asm) digits_loop.simps) (auto simp: push_out_def split: if_splits)
  next
    case False
    then have "r div b < r" using assms by (intro div_less_dividend) (auto intro: gr0I)
    moreover have "digits_loop L b t (r div b) (t ! (r mod b) # out) = Some res"
      using less.prems assms False by (subst (asm) digits_loop.simps) (auto simp: push_out_def split: if_splits)
    ultimately show ?thesis using less.IH by blast
  qed
qed

lemma digits_loop_bound:
  assumes "2 \<le> b" "r < b ^ k" "0 < k" "length out + k \<le> L"
  shows "\<exists>res. digits_loop L b t r out = Some res \<and> length res \<le> length out + k"
  using assms(2-4)
proof (induction k arbitrary: r out)
  case (Suc k)
  let ?o = "t ! (r mod b) # out"
  have push: "push_out L (t ! (r mod b)) out = Some ?o" using Suc.prems by (simp add: push_out_def)
  have dl: "digits_loop L b t r out = (if r div b \<noteq> 0 then digits_loop L b t (r div b) ?o else Some ?o)"
    using assms(1) push by (subst digits_loop.simps) simp
  show ?case
  proof (cases "r div b = 0")
    case True
    then show ?thesis using dl by simp
  next
    case False
    have "r div b < b ^ k" using Suc.prems(1) assms(1) by (simp add: less_mult_imp_div_less mult.commute)
    moreover from this False have "0 < k" by (cases k) auto
    ultimately show ?thesis using Suc.IH [of "r div b" ?o] Suc.prems(3) False dl by force
  qed
qed simp

text \<open>Conversions of base 8, 10 and 16 write at most 22 digits.\<close>

lemma int2base_digits_bound:
  fixes v :: u64
  assumes "p_base st \<in> {8, 10, 16}"
  shows "\<exists>ds. (if p_prec st \<noteq> 0 \<or> v \<noteq> 0
      then digits_loop (int2base_buflen st) (nat (p_base st)) t (unat v) [] else Some []) = Some ds \<and>
    length ds \<le> 22"
proof (cases "p_prec st \<noteq> 0 \<or> v \<noteq> 0")
  case True
  have "unat v < 2 ^ 64" by (rule order_less_le_trans [OF unsigned_less]) simp
  also have "(2 :: nat) ^ 64 \<le> nat (p_base st) ^ 22" using assms by auto
  finally have "\<exists>res. digits_loop (int2base_buflen st) (nat (p_base st)) t (unat v) [] = Some res \<and>
      length res \<le> length ([] :: u8 list) + 22"
    using assms by (intro digits_loop_bound) (auto simp: int2base_buflen_def maxIntLen_def)
  then show ?thesis using True by simp
qed simp

lemma int2base_digits_fits:
  assumes "p_base st \<in> {8, 10, 16}" "p_prec st \<le> int (int2base_buflen st - 2)"
  shows "\<exists>ds. int2base_digits v st = Some ds \<and> length ds \<le> int2base_buflen st - 2 \<and>
    (p_prec st \<noteq> 0 \<or> v \<noteq> 0 \<longrightarrow> ds \<noteq> [])"
proof -
  define t where "t = (if flag E_lower st then digit_chars else xdigit_chars)"
  obtain d1 where d1: "(if p_prec st \<noteq> 0 \<or> v \<noteq> 0
      then digits_loop (int2base_buflen st) (nat (p_base st)) t (unat v) [] else Some []) = Some d1"
      "length d1 \<le> 22"
    using int2base_digits_bound [OF assms(1)] by blast
  have L: "24 \<le> int2base_buflen st" by (simp add: int2base_buflen_def maxIntLen_def)
  define k where "k = nat (p_prec st) - length d1"
  have "push_many (int2base_buflen st) 0x30 k d1 = Some (replicate k 0x30 @ d1)"
    using assms(2) d1(2) L by (auto simp: push_many_Some k_def)
  then have "int2base_digits v st = Some (replicate k 0x30 @ d1)"
    using d1(1) by (simp add: int2base_digits_def t_def [symmetric] k_def Let_def)
  moreover have "length (replicate k (0x30 :: u8) @ d1) \<le> int2base_buflen st - 2"
    using assms(2) d1(2) L by (simp add: k_def)
  moreover have "p_prec st \<noteq> 0 \<or> v \<noteq> 0 \<longrightarrow> d1 \<noteq> []"
  proof
    assume a: "p_prec st \<noteq> 0 \<or> v \<noteq> 0"
    have b: "2 \<le> nat (p_base st)" using assms(1) by auto
    show "d1 \<noteq> []" using digits_loop_nonempty [OF b, of _ t] d1(1) a by auto
  qed
  ultimately show ?thesis by auto
qed

section \<open>Properties of the conversions\<close>

text \<open>
  C16. A number that a signed decimal conversion prints, with any width, sign flag, zero padding or
  precision, is read back by \<open>strtol\<close> exactly, up to the end of the printed text.
\<close>

theorem print_strtol_roundtrip:
  assumes "int2base_text v st = Some txt" and "\<not> flag E_unsigned st" and "p_base st = 10"
    and "p_prec st \<noteq> 0 \<or> v \<noteq> 0" and "cstr m s (txt @ rest)" and "stops 10 rest" and "s \<noteq> NULL"
  shows "strtol m s 10 = Some (v, Some (s + length txt), False)"
proof -
  obtain ws sg ds where t: "txt = ws @ sg @ ds" "\<forall>c \<in> set ws. c = 0x20" "sg \<in> {[], [0x2b], [0x2d]}"
      "sg = [0x2d] \<longleftrightarrow> sint v < 0" "ds \<noteq> []" "digits_of 10 ds"
      "numval 10 0 ds = unat (if sint v < 0 then - v else v)"
    using int2base_text_shape [OF assms(1-4)] by blast
  have ws: "\<forall>c \<in> set ws. space_byte c" using t(2) by (auto simp: space_byte_def)
  have sd: "signed_digits 10 sg ds rest" using t assms(6) by (simp add: signed_digits_def)
  have val: "(if sg = [0x2d] then - int (numval 10 0 ds) else int (numval 10 0 ds)) = sint v"
    using signed_value_of_abs [of v] by (cases "sint v < 0") (simp_all add: t(4,7) del: of_nat_unat)
  have rng: "LONG_MIN \<le> sint v" "sint v \<le> LONG_MAX"
    using sint_ge [of v] sint_less [of v] by (simp_all add: LONG_MIN_def LONG_MAX_def)
  show ?thesis
    using strtol_cstr [OF _ ws sd _ _ assms(7), of m] assms(5) rng unfolding t(1) val
    by (simp add: max_absorb2 min_absorb2)
qed

text \<open>\<open>%+7d\<close> of -42, read back behind its blanks.\<close>

theorem print_strtol_roundtrip_witness:
  "strtol (mem_of 1 [0x20, 0x20, 0x20, 0x20, 0x2d, 0x34, 0x32, 0x2e, 0]) 1 10 = Some (- 42, Some 8, False)"
proof -
  define st :: "unit pstatus" where "st = (print_init 0 0 None [] (mem_of 1 []))
    \<lparr>p_base := 10, p_flags := E_plus, p_width := 7, p_prec := EOF\<rparr>"
  have t: "int2base_text (- 42) st = Some [0x20, 0x20, 0x20, 0x20, 0x2d, 0x34, 0x32]"
    unfolding st_def by code_simp
  have f: "\<not> flag E_unsigned st" "p_base st = 10" "p_prec st \<noteq> 0"
    by (simp_all add: st_def flag_def E_defs print_init_def EOF_def)
  show ?thesis
    using print_strtol_roundtrip [OF t f(1,2), of "mem_of 1 [0x20, 0x20, 0x20, 0x20, 0x2d, 0x34, 0x32, 0x2e, 0]"
      1 "[0x2e]"] f(3) by (simp add: cstr_def stops_def dval_def NULL_def)
qed

lemma int2base_prefix_fits:
  assumes "length out \<le> int2base_buflen st - 2" "padding \<noteq> 0 \<longrightarrow> padding \<le> length out"
    and "flag E_alt st \<and> p_base st = 8 \<longrightarrow> out \<noteq> []"
  shows "\<exists>out'. int2base_prefix sign v padding st out = Some out' \<and>
    length out \<le> length out' \<and> length out' \<le> int2base_buflen st"
proof -
  have L: "24 \<le> int2base_buflen st" by (simp add: int2base_buflen_def maxIntLen_def)
  consider "sign \<noteq> 0" "padding = 0" | "sign \<noteq> 0" "padding \<noteq> 0" | "sign = 0" "\<not> flag E_alt st"
    | "sign = 0" "flag E_alt st" "p_base st = 8" | "sign = 0" "flag E_alt st" "p_base st \<noteq> 8" by blast
  then show ?thesis
    using assms L by cases (auto simp: int2base_prefix_def push_out_def)
qed

text \<open>
  The stack buffer of \<open>int2base\<close> is large enough for every value in base 8, 10 and 16 as long
  as the precision does not exceed the larger of the width and 22 (a zero printed with \<open>%#.0o\<close>
  apart), and the text then has at least the width unless it is left justified.
\<close>

theorem int2base_text_fits:
  assumes "p_base st \<in> {8, 10, 16}" and "p_prec st \<le> int (int2base_buflen st - 2)"
    and "p_width st < 2 ^ 31" and "flag E_alt st \<and> p_base st = 8 \<longrightarrow> p_prec st \<noteq> 0 \<or> v \<noteq> 0"
  shows "\<exists>txt. int2base_text v st = Some txt \<and> length txt \<le> int2base_buflen st \<and>
    (\<not> flag E_minus st \<longrightarrow> p_width st \<le> length txt)"
proof -
  obtain sg w where sw: "int2base_sign v st = (sg, w)" by fastforce
  have w0: "w = 0 \<longleftrightarrow> v = 0" using sw by (auto simp: int2base_sign_def split: if_splits)
  obtain ds where ds: "int2base_digits w st = Some ds" "length ds \<le> int2base_buflen st - 2"
      "p_prec st \<noteq> 0 \<or> w \<noteq> 0 \<longrightarrow> ds \<noteq> []"
    using int2base_digits_fits [OF assms(1,2), of w] by blast
  have wid: "p_width st \<le> int2base_buflen st - 2" by (simp add: int2base_buflen_def)
  have pad: "int2base_padding st out = p_width st - length out" for out
    using assms(3) by (simp add: int2base_padding_def as_int_small)
  define padding where "padding = (if \<not> flag E_minus st \<and> flag E_zero st then p_width st - length ds else 0)"
  define out3 where "out3 = replicate padding 0x30 @ ds"
  have o3: "push_many (int2base_buflen st) 0x30 padding ds = Some out3"
    using ds(2) wid by (auto simp: push_many_Some out3_def padding_def)
  have len3: "length out3 \<le> int2base_buflen st - 2" using ds(2) wid by (auto simp: out3_def padding_def)
  have "padding \<noteq> 0 \<longrightarrow> padding \<le> length out3" by (simp add: out3_def)
  moreover have "flag E_alt st \<and> p_base st = 8 \<longrightarrow> out3 \<noteq> []" using assms(4) ds(3) w0 by (auto simp: out3_def)
  ultimately obtain out4 where o4: "int2base_prefix sg w padding st out3 = Some out4"
      "length out3 \<le> length out4" "length out4 \<le> int2base_buflen st"
    using int2base_prefix_fits [OF len3] by blast
  define res where "res = (if \<not> flag (E_minus OR E_zero) st
    then replicate (p_width st - length out4) 0x20 @ out4 else out4)"
  have o5: "push_many (int2base_buflen st) 0x20 (p_width st - length out4) out4 =
      Some (replicate (p_width st - length out4) 0x20 @ out4)"
    using o4(3) wid by (auto simp: push_many_Some)
  have tx: "int2base_text v st = Some res"
    using o5 unfolding int2base_text_def sw Let_def prod.case ds(1) Option.bind.simps pad
      padding_def [symmetric] o3 o4(1) by (simp add: res_def)
  have "\<not> flag E_minus st \<longrightarrow> p_width st \<le> length res"
  proof
    assume m: "\<not> flag E_minus st"
    show "p_width st \<le> length res"
    proof (cases "flag E_zero st")
      case True
      then have "p_width st \<le> length out3" using m by (simp add: out3_def padding_def)
      then show ?thesis using o4(2) by (simp add: res_def)
    next
      case False
      then have "\<not> flag (E_minus OR E_zero) st" using m by (simp add: flag_def bit.conj_disj_distrib)
      then show ?thesis by (simp add: res_def)
    qed
  qed
  moreover have "length res \<le> int2base_buflen st" using o4(3) wid by (auto simp: res_def)
  ultimately show ?thesis using tx by blast
qed

theorem int2base_text_fits_witness:
  "\<exists>txt. int2base_text (- 5) (print_init 0 0 None [] (mem_of 1 [])
      \<lparr>p_base := 10, p_flags := E_zero, p_width := 6, p_prec := EOF\<rparr>) = Some txt \<and>
    length txt \<le> 24 \<and> 6 \<le> length txt"
  using int2base_text_fits [of "print_init 0 0 None [] (mem_of 1 [])
      \<lparr>p_base := 10, p_flags := E_zero, p_width := 6, p_prec := EOF\<rparr>" "- 5"]
  by (simp add: int2base_buflen_def maxIntLen_def print_init_def flag_def E_defs EOF_def)

text \<open>
  A precision larger than the buffer, which has room for 22 characters or the width and two
  more, makes \<open>int2base\<close> write below its stack buffer: the zeros of the precision are not counted
  in its size.
\<close>

theorem int2base_precision_overflow:
  assumes "p_base st \<in> {8, 10, 16}" and "int (int2base_buflen st) < p_prec st"
  shows "int2base v st = None"
proof -
  obtain sg w where sw: "int2base_sign v st = (sg, w)" by fastforce
  define t where "t = (if flag E_lower st then digit_chars else xdigit_chars)"
  obtain d1 where d1: "(if p_prec st \<noteq> 0 \<or> w \<noteq> 0
      then digits_loop (int2base_buflen st) (nat (p_base st)) t (unat w) [] else Some []) = Some d1"
      "length d1 \<le> 22"
    using int2base_digits_bound [OF assms(1)] by blast
  have L: "24 \<le> int2base_buflen st" by (simp add: int2base_buflen_def maxIntLen_def)
  have "\<nexists>res. push_many (int2base_buflen st) 0x30 (nat (p_prec st) - length d1) d1 = Some res"
    using assms(2) d1(2) L by (auto simp: push_many_Some)
  then have "push_many (int2base_buflen st) 0x30 (nat (p_prec st) - length d1) d1 = None" by simp
  then have "int2base_digits w st = None"
    using d1(1) by (simp add: int2base_digits_def t_def [symmetric] Let_def)
  then show ?thesis by (simp add: int2base_def int2base_text_def sw)
qed

theorem int2base_precision_overflow_witness:
  "int2base 7 (print_init 0 0 None [] (mem_of 1 [])\<lparr>p_base := 10, p_prec := 25\<rparr>) = None"
  using int2base_precision_overflow [of "print_init 0 0 None [] (mem_of 1 [])\<lparr>p_base := 10, p_prec := 25\<rparr>"]
  by (simp add: int2base_buflen_def maxIntLen_def print_init_def)

text \<open>Text without a percent sign is copied as long as the counter is below \<open>n\<close>.\<close>

lemma vsnprintf_loop_verbatim:
  assumes "cstr (p_mem st) fmt cs" "0x25 \<notin> set cs" "mapped (p_mem st) (p_s st) n"
    "fmt + length cs < p_s st \<or> p_s st + n \<le> fmt" "p_i st + length cs < 2 ^ 32"
  shows "vsnprintf_loop n fmt st = Some (st\<lparr>p_i := p_i st + length cs,
    p_mem := write_bytes (p_mem st) (p_s st + p_i st) (take (n - p_i st) cs)\<rparr>)"
  using assms
proof (induction cs arbitrary: fmt st)
  case Nil
  then show ?case by (subst vsnprintf_loop.simps) (simp add: mem_simps)
next
  case (Cons c cs)
  have c: "p_mem st fmt = Some c" "c \<noteq> 0" "c \<noteq> 0x25" "cstr (p_mem st) (Suc fmt) cs"
    using Cons.prems(1,2) by (auto simp: mem_simps)
  define m where "m = (if p_i st < n then (p_mem st)(p_s st + p_i st \<mapsto> c) else p_mem st)"
  have st: "(if p_i st < n then store (p_mem st) (p_s st + p_i st) c else Some (p_mem st)) = Some m"
    using Cons.prems(3) by (auto simp: m_def store_def mapped_def)
  have step: "vsnprintf_loop n fmt st = vsnprintf_loop n (Suc fmt) (st\<lparr>p_mem := m, p_i := p_i st + 1\<rparr>)"
    using c st Cons.prems(5) by (subst vsnprintf_loop.simps) simp
  have "cstr m (Suc fmt) cs" using c(4) Cons.prems(4) by (auto simp: m_def cstr_upd)
  moreover have "mapped m (p_s st) n" using Cons.prems(3) by (auto simp: m_def mapped_upd)
  ultimately have "vsnprintf_loop n (Suc fmt) (st\<lparr>p_mem := m, p_i := p_i st + 1\<rparr>) =
      Some (st\<lparr>p_mem := write_bytes m (p_s st + (p_i st + 1)) (take (n - (p_i st + 1)) cs),
        p_i := p_i st + 1 + length cs\<rparr>)"
    using Cons.IH [of "st\<lparr>p_mem := m, p_i := p_i st + 1\<rparr>" "Suc fmt"] Cons.prems(2,4,5) by (auto simp: algebra_simps)
  moreover have "write_bytes m (p_s st + (p_i st + 1)) (take (n - (p_i st + 1)) cs) =
      write_bytes (p_mem st) (p_s st + p_i st) (take (n - p_i st) (c # cs))"
    by (cases "n - p_i st") (auto simp: m_def take_Cons' intro!: arg_cong [of _ _ "\<lambda>k. write_bytes _ _ (take k cs)"])
  ultimately show ?case using step by (simp add: algebra_simps)
qed

text \<open>
  \<open>vsnprintf\<close> of plain text returns its length and copies the bytes of the text and its
  terminator that fit: with a buffer no larger than the text the result is cut without a final NUL.
\<close>

theorem vsnprintf_verbatim:
  assumes "cstr m fmt cs" and "0x25 \<notin> set cs" and "mapped m s n" and "length cs < 2 ^ 31"
    and "fmt + length cs < s \<or> s + n \<le> fmt"
  shows "vsnprintf s n fmt arg m = Some (int (length cs), write_bytes m s (take n (cs @ [0])))"
proof -
  let ?st = "print_init (n mod 2 ^ 32) s (None :: unit FILE option) arg m"
  let ?m = "write_bytes m s (take n cs)"
  have "vsnprintf_loop n fmt ?st = Some (?st\<lparr>p_i := length cs, p_mem := ?m\<rparr>)"
    using vsnprintf_loop_verbatim [of ?st fmt cs n] assms by (simp add: print_init_def)
  moreover have "(if length cs < n then store ?m (s + length cs) 0 else Some ?m) =
      Some (write_bytes m s (take n (cs @ [0])))"
    using assms(3) by (auto simp: write_bytes_snoc store_def mapped_def write_bytes_append write_bytes_apply take_Cons')
  ultimately show ?thesis using assms(4) by (cases "length cs < n") (simp_all add: vsnprintf_def as_int_small print_init_def)
qed

theorem vsnprintf_verbatim_witness:
  "vsnprintf 5 2 1 [] (mem_of 1 [0x61, 0x62, 0x63, 0, 1, 1, 1]) =
    Some (3, (mem_of 1 [0x61, 0x62, 0x63, 0, 1, 1, 1])(5 \<mapsto> 0x61, 6 \<mapsto> 0x62))"
proof -
  have "cstr (mem_of 1 [0x61, 0x62, 0x63, 0, 1, 1, 1]) 1 [0x61, 0x62, 0x63]" by (simp add: cstr_def)
  moreover have "mapped (mem_of 1 [0x61, 0x62, 0x63, 0, 1, 1, 1]) 5 2"
    by (simp add: numeral_2_eq_2 mapped_Suc mapped_0)
  ultimately show ?thesis
    using vsnprintf_verbatim [of "mem_of 1 [0x61, 0x62, 0x63, 0, 1, 1, 1]" 1 "[0x61, 0x62, 0x63]" 5 2 "[]"]
    by (simp del: mem_of.simps)
qed

end
