(* ===== verification/FastLz.thy ===== *)
theory FastLz
  imports Prelude
begin

text \<open>
  The compressor that packs the kernel image and the decompressor of its loader
  (fastlz/fastlz.cc), for both levels of the file that includes itself: \<open>lvl\<close> is
  \<open>FASTLZ_LEVEL\<close>. A pointer into the input is an offset, and a read outside the mapped input is the
  fault None; the output is the list of bytes written so far. The decompressor runs in the 32-bit
  loader: its lengths and its pointers into the output are 32-bit words, which wrap.
\<close>

section \<open>Constants and reads\<close>

definition MAX_COPY :: nat where "MAX_COPY = 32"
definition MAX_LEN :: nat where "MAX_LEN = 264"

definition MAX_DISTANCE :: "nat \<Rightarrow> nat" where
  "MAX_DISTANCE lvl = (if lvl = 1 then 8192 else 8191)"

definition MAX_FARDISTANCE :: nat where "MAX_FARDISTANCE = 65535 + MAX_DISTANCE 2 - 1"

definition rd :: "u8 list \<Rightarrow> nat \<Rightarrow> u8 option" where
  "rd xs i = (if i < length xs then Some (xs ! i) else None)"

text \<open>\<open>FASTLZ_READU16\<close>, little endian, and \<open>HASH_FUNCTION\<close>.\<close>

definition READU16 :: "u8 list \<Rightarrow> nat \<Rightarrow> u32 option" where
  "READU16 xs p = do { a \<leftarrow> rd xs p; b \<leftarrow> rd xs (p + 1); Some (ucast a OR push_bit 8 (ucast b)) }"

definition HASH_FUNCTION :: "u8 list \<Rightarrow> nat \<Rightarrow> nat option" where
  "HASH_FUNCTION xs p = do {
     v \<leftarrow> READU16 xs p;
     w \<leftarrow> READU16 xs (p + 1);
     Some (unat ((v XOR (w XOR drop_bit 3 v)) AND 8191))
   }"

section \<open>Compressor\<close>

text \<open>
  The compressor gets the pointer and the length of its input: \<open>inp\<close> is the list of the bytes
  mapped from the pointer on, at least the \<open>len\<close> bytes to compress.
\<close>

record lz =
  lz_ip :: nat
  lz_op :: "u8 list"
  lz_copy :: nat
  lz_htab :: "nat \<Rightarrow> nat"

text \<open>The test for a run that level 2 makes before it uses the hash table.\<close>

definition run_check :: "u8 list \<Rightarrow> nat \<Rightarrow> bool option" where
  "run_check inp ip = do {
     a \<leftarrow> rd inp ip;
     b \<leftarrow> rd inp (ip - 1);
     if a \<noteq> b then Some False
     else do { u \<leftarrow> READU16 inp (ip - 1); v \<leftarrow> READU16 inp (ip + 1); Some (u = v) }
   }"

text \<open>\<open>k\<close> comparisons \<open>*ref++ != *ip++\<close> that stop at the first difference.\<close>

primrec same_bytes :: "u8 list \<Rightarrow> nat \<Rightarrow> nat \<Rightarrow> nat \<Rightarrow> bool option" where
  "same_bytes inp ref ip 0 = Some True"
| "same_bytes inp ref ip (Suc k) = do {
     a \<leftarrow> rd inp ref;
     b \<leftarrow> rd inp ip;
     if a \<noteq> b then Some False else same_bytes inp (Suc ref) (Suc ip) k
   }"

text \<open>What the search at \<open>anchor\<close> finds: a literal, or a match with its \<open>ref\<close>, distance and length.\<close>

datatype probe = Literal | Match nat nat nat

definition find_match :: "nat \<Rightarrow> u8 list \<Rightarrow> (nat \<Rightarrow> nat) \<Rightarrow> nat \<Rightarrow> (probe \<times> (nat \<Rightarrow> nat)) option" where
  "find_match lvl inp htab anchor = do {
     run \<leftarrow> (if lvl = 2 then run_check inp anchor else Some False);
     if run then Some (Match (anchor - 1 + 3) 1 3, htab)
     else do {
       hval \<leftarrow> HASH_FUNCTION inp anchor;
       let ref = htab hval;
       let distance = anchor - ref;
       let htab = htab(hval := anchor);
       if distance = 0 \<or> (if lvl = 1 then MAX_DISTANCE 1 else MAX_FARDISTANCE) \<le> distance
       then Some (Literal, htab)
       else do {
         eq \<leftarrow> same_bytes inp ref anchor 3;
         if \<not> eq then Some (Literal, htab)
         else if lvl = 2 \<and> MAX_DISTANCE 2 \<le> distance then do {
           eq \<leftarrow> same_bytes inp (ref + 3) (anchor + 3) 2;
           Some (if eq then Match (ref + 5) distance 5 else Literal, htab)
         }
         else Some (Match (ref + 3) distance 3, htab)
       }
     }
   }"

text \<open>The scan over the matching bytes: a run, and eight unrolled comparisons before a loop.\<close>

function run_scan :: "u8 list \<Rightarrow> nat \<Rightarrow> u8 \<Rightarrow> nat \<Rightarrow> nat \<Rightarrow> nat option" where
  "run_scan inp bound x ref ip =
     (if ip < bound then do {
        a \<leftarrow> rd inp ref;
        if a \<noteq> x then Some ip else run_scan inp bound x (Suc ref) (Suc ip)
      } else Some ip)"
  by pat_completeness auto
termination by (relation "measure (\<lambda>(_, bound, _, _, ip). bound - ip)") auto

primrec unrolled_scan :: "u8 list \<Rightarrow> nat \<Rightarrow> nat \<Rightarrow> nat \<Rightarrow> (bool \<times> nat \<times> nat) option" where
  "unrolled_scan inp 0 ref ip = Some (True, ref, ip)"
| "unrolled_scan inp (Suc k) ref ip = do {
     a \<leftarrow> rd inp ref;
     b \<leftarrow> rd inp ip;
     if a \<noteq> b then Some (False, Suc ref, Suc ip) else unrolled_scan inp k (Suc ref) (Suc ip)
   }"

function tail_scan :: "u8 list \<Rightarrow> nat \<Rightarrow> nat \<Rightarrow> nat \<Rightarrow> nat option" where
  "tail_scan inp bound ref ip =
     (if ip < bound then do {
        a \<leftarrow> rd inp ref;
        b \<leftarrow> rd inp ip;
        if a \<noteq> b then Some (Suc ip) else tail_scan inp bound (Suc ref) (Suc ip)
      } else Some ip)"
  by pat_completeness auto
termination by (relation "measure (\<lambda>(_, bound, _, ip). bound - ip)") auto

declare run_scan.simps [simp del] tail_scan.simps [simp del]

definition match_scan :: "u8 list \<Rightarrow> nat \<Rightarrow> nat \<Rightarrow> nat \<Rightarrow> nat \<Rightarrow> nat option" where
  "match_scan inp bound distance ref ip =
     (if distance = 0 then do { x \<leftarrow> rd inp (ip - 1); run_scan inp bound x ref ip }
      else do {
        (go, ref, ip) \<leftarrow> unrolled_scan inp 8 ref ip;
        if go then tail_scan inp bound ref ip else Some ip
      })"

text \<open>
  The bytes of a match: \<open>len\<close> is biased by 2 and \<open>distance\<close> by 1. Level 1 splits a match longer
  than \<open>MAX_LEN\<close>, level 2 writes a length of any size and has a far form of the distance.
\<close>

definition match_head :: "nat \<Rightarrow> nat \<Rightarrow> u8" where
  "match_head len distance = of_nat (push_bit 5 len + drop_bit 8 distance)"

function encode1 :: "nat \<Rightarrow> nat \<Rightarrow> u8 list" where
  "encode1 len distance =
     (if len > MAX_LEN - 2
      then [match_head 7 distance, of_nat (MAX_LEN - 2 - 7 - 2), of_nat (distance AND 255)] @
        encode1 (len - (MAX_LEN - 2)) distance
      else if len < 7 then [match_head len distance, of_nat (distance AND 255)]
      else [match_head 7 distance, of_nat (len - 7), of_nat (distance AND 255)])"
  by pat_completeness auto
termination by (relation "measure fst") (auto simp: MAX_LEN_def)

fun encode_len :: "nat \<Rightarrow> u8 list" where
  "encode_len len = (if len \<ge> 255 then 255 # encode_len (len - 255) else [of_nat len])"

declare encode1.simps [simp del] encode_len.simps [simp del]

definition encode2 :: "nat \<Rightarrow> nat \<Rightarrow> u8 list" where
  "encode2 len distance =
     (if distance < MAX_DISTANCE 2 then
        (if len < 7 then [match_head len distance, of_nat (distance AND 255)]
         else match_head 7 distance # encode_len (len - 7) @ [of_nat (distance AND 255)])
      else
        (let distance = distance - MAX_DISTANCE 2 in
         (if len < 7 then [of_nat (push_bit 5 len + 31), 255]
          else of_nat (push_bit 5 7 + 31) # encode_len (len - 7) @ [255]) @
         [of_nat (drop_bit 8 distance), of_nat (distance AND 255)]))"

definition encode_match :: "nat \<Rightarrow> nat \<Rightarrow> nat \<Rightarrow> u8 list" where
  "encode_match lvl len distance = (if lvl = 2 then encode2 len distance else encode1 len distance)"

text \<open>The count byte of the literals, or its removal when there are none.\<close>

definition fix_copy :: "u8 list \<Rightarrow> nat \<Rightarrow> u8 list" where
  "fix_copy out copy =
     (if copy \<noteq> 0 then out[length out - copy - 1 := of_nat (copy - 1)] else butlast out)"

definition put_literal :: "u8 \<Rightarrow> lz \<Rightarrow> lz" where
  "put_literal c s =
     (let s = s\<lparr>lz_op := lz_op s @ [c], lz_ip := lz_ip s + 1, lz_copy := lz_copy s + 1\<rparr> in
      if lz_copy s = MAX_COPY then s\<lparr>lz_copy := 0, lz_op := lz_op s @ [of_nat (MAX_COPY - 1)]\<rparr> else s)"

text \<open>One iteration of the main loop.\<close>

definition compress_step :: "nat \<Rightarrow> u8 list \<Rightarrow> nat \<Rightarrow> lz \<Rightarrow> lz option" where
  "compress_step lvl inp len s = do {
     let anchor = lz_ip s;
     (p, htab) \<leftarrow> find_match lvl inp (lz_htab s) anchor;
     let s = s\<lparr>lz_htab := htab\<rparr>;
     (case p of
        Literal \<Rightarrow> do { c \<leftarrow> rd inp anchor; Some (put_literal c s) }
      | Match ref distance mlen \<Rightarrow> do {
          let distance = distance - 1;
          ip \<leftarrow> match_scan inp (len - 2) distance ref (anchor + mlen);
          let out = fix_copy (lz_op s) (lz_copy s);
          let ip = ip - 3;
          let out = out @ encode_match lvl (ip - anchor) distance;
          h0 \<leftarrow> HASH_FUNCTION inp ip;
          h1 \<leftarrow> HASH_FUNCTION inp (ip + 1);
          Some (s\<lparr>lz_htab := (lz_htab s)(h0 := ip, h1 := ip + 1), lz_ip := ip + 2, lz_copy := 0,
            lz_op := out @ [of_nat (MAX_COPY - 1)]\<rparr>)
        })
   }"

partial_function (option) compress_loop :: "nat \<Rightarrow> u8 list \<Rightarrow> nat \<Rightarrow> lz \<Rightarrow> lz option" where
  "compress_loop lvl inp len s =
     (if lz_ip s + 12 < len then do { s \<leftarrow> compress_step lvl inp len s; compress_loop lvl inp len s }
      else Some s)"

definition compress_init :: "u8 list \<Rightarrow> lz" where
  "compress_init inp = \<lparr>lz_ip = 2, lz_op = [of_nat (MAX_COPY - 1), inp ! 0, inp ! 1], lz_copy = 2,
     lz_htab = (\<lambda>_. 0)\<rparr>"

definition compress :: "nat \<Rightarrow> u8 list \<Rightarrow> nat \<Rightarrow> u8 list option" where
  "compress lvl inp len =
     (if len < 4 then Some (if len \<noteq> 0 then of_nat (len - 1) # take len inp else [])
      else do {
        s \<leftarrow> compress_loop lvl inp len (compress_init inp);
        let s = fold put_literal (drop (lz_ip s) (take len inp)) s;
        let out = fix_copy (lz_op s) (lz_copy s);
        Some (if lvl = 2 then out[0 := out ! 0 OR 32] else out)
      })"

definition fastlz_compress :: "u8 list \<Rightarrow> nat \<Rightarrow> u8 list option" where
  "fastlz_compress inp len = (if len < 65536 then compress 1 inp len else compress 2 inp len)"

definition fastlz_compress_level :: "nat \<Rightarrow> u8 list \<Rightarrow> nat \<Rightarrow> u8 list option" where
  "fastlz_compress_level level inp len =
     (if level = 1 then compress 1 inp len else if level = 2 then compress 2 inp len else Some [])"

section \<open>Decompressor\<close>

text \<open>
  The decompressor gets the pointer and the length of its input, the pointer \<open>base\<close> to its output
  and the room there: again \<open>inp\<close> is the list of the bytes mapped from the input pointer on. The loop
  over the length bytes of level 2:
\<close>

function read_len :: "u8 list \<Rightarrow> nat \<Rightarrow> u32 \<Rightarrow> (nat \<times> u32) option" where
  "read_len inp ip len = (case rd inp ip of
     None \<Rightarrow> None
   | Some code \<Rightarrow>
       if code = 255 then read_len inp (Suc ip) (len + ucast code) else Some (Suc ip, len + ucast code))"
  by pat_completeness auto
termination by (relation "measure (\<lambda>(inp, ip, _). length inp - ip)") (auto simp: rd_def split: if_splits)

declare read_len.simps [simp del]

text \<open>
  The copy from \<open>ref\<close>, an offset into the output: three single bytes, one more when \<open>len\<close> is odd,
  then 16 bits at a time.
\<close>

primrec copy_bytes :: "nat \<Rightarrow> nat \<Rightarrow> u8 list \<Rightarrow> u8 list" where
  "copy_bytes 0 ref out = out"
| "copy_bytes (Suc n) ref out = copy_bytes n (Suc ref) (out @ [out ! ref])"

primrec copy_words :: "nat \<Rightarrow> nat \<Rightarrow> u8 list \<Rightarrow> u8 list" where
  "copy_words 0 ref out = out"
| "copy_words (Suc n) ref out = copy_words n (ref + 2) (out @ [out ! ref, out ! (ref + 1)])"

definition copy_match :: "nat \<Rightarrow> nat \<Rightarrow> u8 list \<Rightarrow> u8 list" where
  "copy_match ref len out =
     (let out = copy_bytes 3 ref out; ref = ref + 3;
          (out, ref, len) = (if odd len then (copy_bytes 1 ref out, ref + 1, len - 1) else (out, ref, len))
      in copy_words (len div 2) ref out)"

text \<open>The outcome of an iteration: an error, the end, or the next control byte.\<close>

datatype lzd = Err | Stop "u8 list" | Go nat nat "u8 list"

text \<open>The pointer to one behind the start of a match, its length beyond three bytes, and the input behind it.\<close>

definition read_match :: "nat \<Rightarrow> u8 list \<Rightarrow> nat \<Rightarrow> nat \<Rightarrow> u32 \<Rightarrow> (u32 \<times> u32 \<times> nat) option" where
  "read_match lvl inp ctrl ip op = do {
     let ofs = push_bit 8 (ctrl AND 31);
     let len = drop_bit 5 ctrl - 1;
     (ip, len) \<leftarrow>
       (if len = 6 then
          (if lvl = 1 then do { b \<leftarrow> rd inp ip; Some (ip + 1, of_nat len + ucast b) } else read_len inp ip (of_nat len))
        else Some (ip, of_nat len));
     code \<leftarrow> rd inp ip;
     if lvl \<noteq> 1 \<and> code = 255 \<and> ofs = push_bit 8 31 then do {
       hi \<leftarrow> rd inp (ip + 1);
       lo \<leftarrow> rd inp (ip + 2);
       Some (op - (push_bit 8 (ucast hi) + ucast lo) - of_nat (MAX_DISTANCE 2), len, ip + 3)
     }
     else Some (op - of_nat ofs - ucast code, len, ip + 1)
   }"

text \<open>
  One iteration. A match whose start is no byte written so far would read other memory, which is a
  fault here; it needs a distance that wraps below address 0, so it cannot happen where \<open>base\<close> is at
  least 73726.
\<close>

definition decompress_step ::
  "nat \<Rightarrow> u8 list \<Rightarrow> nat \<Rightarrow> u32 \<Rightarrow> nat \<Rightarrow> nat \<Rightarrow> nat \<Rightarrow> u8 list \<Rightarrow> lzd option" where
  "decompress_step lvl inp n base maxout ctrl ip out = (
     let op = base + of_nat (length out); op_limit = base + of_nat maxout in
     if ctrl \<ge> 32 then do {
        (ref, len, ip) \<leftarrow> read_match lvl inp ctrl ip op;
        if op + len + 3 > op_limit then Some Err
        else if ref - 1 < base then Some Err
        else if unat (ref - 1 - base) \<ge> length out then None
        else do {
          let out = (if ref = op then out @ replicate (3 + unat len) (last out)
            else copy_match (unat (ref - 1 - base)) (unat len) out);
          if ip < n then do { c \<leftarrow> rd inp ip; Some (Go (unat c) (ip + 1) out) } else Some (Stop out)
        }
      }
      else if op + of_nat (ctrl + 1) > op_limit then Some Err
      else if ip + (ctrl + 1) > n then Some Err
      else if ip + (ctrl + 1) > length inp then None
      else do {
        let out = out @ take (ctrl + 1) (drop ip inp);
        let ip = ip + (ctrl + 1);
        if ip < n then do { c \<leftarrow> rd inp ip; Some (Go (unat c) (ip + 1) out) } else Some (Stop out)
      })"

text \<open>The result is the returned size, 0 on an error, and the bytes written to the output.\<close>

partial_function (option) decompress_loop ::
  "nat \<Rightarrow> u8 list \<Rightarrow> nat \<Rightarrow> u32 \<Rightarrow> nat \<Rightarrow> nat \<Rightarrow> nat \<Rightarrow> u8 list \<Rightarrow> (nat \<times> u8 list) option" where
  "decompress_loop lvl inp n base maxout ctrl ip out = do {
     r \<leftarrow> decompress_step lvl inp n base maxout ctrl ip out;
     (case r of
        Err \<Rightarrow> Some (0, out)
      | Stop out \<Rightarrow> Some (length out, out)
      | Go ctrl ip out \<Rightarrow> decompress_loop lvl inp n base maxout ctrl ip out)
   }"

definition decompress :: "nat \<Rightarrow> u8 list \<Rightarrow> nat \<Rightarrow> u32 \<Rightarrow> nat \<Rightarrow> (nat \<times> u8 list) option" where
  "decompress lvl inp n base maxout = do {
     c \<leftarrow> rd inp 0;
     decompress_loop lvl inp n base maxout (unat c AND 31) 1 []
   }"

definition fastlz_decompress :: "u8 list \<Rightarrow> nat \<Rightarrow> u32 \<Rightarrow> nat \<Rightarrow> (nat \<times> u8 list) option" where
  "fastlz_decompress inp n base maxout = do {
     c \<leftarrow> rd inp 0;
     let level = drop_bit 5 (unat c) + 1;
     if level = 1 then decompress 1 inp n base maxout
     else if level = 2 then decompress 2 inp n base maxout
     else Some (0, [])
   }"

definition BUFFER_OUT :: u32 where "BUFFER_OUT = 0x200000"
definition MAX_BUFFER :: nat where "MAX_BUFFER = 0x1600000"

definition uncompress_loader :: "u8 list \<Rightarrow> nat \<Rightarrow> (nat \<times> u8 list) option" where
  "uncompress_loader lz_start lz_size = fastlz_decompress lz_start lz_size BUFFER_OUT MAX_BUFFER"

section \<open>Tokens: what the compressed bytes mean\<close>

text \<open>A run of literals, or a copy of \<open>n\<close> bytes from \<open>d\<close> bytes back.\<close>

datatype token = Lits "u8 list" | Copy nat nat

fun enc_tok :: "nat \<Rightarrow> token \<Rightarrow> u8 list" where
  "enc_tok lvl (Lits bs) = of_nat (length bs - 1) # bs"
| "enc_tok lvl (Copy n d) = encode_match lvl (n - 2) (d - 1)"

fun app_tok :: "u8 list \<Rightarrow> token \<Rightarrow> u8 list" where
  "app_tok out (Lits bs) = out @ bs"
| "app_tok out (Copy n d) = copy_bytes n (length out - d) out"

definition max_dist :: "nat \<Rightarrow> nat" where
  "max_dist lvl = (if lvl = 1 then 8192 else 8191 + 65536)"

fun valid_tok :: "nat \<Rightarrow> u8 list \<Rightarrow> token \<Rightarrow> bool" where
  "valid_tok lvl out (Lits bs) \<longleftrightarrow> 1 \<le> length bs \<and> length bs \<le> 32"
| "valid_tok lvl out (Copy n d) \<longleftrightarrow>
     3 \<le> n \<and> (lvl = 1 \<longrightarrow> n \<le> 264) \<and> 1 \<le> d \<and> d \<le> max_dist lvl \<and> d \<le> length out"

primrec valid_toks :: "nat \<Rightarrow> u8 list \<Rightarrow> token list \<Rightarrow> bool" where
  "valid_toks lvl out [] = True"
| "valid_toks lvl out (t # ts) \<longleftrightarrow> valid_tok lvl out t \<and> valid_toks lvl (app_tok out t) ts"

definition enc_toks :: "nat \<Rightarrow> token list \<Rightarrow> u8 list" where
  "enc_toks lvl ts = concat (map (enc_tok lvl) ts)"

definition app_toks :: "u8 list \<Rightarrow> token list \<Rightarrow> u8 list" where
  "app_toks out ts = foldl app_tok out ts"

lemma toks_simps [simp]:
  "enc_toks lvl [] = []" "enc_toks lvl (t # ts) = enc_tok lvl t @ enc_toks lvl ts"
  "enc_toks lvl (ts @ us) = enc_toks lvl ts @ enc_toks lvl us"
  "app_toks out [] = out" "app_toks out (t # ts) = app_toks (app_tok out t) ts"
  "app_toks out (ts @ us) = app_toks (app_toks out ts) us"
  by (simp_all add: enc_toks_def app_toks_def)

lemma valid_toks_append:
  "valid_toks lvl out (ts @ us) \<longleftrightarrow> valid_toks lvl out ts \<and> valid_toks lvl (app_toks out ts) us"
  by (induction ts arbitrary: out) auto

lemma copy_bytes_length [simp]: "length (copy_bytes n ref out) = length out + n"
  by (induction n arbitrary: ref out) auto

lemma copy_bytes_add: "copy_bytes (m + n) ref out = copy_bytes n (ref + m) (copy_bytes m ref out)"
  by (induction m arbitrary: ref out) auto

lemma app_tok_length: "length out \<le> length (app_tok out t)"
  by (cases t) auto

lemma app_toks_length: "length out \<le> length (app_toks out ts)"
  by (induction ts arbitrary: out) (auto intro: order_trans [OF app_tok_length])

section \<open>The 16-bit copy\<close>

lemma copy_words_bytes: "ref + 1 < length out \<Longrightarrow> copy_words n ref out = copy_bytes (2 * n) ref out"
proof (induction n arbitrary: ref out)
  case (Suc n)
  have "copy_words (Suc n) ref out = copy_bytes (2 * n) (ref + 2) (out @ [out ! ref, out ! (ref + 1)])"
    using Suc.prems Suc.IH [of "ref + 2" "out @ [out ! ref, out ! (ref + 1)]"] by simp
  also have "\<dots> = copy_bytes (2 * Suc n) ref out"
    using Suc.prems by (simp add: nth_append)
  finally show ?case .
qed simp

lemma copy_match_bytes:
  assumes "ref + 1 < length out" shows "copy_match ref len out = copy_bytes (3 + len) ref out"
proof (cases "odd len")
  case True
  then obtain k where k: "len = 2 * k + 1" by (elim oddE)
  have "copy_match ref len out = copy_words k (ref + 3 + 1) (copy_bytes 1 (ref + 3) (copy_bytes 3 ref out))"
    by (simp add: copy_match_def k Let_def)
  also have "\<dots> = copy_bytes (2 * k) (ref + 4) (copy_bytes 4 ref out)"
    using assms copy_bytes_add [of 3 1 ref out] by (simp add: copy_words_bytes add.commute)
  also have "\<dots> = copy_bytes (3 + len) ref out"
    using copy_bytes_add [of 4 "2 * k" ref out] by (simp add: k add.commute)
  finally show ?thesis .
next
  case False
  then obtain k where k: "len = 2 * k" by (auto elim: evenE)
  have "copy_match ref len out = copy_words k (ref + 3) (copy_bytes 3 ref out)"
    by (simp add: copy_match_def k Let_def)
  also have "\<dots> = copy_bytes (2 * k) (ref + 3) (copy_bytes 3 ref out)"
    using assms by (simp add: copy_words_bytes)
  also have "\<dots> = copy_bytes (3 + len) ref out" using copy_bytes_add [of 3 "2 * k" ref out] by (simp add: k)
  finally show ?thesis .
qed

lemma copy_run: "out \<noteq> [] \<Longrightarrow> copy_bytes n (length out - 1) out = out @ replicate n (last out)"
proof (induction n arbitrary: out)
  case (Suc n)
  have "copy_bytes (Suc n) (length out - 1) out = copy_bytes n (length (out @ [last out]) - 1) (out @ [last out])"
    using Suc.prems by (simp add: last_conv_nth)
  also have "\<dots> = (out @ [last out]) @ replicate n (last out)"
    by (subst Suc.IH) simp_all
  finally show ?case using Suc.prems by (simp add: replicate_append_same)
qed simp

text \<open>The three ways of copying agree: whichever the code takes, it copies byte after byte.\<close>

lemma copy_any:
  assumes "1 \<le> d" "d \<le> length out"
  shows "(if d = 1 then out @ replicate (3 + len) (last out) else copy_match (length out - d) len out) =
    copy_bytes (3 + len) (length out - d) out"
proof (cases "d = 1")
  case True
  moreover have "out \<noteq> []" using assms by auto
  ultimately show ?thesis using copy_run [of out "3 + len"] by simp
next
  case False
  then show ?thesis using assms by (simp add: copy_match_bytes)
qed

text \<open>Pointers into the output, as long as they do not wrap.\<close>

lemma unat_ptr: "unat base + k < 2 ^ 32 \<Longrightarrow> unat (base + of_nat k) = unat base + k" for base :: u32
  by (simp add: unat_word_ariths unsigned_of_nat take_bit_nat_eq_self)

lemma ptr_less:
  fixes base :: u32
  assumes "unat base + j < 2 ^ 32" "unat base + k < 2 ^ 32"
  shows "base + of_nat j < base + of_nat k \<longleftrightarrow> j < k" "base + of_nat j = base + of_nat k \<longleftrightarrow> j = k"
  using unat_ptr [OF assms(1)] unat_ptr [OF assms(2)] by (simp_all add: word_less_nat_alt word_unat_eq_iff)

lemma ptr_match:
  fixes base :: u32
  assumes "unat base + k < 2 ^ 32" "1 \<le> d" "d \<le> k"
  defines "ref \<equiv> base + of_nat k - of_nat d + 1"
  shows "\<not> ref - 1 < base" "unat (ref - 1 - base) = k - d" "ref = base + of_nat k \<longleftrightarrow> d = 1"
proof -
  have r: "ref - 1 = base + of_nat (k - d)" using assms(3) by (simp add: ref_def of_nat_diff)
  have lt: "unat base + (k - d) < 2 ^ 32" using assms(1) by simp
  show "\<not> ref - 1 < base" using unat_ptr [OF lt] unfolding r by (simp add: word_less_nat_alt del: of_nat_diff)
  have "ref - 1 - base = of_nat (k - d)" unfolding r by (simp del: of_nat_diff)
  then show "unat (ref - 1 - base) = k - d" using lt by (simp add: unsigned_of_nat take_bit_nat_eq_self del: of_nat_diff)
  have "d < 2 ^ 32" using assms(1,3) by simp
  then have "unat (of_nat d :: u32) = d" by (simp add: unsigned_of_nat take_bit_nat_eq_self)
  moreover have "ref = base + of_nat k \<longleftrightarrow> of_nat d = (1 :: u32)" by (auto simp: ref_def algebra_simps)
  ultimately show "ref = base + of_nat k \<longleftrightarrow> d = 1" by (auto simp: word_unat_eq_iff)
qed

section \<open>Decoding a token\<close>

lemma drop_Cons: "drop i xs = y # ys \<Longrightarrow> rd xs i = Some y \<and> drop (Suc i) xs = ys \<and> i < length xs"
proof -
  assume a: "drop i xs = y # ys"
  then have "i < length xs" by (metis drop_all leI list.distinct(1))
  then show ?thesis using a Cons_nth_drop_Suc [of i xs] by (simp add: rd_def)
qed

lemma read_len_encode:
  "drop ip inp = encode_len k @ rest \<Longrightarrow>
    read_len inp ip len = Some (ip + length (encode_len k), len + of_nat k)"
proof (induction k arbitrary: ip len rule: encode_len.induct)
  case (1 k)
  show ?case
  proof (cases "255 \<le> k")
    case True
    then have e: "encode_len k = 255 # encode_len (k - 255)" by (subst encode_len.simps) simp
    then have d: "rd inp ip = Some 255" "drop (Suc ip) inp = encode_len (k - 255) @ rest"
      using 1(2) drop_Cons [of ip inp 255] by auto
    show ?thesis using True "1.IH" [OF True d(2), of "len + 255"] d(1)
      by (subst read_len.simps) (simp add: e of_nat_diff)
  next
    case False
    then have e: "encode_len k = [of_nat k]" by (subst encode_len.simps) simp
    then have d: "rd inp ip = Some (of_nat k)" using 1(2) drop_Cons [of ip inp "of_nat k"] by auto
    have "unat (of_nat k :: u8) = k" using False by (simp add: unsigned_of_nat take_bit_nat_eq_self)
    moreover from this False have "(of_nat k :: u8) \<noteq> 255" by auto
    moreover have "ucast (of_nat k :: u8) = (of_nat k :: u32)" using False by (simp add: unsigned_of_nat take_bit_nat_eq_self)
    ultimately show ?thesis using d by (subst read_len.simps) (simp add: e del: of_nat_unat)
  qed
qed

lemma unat_byte: "k < 256 \<Longrightarrow> unat (of_nat k :: u8) = k"
  by (simp add: unsigned_of_nat take_bit_nat_eq_self)

lemma and_mod_nat: "(k :: nat) AND 31 = k mod 32" "k AND 255 = k mod 256"
proof -
  have "k AND mask 5 = k mod 2 ^ 5" "k AND mask 8 = k mod 2 ^ 8"
    by (simp_all only: take_bit_eq_mask [symmetric] take_bit_eq_mod)
  moreover have "(mask 5 :: nat) = 31" "(mask 8 :: nat) = 255" by (simp_all add: mask_eq_exp_minus_1)
  ultimately show "k AND 31 = k mod 32" "k AND 255 = k mod 256" by simp_all
qed

text \<open>The first byte of a match holds the length in its high and the distance in its low bits.\<close>

lemma match_head_parts:
  assumes "l \<le> 7" "1 \<le> l" "d < 8192"
  shows "32 \<le> unat (match_head l d)" "drop_bit 5 (unat (match_head l d)) = l"
    "unat (match_head l d) AND 31 = d div 256"
proof -
  have h: "d div 256 < 32" using assms(3) by simp
  have "l * 32 + d div 256 < 256" using assms(1) h by simp
  then have u: "unat (match_head l d) = l * 32 + d div 256"
    by (simp add: match_head_def push_bit_eq_mult drop_bit_eq_div unat_byte del: of_nat_add of_nat_mult)
  then show "32 \<le> unat (match_head l d)" using assms(2) by simp
  show "drop_bit 5 (unat (match_head l d)) = l" using u h by (simp add: drop_bit_eq_div)
  show "unat (match_head l d) AND 31 = d div 256" using u h by (simp add: and_mod_nat)
qed

lemma low_byte: "unat (of_nat (d AND 255) :: u8) = d mod 256"
  by (simp add: unat_byte and_mod_nat del: of_nat_mod)

lemma byte_u32: "k < 256 \<Longrightarrow> ucast (of_nat k :: u8) = (of_nat k :: u32)"
  by (simp add: unsigned_of_nat take_bit_nat_eq_self)

lemma low_byte_u32: "ucast (of_nat (d AND 255) :: u8) = (of_nat (d mod 256) :: u32)"
  unfolding and_mod_nat by (rule byte_u32) simp

lemma back_u32:
  assumes "1 \<le> d"
  shows "op - of_nat ((d - 1) div 256 * 256) - of_nat ((d - 1) mod 256) = op - of_nat d + (1 :: u32)"
proof -
  have "of_nat ((d - 1) div 256 * 256) + of_nat ((d - 1) mod 256) = (of_nat (d - 1) :: u32)"
    unfolding of_nat_add [symmetric] by (simp only: div_mult_mod_eq)
  then have "op - of_nat ((d - 1) div 256 * 256) - of_nat ((d - 1) mod 256) = op - (of_nat (d - 1) :: u32)"
    by (simp only: diff_diff_eq)
  then show ?thesis using assms by (simp add: of_nat_diff)
qed

lemma far_head: "l \<le> 7 \<Longrightarrow> (of_nat (push_bit 5 l + 31) :: u8) = match_head l 8191"
  by (simp add: match_head_def drop_bit_eq_div)

text \<open>Reading back what the compressor wrote for a match of \<open>n\<close> bytes at distance \<open>d\<close>.\<close>

lemma read_match1:
  assumes "3 \<le> n" "n \<le> 264" "1 \<le> d" "d \<le> 8192" "encode1 (n - 2) (d - 1) = c # body"
    "drop ip inp = body @ rest"
  shows "32 \<le> unat c \<and> read_match 1 inp (unat c) ip op = Some (op - of_nat d + 1, of_nat (n - 3), ip + length body)"
proof -
  define l where "l = (if n - 2 < 7 then n - 2 else 7)"
  have l: "l \<le> 7" "1 \<le> l" using assms(1) by (auto simp: l_def)
  have dd: "d div 256 * 256 + d mod 256 = d" for d :: nat by simp
  have e: "encode1 (n - 2) (d - 1) = match_head l (d - 1) #
      (if n - 2 < 7 then [] else [of_nat (n - 9)]) @ [of_nat ((d - 1) AND 255)]"
    using assms(2) by (subst encode1.simps) (auto simp: l_def MAX_LEN_def)
  then have cb: "c = match_head l (d - 1)"
      "body = (if n - 2 < 7 then [] else [of_nat (n - 9)]) @ [of_nat ((d - 1) AND 255)]" using assms(5) by auto
  note hp = match_head_parts [OF l, of "d - 1"]
  have d1: "d - 1 < 8192" using assms(3,4) by simp
  note fin = back_u32 [OF assms(3), of op]
  show ?thesis
  proof (cases "n - 2 < 7")
    case True
    then have r: "rd inp ip = Some (of_nat ((d - 1) AND 255))"
      using assms(6) drop_Cons [of ip inp] by (auto simp: cb)
    have l6: "l - 1 \<noteq> 6" "l - 1 = n - 3" using True by (auto simp: l_def)
    then show ?thesis
      using hp d1 r fin True by (simp add: read_match_def cb(1) low_byte_u32 push_bit_eq_mult cb(2) Let_def
          del: of_nat_and_eq of_nat_unat of_nat_diff of_nat_mult)
  next
    case False
    then have r: "rd inp ip = Some (of_nat (n - 9))" "rd inp (Suc ip) = Some (of_nat ((d - 1) AND 255))"
      using assms(6) drop_Cons [of ip inp] drop_Cons [of "Suc ip" inp] by (auto simp: cb)
    have l6: "l = 7" "n - 9 < 256" "6 + (n - 9) = n - 3" using False assms(2) by (auto simp: l_def)
    have add6: "6 + of_nat (n - 9) = (of_nat (n - 3) :: u32)"
      using arg_cong [OF l6(3), of "of_nat :: nat \<Rightarrow> u32"] by (simp del: of_nat_diff)
    show ?thesis
      using hp d1 r fin False l6
      by (simp add: read_match_def cb(1) low_byte_u32 byte_u32 push_bit_eq_mult cb(2) Let_def
          del: of_nat_and_eq of_nat_diff of_nat_unat of_nat_mult) (simp only: add6)
  qed
qed

lemma read_match2:
  assumes "3 \<le> n" "1 \<le> d" "d \<le> 8191 + 65536" "encode2 (n - 2) (d - 1) = c # body"
    "drop ip inp = body @ rest"
  shows "32 \<le> unat c \<and> read_match 2 inp (unat c) ip op = Some (op - of_nat d + 1, of_nat (n - 3), ip + length body)"
proof -
  define l where "l = (if n - 2 < 7 then n - 2 else 7)"
  define b where "b = (if d - 1 < 8191 then d - 1 else 8191)"
  define lens where "lens = (if n - 2 < 7 then [] else encode_len (n - 9))"
  define tls :: "u8 list" where "tls = (if d - 1 < 8191 then [of_nat ((d - 1) AND 255)]
    else 255 # [of_nat (drop_bit 8 (d - 1 - 8191)), of_nat ((d - 1 - 8191) AND 255)])"
  have l: "l \<le> 7" "1 \<le> l" using assms(1) by (auto simp: l_def)
  have cb: "c = match_head l b" "body = lens @ tls"
    using assms(4) by (auto simp: encode2_def MAX_DISTANCE_def l_def b_def lens_def tls_def far_head [symmetric]
      match_head_def drop_bit_eq_div Let_def split: if_splits)
  have b: "b < 8192" by (simp add: b_def)
  note hp = match_head_parts [OF l b]
  have one_neq_2: "((2 :: nat) = 1) = False" by simp
  have len: "(if l - 1 = 6 then read_len inp ip (of_nat (l - 1)) else Some (ip, of_nat (l - 1))) =
      Some (ip + length lens, of_nat (n - 3))"
  proof (cases "n - 2 < 7")
    case False
    then have "l = 7" "lens = encode_len (n - 9)" "6 + (n - 9) = n - 3" by (auto simp: l_def lens_def)
    moreover from this(3) have "6 + of_nat (n - 9) = (of_nat (n - 3) :: u32)"
      by (metis of_nat_add of_nat_numeral)
    ultimately show ?thesis using read_len_encode [of ip inp "n - 9" "tls @ rest" 6] assms(5)
      by (simp add: cb(2) del: of_nat_diff)
  qed (auto simp: l_def lens_def numeral_3_eq_3 simp del: of_nat_diff)
  have rm: "read_match 2 inp (unat c) ip op = do {
      code \<leftarrow> rd inp (ip + length lens);
      if code = 255 \<and> push_bit 8 (b div 256) = push_bit 8 (31 :: nat) then do {
        hi \<leftarrow> rd inp (ip + length lens + 1);
        lo \<leftarrow> rd inp (ip + length lens + 2);
        Some (op - (push_bit 8 (ucast hi) + ucast lo) - of_nat (MAX_DISTANCE 2), of_nat (n - 3), ip + length lens + 3)
      }
      else Some (op - of_nat (push_bit 8 (b div 256)) - ucast code, of_nat (n - 3), ip + length lens + 1)
    }"
    unfolding read_match_def cb(1) hp(2,3) Let_def by (simp only: one_neq_2 if_False len) (simp del: of_nat_unat of_nat_diff)
  have dr: "drop (ip + length lens) inp = tls @ rest"
    using arg_cong [OF assms(5), of "drop (length lens)"] by (simp add: cb(2) add.commute)
  show ?thesis
  proof (cases "d - 1 < 8191")
    case True
    then have r: "rd inp (ip + length lens) = Some (of_nat ((d - 1) AND 255))"
      using dr drop_Cons by (fastforce simp: tls_def)
    have nf: "\<not> ((of_nat ((d - 1) AND 255) :: u8) = 255 \<and> push_bit 8 ((d - 1) div 256) = push_bit 8 (31 :: nat))"
    proof
      assume a: "(of_nat ((d - 1) AND 255) :: u8) = 255 \<and> push_bit 8 ((d - 1) div 256) = push_bit 8 (31 :: nat)"
      then have "unat (of_nat ((d - 1) AND 255) :: u8) = 255" by simp
      then have "(d - 1) mod 256 = 255" by (simp only: low_byte)
      moreover have "(d - 1) div 256 = 31" using a by (simp add: push_bit_eq_mult)
      ultimately have "d - 1 = 31 * 256 + 255" using div_mult_mod_eq [of "d - 1" 256] by simp
      then show False using True by simp
    qed
    show ?thesis
      using hp(1) r nf True back_u32 [OF assms(2), of op] unfolding rm
      by (simp add: cb b_def low_byte_u32 push_bit_eq_mult tls_def del: of_nat_and_eq of_nat_unat of_nat_diff of_nat_mult) blast
  next
    case False
    let ?e = "d - 1 - 8191"
    have r: "rd inp (ip + length lens) = Some 255" "rd inp (ip + length lens + 1) = Some (of_nat (drop_bit 8 ?e))"
        "rd inp (ip + length lens + 2) = Some (of_nat (?e AND 255))"
      using dr drop_Cons [of "ip + length lens" inp] drop_Cons [of "Suc (ip + length lens)" inp]
        drop_Cons [of "Suc (Suc (ip + length lens))" inp] False by (auto simp: tls_def)
    have e: "?e div 256 < 256" using assms(3) by simp
    have d8: "d - 1 - 8191 = d - 8192" by simp
    have e8: "push_bit 8 (ucast (of_nat (drop_bit 8 ?e) :: u8)) = (of_nat (?e div 256 * 256) :: u32)"
      using byte_u32 [of "?e div 256"] e by (simp add: drop_bit_eq_div push_bit_eq_mult)
    have "of_nat (?e div 256 * 256) + of_nat (?e mod 256) = (of_nat ?e :: u32)"
      unfolding of_nat_add [symmetric] by (simp only: div_mult_mod_eq)
    moreover have "of_nat ?e + 8191 = (of_nat d - 1 :: u32)"
    proof -
      have "?e + 8191 + 1 = d" using False by simp
      then have "of_nat (?e + 8191 + 1) = (of_nat d :: u32)" by (simp only:)
      then show ?thesis by (simp only: of_nat_add of_nat_1 of_nat_numeral) (simp add: algebra_simps del: of_nat_diff)
    qed
    ultimately have fin: "op - (of_nat (?e div 256 * 256) + of_nat (?e mod 256)) - 8191 = op - of_nat d + (1 :: u32)"
      by (simp only: diff_diff_eq) simp
    show ?thesis
      using hp(1) r False fin unfolding rm
      by (simp add: cb b_def push_bit_eq_mult [of 8 "31 :: nat"] tls_def MAX_DISTANCE_def e8 [unfolded d8] low_byte_u32
        del: of_nat_and_eq of_nat_unat of_nat_add of_nat_mult of_nat_diff)
  qed
qed

lemma enc_tok_Cons: "\<exists>c body. enc_tok lvl t = c # body"
  by (cases t; cases "enc_tok lvl t")
    (auto simp: encode_match_def encode2_def encode1.simps [of "_ - 2"] Let_def split: if_splits)

text \<open>The control byte for the next token, or the end of the input.\<close>

definition next_step :: "u8 list \<Rightarrow> nat \<Rightarrow> nat \<Rightarrow> u8 list \<Rightarrow> lzd" where
  "next_step inp n ip out = (if ip < n then Go (unat (inp ! ip)) (ip + 1) out else Stop out)"

lemma next_step_rd:
  "n \<le> length inp \<Longrightarrow>
    (if ip < n then do { c \<leftarrow> rd inp ip; Some (Go (unat c) (ip + 1) out) } else Some (Stop out)) =
    Some (next_step inp n ip out)"
  by (simp add: next_step_def rd_def)

lemma decompress_step_token:
  assumes "lvl = 1 \<or> lvl = 2" "valid_tok lvl out t" "enc_tok lvl t = c # body" "drop ip inp = body @ rest"
    "length (app_tok out t) \<le> maxout" "ip + length body \<le> n" "n \<le> length inp" "unat base + maxout < 2 ^ 32"
  shows "decompress_step lvl inp n base maxout (unat c) ip out =
    Some (next_step inp n (ip + length body) (app_tok out t))"
proof (cases t)
  case (Lits bs)
  then have ce: "c = of_nat (length bs - 1)" and b: "body = bs" and bs: "1 \<le> length bs" "length bs \<le> 32"
    using assms(2,3) by auto
  have c: "unat c = length bs - 1" unfolding ce by (rule unat_byte) (use bs in simp)
  have c1: "unat c + 1 = length bs" and c32: "\<not> 32 \<le> unat c" using c bs by simp_all
  have le: "length out + length bs \<le> maxout" using assms(5) by (simp add: Lits)
  have "base + of_nat (length out) + of_nat (length bs) = base + of_nat (length out + length bs)" by simp
  moreover have "\<not> base + of_nat maxout < base + of_nat (length out + length bs)"
    using ptr_less(1) [of base maxout "length out + length bs"] assms(8) le by (simp del: of_nat_add)
  ultimately have op: "\<not> base + of_nat maxout < base + of_nat (length out) + of_nat (length bs)" by (simp only:) simp
  have "take (length bs) (drop ip inp) = bs" using assms(4) by (simp add: b)
  then show ?thesis
    using op assms(6,7) c32 unfolding decompress_step_def next_step_rd [OF assms(7)] Let_def c1 by (simp add: Lits b)
next
  case (Copy m d)
  then have v: "3 \<le> m" "lvl = 1 \<longrightarrow> m \<le> 264" "1 \<le> d" "d \<le> max_dist lvl" "d \<le> length out"
    and e: "encode_match lvl (m - 2) (d - 1) = c # body" using assms(2,3) by simp_all
  let ?op = "base + of_nat (length out)"
  have r: "32 \<le> unat c" "read_match lvl inp (unat c) ip ?op =
      Some (?op - of_nat d + 1, of_nat (m - 3), ip + length body)"
    using assms(1) read_match1 [of m d c body ip inp rest] read_match2 [of m d c body ip inp rest] v e assms(4)
    by (auto simp: encode_match_def max_dist_def)
  have m: "3 + (m - 3) = m" using v(1) by simp
  have le: "length out + m \<le> maxout" using assms(5) Copy by simp
  have mu: "unat (of_nat (m - 3) :: u32) = m - 3"
    using le assms(8) by (simp add: unsigned_of_nat take_bit_nat_eq_self del: of_nat_diff)
  have "?op + of_nat (m - 3) + 3 = base + of_nat (length out + m)"
    using v(1) by (simp add: of_nat_diff algebra_simps)
  moreover have "\<not> base + of_nat maxout < base + of_nat (length out + m)"
    using ptr_less(1) [of base maxout "length out + m"] assms(8) le by (simp del: of_nat_add)
  ultimately have ov: "\<not> base + of_nat maxout < ?op + of_nat (m - 3) + 3" by (simp only:) simp
  have "unat base + length out < 2 ^ 32" using le assms(8) by simp
  note pm = ptr_match [OF this v(3,5)]
  have lo: "\<not> length out \<le> length out - d" using v(3,5) by simp
  show ?thesis
    using r(1) ov copy_any [OF v(3,5), of "m - 3"]
    unfolding decompress_step_def r(2) Option.bind.simps prod.case next_step_rd [OF assms(7)] Let_def pm(2,3) mu
    by (simp only: ov pm(1) lo if_False if_True r(1)) (simp only: Copy app_tok.simps m)
qed

lemma decompress_loop_tokens:
  assumes "lvl = 1 \<or> lvl = 2" "n \<le> length inp" "unat base + maxout < 2 ^ 32"
  shows "valid_toks lvl out (t # ts) \<Longrightarrow> enc_tok lvl t = c # body \<Longrightarrow>
    drop ip inp = body @ enc_toks lvl ts @ rest \<Longrightarrow>
    length (app_toks out (t # ts)) \<le> maxout \<Longrightarrow> ip + length (body @ enc_toks lvl ts) \<le> n \<Longrightarrow>
    decompress_loop lvl inp n base maxout (unat c) ip out =
      (case next_step inp n (ip + length (body @ enc_toks lvl ts)) (app_toks out (t # ts)) of
         Err \<Rightarrow> None
       | Stop out \<Rightarrow> Some (length out, out)
       | Go c ip out \<Rightarrow> decompress_loop lvl inp n base maxout c ip out)"
proof (induction ts arbitrary: out t c body ip)
  case Nil
  have "decompress_step lvl inp n base maxout (unat c) ip out = Some (next_step inp n (ip + length body) (app_tok out t))"
    using decompress_step_token [OF assms(1) _ Nil.prems(2) _ _ _ assms(2,3)] Nil.prems by simp
  then show ?case by (subst decompress_loop.simps) (simp add: next_step_def)
next
  case (Cons u us)
  obtain c' body' where e: "enc_tok lvl u = c' # body'"
    using enc_tok_Cons [of lvl u] by blast
  have d: "drop (ip + length body) inp = c' # body' @ enc_toks lvl us @ rest"
    using arg_cong [OF Cons.prems(3), of "drop (length body)"] e by (simp add: add.commute)
  have le: "length (app_tok out t) \<le> maxout"
    using Cons.prems(4) app_toks_length [of "app_tok out t" "u # us"] by simp
  have "decompress_step lvl inp n base maxout (unat c) ip out = Some (Go (unat c') (Suc (ip + length body)) (app_tok out t))"
    using decompress_step_token [OF assms(1) _ Cons.prems(2) _ le _ assms(2,3)] Cons.prems(1,3,5) drop_Cons [OF d] e
    by (auto simp: next_step_def rd_def)
  then show ?case
    using Cons.IH [of "app_tok out t" u c' body' "Suc (ip + length body)"] Cons.prems(1,4,5) e drop_Cons [OF d]
    by (subst decompress_loop.simps) (simp add: add.assoc)
qed

section \<open>What the compressor finds\<close>

definition matched :: "u8 list \<Rightarrow> nat \<Rightarrow> nat \<Rightarrow> nat \<Rightarrow> bool" where
  "matched inp d a b \<longleftrightarrow> (\<forall>j. a \<le> j \<and> j < b \<longrightarrow> inp ! j = inp ! (j - d))"

lemma matched_Suc: "matched inp d a b \<Longrightarrow> inp ! b = inp ! (b - d) \<Longrightarrow> matched inp d a (Suc b)"
  by (auto simp: matched_def less_Suc_eq)

lemma matched_sub: "matched inp d a b \<Longrightarrow> a \<le> a' \<Longrightarrow> b' \<le> b \<Longrightarrow> matched inp d a' b'"
  by (auto simp: matched_def)

lemma copy_matched:
  "matched inp d a (a + n) \<Longrightarrow> 1 \<le> d \<Longrightarrow> d \<le> a \<Longrightarrow> a + n \<le> length inp \<Longrightarrow>
    copy_bytes n (a - d) (take a inp) = take (a + n) inp"
proof (induction n arbitrary: a)
  case (Suc n)
  have "take a inp ! (a - d) = inp ! a" using Suc.prems by (simp add: matched_def)
  then have "copy_bytes (Suc n) (a - d) (take a inp) = copy_bytes n (Suc a - d) (take (Suc a) inp)"
    using Suc.prems by (simp add: take_Suc_conv_app_nth Suc_diff_le)
  then show ?case using Suc.IH [of "Suc a"] Suc.prems matched_sub [of inp d a "a + Suc n" "Suc a"] by simp
qed simp

lemma same_bytes_ok:
  "ref + k \<le> length inp \<Longrightarrow> ip + k \<le> length inp \<Longrightarrow>
    same_bytes inp ref ip k = Some (\<forall>j < k. inp ! (ref + j) = inp ! (ip + j))"
  by (induction k arbitrary: ref ip) (auto simp: rd_def less_Suc_eq_0_disj)

lemma run_scan_ok:
  "ip \<le> bound \<Longrightarrow> bound \<le> length inp \<Longrightarrow> matched inp 1 a (ip - 1) \<Longrightarrow> inp ! (ip - 2) = x \<Longrightarrow> 2 \<le> ip \<Longrightarrow>
    \<exists>ip'. run_scan inp bound x (ip - 1) ip = Some ip' \<and> ip \<le> ip' \<and> ip' \<le> bound \<and> matched inp 1 a (ip' - 1) \<and>
      (ip < bound \<and> inp ! (ip - 1) = x \<longrightarrow> ip < ip')"
proof (induction "bound - ip" arbitrary: ip)
  case 0
  then show ?case by (subst run_scan.simps) auto
next
  case (Suc m)
  show ?case
  proof (cases "inp ! (ip - 1) = x")
    case True
    have "matched inp 1 a (Suc ip - 1)"
      using matched_Suc [of inp 1 a "ip - 1"] Suc.prems True by (simp add: numeral_2_eq_2)
    moreover have m: "m = bound - Suc ip" "Suc ip \<le> bound" using Suc.hyps(2) by simp_all
    ultimately obtain ip' where "run_scan inp bound x ip (Suc ip) = Some ip'" "Suc ip \<le> ip'" "ip' \<le> bound"
        "matched inp 1 a (ip' - 1)"
      using Suc.hyps(1) [OF m(1)] Suc.prems True by (auto simp: numeral_2_eq_2)
    then show ?thesis using True m Suc.prems by (subst run_scan.simps) (auto simp: rd_def)
  next
    case False
    then show ?thesis using Suc.hyps(2) Suc.prems by (subst run_scan.simps) (auto simp: rd_def)
  qed
qed

lemma unrolled_scan_ok:
  "matched inp d a ip \<Longrightarrow> 1 \<le> d \<Longrightarrow> d \<le> ip \<Longrightarrow> ip + k \<le> length inp \<Longrightarrow>
    \<exists>go ref' ip'. unrolled_scan inp k (ip - d) ip = Some (go, ref', ip') \<and> ip' \<le> ip + k \<and>
      (go \<longrightarrow> ref' = ip' - d \<and> ip' = ip + k \<and> matched inp d a ip') \<and>
      (\<not> go \<longrightarrow> ip < ip' \<and> matched inp d a (ip' - 1))"
proof (induction k arbitrary: ip)
  case (Suc k)
  show ?case
  proof (cases "inp ! (ip - d) = inp ! ip")
    case True
    then have "matched inp d a (Suc ip)" using matched_Suc [of inp d a ip] Suc.prems by simp
    then obtain go ref' ip' where r: "unrolled_scan inp k (Suc ip - d) (Suc ip) = Some (go, ref', ip')"
        "ip' \<le> Suc ip + k" "go \<longrightarrow> ref' = ip' - d \<and> ip' = Suc ip + k \<and> matched inp d a ip'"
        "\<not> go \<longrightarrow> Suc ip < ip' \<and> matched inp d a (ip' - 1)"
      using Suc.IH [of "Suc ip"] Suc.prems by auto
    have "unrolled_scan inp (Suc k) (ip - d) ip = Some (go, ref', ip')"
      using r(1) Suc.prems True by (simp add: rd_def Suc_diff_le)
    then show ?thesis using r(2-4) by auto
  next
    case False
    then have "unrolled_scan inp (Suc k) (ip - d) ip = Some (False, Suc (ip - d), Suc ip)"
      using Suc.prems by (simp add: rd_def)
    then show ?thesis using Suc.prems by auto
  qed
qed auto

lemma tail_scan_ok:
  "matched inp d a ip \<Longrightarrow> 1 \<le> d \<Longrightarrow> d \<le> ip \<Longrightarrow> ip \<le> bound \<Longrightarrow> bound \<le> length inp \<Longrightarrow>
    \<exists>ip'. tail_scan inp bound (ip - d) ip = Some ip' \<and> ip \<le> ip' \<and> ip' \<le> bound \<and> matched inp d a (ip' - 1)"
proof (induction "bound - ip" arbitrary: ip)
  case 0
  then show ?case by (subst tail_scan.simps) (auto intro: matched_sub)
next
  case (Suc m)
  show ?case
  proof (cases "inp ! (ip - d) = inp ! ip")
    case True
    then have "matched inp d a (Suc ip)" using matched_Suc [of inp d a ip] Suc.prems by simp
    moreover have m: "m = bound - Suc ip" "Suc ip \<le> bound" using Suc.hyps(2) by simp_all
    ultimately obtain ip' where "tail_scan inp bound (Suc ip - d) (Suc ip) = Some ip'" "Suc ip \<le> ip'" "ip' \<le> bound"
        "matched inp d a (ip' - 1)"
      using Suc.hyps(1) [OF m(1)] Suc.prems by auto
    then show ?thesis using True m Suc.prems by (subst tail_scan.simps) (auto simp: rd_def Suc_diff_le)
  next
    case False
    then show ?thesis using Suc.hyps(2) Suc.prems by (subst tail_scan.simps) (auto simp: rd_def)
  qed
qed

lemma match_scan_ok:
  assumes "matched inp d a ip" "1 \<le> d" "d \<le> a" "a + 3 \<le> ip" "ip \<le> bound" "bound \<le> length inp"
    "ip + 8 \<le> length inp" "d = 1 \<longrightarrow> ip < bound"
  shows "\<exists>ip'. match_scan inp bound (d - 1) (ip - d) ip = Some ip' \<and> ip < ip' \<and>
    ip' \<le> max bound (ip + 8) \<and> matched inp d a (ip' - 1)"
proof (cases "d = 1")
  case True
  have m: "inp ! (ip - 1) = inp ! (ip - 2)"
    using assms(1,4) True by (auto simp: matched_def numeral_2_eq_2)
  have "matched inp 1 a (ip - 1)" using assms(1) True by (auto intro: matched_sub)
  then obtain ip' where "run_scan inp bound (inp ! (ip - 1)) (ip - 1) ip = Some ip'" "ip' \<le> bound"
      "matched inp 1 a (ip' - 1)" "ip < ip'"
    using run_scan_ok [of ip bound inp a "inp ! (ip - 1)"] assms m True by auto
  then show ?thesis using True assms(4-6) by (auto simp: match_scan_def rd_def)
next
  case False
  obtain go ref' ip' where u: "unrolled_scan inp 8 (ip - d) ip = Some (go, ref', ip')" "ip' \<le> ip + 8"
      "go \<longrightarrow> ref' = ip' - d \<and> ip' = ip + 8 \<and> matched inp d a ip'"
      "\<not> go \<longrightarrow> ip < ip' \<and> matched inp d a (ip' - 1)"
    using unrolled_scan_ok [of inp d a ip 8] assms by auto
  show ?thesis
  proof (cases go)
    case True
    show ?thesis
    proof (cases "ip' \<le> bound")
      case le: True
      then obtain ip'' where "tail_scan inp bound (ip' - d) ip' = Some ip''" "ip' \<le> ip''" "ip'' \<le> bound"
          "matched inp d a (ip'' - 1)"
        using tail_scan_ok [of inp d a ip' bound] u(3) True assms(2-6) by auto
      then show ?thesis using u True False assms(2) by (auto simp: match_scan_def)
    next
      case gt: False
      have "matched inp d a (ip' - 1)" using u(3) True by (auto intro: matched_sub)
      then show ?thesis using u True False gt assms(2) by (auto simp: match_scan_def tail_scan.simps)
    qed
  next
    case f: False
    then show ?thesis using u False assms(2) by (auto simp: match_scan_def)
  qed
qed

lemma HASH_FUNCTION_ok: "p + 2 < length inp \<Longrightarrow> \<exists>h. HASH_FUNCTION inp p = Some h"
  by (simp add: HASH_FUNCTION_def READU16_def rd_def)

lemma matched_of_same: "\<forall>j < k. inp ! (ref + j) = inp ! (a + j) \<Longrightarrow> d = a - ref \<Longrightarrow> ref \<le> a \<Longrightarrow> matched inp d a (a + k)"
  unfolding matched_def
proof safe
  fix j assume a: "\<forall>j < k. inp ! (ref + j) = inp ! (a + j)" "d = a - ref" "ref \<le> a" "a \<le> j" "j < a + k"
  then have "j - a < k" by simp
  then have "inp ! (ref + (j - a)) = inp ! (a + (j - a))" using a(1) by blast
  then show "inp ! j = inp ! (j - (a - ref))" using a by (simp add: add.commute)
qed

lemma u16_split:
  fixes a b c e :: u8
  shows "(ucast a OR push_bit 8 (ucast b) :: u32) = ucast c OR push_bit 8 (ucast e) \<longleftrightarrow> a = c \<and> b = e"
proof
  assume h: "(ucast a OR push_bit 8 (ucast b) :: u32) = ucast c OR push_bit 8 (ucast e)"
  have na: "\<not> bit x (n + 8)" for x :: u8 and n by (auto dest: bit_imp_le_length)
  have "bit a n = bit c n" if "n < 8" for n
    using arg_cong [OF h, of "\<lambda>w. bit w n"] that by (simp add: bit_simps)
  moreover have "bit b n = bit e n" if "n < 8" for n
    using arg_cong [OF h, of "\<lambda>w. bit w (n + 8)"] that na by (simp add: bit_simps)
  ultimately show "a = c \<and> b = e" by (auto intro!: bit_word_eqI)
qed auto

text \<open>A match that the search reports is one: the bytes are equal and the distance is in range.\<close>

lemma find_match_ok:
  assumes "lvl = 1 \<or> lvl = 2" "2 \<le> a" "a + 12 < n" "n \<le> length inp" "\<forall>h. htab h < a"
  shows "\<exists>p htab'. find_match lvl inp htab a = Some (p, htab') \<and> (\<forall>h. htab' h \<le> a) \<and>
    (\<forall>ref d k. p = Match ref d k \<longrightarrow> 1 \<le> d \<and> d \<le> a \<and> d \<le> max_dist lvl \<and> ref = a + k - d \<and>
      matched inp d a (a + k) \<and> (k = 3 \<or> k = 5 \<and> lvl = 2) \<and> (lvl = 2 \<and> 8191 < d \<longrightarrow> k = 5) \<and> (d = 1 \<longrightarrow> k = 3))"
proof -
  obtain h where h: "HASH_FUNCTION inp a = Some h" using HASH_FUNCTION_ok [of a inp] assms(3,4) by auto
  obtain run where run: "(if lvl = 2 then run_check inp a else Some False) = Some run"
      "run \<longrightarrow> matched inp 1 a (a + 3)"
  proof (cases "lvl = 2 \<and> inp ! a = inp ! (a - 1)")
    case True
    have r: "rd inp i = Some (inp ! i)" if "i < a + 4" for i using that assms(3,4) by (simp add: rd_def)
    let ?run = "inp ! (a - 1) = inp ! (a + 1) \<and> inp ! a = inp ! (a + 2)"
    have "run_check inp a = Some ?run"
      using True assms(2) by (simp add: run_check_def READU16_def r u16_split)
    moreover have "?run \<longrightarrow> matched inp 1 a (a + 3)"
      using True by (auto simp: matched_def numeral_3_eq_3 numeral_2_eq_2 less_Suc_eq)
    ultimately show thesis using that [of ?run] True by simp
  next
    case False
    then have "(if lvl = 2 then run_check inp a else Some False) = Some False"
      using assms(2-4) by (auto simp: run_check_def rd_def)
    then show thesis using that [of False] by simp
  qed
  show ?thesis
  proof (cases run)
    case True
    then show ?thesis
      using run assms by (intro exI [of _ "Match (a - 1 + 3) 1 3"] exI [of _ htab])
        (auto simp: find_match_def max_dist_def less_imp_le)
  next
    case False
    define ref where "ref = htab h"
    define d where "d = a - ref"
    have ra: "ref < a" using assms(5) by (simp add: ref_def)
    have ht: "\<forall>k. (htab(h := a)) k \<le> a" using assms(5) by (auto simp: less_imp_le)
    define eq3 where "eq3 = (\<forall>j < 3. inp ! (ref + j) = inp ! (a + j))"
    define eq2 where "eq2 = (\<forall>j < 2. inp ! (ref + 3 + j) = inp ! (a + 3 + j))"
    have s3: "same_bytes inp ref a 3 = Some eq3"
      unfolding eq3_def using ra assms(3,4) by (intro same_bytes_ok) auto
    have s2: "same_bytes inp (ref + 3) (a + 3) 2 = Some eq2"
      unfolding eq2_def using ra assms(3,4) by (intro same_bytes_ok) auto
    have fm: "find_match lvl inp htab a = Some (
        if d = 0 \<or> (if lvl = 1 then MAX_DISTANCE 1 else MAX_FARDISTANCE) \<le> d \<or> \<not> eq3 then Literal
        else if lvl = 2 \<and> MAX_DISTANCE 2 \<le> d then (if eq2 then Match (ref + 5) d 5 else Literal)
        else Match (ref + 3) d 3, htab(h := a))"
      unfolding find_match_def run(1) Option.bind.simps h Let_def ref_def [symmetric] d_def [symmetric] s3 s2
      using False by simp
    have m5: "matched inp d a (a + 5)"
      if "eq3" "eq2"
    proof (rule matched_of_same [OF _ d_def less_imp_le [OF ra]], safe)
      fix j :: nat assume "j < 5"
      then have "j < 3 \<or> j = 3 + 0 \<or> j = 3 + 1" by auto
      then show "inp ! (ref + j) = inp ! (a + j)"
        using that(1) that(2) [unfolded eq2_def, rule_format, of 0] that(2) [unfolded eq2_def, rule_format, of 1]
        by (auto simp: add.commute eq3_def)
    qed
    have m3: "matched inp d a (a + 3)" if eq3
      using that d_def ra unfolding eq3_def by (intro matched_of_same) auto
    show ?thesis
      unfolding fm using ht m3 m5 ra assms(1)
      by (auto simp: d_def max_dist_def MAX_DISTANCE_def MAX_FARDISTANCE_def)
  qed
qed

section \<open>The compressor writes tokens\<close>

lemma length_encode_len: "length (encode_len k) = k div 255 + 1"
proof (induction k rule: encode_len.induct)
  case (1 k)
  then show ?case by (subst encode_len.simps) (auto simp: le_div_geq)
qed

lemma encode2_toks:
  assumes "matched inp d a (a + m)" "3 \<le> m" "1 \<le> d" "d \<le> max_dist 2" "d \<le> a" "a + m \<le> length inp"
    "8191 < d \<longrightarrow> 5 \<le> m"
  shows "\<exists>ts. ts \<noteq> [] \<and> valid_toks 2 (take a inp) ts \<and> app_toks (take a inp) ts = take (a + m) inp \<and>
    enc_toks 2 ts = encode2 (m - 2) (d - 1) \<and> length (encode2 (m - 2) (d - 1)) < m"
proof (intro exI conjI)
  show "app_toks (take a inp) [Copy m d] = take (a + m) inp"
    using copy_matched [OF assms(1,3,5,6)] assms(6) by (simp add: min_absorb2)
  show "length (encode2 (m - 2) (d - 1)) < m"
    using assms(2,7) by (auto simp: encode2_def MAX_DISTANCE_def length_encode_len Let_def)
qed (use assms in \<open>auto simp: encode_match_def\<close>)

lemma encode1_toks:
  assumes "1 \<le> d" "d \<le> max_dist 1"
  shows "matched inp d a (a + m) \<Longrightarrow> 3 \<le> m \<Longrightarrow> d \<le> a \<Longrightarrow> a + m \<le> length inp \<Longrightarrow>
    \<exists>ts. ts \<noteq> [] \<and> valid_toks 1 (take a inp) ts \<and> app_toks (take a inp) ts = take (a + m) inp \<and>
      enc_toks 1 ts = encode1 (m - 2) (d - 1) \<and> length (encode1 (m - 2) (d - 1)) < m"
proof (induction m arbitrary: a rule: less_induct)
  case (less m)
  show ?case
  proof (cases "m \<le> 264")
    case True
    have "app_toks (take a inp) [Copy m d] = take (a + m) inp"
      using copy_matched [OF less.prems(1) assms(1) less.prems(3,4)] less.prems(4) by (simp add: min_absorb2)
    moreover have "length (encode1 (m - 2) (d - 1)) < m"
      using less.prems(2) True by (subst encode1.simps) (auto simp: MAX_LEN_def)
    ultimately show ?thesis
      using assms less.prems True by (intro exI [of _ "[Copy m d]"]) (auto simp: encode_match_def)
  next
    case False
    have m2: "matched inp d a (a + 262)" "matched inp d (a + 262) (a + 262 + (m - 262))"
      using less.prems(1) False by (auto intro: matched_sub)
    have ap: "copy_bytes 262 (a - d) (take a inp) = take (a + 262) inp"
      using copy_matched [OF m2(1) assms(1) less.prems(3)] less.prems(4) False by simp
    obtain ts where ts: "ts \<noteq> []" "valid_toks 1 (take (a + 262) inp) ts"
        "app_toks (take (a + 262) inp) ts = take (a + m) inp"
        "enc_toks 1 ts = encode1 (m - 262 - 2) (d - 1)" "length (encode1 (m - 262 - 2) (d - 1)) < m - 262"
    proof -
      have "3 \<le> m - 262" using False by simp
      then show thesis using that less.IH [of "m - 262" "a + 262"] m2(2) less.prems False by auto
    qed
    have e1: "encode1 262 (d - 1) = enc_tok 1 (Copy 264 d)" by (simp add: encode_match_def)
    have en: "encode1 (m - 2) (d - 1) = enc_tok 1 (Copy 262 d) @ encode1 (m - 262 - 2) (d - 1)"
      using False by (subst encode1.simps)
        (simp add: encode_match_def encode1.simps [of 260] MAX_LEN_def match_head_def add.commute)
    have l3: "length (enc_tok 1 (Copy 262 d)) = 3"
      by (simp add: encode_match_def encode1.simps [of 260] MAX_LEN_def)
    show ?thesis
      using ts ap assms less.prems False en l3 by (intro exI [of _ "Copy 262 d # ts"]) (auto simp: min_absorb2)
  qed
qed

lemma encode_match_toks:
  assumes "lvl = 1 \<or> lvl = 2" "matched inp d a (a + m)" "3 \<le> m" "1 \<le> d" "d \<le> max_dist lvl" "d \<le> a"
    "a + m \<le> length inp" "lvl = 2 \<and> 8191 < d \<longrightarrow> 5 \<le> m"
  obtains ts where "ts \<noteq> []" "valid_toks lvl (take a inp) ts" "app_toks (take a inp) ts = take (a + m) inp"
    "enc_toks lvl ts = encode_match lvl (m - 2) (d - 1)" "length (enc_toks lvl ts) < m"
  using assms(1)
proof
  assume l: "lvl = 1"
  show thesis using encode1_toks [of d inp a m] assms that l by (auto simp: encode_match_def)
next
  assume l: "lvl = 2"
  show thesis using encode2_toks [of inp d a m] assms that l by (auto simp: encode_match_def)
qed

text \<open>
  The state of the compressor: complete tokens, a count byte still to be filled in, and the
  pending literals; together they stand for the input read so far.
\<close>

definition lz_rep :: "nat \<Rightarrow> u8 list \<Rightarrow> nat \<Rightarrow> token list \<Rightarrow> u8 list \<Rightarrow> lz \<Rightarrow> bool" where
  "lz_rep lvl inp n ts pend s \<longleftrightarrow>
     valid_toks lvl [] ts \<and> lz_op s = enc_toks lvl ts @ of_nat (MAX_COPY - 1) # pend \<and>
     lz_copy s = length pend \<and> length pend < 32 \<and> app_toks [] ts @ pend = take (lz_ip s) inp \<and>
     2 \<le> lz_ip s \<and> lz_ip s \<le> n \<and> (ts = [] \<longrightarrow> pend \<noteq> []) \<and> (\<forall>m d us. ts \<noteq> Copy m d # us) \<and>
     32 * length (enc_toks lvl ts) \<le> 33 * length (app_toks [] ts)"

definition lz_inv :: "nat \<Rightarrow> u8 list \<Rightarrow> nat \<Rightarrow> lz \<Rightarrow> bool" where
  "lz_inv lvl inp n s \<longleftrightarrow> (\<exists>ts pend. lz_rep lvl inp n ts pend s)"

definition flush_toks :: "token list \<Rightarrow> u8 list \<Rightarrow> token list" where
  "flush_toks ts pend = (if pend = [] then ts else ts @ [Lits pend])"

lemma fix_copy_toks:
  assumes "length pend < 32"
  shows "fix_copy (enc_toks lvl ts @ x # pend) (length pend) = enc_toks lvl (flush_toks ts pend)"
  by (cases "pend = []") (simp_all add: fix_copy_def flush_toks_def list_update_append butlast_append)

lemma flush_toks_ok:
  assumes "lz_rep lvl inp n ts pend s"
  shows "valid_toks lvl [] (flush_toks ts pend)" "app_toks [] (flush_toks ts pend) = take (lz_ip s) inp"
    "flush_toks ts pend \<noteq> []" "\<forall>m d us. flush_toks ts pend \<noteq> Copy m d # us"
    "length (enc_toks lvl (flush_toks ts pend)) =
      length (enc_toks lvl ts) + (if pend = [] then 0 else 1 + length pend)"
    "32 * length (enc_toks lvl (flush_toks ts pend)) \<le> 33 * lz_ip s + (if pend = [] then 0 else 32)"
proof -
  have len: "length (app_toks [] ts) + length pend \<le> lz_ip s"
  proof -
    have "app_toks [] ts @ pend = take (lz_ip s) inp" using assms by (simp add: lz_rep_def)
    from arg_cong [OF this, of length] show ?thesis by simp
  qed
  show "valid_toks lvl [] (flush_toks ts pend)" "app_toks [] (flush_toks ts pend) = take (lz_ip s) inp"
    "flush_toks ts pend \<noteq> []"
    "length (enc_toks lvl (flush_toks ts pend)) =
      length (enc_toks lvl ts) + (if pend = [] then 0 else 1 + length pend)"
    "32 * length (enc_toks lvl (flush_toks ts pend)) \<le> 33 * lz_ip s + (if pend = [] then 0 else 32)"
    using assms len by (auto simp: lz_rep_def flush_toks_def valid_toks_append Suc_le_eq)
  show "\<forall>m d us. flush_toks ts pend \<noteq> Copy m d # us"
    using assms by (cases ts) (auto simp: lz_rep_def flush_toks_def)
qed

lemma put_literal_rep:
  assumes "lz_rep lvl inp n ts pend s" "lz_ip s < n" "n \<le> length inp"
  shows "lz_inv lvl inp n (put_literal (inp ! lz_ip s) s)"
proof (cases "length pend = 31")
  case True
  let ?bs = "pend @ [inp ! lz_ip s]"
  have ap: "app_toks [] (ts @ [Lits ?bs]) = take (Suc (lz_ip s)) inp"
    using assms by (simp add: take_Suc_conv_app_nth lz_rep_def)
  have "length (app_toks [] ts @ pend) = lz_ip s" using assms by (simp add: lz_rep_def min_absorb2)
  then have sz: "32 * length (enc_toks lvl ts) + 1023 \<le> 33 * lz_ip s" using assms(1) True by (simp add: lz_rep_def)
  have "lz_rep lvl inp n (ts @ [Lits ?bs]) [] (put_literal (inp ! lz_ip s) s)"
    using assms True ap sz
    by (cases ts) (auto simp: lz_rep_def put_literal_def MAX_COPY_def valid_toks_append simp del: of_nat_diff)
  then show ?thesis unfolding lz_inv_def by blast
next
  case False
  have "lz_rep lvl inp n ts (pend @ [inp ! lz_ip s]) (put_literal (inp ! lz_ip s) s)"
    using assms False
    by (auto simp: lz_rep_def put_literal_def MAX_COPY_def take_Suc_conv_app_nth simp del: of_nat_diff)
  then show ?thesis unfolding lz_inv_def by blast
qed

lemma put_literal_ip [simp]: "lz_ip (put_literal c s) = lz_ip s + 1" "lz_htab (put_literal c s) = lz_htab s"
  by (simp_all add: put_literal_def Let_def)

lemma put_literal_inv:
  assumes "lz_inv lvl inp n s" "lz_ip s < n" "n \<le> length inp"
  shows "lz_inv lvl inp n (put_literal (inp ! lz_ip s) s)"
  using assms put_literal_rep unfolding lz_inv_def by blast

lemma put_literals_inv:
  assumes "n \<le> length inp"
  shows "lz_inv lvl inp n s \<Longrightarrow> cs = drop (lz_ip s) (take n inp) \<Longrightarrow> lz_ip s \<le> n \<Longrightarrow>
    lz_inv lvl inp n (fold put_literal cs s) \<and> lz_ip (fold put_literal cs s) = n"
proof (induction cs arbitrary: s)
  case Nil
  then show ?case using assms by simp
next
  case (Cons c cs)
  have lt: "lz_ip s < n" using arg_cong [OF Cons.prems(2), of length] assms by simp
  have c: "c = inp ! lz_ip s" "cs = drop (lz_ip (put_literal c s)) (take n inp)"
  proof -
    have "c # cs = inp ! lz_ip s # drop (Suc (lz_ip s)) (take n inp)"
      using Cons.prems(2) Cons_nth_drop_Suc [of "lz_ip s" "take n inp"] lt assms by simp
    then show "c = inp ! lz_ip s" "cs = drop (lz_ip (put_literal c s)) (take n inp)" by auto
  qed
  show ?case
    using Cons.IH [OF _ c(2)] put_literal_inv [OF Cons.prems(1) lt assms] c(1) lt by simp
qed

lemma lz_rep_htab [simp]: "lz_rep lvl inp n ts pend (s\<lparr>lz_htab := t\<rparr>) = lz_rep lvl inp n ts pend s"
  by (simp add: lz_rep_def)

text \<open>Progress and invariant of one iteration.\<close>

lemma compress_step_ok:
  assumes "lvl = 1 \<or> lvl = 2" "lz_inv lvl inp n s" "lz_ip s + 12 < n" "n \<le> length inp"
    "lvl = 1 \<or> n < length inp" "\<forall>h. lz_htab s h < lz_ip s"
  shows "\<exists>s'. compress_step lvl inp n s = Some s' \<and> lz_inv lvl inp n s' \<and> lz_ip s < lz_ip s' \<and> lz_ip s' \<le> n \<and>
    (\<forall>h. lz_htab s' h < lz_ip s')"
proof -
  obtain ts pend where rep: "lz_rep lvl inp n ts pend s" using assms(2) by (auto simp: lz_inv_def)
  let ?a = "lz_ip s"
  have a2: "2 \<le> ?a" using rep by (simp add: lz_rep_def)
  obtain p htab where fm: "find_match lvl inp (lz_htab s) ?a = Some (p, htab)" "\<forall>h. htab h \<le> ?a"
      "\<forall>ref d k. p = Match ref d k \<longrightarrow> 1 \<le> d \<and> d \<le> ?a \<and> d \<le> max_dist lvl \<and> ref = ?a + k - d \<and>
      matched inp d ?a (?a + k) \<and> (k = 3 \<or> k = 5 \<and> lvl = 2) \<and> (lvl = 2 \<and> 8191 < d \<longrightarrow> k = 5) \<and> (d = 1 \<longrightarrow> k = 3)"
    using find_match_ok [OF assms(1) a2 assms(3,4,6)] by blast
  show ?thesis
  proof (cases p)
    case Literal
    then have "compress_step lvl inp n s = Some (put_literal (inp ! ?a) (s\<lparr>lz_htab := htab\<rparr>))"
      using fm(1) assms(3,4) by (simp add: compress_step_def rd_def)
    moreover have "lz_inv lvl inp n (put_literal (inp ! ?a) (s\<lparr>lz_htab := htab\<rparr>))"
      using put_literal_rep [of lvl inp n ts pend "s\<lparr>lz_htab := htab\<rparr>"] rep assms(3,4) by simp
    ultimately show ?thesis using fm(2) assms(3) by (auto simp: less_Suc_eq_le)
  next
    case (Match ref d k)
    then have d: "1 \<le> d" "d \<le> ?a" "d \<le> max_dist lvl" "ref = ?a + k - d" "matched inp d ?a (?a + k)"
        "k = 3 \<or> k = 5 \<and> lvl = 2" "lvl = 2 \<and> 8191 < d \<longrightarrow> k = 5" "d = 1 \<longrightarrow> k = 3" using fm(3) by blast+
    obtain ip where ip: "match_scan inp (n - 2) (d - 1) ref (?a + k) = Some ip" "?a + k < ip"
        "ip \<le> max (n - 2) (?a + k + 8)" "matched inp d ?a (ip - 1)"
    proof -
      have "?a + 3 \<le> ?a + k" "?a + k \<le> n - 2" "n - 2 \<le> length inp" "?a + k + 8 \<le> length inp"
          "d = 1 \<longrightarrow> ?a + k < n - 2"
        using d(6,8) assms(3,4) assms(5) by auto
      from match_scan_ok [OF d(5,1,2) this] show thesis using that unfolding d(4) by blast
    qed
    have ipn: "ip \<le> n" "ip < length inp" using ip(3) d(6) assms(1,3-5) by auto
    define m where "m = ip - 1 - ?a"
    have m: "?a + m = ip - 1" "3 \<le> m" "k \<le> m" using ip(2) d(6) by (auto simp: m_def)
    have mm: "matched inp d ?a (?a + m)" using ip(4) m(1) by simp
    have five: "lvl = 2 \<and> 8191 < d \<longrightarrow> 5 \<le> m" using m(3) d(7) by auto
    obtain us where us: "us \<noteq> []" "valid_toks lvl (take ?a inp) us" "app_toks (take ?a inp) us = take (?a + m) inp"
        "enc_toks lvl us = encode_match lvl (m - 2) (d - 1)" "length (enc_toks lvl us) < m"
    proof -
      have "?a + m \<le> length inp" using m(1) ipn(1) assms(4) by simp
      from encode_match_toks [OF assms(1) mm m(2) d(1,3,2) this five] show thesis using that by metis
    qed
    obtain h0 h1 where h: "HASH_FUNCTION inp (ip - 3) = Some h0" "HASH_FUNCTION inp (ip - 3 + 1) = Some h1"
    proof -
      have "ip - 3 + 2 < length inp" "ip - 3 + 1 + 2 < length inp" using ip(2) ipn(2) d(6) by auto
      then show thesis using that HASH_FUNCTION_ok [of "ip - 3" inp] HASH_FUNCTION_ok [of "ip - 3 + 1" inp] by blast
    qed
    define ft where "ft = flush_toks ts pend"
    define s' where "s' = s\<lparr>lz_htab := htab(h0 := ip - 3, h1 := ip - 3 + 1), lz_ip := ip - 3 + 2, lz_copy := 0,
      lz_op := (enc_toks lvl ft @ enc_toks lvl us) @ [of_nat (MAX_COPY - 1)]\<rparr>"
    have fc: "fix_copy (lz_op s) (lz_copy s) = enc_toks lvl ft"
      using fix_copy_toks [of pend lvl ts] rep by (simp add: lz_rep_def ft_def)
    have mi: "ip - 3 - ?a = m - 2" "ip - 3 + 2 = ?a + m" using m by auto
    have us4: "enc_toks lvl us = encode_match lvl (ip - 3 - ?a) (d - 1)" by (simp only: us(4) mi(1))
    have step: "compress_step lvl inp n s = Some s'"
      using fm(1) ip(1) h fc us4 by (simp add: compress_step_def Match s'_def Let_def)
    have ft: "valid_toks lvl [] ft" "app_toks [] ft = take ?a inp" "ft \<noteq> []" "\<forall>x y zs. ft \<noteq> Copy x y # zs"
      using flush_toks_ok [OF rep] by (simp_all add: ft_def)
    have sz: "32 * length (enc_toks lvl ft) \<le> 33 * ?a + 32" using flush_toks_ok(6) [OF rep] by (auto simp: ft_def split: if_splits)
    have "lz_rep lvl inp n (ft @ us) [] s'"
      unfolding lz_rep_def
    proof (intro conjI)
      show "valid_toks lvl [] (ft @ us)" using ft us(2) by (simp add: valid_toks_append)
      show "\<forall>x y zs. ft @ us \<noteq> Copy x y # zs" using ft(3,4) by (cases ft) auto
      show "32 * length (enc_toks lvl (ft @ us)) \<le> 33 * length (app_toks [] (ft @ us))"
        using sz us(3,5) ft(2) m(1) ipn(2) by (simp add: min_absorb2)
    qed (use ft us m ipn a2 mi in \<open>auto simp: s'_def\<close>)
    moreover have "\<forall>h. lz_htab s' h < lz_ip s'"
    proof
      fix x
      show "lz_htab s' x < lz_ip s'" using fm(2) [rule_format, of x] mi m by (auto simp: s'_def)
    qed
    ultimately show ?thesis using step m mi(2) ipn(1) unfolding lz_inv_def by (auto simp: s'_def)
  qed
qed

lemma compress_loop_ok:
  assumes "lvl = 1 \<or> lvl = 2" "n \<le> length inp" "lvl = 1 \<or> n < length inp"
  shows "lz_inv lvl inp n s \<Longrightarrow> lz_ip s \<le> n \<Longrightarrow> \<forall>h. lz_htab s h < lz_ip s \<Longrightarrow>
    \<exists>s'. compress_loop lvl inp n s = Some s' \<and> lz_inv lvl inp n s' \<and> lz_ip s' \<le> n"
proof (induction "n - lz_ip s" arbitrary: s rule: less_induct)
  case less
  show ?case
  proof (cases "lz_ip s + 12 < n")
    case True
    obtain s1 where s1: "compress_step lvl inp n s = Some s1" "lz_inv lvl inp n s1" "lz_ip s < lz_ip s1"
        "lz_ip s1 \<le> n" "\<forall>h. lz_htab s1 h < lz_ip s1"
      using compress_step_ok [OF assms(1) less.prems(1) True assms(2,3) less.prems(3)] by blast
    have "n - lz_ip s1 < n - lz_ip s" using s1(3,4) by simp
    then show ?thesis using less.hyps s1 True by (subst compress_loop.simps) simp
  next
    case False
    then show ?thesis using less.prems by (subst compress_loop.simps) simp
  qed
qed

text \<open>What the compressor returns is the encoding of tokens that stand for the whole input.\<close>

lemma compress_toks:
  assumes "lvl = 1 \<or> lvl = 2" "4 \<le> n" "n \<le> length inp" "lvl = 1 \<or> n < length inp"
  shows "\<exists>ts. compress lvl inp n = Some (if lvl = 2 then (enc_toks lvl ts)[0 := enc_toks lvl ts ! 0 OR 32]
      else enc_toks lvl ts) \<and> ts \<noteq> [] \<and> (\<forall>m d us. ts \<noteq> Copy m d # us) \<and> valid_toks lvl [] ts \<and>
    app_toks [] ts = take n inp \<and> 32 * length (enc_toks lvl ts) \<le> 33 * n + 32"
proof -
  have i2: "take 2 inp = [inp ! 0, inp ! 1]"
    using assms(2,3) by (cases inp; cases "tl inp") (auto simp: numeral_2_eq_2)
  have "lz_rep lvl inp n [] [inp ! 0, inp ! 1] (compress_init inp)"
    using assms(2) i2 by (simp add: lz_rep_def compress_init_def)
  then have "lz_inv lvl inp n (compress_init inp)" unfolding lz_inv_def by blast
  then obtain s where s: "compress_loop lvl inp n (compress_init inp) = Some s" "lz_inv lvl inp n s" "lz_ip s \<le> n"
    using compress_loop_ok [OF assms(1,3,4)] assms(2) by (fastforce simp: compress_init_def)
  define s' where "s' = fold put_literal (drop (lz_ip s) (take n inp)) s"
  have s': "lz_inv lvl inp n s'" "lz_ip s' = n"
    using put_literals_inv [OF assms(3) s(2) refl s(3)] by (simp_all add: s'_def)
  then obtain ts pend where rep: "lz_rep lvl inp n ts pend s'" by (auto simp: lz_inv_def)
  have fc: "fix_copy (lz_op s') (lz_copy s') = enc_toks lvl (flush_toks ts pend)"
    using fix_copy_toks [of pend lvl ts] rep by (simp add: lz_rep_def)
  have "compress lvl inp n = Some (if lvl = 2
      then (enc_toks lvl (flush_toks ts pend))[0 := enc_toks lvl (flush_toks ts pend) ! 0 OR 32]
      else enc_toks lvl (flush_toks ts pend))"
    using assms(2) s(1) fc by (simp add: compress_def s'_def Let_def)
  moreover have "32 * length (enc_toks lvl (flush_toks ts pend)) \<le> 33 * n + 32"
    using flush_toks_ok(6) [OF rep] s'(2) by (auto split: if_splits)
  ultimately show ?thesis using flush_toks_ok [OF rep] s'(2) by blast
qed

section \<open>Round trip and bounds\<close>

lemma count_byte:
  assumes "1 \<le> length bs" "length bs \<le> 32"
  defines "c \<equiv> of_nat (length bs - 1) :: u8"
  shows "unat c = length bs - 1" "unat c AND 31 = unat c" "unat (c OR 32) AND 31 = unat c"
    "drop_bit 5 (unat c) = 0" "drop_bit 5 (unat (c OR 32)) = 1"
proof -
  have "list_all (\<lambda>k. unat ((of_nat k :: u8) OR 32) = k + 32) [0..<32]" by code_simp
  then have o: "unat ((of_nat k :: u8) OR 32) = k + 32" if "k < 32" for k using that by (auto simp: list_all_iff)
  show u: "unat c = length bs - 1" unfolding c_def by (rule unat_byte) (use assms in simp)
  have lt: "length bs - 1 < 32" using assms by simp
  have o': "unat (c OR 32) = length bs - 1 + 32" unfolding c_def by (rule o) (rule lt)
  show "unat c AND 31 = unat c" using u lt by (simp add: and_mod_nat)
  show "unat (c OR 32) AND 31 = unat c" using u o' lt by (simp add: and_mod_nat)
  show "drop_bit 5 (unat c) = 0" using u lt by (simp add: drop_bit_eq_div)
  show "drop_bit 5 (unat (c OR 32)) = 1" using o' lt by (simp add: drop_bit_eq_div)
qed

text \<open>The decompressor on tokens, whatever follows them.\<close>

lemma decompress_toks:
  assumes "lvl = 1 \<or> lvl = 2" "valid_toks lvl [] (Lits bs # ts)" "length (app_toks [] (Lits bs # ts)) \<le> maxout"
    "z = c # bs @ enc_toks lvl ts @ rest" "unat c AND 31 = length bs - 1"
    "length (c # bs @ enc_toks lvl ts) \<le> n" "n \<le> length z" "unat base + maxout < 2 ^ 32"
  shows "decompress lvl z n base maxout =
    (case next_step z n (length (c # bs @ enc_toks lvl ts)) (app_toks [] (Lits bs # ts)) of
       Err \<Rightarrow> None
     | Stop out \<Rightarrow> Some (length out, out)
     | Go c ip out \<Rightarrow> decompress_loop lvl z n base maxout c ip out)"
proof -
  have b: "1 \<le> length bs" "length bs \<le> 32" using assms(2) by simp_all
  have "decompress lvl z n base maxout = decompress_loop lvl z n base maxout (unat (of_nat (length bs - 1) :: u8)) 1 []"
    using assms(4,5) count_byte(1) [OF b] by (simp add: decompress_def rd_def del: of_nat_diff)
  then show ?thesis
    using decompress_loop_tokens [OF assms(1,7,8,2) enc_tok.simps(1), of 1 rest] assms(3,4,6) by simp
qed

lemma compress_roundtrip:
  assumes "lvl = 1 \<or> lvl = 2" "1 \<le> n" "n \<le> length inp" "lvl = 1 \<or> n < 4 \<or> n < length inp" "n \<le> maxout"
    "unat base + maxout < 2 ^ 32"
  shows "\<exists>z. compress lvl inp n = Some z \<and> fastlz_decompress (z @ rest) (length z) base maxout = Some (n, take n inp) \<and>
    32 * length z \<le> 33 * n + 32"
proof (cases "n < 4")
  case True
  let ?bs = "take n inp"
  let ?z = "of_nat (length ?bs - 1) # ?bs :: u8 list"
  have b: "length ?bs = n" "1 \<le> length ?bs" "length ?bs \<le> 32" using assms True by simp_all
  have d: "decompress 1 (?z @ rest) (length ?z) base maxout = Some (n, ?bs)"
    using decompress_toks [of 1 ?bs "[]" maxout "?z @ rest" "of_nat (length ?bs - 1)" rest "length ?z" base] b assms(5,6)
      count_byte [OF b(2,3)]
    by (simp add: next_step_def del: of_nat_diff length_take)
  have "compress lvl inp n = Some ?z"
    using True assms(2) b(1) by (simp add: compress_def del: of_nat_diff length_take)
  moreover have "fastlz_decompress (?z @ rest) (length ?z) base maxout = Some (n, ?bs)"
    using d count_byte(4) [OF b(2,3)] by (simp add: fastlz_decompress_def rd_def del: of_nat_diff length_take)
  moreover have "32 * length ?z \<le> 33 * n + 32" by simp
  ultimately show ?thesis by blast
next
  case False
  obtain ts where ts: "compress lvl inp n = Some (if lvl = 2 then (enc_toks lvl ts)[0 := enc_toks lvl ts ! 0 OR 32]
      else enc_toks lvl ts)" "ts \<noteq> []" "\<forall>m d us. ts \<noteq> Copy m d # us" "valid_toks lvl [] ts"
    "app_toks [] ts = take n inp" "32 * length (enc_toks lvl ts) \<le> 33 * n + 32"
    using compress_toks [OF assms(1) _ assms(3)] False assms(4) by auto
  obtain bs us where bs: "ts = Lits bs # us" using ts(2,3) by (metis list.exhaust token.exhaust)
  have b: "1 \<le> length bs" "length bs \<le> 32" using ts(4) bs by simp_all
  note cb = count_byte [OF b]
  define c where "c = (if lvl = 2 then of_nat (length bs - 1) OR 32 else of_nat (length bs - 1) :: u8)"
  have c: "unat c AND 31 = length bs - 1" "drop_bit 5 (unat c) = lvl - 1"
    using cb assms(1) by (auto simp: c_def)
  let ?z = "c # bs @ enc_toks lvl us"
  have z: "compress lvl inp n = Some ?z" using ts(1) by (auto simp: bs c_def)
  have "length (app_toks [] ts) = n" using assms(3) by (simp add: ts(5))
  then have d: "decompress lvl (?z @ rest) (length ?z) base maxout = Some (n, take n inp)"
    using decompress_toks [OF assms(1), of bs us maxout "?z @ rest" c rest "length ?z" base] ts(4,5) bs c(1) assms(5,6)
    by (simp add: next_step_def)
  have "fastlz_decompress (?z @ rest) (length ?z) base maxout = Some (n, take n inp)"
    using d c(2) assms(1) by (auto simp: fastlz_decompress_def rd_def)
  moreover have "32 * length ?z \<le> 33 * n + 32" using ts(6) by (simp add: bs)
  ultimately show ?thesis using z by blast
qed

text \<open>
  C1. Compressing a non-empty input and decompressing the result into a buffer that is large enough
  gives the input back, at either level and for every length, whatever lies in memory behind the
  compressed bytes: the compressor always returns, its output is at most 1/32 and one byte longer than
  the input, and the decompressor reads it without leaving it. The buffer is any that ends below the
  end of the 32-bit address space of the loader. Level 2, which takes the inputs of 64 KB and more,
  needs one mapped byte behind the input, because it hashes three bytes at a position up to the last.
\<close>

theorem fastlz_roundtrip:
  assumes "1 \<le> n" and "n \<le> length inp" and "n < 65536 \<or> n < length inp" and "n \<le> maxout"
    and "unat base + maxout < 2 ^ 32"
  shows "\<exists>z. fastlz_compress inp n = Some z \<and>
    fastlz_decompress (z @ behind) (length z) base maxout = Some (n, take n inp) \<and>
    32 * length z \<le> 33 * n + 32"
  using compress_roundtrip [of 1 n inp maxout base behind] compress_roundtrip [of 2 n inp maxout base behind] assms
  by (auto simp: fastlz_compress_def)

theorem fastlz_roundtrip_witness:
  "\<exists>z. fastlz_compress (replicate 70001 7) 70000 = Some z \<and>
    fastlz_decompress (z @ [1, 2, 3]) (length z) BUFFER_OUT MAX_BUFFER = Some (70000, replicate 70000 7) \<and> length z \<le> 72188"
proof -
  have l: "length (replicate 70001 (7 :: u8)) = 70001" by (rule length_replicate)
  have t: "take 70000 (replicate 70001 (7 :: u8)) = replicate 70000 7" by (simp only: take_replicate) simp
  have b: "70000 \<le> MAX_BUFFER" "unat BUFFER_OUT + MAX_BUFFER < 2 ^ 32" by (simp_all add: BUFFER_OUT_def MAX_BUFFER_def)
  obtain z where "fastlz_compress (replicate 70001 7) 70000 = Some z"
      "fastlz_decompress (z @ [1, 2, 3]) (length z) BUFFER_OUT MAX_BUFFER = Some (70000, take 70000 (replicate 70001 7))"
      "32 * length z \<le> 33 * 70000 + 32"
    using fastlz_roundtrip [of 70000 "replicate 70001 7" MAX_BUFFER BUFFER_OUT "[1, 2, 3]"] b unfolding l by auto
  then show ?thesis unfolding t by (intro exI [of _ z]) simp
qed

text \<open>
  C14. The three ways in which the decompressor copies a match -- a byte loop for a run, and 16 bits
  at a time after an odd byte for everything else -- give what copying byte after byte from
  \<open>d\<close> bytes back gives, also when the source overlaps the bytes being written.
\<close>

theorem copy_match_equivalence:
  assumes "1 \<le> d" and "d \<le> length out"
  shows "(if d = 1 then out @ replicate (3 + len) (last out) else copy_match (length out - d) len out) =
    copy_bytes (3 + len) (length out - d) out"
proof (cases "d = 1")
  case True
  moreover have "out \<noteq> []" using assms by auto
  ultimately show ?thesis using copy_run [of out "3 + len"] by simp
next
  case False
  then show ?thesis using assms by (simp add: copy_match_bytes)
qed

theorem copy_match_equivalence_witness:
  "copy_match 1 4 [1, 2, 3] = [1, 2, 3, 2, 3, 2, 3, 2, 3, 2]"
  using copy_match_equivalence [of 2 "[1, 2, 3]" 4] by (simp add: eval_nat_numeral)

section \<open>The bound on the output\<close>

text \<open>
  A run of the decompressor followed for \<open>k\<close> iterations: what has become of it, and the bytes written
  so far, also when an iteration faults. An iteration reads the head of its token before it writes.
\<close>

datatype lz_end = Running | Faulted | Returned nat

fun lz_run :: "nat \<Rightarrow> nat \<Rightarrow> u8 list \<Rightarrow> nat \<Rightarrow> u32 \<Rightarrow> nat \<Rightarrow> nat \<Rightarrow> nat \<Rightarrow> u8 list \<Rightarrow> lz_end \<times> u8 list" where
  "lz_run 0 lvl inp n base maxout ctrl ip out = (Running, out)"
| "lz_run (Suc k) lvl inp n base maxout ctrl ip out =
     (case decompress_step lvl inp n base maxout ctrl ip out of
        None \<Rightarrow> (Faulted, out)
      | Some Err \<Rightarrow> (Returned 0, out)
      | Some (Stop out) \<Rightarrow> (Returned (length out), out)
      | Some (Go ctrl ip out) \<Rightarrow> lz_run k lvl inp n base maxout ctrl ip out)"

definition fastlz_run :: "nat \<Rightarrow> u8 list \<Rightarrow> nat \<Rightarrow> u32 \<Rightarrow> nat \<Rightarrow> lz_end \<times> u8 list" where
  "fastlz_run k inp n base maxout = (case rd inp 0 of
     None \<Rightarrow> (Faulted, [])
   | Some c \<Rightarrow>
       (let level = drop_bit 5 (unat c) + 1 in
        if level = 1 then lz_run k 1 inp n base maxout (unat c AND 31) 1 []
        else if level = 2 then lz_run k 2 inp n base maxout (unat c AND 31) 1 []
        else (Returned 0, [])))"

lemma unat_ucast8: "unat (ucast b :: u32) = unat b" for b :: u8
proof -
  have "unat b < 2 ^ 8" using unsigned_less [of b] by simp
  then show ?thesis by (simp add: unsigned_ucast_eq take_bit_nat_eq_self)
qed

lemma unat_add_le: "unat (a + b) \<le> unat a + unat b" for a b :: u32
  by (simp add: unat_word_ariths(1))

lemma read_len_bound: "read_len inp ip len = Some (ip', len') \<Longrightarrow> ip < ip' \<and> unat len' \<le> unat len + 255 * (length inp - ip)"
proof (induction inp ip len rule: read_len.induct)
  case (1 inp ip len)
  obtain code where c: "rd inp ip = Some code" "ip < length inp"
    using "1.prems" by (subst (asm) read_len.simps) (auto simp: rd_def split: if_splits)
  have "unat code < 2 ^ 8" using unsigned_less [of code] by simp
  then have b: "unat (len + ucast code) \<le> unat len + 255"
    using unat_add_le [of len "ucast code"] by (simp add: unat_ucast8)
  have n: "255 * (length inp - ip) = 255 + 255 * (length inp - Suc ip)" using c(2) by simp
  show ?case
  proof (cases "code = 255")
    case True
    then have "ip < ip' \<and> unat len' \<le> unat (len + ucast code) + 255 * (length inp - Suc ip)"
      using "1.IH" [OF c(1) True] "1.prems" c(1) by (subst (asm) (2) read_len.simps) simp
    then show ?thesis using b n by linarith
  next
    case False
    then show ?thesis using "1.prems" c b n by (subst (asm) read_len.simps) auto
  qed
qed

lemma read_match_bound:
  assumes "read_match lvl inp ctrl ip op = Some (ref, len, ip')"
  shows "ip < ip'" "ctrl < 256 \<Longrightarrow> unat len \<le> 261 + 255 * length inp"
proof -
  define l where "l = drop_bit 5 ctrl - 1"
  obtain i k where ik: "(if l = 6 then (if lvl = 1 then do { b \<leftarrow> rd inp ip; Some (ip + 1, of_nat l + ucast b) }
        else read_len inp ip (of_nat l)) else Some (ip, of_nat l)) = Some (i, k)"
      "len = k" "i < ip'"
    using assms unfolding read_match_def Let_def l_def [symmetric]
    by (auto simp: bind_eq_Some_conv split: if_splits)
  have i: "ip \<le> i" using ik(1) read_len_bound [of inp ip "of_nat l" i k]
    by (auto simp: bind_eq_Some_conv split: if_splits)
  show "ip < ip'" using i ik(3) by simp
  assume "ctrl < 256"
  then have "l \<le> 6" by (simp add: l_def drop_bit_eq_div)
  then have l6: "unat (of_nat l :: u32) \<le> 6" by (simp add: unsigned_of_nat take_bit_nat_eq_self)
  have b: "unat (of_nat l + ucast b :: u32) \<le> 261" for b :: u8
  proof -
    have "unat b < 2 ^ 8" using unsigned_less [of b] by simp
    then show ?thesis using l6 unat_add_le [of "of_nat l" "ucast b"] by (simp add: unat_ucast8)
  qed
  have r: "unat k \<le> 6 + 255 * (length inp - ip)" if "read_len inp ip (of_nat l) = Some (i, k)"
    using read_len_bound [OF that] l6 by linarith
  have "255 * (length inp - ip) \<le> 255 * length inp" by simp
  then show "unat len \<le> 261 + 255 * length inp"
    using ik(1) l6 r b unfolding ik(2) by (auto simp: bind_eq_Some_conv intro: le_trans le_SucI trans_le_add1 split: if_splits)
qed

lemma copy_match_length: "length (copy_match k len out) = length out + len + 3"
proof -
  have "length (copy_words n k out) = length out + 2 * n" for n k and out :: "u8 list"
    by (induction n arbitrary: k out) auto
  then show ?thesis by (auto simp: copy_match_def Let_def elim!: oddE)
qed

text \<open>Where the memory read is small enough that no length wraps, the tests of the code bound the output.\<close>

lemma decompress_step_bound:
  assumes "decompress_step lvl inp n base maxout ctrl ip out = Some r" "length out \<le> maxout" "ctrl < 256"
    "unat base + maxout + 255 * length inp + 300 \<le> 2 ^ 32"
  shows "(\<forall>out'. r = Stop out' \<longrightarrow> length out' \<le> maxout) \<and>
    (\<forall>c i out'. r = Go c i out' \<longrightarrow> length out' \<le> maxout \<and> c < 256)"
proof -
  have byte: "unat c < 256" for c :: u8 using unsigned_less [of c] by simp
  have fits: "length out + k \<le> maxout"
    if "\<not> base + of_nat maxout < base + of_nat (length out) + of_nat k" "k < 300 + 255 * length inp" for k
  proof -
    have "base + of_nat (length out) + of_nat k = base + of_nat (length out + k)" by simp
    then have "\<not> base + of_nat maxout < base + of_nat (length out + k)" using that(1) by (simp only:) simp
    moreover have "unat base + (length out + k) < 2 ^ 32" "unat base + maxout < 2 ^ 32" using assms(2,4) that(2) by simp_all
    ultimately show ?thesis using ptr_less(1) [of base maxout "length out + k"] by (simp del: of_nat_add)
  qed
  show ?thesis
  proof (cases "ctrl \<ge> 32")
    case True
    obtain ref len ip' where rm: "read_match lvl inp ctrl ip (base + of_nat (length out)) = Some (ref, len, ip')"
      using assms(1) True by (auto simp: decompress_step_def Let_def bind_eq_Some_conv)
    have w: "of_nat (unat len + 3) = len + 3" by simp
    have l: "unat len + 3 < 300 + 255 * length inp" using read_match_bound(2) [OF rm assms(3)] by simp
    have "r = Err \<or> length out + (unat len + 3) \<le> maxout"
      using assms(1) True fits [OF _ l] unfolding w
      by (auto simp: decompress_step_def Let_def rm add.assoc split: if_splits)
    then show ?thesis using assms(1) True
      by (auto simp: decompress_step_def Let_def rm copy_match_length bind_eq_Some_conv byte split: if_splits)
  next
    case False
    have "r = Err \<or> length out + (ctrl + 1) \<le> maxout"
      using assms(1) False fits [of "ctrl + 1"] by (auto simp: decompress_step_def Let_def split: if_splits)
    then show ?thesis using assms(1) False
      by (auto simp: decompress_step_def Let_def bind_eq_Some_conv byte split: if_splits)
  qed
qed

lemma decompress_step_forward:
  "decompress_step lvl inp n base maxout ctrl ip out = Some (Go c i out') \<Longrightarrow> ip < i \<and> i \<le> n"
  using read_match_bound(1)
  by (fastforce simp: decompress_step_def Let_def bind_eq_Some_conv split: if_splits)

lemma lz_run_bound:
  assumes "unat base + maxout + 255 * length inp + 300 \<le> 2 ^ 32"
  shows "length out \<le> maxout \<Longrightarrow> ctrl < 256 \<Longrightarrow> length (snd (lz_run k lvl inp n base maxout ctrl ip out)) \<le> maxout"
proof (induction k arbitrary: ctrl ip out)
  case (Suc k)
  show ?case
  proof (cases "decompress_step lvl inp n base maxout ctrl ip out")
    case (Some r)
    then show ?thesis using decompress_step_bound [OF Some Suc.prems assms] Suc.IH Suc.prems by (cases r) auto
  qed (simp add: Suc.prems)
qed simp

lemma lz_run_ends: "n \<le> ip + k \<Longrightarrow> fst (lz_run (Suc k) lvl inp n base maxout ctrl ip out) \<noteq> Running"
proof (induction k arbitrary: ctrl ip out)
  case 0
  have "decompress_step lvl inp n base maxout ctrl ip out \<noteq> Some (Go c i o')" for c i o'
    using decompress_step_forward [of lvl inp n base maxout ctrl ip out c i o'] 0 by auto
  then show ?case by (auto split: option.split lzd.split)
next
  case (Suc k)
  have s: "fst (lz_run (Suc k) lvl inp n base maxout c i o') \<noteq> Running"
    if "decompress_step lvl inp n base maxout ctrl ip out = Some (Go c i o')" for c i o'
    using Suc.IH [of i c o'] decompress_step_forward [OF that] Suc.prems by simp
  show ?case
    unfolding lz_run.simps(2) [of "Suc k"] using s by (auto split: option.split lzd.split simp del: lz_run.simps)
qed

lemma lz_run_loop:
  "(case lz_run k lvl inp n base maxout ctrl ip out of
      (Running, o') \<Rightarrow> True
    | (Faulted, o') \<Rightarrow> decompress_loop lvl inp n base maxout ctrl ip out = None
    | (Returned r, o') \<Rightarrow> decompress_loop lvl inp n base maxout ctrl ip out = Some (r, o') \<and> (r = 0 \<or> r = length o'))"
proof (induction k arbitrary: ctrl ip out)
  case (Suc k)
  note ih = Suc.IH
  show ?case
  proof (cases "decompress_step lvl inp n base maxout ctrl ip out")
    case None
    then show ?thesis by (simp add: decompress_loop.simps)
  next
    case (Some r)
    then have "decompress_loop lvl inp n base maxout ctrl ip out =
        (case r of Err \<Rightarrow> Some (0, out) | Stop out \<Rightarrow> Some (length out, out)
          | Go ctrl ip out \<Rightarrow> decompress_loop lvl inp n base maxout ctrl ip out)"
      by (subst decompress_loop.simps) simp
    moreover have "lz_run (Suc k) lvl inp n base maxout ctrl ip out = lz_run k lvl inp n base maxout c i o'"
      if "r = Go c i o'" for c i o' using Some that by simp
    ultimately show ?thesis using ih [of _ _ _] Some by (cases r) (simp_all only: lzd.case, simp_all)
  qed
qed simp



text \<open>
  Beyond that the bound fails: after 16843008 length bytes of 255 the length is below 2^32 by less than
  the address of the buffer, the sum of the test wraps, and the iteration writes 4 GB.
\<close>

lemma encode_len_255: "encode_len (255 * k) = replicate k 255 @ [0]"
proof (induction k)
  case 0
  show ?case by (subst encode_len.simps) simp
next
  case (Suc k)
  then show ?case by (subst encode_len.simps) simp
qed

theorem long_match_escapes_bound:
  "\<exists>out. decompress_step 2 (replicate 16843008 255 @ [0, 0]) 16843010 BUFFER_OUT 16 224 0 [65] = Some (Stop out) \<and>
    length out = 4294967050"
proof -
  let ?inp = "replicate 16843008 255 @ [0, 0] :: u8 list"
  have "drop 0 ?inp = encode_len (255 * 16843008) @ [0]"
    unfolding encode_len_255 by (simp del: replicate.simps)
  from read_len_encode [OF this, of 6]
  have rl: "read_len ?inp 0 6 = Some (16843009, 0xffffff06)" unfolding encode_len_255
    by (simp del: replicate.simps)
  have r0: "rd ?inp 16843009 = Some 0" unfolding rd_def nth_append length_append length_replicate by simp
  have rm: "read_match 2 ?inp 224 0 (BUFFER_OUT + 1) = Some (BUFFER_OUT + 1, 0xffffff06, 16843010)"
    using rl r0 by (simp add: read_match_def drop_bit_eq_div and_mod_nat)
  have rm': "read_match 2 ?inp 224 0 2097153 = Some (2097153, 0xffffff06, 16843010)"
    using rm by (simp add: BUFFER_OUT_def)
  show ?thesis
    by (simp add: decompress_step_def rm' BUFFER_OUT_def del: replicate.simps)
qed

text \<open>
  The decompressor checks what it writes, not what it reads: input that ends with the head of a
  match, behind any complete tokens, makes it read past its end.
\<close>

theorem decompress_overreads:
  assumes "valid_toks 1 [] (Lits bs # ts)" and "length (app_toks [] (Lits bs # ts)) \<le> maxout"
    and "32 \<le> unat c" and "unat base + maxout < 2 ^ 32"
  shows "fastlz_decompress (enc_toks 1 (Lits bs # ts) @ [c]) (Suc (length (enc_toks 1 (Lits bs # ts)))) base maxout = None"
proof -
  have b: "1 \<le> length bs" "length bs \<le> 32" using assms(1) by simp_all
  let ?h = "of_nat (length bs - 1) :: u8"
  let ?m = "length (?h # bs @ enc_toks 1 ts)"
  let ?z = "?h # bs @ enc_toks 1 ts @ [c]"
  have "drop_bit 5 (unat c) - 1 = 6 \<or> drop_bit 5 (unat c) - 1 \<noteq> 6" by simp
  then have "decompress_step 1 ?z n base maxout (unat c) (Suc ?m) out = None" for n out
    using assms(3) by (auto simp: decompress_step_def read_match_def rd_def Let_def)
  then have "decompress_loop 1 ?z n base maxout (unat c) (Suc ?m) out = None" for n out
    by (subst decompress_loop.simps) simp
  then have "decompress 1 ?z (Suc ?m) base maxout = None"
    using decompress_toks [OF _ assms(1,2), of ?z ?h "[c]" "Suc ?m" base] count_byte [OF b] assms(4)
    by (simp add: next_step_def nth_append del: of_nat_diff)
  then show ?thesis using count_byte(4) [OF b] by (simp add: fastlz_decompress_def rd_def del: of_nat_diff)
qed

theorem decompress_overreads_witness: "fastlz_decompress [0, 65, 0xe0] 3 BUFFER_OUT 100 = None"
  using decompress_overreads [of "[65]" "[]" 100 "0xe0" BUFFER_OUT] by (simp add: BUFFER_OUT_def numeral_3_eq_3)

end
