(* ===== verification/Spinlock.thy ===== *)
theory Spinlock
  imports Prelude
begin

text \<open>
  The spin lock (spinlock.cc, spinlock.h, and mutex.h, whose operations are the same functions)
  as a step relation: any number of processors run \<open>spin_lock\<close>, \<open>spin_trylock\<close> and
  \<open>spin_unlock\<close> on one lock, interleaved at each access to its memory word. The locale
  \<open>lock_protocol\<close> states what a client needs of a lock; it is interpreted on this one.
\<close>

section \<open>The lock word and the processors\<close>

text \<open>\<open>__sync_lock_test_and_set( &_lock, 1 )\<close>: the old value and the new one.\<close>

definition test_and_set :: "bool \<Rightarrow> bool \<times> bool" where
  "test_and_set l = (l, True)"

definition sync_lock_release :: "bool \<Rightarrow> bool" where
  "sync_lock_release l = False"

text \<open>
  Where a processor is: outside, before the test-and-set of \<open>spin_lock\<close>, in its inner loop,
  holding the lock, or before the test-and-set of \<open>spin_trylock\<close>.
\<close>

datatype pc = Idle | Tas | Spin | Crit | Try

record spin =
  locked :: bool
  pcs :: "nat \<Rightarrow> pc"

definition spinlock_init :: spin where
  "spinlock_init = \<lparr>locked = False, pcs = (\<lambda>_. Idle)\<rparr>"

abbreviation goto :: "nat \<Rightarrow> pc \<Rightarrow> spin \<Rightarrow> spin" where
  "goto t p s \<equiv> s\<lparr>pcs := (pcs s)(t := p)\<rparr>"

text \<open>One access of \<open>spin_lock\<close>, of \<open>spin_trylock\<close> with its result, and of \<open>spin_unlock\<close>.\<close>

definition spin_lock :: "nat \<Rightarrow> spin \<Rightarrow> spin option" where
  "spin_lock t s = (case pcs s t of
     Tas \<Rightarrow> (let (old, new) = test_and_set (locked s) in
              Some (goto t (if old then Spin else Crit) (s\<lparr>locked := new\<rparr>)))
   | Spin \<Rightarrow> Some (goto t (if locked s then Spin else Tas) s)
   | _ \<Rightarrow> None)"

definition spin_trylock :: "nat \<Rightarrow> spin \<Rightarrow> (bool \<times> spin) option" where
  "spin_trylock t s = (case pcs s t of
     Try \<Rightarrow> (let (old, new) = test_and_set (locked s) in
              Some (\<not> old, goto t (if old then Idle else Crit) (s\<lparr>locked := new\<rparr>)))
   | _ \<Rightarrow> None)"

definition spin_unlock :: "nat \<Rightarrow> spin \<Rightarrow> spin option" where
  "spin_unlock t s = (case pcs s t of
     Crit \<Rightarrow> Some (goto t Idle (s\<lparr>locked := sync_lock_release (locked s)\<rparr>))
   | _ \<Rightarrow> None)"

text \<open>A step of processor \<open>t\<close>; only the holder unlocks.\<close>

inductive spin_step :: "nat \<Rightarrow> spin \<Rightarrow> spin \<Rightarrow> bool" where
  call_lock: "pcs s t = Idle \<Longrightarrow> spin_step t s (goto t Tas s)"
| call_trylock: "pcs s t = Idle \<Longrightarrow> spin_step t s (goto t Try s)"
| lock: "spin_lock t s = Some s' \<Longrightarrow> spin_step t s s'"
| trylock: "spin_trylock t s = Some (r, s') \<Longrightarrow> spin_step t s s'"
| unlock: "spin_unlock t s = Some s' \<Longrightarrow> spin_step t s s'"

inductive spin_reach :: "spin \<Rightarrow> bool" where
  init: "spin_reach spinlock_init"
| step: "spin_reach s \<Longrightarrow> spin_step t s s' \<Longrightarrow> spin_reach s'"

inductive_cases spin_stepE: "spin_step t s s'"

lemmas spin_defs = spin_lock_def spin_trylock_def spin_unlock_def test_and_set_def sync_lock_release_def

lemma spin_lock_cases:
  assumes "spin_lock t s = Some s'"
  obtains "pcs s t = Tas" "locked s" "s' = goto t Spin s"
  | "pcs s t = Tas" "\<not> locked s" "s' = goto t Crit (s\<lparr>locked := True\<rparr>)"
  | "pcs s t = Spin" "s' = goto t (if locked s then Spin else Tas) s"
  using assms by (cases "locked s") (auto simp: spin_defs split: pc.splits)

lemma spin_trylock_cases:
  assumes "spin_trylock t s = Some (r, s')"
  obtains "pcs s t = Try" "locked s" "\<not> r" "s' = goto t Idle s"
  | "pcs s t = Try" "\<not> locked s" "r" "s' = goto t Crit (s\<lparr>locked := True\<rparr>)"
  using assms by (cases "locked s") (auto simp: spin_defs split: pc.splits)

section \<open>Mutual exclusion\<close>

definition holds :: "spin \<Rightarrow> nat \<Rightarrow> bool" where
  "holds s t \<longleftrightarrow> pcs s t = Crit"

text \<open>The lock word is set exactly when one processor holds the lock.\<close>

definition spin_inv :: "spin \<Rightarrow> bool" where
  "spin_inv s \<longleftrightarrow> (if locked s then \<exists>!t. holds s t else \<forall>t. \<not> holds s t)"

lemma spin_inv_init: "spin_inv spinlock_init"
  by (simp add: spin_inv_def spinlock_init_def holds_def)

lemma holds_kept [simp]:
  "pcs s t \<noteq> Crit \<Longrightarrow> p \<noteq> Crit \<Longrightarrow> holds (goto t p s) = holds s"
  "holds (s\<lparr>locked := l\<rparr>) = holds s" "holds (goto t Crit s) = (\<lambda>u. u = t \<or> holds s u)"
  "holds (s\<lparr>locked := l, pcs := (pcs s)(t := Crit)\<rparr>) = (\<lambda>u. u = t \<or> holds s u)"
  by (auto simp: holds_def fun_eq_iff)

lemma spin_inv_step: "spin_step t s s' \<Longrightarrow> spin_inv s \<Longrightarrow> spin_inv s'"
proof (induction rule: spin_step.induct)
  case (lock t s s')
  from lock(1) show ?case
    by (cases rule: spin_lock_cases) (use lock(2) in \<open>auto simp: spin_inv_def split: if_splits\<close>)
next
  case (trylock t s r s')
  from trylock(1) show ?case
    by (cases rule: spin_trylock_cases) (use trylock(2) in \<open>auto simp: spin_inv_def split: if_splits\<close>)
next
  case (unlock t s s')
  then have "pcs s t = Crit" "s' = goto t Idle (s\<lparr>locked := False\<rparr>)"
    by (auto simp: spin_defs split: pc.splits)
  then show ?case using unlock(2) by (auto simp: spin_inv_def holds_def split: if_splits)
qed (simp_all add: spin_inv_def)

lemma spin_reach_inv: "spin_reach s \<Longrightarrow> spin_inv s"
  by (induction rule: spin_reach.induct) (auto intro: spin_inv_init spin_inv_step)

lemma spin_step_other: "spin_step t s s' \<Longrightarrow> u \<noteq> t \<Longrightarrow> pcs s' u = pcs s u"
  by (auto elim!: spin_stepE simp: spin_defs split: pc.splits if_splits)

section \<open>What a client of a lock relies on\<close>

locale lock_protocol =
  fixes lock_init :: "'l \<Rightarrow> bool"
    and lock_step :: "nat \<Rightarrow> 'l \<Rightarrow> 'l \<Rightarrow> bool"
    and owns :: "'l \<Rightarrow> nat \<Rightarrow> bool"
    and lock_inv :: "'l \<Rightarrow> bool"
  assumes inv_init: "lock_init l \<Longrightarrow> lock_inv l"
    and inv_step: "lock_step t l l' \<Longrightarrow> lock_inv l \<Longrightarrow> lock_inv l'"
    and owner_unique: "lock_inv l \<Longrightarrow> owns l t \<Longrightarrow> owns l u \<Longrightarrow> t = u"
    and init_free: "lock_init l \<Longrightarrow> \<not> owns l t"
    and other_kept: "lock_step t l l' \<Longrightarrow> u \<noteq> t \<Longrightarrow> owns l' u = owns l u"

interpretation spin: lock_protocol "\<lambda>s. s = spinlock_init" spin_step holds spin_inv
proof
  fix l t u
  show "spin_inv l \<Longrightarrow> holds l t \<Longrightarrow> holds l u \<Longrightarrow> t = u"
    by (auto simp: spin_inv_def split: if_splits)
qed (auto simp: spinlock_init_def holds_def spin_step_other intro: spin_inv_step spin_inv_init [unfolded spinlock_init_def])

section \<open>Properties\<close>

text \<open>
  C2. In every state that any interleaving of lock, trylock and unlock calls can reach, at most one
  processor holds the lock, and the lock word is set exactly when one does.
\<close>

theorem spinlock_mutual_exclusion:
  assumes "spin_reach s"
  shows "(\<forall>t u. holds s t \<and> holds s u \<longrightarrow> t = u) \<and> (locked s \<longleftrightarrow> (\<exists>t. holds s t))"
  using spin_reach_inv [OF assms] by (auto simp: spin_inv_def split: if_splits)

text \<open>Processor 3 takes the free lock.\<close>

theorem spinlock_mutual_exclusion_witness:
  "spin_reach (goto 3 Crit (spinlock_init\<lparr>locked := True\<rparr>)) \<and>
    \<not> holds (goto 3 Crit (spinlock_init\<lparr>locked := True\<rparr>)) 4"
proof -
  have a: "spin_step 3 spinlock_init (goto 3 Tas spinlock_init)"
    by (rule call_lock) (simp add: spinlock_init_def)
  have "spin_step 3 (goto 3 Tas spinlock_init) (goto 3 Crit (spinlock_init\<lparr>locked := True\<rparr>))"
    by (rule lock) (simp add: spin_defs spinlock_init_def)
  with a have r: "spin_reach (goto 3 Crit (spinlock_init\<lparr>locked := True\<rparr>))"
    by (blast intro: spin_reach.intros)
  have three: "(3::nat) \<noteq> 4" by simp
  have "holds (goto 3 Crit (spinlock_init\<lparr>locked := True\<rparr>)) 3" by (simp add: holds_def)
  then have "\<not> holds (goto 3 Crit (spinlock_init\<lparr>locked := True\<rparr>)) 4"
    using spinlock_mutual_exclusion [OF r] three by blast
  with r show ?thesis by blast
qed

text \<open>
  C3. The lock never deadlocks: from every reachable state, a processor that is waiting in
  \<open>spin_lock\<close> can still get the lock, after at most one step of the holder and two of its own.
\<close>

theorem spinlock_waiter_can_enter:
  assumes "spin_reach s" and "pcs s t = Tas \<or> pcs s t = Spin"
  shows "\<exists>s'. (\<lambda>a b. \<exists>u. spin_step u a b)\<^sup>*\<^sup>* s s' \<and> holds s' t"
proof -
  let ?R = "\<lambda>a b. \<exists>u. spin_step u a b"
  have free: "\<exists>s'. ?R\<^sup>*\<^sup>* a s' \<and> holds s' t" if "\<not> locked a" "pcs a t = Tas \<or> pcs a t = Spin" for a
  proof -
    have tas: "?R (goto t Tas a) (goto t Crit (a\<lparr>locked := True\<rparr>))"
      using that(1) by (intro exI [of _ t] lock) (simp add: spin_defs)
    have "?R\<^sup>*\<^sup>* a (goto t Tas a)"
    proof (cases "pcs a t = Spin")
      case True
      then have "?R a (goto t Tas a)" using that(1) by (intro exI [of _ t] lock) (simp add: spin_defs)
      then show ?thesis by blast
    next
      case False
      then have "goto t Tas a = a" using that(2) by (auto simp: fun_upd_idem)
      then show ?thesis by simp
    qed
    with tas have "?R\<^sup>*\<^sup>* a (goto t Crit (a\<lparr>locked := True\<rparr>))" by (rule rtranclp.rtrancl_into_rtrancl [rotated])
    then show ?thesis by (intro exI [of _ "goto t Crit (a\<lparr>locked := True\<rparr>)"]) (simp add: holds_def)
  qed
  show ?thesis
  proof (cases "locked s")
    case False
    then show ?thesis using free assms(2) by blast
  next
    case True
    then obtain h where h: "pcs s h = Crit"
      using spin_reach_inv [OF assms(1)] by (auto simp: spin_inv_def holds_def)
    let ?s = "goto h Idle (s\<lparr>locked := False\<rparr>)"
    have un: "?R s ?s" using h by (intro exI [of _ h] unlock) (simp add: spin_defs)
    have "t \<noteq> h" using h assms(2) by auto
    then obtain s' where s': "?R\<^sup>*\<^sup>* ?s s'" "holds s' t" using free [of ?s] h assms(2) by auto
    have "?R\<^sup>*\<^sup>* s s'" by (rule converse_rtranclp_into_rtranclp [where r = ?R, OF un s'(1)])
    then show ?thesis using s'(2) by blast
  qed
qed

theorem spinlock_waiter_can_enter_witness:
  "\<exists>s'. (\<lambda>a b. \<exists>u. spin_step u a b)\<^sup>*\<^sup>* (goto 0 Tas spinlock_init) s' \<and> holds s' 0"
proof -
  have "spin_reach (goto 0 Tas spinlock_init)"
    by (rule spin_reach.step [OF spin_reach.init call_lock]) (simp add: spinlock_init_def)
  then show ?thesis using spinlock_waiter_can_enter [of "goto 0 Tas spinlock_init" 0] by simp
qed

end
