(* ===== verification/Ioapic.thy ===== *)
theory Ioapic
  imports Spinlock
begin

text \<open>
  The I/O APIC (ioapic.cc, ioapic.hh): its two memory-mapped registers, an index and a data
  window, the operations of \<open>gsi_interrupt\<close>, and their interleaving on several processors under
  the lock \<open>mtx\<close>.
\<close>

section \<open>The device and its operations\<close>

definition base_phys :: u64 where "base_phys = 0xfec00000"
definition index_reg_offset :: u64 where "index_reg_offset = 0"
definition data_reg_offset :: u64 where "data_reg_offset = 0x10"

record ioapic =
  index :: u32
  redir :: "u32 \<Rightarrow> u32"

text \<open>A store to one of the two mapped registers, and a load of the data register.\<close>

definition mmio_store :: "u64 \<Rightarrow> u32 \<Rightarrow> ioapic \<Rightarrow> ioapic" where
  "mmio_store a v d =
     (if a = base_phys + index_reg_offset then d\<lparr>index := v\<rparr>
      else if a = base_phys + data_reg_offset then d\<lparr>redir := (redir d)(index d := v)\<rparr>
      else d)"

definition index_reg :: u64 where "index_reg = base_phys + index_reg_offset"
definition data_reg :: u64 where "data_reg = base_phys + data_reg_offset"

definition ioapic_read :: "u32 \<Rightarrow> ioapic \<Rightarrow> u32 \<times> ioapic" where
  "ioapic_read r d = (let d = mmio_store index_reg r d in (redir d (index d), d))"

definition ioapic_write :: "u32 \<Rightarrow> u32 \<Rightarrow> ioapic \<Rightarrow> ioapic" where
  "ioapic_write r v d = mmio_store data_reg v (mmio_store index_reg r d)"

text \<open>
  \<open>gsi_interrupt\<close> with its member \<open>_gsi\<close>: the register writes of \<open>set\<close> and \<open>clear\<close>; \<open>apic_id\<close> is
  that of the first processor.
\<close>

record gsi_interrupt =
  gsi :: u32

definition set_writes :: "u32 \<Rightarrow> u32 \<Rightarrow> u32 \<Rightarrow> (u32 \<times> u32) list" where
  "set_writes apic_id g vector =
     [(0x10 + g * 2 + 1, push_bit 24 apic_id), (0x10 + g * 2, vector)]"

definition clear_writes :: "u32 \<Rightarrow> (u32 \<times> u32) list" where
  "clear_writes g = [(0x10 + g * 2, push_bit 16 1)]"

definition gsi_set :: "u32 \<Rightarrow> u32 \<Rightarrow> u32 \<Rightarrow> gsi_interrupt \<Rightarrow> ioapic \<Rightarrow> gsi_interrupt \<times> ioapic" where
  "gsi_set apic_id g vector i d =
     (i\<lparr>gsi := g\<rparr>, fold (\<lambda>(r, v). ioapic_write r v) (set_writes apic_id g vector) d)"

definition gsi_clear :: "gsi_interrupt \<Rightarrow> ioapic \<Rightarrow> ioapic" where
  "gsi_clear i d = fold (\<lambda>(r, v). ioapic_write r v) (clear_writes (gsi i)) d"

lemma mmio_simps [simp]:
  "mmio_store index_reg v d = d\<lparr>index := v\<rparr>"
  "mmio_store data_reg v d = d\<lparr>redir := (redir d)(index d := v)\<rparr>"
  by (simp_all add: mmio_store_def index_reg_def data_reg_def base_phys_def index_reg_offset_def data_reg_offset_def)

section \<open>Several processors\<close>

text \<open>
  The lock, the device, and for each processor the register writes it still has to do in its
  critical section and whether it has already selected the register of the first of them; \<open>finished\<close>
  lists the writes that are finished.
\<close>

record 'l gsi_sys =
  mtx :: 'l
  dev :: ioapic
  todo :: "nat \<Rightarrow> (u32 \<times> u32) list"
  half :: "nat \<Rightarrow> bool"
  finished :: "(u32 \<times> u32) list"

text \<open>
  A processor starts \<open>set\<close> or \<open>clear\<close>, makes a step on the lock (not while it has writes to do and
  owns it: \<open>WITH_LOCK\<close> unlocks at the end of the block), or makes one of the two stores of a write.
\<close>

inductive gsi_step ::
  "(nat \<Rightarrow> 'l \<Rightarrow> 'l \<Rightarrow> bool) \<Rightarrow> ('l \<Rightarrow> nat \<Rightarrow> bool) \<Rightarrow> 'l gsi_sys \<Rightarrow> 'l gsi_sys \<Rightarrow> bool"
  for lstep owns where
  call: "\<not> owns (mtx s) t \<Longrightarrow> todo s t = [] \<Longrightarrow> ws = set_writes a g v \<or> ws = clear_writes g \<Longrightarrow>
    gsi_step lstep owns s (s\<lparr>todo := (todo s)(t := ws)\<rparr>)"
| on_lock: "lstep t (mtx s) l \<Longrightarrow> (owns (mtx s) t \<longrightarrow> todo s t = []) \<Longrightarrow>
    gsi_step lstep owns s (s\<lparr>mtx := l\<rparr>)"
| store_index: "owns (mtx s) t \<Longrightarrow> todo s t = (r, v) # ws \<Longrightarrow> \<not> half s t \<Longrightarrow>
    gsi_step lstep owns s (s\<lparr>dev := mmio_store index_reg r (dev s), half := (half s)(t := True)\<rparr>)"
| store_data: "owns (mtx s) t \<Longrightarrow> todo s t = (r, v) # ws \<Longrightarrow> half s t \<Longrightarrow>
    gsi_step lstep owns s (s\<lparr>dev := mmio_store data_reg v (dev s), half := (half s)(t := False),
      todo := (todo s)(t := ws), finished := finished s @ [(r, v)]\<rparr>)"

inductive gsi_reach ::
  "('l \<Rightarrow> bool) \<Rightarrow> (nat \<Rightarrow> 'l \<Rightarrow> 'l \<Rightarrow> bool) \<Rightarrow> ('l \<Rightarrow> nat \<Rightarrow> bool) \<Rightarrow> ioapic \<Rightarrow> 'l gsi_sys \<Rightarrow> bool"
  for linit lstep owns d where
  start: "linit l \<Longrightarrow>
    gsi_reach linit lstep owns d \<lparr>mtx = l, dev = d, todo = (\<lambda>_. []), half = (\<lambda>_. False), finished = []\<rparr>"
| step: "gsi_reach linit lstep owns d s \<Longrightarrow> gsi_step lstep owns s s' \<Longrightarrow> gsi_reach linit lstep owns d s'"

text \<open>The effect of complete register writes, one after the other.\<close>

definition atomic_writes :: "(u32 \<times> u32) list \<Rightarrow> (u32 \<Rightarrow> u32) \<Rightarrow> u32 \<Rightarrow> u32" where
  "atomic_writes ws f = fold (\<lambda>(r, v) f. f(r := v)) ws f"

context lock_protocol
begin

definition gsi_inv :: "ioapic \<Rightarrow> 'l gsi_sys \<Rightarrow> bool" where
  "gsi_inv d s \<longleftrightarrow> lock_inv (mtx s) \<and> redir (dev s) = atomic_writes (finished s) (redir d) \<and>
     (\<forall>t. half s t \<longrightarrow> owns (mtx s) t \<and> (\<exists>r v ws. todo s t = (r, v) # ws \<and> index (dev s) = r))"

lemma gsi_inv_start:
  "lock_init l \<Longrightarrow> gsi_inv d \<lparr>mtx = l, dev = d, todo = (\<lambda>_. []), half = (\<lambda>_. False), finished = []\<rparr>"
  by (simp add: gsi_inv_def inv_init atomic_writes_def)

text \<open>An owner with a selected register keeps it: no other processor is in its critical section.\<close>

lemma gsi_inv_step: "gsi_step lock_step owns s s' \<Longrightarrow> gsi_inv d s \<Longrightarrow> gsi_inv d s'"
proof (induction rule: gsi_step.induct)
  case (call s t ws a g v)
  then show ?case by (auto simp: gsi_inv_def)
next
  case (on_lock t s l)
  have "owns l u" if "half s u" for u
  proof -
    from on_lock(3) that have u: "owns (mtx s) u" "todo s u \<noteq> []" by (auto simp: gsi_inv_def)
    then have "u \<noteq> t" using on_lock(2) by auto
    then show ?thesis using other_kept [OF on_lock(1)] u(1) by simp
  qed
  then show ?case using inv_step [OF on_lock(1)] on_lock(3) by (auto simp: gsi_inv_def)
next
  case (store_index s t r v ws)
  have others: "half s u \<longrightarrow> u = t" for u
    using owner_unique [of "mtx s" u t] store_index(1,4) by (simp add: gsi_inv_def)
  then show ?case using store_index by (simp add: gsi_inv_def) blast
next
  case (store_data s t r v ws)
  have own: "owns (mtx s) u" if "half s u" for u using store_data(4) that by (simp add: gsi_inv_def)
  have others: "half s u \<longrightarrow> u = t" for u
    using own owner_unique [of "mtx s" u t] store_data(1,4) by (simp add: gsi_inv_def)
  have idx: "index (dev s) = r" using store_data(2,3,4) by (auto simp: gsi_inv_def)
  have inv: "lock_inv (mtx s)" "redir (dev s) = atomic_writes (finished s) (redir d)"
    using store_data(4) by (simp_all add: gsi_inv_def)
  show ?case
    unfolding gsi_inv_def using inv idx others by (simp add: atomic_writes_def) blast
qed

lemma gsi_reach_inv: "gsi_reach lock_init lock_step owns d s \<Longrightarrow> gsi_inv d s"
  by (induction rule: gsi_reach.induct) (auto intro: gsi_inv_start gsi_inv_step)

lemma gsi_reach_atomic:
  "gsi_reach lock_init lock_step owns d s \<Longrightarrow> redir (dev s) = atomic_writes (finished s) (redir d)"
  using gsi_reach_inv by (simp add: gsi_inv_def)

end

section \<open>Properties\<close>

text \<open>
  A redirection entry is programmed by \<open>set\<close> and masked by \<open>clear\<close>, and no other register
  changes: the high word names the processor, the low word the vector.
\<close>

theorem gsi_set_clear:
  "redir (snd (gsi_set apic_id g vector i d)) =
      (redir d)(0x10 + g * 2 + 1 := push_bit 24 apic_id, 0x10 + g * 2 := vector) \<and>
    redir (gsi_clear (fst (gsi_set apic_id g vector i d)) d') =
      (redir d')(0x10 + g * 2 := 0x10000)"
  by (simp_all add: gsi_set_def gsi_clear_def set_writes_def clear_writes_def ioapic_write_def)

text \<open>
  C4. With the spin lock, any interleaving of \<open>set\<close> and \<open>clear\<close> on any number of processors leaves
  the I/O APIC as if each register write, two stores through the shared index register, had been
  one atomic write.
\<close>

theorem ioapic_writes_atomic:
  assumes "gsi_reach (\<lambda>l. l = spinlock_init) spin_step holds d s"
  shows "redir (dev s) = atomic_writes (finished s) (redir d)"
  using assms by (rule spin.gsi_reach_atomic)

text \<open>Processor 7 masks interrupt 4 and has made both stores.\<close>

theorem ioapic_writes_atomic_witness:
  "\<exists>s. gsi_reach (\<lambda>l. l = spinlock_init) spin_step holds \<lparr>index = 0, redir = (\<lambda>_. 0)\<rparr> s \<and>
    finished s = clear_writes 4 \<and> redir (dev s) 0x18 = 0x10000"
proof -
  let ?d = "\<lparr>index = 0, redir = (\<lambda>_. 0)\<rparr> :: ioapic"
  let ?R = "gsi_reach (\<lambda>l. l = spinlock_init) spin_step holds ?d"
  define s0 where "s0 = \<lparr>mtx = spinlock_init, dev = ?d, todo = (\<lambda>_. []), half = (\<lambda>_. False), finished = []\<rparr>"
  define s1 where "s1 = s0\<lparr>todo := (todo s0)(7 := clear_writes 4)\<rparr>"
  define s2 where "s2 = s1\<lparr>mtx := goto 7 Tas spinlock_init\<rparr>"
  define s3 where "s3 = s2\<lparr>mtx := goto 7 Crit (spinlock_init\<lparr>locked := True\<rparr>)\<rparr>"
  define s4 where "s4 = s3\<lparr>dev := mmio_store index_reg 0x18 (dev s3), half := (half s3)(7 := True)\<rparr>"
  define s5 where "s5 = s4\<lparr>dev := mmio_store data_reg 0x10000 (dev s4), half := (half s4)(7 := False),
    todo := (todo s4)(7 := []), finished := finished s4 @ [(0x18, 0x10000)]\<rparr>"
  note sd = s0_def s1_def s2_def s3_def s4_def spinlock_init_def holds_def clear_writes_def spin_defs
  have "?R s0" unfolding s0_def by (rule gsi_reach.start) simp
  then have "?R s1" by (rule gsi_reach.step) (unfold s1_def, rule call [where g = 4 and a = 0 and v = 0], auto simp: sd)
  moreover have "spin_step 7 (mtx s1) (goto 7 Tas spinlock_init)"
    using call_lock [of spinlock_init 7] by (simp add: sd)
  ultimately have "?R s2"
    unfolding s2_def by (intro gsi_reach.step [OF _ on_lock [where t = 7]]) (auto simp: sd)
  moreover have "spin_step 7 (mtx s2) (goto 7 Crit (spinlock_init\<lparr>locked := True\<rparr>))"
    by (rule lock) (simp add: sd)
  ultimately have "?R s3"
    unfolding s3_def by (intro gsi_reach.step [OF _ on_lock [where t = 7]]) (auto simp: sd)
  then have "?R s4" by (rule gsi_reach.step) (unfold s4_def, rule store_index, auto simp: sd)
  then have r: "?R s5" by (rule gsi_reach.step) (unfold s5_def, rule store_data, auto simp: sd)
  have "redir (dev s5) 0x18 = 0x10000"
    using ioapic_writes_atomic [OF r] by (simp add: s5_def s4_def s3_def s2_def s1_def s0_def atomic_writes_def)
  moreover have "finished s5 = clear_writes 4" by (simp add: s5_def sd)
  ultimately show ?thesis using r by blast
qed

end
