(* ===== verification/Apic.thy ===== *)
theory Apic
  imports Prelude
begin

text \<open>
  The local APIC drivers (apic.cc, apic.hh): the abstract class \<open>apic_driver\<close> and its two
  implementations, \<open>x2apic\<close> over model-specific registers and \<open>xapic\<close> over memory-mapped ones. The
  hardware keeps the values written and lists the interrupt commands that writes to its command
  register send. The locale \<open>ipi_driver\<close> is what callers of the abstract class rely on; both
  drivers are interpretations of it.
\<close>

section \<open>Registers\<close>

datatype apicreg = ID | LVR | TPR | APR | PPR | EOR | RRR | LDR | DFR | SPIV | ISR | TMR | IRR | ESR | ICR | ICR2
  | LVTT | LVTTHMR | LVTPC | LVT0 | LVT1 | LVTERR | TMICT | TMCCT | TMDCR | SELF_IPI

fun reg_num :: "apicreg \<Rightarrow> u32" where
  "reg_num ID = 0x20" | "reg_num LVR = 0x30" | "reg_num TPR = 0x80" | "reg_num APR = 0x90"
| "reg_num PPR = 0xa0" | "reg_num EOR = 0xb0" | "reg_num RRR = 0xc0" | "reg_num LDR = 0xd0"
| "reg_num DFR = 0xe0" | "reg_num SPIV = 0xf0" | "reg_num ISR = 0x100" | "reg_num TMR = 0x180"
| "reg_num IRR = 0x200" | "reg_num ESR = 0x280" | "reg_num ICR = 0x300" | "reg_num ICR2 = 0x310"
| "reg_num LVTT = 0x320" | "reg_num LVTTHMR = 0x330" | "reg_num LVTPC = 0x340" | "reg_num LVT0 = 0x350"
| "reg_num LVT1 = 0x360" | "reg_num LVTERR = 0x370" | "reg_num TMICT = 0x380" | "reg_num TMCCT = 0x390"
| "reg_num TMDCR = 0x3e0" | "reg_num SELF_IPI = 0x3f0"

definition X2APIC_EOI :: u32 where "X2APIC_EOI = 0x80b"
definition X2APIC_ICR :: u32 where "X2APIC_ICR = 0x830"
definition X2APIC_SELF_IPI :: u32 where "X2APIC_SELF_IPI = 0x83f"
definition IA32_APIC_BASE :: u32 where "IA32_APIC_BASE = 0x1b"

definition APIC_SHORTHAND_SELF :: u32 where "APIC_SHORTHAND_SELF = 0x40000"
definition APIC_SHORTHAND_ALL :: u32 where "APIC_SHORTHAND_ALL = 0x80000"
definition APIC_SHORTHAND_ALLBUTSELF :: u32 where "APIC_SHORTHAND_ALLBUTSELF = 0xC0000"
definition APIC_ICR_TYPE_FIXED :: u32 where "APIC_ICR_TYPE_FIXED = 0"
definition APIC_ICR_LEVEL_ASSERT :: u32 where "APIC_ICR_LEVEL_ASSERT = push_bit 14 1"
definition APIC_BASE_GLOBAL_ENABLE :: u64 where "APIC_BASE_GLOBAL_ENABLE = push_bit 11 1"
definition NMI_DELIVERY :: u32 where "NMI_DELIVERY = 4"

definition apic_delivery :: "u32 \<Rightarrow> u32" where "apic_delivery mode = push_bit 8 mode"

lemmas apic_defs = X2APIC_EOI_def X2APIC_ICR_def X2APIC_SELF_IPI_def IA32_APIC_BASE_def
  APIC_SHORTHAND_SELF_def APIC_SHORTHAND_ALL_def APIC_SHORTHAND_ALLBUTSELF_def APIC_ICR_TYPE_FIXED_def
  APIC_ICR_LEVEL_ASSERT_def APIC_BASE_GLOBAL_ENABLE_def NMI_DELIVERY_def apic_delivery_def

section \<open>The hardware\<close>

text \<open>A command: the destination and the low word (vector, delivery mode, shorthand), or a self-IPI.\<close>

datatype command = Command u32 u32 | Self u32

record lapic =
  msrs :: "u32 \<Rightarrow> u64"
  mmio :: "u32 \<Rightarrow> u32"
  commands :: "command list"
  apic_base :: u64

definition rdmsr :: "u32 \<Rightarrow> lapic \<Rightarrow> u64" where
  "rdmsr i a = msrs a i"

definition wrmsr :: "u32 \<Rightarrow> u64 \<Rightarrow> lapic \<Rightarrow> lapic" where
  "wrmsr i v a = a\<lparr>msrs := (msrs a)(i := v),
     commands := commands a @
       (if i = X2APIC_ICR then [Command (ucast (drop_bit 32 v)) (ucast v)]
        else if i = X2APIC_SELF_IPI then [Self (ucast v)] else [])\<rparr>"

text \<open>A store to the register page: writing ICR sends to the destination in the top byte of ICR2.\<close>

definition mmio_write :: "u32 \<Rightarrow> u32 \<Rightarrow> lapic \<Rightarrow> lapic" where
  "mmio_write r v a = a\<lparr>mmio := (mmio a)(r := v),
     commands := commands a @
       (if r = reg_num ICR then [Command (drop_bit 24 (mmio a (reg_num ICR2))) v] else [])\<rparr>"

section \<open>apic_driver\<close>

definition base_addr_mask :: u64 where "base_addr_mask = 0xFFFFFF000"

definition read_base :: "lapic \<Rightarrow> lapic" where
  "read_base a = a\<lparr>apic_base := rdmsr IA32_APIC_BASE a AND base_addr_mask\<rparr>"

text \<open>\<open>software_enable\<close> with the driver's \<open>write\<close>.\<close>

definition software_enable :: "(apicreg \<Rightarrow> u32 \<Rightarrow> lapic \<Rightarrow> lapic) \<Rightarrow> lapic \<Rightarrow> lapic" where
  "software_enable wr a = wr SPIV 0x1ff (wr LVT0 0 a)"

definition try_fast_eoi :: bool where "try_fast_eoi = False"
definition is_xen :: bool where "is_xen = False"

section \<open>x2apic\<close>

definition x2apic_read :: "apicreg \<Rightarrow> lapic \<Rightarrow> u32" where
  "x2apic_read r a = ucast (rdmsr (0x800 + reg_num r div 0x10) a)"

definition x2apic_write :: "apicreg \<Rightarrow> u32 \<Rightarrow> lapic \<Rightarrow> lapic" where
  "x2apic_write r v = wrmsr (0x800 + reg_num r div 0x10) (ucast v)"

definition x2apic_id :: "lapic \<Rightarrow> u32" where
  "x2apic_id a = (let i = x2apic_read ID a in
     if \<not> is_xen then i
     else if i AND 0xffffff = 0 \<and> drop_bit 24 i \<noteq> 0 then drop_bit 24 i else i)"

definition x2apic_enable :: "lapic \<Rightarrow> lapic" where
  "x2apic_enable a = software_enable x2apic_write
     (wrmsr IA32_APIC_BASE (apic_base a OR APIC_BASE_GLOBAL_ENABLE OR push_bit 10 1) a)"

definition x2apic_self_ipi :: "u32 \<Rightarrow> lapic \<Rightarrow> lapic" where
  "x2apic_self_ipi vector = wrmsr X2APIC_SELF_IPI (ucast vector)"

definition x2apic_ipi :: "u32 \<Rightarrow> u32 \<Rightarrow> lapic \<Rightarrow> lapic" where
  "x2apic_ipi apic_id vector =
     wrmsr X2APIC_ICR (ucast vector OR push_bit 32 (ucast apic_id) OR ucast APIC_ICR_LEVEL_ASSERT)"

definition x2apic_init_ipi :: "u32 \<Rightarrow> u32 \<Rightarrow> lapic \<Rightarrow> lapic" where
  "x2apic_init_ipi apic_id vector = wrmsr X2APIC_ICR (ucast vector OR push_bit 32 (ucast apic_id))"

definition x2apic_ipi_allbutself :: "u32 \<Rightarrow> lapic \<Rightarrow> lapic" where
  "x2apic_ipi_allbutself vector =
     wrmsr X2APIC_ICR (ucast (vector OR APIC_SHORTHAND_ALLBUTSELF OR APIC_ICR_LEVEL_ASSERT))"

definition x2apic_nmi_allbutself :: "lapic \<Rightarrow> lapic" where
  "x2apic_nmi_allbutself =
     wrmsr X2APIC_ICR (ucast (APIC_SHORTHAND_ALLBUTSELF OR apic_delivery NMI_DELIVERY OR APIC_ICR_LEVEL_ASSERT))"

definition x2apic_eoi :: "lapic \<Rightarrow> lapic" where
  "x2apic_eoi a = (if try_fast_eoi then a else wrmsr X2APIC_EOI 0 a)"

section \<open>xapic\<close>

definition xapic_read :: "apicreg \<Rightarrow> lapic \<Rightarrow> u32" where
  "xapic_read r a = mmio a (reg_num r)"

definition xapic_write :: "apicreg \<Rightarrow> u32 \<Rightarrow> lapic \<Rightarrow> lapic" where
  "xapic_write r = mmio_write (reg_num r)"

definition xapic_id :: "lapic \<Rightarrow> u32" where
  "xapic_id a = drop_bit 24 (xapic_read ID a)"

definition xapic_enable :: "lapic \<Rightarrow> lapic" where
  "xapic_enable a = software_enable xapic_write
     (wrmsr IA32_APIC_BASE (apic_base a OR APIC_BASE_GLOBAL_ENABLE) a)"

definition xapic_ipi :: "u32 \<Rightarrow> u32 \<Rightarrow> lapic \<Rightarrow> lapic" where
  "xapic_ipi apic_id vector a =
     xapic_write ICR (vector OR APIC_ICR_LEVEL_ASSERT) (xapic_write ICR2 (push_bit 24 apic_id) a)"

definition xapic_self_ipi :: "u32 \<Rightarrow> lapic \<Rightarrow> lapic" where
  "xapic_self_ipi vector = xapic_ipi (APIC_ICR_TYPE_FIXED OR APIC_SHORTHAND_SELF) vector"

definition xapic_init_ipi :: "u32 \<Rightarrow> u32 \<Rightarrow> lapic \<Rightarrow> lapic" where
  "xapic_init_ipi apic_id vector = xapic_ipi apic_id vector"

definition xapic_ipi_allbutself :: "u32 \<Rightarrow> lapic \<Rightarrow> lapic" where
  "xapic_ipi_allbutself vector =
     xapic_write ICR (APIC_ICR_TYPE_FIXED OR APIC_SHORTHAND_ALLBUTSELF OR vector OR APIC_ICR_LEVEL_ASSERT)"

definition xapic_nmi_allbutself :: "lapic \<Rightarrow> lapic" where
  "xapic_nmi_allbutself =
     xapic_write ICR (APIC_ICR_TYPE_FIXED OR APIC_SHORTHAND_ALLBUTSELF OR apic_delivery NMI_DELIVERY)"

definition xapic_eoi :: "lapic \<Rightarrow> lapic" where
  "xapic_eoi a = (if try_fast_eoi then a else xapic_write EOR 0 a)"

section \<open>MSI messages\<close>

record msi_message =
  msi_addr :: u64
  msi_data :: u32

definition compose_msix :: "u64 \<Rightarrow> u8 \<Rightarrow> u8 \<Rightarrow> msi_message" where
  "compose_msix base vector dest_id =
     (if vector \<le> 15 then \<lparr>msi_addr = 0, msi_data = 0\<rparr>
      else \<lparr>msi_addr = (base AND 0xFFF00000) OR push_bit 12 (ucast dest_id),
        msi_data = push_bit 8 0 OR push_bit 14 1 OR push_bit 15 0 OR ucast vector\<rparr>)"

section \<open>What the callers of a driver rely on\<close>

text \<open>Sending to a processor of the given APIC id, below 256, and reading the own id.\<close>

locale ipi_driver =
  fixes ipi :: "u32 \<Rightarrow> u32 \<Rightarrow> lapic \<Rightarrow> lapic"
    and init_ipi :: "u32 \<Rightarrow> u32 \<Rightarrow> lapic \<Rightarrow> lapic"
    and my_id :: "lapic \<Rightarrow> u32"
  assumes ipi_sends: "unat d < 256 \<Longrightarrow>
      commands (ipi d v a) = commands a @ [Command d (v OR APIC_ICR_LEVEL_ASSERT)]"
    and init_ipi_sends: "unat d < 256 \<Longrightarrow> v AND APIC_ICR_LEVEL_ASSERT \<noteq> 0 \<Longrightarrow>
      commands (init_ipi d v a) = commands a @ [Command d v]"
    and my_id_kept: "my_id (ipi d v a) = my_id a" "my_id (init_ipi d v a) = my_id a"
begin

lemma init_ipis_send:
  assumes "\<forall>(d, v) \<in> set xs. unat d < 256 \<and> v AND APIC_ICR_LEVEL_ASSERT \<noteq> 0"
  shows "commands (fold (\<lambda>(d, v). init_ipi d v) xs a) = commands a @ map (\<lambda>(d, v). Command d v) xs"
  using assms by (induction xs arbitrary: a) (auto simp: init_ipi_sends)

end

lemma or_set_bit: "(v :: 'a::len word) AND push_bit k 1 \<noteq> 0 \<Longrightarrow> v OR push_bit k 1 = v"
proof -
  assume a: "v AND push_bit k 1 \<noteq> 0"
  have "bit v k"
  proof (rule ccontr)
    assume "\<not> bit v k"
    then have "v AND push_bit k 1 = 0" by (auto intro!: bit_word_eqI simp: bit_simps)
    then show False using a by simp
  qed
  then show ?thesis by (auto intro!: bit_word_eqI simp: bit_simps)
qed

lemma level_assert_or: "v AND APIC_ICR_LEVEL_ASSERT \<noteq> 0 \<Longrightarrow> v OR APIC_ICR_LEVEL_ASSERT = v"
  unfolding APIC_ICR_LEVEL_ASSERT_def by (rule or_set_bit)

lemma dest_bits:
  fixes d :: u32 and v :: u32
  shows "ucast (drop_bit 32 (ucast v OR push_bit 32 (ucast d) :: u64)) = d"
    "ucast (drop_bit 32 (ucast v) OR drop_bit 32 (push_bit 32 (ucast d)) :: u64) = d"
    "ucast (ucast v OR push_bit 32 (ucast d) :: u64) = v"
proof -
  have "\<not> bit v (32 + n)" for n using bit_imp_le_length [of v "32 + n"] by auto
  then show "ucast (drop_bit 32 (ucast v OR push_bit 32 (ucast d) :: u64)) = d"
    "ucast (drop_bit 32 (ucast v) OR drop_bit 32 (push_bit 32 (ucast d)) :: u64) = d"
    "ucast (ucast v OR push_bit 32 (ucast d) :: u64) = v"
    by (auto intro!: bit_word_eqI simp: bit_simps)
qed

lemma dest_byte:
  fixes d :: u32 assumes "unat d < 256" shows "drop_bit 24 (push_bit 24 d) = d"
proof -
  have "unat (take_bit 8 d) = unat d" using assms by (simp add: unsigned_take_bit_eq take_bit_nat_eq_self)
  then have d8: "take_bit 8 d = d" by (simp add: word_unat_eq_iff)
  have "bit d n \<Longrightarrow> n < 8" for n using arg_cong [OF d8, of "\<lambda>x. bit x n"] by (simp add: bit_take_bit_iff)
  then show ?thesis by (auto intro!: bit_word_eqI simp: bit_simps)
qed

lemma xapic_ipi_sends:
  "unat d < 256 \<Longrightarrow> commands (xapic_ipi d v a) = commands a @ [Command d (v OR APIC_ICR_LEVEL_ASSERT)]"
  by (simp add: xapic_ipi_def xapic_write_def mmio_write_def dest_byte)

lemma x2apic_or:
  "(ucast (v :: u32) OR push_bit 32 (ucast (d :: u32)) OR ucast (w :: u32) :: u64) =
    ucast (v OR w) OR push_bit 32 (ucast d)"
  by (auto intro!: bit_word_eqI simp: bit_simps)

lemma x2apic_ipi_sends:
  "commands (x2apic_ipi d v a) = commands a @ [Command d (v OR APIC_ICR_LEVEL_ASSERT)]"
  by (simp add: x2apic_ipi_def wrmsr_def x2apic_or dest_bits)

interpretation x2: ipi_driver x2apic_ipi x2apic_init_ipi x2apic_id
proof
  show "commands (x2apic_ipi d v a) = commands a @ [Command d (v OR APIC_ICR_LEVEL_ASSERT)]" for d v a
    by (rule x2apic_ipi_sends)
  show "commands (x2apic_init_ipi d v a) = commands a @ [Command d v]" for d v a
    by (simp add: x2apic_init_ipi_def wrmsr_def dest_bits)
qed (simp_all add: x2apic_id_def x2apic_read_def rdmsr_def x2apic_ipi_def x2apic_init_ipi_def wrmsr_def
  X2APIC_ICR_def is_xen_def)

interpretation x: ipi_driver xapic_ipi xapic_init_ipi xapic_id
proof
  show "unat d < 256 \<Longrightarrow> commands (xapic_ipi d v a) = commands a @ [Command d (v OR APIC_ICR_LEVEL_ASSERT)]"
    for d v a by (rule xapic_ipi_sends)
  show "unat d < 256 \<Longrightarrow> v AND APIC_ICR_LEVEL_ASSERT \<noteq> 0 \<Longrightarrow>
      commands (xapic_init_ipi d v a) = commands a @ [Command d v]" for d v a
    by (simp add: xapic_init_ipi_def xapic_ipi_sends level_assert_or)
qed (simp_all add: xapic_id_def xapic_read_def xapic_ipi_def xapic_init_ipi_def xapic_write_def mmio_write_def)

section \<open>Properties\<close>

text \<open>
  C7. The two drivers are interchangeable for directed interrupts: to any APIC id below 256 they
  send the same command, with the same destination and the same low word, and the broadcast of a
  vector to all other processors has the same low word too.
\<close>

theorem apic_drivers_agree:
  assumes "unat d < 256"
  shows "commands (x2apic_ipi d v a) = commands (xapic_ipi d v a) \<and>
    (v AND APIC_ICR_LEVEL_ASSERT \<noteq> 0 \<longrightarrow>
      commands (x2apic_init_ipi d v a) = commands (xapic_init_ipi d v a)) \<and>
    (\<exists>d1 d2 low. commands (x2apic_ipi_allbutself v a) = commands a @ [Command d1 low] \<and>
      commands (xapic_ipi_allbutself v a) = commands a @ [Command d2 low])"
proof -
  have "ucast (ucast w :: u64) = w" for w :: u32 by (auto intro!: bit_word_eqI simp: bit_simps)
  then show ?thesis
    using assms by (auto simp: x2.ipi_sends x.ipi_sends x2.init_ipi_sends x.init_ipi_sends
      x2apic_ipi_allbutself_def xapic_ipi_allbutself_def wrmsr_def xapic_write_def mmio_write_def
      APIC_ICR_TYPE_FIXED_def or.commute or.left_commute)
qed

theorem apic_drivers_agree_witness:
  "commands (x2apic_ipi 3 0x31 \<lparr>msrs = (\<lambda>_. 0), mmio = (\<lambda>_. 0), commands = [], apic_base = 0xfee00000\<rparr>) =
    commands (xapic_ipi 3 0x31 \<lparr>msrs = (\<lambda>_. 0), mmio = (\<lambda>_. 0), commands = [], apic_base = 0xfee00000\<rparr>)"
  using apic_drivers_agree [of 3 "0x31" "\<lparr>msrs = (\<lambda>_. 0), mmio = (\<lambda>_. 0), commands = [], apic_base = 0xfee00000\<rparr>"]
  by simp

text \<open>
  A self-IPI through \<open>xapic\<close> does not go to the processor itself: the shorthand is passed as
  the destination, shifted out of its register, and the command goes to the processor with APIC
  id 0, while \<open>x2apic\<close> sends a real self-IPI.
\<close>

theorem xapic_self_ipi_misses:
  "commands (xapic_self_ipi vector a) = commands a @ [Command 0 (vector OR APIC_ICR_LEVEL_ASSERT)] \<and>
   commands (x2apic_self_ipi vector a) = commands a @ [Self vector]"
proof -
  have "ucast (ucast w :: u64) = w" for w :: u32 by (auto intro!: bit_word_eqI simp: bit_simps)
  then show ?thesis
    by (simp add: xapic_self_ipi_def xapic_ipi_def xapic_write_def mmio_write_def APIC_SHORTHAND_SELF_def
      APIC_ICR_TYPE_FIXED_def x2apic_self_ipi_def wrmsr_def X2APIC_ICR_def X2APIC_SELF_IPI_def)
qed

end
