(* ===== verification/Smp.thy ===== *)
theory Smp
  imports Apic
begin

text \<open>
  Multiprocessor start-up (smp.cc, smp.hh): finding the processors in the ACPI table MADT, waking
  them with the local APIC driver, and the counter on which all of them meet before they go on.
\<close>

section \<open>The processors of the MADT\<close>

definition max_ncpu :: nat where "max_ncpu = 24"

record cpu =
  apic_id :: u32
  acpi_id :: u32
  cpu_nr :: nat

definition read_u32 :: "mem \<Rightarrow> ptr \<Rightarrow> u32 option" where
  "read_u32 m p = do {
     a \<leftarrow> m p; b \<leftarrow> m (p + 1); c \<leftarrow> m (p + 2); d \<leftarrow> m (p + 3);
     Some (ucast a OR push_bit 8 (ucast b) OR push_bit 16 (ucast c) OR push_bit 24 (ucast d))
   }"

definition ACPI_MADT_TYPE_LOCAL_APIC :: u8 where "ACPI_MADT_TYPE_LOCAL_APIC = 0"
definition ACPI_MADT_ENABLED :: u32 where "ACPI_MADT_ENABLED = 1"

text \<open>
  \<open>cpus->push_back\<close> on the vector with room for \<open>max_ncpu\<close>: one more needs the heap, whose
  \<open>operator new\<close> aborts (None).
\<close>

definition push_cpu :: "cpu \<Rightarrow> cpu list \<Rightarrow> cpu list option" where
  "push_cpu c cpus = (if length cpus < max_ncpu then Some (cpus @ [c]) else None)"

text \<open>The loop over the subtables; it compares for equality with the end.\<close>

partial_function (option) madt_loop :: "mem \<Rightarrow> ptr \<Rightarrow> ptr \<Rightarrow> nat \<Rightarrow> cpu list \<Rightarrow> cpu list option" where
  "madt_loop m subtable madt_end nr cpus =
     (if subtable = madt_end then Some cpus
      else do {
        ty \<leftarrow> m subtable;
        (nr, cpus) \<leftarrow>
          (if ty = ACPI_MADT_TYPE_LOCAL_APIC then do {
             flags \<leftarrow> read_u32 m (subtable + 4);
             if flags AND ACPI_MADT_ENABLED = 0 then Some (nr, cpus)
             else do {
               i \<leftarrow> m (subtable + 3);
               pid \<leftarrow> m (subtable + 2);
               cpus \<leftarrow> push_cpu \<lparr>apic_id = ucast i, acpi_id = ucast pid, cpu_nr = nr\<rparr> cpus;
               Some (nr + 1, cpus)
             }
           }
           else Some (nr, cpus));
        len \<leftarrow> m (subtable + 1);
        madt_loop m (subtable + unat len) madt_end nr cpus
      })"

text \<open>\<open>madt\<close> is the table that \<open>AcpiGetTable\<close> returned: 44 bytes of header, the length at 4.\<close>

definition parse_madt :: "mem \<Rightarrow> ptr \<Rightarrow> cpu list option" where
  "parse_madt m madt = do {
     len \<leftarrow> read_u32 m (madt + 4);
     madt_loop m (madt + 44) (madt + unat len) 0 []
   }"

text \<open>The index of the first processor with the APIC id of the running one; none aborts.\<close>

fun find_cpu :: "u32 \<Rightarrow> cpu list \<Rightarrow> nat option" where
  "find_cpu i [] = None"
| "find_cpu i (c # cs) = (if apic_id c = i then Some 0 else map_option Suc (find_cpu i cs))"

definition smp_initial_find_current_cpu :: "(lapic \<Rightarrow> u32) \<Rightarrow> cpu list \<Rightarrow> lapic \<Rightarrow> nat option" where
  "smp_initial_find_current_cpu my_id cpus a = find_cpu (my_id a) cpus"

section \<open>Waking the others\<close>

definition wake :: "(u32 \<Rightarrow> u32 \<Rightarrow> lapic \<Rightarrow> lapic) \<Rightarrow> cpu \<Rightarrow> lapic \<Rightarrow> lapic" where
  "wake init_ipi c a =
     init_ipi (apic_id c) 0x4600 (init_ipi (apic_id c) 0x4600 (init_ipi (apic_id c) 0x4500 a))"

definition launch ::
  "(u32 \<Rightarrow> u32 \<Rightarrow> lapic \<Rightarrow> lapic) \<Rightarrow> (lapic \<Rightarrow> u32) \<Rightarrow> cpu list \<Rightarrow> lapic \<Rightarrow> lapic option" where
  "launch init_ipi my_id cpus a = do {
     boot \<leftarrow> smp_initial_find_current_cpu my_id cpus a;
     Some (fold (\<lambda>i. if i = boot then id else wake init_ipi (cpus ! i)) [0..<length cpus] a)
   }"

section \<open>The meeting point\<close>

text \<open>
  \<open>n\<close> processors, of which \<open>boot\<close> runs \<open>launch\<close>: \<open>woken\<close> have been sent their start-up interrupt,
  \<open>arrived\<close> have incremented \<open>smp_processors\<close>, \<open>passed\<close> have seen it equal to the number of
  processors; \<open>next_cpu\<close> is the loop index of \<open>launch\<close>.
\<close>

record smp_state =
  next_cpu :: nat
  smp_processors :: u32
  woken :: "nat set"
  arrived :: "nat set"
  passed :: "nat set"

definition smp_start :: smp_state where
  "smp_start = \<lparr>next_cpu = 0, smp_processors = 1, woken = {}, arrived = {}, passed = {}\<rparr>"

inductive smp_step :: "nat \<Rightarrow> nat \<Rightarrow> smp_state \<Rightarrow> smp_state \<Rightarrow> bool" for n boot where
  send: "next_cpu s < n \<Longrightarrow>
    smp_step n boot s (s\<lparr>next_cpu := next_cpu s + 1,
      woken := (if next_cpu s = boot then woken s else insert (next_cpu s) (woken s))\<rparr>)"
| smp_main_arrive: "i \<in> woken s \<Longrightarrow> i \<notin> arrived s \<Longrightarrow>
    smp_step n boot s (s\<lparr>smp_processors := smp_processors s + 1, arrived := insert i (arrived s)\<rparr>)"
| smp_main_pass: "i \<in> arrived s \<Longrightarrow> smp_processors s = of_nat n \<Longrightarrow>
    smp_step n boot s (s\<lparr>passed := insert i (passed s)\<rparr>)"
| launch_pass: "next_cpu s = n \<Longrightarrow> smp_processors s = of_nat n \<Longrightarrow>
    smp_step n boot s (s\<lparr>passed := insert boot (passed s)\<rparr>)"

inductive smp_reach :: "nat \<Rightarrow> nat \<Rightarrow> smp_state \<Rightarrow> bool" for n boot where
  smp_init: "smp_reach n boot smp_start"
| smp_next: "smp_reach n boot s \<Longrightarrow> smp_step n boot s s' \<Longrightarrow> smp_reach n boot s'"

definition smp_inv :: "nat \<Rightarrow> nat \<Rightarrow> smp_state \<Rightarrow> bool" where
  "smp_inv n boot s \<longleftrightarrow> next_cpu s \<le> n \<and> woken s \<subseteq> {..<n} - {boot} \<and> arrived s \<subseteq> woken s \<and>
     smp_processors s = of_nat (card (arrived s) + 1) \<and>
     (passed s \<noteq> {} \<longrightarrow> arrived s = {..<n} - {boot}) \<and> passed s \<subseteq> insert boot (arrived s)"

lemma arrived_card:
  assumes "smp_inv n boot s" "boot < n" "n \<le> max_ncpu"
  shows "card (arrived s) < n" "smp_processors s = of_nat n \<Longrightarrow> arrived s = {..<n} - {boot}"
proof -
  have sub: "arrived s \<subseteq> {..<n} - {boot}" using assms(1) by (auto simp: smp_inv_def)
  have c: "card ({..<n} - {boot}) = n - 1" using assms(2) by simp
  then have le: "card (arrived s) \<le> n - 1" using card_mono [OF _ sub] by simp
  then show "card (arrived s) < n" using assms(2) by simp
  assume "smp_processors s = of_nat n"
  then have "(of_nat (card (arrived s) + 1) :: u32) = of_nat n" using assms(1) by (simp add: smp_inv_def)
  then have "unat (of_nat (card (arrived s) + 1) :: u32) = unat (of_nat n :: u32)" by (rule arg_cong)
  moreover have "unat (of_nat (card (arrived s) + 1) :: u32) = card (arrived s) + 1" "unat (of_nat n :: u32) = n"
    using le assms(2,3) by (intro unat_of_nat_u32; simp add: max_ncpu_def)+
  ultimately have "card (arrived s) + 1 = n" by simp
  then show "arrived s = {..<n} - {boot}" using sub c by (intro card_subset_eq) auto
qed

lemma smp_inv_step:
  assumes "smp_step n boot s s'" "smp_inv n boot s" "boot < n" "n \<le> max_ncpu"
  shows "smp_inv n boot s'"
  using assms(1)
proof cases
  case send
  then show ?thesis using assms(2) by (auto simp: smp_inv_def)
next
  case (smp_main_arrive i)
  have "arrived s \<subseteq> {..<n}" using assms(2) by (auto simp: smp_inv_def)
  then have fin: "finite (arrived s)" by (rule finite_subset) simp
  have "passed s = {}"
    using assms(2) smp_main_arrive by (auto simp: smp_inv_def)
  then show ?thesis using smp_main_arrive assms(2) fin by (auto simp: smp_inv_def algebra_simps)
next
  case (smp_main_pass i)
  then show ?thesis using arrived_card(2) [OF assms(2-4)] assms(2) by (auto simp: smp_inv_def)
next
  case launch_pass
  then show ?thesis using arrived_card(2) [OF assms(2-4)] assms(2) by (auto simp: smp_inv_def)
qed

lemma smp_reach_inv: "smp_reach n boot s \<Longrightarrow> boot < n \<Longrightarrow> n \<le> max_ncpu \<Longrightarrow> smp_inv n boot s"
proof (induction rule: smp_reach.induct)
  case smp_init
  then show ?case by (simp add: smp_inv_def smp_start_def)
next
  case (smp_next s s')
  then show ?case using smp_inv_step by blast
qed

section \<open>Well-formed tables\<close>

datatype subtable = LocalApic u8 u8 u32 | Other u8 "u8 list"

fun sub_bytes :: "subtable \<Rightarrow> u8 list" where
  "sub_bytes (LocalApic pid i flags) =
     [0, 8, pid, i, ucast flags, ucast (drop_bit 8 flags), ucast (drop_bit 16 flags), ucast (drop_bit 24 flags)]"
| "sub_bytes (Other ty payload) = ty # of_nat (length payload + 2) # payload"

fun wf_sub :: "subtable \<Rightarrow> bool" where
  "wf_sub (LocalApic pid i flags) = True"
| "wf_sub (Other ty payload) \<longleftrightarrow> ty \<noteq> 0 \<and> length payload < 254"

fun enabled_apics :: "nat \<Rightarrow> subtable list \<Rightarrow> cpu list" where
  "enabled_apics nr [] = []"
| "enabled_apics nr (LocalApic pid i flags # ss) =
     (if flags AND 1 = 0 then enabled_apics nr ss
      else \<lparr>apic_id = ucast i, acpi_id = ucast pid, cpu_nr = nr\<rparr> # enabled_apics (nr + 1) ss)"
| "enabled_apics nr (Other ty payload # ss) = enabled_apics nr ss"

lemma le32:
  fixes x :: u32
  shows "ucast (ucast x :: u8) OR push_bit 8 (ucast (ucast (drop_bit 8 x) :: u8)) OR
    push_bit 16 (ucast (ucast (drop_bit 16 x) :: u8)) OR push_bit 24 (ucast (ucast (drop_bit 24 x) :: u8)) = x"
    (is "?l = _")
proof (rule bit_word_eqI)
  fix n assume "n < LENGTH(32)"
  then consider "n < 8" | "8 \<le> n" "n < 16" | "16 \<le> n" "n < 24" | "24 \<le> n" "n < 32" by fastforce
  then show "bit ?l n = bit x n"
    by cases (auto simp: bit_simps)
qed

lemma read_u32_bytes:
  assumes "m p = Some (ucast x)" "m (p + 1) = Some (ucast (drop_bit 8 x))"
    "m (p + 2) = Some (ucast (drop_bit 16 x))" "m (p + 3) = Some (ucast (drop_bit 24 x))"
  shows "read_u32 m p = Some x"
  unfolding read_u32_def assms Option.bind.simps le32 ..

lemma madt_loop_entries:
  "bytes_at m p (concat (map sub_bytes ss)) \<Longrightarrow> list_all wf_sub ss \<Longrightarrow>
    length cpus + length (enabled_apics nr ss) \<le> max_ncpu \<Longrightarrow>
    madt_loop m p (p + length (concat (map sub_bytes ss))) nr cpus = Some (cpus @ enabled_apics nr ss)"
proof (induction ss arbitrary: p nr cpus)
  case Nil
  then show ?case by (simp add: madt_loop.simps)
next
  case (Cons s ss)
  show ?case
  proof (cases s)
    case (LocalApic pid i flags)
    then have b: "m p = Some 0" "m (p + 1) = Some 8" "m (p + 2) = Some pid" "m (p + 3) = Some i"
        "read_u32 m (p + 4) = Some flags" "bytes_at m (p + 8) (concat (map sub_bytes ss))"
      using Cons.prems(1) read_u32_bytes [of m "p + 4" flags]
      by (simp_all add: eval_nat_numeral)
    define e where "e = p + 8 + length (concat (map sub_bytes ss))"
    have step: "madt_loop m p e nr cpus = (if flags AND 1 = 0 then madt_loop m (p + 8) e nr cpus
        else do {
          cpus \<leftarrow> push_cpu \<lparr>apic_id = ucast i, acpi_id = ucast pid, cpu_nr = nr\<rparr> cpus;
          madt_loop m (p + 8) e (nr + 1) cpus
        })"
    proof -
      have u: "unat (8 :: u8) = 8" "p \<noteq> e" by (simp_all add: e_def)
      show ?thesis
        by (subst madt_loop.simps)
          (simp add: b(1,4,5) b(2,3) [simplified] u ACPI_MADT_TYPE_LOCAL_APIC_def ACPI_MADT_ENABLED_def)
    qed
    have en: "p + length (concat (map sub_bytes (s # ss))) = e" by (simp add: LocalApic e_def)
    have "madt_loop m p e nr cpus = Some (cpus @ enabled_apics nr (s # ss))"
      using step Cons.IH [OF b(6), folded e_def] Cons.prems(2,3)
      by (cases "flags AND 1 = 0") (auto simp: LocalApic push_cpu_def)
    then show ?thesis unfolding en .
  next
    case (Other ty pl)
    then have b: "m p = Some ty" "ty \<noteq> 0" "m (p + 1) = Some (of_nat (length pl + 2))" "length pl + 2 < 256"
        "bytes_at m (p + (length pl + 2)) (concat (map sub_bytes ss))"
      using Cons.prems(1,2) by (simp_all add: bytes_at_append add.commute)
    have l: "unat (of_nat (length pl + 2) :: u8) = length pl + 2"
      by (rule unat_of_nat_u8) (rule b(4))
    show ?thesis
      using b l Cons.IH [OF b(5)] Cons.prems(2,3)
      by (subst madt_loop.simps) (simp add: Other ACPI_MADT_TYPE_LOCAL_APIC_def add.assoc del: of_nat_add of_nat_Suc)
  qed
qed

section \<open>Properties\<close>

text \<open>
  C8. For every well-formed table with at most 24 enabled local APICs, \<open>parse_madt\<close> returns exactly
  these, in the order of the table and numbered from 0, whatever other subtables lie between them.
\<close>

theorem parse_madt_lists_cpus:
  assumes "bytes_at m (madt + 44) (concat (map sub_bytes ss))" and "list_all wf_sub ss"
    and "length (enabled_apics 0 ss) \<le> 24" and "read_u32 m (madt + 4) = Some len"
    and "unat len = 44 + length (concat (map sub_bytes ss))"
  shows "parse_madt m madt = Some (enabled_apics 0 ss)"
  using madt_loop_entries [of m "madt + 44" ss "[]" 0] assms
  by (simp add: parse_madt_def max_ncpu_def add.assoc)

text \<open>A table with an I/O APIC and two processors, one of them disabled.\<close>

theorem parse_madt_lists_cpus_witness:
  "parse_madt (mem_of 4 ([60 + 14, 0, 0, 0] @ replicate 36 0 @
      [1, 12, 0, 0, 0, 0, 0, 0, 0, 0, 0, 0] @ [0, 8, 1, 2, 1, 0, 0, 0] @ [0, 8, 3, 4, 0, 0, 0, 0] @ [2, 2])) 0 =
    Some [\<lparr>apic_id = 2, acpi_id = 1, cpu_nr = 0\<rparr>]"
proof -
  let ?bs = "[1, 12, 0, 0, 0, 0, 0, 0, 0, 0, 0, 0] @ [0, 8, 1, 2, 1, 0, 0, 0] @ [0, 8, 3, 4, 0, 0, 0, 0] @ [2, 2]"
  define m where "m = mem_of 4 ([60 + 14, 0, 0, 0] @ replicate 36 0 @ ?bs)"
  let ?ss = "[Other 1 (replicate 10 0), LocalApic 1 2 1, LocalApic 3 4 0, Other 2 []]"
  have c: "concat (map sub_bytes ?ss) = ?bs" by (simp add: eval_nat_numeral)
  have "bytes_at m 4 ([60 + 14, 0, 0, 0] @ replicate 36 0 @ ?bs)" unfolding m_def by (rule mem_of_bytes)
  then have b: "bytes_at m 4 [74, 0, 0, 0]" "bytes_at m 44 ?bs" by (simp_all only: bytes_at_append) simp_all
  have "read_u32 m (0 + 4) = Some 74" using b(1) by (simp add: read_u32_def)
  then have "parse_madt m 0 = Some [\<lparr>apic_id = 2, acpi_id = 1, cpu_nr = 0\<rparr>]"
    using parse_madt_lists_cpus [of m 0 ?ss 74] b(2) unfolding c by simp
  then show ?thesis unfolding m_def .
qed

text \<open>
  A subtable of length 0, of any type but the local APIC, stops the kernel: \<open>parse_madt\<close> looks
  at it again and again and never returns.
\<close>

theorem madt_zero_length_hangs:
  assumes "m p = Some ty" and "ty \<noteq> 0" and "m (p + 1) = Some 0" and "p \<noteq> madt_end"
  shows "madt_loop m p madt_end nr cpus = None"
proof -
  have "madt_loop m' q e nr cpus = Some r \<Longrightarrow> \<not> (m' = m \<and> q = p \<and> e = madt_end)" for m' q e nr cpus r
  proof (rule madt_loop.raw_induct [where P = "\<lambda>m' q e nr cpus r. \<not> (m' = m \<and> q = p \<and> e = madt_end)"])
    fix rec m' q e nr cpus r
    assume ih: "\<And>m' q e nr cpus r. rec m' q e nr cpus = Some r \<Longrightarrow> \<not> (m' = m \<and> q = p \<and> e = madt_end)"
      and body: "(if q = e then Some cpus
        else do {
          ty \<leftarrow> m' q;
          (nr, cpus) \<leftarrow>
            (if ty = ACPI_MADT_TYPE_LOCAL_APIC then do {
               flags \<leftarrow> read_u32 m' (q + 4);
               if flags AND ACPI_MADT_ENABLED = 0 then Some (nr, cpus)
               else do {
                 i \<leftarrow> m' (q + 3);
                 pid \<leftarrow> m' (q + 2);
                 cpus \<leftarrow> push_cpu \<lparr>apic_id = ucast i, acpi_id = ucast pid, cpu_nr = nr\<rparr> cpus;
                 Some (nr + 1, cpus)
               }
             }
             else Some (nr, cpus));
          len \<leftarrow> m' (q + 1);
          rec m' (q + unat len) e nr cpus
        }) = Some r"
    show "\<not> (m' = m \<and> q = p \<and> e = madt_end)"
    proof
      assume a: "m' = m \<and> q = p \<and> e = madt_end"
      have "m (Suc p) = Some 0" using assms(3) by simp
      then have "rec m' q e nr cpus = Some r"
        using body a assms(1,2,4) by (simp add: ACPI_MADT_TYPE_LOCAL_APIC_def)
      then show False using ih a by blast
    qed
  qed
  then have "madt_loop m p madt_end nr cpus \<noteq> Some r" for r by blast
  then show ?thesis by (meson not_None_eq)
qed

theorem madt_zero_length_hangs_witness: "madt_loop (mem_of 44 [1, 0]) 44 46 0 [] = None"
  using madt_zero_length_hangs [of "mem_of 44 [1, 0]" 44 1 46 0 "[]"] by simp

text \<open>What \<open>launch\<close> sends, with any driver that keeps the contract.\<close>

definition wake_commands :: "cpu \<Rightarrow> command list" where
  "wake_commands c = [Command (apic_id c) 0x4500, Command (apic_id c) 0x4600, Command (apic_id c) 0x4600]"

lemma skip_nth:
  "boot < length xs \<Longrightarrow> concat (map (\<lambda>i. if i = boot then [] else f (xs ! i)) [0..<length xs]) =
    concat (map f (take boot xs @ drop (Suc boot) xs))"
proof (induction xs arbitrary: boot)
  case (Cons x xs)
  have shift: "[0..<length (x # xs)] = 0 # map Suc [0..<length xs]" by (simp add: upt_conv_Cons map_Suc_upt del: upt_Suc)
  show ?case
  proof (cases boot)
    case 0
    have "map (\<lambda>i. f (xs ! i)) [0..<length xs] = map f xs" by (rule nth_equalityI) simp_all
    then show ?thesis unfolding shift by (simp add: 0 comp_def)
  next
    case (Suc k)
    then show ?thesis unfolding shift using Cons.IH [of k] Cons.prems by (simp add: comp_def cong: if_cong)
  qed
qed simp

lemma find_cpu_less: "find_cpu i cpus = Some k \<Longrightarrow> k < length cpus"
  by (induction cpus arbitrary: k) (auto split: if_splits)

context ipi_driver
begin

lemma wake_sends:
  assumes "unat (apic_id c) < 256"
  shows "commands (wake init_ipi c a) = commands a @ wake_commands c"
proof -
  have "(0x4500 :: u32) AND APIC_ICR_LEVEL_ASSERT \<noteq> 0" "(0x4600 :: u32) AND APIC_ICR_LEVEL_ASSERT \<noteq> 0"
    by (simp_all add: APIC_ICR_LEVEL_ASSERT_def)
  then show ?thesis using assms by (simp add: wake_def wake_commands_def init_ipi_sends)
qed

lemma launch_sends:
  assumes "\<forall>c \<in> set cpus. unat (apic_id c) < 256" "find_cpu (my_id a) cpus = Some boot"
  shows "map_option commands (launch init_ipi my_id cpus a) =
    Some (commands a @ concat (map wake_commands (take boot cpus @ drop (Suc boot) cpus)))"
proof -
  have "commands (fold (\<lambda>i. if i = boot then id else wake init_ipi (cpus ! i)) is a) =
      commands a @ concat (map (\<lambda>i. if i = boot then [] else wake_commands (cpus ! i)) is)"
    if "set is \<subseteq> {..<length cpus}" for "is"
    using that assms(1) by (induction "is" arbitrary: a) (auto simp: wake_sends)
  moreover have "set [0..<length cpus] \<subseteq> {..<length cpus}" by auto
  ultimately have "commands (fold (\<lambda>i. if i = boot then id else wake init_ipi (cpus ! i)) [0..<length cpus] a) =
      commands a @ concat (map (\<lambda>i. if i = boot then [] else wake_commands (cpus ! i)) [0..<length cpus])" by blast
  then show ?thesis
    using skip_nth [OF find_cpu_less [OF assms(2)], of wake_commands] assms(2)
    by (simp add: launch_def smp_initial_find_current_cpu_def)
qed

end

text \<open>
  C11. \<open>launch\<close> sends INIT and two start-up commands to every processor but the one it runs on, in
  table order, and nothing else, and it does so with either APIC driver.
\<close>

theorem launch_wakes_all_others:
  assumes "\<forall>c \<in> set cpus. unat (apic_id c) < 256"
    and "find_cpu (x2apic_id a) cpus = Some boot" and "xapic_id a = x2apic_id a"
  shows "map_option commands (launch x2apic_init_ipi x2apic_id cpus a) =
      Some (commands a @ concat (map wake_commands (take boot cpus @ drop (boot + 1) cpus))) \<and>
    map_option commands (launch xapic_init_ipi xapic_id cpus a) =
      map_option commands (launch x2apic_init_ipi x2apic_id cpus a)"
proof -
  have k: "find_cpu (xapic_id a) cpus = Some boot" using assms(2,3) by simp
  show ?thesis by (simp only: x2.launch_sends [OF assms(1,2)] x.launch_sends [OF assms(1) k] Suc_eq_plus1)
qed

text \<open>Three processors, of which the second one boots.\<close>

theorem launch_wakes_all_others_witness:
  "map_option commands (launch xapic_init_ipi xapic_id
      [\<lparr>apic_id = 0, acpi_id = 0, cpu_nr = 0\<rparr>, \<lparr>apic_id = 2, acpi_id = 1, cpu_nr = 1\<rparr>, \<lparr>apic_id = 4, acpi_id = 2, cpu_nr = 2\<rparr>]
      \<lparr>msrs = (\<lambda>_. 2), mmio = (\<lambda>_. 0x2000000), commands = [], apic_base = 0xfee00000\<rparr>) =
    Some [Command 0 0x4500, Command 0 0x4600, Command 0 0x4600, Command 4 0x4500, Command 4 0x4600, Command 4 0x4600]"
proof -
  let ?cpus = "[\<lparr>apic_id = 0, acpi_id = 0, cpu_nr = 0\<rparr>, \<lparr>apic_id = 2, acpi_id = 1, cpu_nr = 1\<rparr>, \<lparr>apic_id = 4, acpi_id = 2, cpu_nr = 2\<rparr>]"
  let ?a = "\<lparr>msrs = (\<lambda>_. 2), mmio = (\<lambda>_. 0x2000000), commands = [], apic_base = 0xfee00000\<rparr>"
  have i: "x2apic_id ?a = 2" "xapic_id ?a = 2"
    by (simp_all add: x2apic_id_def x2apic_read_def rdmsr_def is_xen_def xapic_id_def xapic_read_def)
  show ?thesis
    using launch_wakes_all_others [of ?cpus ?a 1] by (simp add: i wake_commands_def)
qed

text \<open>
  C5. No processor passes the meeting point before all have arrived: whenever any of them, the one
  that boots or another, has gone on, every processor but the booting one has counted itself.
\<close>

theorem smp_barrier:
  assumes "smp_reach n boot s" and "boot < n" and "n \<le> 24" and "passed s \<noteq> {}"
  shows "arrived s = {..<n} - {boot} \<and> smp_processors s = of_nat n"
proof -
  have inv: "smp_inv n boot s" using smp_reach_inv assms(1-3) by (simp add: max_ncpu_def)
  then have ar: "arrived s = {..<n} - {boot}" using assms(4) by (simp add: smp_inv_def)
  then have c: "card (arrived s) + 1 = n" using assms(2) by simp
  have "smp_processors s = of_nat (card (arrived s) + 1)" using inv by (simp only: smp_inv_def)
  then show ?thesis using ar unfolding c by simp
qed

text \<open>Two processors meet.\<close>

theorem smp_barrier_witness:
  "\<exists>s. smp_reach 2 0 s \<and> passed s = {0} \<and> arrived s = {1}"
proof -
  define s1 where "s1 = smp_start\<lparr>next_cpu := 1\<rparr>"
  define s2 where "s2 = s1\<lparr>next_cpu := 2, woken := {1}\<rparr>"
  define s3 where "s3 = s2\<lparr>smp_processors := 2, arrived := {1}\<rparr>"
  define s4 where "s4 = s3\<lparr>passed := {0}\<rparr>"
  have "smp_step 2 0 smp_start s1" using smp_step.send [of smp_start 2 0] by (simp add: s1_def smp_start_def)
  then have "smp_reach 2 0 s1" by (rule smp_next [OF smp_init])
  moreover have "smp_step 2 0 s1 s2" using smp_step.send [of s1 2 0] by (simp add: s2_def s1_def smp_start_def numeral_2_eq_2)
  ultimately have "smp_reach 2 0 s2" by (rule smp_next)
  moreover have "smp_step 2 0 s2 s3"
    using smp_main_arrive [of 1 s2 2 0] by (simp add: s3_def s2_def s1_def smp_start_def)
  ultimately have "smp_reach 2 0 s3" by (rule smp_next)
  moreover have "smp_step 2 0 s3 s4"
    using launch_pass [of s3 2 0] by (simp add: s4_def s3_def s2_def s1_def smp_start_def)
  ultimately have r: "smp_reach 2 0 s4" by (rule smp_next)
  have "passed s4 = {0}" by (simp add: s4_def)
  moreover from this have "arrived s4 = {1}" using smp_barrier [OF r] by (auto simp: s4_def s3_def)
  ultimately show ?thesis using r by blast
qed

end
