(* ===== verification/Boot.thy ===== *)
theory Boot
  imports Smp
begin

text \<open>
  The memory map the boot loader passes (arch-setup.cc) and what \<open>premain\<close> (loader.cc) takes from
  it. An entry is packed: its size without the size field, an address, a length and a type.
\<close>

section \<open>The entries\<close>

record e820ent =
  ent_size :: u32
  addr :: u64
  len :: u64
  type_code :: u32

definition read_u64 :: "mem \<Rightarrow> ptr \<Rightarrow> u64 option" where
  "read_u64 m p = do {
     lo \<leftarrow> read_u32 m p; hi \<leftarrow> read_u32 m (p + 4);
     Some (ucast lo OR push_bit 32 (ucast hi))
   }"

definition read_e820 :: "mem \<Rightarrow> ptr \<Rightarrow> e820ent option" where
  "read_e820 m p = do {
     n \<leftarrow> read_u32 m p; a \<leftarrow> read_u64 m (p + 4); l \<leftarrow> read_u64 m (p + 12); t \<leftarrow> read_u32 m (p + 20);
     Some \<lparr>ent_size = n, addr = a, len = l, type_code = t\<rparr>
   }"

text \<open>The entries on which \<open>f\<close> is called, in order; the step is a 32-bit sum.\<close>

partial_function (option) for_each_e820_entry :: "mem \<Rightarrow> ptr \<Rightarrow> ptr \<Rightarrow> e820ent list option" where
  "for_each_e820_entry m p buffer_end =
     (if p < buffer_end then do {
        ent \<leftarrow> read_e820 m p;
        rest \<leftarrow> for_each_e820_entry m (p + unat (ent_size ent + 4)) buffer_end;
        Some (if type_code ent = 1 then ent # rest else rest)
      }
      else Some [])"

definition intersects :: "e820ent \<Rightarrow> u64 \<Rightarrow> bool" where
  "intersects ent a \<longleftrightarrow> a > addr ent \<and> a < addr ent + len ent"

definition truncate_below :: "e820ent \<Rightarrow> u64 \<Rightarrow> e820ent" where
  "truncate_below ent a = (let delta = a - addr ent in ent\<lparr>addr := addr ent + delta, len := len ent - delta\<rparr>)"

definition truncate_above :: "e820ent \<Rightarrow> u64 \<Rightarrow> e820ent" where
  "truncate_above ent a = (let delta = addr ent + len ent - a in ent\<lparr>len := len ent - delta\<rparr>)"

text \<open>\<open>max_page_addr\<close> after the loop of \<open>premain\<close>; \<open>old\<close> is its value before.\<close>

definition max_page_addr :: "mem \<Rightarrow> ptr \<Rightarrow> nat \<Rightarrow> u64 \<Rightarrow> u64 option" where
  "max_page_addr m buf sz old = do {
     ents \<leftarrow> for_each_e820_entry m buf (buf + sz);
     Some (fold (\<lambda>ent _. addr ent + len ent) ents old)
   }"

section \<open>The table as bytes\<close>

definition u32_bytes :: "u32 \<Rightarrow> u8 list" where
  "u32_bytes x = [ucast x, ucast (drop_bit 8 x), ucast (drop_bit 16 x), ucast (drop_bit 24 x)]"

definition u64_bytes :: "u64 \<Rightarrow> u8 list" where
  "u64_bytes x = u32_bytes (ucast x) @ u32_bytes (ucast (drop_bit 32 x))"

text \<open>An entry and the bytes that a later version of the format may append to it.\<close>

definition ent_bytes :: "e820ent \<times> u8 list \<Rightarrow> u8 list" where
  "ent_bytes = (\<lambda>(ent, ext). u32_bytes (ent_size ent) @ u64_bytes (addr ent) @ u64_bytes (len ent) @
     u32_bytes (type_code ent) @ ext)"

definition wf_ent :: "e820ent \<times> u8 list \<Rightarrow> bool" where
  "wf_ent = (\<lambda>(ent, ext). unat (ent_size ent) = 20 + length ext \<and> 20 + length ext < 2 ^ 32 - 4)"

lemma u32_bytes_length [simp]: "length (u32_bytes x) = 4" "length (u64_bytes y) = 8"
  by (simp_all add: u32_bytes_def u64_bytes_def)

lemma read_u32_at: "bytes_at m p (u32_bytes x) \<Longrightarrow> read_u32 m p = Some x"
  unfolding u32_bytes_def by (rule read_u32_bytes) (simp_all add: eval_nat_numeral)

lemma read_u64_at: "bytes_at m p (u64_bytes x) \<Longrightarrow> read_u64 m p = Some x"
proof -
  assume "bytes_at m p (u64_bytes x)"
  then have "read_u32 m p = Some (ucast x)" "read_u32 m (p + 4) = Some (ucast (drop_bit 32 x))"
    by (auto simp: u64_bytes_def bytes_at_append intro: read_u32_at)
  moreover have "(ucast (ucast x :: u32) OR push_bit 32 (ucast (ucast (drop_bit 32 x) :: u32)) :: u64) = x" (is "?l = _")
  proof (rule bit_word_eqI)
    fix n assume "n < LENGTH(64)"
    then consider "n < 32" | "32 \<le> n" "n < 64" by fastforce
    then show "bit ?l n = bit x n" by cases (auto simp: bit_simps)
  qed
  ultimately show ?thesis unfolding read_u64_def by simp
qed

lemma read_e820_at:
  assumes "bytes_at m p (ent_bytes (ent, ext))"
  shows "read_e820 m p = Some ent"
proof -
  have "bytes_at m p (u32_bytes (ent_size ent))" "bytes_at m (p + 4) (u64_bytes (addr ent))"
    "bytes_at m (p + 12) (u64_bytes (len ent))" "bytes_at m (p + 20) (u32_bytes (type_code ent))"
    using assms by (simp_all add: ent_bytes_def bytes_at_append add.commute)
  then show ?thesis unfolding read_e820_def by (simp add: read_u32_at read_u64_at)
qed

lemma ent_bytes_length: "length (ent_bytes (ent, ext)) = 24 + length ext"
  by (simp add: ent_bytes_def)

lemma for_each_entries:
  "bytes_at m p (concat (map ent_bytes es)) \<Longrightarrow> list_all wf_ent es \<Longrightarrow>
    for_each_e820_entry m p (p + length (concat (map ent_bytes es))) = Some (filter (\<lambda>e. type_code e = 1) (map fst es))"
proof (induction es arbitrary: p)
  case Nil
  then show ?case by (subst for_each_e820_entry.simps) simp
next
  case (Cons e es)
  obtain ent ext where e: "e = (ent, ext)" by (cases e)
  let ?rest = "concat (map ent_bytes es)"
  have b: "bytes_at m p (ent_bytes (ent, ext))" "bytes_at m (p + (24 + length ext)) ?rest"
    using Cons.prems(1) by (simp_all add: e bytes_at_append ent_bytes_length)
  have "unat (ent_size ent + 4) = unat (ent_size ent) + 4"
    using Cons.prems(2) by (subst unat_add_lem [THEN iffD1]) (simp_all add: e wf_ent_def)
  then have step: "unat (ent_size ent + 4) = 24 + length ext" using Cons.prems(2) by (simp add: e wf_ent_def)
  have ih: "for_each_e820_entry m (p + (24 + length ext)) (p + (24 + length ext) + length ?rest) =
      Some (filter (\<lambda>e. type_code e = 1) (map fst es))"
    by (rule Cons.IH [OF b(2)]) (use Cons.prems(2) in simp)
  have en: "p + length (concat (map ent_bytes (e # es))) = p + (24 + length ext) + length ?rest"
    by (simp add: e ent_bytes_length)
  show ?case
    unfolding en by (subst for_each_e820_entry.simps) (simp add: read_e820_at [OF b(1)] step ih e)
qed

lemma fold_last: "fold (\<lambda>x _. f x) xs a = (if xs = [] then a else f (last xs))"
  by (induction xs arbitrary: a) auto

section \<open>Properties\<close>

text \<open>
  C18. For every well-formed memory map, entries with appended fields included, the loop visits
  exactly the entries of usable memory, in order; \<open>max_page_addr\<close> becomes the end of the last of
  them, which is the highest usable address only when the map is sorted.
\<close>

theorem e820_visits_usable:
  assumes "bytes_at m buf (concat (map ent_bytes es))" and "list_all wf_ent es"
  shows "let us = filter (\<lambda>e. type_code e = 1) (map fst es); sz = length (concat (map ent_bytes es))
    in for_each_e820_entry m buf (buf + sz) = Some us \<and>
      max_page_addr m buf sz old = Some (if us = [] then old else addr (last us) + len (last us))"
  using for_each_entries [OF assms] by (simp add: Let_def max_page_addr_def fold_last)

text \<open>Low memory listed last: \<open>max_page_addr\<close> is its end.\<close>

definition two_ents :: "(e820ent \<times> u8 list) list" where
  "two_ents = [(\<lparr>ent_size = 20, addr = 0x100000, len = 0x7f00000, type_code = 1\<rparr>, []),
     (\<lparr>ent_size = 24, addr = 0, len = 0x9fc00, type_code = 1\<rparr>, [1, 0, 0, 0])]"

theorem e820_visits_usable_witness:
  "max_page_addr (mem_of 16 (concat (map ent_bytes two_ents))) 16 52 0 = Some 0x9fc00"
proof -
  have w: "list_all wf_ent two_ents" by (simp add: two_ents_def wf_ent_def)
  have "length (concat (map ent_bytes two_ents)) = 52" by (simp add: two_ents_def ent_bytes_length)
  then show ?thesis
    using e820_visits_usable [OF mem_of_bytes w, of 16 0] by (simp add: Let_def two_ents_def)
qed

text \<open>
  An entry that an address intersects is split by \<open>truncate_above\<close> and \<open>truncate_below\<close> into
  two ranges that meet at the address and are together as long as the entry, without wrap-around.
\<close>

theorem e820_truncate_splits:
  assumes "intersects ent a"
  shows "let lo = truncate_above ent a; hi = truncate_below ent a
    in addr lo = addr ent \<and> addr lo + len lo = a \<and> addr hi = a \<and> addr hi + len hi = addr ent + len ent \<and>
      unat (len lo) + unat (len hi) = unat (len ent) \<and> 0 < len lo \<and> 0 < len hi"
proof -
  define s where "s = addr ent"
  define l where "l = len ent"
  have i: "s < a" "a < s + l" using assms by (simp_all add: intersects_def s_def l_def)
  then have u: "unat s < unat a" "unat a < unat (s + l)" by (simp_all add: word_less_nat_alt)
  have no: "unat (s + l) = unat s + unat l"
  proof -
    have le: "s \<le> s + l" using i by (meson less_imp_le less_trans)
    then show ?thesis using unat_plus_simple by blast
  qed
  have d: "unat (a - s) = unat a - unat s" using i(1) by (simp add: unat_sub less_imp_le)
  have al: "a - s \<le> l" using d no u by (simp add: word_le_nat_alt)
  then have r: "unat (l - (a - s)) = unat l - (unat a - unat s)" using d by (simp add: unat_sub)
  have lo: "l - (s + l - a) = a - s" by simp
  have "0 < a - s" "0 < l - (a - s)" using d r u no by (simp_all add: word_less_nat_alt)
  moreover have "unat (a - s) + unat (l - (a - s)) = unat l" unfolding d r using u no by simp
  ultimately show ?thesis
    unfolding truncate_above_def truncate_below_def Let_def s_def [symmetric] l_def [symmetric]
    by (simp add: s_def [symmetric] l_def [symmetric] lo)
qed

theorem e820_truncate_splits_witness:
  "len (truncate_above \<lparr>ent_size = 20, addr = 0x1000, len = 0x5000, type_code = 1\<rparr> 0x3000) = 0x2000 \<and>
    addr (truncate_below \<lparr>ent_size = 20, addr = 0x1000, len = 0x5000, type_code = 1\<rparr> 0x3000) = 0x3000"
  using e820_truncate_splits [of "\<lparr>ent_size = 20, addr = 0x1000, len = 0x5000, type_code = 1\<rparr>" "0x3000"]
  by (simp add: intersects_def truncate_above_def truncate_below_def Let_def)

end
