(* ===== verification/Cpuid.thy ===== *)
theory Cpuid
  imports Apic Mmu
begin

text \<open>
  The processor features (cpuid.cc, cpuid.hh), the set-up of a Xen guest that is part of reading
  them (xen.cc), and the choice of the local APIC driver by them (\<open>create_apic_driver\<close> of apic.cc).
  The CPUID instruction, the hypercalls and the port reads are parameters.
\<close>

section \<open>The feature flags\<close>

datatype feature = sse3 | ssse3 | cmpxchg16b | sse4_1 | sse4_2 | x2apic | tsc_deadline | xsave
  | osxsave | avx | rdrand | clflush | fsgsbase | repmovsb | gbpage | invariant_tsc
  | kvm_clocksource | kvm_clocksource2 | kvm_clocksource_stable | kvm_pv_eoi
  | xen_clocksource | xen_vector_callback | xen_pci

type_synonym features_type = "feature \<Rightarrow> bool"

record cpuid_result =
  eax :: u32
  ebx :: u32
  ecx :: u32
  edx :: u32

text \<open>The instruction: a function and a subleaf to four registers; the maximum-leaf functions ignore the subleaf.\<close>

type_synonym cpuid_fn = "u32 \<Rightarrow> u32 \<Rightarrow> cpuid_result"

record signature =
  sig_b :: u32
  sig_c :: u32
  sig_d :: u32

record cpuid_bit =
  leaf :: u32
  reg :: "cpuid_result \<Rightarrow> u32"
  bit_nr :: nat
  flag :: feature
  subleaf :: u32
  sign :: "signature option"

definition kvm_signature :: signature where
  "kvm_signature = \<lparr>sig_b = 0x4b4d564b, sig_c = 0x564b4d56, sig_d = 0x4d\<rparr>"

definition xen_signature :: signature where
  "xen_signature = \<lparr>sig_b = 0x566e6558, sig_c = 0x65584d4d, sig_d = 0x4d4d566e\<rparr>"

abbreviation cb :: "u32 \<Rightarrow> (cpuid_result \<Rightarrow> u32) \<Rightarrow> nat \<Rightarrow> feature \<Rightarrow> signature option \<Rightarrow> cpuid_bit" where
  "cb l r n f s \<equiv> \<lparr>leaf = l, reg = r, bit_nr = n, flag = f, subleaf = 0, sign = s\<rparr>"

definition cpuid_bits :: "cpuid_bit list" where
  "cpuid_bits = [
     cb 1 ecx 0 sse3 None, cb 1 ecx 9 ssse3 None, cb 1 ecx 13 cmpxchg16b None,
     cb 1 ecx 19 sse4_1 None, cb 1 ecx 20 sse4_2 None, cb 1 ecx 21 x2apic None,
     cb 1 ecx 24 tsc_deadline None, cb 1 ecx 26 xsave None, cb 1 ecx 27 osxsave None,
     cb 1 ecx 28 avx None, cb 1 ecx 30 rdrand None, cb 1 edx 19 clflush None,
     cb 7 ebx 0 fsgsbase None, cb 7 ebx 9 repmovsb None,
     cb 0x80000001 edx 26 gbpage None, cb 0x80000007 edx 8 invariant_tsc None,
     cb 0x40000001 eax 0 kvm_clocksource (Some kvm_signature),
     cb 0x40000001 eax 3 kvm_clocksource2 (Some kvm_signature),
     cb 0x40000001 eax 6 kvm_pv_eoi (Some kvm_signature),
     cb 0x40000001 eax 24 kvm_clocksource_stable (Some kvm_signature)]"

definition matches :: "cpuid_result \<Rightarrow> signature \<Rightarrow> bool" where
  "matches x s \<longleftrightarrow> ebx x = sig_b s \<and> ecx x = sig_c s \<and> edx x = sig_d s"

section \<open>Reading the flags\<close>

definition process_cpuid_bit :: "cpuid_fn \<Rightarrow> cpuid_bit \<Rightarrow> features_type \<Rightarrow> features_type" where
  "process_cpuid_bit cpuid b f = (
     let base = leaf b AND 0xf0000000;
         max = eax (cpuid base 0);
         max = (if base = 0x40000000 \<and> sign b = Some kvm_signature \<and> max = 0 then 0x40000001 else max)
     in if (case sign b of Some s \<Rightarrow> \<not> matches (cpuid base 0) s | None \<Rightarrow> False) then f
        else if leaf b > max then f
        else if leaf b = 7 \<and> subleaf b > eax (cpuid (leaf b) 0) then f
        else f(flag b := drop_bit (bit_nr b) (reg b (cpuid (leaf b) (subleaf b))) AND 1 \<noteq> 0))"

text \<open>
  What a Xen hypervisor keeps of the guest: the feature bits of submap 0, whether event channels
  use a legacy interrupt, and whether the shared page is set.
\<close>

record xen_state =
  xen_features :: "bool list"
  irq_is_legacy :: bool
  shared_info :: bool

text \<open>
  \<open>xen_pci_enabled\<close>: the words read from ports 0x10, 0x12 and 0x10 again, and the writes made.
\<close>

definition xen_pci_enabled :: "u16 \<Rightarrow> u16 \<Rightarrow> u16 \<Rightarrow> bool \<times> (u16 \<times> u32) list" where
  "xen_pci_enabled magic version magic' =
     (if magic \<noteq> 0x49d2 then (False, [])
      else if (ucast version :: u8) \<noteq> 0 then
        (if magic' \<noteq> 0x49d2 then (False, [(0x10, 0xffff), (0x10, 0)])
         else (True, [(0x10, 0xffff), (0x10, 0), (0x10, 3)]))
      else (True, [(0x10, 3)]))"

text \<open>
  \<open>xen_init\<close> after the hypercall page is set: \<open>submap\<close> is what the version hypercall returns,
  \<open>added\<close> whether the memory hypercall succeeded (otherwise \<open>assert(0)\<close>, None), \<open>pci\<close> the result
  of \<open>xen_pci_enabled\<close>.
\<close>

definition xen_init :: "u32 \<Rightarrow> bool \<Rightarrow> bool \<Rightarrow> features_type \<Rightarrow> xen_state \<Rightarrow> (features_type \<times> xen_state) option" where
  "xen_init submap added pci f x = (
     let fs = map (\<lambda>j. submap AND push_bit j 1 \<noteq> 0) [0..<32];
         f = f(xen_clocksource := fs ! 9, xen_vector_callback := fs ! 8);
         x = x\<lparr>xen_features := fs, irq_is_legacy := (if fs ! 8 then irq_is_legacy x else True)\<rparr>
     in if added then Some (f(xen_pci := pci), x\<lparr>shared_info := True\<rparr>) else None)"

text \<open>The search for the Xen leaves, at the 256 bases 0x40000000, 0x40000100, ...\<close>

definition xen_base :: "cpuid_fn \<Rightarrow> u32 option" where
  "xen_base cpuid = find (\<lambda>base. matches (cpuid base 0) xen_signature)
     (map (\<lambda>i. 0x40000000 + of_nat i * 0x100) [0..<256])"

definition process_xen_bits ::
  "cpuid_fn \<Rightarrow> u32 \<Rightarrow> bool \<Rightarrow> bool \<Rightarrow> features_type \<Rightarrow> xen_state \<Rightarrow> (features_type \<times> xen_state) option" where
  "process_xen_bits cpuid submap added pci f x =
     (case xen_base cpuid of None \<Rightarrow> Some (f, x) | Some base \<Rightarrow> xen_init submap added pci f x)"

text \<open>
  \<open>process_cpuid\<close>, which is the constructor of \<open>features_type\<close>; \<open>f\<close> is what the stack held in the
  object that \<open>features()\<close> declares, which nothing initialises.
\<close>

definition process_cpuid ::
  "cpuid_fn \<Rightarrow> u32 \<Rightarrow> bool \<Rightarrow> bool \<Rightarrow> features_type \<Rightarrow> xen_state \<Rightarrow> (features_type \<times> xen_state) option" where
  "process_cpuid cpuid submap added pci f x =
     process_xen_bits cpuid submap added pci (fold (process_cpuid_bit cpuid) cpuid_bits f) x"

section \<open>What a flag means\<close>

text \<open>The processor reports the leaf of a flag, and under KVM the hypervisor is KVM.\<close>

definition supported :: "cpuid_fn \<Rightarrow> cpuid_bit \<Rightarrow> bool" where
  "supported cpuid b \<longleftrightarrow>
     (let base = leaf b AND 0xf0000000; top = eax (cpuid base 0)
      in (case sign b of None \<Rightarrow> leaf b \<le> top
          | Some s \<Rightarrow> matches (cpuid base 0) s \<and> (leaf b \<le> top \<or> base = 0x40000000 \<and> top = 0)))"

definition reported :: "cpuid_fn \<Rightarrow> cpuid_bit \<Rightarrow> bool" where
  "reported cpuid b \<longleftrightarrow> bit (reg b (cpuid (leaf b) (subleaf b))) (bit_nr b)"

lemma drop_bit_and_1: "drop_bit n w AND 1 \<noteq> 0 \<longleftrightarrow> bit (w :: u32) n"
  by (simp add: and_one_eq odd_iff_mod_2_eq_one [symmetric] flip: bit_iff_odd_drop_bit mod_2_eq_odd)

lemma cpuid_bits_subleaf: "b \<in> set cpuid_bits \<Longrightarrow> subleaf b = 0"
  by (auto simp: cpuid_bits_def)

lemma cpuid_bits_kvm:
  "b \<in> set cpuid_bits \<Longrightarrow> sign b = None \<or> sign b = Some kvm_signature \<and> leaf b = 0x40000001"
  by (auto simp: cpuid_bits_def)

lemma process_cpuid_bit_eq:
  assumes "b \<in> set cpuid_bits"
  shows "process_cpuid_bit cpuid b f = (if supported cpuid b then f(flag b := reported cpuid b) else f)"
  using cpuid_bits_kvm [OF assms]
  by (auto simp: process_cpuid_bit_def supported_def reported_def Let_def cpuid_bits_subleaf [OF assms]
    drop_bit_and_1 not_less)

lemma fold_flags:
  assumes "\<forall>b \<in> set bs. b \<in> set cpuid_bits" "distinct (map flag bs)"
  shows "fold (process_cpuid_bit cpuid) bs f x =
    (case find (\<lambda>b. flag b = x \<and> supported cpuid b) bs of None \<Rightarrow> f x | Some b \<Rightarrow> reported cpuid b)"
  using assms
proof (induction bs arbitrary: f)
  case (Cons b bs)
  have "find (\<lambda>b. flag b = x \<and> supported cpuid b) bs = None" if "flag b = x"
    using that Cons.prems(2) by (auto simp: find_None_iff image_iff)
  then show ?case
    using Cons by (auto simp: process_cpuid_bit_eq split: option.split)
qed simp

lemma cpuid_bits_distinct: "distinct (map flag cpuid_bits)"
  by (simp add: cpuid_bits_def)

lemma process_xen_bits_keeps:
  "process_xen_bits cpuid submap added pci f x = Some (f', x') \<Longrightarrow>
    y \<notin> {xen_clocksource, xen_vector_callback, xen_pci} \<Longrightarrow> f' y = f y"
  by (auto simp: process_xen_bits_def xen_init_def Let_def split: option.splits if_splits)

lemma features_flag:
  assumes "process_cpuid cpuid submap added pci f x = Some (f', x')" "b \<in> set cpuid_bits"
  shows "f' (flag b) = (if supported cpuid b then reported cpuid b else f (flag b))"
proof -
  have "flag b \<notin> {xen_clocksource, xen_vector_callback, xen_pci}"
    using assms(2) by (auto simp: cpuid_bits_def)
  then have k: "f' (flag b) = fold (process_cpuid_bit cpuid) cpuid_bits f (flag b)"
    using process_xen_bits_keeps assms(1) unfolding process_cpuid_def by blast
  have u: "b' = b" if "b' \<in> set cpuid_bits" "flag b' = flag b" for b'
    using that assms(2) cpuid_bits_distinct by (auto simp: distinct_map inj_on_def)
  have "find (\<lambda>b'. flag b' = flag b \<and> supported cpuid b') cpuid_bits = (if supported cpuid b then Some b else None)"
  proof (cases "supported cpuid b")
    case True
    then obtain b' where "find (\<lambda>b'. flag b' = flag b \<and> supported cpuid b') cpuid_bits = Some b'"
      using assms(2) by (cases "find (\<lambda>b'. flag b' = flag b \<and> supported cpuid b') cpuid_bits") (auto simp: find_None_iff)
    moreover from this have "b' = b" by (auto simp: find_Some_iff intro: u)
    ultimately show ?thesis using True by simp
  next
    case False
    then show ?thesis using u by (auto simp: find_None_iff)
  qed
  then show ?thesis
    using k fold_flags [of cpuid_bits cpuid f "flag b"] cpuid_bits_distinct by simp
qed

section \<open>Choosing the local APIC driver\<close>

datatype driver = X2apic | Xapic

definition phys_to_virt :: "u64 \<Rightarrow> u64" where
  "phys_to_virt phys = 0xffff800000000000 OR phys"

text \<open>
  The constructors read the base and enable the device; that of \<open>xapic\<close> maps the register page
  first. An abort of \<open>map\<close> is None.
\<close>

definition create_apic_driver :: "features_type \<Rightarrow> lapic \<Rightarrow> kernel \<Rightarrow> (driver \<times> lapic \<times> kernel) option" where
  "create_apic_driver f a k = (
     let a = read_base a
     in if f x2apic then Some (X2apic, x2apic_enable a, k)
        else do {
          k \<leftarrow> map_page (vaddr_of (phys_to_virt (apic_base a))) (apic_base a) k;
          Some (Xapic, xapic_enable a, k)
        })"

definition x2apic_bit :: cpuid_bit where
  "x2apic_bit = cb 1 ecx 21 x2apic None"

lemma apic_base_aligned: "take_bit 12 (x AND base_addr_mask) = 0" "unat (x AND base_addr_mask) < 2 ^ 52"
proof -
  have "take_bit 12 base_addr_mask = 0" by (simp add: base_addr_mask_def)
  then show "take_bit 12 (x AND base_addr_mask) = 0" by simp
  have "unat (x AND base_addr_mask) \<le> unat base_addr_mask" using word_and_le1 word_le_nat_alt by blast
  also have "\<dots> < 2 ^ 52" by (simp add: base_addr_mask_def)
  finally show "unat (x AND base_addr_mask) < 2 ^ 52" .
qed

lemma phys_to_virt_offset: "take_bit 12 p = 0 \<Longrightarrow> va_offset (vaddr_of (phys_to_virt p)) = 0"
proof -
  assume "take_bit 12 p = 0"
  moreover have "va_offset (vaddr_of (phys_to_virt p)) = take_bit 12 (phys_to_virt p)"
    by (simp add: va_offset_def vaddr_of_def cannoncialize_def bf_simps) (simp add: bf_def)
  ultimately show ?thesis by (simp add: phys_to_virt_def take_bit_or)
qed

lemma x2apic_enabled:
  "msrs (x2apic_enable a) 0x80f = 0x1ff" "msrs (x2apic_enable a) 0x1b = apic_base a OR 0xC00"
  by (simp_all add: x2apic_enable_def software_enable_def x2apic_write_def wrmsr_def apic_defs or.assoc)

lemma xapic_enabled:
  "mmio (xapic_enable a) 0xf0 = 0x1ff" "msrs (xapic_enable a) 0x1b = apic_base a OR 0x800"
  by (simp_all add: xapic_enable_def software_enable_def xapic_write_def mmio_write_def wrmsr_def apic_defs)

section \<open>Properties\<close>

text \<open>
  Every flag of the table is the processor's bit when the processor (and, for the KVM flags, the
  hypervisor) reports the leaf; otherwise the flag is whatever the stack held, as nothing
  initialises the object that \<open>features\<close> returns.
\<close>

theorem features_read_or_garbage:
  assumes "process_cpuid cpuid submap added pci f x = Some (f', x')" and "b \<in> set cpuid_bits"
  shows "f' (flag b) = (if supported cpuid b then reported cpuid b else f (flag b))"
  using assms by (rule features_flag)

text \<open>A processor with leaf 1 only and x2APIC; its \<open>fsgsbase\<close> flag is a stack byte.\<close>

definition old_cpu :: cpuid_fn where
  "old_cpu l s = (if l = 0 then \<lparr>eax = 1, ebx = 0, ecx = 0, edx = 0\<rparr>
     else if l = 1 then \<lparr>eax = 0, ebx = 0, ecx = 0x200000, edx = 0\<rparr>
     else \<lparr>eax = 0, ebx = 0, ecx = 0, edx = 0\<rparr>)"

definition no_xen :: xen_state where
  "no_xen = \<lparr>xen_features = [], irq_is_legacy = False, shared_info = False\<rparr>"

lemma old_cpu_flags: "\<exists>f'. process_cpuid old_cpu 0 True False f no_xen = Some (f', no_xen)"
proof -
  have "\<not> matches (old_cpu base 0) xen_signature" for base
    by (simp add: matches_def old_cpu_def xen_signature_def)
  then have "xen_base old_cpu = None" by (simp add: xen_base_def find_None_iff)
  then show ?thesis by (simp add: process_cpuid_def process_xen_bits_def)
qed

theorem features_read_or_garbage_witness:
  "\<exists>f'. process_cpuid old_cpu 0 True False (\<lambda>_. True) no_xen = Some (f', no_xen) \<and>
    f' x2apic \<and> \<not> f' sse3 \<and> f' fsgsbase"
proof -
  obtain f' where f': "process_cpuid old_cpu 0 True False (\<lambda>_. True) no_xen = Some (f', no_xen)"
    using old_cpu_flags by blast
  note r = features_read_or_garbage [OF f']
  have "f' x2apic" using r [of "cb 1 ecx 21 x2apic None"]
    by (simp add: cpuid_bits_def supported_def reported_def old_cpu_def bit_numeral_rec)
  moreover have "\<not> f' sse3" using r [of "cb 1 ecx 0 sse3 None"]
    by (simp add: cpuid_bits_def supported_def reported_def old_cpu_def)
  moreover have "\<not> (7 :: u32) \<le> 1" by (simp add: word_le_nat_alt)
  then have "f' fsgsbase" using r [of "cb 7 ebx 0 fsgsbase None"]
    by (simp add: cpuid_bits_def supported_def reported_def old_cpu_def)
  ultimately show ?thesis using f' by blast
qed

text \<open>
  C9. On a processor that reports leaf 1 the driver is chosen by its x2APIC bit and is ready: the
  device is enabled in the mode of the driver, the spurious vector is set, and for \<open>xapic\<close> the
  register page is translated to the device's physical base.
\<close>

theorem apic_driver_ready:
  assumes "process_cpuid cpuid submap added pci f x = Some (f', x')" and "1 \<le> eax (cpuid 0 0)"
    and "table_wf lvl lo k" and "lo + 4 \<le> alloc_frame k"
    and "create_apic_driver f' a k = Some (d, a', k')"
  shows "if bit (ecx (cpuid 1 0)) 21
    then d = X2apic \<and> msrs a' 0x1b = (msrs a 0x1b AND 0xFFFFFF000) OR 0xC00 \<and> msrs a' 0x80f = 0x1ff
    else d = Xapic \<and> msrs a' 0x1b = (msrs a 0x1b AND 0xFFFFFF000) OR 0x800 \<and> mmio a' 0xf0 = 0x1ff \<and>
      x86_walk k' (vaddr_of (phys_to_virt (apic_base a'))) = Some (msrs a 0x1b AND 0xFFFFFF000)"
proof -
  have b: "x2apic_bit \<in> set cpuid_bits" by (simp add: cpuid_bits_def x2apic_bit_def)
  have flag: "f' x2apic = bit (ecx (cpuid 1 0)) 21"
    using features_flag [OF assms(1) b] assms(2) by (simp add: x2apic_bit_def supported_def reported_def)
  let ?a = "read_base a"
  have base: "apic_base ?a = msrs a 0x1b AND 0xFFFFFF000"
    by (simp add: read_base_def rdmsr_def IA32_APIC_BASE_def base_addr_mask_def)
  show ?thesis
  proof (cases "f' x2apic")
    case True
    then have "d = X2apic" "a' = x2apic_enable ?a" using assms(5) by (auto simp: create_apic_driver_def Let_def)
    then show ?thesis using True flag base x2apic_enabled by simp
  next
    case False
    let ?va = "vaddr_of (phys_to_virt (apic_base ?a))"
    have d: "d = Xapic" "a' = xapic_enable ?a" and m: "map_page ?va (apic_base ?a) k = Some k'"
      using False assms(5) by (auto simp: create_apic_driver_def Let_def split: bind_splits)
    have al: "take_bit 12 (apic_base ?a) = 0" "unat (apic_base ?a) < 2 ^ 52"
      using apic_base_aligned by (simp_all add: read_base_def)
    have "apic_base a' = apic_base ?a"
      by (simp add: d xapic_enable_def software_enable_def xapic_write_def mmio_write_def wrmsr_def)
    moreover have "x86_walk k' ?va = Some (apic_base ?a)"
      by (rule map_page_path [OF assms(3,4) m])
        (use phys_to_virt_offset [OF al(1)] frame_of_aligned [OF al] in \<open>simp add: x86_walk_def va_offset_def\<close>)
    ultimately show ?thesis using False flag base d xapic_enabled by simp
  qed
qed

theorem apic_driver_ready_witness:
  "\<exists>f' k'. create_apic_driver f' \<lparr>msrs = (\<lambda>_. 0xfee00900), mmio = (\<lambda>_. 0), commands = [], apic_base = 0\<rparr> boot_kernel =
      Some (X2apic, k') \<and> msrs (fst k') 0x1b = 0xfee00c00"
proof -
  let ?a = "\<lparr>msrs = (\<lambda>_. 0xfee00900), mmio = (\<lambda>_. 0), commands = [], apic_base = 0\<rparr>"
  obtain f' where f': "process_cpuid old_cpu 0 True False (\<lambda>_. True) no_xen = Some (f', no_xen)"
    using old_cpu_flags by blast
  have b: "bit (ecx (old_cpu 1 0)) 21" "1 \<le> eax (old_cpu 0 0)" by (simp_all add: old_cpu_def bit_numeral_rec)
  obtain k' where m: "map_page (vaddr_of (phys_to_virt (apic_base (read_base ?a)))) (apic_base (read_base ?a))
    boot_kernel = Some k'" using boot_maps by blast
  obtain d a' k' where c: "create_apic_driver f' ?a boot_kernel = Some (d, a', k')"
    by (cases "f' x2apic") (simp_all add: create_apic_driver_def Let_def m)
  show ?thesis
    using apic_driver_ready [OF f' b(2) boot_wf(1) boot_room c] b(1) c by auto
qed

end
