(* ===== verification/Cpu.thy ===== *)
theory Cpu
  imports Cpuid
begin

text \<open>
  What the processor needs to take an interrupt: the interrupt descriptor table (exceptions.cc,
  exceptions.hh), the per-processor descriptor table, task state segment and control registers
  (arch-cpu.hh), and the table of interrupt handlers. The addresses of the assembly entry points
  and of the objects are parameters.
\<close>

section \<open>Gates\<close>

text \<open>The struct \<open>idt_entry\<close>, 16 bytes, as its two 64-bit halves.\<close>

record idt_entry =
  gate_lo :: u64
  gate_hi :: u64

definition type_intr_gate :: u64 where "type_intr_gate = 14"
definition s_special :: u64 where "s_special = 0"

text \<open>The entry that \<open>add_entry\<close> builds, bit field by bit field, from a zeroed one.\<close>

definition make_gate :: "u16 \<Rightarrow> u64 \<Rightarrow> u64 \<Rightarrow> idt_entry" where
  "make_gate cs ist addr =
     \<lparr>gate_lo = set_bf 48 16 (drop_bit 16 addr) (set_bf 47 1 1 (set_bf 45 2 0 (set_bf 44 1 s_special
        (set_bf 40 4 type_intr_gate (set_bf 32 3 ist (set_bf 16 16 (ucast cs) (set_bf 0 16 addr 0))))))),
      gate_hi = set_bf 0 32 (drop_bit 32 addr) 0\<rparr>"

definition add_entry :: "u16 \<Rightarrow> nat \<Rightarrow> u64 \<Rightarrow> u64 \<Rightarrow> idt_entry list \<Rightarrow> idt_entry list" where
  "add_entry cs vec ist handler t = t[vec := make_gate cs ist handler]"

text \<open>
  The constructor: \<open>ex\<close> has the addresses of \<open>ex_de\<close>, \<open>ex_db\<close>, ... by their vectors; the interrupt
  entries are 16 bytes apart. \<open>t\<close> is what the 256 entries held before: the table is a local variable.
\<close>

definition exception_vectors :: "nat list" where
  "exception_vectors = [0, 1, 2, 3, 4, 5, 6, 7, 8, 10, 11, 12, 13, 14, 16, 17, 18, 19]"

definition idt_ctor :: "u16 \<Rightarrow> (nat \<Rightarrow> u64) \<Rightarrow> u64 \<Rightarrow> idt_entry list \<Rightarrow> idt_entry list" where
  "idt_ctor cs ex interrupt_entry t =
     fold (\<lambda>i. add_entry cs i 2 (interrupt_entry + of_nat (i - 32) * 16)) [32..<256]
       (fold (\<lambda>i. add_entry cs i 1 (ex i)) exception_vectors t)"

text \<open>What the processor reads from a gate.\<close>

definition gate_present :: "idt_entry \<Rightarrow> bool" where "gate_present e \<longleftrightarrow> bf 47 1 (gate_lo e) = 1"
definition gate_selector :: "idt_entry \<Rightarrow> u64" where "gate_selector e = bf 16 16 (gate_lo e)"
definition gate_type :: "idt_entry \<Rightarrow> u64" where "gate_type e = bf 40 5 (gate_lo e)"
definition gate_dpl :: "idt_entry \<Rightarrow> u64" where "gate_dpl e = bf 45 2 (gate_lo e)"
definition gate_ist :: "idt_entry \<Rightarrow> u64" where "gate_ist e = bf 32 3 (gate_lo e)"
definition gate_offset :: "idt_entry \<Rightarrow> u64" where
  "gate_offset e = bf 0 16 (gate_lo e) OR push_bit 16 (bf 48 16 (gate_lo e)) OR push_bit 32 (bf 0 32 (gate_hi e))"

lemmas gate_defs = gate_present_def gate_selector_def gate_type_def gate_dpl_def gate_ist_def gate_offset_def

lemma bf_take: "bf lo len x = take_bit len (drop_bit lo x)"
  by (simp add: bf_def)

lemma gate_offset_bits:
  "take_bit 16 a OR push_bit 16 (take_bit 16 (drop_bit 16 a)) OR push_bit 32 (take_bit 32 (drop_bit 32 a)) = (a :: u64)"
  (is "?l = _")
proof (rule bit_word_eqI)
  fix n assume "n < LENGTH(64)"
  then consider "n < 16" | "16 \<le> n" "n < 32" | "32 \<le> n" "n < 64" by fastforce
  then show "bit ?l n = bit a n" by cases (auto simp: bit_simps)
qed

lemma make_gate_fields:
  "gate_present (make_gate cs ist addr)" "gate_selector (make_gate cs ist addr) = ucast cs"
  "gate_type (make_gate cs ist addr) = 14" "gate_dpl (make_gate cs ist addr) = 0"
  "gate_ist (make_gate cs ist addr) = take_bit 3 ist" "gate_offset (make_gate cs ist addr) = addr"
proof -
  show "gate_present (make_gate cs ist addr)" "gate_dpl (make_gate cs ist addr) = 0"
    "gate_ist (make_gate cs ist addr) = take_bit 3 ist"
    by (simp_all add: gate_defs make_gate_def bf_simps)
  have "bit cs n \<Longrightarrow> n < 16" for n using bit_imp_le_length [of cs n] by simp
  then show "gate_selector (make_gate cs ist addr) = ucast cs"
    by (simp add: gate_defs make_gate_def bf_simps) (auto intro!: bit_word_eqI simp: bit_simps)
  show "gate_offset (make_gate cs ist addr) = addr"
    by (simp add: gate_offset_def make_gate_def bf_simps gate_offset_bits)
  show "gate_type (make_gate cs ist addr) = 14"
    by (rule bit_word_eqI) (auto simp: gate_type_def make_gate_def bit_bf bit_set_bf type_intr_gate_def s_special_def
      bit_numeral_rec bit_1_iff less_Suc_eq numeral_eq_Suc)
qed

lemma fold_add_entry_nth:
  "v < length t \<Longrightarrow> fold (\<lambda>i. add_entry cs i ist (h i)) vs t ! v =
    (if v \<in> set vs then make_gate cs ist (h v) else t ! v)"
  by (induction vs arbitrary: t) (auto simp: add_entry_def nth_list_update)

lemma fold_add_entry_length [simp]: "length (fold (\<lambda>i. add_entry cs i ist (h i)) vs t) = length t"
  by (induction vs arbitrary: t) (simp_all add: add_entry_def)

lemma idt_ctor_nth:
  assumes "length t = 256" "v < 256"
  shows "idt_ctor cs ex entry t ! v =
    (if v \<in> set exception_vectors then make_gate cs 1 (ex v)
     else if 32 \<le> v \<and> v < 256 then make_gate cs 2 (entry + of_nat (v - 32) * 16) else t ! v)"
proof -
  have "v \<in> set exception_vectors \<Longrightarrow> v < 32" by (auto simp: exception_vectors_def)
  moreover have "idt_ctor cs ex entry t ! v =
      (if v \<in> {32..<256} then make_gate cs 2 (entry + of_nat (v - 32) * 16)
       else fold (\<lambda>i. add_entry cs i 1 (ex i)) exception_vectors t ! v)"
    unfolding idt_ctor_def set_upt [symmetric] using assms
    by (intro fold_add_entry_nth) (simp only: fold_add_entry_length)
  moreover have "fold (\<lambda>i. add_entry cs i 1 (ex i)) exception_vectors t ! v =
      (if v \<in> set exception_vectors then make_gate cs 1 (ex v) else t ! v)"
    using assms by (intro fold_add_entry_nth) simp
  ultimately show ?thesis using assms(2) by auto
qed

section \<open>The per-processor structure\<close>

text \<open>
  The struct \<open>arch_cpu\<close>: the addresses of its task state segment and of its two stacks, the
  interrupt stack table of the segment, and the descriptor table.
\<close>

record arch_cpu =
  tss_addr :: u64
  exception_stack :: u64
  interrupt_stack :: u64
  ist :: "u64 list"
  gdt :: "u64 list"

definition gdt_tss :: nat where "gdt_tss = 4"
definition gdt_tssx :: nat where "gdt_tssx = 5"
definition nr_gdt :: nat where "nr_gdt = 6"

definition set_ist_entry :: "nat \<Rightarrow> u64 \<Rightarrow> u64 \<Rightarrow> arch_cpu \<Rightarrow> arch_cpu" where
  "set_ist_entry i base sz c = c\<lparr>ist := (ist c)[i := base + sz]\<rparr>"

definition get_ist_entry :: "nat \<Rightarrow> arch_cpu \<Rightarrow> u64" where
  "get_ist_entry i c = ist c ! i"

definition set_exception_stack :: "u64 \<Rightarrow> u64 \<Rightarrow> arch_cpu \<Rightarrow> arch_cpu" where
  "set_exception_stack base sz = set_ist_entry 1 base sz"

definition get_exception_stack :: "arch_cpu \<Rightarrow> u64" where
  "get_exception_stack = get_ist_entry 1"

text \<open>\<open>set_exception_stack\<close> and \<open>set_interrupt_stack\<close> of a thread at \<open>t\<close> (4096 and 16384 bytes of stack).\<close>

definition set_interrupt_stack_thread :: "u64 \<Rightarrow> arch_cpu \<Rightarrow> arch_cpu" where
  "set_interrupt_stack_thread t = set_ist_entry 2 t 4096"

definition set_exception_stack_thread :: "u64 \<Rightarrow> arch_cpu \<Rightarrow> arch_cpu" where
  "set_exception_stack_thread t = set_ist_entry 1 (t + 4096) (4096 * 4)"

definition arch_cpu_ctor :: "arch_cpu \<Rightarrow> arch_cpu" where
  "arch_cpu_ctor c = (
     let tss = tss_addr c;
         g = [0, 0x00af9b000000ffff, 0x00cf93000000ffff, 0x00cf9b000000ffff, 0x0000890000000067, 0];
         g = g[gdt_tss := g ! gdt_tss OR push_bit 16 (tss AND 0x00ffffff)];
         g = g[gdt_tss := g ! gdt_tss OR push_bit 32 (tss AND 0xff000000)];
         g = g[gdt_tssx := drop_bit 32 tss];
         c = c\<lparr>gdt := g\<rparr>;
         c = set_exception_stack (exception_stack c) 4096 c
     in set_ist_entry 2 (interrupt_stack c) 8192 c)"

text \<open>What the processor reads from the two entries of a task state descriptor.\<close>

definition tss_base :: "u64 \<Rightarrow> u64 \<Rightarrow> u64" where
  "tss_base lo hi = bf 16 24 lo OR push_bit 24 (bf 56 8 lo) OR push_bit 32 (bf 0 32 hi)"

definition tss_present :: "u64 \<Rightarrow> bool" where
  "tss_present lo \<longleftrightarrow> bf 47 1 lo = 1 \<and> bf 40 4 lo = 9 \<and> bf 0 16 lo = 103"

lemma tss_descriptor:
  fixes tss :: u64
  defines "lo \<equiv> 0x0000890000000067 OR push_bit 16 (tss AND 0x00ffffff) OR push_bit 32 (tss AND 0xff000000)"
  shows "tss_base lo (drop_bit 32 tss) = tss" "tss_present lo"
proof -
  have m: "(0x00ffffff :: u64) = mask 24" "(0xff000000 :: u64) = push_bit 24 (mask 8)"
    by (simp_all add: mask_eq_exp_minus_1 push_bit_eq_mult)
  have c: "bit (0x0000890000000067 :: u64) n \<longleftrightarrow> n \<in> {0, 1, 2, 5, 6, 40, 43, 47}" for n
  proof (cases "n < 64")
    case True
    have "\<forall>n \<in> set [0..<64]. bit (0x0000890000000067 :: u64) n \<longleftrightarrow> n \<in> {0, 1, 2, 5, 6, 40, 43, 47}"
      by code_simp
    then show ?thesis using True by simp
  next
    case False
    then show ?thesis using bit_imp_le_length [of "0x0000890000000067 :: u64" n] by auto
  qed
  show "tss_base lo (drop_bit 32 tss) = tss"
  proof (rule bit_word_eqI)
    fix n assume "n < LENGTH(64)"
    then consider "n < 24" | "24 \<le> n" "n < 32" | "32 \<le> n" "n < 64" by fastforce
    then show "bit (tss_base lo (drop_bit 32 tss)) n = bit tss n"
      by cases (auto simp: tss_base_def lo_def m c bit_bf bit_simps simp del: bit_numeral_word_iff)
  qed
  show "tss_present lo"
    unfolding tss_present_def
  proof (intro conjI)
    show "bf 47 1 lo = 1"
      by (rule bit_word_eqI) (auto simp: lo_def m c bit_bf bit_simps simp del: bit_numeral_word_iff)
    have nine: "bit (9 :: u64) n \<longleftrightarrow> n = 0 \<or> n = 3" "bit (103 :: u64) n \<longleftrightarrow> n \<in> {0, 1, 2, 5, 6}" for n
      by (auto simp: bit_numeral_rec bit_1_iff split: nat.splits)
    show "bf 40 4 lo = 9"
      by (rule bit_word_eqI) (auto simp: lo_def m c nine bit_bf bit_simps simp del: bit_numeral_word_iff)
    show "bf 0 16 lo = 103"
      by (rule bit_word_eqI) (auto simp: lo_def m c nine bit_bf bit_simps simp del: bit_numeral_word_iff)
  qed
qed

section \<open>Control registers\<close>

record control =
  cr4 :: u64
  xcr0 :: u64
  gdtr :: "u64 list"
  tr :: u16

definition cr4_de :: u64 where "cr4_de = push_bit 3 1"
definition cr4_pse :: u64 where "cr4_pse = push_bit 4 1"
definition cr4_pae :: u64 where "cr4_pae = push_bit 5 1"
definition cr4_pge :: u64 where "cr4_pge = push_bit 7 1"
definition cr4_osfxsr :: u64 where "cr4_osfxsr = push_bit 9 1"
definition cr4_osxmmexcpt :: u64 where "cr4_osxmmexcpt = push_bit 10 1"
definition cr4_fsgsbase :: u64 where "cr4_fsgsbase = push_bit 16 1"
definition cr4_osxsave :: u64 where "cr4_osxsave = push_bit 18 1"
definition xcr0_x87 :: u64 where "xcr0_x87 = push_bit 0 1"
definition xcr0_sse :: u64 where "xcr0_sse = push_bit 1 1"
definition xcr0_avx :: u64 where "xcr0_avx = push_bit 2 1"

lemmas control_defs = cr4_de_def cr4_pse_def cr4_pae_def cr4_pge_def cr4_osfxsr_def cr4_osxmmexcpt_def
  cr4_fsgsbase_def cr4_osxsave_def xcr0_x87_def xcr0_sse_def xcr0_avx_def

text \<open>
  XSETBV faults without OSXSAVE, without the x87 bit, and when AVX is set without SSE (None).
\<close>

definition write_xcr0 :: "u64 \<Rightarrow> control \<Rightarrow> control option" where
  "write_xcr0 v c =
     (if bit (cr4 c) 18 \<and> bit v 0 \<and> (bit v 2 \<longrightarrow> bit v 1) then Some (c\<lparr>xcr0 := v\<rparr>) else None)"

definition init_on_cpu :: "features_type \<Rightarrow> arch_cpu \<Rightarrow> control \<Rightarrow> control option" where
  "init_on_cpu f a c = (
     let c = c\<lparr>gdtr := gdt a, tr := of_nat (gdt_tss * 8)\<rparr>;
         v = cr4_de OR cr4_pse OR cr4_pae OR cr4_pge OR cr4_osfxsr OR cr4_osxmmexcpt;
         v = (if f fsgsbase then v OR cr4_fsgsbase else v);
         v = (if f xsave then v OR cr4_osxsave else v);
         c = c\<lparr>cr4 := v\<rparr>
     in if f xsave then
          (let bits = xcr0_x87 OR xcr0_sse
           in write_xcr0 (if f avx then bits OR xcr0_avx else bits) c)
        else Some c)"

section \<open>Taking an exception\<close>

text \<open>The struct \<open>exception_frame\<close>: 15 registers, the error code, and what the processor pushed.\<close>

definition exception_frame_size :: u64 where "exception_frame_size = 8 * (15 + 1 + 5)"

text \<open>
  The processor takes interrupt \<open>vec\<close> with stack pointer \<open>rsp\<close>: through a present gate it goes on at
  the gate's handler, on the stack that the gate's index selects in the segment TR names; the frame
  lies below its 16-byte aligned top. Without a gate, a segment or a stack it stops (None).
\<close>

definition deliver :: "idt_entry list \<Rightarrow> control \<Rightarrow> (u64 \<Rightarrow> u64 list) \<Rightarrow> nat \<Rightarrow> u64 \<Rightarrow> (u64 \<times> u64) option" where
  "deliver t c tss_at vec rsp = (
     let e = t ! vec; sel = unat (tr c) div 8; stacks = tss_at (tss_base (gdtr c ! sel) (gdtr c ! (sel + 1)))
     in if \<not> gate_present e \<or> sel = 0 \<or> length (gdtr c) \<le> sel + 1 \<or> \<not> tss_present (gdtr c ! sel) then None
        else let sp = (if gate_ist e = 0 then rsp else stacks ! unat (gate_ist e))
             in Some (gate_offset e, (sp AND NOT 15) - exception_frame_size))"

section \<open>Handlers of external interrupts\<close>

text \<open>The table \<open>interrupt_fn\<close> of 256 function addresses, 0 for none; an index outside it is None.\<close>

definition is_registered :: "nat \<Rightarrow> u64 list \<Rightarrow> bool option" where
  "is_registered vec fns = (if vec < length fns then Some (fns ! vec \<noteq> 0) else None)"

definition register_fn :: "nat \<Rightarrow> u64 \<Rightarrow> u64 list \<Rightarrow> u64 list option" where
  "register_fn vec f fns = (if vec < length fns then Some (fns[vec := f]) else None)"

text \<open>The functions \<open>interrupt\<close> calls.\<close>

definition interrupt :: "nat \<Rightarrow> u64 list \<Rightarrow> u64 list option" where
  "interrupt vec fns = (if vec < length fns then Some (if fns ! vec \<noteq> 0 then [fns ! vec] else []) else None)"

text \<open>
  How a handler of exceptions.cc ends: it returns to the frame's instruction, loops for ever, or
  aborts; \<open>vec\<close> is the exception.
\<close>

datatype outcome = Returns | Loops | Aborts

definition handler :: "nat \<Rightarrow> outcome" where
  "handler vec = (if vec = 0 then Returns else if vec = 13 then Aborts else Loops)"

lemma init_on_cpu_some: "\<exists>c'. init_on_cpu f a c = Some c' \<and> gdtr c' = gdt a \<and> tr c' = 32"
  by (simp add: init_on_cpu_def write_xcr0_def Let_def control_defs gdt_tss_def bit_simps)

lemma arch_cpu_ctor_gdt:
  "length (gdt (arch_cpu_ctor c)) = 6" "tss_present (gdt (arch_cpu_ctor c) ! 4)"
  "tss_base (gdt (arch_cpu_ctor c) ! 4) (gdt (arch_cpu_ctor c) ! 5) = tss_addr c"
  using tss_descriptor [of "tss_addr c"]
  by (simp_all add: arch_cpu_ctor_def Let_def set_exception_stack_def set_ist_entry_def gdt_tss_def gdt_tssx_def or.assoc)

lemma arch_cpu_ctor_ist:
  assumes "length (ist c) = 8"
  shows "ist (arch_cpu_ctor c) ! 1 = exception_stack c + 4096" "ist (arch_cpu_ctor c) ! 2 = interrupt_stack c + 8192"
  using assms by (simp_all add: arch_cpu_ctor_def Let_def set_exception_stack_def set_ist_entry_def)

lemma deliver_ready:
  assumes "length (ist c) = 8" "tss_at (tss_addr c) = ist (arch_cpu_ctor c)"
    and "gdtr ctl = gdt (arch_cpu_ctor c)" "tr ctl = 32" "t ! v = make_gate cs i h" "i = 1 \<or> i = 2"
  shows "deliver t ctl tss_at v rsp = Some (h, ((if i = 1 then exception_stack c + 4096 else interrupt_stack c + 8192) AND NOT 15) - 168)"
proof -
  have d: "unat (32 :: u16) div 8 = 4" by simp
  show ?thesis
    using assms(6) arch_cpu_ctor_ist [OF assms(1)]
    by (elim disjE) (simp_all add: deliver_def Let_def assms(2-5) d arch_cpu_ctor_gdt make_gate_fields
      exception_frame_size_def)
qed

section \<open>Properties\<close>

text \<open>
  C6. Once \<open>arch_cpu\<close> is constructed and initialised on a processor that uses the table, every
  exception of the list and every external interrupt goes to its own entry point, exceptions on the
  top of the exception stack and interrupts on that of the interrupt stack, whatever the stack
  pointer was; the other vectors (9, 15, 20 to 31) do what the memory of the table held before.
\<close>

theorem interrupts_delivered:
  assumes "length t = 256" and "v < 256" and "length (ist c) = 8"
    and "tss_at (tss_addr c) = ist (arch_cpu_ctor c)" and "init_on_cpu f (arch_cpu_ctor c) ctl = Some ctl'"
  shows "deliver (idt_ctor cs ex entry t) ctl' tss_at v rsp =
    (if v \<in> set exception_vectors then Some (ex v, ((exception_stack c + 4096) AND NOT 15) - 168)
     else if 32 \<le> v then Some (entry + of_nat (v - 32) * 16, ((interrupt_stack c + 8192) AND NOT 15) - 168)
     else deliver t ctl' tss_at v rsp)"
proof -
  note nth = idt_ctor_nth [OF assms(1,2), of cs ex entry]
  have ctl: "gdtr ctl' = gdt (arch_cpu_ctor c)" "tr ctl' = 32"
    using init_on_cpu_some [of f "arch_cpu_ctor c" ctl] assms(5) by auto
  note ready = deliver_ready [of c tss_at ctl', OF assms(3,4) ctl, of "idt_ctor cs ex entry t" v]
  consider "v \<in> set exception_vectors" | "v \<notin> set exception_vectors" "32 \<le> v" | "v \<notin> set exception_vectors" "\<not> 32 \<le> v"
    by blast
  then show ?thesis
  proof cases
    case 1
    then show ?thesis using ready [of cs 1 "ex v"] nth by simp
  next
    case 2
    then show ?thesis using ready [of cs 2 "entry + of_nat (v - 32) * 16"] nth assms(2) by simp
  next
    case 3
    then show ?thesis using nth by (simp add: deliver_def)
  qed
qed

text \<open>A page fault with the stacks at 0x10000 and 0x20000.\<close>

definition sample_cpu :: arch_cpu where
  "sample_cpu = \<lparr>tss_addr = 0x9004, exception_stack = 0x10000, interrupt_stack = 0x20000, ist = replicate 8 0, gdt = []\<rparr>"

definition reset_control :: control where
  "reset_control = \<lparr>cr4 = 0, xcr0 = 1, gdtr = [], tr = 0\<rparr>"

definition zero_idt :: "idt_entry list" where
  "zero_idt = replicate 256 \<lparr>gate_lo = 0, gate_hi = 0\<rparr>"

theorem interrupts_delivered_witness:
  "\<exists>ctl. init_on_cpu (\<lambda>_. True) (arch_cpu_ctor sample_cpu) reset_control = Some ctl \<and>
    deliver (idt_ctor 8 (\<lambda>v. 0x400000 + of_nat v) 0x500000 zero_idt)
      ctl (\<lambda>_. ist (arch_cpu_ctor sample_cpu)) 14 0x7000 = Some (0x40000e, 0x10f58)"
proof -
  obtain ctl where c: "init_on_cpu (\<lambda>_. True) (arch_cpu_ctor sample_cpu) reset_control = Some ctl"
    using init_on_cpu_some by blast
  have l: "length zero_idt = 256" "length (ist sample_cpu) = 8" "exception_stack sample_cpu = 0x10000"
    by (simp_all add: zero_idt_def sample_cpu_def)
  have v: "(14 :: nat) \<in> set exception_vectors" by (simp add: exception_vectors_def)
  show ?thesis
    using interrupts_delivered [OF l(1) _ l(2) _ c, of 14 "\<lambda>_. ist (arch_cpu_ctor sample_cpu)" 8
      "\<lambda>v. 0x400000 + of_nat v" "0x500000" "0x7000"] v c l(3) by auto
qed

text \<open>
  An exception inside an exception handler destroys the frame of the outer one: both use the
  same stack from its top, whatever the stack pointer was, so the frames have the same address.
\<close>

theorem nested_exception_overwrites:
  assumes "length t = 256" and "length (ist c) = 8" and "tss_at (tss_addr c) = ist (arch_cpu_ctor c)"
    and "init_on_cpu f (arch_cpu_ctor c) ctl = Some ctl'"
    and "v \<in> set exception_vectors" and "w \<in> set exception_vectors"
  shows "\<exists>frame. deliver (idt_ctor cs ex entry t) ctl' tss_at v rsp = Some (ex v, frame) \<and>
    deliver (idt_ctor cs ex entry t) ctl' tss_at w frame = Some (ex w, frame)"
proof -
  have ctl: "gdtr ctl' = gdt (arch_cpu_ctor c)" "tr ctl' = 32"
    using init_on_cpu_some [of f "arch_cpu_ctor c" ctl] assms(4) by auto
  have lt: "u < 256" if "u \<in> set exception_vectors" for u using that by (auto simp: exception_vectors_def)
  have "deliver (idt_ctor cs ex entry t) ctl' tss_at u r = Some (ex u, ((exception_stack c + 4096) AND NOT 15) - 168)"
    if "u \<in> set exception_vectors" for u r
    using deliver_ready [of c tss_at ctl', OF assms(2,3) ctl, of "idt_ctor cs ex entry t" u cs 1 "ex u" r]
      idt_ctor_nth [OF assms(1) lt [OF that], of cs ex entry] that by simp
  then show ?thesis using assms(5,6) by blast
qed

theorem nested_exception_overwrites_witness:
  "\<exists>ctl frame. init_on_cpu (\<lambda>_. False) (arch_cpu_ctor sample_cpu) reset_control = Some ctl \<and>
    deliver (idt_ctor 8 of_nat 0x500000 zero_idt) ctl (\<lambda>_. ist (arch_cpu_ctor sample_cpu)) 14 0x7000 = Some (14, frame) \<and>
    deliver (idt_ctor 8 of_nat 0x500000 zero_idt) ctl (\<lambda>_. ist (arch_cpu_ctor sample_cpu)) 13 frame = Some (13, frame)"
proof -
  obtain ctl where c: "init_on_cpu (\<lambda>_. False) (arch_cpu_ctor sample_cpu) reset_control = Some ctl"
    using init_on_cpu_some by blast
  have l: "length zero_idt = 256" "length (ist sample_cpu) = 8"
    by (simp_all add: zero_idt_def sample_cpu_def)
  have v: "14 \<in> set exception_vectors" "13 \<in> set exception_vectors" by (simp_all add: exception_vectors_def)
  show ?thesis
    using nested_exception_overwrites [OF l _ c v, of "\<lambda>_. ist (arch_cpu_ctor sample_cpu)" 8 of_nat "0x500000" "0x7000"] c
    by auto
qed

text \<open>
  Initialising a processor never faults, whatever its features: extended state is enabled
  only after the control register allows it and always with the x87 and SSE parts; and afterwards
  the task register names a present segment descriptor whose base is the processor's own segment.
\<close>

theorem init_on_cpu_never_faults:
  "\<exists>ctl'. init_on_cpu f (arch_cpu_ctor c) ctl = Some ctl' \<and>
    (bit (cr4 ctl') 18 = f xsave) \<and> (if f xsave then xcr0 ctl' = (if f avx then 7 else 3) else xcr0 ctl' = xcr0 ctl) \<and>
    tss_present (gdtr ctl' ! (unat (tr ctl') div 8)) \<and>
    tss_base (gdtr ctl' ! (unat (tr ctl') div 8)) (gdtr ctl' ! (unat (tr ctl') div 8 + 1)) = tss_addr c"
proof -
  have d: "unat (32 :: u16) div 8 = 4" by simp
  show ?thesis
    by (simp add: init_on_cpu_def write_xcr0_def Let_def control_defs gdt_tss_def bit_simps arch_cpu_ctor_gdt)
qed

end
