(* ===== verification/PciConfig.thy ===== *)
theory PciConfig
  imports Prelude
begin

text \<open>
  PCI configuration space through the ports 0xcf8 and 0xcfc (pci.cc): the address register and the
  configuration bytes of every function on the bus, read and written 1, 2 or 4 bytes at a time.
\<close>

section \<open>Numbers as little-endian bytes\<close>

definition le_bytes :: "nat \<Rightarrow> u64 \<Rightarrow> u8 list" where
  "le_bytes n v = map (\<lambda>i. ucast (drop_bit (8 * i) v)) [0..<n]"

fun le_value :: "u8 list \<Rightarrow> u64" where
  "le_value [] = 0"
| "le_value (b # bs) = ucast b OR push_bit 8 (le_value bs)"

lemma le_bytes_length [simp]: "length (le_bytes n v) = n"
  by (simp add: le_bytes_def)

lemma le_bytes_Suc: "le_bytes (Suc n) v = ucast v # le_bytes n (drop_bit 8 v)"
  by (simp add: le_bytes_def upt_conv_Cons map_Suc_upt [symmetric] drop_bit_drop_bit comp_def add.commute del: upt_Suc)

lemma le_value_bytes: "le_value (le_bytes n v) = take_bit (8 * n) v"
proof (induction n arbitrary: v)
  case 0
  show ?case by (simp add: le_bytes_def)
next
  case (Suc n)
  show ?case
    unfolding le_bytes_Suc le_value.simps Suc.IH
    by (rule bit_eqI) (auto simp: bit_simps dest: bit_imp_le_length)
qed

section \<open>The configuration mechanism\<close>

definition PCI_BUS_OFFSET :: nat where "PCI_BUS_OFFSET = 16"
definition PCI_SLOT_OFFSET :: nat where "PCI_SLOT_OFFSET = 11"
definition PCI_FUNC_OFFSET :: nat where "PCI_FUNC_OFFSET = 8"
definition PCI_CONFIG_ADDRESS_ENABLE :: u32 where "PCI_CONFIG_ADDRESS_ENABLE = 0x80000000"

text \<open>The address register, and a configuration byte for each bus, device, function and offset.\<close>

record pci =
  config_address :: u32
  config_bytes :: "u32 \<Rightarrow> u8"

text \<open>
  Reads and writes of \<open>n\<close> bytes at port \<open>PCI_CONFIG_DATA + k\<close>: the bytes of the addressed double
  word from the \<open>k\<close>-th on, if the address is enabled.
\<close>

definition data_byte :: "nat \<Rightarrow> pci \<Rightarrow> u32" where
  "data_byte k s = (config_address s AND 0x00fffffc) + of_nat k"

definition enabled :: "pci \<Rightarrow> bool" where
  "enabled s \<longleftrightarrow> bit (config_address s) 31"

definition config_in :: "nat \<Rightarrow> nat \<Rightarrow> pci \<Rightarrow> u64" where
  "config_in n k s = le_value (map (\<lambda>i. if enabled s then config_bytes s (data_byte (k + i) s) else 0xff) [0..<n])"

definition config_out :: "nat \<Rightarrow> u64 \<Rightarrow> nat \<Rightarrow> pci \<Rightarrow> pci" where
  "config_out n v k s =
     (if enabled s then s\<lparr>config_bytes := fold (\<lambda>i f. f(data_byte (k + i) s := le_bytes n v ! i)) [0..<n] (config_bytes s)\<rparr>
      else s)"

section \<open>pci.cc\<close>

definition build_config_address :: "u8 \<Rightarrow> u8 \<Rightarrow> u8 \<Rightarrow> u8 \<Rightarrow> u32" where
  "build_config_address bus slot func offset =
     push_bit PCI_BUS_OFFSET (ucast bus) OR push_bit PCI_SLOT_OFFSET (ucast slot) OR
     push_bit PCI_FUNC_OFFSET (ucast func) OR (ucast offset AND NOT 3)"

definition prepare_pci_config_access :: "u8 \<Rightarrow> u8 \<Rightarrow> u8 \<Rightarrow> u8 \<Rightarrow> pci \<Rightarrow> pci" where
  "prepare_pci_config_access bus slot func offset s =
     s\<lparr>config_address := PCI_CONFIG_ADDRESS_ENABLE OR build_config_address bus slot func offset\<rparr>"

definition read_pci_config :: "u8 \<Rightarrow> u8 \<Rightarrow> u8 \<Rightarrow> u8 \<Rightarrow> pci \<Rightarrow> u64 \<times> pci" where
  "read_pci_config bus slot func offset s =
     (let s = prepare_pci_config_access bus slot func offset s in (config_in 4 0 s, s))"

definition read_pci_config_word :: "u8 \<Rightarrow> u8 \<Rightarrow> u8 \<Rightarrow> u8 \<Rightarrow> pci \<Rightarrow> u64 \<times> pci" where
  "read_pci_config_word bus slot func offset s =
     (let s = prepare_pci_config_access bus slot func offset s in (config_in 2 (unat (offset AND 2)) s, s))"

definition read_pci_config_byte :: "u8 \<Rightarrow> u8 \<Rightarrow> u8 \<Rightarrow> u8 \<Rightarrow> pci \<Rightarrow> u64 \<times> pci" where
  "read_pci_config_byte bus slot func offset s =
     (let s = prepare_pci_config_access bus slot func offset s in (config_in 1 (unat (offset AND 3)) s, s))"

definition write_pci_config :: "u8 \<Rightarrow> u8 \<Rightarrow> u8 \<Rightarrow> u8 \<Rightarrow> u64 \<Rightarrow> pci \<Rightarrow> pci" where
  "write_pci_config bus slot func offset v s =
     config_out 4 v 0 (prepare_pci_config_access bus slot func offset s)"

definition write_pci_config_word :: "u8 \<Rightarrow> u8 \<Rightarrow> u8 \<Rightarrow> u8 \<Rightarrow> u64 \<Rightarrow> pci \<Rightarrow> pci" where
  "write_pci_config_word bus slot func offset v s =
     config_out 2 v (unat (offset AND 2)) (prepare_pci_config_access bus slot func offset s)"

definition write_pci_config_byte :: "u8 \<Rightarrow> u8 \<Rightarrow> u8 \<Rightarrow> u8 \<Rightarrow> u64 \<Rightarrow> pci \<Rightarrow> pci" where
  "write_pci_config_byte bus slot func offset v s =
     config_out 1 v (unat (offset AND 3)) (prepare_pci_config_access bus slot func offset s)"

section \<open>Lemmas\<close>

lemma enabled_prepare [simp]: "enabled (prepare_pci_config_access bus slot func offset s)"
proof -
  have "bit (0x80000000 :: u32) 31" by (simp add: bit_numeral_rec)
  then show ?thesis
    by (simp add: enabled_def prepare_pci_config_access_def PCI_CONFIG_ADDRESS_ENABLE_def bit_or_iff del: bit_numeral_word_iff)
qed

lemma small_bits: "unat (x :: 'a::len word) < 2 ^ k \<Longrightarrow> bit x n \<Longrightarrow> n < k"
proof (rule ccontr)
  assume u: "unat x < 2 ^ k" and b: "bit x n" and "\<not> n < k"
  then have "(2 :: nat) ^ k \<le> 2 ^ n" by (intro power_increasing) auto
  then have "unat x < 2 ^ n" by (rule less_le_trans [OF u])
  then have "unat x div 2 ^ n = 0" by simp
  moreover have "odd (unat x div 2 ^ n)"
    using b by (simp add: bit_unsigned_iff flip: bit_iff_odd)
  ultimately show False by simp
qed

lemma unat_or:
  assumes "\<And>n. bit x n \<Longrightarrow> \<not> bit y n" "unat x + unat y < 2 ^ 32"
  shows "unat (x OR y :: u32) = unat x + unat y"
proof -
  have "x AND y = 0" by (rule bit_word_eqI) (use assms(1) in \<open>auto simp: bit_simps\<close>)
  then have "x + y = x OR y" by (rule disjunctive_add_eq_or)
  then show ?thesis using assms(2) unat_add_lem [of x y] by simp
qed

text \<open>The configuration byte \<open>i\<close> of a function.\<close>

definition reg_byte :: "u8 \<Rightarrow> u8 \<Rightarrow> u8 \<Rightarrow> nat \<Rightarrow> u32" where
  "reg_byte bus slot func i =
     push_bit 16 (ucast bus) OR push_bit 11 (ucast slot) OR push_bit 8 (ucast func) OR of_nat i"

lemma unat_field:
  assumes "unat (x :: u8) * 2 ^ k < 2 ^ 32"
  shows "unat (push_bit k (ucast x) :: u32) = unat x * 2 ^ k"
proof -
  have x: "unat (ucast x :: u32) = unat x" by (simp add: unsigned_ucast_eq take_bit_nat_eq_self less_trans [OF unsigned_less])
  have "unat (push_bit k (ucast x) :: u32) = take_bit 32 (push_bit k (unat (ucast x :: u32)))"
    by (simp add: unsigned_push_bit_eq)
  then show ?thesis using assms by (simp only: x) (simp add: push_bit_eq_mult take_bit_nat_eq_self)
qed

lemma bit_field: "unat (x :: u8) < 2 ^ w \<Longrightarrow> bit (push_bit k (ucast x) :: u32) n \<Longrightarrow> k \<le> n \<and> n < k + w"
  using small_bits [of x w "n - k"] by (auto simp: bit_push_bit_iff bit_ucast_iff)

lemma bit_low: "i < 256 \<Longrightarrow> bit (of_nat i :: u32) n \<Longrightarrow> n < 8"
  by (rule small_bits) (simp_all add: unat_of_nat_u32)

lemma unat_reg_byte:
  assumes "unat slot < 32" "unat func < 8" "i < 256"
  shows "unat (reg_byte bus slot func i) = unat bus * 65536 + unat slot * 2048 + unat func * 256 + i"
proof -
  have b: "unat bus < 256" using unsigned_less [of bus] by simp
  have f: "unat (push_bit 16 (ucast bus) :: u32) = unat bus * 65536" "unat (push_bit 11 (ucast slot) :: u32) = unat slot * 2048"
    "unat (push_bit 8 (ucast func) :: u32) = unat func * 256" "unat (of_nat i :: u32) = i"
    using assms b by (simp_all add: unat_field unat_of_nat_u32)
  have bits: "bit (push_bit 16 (ucast bus) :: u32) n \<Longrightarrow> 16 \<le> n" "bit (push_bit 11 (ucast slot) :: u32) n \<Longrightarrow> 11 \<le> n \<and> n < 16"
    "bit (push_bit 8 (ucast func) :: u32) n \<Longrightarrow> 8 \<le> n \<and> n < 11" "bit (of_nat i :: u32) n \<Longrightarrow> n < 8" for n
    using bit_field [of bus 8 16 n] bit_field [of slot 5 11 n] bit_field [of func 3 8 n] bit_low [OF assms(3)] assms b by auto
  have 1: "unat (push_bit 8 (ucast func) OR of_nat i :: u32) = unat func * 256 + i"
    using bits(3,4) assms by (subst unat_or) (force simp: f)+
  have 2: "unat (push_bit 11 (ucast slot) OR (push_bit 8 (ucast func) OR of_nat i) :: u32) = unat slot * 2048 + (unat func * 256 + i)"
    using bits(2,3,4) assms by (subst unat_or) (force simp: f 1 bit_or_iff)+
  have "unat (push_bit 16 (ucast bus) OR (push_bit 11 (ucast slot) OR (push_bit 8 (ucast func) OR of_nat i)) :: u32) =
      unat bus * 65536 + (unat slot * 2048 + (unat func * 256 + i))"
    using bits assms b by (subst unat_or) (force simp: f 2 bit_or_iff)+
  then show ?thesis by (simp add: reg_byte_def or.assoc)
qed

lemma offset_aligned: "(ucast (x :: u8) AND NOT 3 :: u32) = of_nat (4 * (unat x div 4))"
proof -
  have "(ucast x AND NOT 3 :: u32) = push_bit 2 (ucast (drop_bit 2 x))"
    by (rule bit_word_eqI) (auto simp: bit_simps mask_eq_exp_minus_1 bit_numeral_rec split: nat.splits)
  also have "\<dots> = of_nat (4 * (unat x div 4))"
  proof -
    have x: "unat x < 256" using unsigned_less [of x] by simp
    then have d: "unat (drop_bit 2 x) = unat x div 4" by (simp only: unsigned_drop_bit_eq) (simp add: drop_bit_eq_div take_bit_nat_eq_self)
    have "unat x div 4 < 64" using x by simp
    then have "unat (push_bit 2 (ucast (drop_bit 2 x)) :: u32) = 4 * (unat x div 4)"
      by (subst unat_field) (simp_all add: d)
    moreover have "unat (of_nat (4 * (unat x div 4)) :: u32) = 4 * (unat x div 4)"
      using \<open>unat x div 4 < 64\<close> by (intro unat_of_nat_u32) simp
    ultimately show ?thesis by (simp only: word_unat_eq_iff)
  qed
  finally show ?thesis .
qed

lemma data_byte_prepare:
  assumes "unat slot < 32" "unat func < 8" "k < 4"
  shows "data_byte k (prepare_pci_config_access bus slot func offset s) = reg_byte bus slot func (4 * (unat offset div 4) + k)"
proof -
  let ?i = "4 * (unat offset div 4)"
  let ?B = "reg_byte bus slot func ?i"
  have "unat offset < 256" using unsigned_less [of offset] by simp
  then have i: "?i + 3 < 256" by presburger
  have B: "build_config_address bus slot func offset = ?B"
    by (simp only: build_config_address_def reg_byte_def offset_aligned PCI_BUS_OFFSET_def PCI_SLOT_OFFSET_def PCI_FUNC_OFFSET_def)
  have "unat bus < 256" using unsigned_less [of bus] by simp
  then have lt: "unat ?B < 2 ^ 24"
    using unat_reg_byte [OF assms(1,2), of ?i bus] i assms by simp
  have "unat ?B mod 4 = 0" using unat_reg_byte [OF assms(1,2), of ?i bus] i by simp
  then have "unat (take_bit 2 ?B) = 0" by (simp only: unsigned_take_bit_eq) (simp add: take_bit_eq_mod)
  then have "take_bit 2 ?B = 0" by (simp only: unat_eq_zero)
  then have b1: "bit ?B n \<Longrightarrow> 2 \<le> n" for n
    by (metis bit_0_eq bit_take_bit_iff bot_apply bot_bool_def not_le)
  have b2: "bit ?B n \<Longrightarrow> n < 24" for n using small_bits [OF lt] .
  have c: "PCI_CONFIG_ADDRESS_ENABLE = push_bit 31 1" "(0x00fffffc :: u32) = push_bit 2 (mask 22)"
    by (simp_all add: PCI_CONFIG_ADDRESS_ENABLE_def mask_eq_exp_minus_1 push_bit_eq_mult)
  have en: "bit PCI_CONFIG_ADDRESS_ENABLE n \<Longrightarrow> n = 31" for n
    by (simp only: c(1) bit_push_bit_iff bit_1_iff) auto
  have keep: "(PCI_CONFIG_ADDRESS_ENABLE OR ?B) AND 0x00fffffc = ?B"
    unfolding c(2) by (rule bit_word_eqI) (auto simp: bit_and_iff bit_or_iff bit_push_bit_iff bit_mask_iff bit_1_iff dest: b1 b2 en)
  have "unat (?B + of_nat k) = unat ?B + k"
    using lt assms(3) unat_add_lem [of ?B "of_nat k"] by (simp add: unat_of_nat_u32)
  also have "\<dots> = unat (reg_byte bus slot func (?i + k))"
    using unat_reg_byte [OF assms(1,2)] i assms(3) by simp
  finally show ?thesis
    by (simp add: data_byte_def prepare_pci_config_access_def B keep word_unat_eq_iff)
qed

lemma radix_eq: "x < m \<Longrightarrow> x' < m \<Longrightarrow> a * m + x = a' * m + x' \<longleftrightarrow> a = a' \<and> x = (x' :: nat)"
  by (metis add.right_neutral add_left_cancel div_less div_mult_self3 not_less_zero)

lemma reg_byte_inj:
  assumes "unat slot < 32" "unat func < 8" "i < 256" "unat slot' < 32" "unat func' < 8" "i' < 256"
  shows "reg_byte bus slot func i = reg_byte bus' slot' func' i' \<longleftrightarrow> bus = bus' \<and> slot = slot' \<and> func = func' \<and> i = i'"
proof -
  have r: "unat (reg_byte b s f j) = ((unat b * 32 + unat s) * 8 + unat f) * 256 + j"
    if "unat s < 32" "unat f < 8" "j < 256" for b s f j
    using unat_reg_byte [OF that] by simp
  have "reg_byte bus slot func i = reg_byte bus' slot' func' i' \<longleftrightarrow>
      unat bus = unat bus' \<and> unat slot = unat slot' \<and> unat func = unat func' \<and> i = i'"
    unfolding word_unat_eq_iff [of "reg_byte bus slot func i"] r [OF assms(1-3)] r [OF assms(4-6)]
    using assms by (simp only: radix_eq) auto
  then show ?thesis by (simp add: word_unat_eq_iff)
qed

lemma fold_upds_other: "x \<notin> a ` set is \<Longrightarrow> fold (\<lambda>i f. f(a i := v i)) is f x = f x"
  by (induction "is" arbitrary: f) auto

lemma fold_upds_at: "inj_on a (set is) \<Longrightarrow> i \<in> set is \<Longrightarrow> fold (\<lambda>i f. f(a i := v i)) is f (a i) = v i"
proof (induction "is" arbitrary: f)
  case (Cons j js)
  show ?case
  proof (cases "i \<in> set js")
    case True
    then show ?thesis using Cons.IH Cons.prems(1) by (simp del: fun_upd_apply)
  next
    case False
    then have ij: "i = j" "a j \<notin> a ` set js" using Cons.prems by (auto simp: inj_on_def)
    show ?thesis unfolding ij(1) using fold_upds_other [OF ij(2), of v "f(a j := v j)"] by (simp only: fold_simps comp_def) simp
  qed
qed simp

text \<open>Reading and writing \<open>n\<close> bytes of a function from its byte \<open>o\<close> on.\<close>

lemma config_out_bytes:
  assumes "unat slot < 32" "unat func < 8" "unat slot' < 32" "unat func' < 8" "i < 256" "k + n \<le> 4"
  shows "config_bytes (config_out n v k (prepare_pci_config_access bus slot func offset s)) (reg_byte bus' slot' func' i) =
    (let lo = 4 * (unat offset div 4) + k
     in if bus' = bus \<and> slot' = slot \<and> func' = func \<and> lo \<le> i \<and> i < lo + n then le_bytes n v ! (i - lo)
        else config_bytes s (reg_byte bus' slot' func' i))"
proof -
  let ?p = "prepare_pci_config_access bus slot func offset s"
  let ?lo = "4 * (unat offset div 4) + k"
  let ?a = "\<lambda>j. reg_byte bus slot func (?lo + j)"
  have "unat offset < 256" using unsigned_less [of offset] by simp
  then have lo: "?lo + n \<le> 256" using assms(6) by presburger
  have a: "data_byte (k + j) ?p = ?a j" if "j < n" for j
    using data_byte_prepare [OF assms(1,2), of "k + j"] that assms(6) by (simp add: add.assoc)
  have "fold (\<lambda>j f. f(data_byte (k + j) ?p := le_bytes n v ! j)) [0..<n] (config_bytes ?p) =
      fold (\<lambda>j f. f(?a j := le_bytes n v ! j)) [0..<n] (config_bytes ?p)"
    by (rule fold_cong) (simp_all add: a)
  then have w: "config_bytes (config_out n v k ?p) = fold (\<lambda>j f. f(?a j := le_bytes n v ! j)) [0..<n] (config_bytes s)"
    by (simp add: config_out_def) (simp add: prepare_pci_config_access_def)
  have eq: "reg_byte bus' slot' func' i = ?a j \<longleftrightarrow> bus' = bus \<and> slot' = slot \<and> func' = func \<and> i = ?lo + j" if "j < n" for j
    using reg_byte_inj [OF assms(3-5,1,2), of "?lo + j"] lo that by simp
  have inj: "inj_on ?a (set [0..<n])"
    using reg_byte_inj [OF assms(1,2) _ assms(1,2)] lo by (auto simp: inj_on_def)
  show ?thesis
  proof (cases "bus' = bus \<and> slot' = slot \<and> func' = func \<and> ?lo \<le> i \<and> i < ?lo + n")
    case True
    then obtain j where j: "i = ?lo + j" "j < n" by (metis add_less_cancel_left le_Suc_ex)
    have "fold (\<lambda>j f. f(?a j := le_bytes n v ! j)) [0..<n] (config_bytes s) (?a j) = le_bytes n v ! j"
      by (rule fold_upds_at [OF inj]) (simp add: j)
    then show ?thesis using True j w by (simp add: Let_def)
  next
    case False
    then have "reg_byte bus' slot' func' i \<notin> ?a ` set [0..<n]" using eq by (auto simp: image_iff)
    from fold_upds_other [OF this] have "config_bytes (config_out n v k ?p) (reg_byte bus' slot' func' i) =
        config_bytes s (reg_byte bus' slot' func' i)" unfolding w .
    then show ?thesis unfolding Let_def using False by (simp only: if_False)
  qed
qed

lemma config_in_bytes:
  assumes "unat slot < 32" "unat func < 8" "k + n \<le> 4"
  shows "config_in n k (prepare_pci_config_access bus slot func offset s) =
    le_value (map (\<lambda>j. config_bytes s (reg_byte bus slot func (4 * (unat offset div 4) + k + j))) [0..<n])"
proof -
  have "data_byte (k + j) (prepare_pci_config_access bus slot func offset s) =
      reg_byte bus slot func (4 * (unat offset div 4) + k + j)" if "j < n" for j
    using data_byte_prepare [OF assms(1,2), of "k + j"] that assms(3) by (simp add: add.assoc)
  then have "map (\<lambda>i. config_bytes s (data_byte (k + i) (prepare_pci_config_access bus slot func offset s))) [0..<n] =
      map (\<lambda>j. config_bytes s (reg_byte bus slot func (4 * (unat offset div 4) + k + j))) [0..<n]"
    by (intro map_cong) simp_all
  moreover have "config_bytes (prepare_pci_config_access bus slot func offset s) = config_bytes s"
    by (simp add: prepare_pci_config_access_def)
  ultimately show ?thesis unfolding config_in_def by (simp only: enabled_prepare if_True)
qed

end
