(* ===== verification/AcpiOs.thy ===== *)
theory AcpiOs
  imports Cpu PciConfig
begin

text \<open>
  The operating system layer that the kernel gives to ACPICA (acpi.cc): its memory allocator and
  mapping of physical memory, interrupt handlers, ports, memory and PCI configuration accesses, the
  lock and semaphore stubs, and the start-up and power-off sequences over ACPICA's entry points.
\<close>

datatype acpi_status = AE_OK | AE_BAD_PARAMETER | AE_ALREADY_EXISTS | AE_NOT_EXIST | AE_NOT_IMPLEMENTED

section \<open>Stubs\<close>

definition AcpiOsInitialize :: acpi_status where "AcpiOsInitialize = AE_OK"
definition AcpiOsTerminate :: acpi_status where "AcpiOsTerminate = AE_OK"

text \<open>The overrides: the status and the pointer, address and length they hand back.\<close>

definition AcpiOsPredefinedOverride :: "acpi_status \<times> u64" where "AcpiOsPredefinedOverride = (AE_OK, 0)"
definition AcpiOsTableOverride :: "acpi_status \<times> u64" where "AcpiOsTableOverride = (AE_OK, 0)"
definition AcpiOsPhysicalTableOverride :: "acpi_status \<times> u64 \<times> u32" where
  "AcpiOsPhysicalTableOverride = (AE_OK, 0, 0)"

definition AcpiOsCreateLock :: "acpi_status \<times> u64" where "AcpiOsCreateLock = (AE_OK, 0x10C3)"
definition AcpiOsAcquireLock :: "u64 \<Rightarrow> u64" where "AcpiOsAcquireLock h = 0"

definition AcpiOsCreateSemaphore :: "u32 \<Rightarrow> u32 \<Rightarrow> acpi_status \<times> u64" where
  "AcpiOsCreateSemaphore max_units initial_units = (AE_OK, 0x534)"

definition AcpiOsDeleteSemaphore :: "u64 \<Rightarrow> acpi_status" where
  "AcpiOsDeleteSemaphore h = (if h = 0 then AE_BAD_PARAMETER else AE_OK)"

definition AcpiOsWaitSemaphore :: "u64 \<Rightarrow> u32 \<Rightarrow> u16 \<Rightarrow> acpi_status" where
  "AcpiOsWaitSemaphore h units timeout = (if h = 0 then AE_BAD_PARAMETER else AE_OK)"

definition AcpiOsSignalSemaphore :: "u64 \<Rightarrow> u32 \<Rightarrow> acpi_status" where
  "AcpiOsSignalSemaphore h units = (if h = 0 then AE_BAD_PARAMETER else AE_OK)"

definition AcpiOsGetThreadId :: u64 where "AcpiOsGetThreadId = 1"
definition AcpiOsExecute :: acpi_status where "AcpiOsExecute = AE_NOT_IMPLEMENTED"
definition AcpiOsReadable :: "u64 \<Rightarrow> u64 \<Rightarrow> bool" where "AcpiOsReadable p n = True"
definition AcpiOsWritable :: "u64 \<Rightarrow> u64 \<Rightarrow> bool" where "AcpiOsWritable p n = True"
definition AcpiOsGetTimer :: u64 where "AcpiOsGetTimer = 0"

definition AcpiOsGetPhysicalAddress :: "u64 \<Rightarrow> acpi_status \<times> u64" where
  "AcpiOsGetPhysicalAddress p = (AE_OK, p)"

section \<open>The allocator\<close>

text \<open>
  \<open>acpi_allocated\<close> is an \<open>int\<close>; a pointer is its offset in the static array, None the null pointer.
\<close>

record arena =
  acpi_allocated :: u32
  acpi_last_pointer :: "int option"
  acpi_last_pointer_size :: u64

definition arena_size :: u64 where "arena_size = 1024 * 175"

definition arena_init :: arena where
  "arena_init = \<lparr>acpi_allocated = 0, acpi_last_pointer = None, acpi_last_pointer_size = 0\<rparr>"

text \<open>Out of memory is the endless loop (None); the sum is one of 64-bit words.\<close>

definition AcpiOsAllocate :: "u64 \<Rightarrow> arena \<Rightarrow> (int \<times> arena) option" where
  "AcpiOsAllocate sz a =
     (if scast (acpi_allocated a) + sz > arena_size then None
      else (let chunk = sint (acpi_allocated a)
            in Some (chunk, \<lparr>acpi_allocated = ucast (scast (acpi_allocated a) + sz),
                 acpi_last_pointer = Some chunk, acpi_last_pointer_size = sz\<rparr>)))"

definition AcpiOsFree :: "int option \<Rightarrow> arena \<Rightarrow> arena" where
  "AcpiOsFree p a =
     (if p = acpi_last_pointer a then a\<lparr>acpi_allocated := ucast (scast (acpi_allocated a) - acpi_last_pointer_size a)\<rparr>
      else a)"

text \<open>
  A run of a client that asks for 1 to 2^32 bytes and frees each block once: the arena and the
  blocks that are live, as pairs of pointer and size.
\<close>

inductive arena_run :: "arena \<Rightarrow> (int \<times> nat) list \<Rightarrow> bool" where
  start: "arena_run arena_init []"
| alloc: "arena_run a live \<Longrightarrow> 0 < unat sz \<Longrightarrow> unat sz < 2 ^ 32 \<Longrightarrow> AcpiOsAllocate sz a = Some (p, a') \<Longrightarrow>
    arena_run a' ((p, unat sz) # live)"
| free: "arena_run a live \<Longrightarrow> (p, n) \<in> set live \<Longrightarrow>
    arena_run (AcpiOsFree (Some p) a) (filter (\<lambda>b. fst b \<noteq> p) live)"

definition disjoint_blocks :: "int \<times> nat \<Rightarrow> int \<times> nat \<Rightarrow> bool" where
  "disjoint_blocks b c \<longleftrightarrow> fst b + int (snd b) \<le> fst c \<or> fst c + int (snd c) \<le> fst b"

text \<open>The live blocks lie below the top, the last one (if it is live) directly below it.\<close>

definition arena_inv :: "arena \<Rightarrow> (int \<times> nat) list \<Rightarrow> bool" where
  "arena_inv a live \<longleftrightarrow>
     (\<exists>top. top \<le> 179200 \<and> acpi_allocated a = of_nat top \<and>
       (\<forall>b \<in> set live. 0 \<le> fst b \<and> 0 < snd b \<and> fst b + int (snd b) \<le> int top \<and>
         (acpi_last_pointer a = Some (fst b) \<longrightarrow>
           acpi_last_pointer_size a = of_nat (snd b) \<and> fst b + int (snd b) = int top)) \<and>
       pairwise disjoint_blocks (set live))"

lemma sint_small: "n \<le> 179200 \<Longrightarrow> sint (of_nat n :: u32) = int n"
  by (simp add: sint_u32 uint_nat unat_of_nat_u32 del: of_nat_unat)

lemma scast_small: "n \<le> 179200 \<Longrightarrow> (scast (of_nat n :: u32) :: u64) = of_nat n"
  using sint_small [of n] by (simp add: scast_eq)

lemma ucast_small: "unat (w :: u64) = n \<Longrightarrow> (ucast w :: u32) = of_nat n"
  by (simp add: word_unat_eq_iff unsigned_ucast_eq unsigned_of_nat)

lemma arena_inv_alloc:
  assumes "arena_inv a live" "0 < unat sz" "unat sz < 2 ^ 32" "AcpiOsAllocate sz a = Some (p, a')"
  shows "arena_inv a' ((p, unat sz) # live)"
proof -
  obtain top where t: "top \<le> 179200" "acpi_allocated a = of_nat top"
      "\<forall>b \<in> set live. 0 \<le> fst b \<and> 0 < snd b \<and> fst b + int (snd b) \<le> int top"
      "pairwise disjoint_blocks (set live)"
    using assms(1) unfolding arena_inv_def by blast
  have u: "unat (of_nat top + sz :: u64) = top + unat sz"
    using t(1) assms(3) by (subst unat_add_lem [THEN iffD1]) (simp_all add: unat_of_nat_u64)
  have le: "top + unat sz \<le> 179200"
    using assms(4) u by (auto simp: AcpiOsAllocate_def scast_small t arena_size_def word_less_nat_alt split: if_splits)
  have p: "p = int top" and a': "acpi_allocated a' = of_nat (top + unat sz)" "acpi_last_pointer a' = Some p"
      "acpi_last_pointer_size a' = sz"
    using assms(4) ucast_small [OF u] by (auto simp: AcpiOsAllocate_def Let_def scast_small sint_small t split: if_splits)
  have "pairwise disjoint_blocks (insert (p, unat sz) (set live))"
    using t(3,4) p by (auto simp: pairwise_insert disjoint_blocks_def)
  moreover have "fst b \<noteq> p" if "b \<in> set live" for b using t(3) that p by fastforce
  ultimately show ?thesis
    unfolding arena_inv_def using le a' assms(2) p t(3)
    by (intro exI [of _ "top + unat sz"]) (auto simp: word_of_nat_eq_iff intro: order_trans)
qed

lemma arena_inv_free:
  assumes "arena_inv a live" "(p, n) \<in> set live"
  shows "arena_inv (AcpiOsFree (Some p) a) (filter (\<lambda>b. fst b \<noteq> p) live)"
proof -
  obtain top where t: "top \<le> 179200" "acpi_allocated a = of_nat top"
      "\<forall>b \<in> set live. 0 \<le> fst b \<and> 0 < snd b \<and> fst b + int (snd b) \<le> int top \<and>
         (acpi_last_pointer a = Some (fst b) \<longrightarrow>
           acpi_last_pointer_size a = of_nat (snd b) \<and> fst b + int (snd b) = int top)"
      "pairwise disjoint_blocks (set live)"
    using assms(1) unfolding arena_inv_def by blast
  let ?live = "filter (\<lambda>b. fst b \<noteq> p) live"
  have pw: "pairwise disjoint_blocks (set ?live)" using t(4) by (rule pairwise_subset) auto
  show ?thesis
  proof (cases "acpi_last_pointer a = Some p")
    case False
    then show ?thesis using t pw by (auto simp: arena_inv_def AcpiOsFree_def intro!: exI [of _ top])
  next
    case True
    then have last: "acpi_last_pointer_size a = of_nat n" "p + int n = int top" "0 \<le> p" "0 < n"
      using t(3) assms(2) by auto
    have nt: "n \<le> top" using last by linarith
    have "unat (of_nat top - of_nat n :: u64) = top - n"
      using nt t(1) by (subst unat_sub) (simp_all add: word_le_nat_alt unat_of_nat_u64)
    then have uc: "(ucast (of_nat top - of_nat n :: u64) :: u32) = of_nat (top - n)" by (rule ucast_small)
    have a': "acpi_allocated (AcpiOsFree (Some p) a) = of_nat (top - n)"
      "acpi_last_pointer (AcpiOsFree (Some p) a) = Some p"
      using True by (simp_all only: AcpiOsFree_def if_True t(2) scast_small [OF t(1)] last(1) uc) simp_all
    have below: "fst b + int (snd b) \<le> int (top - n)" if "b \<in> set ?live" for b
    proof -
      have "b \<noteq> (p, n)" "b \<in> set live" using that by auto
      then have "disjoint_blocks b (p, n)" using t(4) assms(2) by (auto simp: pairwise_def)
      then show ?thesis using t(3) that last nt by (fastforce simp: disjoint_blocks_def)
    qed
    show ?thesis
      unfolding arena_inv_def using a' below t(1,3) pw
      by (intro exI [of _ "top - n"]) auto
  qed
qed

lemma arena_run_inv: "arena_run a live \<Longrightarrow> arena_inv a live"
proof (induction rule: arena_run.induct)
  case start
  show ?case by (auto simp: arena_inv_def arena_init_def intro!: exI [of _ 0])
qed (auto intro: arena_inv_alloc arena_inv_free)

section \<open>Mapping physical memory\<close>

definition virt_base :: u64 where "virt_base = 0xfff00000"

partial_function (option) map_loop :: "u64 \<Rightarrow> u64 \<Rightarrow> kernel \<Rightarrow> kernel option" where
  "map_loop x limit k =
     (if x < limit then do {
        k \<leftarrow> map_page (vaddr_of x) (x - virt_base) k;
        map_loop (x + 4096) limit k
      }
      else Some k)"

text \<open>The volatile read of the first byte faults (None) when the address has no translation.\<close>

definition AcpiOsMapMemory :: "u64 \<Rightarrow> u64 \<Rightarrow> kernel \<Rightarrow> (u64 \<times> kernel) option" where
  "AcpiOsMapMemory phys len k = (
     let start = virt_base + (phys AND NOT 4095); rv = virt_base + phys
     in do {
       k \<leftarrow> map_loop start (start + len) k;
       x86_walk k rv;
       Some (rv, k)
     })"

text \<open>\<open>AcpiOsUnmapMemory\<close> leaves the mapping in place.\<close>

definition AcpiOsUnmapMemory :: "u64 \<Rightarrow> u64 \<Rightarrow> kernel \<Rightarrow> kernel" where
  "AcpiOsUnmapMemory p sz k = k"

section \<open>Interrupt handlers\<close>

definition AcpiOsInstallInterruptHandler :: "u32 \<Rightarrow> u64 \<Rightarrow> u64 list \<Rightarrow> (acpi_status \<times> u64 list) option" where
  "AcpiOsInstallInterruptHandler n f fns =
     (if f = 0 then Some (AE_BAD_PARAMETER, fns)
      else do {
        r \<leftarrow> is_registered (unat n) fns;
        if r then Some (AE_ALREADY_EXISTS, fns)
        else do { fns \<leftarrow> register_fn (unat n) f fns; Some (AE_OK, fns) }
      })"

definition AcpiOsRemoveInterruptHandler :: "u32 \<Rightarrow> u64 \<Rightarrow> u64 list \<Rightarrow> (acpi_status \<times> u64 list) option" where
  "AcpiOsRemoveInterruptHandler n f fns =
     (if f = 0 then Some (AE_BAD_PARAMETER, fns)
      else do {
        r \<leftarrow> is_registered (unat n) fns;
        if \<not> r then Some (AE_NOT_EXIST, fns)
        else do { fns \<leftarrow> register_fn (unat n) 0 fns; Some (AE_OK, fns) }
      })"

section \<open>Ports, memory and PCI configuration\<close>

text \<open>What a port read of a width returns; what port writes are made.\<close>

definition AcpiOsReadPort :: "(nat \<Rightarrow> u16 \<Rightarrow> u32) \<Rightarrow> u64 \<Rightarrow> u32 \<Rightarrow> acpi_status \<times> u32 option" where
  "AcpiOsReadPort input a width =
     (if width = 8 then (AE_OK, Some (take_bit 8 (input 1 (ucast a))))
      else if width = 16 then (AE_OK, Some (take_bit 16 (input 2 (ucast a))))
      else if width = 32 then (AE_OK, Some (input 4 (ucast a)))
      else (AE_BAD_PARAMETER, None))"

definition AcpiOsWritePort :: "u64 \<Rightarrow> u32 \<Rightarrow> u32 \<Rightarrow> acpi_status \<times> (nat \<times> u16 \<times> u32) list" where
  "AcpiOsWritePort a v width =
     (if width = 8 then (AE_OK, [(1, ucast a, take_bit 8 v)])
      else if width = 16 then (AE_OK, [(2, ucast a, take_bit 16 v)])
      else if width = 32 then (AE_OK, [(4, ucast a, v)])
      else (AE_BAD_PARAMETER, []))"

fun peek_bytes :: "nat \<Rightarrow> mem \<Rightarrow> ptr \<Rightarrow> u8 list option" where
  "peek_bytes 0 m p = Some []"
| "peek_bytes (Suc n) m p = do { b \<leftarrow> m p; bs \<leftarrow> peek_bytes n m (Suc p); Some (b # bs) }"

fun poke_bytes :: "u8 list \<Rightarrow> mem \<Rightarrow> ptr \<Rightarrow> mem option" where
  "poke_bytes [] m p = Some m"
| "poke_bytes (b # bs) m p = do { m \<leftarrow> store m p b; poke_bytes bs m (Suc p) }"

definition AcpiOsReadMemory :: "mem \<Rightarrow> u64 \<Rightarrow> u32 \<Rightarrow> (acpi_status \<times> u64 option) option" where
  "AcpiOsReadMemory m a width =
     (if width \<in> {8, 16, 32, 64} then do {
        bs \<leftarrow> peek_bytes (unat width div 8) m (unat a);
        Some (AE_OK, Some (le_value bs))
      }
      else Some (AE_BAD_PARAMETER, None))"

definition AcpiOsWriteMemory :: "mem \<Rightarrow> u64 \<Rightarrow> u64 \<Rightarrow> u32 \<Rightarrow> (acpi_status \<times> mem) option" where
  "AcpiOsWriteMemory m a v width =
     (if width \<in> {8, 16, 32, 64} then do {
        m \<leftarrow> poke_bytes (le_bytes (unat width div 8) v) m (unat a);
        Some (AE_OK, m)
      }
      else Some (AE_BAD_PARAMETER, m))"

record acpi_pci_id =
  id_bus :: u16
  id_device :: u16
  id_function :: u16

text \<open>Bus, device, function and register are passed on as bytes.\<close>

definition AcpiOsReadPciConfiguration :: "acpi_pci_id \<Rightarrow> u32 \<Rightarrow> u32 \<Rightarrow> pci \<Rightarrow> acpi_status \<times> u64 option \<times> pci" where
  "AcpiOsReadPciConfiguration i rg width s = (
     let read = (\<lambda>rd. let (v, s) = rd (ucast (id_bus i)) (ucast (id_device i)) (ucast (id_function i)) (ucast rg) s
                      in (AE_OK, Some v, s))
     in if width = 64 then (AE_NOT_IMPLEMENTED, None, s)
        else if width = 32 then read read_pci_config
        else if width = 16 then read read_pci_config_word
        else if width = 8 then read read_pci_config_byte
        else (AE_BAD_PARAMETER, None, s))"

definition AcpiOsWritePciConfiguration :: "acpi_pci_id \<Rightarrow> u32 \<Rightarrow> u64 \<Rightarrow> u32 \<Rightarrow> pci \<Rightarrow> acpi_status \<times> pci" where
  "AcpiOsWritePciConfiguration i rg v width s = (
     let wr = (\<lambda>w. (AE_OK, w (ucast (id_bus i)) (ucast (id_device i)) (ucast (id_function i)) (ucast rg) v s))
     in if width = 64 then (AE_NOT_IMPLEMENTED, s)
        else if width = 32 then wr write_pci_config
        else if width = 16 then wr write_pci_config_word
        else if width = 8 then wr write_pci_config_byte
        else (AE_BAD_PARAMETER, s))"

section \<open>Start-up and power-off\<close>

text \<open>The entry points of ACPICA; \<open>ok\<close> says which of them succeed.\<close>

datatype acpi_call = InitializeTables | InitializeSubsystem | ReallocateRootTable | LoadTables
  | EnableSubsystem | InitializeObjects | InstallFixedEventHandler | EnableEvent
  | EnterSleepStatePrep | EnterSleepState | CliHlt

fun until_failure :: "(acpi_call \<Rightarrow> bool) \<Rightarrow> acpi_call list \<Rightarrow> acpi_call list" where
  "until_failure ok [] = []"
| "until_failure ok (c # cs) = c # (if ok c then until_failure ok cs else [])"

definition acpi_early_init :: "(acpi_call \<Rightarrow> bool) \<Rightarrow> acpi_call list" where
  "acpi_early_init ok = until_failure ok [InitializeTables, InitializeSubsystem, ReallocateRootTable, LoadTables]"

definition acpi_init :: "(acpi_call \<Rightarrow> bool) \<Rightarrow> acpi_call list" where
  "acpi_init ok =
     (if ok EnableSubsystem then [EnableSubsystem, InitializeObjects, InstallFixedEventHandler, EnableEvent]
      else [EnableSubsystem])"

definition acpi_poweroff :: "(acpi_call \<Rightarrow> bool) \<Rightarrow> acpi_call list" where
  "acpi_poweroff ok =
     [EnterSleepStatePrep] @ (if ok EnterSleepStatePrep then [] else [CliHlt]) @
     [EnterSleepState] @ (if ok EnterSleepState then [] else [CliHlt]) @ [CliHlt]"

section \<open>Lemmas\<close>

lemma page_parts: "(w AND NOT 4095) + (w AND 4095) = (w :: u64)" "take_bit 12 (w AND NOT 4095 :: u64) = 0"
  "unat (w AND 4095 :: u64) < 4096"
proof -
  have m: "(4095 :: u64) = mask 12" by (simp add: mask_eq_exp_minus_1)
  have "(w AND NOT (mask 12)) AND (w AND mask 12) = (0 :: u64)" by (auto intro!: bit_word_eqI simp: bit_simps)
  then have "(w AND NOT (mask 12)) + (w AND mask 12) = (w AND NOT (mask 12)) OR (w AND mask 12)"
    by (rule disjunctive_add_eq_or)
  also have "\<dots> = w" by (auto intro!: bit_word_eqI simp: bit_simps)
  finally show "(w AND NOT 4095) + (w AND 4095) = w" unfolding m .
  show "take_bit 12 (w AND NOT 4095 :: u64) = 0"
    unfolding m by (auto intro!: bit_word_eqI simp: bit_simps)
  have "w AND mask 12 \<le> mask 12" by (rule word_and_le1)
  then show "unat (w AND 4095 :: u64) < 4096" unfolding m by (simp add: word_le_nat_alt mask_eq_exp_minus_1)
qed

text \<open>An address in the page that starts at an aligned \<open>s\<close> below 2^47 has the page's table indexes.\<close>

lemma same_page:
  assumes "take_bit 12 (s :: u64) = 0" "unat off < 4096"
  shows "bf 12 9 (s + off) = bf 12 9 s" "bf 21 9 (s + off) = bf 21 9 s" "bf 30 9 (s + off) = bf 30 9 s"
    "bf 39 9 (s + off) = bf 39 9 s" "bf 0 12 (s + off) = off"
proof -
  have lo: "bit s n \<Longrightarrow> 12 \<le> n" for n using arg_cong [OF assms(1), of "\<lambda>x. bit x n"] by (auto simp: bit_take_bit_iff not_le)
  have hi: "bit off n \<Longrightarrow> n < 12" for n using small_bits [of off 12 n] assms(2) by simp
  have "\<not> (bit s n \<and> bit off n)" for n using lo [of n] hi [of n] by auto
  then have "s AND off = 0" by (intro bit_word_eqI) (simp add: bit_and_iff)
  then have e: "s + off = s OR off" by (rule disjunctive_add_eq_or)
  show "bf 12 9 (s + off) = bf 12 9 s" "bf 21 9 (s + off) = bf 21 9 s" "bf 30 9 (s + off) = bf 30 9 s"
    "bf 39 9 (s + off) = bf 39 9 s" "bf 0 12 (s + off) = off"
    unfolding e by (rule bit_word_eqI; auto simp: bit_bf bit_or_iff dest: lo hi)+
qed

lemma canonical_fields:
  "bf 12 9 (vaddr_of v) = bf 12 9 v" "bf 21 9 (vaddr_of v) = bf 21 9 v" "bf 30 9 (vaddr_of v) = bf 30 9 v"
  "bf 39 9 (vaddr_of v) = bf 39 9 v"
  by (simp_all add: vaddr_of_def cannoncialize_def bf_simps)

lemma map_page_whole_page:
  assumes "table_wf lvl lo k" "lo + 4 \<le> alloc_frame k" "map_page (vaddr_of s) phys k = Some k'"
    and "take_bit 12 s = 0" "unat off < 4096" "take_bit 12 phys = 0" "unat phys < 2 ^ 52"
  shows "x86_walk k' (s + off) = Some (phys + off)"
  by (rule map_page_path [OF assms(1-3)])
    (use same_page [OF assms(4,5)] frame_of_aligned [OF assms(6,7)] canonical_fields [of s] in
      \<open>simp add: x86_walk_def va_PML4_def va_directoryPtr_def va_directory_def va_table_def\<close>)

lemma map_loop_one:
  assumes "0 < unat len" "unat len \<le> 4096" "unat x + 8192 < 2 ^ 64"
  shows "map_loop x (x + len) k = map_page (vaddr_of x) (x - virt_base) k"
proof -
  have u: "unat (x + len) = unat x + unat len" "unat (x + 4096) = unat x + 4096"
    using assms by (subst unat_add_lem [THEN iffD1]; simp)+
  have "x < x + len" "\<not> x + 4096 < x + len" using u assms by (simp_all add: word_less_nat_alt)
  moreover have "map_loop (x + 4096) (x + len) k' = Some k'" if "\<not> x + 4096 < x + len" for k'
    using that by (subst map_loop.simps) simp
  ultimately show ?thesis
    by (cases "map_page (vaddr_of x) (x - virt_base) k"; subst map_loop.simps) simp_all
qed

lemma poke_bytes_some: "mapped m p (length bs) \<Longrightarrow> poke_bytes bs m p = Some (write_bytes m p bs)"
proof (induction bs arbitrary: m p)
  case (Cons b bs)
  then obtain x where "m p = Some x" by (auto simp: mapped_Suc)
  moreover have "mapped (m(p \<mapsto> b)) (Suc p) (length bs)" using Cons.prems by (auto simp: mapped_Suc intro: mapped_upd)
  ultimately show ?case using Cons.IH by (simp add: store_def)
qed simp

lemma peek_bytes_at: "bytes_at m p bs \<Longrightarrow> peek_bytes (length bs) m p = Some bs"
  by (induction bs arbitrary: p) auto

section \<open>Properties\<close>

text \<open>
  C10. As long as ACPICA asks for nonempty blocks and frees each once, the blocks it holds are
  disjoint and lie inside the 179200 bytes of the arena, in every run of allocations and releases in any order.
\<close>

theorem acpi_blocks_disjoint:
  assumes "arena_run a live"
  shows "pairwise disjoint_blocks (set live) \<and> (\<forall>(p, n) \<in> set live. 0 \<le> p \<and> p + int n \<le> 179200)"
  using arena_run_inv [OF assms] unfolding arena_inv_def by (fastforce split: prod.splits)

text \<open>Two blocks, of which the older one is freed.\<close>

theorem acpi_blocks_disjoint_witness:
  "\<exists>a. arena_run a [(100, 20)] \<and> pairwise disjoint_blocks (set [(100 :: int, 20 :: nat)])"
proof -
  define a1 where "a1 = \<lparr>acpi_allocated = 100, acpi_last_pointer = Some 0, acpi_last_pointer_size = 100\<rparr>"
  define a2 where "a2 = \<lparr>acpi_allocated = 120, acpi_last_pointer = Some 100, acpi_last_pointer_size = 20\<rparr>"
  have "AcpiOsAllocate 100 arena_init = Some (0, a1)"
    by (simp add: AcpiOsAllocate_def arena_init_def arena_size_def a1_def)
  from arena_run.alloc [OF arena_run.start _ _ this] have "arena_run a1 [(0, 100)]" by simp
  moreover have "AcpiOsAllocate 20 a1 = Some (100, a2)"
    by (simp add: AcpiOsAllocate_def a1_def a2_def arena_size_def)
  ultimately have "arena_run a2 [(100, 20), (0, 100)]" using arena_run.alloc [of a1 "[(0, 100)]" 20 100 a2] by simp
  from arena_run.free [OF this, of 0 100] have r: "arena_run (AcpiOsFree (Some 0) a2) [(100, 20)]" by simp
  then show ?thesis using acpi_blocks_disjoint [OF r] by blast
qed

text \<open>
  Outside that discipline blocks overlap: after the newest block is freed twice, or after a
  request so large that the 64-bit sum wraps (which succeeds), the next block lies inside the first
  one, which is still in use.
\<close>

theorem acpi_allocator_overlaps:
  assumes "0 < d" and "d \<le> n" and "n + d \<le> 179200"
  shows "\<exists>a1 a2 a3 b2 b3. AcpiOsAllocate (of_nat n) arena_init = Some (0, a1) \<and>
    AcpiOsAllocate (of_nat d) a1 = Some (int n, a2) \<and>
    AcpiOsAllocate (of_nat d) (AcpiOsFree (Some (int n)) (AcpiOsFree (Some (int n)) a2)) = Some (int (n - d), a3) \<and>
    AcpiOsAllocate (- of_nat d) a1 = Some (int n, b2) \<and> AcpiOsAllocate (of_nat d) b2 = Some (int (n - d), b3)"
proof -
  have n: "n \<le> 179200" "n - d \<le> 179200" "n + d \<le> 179200" using assms by simp_all
  have dn: "(of_nat n - of_nat d :: u64) = of_nat (n - d)" "(of_nat n - of_nat d :: u32) = of_nat (n - d)"
    using assms by (simp_all add: of_nat_diff)
  have big: "\<not> arena_size < of_nat k" if "k \<le> 179200" for k
    using that by (simp add: arena_size_def word_less_nat_alt unat_of_nat_u64)
  have uc: "(ucast (of_nat k :: u64) :: u32) = of_nat k" if "k \<le> 179200" for k
    using that by (intro ucast_small unat_of_nat_u64) simp
  have alloc: "AcpiOsAllocate (of_nat k) \<lparr>acpi_allocated = of_nat t, acpi_last_pointer = l, acpi_last_pointer_size = z\<rparr> =
      Some (int t, \<lparr>acpi_allocated = of_nat (t + k), acpi_last_pointer = Some (int t), acpi_last_pointer_size = of_nat k\<rparr>)"
    if "t + k \<le> 179200" for t k l z
    using that big [of "t + k"] uc [of "t + k"] by (simp add: AcpiOsAllocate_def Let_def scast_small sint_small)
  define a1 where "a1 = \<lparr>acpi_allocated = of_nat n, acpi_last_pointer = Some 0, acpi_last_pointer_size = of_nat n\<rparr>"
  define a2 where "a2 = \<lparr>acpi_allocated = of_nat (n + d), acpi_last_pointer = Some (int n), acpi_last_pointer_size = of_nat d\<rparr>"
  define f2 where "f2 = \<lparr>acpi_allocated = of_nat (n - d), acpi_last_pointer = Some (int n), acpi_last_pointer_size = of_nat d\<rparr>"
  define b2 where "b2 = \<lparr>acpi_allocated = of_nat (n - d), acpi_last_pointer = Some (int n), acpi_last_pointer_size = - of_nat d\<rparr>"
  have 1: "AcpiOsAllocate (of_nat n) arena_init = Some (0, a1)"
    using alloc [of 0 n None 0] assms by (simp add: arena_init_def a1_def)
  have 2: "AcpiOsAllocate (of_nat d) a1 = Some (int n, a2)"
    unfolding a1_def a2_def by (rule alloc) (use assms in simp)
  have free: "AcpiOsFree l \<lparr>acpi_allocated = of_nat t, acpi_last_pointer = l, acpi_last_pointer_size = of_nat z\<rparr> =
      \<lparr>acpi_allocated = of_nat (t - z), acpi_last_pointer = l, acpi_last_pointer_size = of_nat z\<rparr>"
    if "z \<le> t" "t \<le> 179200" for t z l
  proof -
    have "(of_nat t - of_nat z :: u64) = of_nat (t - z)" using that(1) by (rule of_nat_diff [symmetric])
    moreover have "(ucast (of_nat (t - z) :: u64) :: u32) = of_nat (t - z)" using that(2) by (intro uc) simp
    ultimately show ?thesis
      unfolding AcpiOsFree_def arena.simps scast_small [OF that(2)] by (simp only: if_True refl)
  qed
  have "AcpiOsFree (Some (int n)) a2 = a2\<lparr>acpi_allocated := of_nat n\<rparr>"
    unfolding a2_def arena.simps by (subst free) (use assms in simp_all)
  moreover have "AcpiOsFree (Some (int n)) (a2\<lparr>acpi_allocated := of_nat n\<rparr>) = f2"
    unfolding a2_def f2_def arena.simps by (rule free) (use assms in simp_all)
  ultimately have f: "AcpiOsFree (Some (int n)) (AcpiOsFree (Some (int n)) a2) = f2" by simp
  have 3: "AcpiOsAllocate (of_nat d) f2 = Some (int (n - d), a2\<lparr>acpi_allocated := of_nat n, acpi_last_pointer := Some (int (n - d))\<rparr>)"
    unfolding f2_def a2_def arena.simps using alloc [of "n - d" d] assms by simp
  have s: "(scast (of_nat n :: u32) + - of_nat d :: u64) = of_nat (n - d)"
    unfolding scast_small [OF n(1)] using dn(1) by simp
  have 4: "AcpiOsAllocate (- of_nat d) a1 = Some (int n, b2)"
    unfolding AcpiOsAllocate_def a1_def arena.simps s Let_def b2_def uc [OF n(2)] sint_small [OF n(1)]
    using big [OF n(2)] by (simp only: if_False)
  have 5: "\<exists>b3. AcpiOsAllocate (of_nat d) b2 = Some (int (n - d), b3)"
    using alloc [of "n - d" d] assms by (simp add: b2_def)
  show ?thesis using 1 2 3 f 4 5 by auto
qed

theorem acpi_allocator_overlaps_witness:
  "\<exists>a1 b2 b3. AcpiOsAllocate 100 arena_init = Some (0, a1) \<and> AcpiOsAllocate (- 8) a1 = Some (100, b2) \<and>
    AcpiOsAllocate 8 b2 = Some (92, b3)"
  using acpi_allocator_overlaps [of 8 100] by auto

lemma unat_and_3: "unat (x AND 3 :: u8) = unat x mod 4"
proof -
  have "x AND 3 = take_bit 2 x" by (simp add: take_bit_eq_mask mask_eq_exp_minus_1)
  then show ?thesis by (simp only: unsigned_take_bit_eq) (simp add: take_bit_eq_mod)
qed

lemma unat_and_2: "even (unat x) \<Longrightarrow> unat (x AND 2 :: u8) = unat x mod 4"
proof -
  assume "even (unat x)"
  then have "\<not> bit (unat x) 0" by (simp add: bit_0)
  then have "\<not> bit x 0" by (simp only: bit_unsigned_iff) simp
  then have "even x" by (simp add: bit_0)
  then have "x AND 1 = 0" by (simp only: and_one_eq even_iff_mod_2_eq_zero)
  moreover have "(3 :: u8) = 2 OR 1" by simp
  ultimately have "x AND 2 = x AND 3" by (simp only: bit.conj_disj_distrib or.right_neutral)
  then show ?thesis by (simp only: unat_and_3)
qed

lemma phys_page:
  assumes "unat w < 2 ^ 46"
  shows "take_bit 12 (virt_base + (w AND NOT 4095)) = 0" "unat (virt_base + (w AND NOT 4095)) < 2 ^ 47"
    "unat (w AND NOT 4095) < 2 ^ 52"
proof -
  have le: "unat (w AND NOT 4095) \<le> unat w" by (metis word_and_le2 word_le_nat_alt)
  then show "unat (w AND NOT 4095) < 2 ^ 52" using assms by simp
  have u: "unat (virt_base + (w AND NOT 4095)) = unat virt_base + unat (w AND NOT 4095)"
    using le assms by (subst unat_add_lem [THEN iffD1]) (simp_all add: virt_base_def)
  then show "unat (virt_base + (w AND NOT 4095)) < 2 ^ 47" using le assms by (simp add: virt_base_def)
  have z: "take_bit 12 x = 0 \<longleftrightarrow> unat x mod 4096 = 0" for x :: u64
    by (simp only: word_unat_eq_iff unsigned_take_bit_eq) (simp add: take_bit_eq_mod)
  have "unat (w AND NOT 4095) mod 4096 = 0" using page_parts(2) [of w] by (simp only: z)
  then show "take_bit 12 (virt_base + (w AND NOT 4095)) = 0" unfolding z u by (simp add: virt_base_def mod_add_eq [symmetric])
qed

text \<open>
  Mapping up to a page of physical memory, at any offset, maps one page: the memory from the
  address asked for to the end of its page is then read through the returned pointer. (A request
  that crosses into the next page gets nothing mapped for the rest.)
\<close>

theorem acpi_map_memory_page:
  assumes "table_wf lvl lo k" and "lo + 4 \<le> alloc_frame k" and "unat w < 2 ^ 46"
    and "0 < unat len" and "unat len \<le> 4096" and "AcpiOsMapMemory w len k = Some (p, k')"
    and "unat (w AND 4095) + i < 4096"
  shows "map_page (vaddr_of (virt_base + (w AND NOT 4095))) (w AND NOT 4095) k = Some k' \<and>
    p = virt_base + w \<and> x86_walk k' (p + of_nat i) = Some (w + of_nat i)"
proof -
  let ?s = "virt_base + (w AND NOT 4095)"
  note pg = phys_page [OF assms(3)]
  have one: "map_loop ?s (?s + len) k = map_page (vaddr_of ?s) (?s - virt_base) k"
    by (rule map_loop_one) (use assms(4,5) pg(2) in simp_all)
  then have m: "map_page (vaddr_of ?s) (w AND NOT 4095) k = Some k'" and p: "p = virt_base + w"
    using assms(6) by (auto simp: AcpiOsMapMemory_def Let_def bind_eq_Some_conv)
  have off: "unat ((w AND 4095) + of_nat i) < 4096"
    using assms(7) by (subst unat_add_lem [THEN iffD1]) (simp_all add: unat_of_nat_u64)
  have "x86_walk k' (?s + ((w AND 4095) + of_nat i)) = Some ((w AND NOT 4095) + ((w AND 4095) + of_nat i))"
    by (rule map_page_whole_page [OF assms(1,2) m pg(1) off page_parts(2) pg(3)])
  moreover have "?s + ((w AND 4095) + of_nat i) = p + of_nat i"
    unfolding p by (simp only: add.assoc [symmetric]) (simp only: add.assoc [of virt_base] page_parts(1))
  moreover have "(w AND NOT 4095) + ((w AND 4095) + of_nat i) = w + of_nat i"
    by (simp only: add.assoc [symmetric] page_parts(1))
  ultimately show ?thesis using m p by (simp only: simp_thms)
qed

theorem acpi_map_memory_page_witness:
  "\<exists>k'. AcpiOsMapMemory 0x7fe0010 36 boot_kernel = Some (0x107ee0010, k') \<and>
    x86_walk k' (0x107ee0010 + of_nat 35) = Some (0x7fe0010 + of_nat 35)"
proof -
  have w: "unat (0x7fe0010 :: u64) < 2 ^ 46" by simp
  have s: "virt_base + (0x7fe0010 AND NOT 4095) = 0x107ee0000" "virt_base + 0x7fe0010 = 0x107ee0010"
    "(0x7fe0010 AND NOT 4095 :: u64) = 0x7fe0000" by (simp_all add: virt_base_def)
  obtain k' where k': "map_page (vaddr_of 0x107ee0000) 0x7fe0000 boot_kernel = Some k'" using boot_maps by blast
  have "map_loop 0x107ee0000 (0x107ee0000 + 36) boot_kernel = Some k'"
    using map_loop_one [of 36 "0x107ee0000" boot_kernel] k' by (simp add: virt_base_def)
  moreover have "virt_base + 0x7fe0000 = 0x107ee0000" by (simp add: virt_base_def)
  moreover have "x86_walk k' (0x107ee0000 + 0x10) = Some (0x7fe0000 + 0x10)"
    by (rule map_page_whole_page [OF boot_wf(1) boot_room k']) simp_all
  ultimately have a: "AcpiOsMapMemory 0x7fe0010 36 boot_kernel = Some (0x107ee0010, k')"
    unfolding AcpiOsMapMemory_def Let_def s by (simp only: bind.bind_lunit) simp
  have "unat ((0x7fe0010 :: u64) AND 4095) + 35 < 4096" by simp
  from acpi_map_memory_page [OF boot_wf(1) boot_room w _ _ a this] a show ?thesis by auto
qed

text \<open>
  An interrupt handler is called from its installation to its removal and a second one is
  refused meanwhile; no other vector is affected. Removal does not compare the routine: naming any
  other one removes the handler as well.
\<close>

theorem interrupt_handler_lifecycle:
  assumes "length fns = 256" and "unat n < 256" and "f \<noteq> 0" and "g \<noteq> 0" and "fns ! unat n = 0"
  shows "\<exists>fns'. AcpiOsInstallInterruptHandler n f fns = Some (AE_OK, fns') \<and> interrupt (unat n) fns' = Some [f] \<and>
    interrupt m fns' = (if m = unat n then Some [f] else interrupt m fns) \<and>
    AcpiOsInstallInterruptHandler n g fns' = Some (AE_ALREADY_EXISTS, fns') \<and>
    AcpiOsRemoveInterruptHandler n g fns' = Some (AE_OK, fns) \<and> interrupt (unat n) fns = Some []"
  using assms by (auto simp: AcpiOsInstallInterruptHandler_def AcpiOsRemoveInterruptHandler_def
    is_registered_def register_fn_def interrupt_def list_update_same_conv)

theorem interrupt_handler_lifecycle_witness:
  "\<exists>fns'. AcpiOsInstallInterruptHandler 9 0x401000 (replicate 256 0) = Some (AE_OK, fns') \<and>
    interrupt 9 fns' = Some [0x401000]"
proof -
  have l: "length (replicate 256 (0 :: u64)) = 256" by (rule length_replicate)
  have n: "unat (9 :: u32) < 256" "replicate 256 (0 :: u64) ! unat (9 :: u32) = 0" by simp_all
  have nine: "unat (9 :: u32) = 9" by simp
  show ?thesis
    using interrupt_handler_lifecycle [OF l n(1) _ _ n(2), of "0x401000" 1 0] unfolding nine
    by auto
qed

text \<open>
  A PCI configuration access through ACPICA's interface, of 1, 2 or 4 bytes at a register that
  is a multiple of its width: a write changes exactly the bytes of that register of that function
  and of no other, and a read of the same register then gives the value.
\<close>

theorem acpi_pci_write_exact:
  assumes "(n, width) \<in> {(1, 8), (2, 16), (4, 32 :: u32)}" and "unat rg < 256" and "unat rg mod n = 0"
    and "i = \<lparr>id_bus = ucast bus, id_device = ucast slot, id_function = ucast func\<rparr>"
    and "unat slot < 32" and "unat func < 8" and "unat slot' < 32" and "unat func' < 8" and "x < 256"
  shows "let s' = snd (AcpiOsWritePciConfiguration i rg v width s)
    in fst (snd (AcpiOsReadPciConfiguration i rg width s')) = Some (take_bit (8 * n) v) \<and>
      config_bytes s' (reg_byte bus' slot' func' x) =
        (if bus' = bus \<and> slot' = slot \<and> func' = func \<and> unat rg \<le> x \<and> x < unat rg + n
         then le_bytes n v ! (x - unat rg) else config_bytes s (reg_byte bus' slot' func' x))"
proof -
  have uu: "ucast (ucast y :: u16) = (y :: u8)" for y by (rule bit_word_eqI) (auto simp: bit_simps)
  let ?o = "ucast rg :: u8"
  have o: "unat ?o = unat rg" using assms(2) by (simp add: unsigned_ucast_eq take_bit_nat_eq_self)
  define k where "k = (if n = 1 then unat (?o AND 3) else if n = 2 then unat (?o AND 2) else 0)"
  have kn: "k + n \<le> 4" "4 * (unat rg div 4) + k = unat rg"
  proof -
    have three: "unat (?o AND 3) = unat rg mod 4" using unat_and_3 [of ?o] by (simp only: o)
    have two: "unat (?o AND 2) = unat rg mod 4" if "even (unat rg)" using unat_and_2 [of ?o] that by (simp only: o)
    have dm: "4 * (unat rg div 4) + unat rg mod 4 = unat rg" by simp
    consider "n = 1" | "n = 2" | "n = 4" using assms(1) by auto
    then have "k + n \<le> 4 \<and> 4 * (unat rg div 4) + k = unat rg"
    proof cases
      case 1
      then have "k = unat rg mod 4" using three by (simp add: k_def)
      then show ?thesis using dm 1 mod_less_divisor [of 4 "unat rg"] by linarith
    next
      case 2
      then have e: "even (unat rg)" using assms(3) by (simp add: even_iff_mod_2_eq_zero)
      then have "k = unat rg mod 4" using two 2 by (simp add: k_def)
      moreover have "unat rg mod 4 \<le> 2" using e by presburger
      ultimately show ?thesis using dm 2 by linarith
    next
      case 3
      then show ?thesis using assms(3) dm by (simp add: k_def)
    qed
    then show "k + n \<le> 4" "4 * (unat rg div 4) + k = unat rg" by blast+
  qed
  let ?p = "prepare_pci_config_access bus slot func ?o"
  have w: "snd (AcpiOsWritePciConfiguration i rg v width s) = config_out n v k (?p s)"
    using assms(1) by (auto simp: AcpiOsWritePciConfiguration_def assms(4) uu k_def write_pci_config_def
      write_pci_config_word_def write_pci_config_byte_def)
  have r: "fst (snd (AcpiOsReadPciConfiguration i rg width t)) = Some (config_in n k (?p t))" for t
    using assms(1) by (auto simp: AcpiOsReadPciConfiguration_def assms(4) uu k_def read_pci_config_def
      read_pci_config_word_def read_pci_config_byte_def Let_def)
  let ?t = "config_out n v k (?p s)"
  have bytes: "config_bytes ?t (reg_byte b sl fu y) =
      (if b = bus \<and> sl = slot \<and> fu = func \<and> unat rg \<le> y \<and> y < unat rg + n
       then le_bytes n v ! (y - unat rg) else config_bytes s (reg_byte b sl fu y))"
    if "unat sl < 32" "unat fu < 8" "y < 256" for b sl fu y
    using config_out_bytes [OF assms(5,6) that kn(1), of v bus ?o s b] by (simp only: o kn(2) Let_def)
  have "unat rg + n \<le> 256" using assms(1-3) by auto
  then have "map (\<lambda>j. config_bytes ?t (reg_byte bus slot func (unat rg + j))) [0..<n] = map (\<lambda>j. le_bytes n v ! j) [0..<n]"
    using bytes assms(5,6) by (intro map_cong) auto
  also have "\<dots> = le_bytes n v" using map_nth [of "le_bytes n v"] by simp
  finally have "config_in n k (?p ?t) = take_bit (8 * n) v"
    using config_in_bytes [OF assms(5,6) kn(1), of bus ?o ?t] by (simp only: o kn(2) le_value_bytes)
  then show ?thesis using w r bytes assms(7-9) by (simp add: Let_def)
qed

theorem acpi_pci_write_exact_witness:
  "fst (snd (AcpiOsReadPciConfiguration \<lparr>id_bus = 0, id_device = 3, id_function = 1\<rparr> 0x3e 16
     (snd (AcpiOsWritePciConfiguration \<lparr>id_bus = 0, id_device = 3, id_function = 1\<rparr> 0x3e 0x12345 16
       \<lparr>config_address = 0, config_bytes = (\<lambda>_. 0)\<rparr>)))) = Some 0x2345"
proof -
  have h: "(2, 16) \<in> {(1, 8), (2, 16), (4, 32 :: u32)}" "unat (0x3e :: u32) < 256" "unat (0x3e :: u32) mod 2 = 0"
    "\<lparr>id_bus = 0, id_device = 3, id_function = 1\<rparr> = \<lparr>id_bus = ucast (0 :: u8), id_device = ucast (3 :: u8), id_function = ucast (1 :: u8)\<rparr>"
    "unat (3 :: u8) < 32" "unat (1 :: u8) < 8" "(0 :: nat) < 256" by simp_all
  show ?thesis
    using acpi_pci_write_exact [OF h(1-6) h(5,6) h(7), of "0x12345" "\<lparr>config_address = 0, config_bytes = (\<lambda>_. 0)\<rparr>" 0]
    unfolding Let_def by (elim conjE) simp
qed

text \<open>
  Memory written through ACPICA's interface reads back: at every width the write changes exactly
  the bytes of the value, low byte first, and the read returns it cut to the width.
\<close>

theorem acpi_memory_roundtrip:
  assumes "width \<in> {8, 16, 32, 64}" and "mapped m (unat a) (unat width div 8)"
  shows "\<exists>m'. AcpiOsWriteMemory m a v width = Some (AE_OK, m') \<and>
    m' = write_bytes m (unat a) (le_bytes (unat width div 8) v) \<and>
    AcpiOsReadMemory m' a width = Some (AE_OK, Some (take_bit (unat width) v))"
proof -
  let ?bs = "le_bytes (unat width div 8) v"
  have w: "8 * (unat width div 8) = unat width" using assms(1) by auto
  have "poke_bytes ?bs m (unat a) = Some (write_bytes m (unat a) ?bs)"
    by (rule poke_bytes_some) (simp add: assms(2))
  moreover have "peek_bytes (length ?bs) (write_bytes m (unat a) ?bs) (unat a) = Some ?bs"
    by (rule peek_bytes_at [OF write_bytes_bytes])
  ultimately show ?thesis
    using assms(1) by (simp add: AcpiOsWriteMemory_def AcpiOsReadMemory_def le_value_bytes w)
qed

theorem acpi_memory_roundtrip_witness:
  "\<exists>m'. AcpiOsWriteMemory (mem_of 100 [1, 2, 3, 4]) 100 0xbeef 16 = Some (AE_OK, m') \<and>
    AcpiOsReadMemory m' 100 16 = Some (AE_OK, Some 0xbeef)"
proof -
  have "length [1, 2, 3, 4 :: u8] = 4" by simp
  then have "mapped (mem_of 100 [1, 2, 3, 4]) 100 4"
    using bytes_at_mapped [OF mem_of_bytes, of 100 "[1, 2, 3, 4]"] by (simp only:)
  then have "mapped (mem_of 100 [1, 2, 3, 4]) 100 2" by (rule mapped_le) simp
  moreover have "unat (100 :: u64) = 100" "unat (16 :: u32) div 8 = 2" by simp_all
  ultimately have "mapped (mem_of 100 [1, 2, 3, 4]) (unat (100 :: u64)) (unat (16 :: u32) div 8)" by (simp only:)
  from acpi_memory_roundtrip [OF _ this, of "0xbeef"] show ?thesis by auto
qed

end
