(* ===== verification/Serial.thy ===== *)
theory Serial
  imports PdcStdio
begin

text \<open>
  The serial console (console.cc, stdio.cc): the driver of the 16550 UART at port 0x3f8 and the
  calls \<open>write\<close> and \<open>read\<close> over it. The last section shows that the file operations of the C
  library, made of this driver, are the console of the theory PdcStdio.
\<close>

section \<open>The UART\<close>

text \<open>
  The device, with its FIFOs off as \<open>early_init\<close> leaves it, so that each direction holds one byte.
  \<open>thr\<close> is the transmitter holding register: a byte written there goes to the line at some later
  moment, and one written while another is still there overwrites it. \<open>rx_full\<close> says that a received
  byte waits to be read; the data port yields it once, and the byte \<open>stale\<close> when none is there. What
  happens between two reads of the line status is up to the device: \<open>tx_ready k\<close> says that it passes
  the held byte on before status read \<open>k\<close>, \<open>key_ready k\<close> that the next key (of the sequence \<open>rx\<close>)
  arrives before it if there is room, and \<open>other k\<close> gives the bits of the status that tell nothing
  about readiness. While bit 7 of the line control register is set, ports 0 and 1 are the divisor
  latch.
\<close>

record uart =
  tx_ready :: "nat \<Rightarrow> bool"
  key_ready :: "nat \<Rightarrow> bool"
  other :: "nat \<Rightarrow> u8"
  rx :: "nat \<Rightarrow> u8"
  stale :: u8
  lsr_reads :: nat
  rx_reads :: nat
  rx_full :: bool
  thr :: "u8 option"
  tx :: "u8 list"
  dll :: u8
  dlm :: u8
  ier :: u8
  fcr :: u8
  lcr :: u8
  mcr :: u8

definition ioport :: u16 where "ioport = 0x3f8"
definition IER :: u16 where "IER = 1"
definition FCR :: u16 where "FCR = 2"
definition LCR :: u16 where "LCR = 3"
definition MCR :: u16 where "MCR = 4"
definition LSR :: u16 where "LSR = 5"
definition DLL :: u16 where "DLL = 0"
definition DLM :: u16 where "DLM = 1"
definition DLAB :: u8 where "DLAB = 0x80"
definition LEN_8BIT :: u8 where "LEN_8BIT = 3"
definition RECEIVE_DATA_READY :: u8 where "RECEIVE_DATA_READY = 1"
definition OVERRUN :: u8 where "OVERRUN = 2"
definition PARITY_ERROR :: u8 where "PARITY_ERROR = 4"
definition FRAME_ERROR :: u8 where "FRAME_ERROR = 8"
definition TRANSMIT_HOLD_EMPTY :: u8 where "TRANSMIT_HOLD_EMPTY = 0x20"
definition AUX_OUTPUT_2 :: u8 where "AUX_OUTPUT_2 = 8"

lemmas uart_defs = ioport_def IER_def FCR_def LCR_def MCR_def LSR_def DLL_def DLM_def DLAB_def LEN_8BIT_def
  RECEIVE_DATA_READY_def OVERRUN_def PARITY_ERROR_def FRAME_ERROR_def TRANSMIT_HOLD_EMPTY_def AUX_OUTPUT_2_def

definition dlab :: "uart \<Rightarrow> bool" where
  "dlab u \<longleftrightarrow> bit (lcr u) 7"

definition outb :: "u8 \<Rightarrow> u16 \<Rightarrow> uart \<Rightarrow> uart" where
  "outb v port u =
     (if port = ioport then (if dlab u then u\<lparr>dll := v\<rparr> else u\<lparr>thr := Some v\<rparr>)
      else if port = ioport + IER then (if dlab u then u\<lparr>dlm := v\<rparr> else u\<lparr>ier := v\<rparr>)
      else if port = ioport + FCR then u\<lparr>fcr := v\<rparr>
      else if port = ioport + LCR then u\<lparr>lcr := v\<rparr>
      else if port = ioport + MCR then u\<lparr>mcr := v\<rparr>
      else u)"

text \<open>What the device does before a status read, and the status it then shows.\<close>

definition tick :: "uart \<Rightarrow> uart" where
  "tick u = (
     let u = (case thr u of
                Some b \<Rightarrow> if tx_ready u (lsr_reads u) then u\<lparr>tx := tx u @ [b], thr := None\<rparr> else u
              | None \<Rightarrow> u)
     in if key_ready u (lsr_reads u) then u\<lparr>rx_full := True\<rparr> else u)"

definition status :: "uart \<Rightarrow> u8" where
  "status u =
     (if rx_full u then RECEIVE_DATA_READY OR (other u (lsr_reads u) AND 0x1c) else 0) OR
     (if thr u = None then TRANSMIT_HOLD_EMPTY else 0) OR (other u (lsr_reads u) AND 0xc0)"

definition inb_lsr :: "uart \<Rightarrow> u8 \<times> uart" where
  "inb_lsr u = (let u = tick u in (status u, u\<lparr>lsr_reads := lsr_reads u + 1\<rparr>))"

definition inb_data :: "uart \<Rightarrow> u8 \<times> uart" where
  "inb_data u =
     (if dlab u then (dll u, u)
      else if rx_full u then (rx u (rx_reads u), u\<lparr>rx_full := False, rx_reads := rx_reads u + 1\<rparr>)
      else (stale u, u))"

section \<open>The driver\<close>

definition isa_serial_console_early_init :: "uart \<Rightarrow> uart" where
  "isa_serial_console_early_init u = (
     let u = outb (LEN_8BIT OR DLAB) (ioport + LCR) u;
         u = outb 1 (ioport + DLL) u;
         u = outb 0 (ioport + DLM) u;
         u = outb LEN_8BIT (ioport + LCR) u;
         u = outb 0 (ioport + FCR) u;
         u = outb 0 (ioport + IER) u
     in outb AUX_OUTPUT_2 (ioport + MCR) u)"

text \<open>The two loops that wait for a bit of the line status register; they may wait for ever (None).\<close>

partial_function (option) wait_status :: "u8 \<Rightarrow> uart \<Rightarrow> uart option" where
  "wait_status m u = (let (v, u) = inb_lsr u in if v AND m \<noteq> 0 then Some u else wait_status m u)"

definition isa_serial_console_putchar :: "u8 \<Rightarrow> uart \<Rightarrow> uart option" where
  "isa_serial_console_putchar ch u = do {
     u \<leftarrow> wait_status TRANSMIT_HOLD_EMPTY u;
     Some (outb ch ioport u)
   }"

definition isa_serial_console_readch :: "uart \<Rightarrow> (u8 \<times> uart) option" where
  "isa_serial_console_readch u = do {
     u \<leftarrow> wait_status (RECEIVE_DATA_READY OR OVERRUN OR PARITY_ERROR OR FRAME_ERROR) u;
     Some (inb_data u)
   }"

fun put_all :: "u8 list \<Rightarrow> uart \<Rightarrow> uart option" where
  "put_all [] u = Some u"
| "put_all (b # bs) u = do { u \<leftarrow> isa_serial_console_putchar b u; put_all bs u }"

fun read_all :: "nat \<Rightarrow> uart \<Rightarrow> (u8 list \<times> uart) option" where
  "read_all 0 u = Some ([], u)"
| "read_all (Suc n) u = do {
     (b, u) \<leftarrow> isa_serial_console_readch u;
     (bs, u) \<leftarrow> read_all n u;
     Some (b # bs, u)
   }"

text \<open>\<open>debug_early\<close> on the characters before the terminator.\<close>

fun debug_early :: "u8 list \<Rightarrow> uart \<Rightarrow> uart option" where
  "debug_early [] u = Some u"
| "debug_early (c # cs) u = do {
     u \<leftarrow> (if c = 10 then isa_serial_console_putchar 13 u else Some u);
     u \<leftarrow> isa_serial_console_putchar c u;
     debug_early cs u
   }"

text \<open>\<open>write\<close> and \<open>read\<close> of stdio.cc; every descriptor is the console.\<close>

definition posix_write :: "u8 list \<Rightarrow> uart \<Rightarrow> (nat \<times> uart) option" where
  "posix_write buf u = do { u \<leftarrow> put_all buf u; Some (length buf, u) }"

definition posix_read :: "nat \<Rightarrow> uart \<Rightarrow> (nat \<times> u8 list \<times> uart) option" where
  "posix_read count u = do { (bs, u) \<leftarrow> read_all count u; Some (count, bs, u) }"

section \<open>Waiting\<close>

text \<open>Something happens again and again.\<close>

definition again :: "(nat \<Rightarrow> bool) \<Rightarrow> bool" where
  "again r \<longleftrightarrow> (\<forall>n. \<exists>k \<ge> n. r k)"

text \<open>The bytes given to the device: those on the line, and the one it still holds.\<close>

definition given :: "uart \<Rightarrow> u8 list" where
  "given u = tx u @ (case thr u of None \<Rightarrow> [] | Some b \<Rightarrow> [b])"

text \<open>Time passes: nothing is lost or read, and no control register changes.\<close>

definition waits :: "uart \<Rightarrow> uart \<Rightarrow> bool" where
  "waits u v \<longleftrightarrow> given v = given u \<and>
     v = u\<lparr>lsr_reads := lsr_reads v, rx_full := rx_full v, thr := thr v, tx := tx v\<rparr>"

lemma waits_refl: "waits u u"
  by (simp add: waits_def)

lemma waits_trans: "waits u v \<Longrightarrow> waits v w \<Longrightarrow> waits u w"
  unfolding waits_def by (cases u, cases v, cases w) simp

lemma waits_same:
  assumes "waits u v"
  shows "given v = given u" "tx_ready v = tx_ready u" "key_ready v = key_ready u" "rx v = rx u"
    "rx_reads v = rx_reads u" "dll v = dll u" "dlm v = dlm u" "ier v = ier u" "fcr v = fcr u" "lcr v = lcr u" "mcr v = mcr u"
  using assms unfolding waits_def by (cases u, cases v, simp)+

lemma inb_lsr_waits: "waits u (snd (inb_lsr u))"
  by (auto simp: inb_lsr_def Let_def tick_def waits_def given_def split: option.splits)

lemma inb_lsr_next: "lsr_reads (snd (inb_lsr u)) = lsr_reads u + 1"
  by (auto simp: inb_lsr_def Let_def tick_def split: option.splits)

text \<open>The bits each loop waits for are set exactly when the device is ready.\<close>

abbreviation RX_MASK :: u8 where
  "RX_MASK \<equiv> RECEIVE_DATA_READY OR OVERRUN OR PARITY_ERROR OR FRAME_ERROR"

lemma and_mask: "(x AND a) AND b = x AND (a AND b)" for x :: u8
  by (simp add: and.assoc)

lemma status_tx: "status u AND TRANSMIT_HOLD_EMPTY \<noteq> 0 \<longleftrightarrow> thr u = None"
  by (simp add: status_def uart_defs bit.conj_disj_distrib2 and_mask)

lemma status_rx: "status u AND RX_MASK \<noteq> 0 \<longleftrightarrow> rx_full u"
  by (simp add: status_def uart_defs bit.conj_disj_distrib2 and_mask or_eq_0_iff)

definition tx_free :: "uart \<Rightarrow> bool" where
  "tx_free u \<longleftrightarrow> thr u = None"

lemma inb_lsr_tx: "fst (inb_lsr u) AND TRANSMIT_HOLD_EMPTY \<noteq> 0 \<longleftrightarrow> tx_free (snd (inb_lsr u))"
  by (simp add: inb_lsr_def Let_def status_tx tx_free_def)

lemma inb_lsr_rx: "fst (inb_lsr u) AND RX_MASK \<noteq> 0 \<longleftrightarrow> rx_full (snd (inb_lsr u))"
  unfolding inb_lsr_def Let_def fst_conv status_rx by simp

lemma tx_ready_free: "tx_ready u (lsr_reads u) \<Longrightarrow> tx_free (snd (inb_lsr u))"
  by (auto simp: inb_lsr_def Let_def tick_def tx_free_def split: option.splits)

lemma key_ready_full: "key_ready u (lsr_reads u) \<Longrightarrow> rx_full (snd (inb_lsr u))"
  by (auto simp: inb_lsr_def Let_def tick_def split: option.splits)

text \<open>
  A loop that waits for the bits \<open>m\<close>, which tell that \<open>ready\<close> holds, ends when the device makes it
  hold at some later status read.
\<close>

lemma wait_status_from:
  assumes bits: "\<And>u. (fst (inb_lsr u) AND m \<noteq> 0) = ready (snd (inb_lsr u))"
    and event: "\<And>u. r u (lsr_reads u) \<Longrightarrow> ready (snd (inb_lsr u))"
    and kept: "\<And>u v. waits u v \<Longrightarrow> r v = r u"
  shows "r u (lsr_reads u + k) \<Longrightarrow> \<exists>v. wait_status m u = Some v \<and> waits u v \<and> ready v"
proof (induction k arbitrary: u)
  case 0
  then have "ready (snd (inb_lsr u))" using event by simp
  moreover from this have "fst (inb_lsr u) AND m \<noteq> 0" using bits by simp
  ultimately show ?case
    by (subst wait_status.simps) (simp add: case_prod_beta inb_lsr_waits)
next
  case (Suc k)
  let ?v = "snd (inb_lsr u)"
  show ?case
  proof (cases "fst (inb_lsr u) AND m = 0")
    case False
    then have "ready ?v" using bits by blast
    then show ?thesis using False by (subst wait_status.simps) (simp add: case_prod_beta inb_lsr_waits)
  next
    case True
    have "r ?v (lsr_reads ?v + k)" using Suc.prems kept [OF inb_lsr_waits] by (simp add: inb_lsr_next)
    from Suc.IH [OF this] obtain v where "wait_status m ?v = Some v" "waits ?v v" "ready v" by blast
    moreover have "wait_status m u = wait_status m ?v" using True by (subst wait_status.simps) (simp add: case_prod_beta)
    ultimately show ?thesis using waits_trans [OF inb_lsr_waits] by auto
  qed
qed

lemma again_from: "again r \<Longrightarrow> \<exists>k. r (n + k)"
  unfolding again_def by (metis le_Suc_ex)

lemma wait_tx:
  assumes "again (tx_ready u)"
  shows "\<exists>v. wait_status TRANSMIT_HOLD_EMPTY u = Some v \<and> waits u v \<and> thr v = None"
  using again_from [OF assms, of "lsr_reads u"]
    wait_status_from [of TRANSMIT_HOLD_EMPTY tx_free tx_ready, OF inb_lsr_tx tx_ready_free waits_same(2)]
  by (auto simp: tx_free_def)

lemma wait_rx:
  assumes "again (key_ready u)"
  shows "\<exists>v. wait_status RX_MASK u = Some v \<and> waits u v \<and> rx_full v"
  using again_from [OF assms, of "lsr_reads u"]
    wait_status_from [of RX_MASK rx_full key_ready, OF inb_lsr_rx key_ready_full waits_same(3)]
  by auto

text \<open>
  What sending \<open>bs\<close> and reading \<open>n\<close> keys do to the device, whenever the line is ready again and
  again: the data moves, once and in order, and the rest stays.
\<close>

definition moved :: "u8 list \<Rightarrow> nat \<Rightarrow> uart \<Rightarrow> uart \<Rightarrow> bool" where
  "moved bs n u v \<longleftrightarrow> given v = given u @ bs \<and> rx_reads v = rx_reads u + n \<and>
     tx_ready v = tx_ready u \<and> key_ready v = key_ready u \<and> rx v = rx u \<and>
     dll v = dll u \<and> dlm v = dlm u \<and> ier v = ier u \<and> fcr v = fcr u \<and> lcr v = lcr u \<and> mcr v = mcr u"

lemma moved_trans: "moved bs n u v \<Longrightarrow> moved bs' n' v w \<Longrightarrow> moved (bs @ bs') (n + n') u w"
  by (simp add: moved_def)

lemma moved_dlab: "moved bs n u v \<Longrightarrow> dlab v = dlab u"
  by (simp add: moved_def dlab_def)

lemma moved_waits: "waits u v \<Longrightarrow> moved [] 0 u v"
  by (simp add: moved_def waits_same)

lemma putchar_moves:
  assumes "again (tx_ready u)" "\<not> dlab u"
  shows "\<exists>v. isa_serial_console_putchar c u = Some v \<and> moved [c] 0 u v"
proof -
  obtain w where w: "wait_status TRANSMIT_HOLD_EMPTY u = Some w" "waits u w" "thr w = None"
    using wait_tx [OF assms(1)] by blast
  then have "\<not> dlab w" using assms(2) by (simp add: dlab_def waits_same)
  then have "moved [c] 0 w (outb c ioport w)" using w(3) by (simp add: outb_def moved_def given_def)
  then show ?thesis using w(1) moved_trans [OF moved_waits [OF w(2)]]
    by (auto simp: isa_serial_console_putchar_def)
qed

lemma readch_moves:
  assumes "again (key_ready u)" "\<not> dlab u"
  shows "\<exists>v. isa_serial_console_readch u = Some (rx u (rx_reads u), v) \<and> moved [] 1 u v"
proof -
  obtain w where w: "wait_status RX_MASK u = Some w" "waits u w" "rx_full w"
    using wait_rx [OF assms(1)] by blast
  then have "\<not> dlab w" using assms(2) by (simp add: dlab_def waits_same)
  then have "fst (inb_data w) = rx u (rx_reads u)" "moved [] 1 w (snd (inb_data w))"
    using w(3) by (simp_all add: inb_data_def moved_def given_def waits_same [OF w(2)])
  then show ?thesis using w(1) moved_trans [OF moved_waits [OF w(2)]]
    by (intro exI [of _ "snd (inb_data w)"]) (auto simp: isa_serial_console_readch_def prod_eq_iff)
qed

lemma put_all_moves:
  "again (tx_ready u) \<Longrightarrow> \<not> dlab u \<Longrightarrow> \<exists>v. put_all bs u = Some v \<and> moved bs 0 u v"
proof (induction bs arbitrary: u)
  case Nil
  show ?case by (simp add: moved_def)
next
  case (Cons b bs)
  obtain w where w: "isa_serial_console_putchar b u = Some w" "moved [b] 0 u w"
    using putchar_moves [OF Cons.prems] by blast
  then have "again (tx_ready w)" "\<not> dlab w" using Cons.prems by (simp_all add: moved_def dlab_def)
  from Cons.IH [OF this] obtain v where "put_all bs w = Some v" "moved bs 0 w v" by blast
  then show ?case using w moved_trans [OF w(2)] by force
qed

lemma read_all_moves:
  "again (key_ready u) \<Longrightarrow> \<not> dlab u \<Longrightarrow>
    \<exists>v. read_all n u = Some (map (rx u) [rx_reads u..<rx_reads u + n], v) \<and> moved [] n u v"
proof (induction n arbitrary: u)
  case 0
  show ?case by (simp add: moved_def)
next
  case (Suc n)
  obtain w where w: "isa_serial_console_readch u = Some (rx u (rx_reads u), w)" "moved [] 1 u w"
    using readch_moves [OF Suc.prems] by blast
  then have s: "again (key_ready w)" "\<not> dlab w" "rx w = rx u" "rx_reads w = Suc (rx_reads u)"
    using Suc.prems by (simp_all add: moved_def dlab_def)
  obtain v where v: "read_all n w = Some (map (rx w) [rx_reads w..<rx_reads w + n], v)" "moved [] n w v"
    using Suc.IH [OF s(1,2)] by blast
  have u: "[rx_reads u..<rx_reads u + Suc n] = rx_reads u # [Suc (rx_reads u)..<Suc (rx_reads u) + n]"
    by (simp add: upt_conv_Cons del: upt_Suc)
  have "moved [] (Suc n) u v" using moved_trans [OF w(2) v(2)] by simp
  then show ?case using w(1) v(1) s(3,4) unfolding u by (simp del: upt_Suc)
qed

fun crlf :: "u8 list \<Rightarrow> u8 list" where
  "crlf [] = []"
| "crlf (c # cs) = (if c = 10 then 13 # c # crlf cs else c # crlf cs)"

lemma debug_early_put_all: "debug_early s u = put_all (crlf s) u"
  by (induction s arbitrary: u) (auto split: bind_splits)

section \<open>The console of the C library\<close>

text \<open>\<open>readf\<close> and \<open>writef\<close> with the driver, and the console they implement.\<close>

definition uart_readf :: "uart \<Rightarrow> nat \<Rightarrow> (bool \<times> u8 list \<times> uart) option" where
  "uart_readf u len = do { (bs, u) \<leftarrow> read_all len u; Some (True, bs, u) }"

definition uart_writef :: "uart \<Rightarrow> u8 list \<Rightarrow> (bool \<times> nat \<times> uart) option" where
  "uart_writef u bs = do { u \<leftarrow> put_all bs u; Some (False, length bs, u) }"

definition console_of :: "uart \<Rightarrow> console" where
  "console_of u = \<lparr>sent = given u, received = map (rx u) [0..<rx_reads u], keys = rx u\<rparr>"

lemma console_moved:
  assumes "moved bs n u v"
  shows "console_of v = \<lparr>sent = given u @ bs, received = map (rx u) ([0..<rx_reads u] @ [rx_reads u..<rx_reads u + n]), keys = rx u\<rparr>"
  using assms upt_add_eq_append [of 0 "rx_reads u" n] by (simp add: console_of_def moved_def)

section \<open>Properties\<close>

text \<open>
  C12. The driver refines the console of the C library: as long as the transmitter passes its byte on
  again and again and keys come in again and again, \<open>writef\<close> and \<open>readf\<close> over the UART return, with
  the results of the abstract console's operations and with a device state that stands for the
  abstract console's. So no byte is written over one that the device still holds, and no byte is read
  that has not arrived, however the device delays.
\<close>

theorem serial_refines_console:
  assumes "again (tx_ready u)" and "again (key_ready u)" and "\<not> dlab u"
  shows "map_option (\<lambda>(r, n, u). (r, n, console_of u)) (uart_writef u bs) = Some (writef (console_of u) bs) \<and>
    map_option (\<lambda>(r, bs, u). (r, bs, console_of u)) (uart_readf u len) = Some (readf (console_of u) len)"
proof -
  obtain v where v: "put_all bs u = Some v" "moved bs 0 u v"
    using put_all_moves [OF assms(1,3)] by blast
  obtain w where w: "read_all len u = Some (map (rx u) [rx_reads u..<rx_reads u + len], w)" "moved [] len u w"
    using read_all_moves [OF assms(2,3)] by blast
  show ?thesis
    using v(1) w(1)
    by (simp add: uart_writef_def uart_readf_def writef_def readf_def console_moved [OF v(2)] console_moved [OF w(2)]
        console_of_def [of u] Let_def)
qed

text \<open>A device that passes a byte on only before every third status read, where keys come as slowly.\<close>

definition sample_uart :: uart where
  "sample_uart = \<lparr>tx_ready = (\<lambda>k. k mod 3 = 2), key_ready = (\<lambda>k. k mod 3 = 1), other = (\<lambda>_. 0xff), rx = (\<lambda>k. of_nat k + 97),
     stale = 7, lsr_reads = 0, rx_reads = 0, rx_full = False, thr = None, tx = [],
     dll = 12, dlm = 0, ier = 1, fcr = 0, lcr = 0, mcr = 0\<rparr>"

lemma again_mod3: "r < 3 \<Longrightarrow> again (\<lambda>k. k mod 3 = r)"
  unfolding again_def by (intro allI, rule_tac x = "r + n * 3" in exI) simp

lemma sample_again: "again (tx_ready sample_uart)" "again (key_ready sample_uart)"
  by (simp_all add: sample_uart_def again_mod3)

theorem serial_refines_console_witness:
  "map_option (\<lambda>(r, n, u). (r, n, console_of u)) (uart_writef sample_uart [104, 105]) =
    Some (False, 2, \<lparr>sent = [104, 105], received = [], keys = (\<lambda>k. of_nat k + 97)\<rparr>) \<and>
   map_option (\<lambda>(r, bs, u). (r, bs, console_of u)) (uart_readf sample_uart 2) =
    Some (True, [97, 98], \<lparr>sent = [], received = [97, 98], keys = (\<lambda>k. of_nat k + 97)\<rparr>)"
proof -
  have "\<not> dlab sample_uart" by (simp add: dlab_def sample_uart_def)
  note r = serial_refines_console [OF sample_again this]
  have c: "console_of sample_uart = \<lparr>sent = [], received = [], keys = (\<lambda>k. of_nat k + 97)\<rparr>"
    by (simp add: console_of_def sample_uart_def given_def)
  show ?thesis using r [of "[104, 105]" 2] unfolding c writef_def readf_def Let_def
    by (simp add: numeral_2_eq_2)
qed

text \<open>
  Initialisation sets the divisor latch to 1 (115200 bit/s) and 8 data bits, leaves the latch
  hidden again and transmits nothing; after it a text is sent with a carriage return before each
  newline, and each byte once.
\<close>

theorem serial_init_then_text:
  assumes "again (tx_ready u)"
  shows "\<exists>u'. debug_early s (isa_serial_console_early_init u) = Some u' \<and> given u' = given u @ crlf s \<and>
    dll u' = 1 \<and> dlm u' = 0 \<and> lcr u' = 3 \<and> ier u' = 0 \<and> fcr u' = 0 \<and> mcr u' = 8 \<and> \<not> dlab u'"
proof -
  let ?u = "isa_serial_console_early_init u"
  have b: "bit (0x83 :: u8) 7" "\<not> bit (3 :: u8) 7" by (simp_all add: bit_numeral_rec)
  have i: "given ?u = given u" "dll ?u = 1" "dlm ?u = 0" "lcr ?u = 3" "ier ?u = 0" "fcr ?u = 0" "mcr ?u = 8"
      "tx_ready ?u = tx_ready u"
    by (simp_all add: isa_serial_console_early_init_def Let_def outb_def uart_defs dlab_def given_def b)
  have "again (tx_ready ?u)" "\<not> dlab ?u" using assms i by (simp_all add: dlab_def b)
  then obtain v where "put_all (crlf s) ?u = Some v" "moved (crlf s) 0 ?u v"
    using put_all_moves by blast
  then show ?thesis using i by (simp add: debug_early_put_all moved_def dlab_def b)
qed

theorem serial_init_then_text_witness:
  "\<exists>u'. debug_early [79, 75, 10] (isa_serial_console_early_init sample_uart) = Some u' \<and> given u' = [79, 75, 13, 10] \<and> dll u' = 1"
  using serial_init_then_text [OF sample_again(1), of "[79, 75, 10]"] by (auto simp: sample_uart_def given_def)

end
