(* ===== verification/TinyPrintf.thy ===== *)
theory TinyPrintf
  imports Serial
begin

text \<open>
  The kernel's own formatted output (printf.c, printf.h) and the logger over it (logger.cc,
  logger.hh). A format is the list of its bytes before the terminator, an argument list the values
  that \<open>va_arg\<close> takes; None is a write outside the buffer \<open>bf\<close>, a division by zero, a missing
  argument, or a loop that does not end.
\<close>

section \<open>Numbers\<close>

text \<open>The first loop: the largest power of the base that is not above the number.\<close>

partial_function (option) find_div :: "'a::len word \<Rightarrow> 'a word \<Rightarrow> 'a word \<Rightarrow> 'a word option" where
  "find_div num base d =
     (if d = 0 then None
      else if base \<le> num div d then find_div num base (d * base)
      else Some d)"

definition tfp_digit :: "bool \<Rightarrow> nat \<Rightarrow> u8" where
  "tfp_digit uc dgt = of_nat (dgt + (if dgt < 10 then 48 else (if uc then 65 else 97) - 10))"

text \<open>The second loop: one digit for each power, leading zeros left out.\<close>

partial_function (option) emit :: "'a::len word \<Rightarrow> 'a word \<Rightarrow> bool \<Rightarrow> 'a word \<Rightarrow> bool \<Rightarrow> u8 list option" where
  "emit num base uc d n =
     (if d = 0 then Some []
      else do {
        let dgt = unat (num div d);
        let num = num mod d;
        let d = d div base;
        if n \<or> 0 < dgt \<or> d = 0 then do {
          bs \<leftarrow> emit num base uc d True;
          Some (tfp_digit uc dgt # bs)
        }
        else emit num base uc d n
      })"

definition num2a :: "'a::len word \<Rightarrow> 'a word \<Rightarrow> bool \<Rightarrow> u8 list option" where
  "num2a num base uc = do { d \<leftarrow> find_div num base 1; emit num base uc d False }"

definition uli2a :: "u64 \<Rightarrow> u64 \<Rightarrow> bool \<Rightarrow> u8 list option" where
  "uli2a num base uc = num2a num base uc"

definition ui2a :: "u32 \<Rightarrow> u32 \<Rightarrow> bool \<Rightarrow> u8 list option" where
  "ui2a num base uc = num2a num base uc"

definition li2a :: "u64 \<Rightarrow> u8 list option" where
  "li2a num = (if num <s 0 then map_option ((#) 45) (uli2a (- num) 10 False) else uli2a num 10 False)"

definition i2a :: "u32 \<Rightarrow> u8 list option" where
  "i2a num = (if num <s 0 then map_option ((#) 45) (ui2a (- num) 10 False) else ui2a num 10 False)"

section \<open>Parsing a conversion\<close>

definition a2d :: "u8 \<Rightarrow> int" where
  "a2d ch = (if 48 \<le> ch \<and> ch \<le> 57 then uint ch - 48
     else if 97 \<le> ch \<and> ch \<le> 102 then uint ch - 97 + 10
     else if 65 \<le> ch \<and> ch \<le> 70 then uint ch - 65 + 10
     else - 1)"

text \<open>The byte \<open>*fmt++\<close>, 0 at the end.\<close>

fun next_ch :: "u8 list \<Rightarrow> u8 \<times> u8 list" where
  "next_ch [] = (0, [])"
| "next_ch (c # cs) = (c, cs)"

fun a2i :: "u8 \<Rightarrow> u8 list \<Rightarrow> int \<Rightarrow> int \<Rightarrow> u8 \<times> u8 list \<times> int" where
  "a2i ch [] base num =
     (if 0 \<le> a2d ch \<and> a2d ch \<le> base then (0, [], num * base + a2d ch) else (ch, [], num))"
| "a2i ch (c # src) base num =
     (if 0 \<le> a2d ch \<and> a2d ch \<le> base then a2i c src base (num * base + a2d ch) else (ch, c # src, num))"

text \<open>The conversion character, \<open>lz\<close>, \<open>lng\<close>, the width and the rest of the format after it.\<close>

definition parse_spec :: "u8 list \<Rightarrow> u8 \<times> bool \<times> bool \<times> int \<times> u8 list" where
  "parse_spec fmt = (
     let (ch, fmt) = next_ch fmt;
         lz = (ch = 48);
         (ch, fmt) = (if lz then next_ch fmt else (ch, fmt));
         (ch, fmt, w) = (if 48 \<le> ch \<and> ch \<le> 57 then a2i ch fmt 10 0 else (ch, fmt, 0));
         lng = (ch = 108);
         (ch, fmt) = (if lng then next_ch fmt else (ch, fmt))
     in (ch, lz, lng, w, fmt))"

section \<open>Output\<close>

fun left_over :: "u8 list \<Rightarrow> int \<Rightarrow> int" where
  "left_over [] n = n"
| "left_over (b # bs) n = (if 0 < n then left_over bs (n - 1) else n)"

definition putchw :: "int \<Rightarrow> bool \<Rightarrow> u8 list \<Rightarrow> u8 list" where
  "putchw n z bs = replicate (nat (left_over bs n)) (if z then 48 else 32) @ bs"

text \<open>The string in \<open>char bf[12]\<close>, with its terminator.\<close>

definition in_bf :: "u8 list \<Rightarrow> u8 list option" where
  "in_bf bs = (if length bs < 12 then Some bs else None)"

datatype tfp_arg = Num u64 | Str "u8 list"

text \<open>One conversion: the bytes put out and the arguments left.\<close>

fun convert :: "u8 \<Rightarrow> bool \<Rightarrow> bool \<Rightarrow> int \<Rightarrow> tfp_arg list \<Rightarrow> (u8 list \<times> tfp_arg list) option" where
  "convert ch lz lng w args =
     (if ch \<in> {117, 100, 120, 88} then
        (case args of
           Num v # args \<Rightarrow> do {
             bs \<leftarrow> (if ch = 100 then (if lng then li2a v else i2a (ucast v))
                   else if ch = 117 then (if lng then uli2a v 10 False else ui2a (ucast v) 10 False)
                   else (if lng then uli2a v 16 (ch = 88) else ui2a (ucast v) 16 (ch = 88)));
             bs \<leftarrow> in_bf bs;
             Some (putchw w lz bs, args)
           }
         | _ \<Rightarrow> None)
      else if ch = 99 then (case args of Num v # args \<Rightarrow> Some ([ucast v], args) | _ \<Rightarrow> None)
      else if ch = 115 then (case args of Str s # args \<Rightarrow> Some (putchw w False s, args) | _ \<Rightarrow> None)
      else if ch = 37 then Some ([37], args)
      else Some ([], args))"

lemma a2i_shorter: "a2i ch src base num = (ch', src', n') \<Longrightarrow> length src' \<le> length src"
  by (induction ch src base num rule: a2i.induct) (auto split: if_splits dest: le_SucI)

lemma next_ch_shorter: "next_ch fmt = (c, fmt') \<Longrightarrow> length fmt' \<le> length fmt"
  by (cases fmt) auto

lemma parse_spec_shorter: "parse_spec fmt = (ch, lz, lng, w, fmt') \<Longrightarrow> length fmt' \<le> length fmt"
  unfolding parse_spec_def Let_def
  by (auto split: prod.splits if_splits dest!: next_ch_shorter a2i_shorter)

function tfp_format :: "u8 list \<Rightarrow> tfp_arg list \<Rightarrow> u8 list option" where
  "tfp_format [] args = Some []"
| "tfp_format (c # fmt) args =
     (if c \<noteq> 37 then map_option ((#) c) (tfp_format fmt args)
      else case parse_spec fmt of (ch, lz, lng, w, fmt') \<Rightarrow>
        if ch = 0 then Some []
        else (case convert ch lz lng w args of None \<Rightarrow> None
              | Some (out, args) \<Rightarrow> map_option (\<lambda>rest. out @ rest) (tfp_format fmt' args)))"
  by pat_completeness auto
termination
  by (relation "measure (\<lambda>(fmt, _). length fmt)") (auto dest!: parse_spec_shorter [OF sym])


section \<open>What the number routines compute\<close>

text \<open>The digits of \<open>n\<close> at the positions \<open>k\<close> to 0, and the number that digits denote.\<close>

fun digits :: "nat \<Rightarrow> nat \<Rightarrow> nat \<Rightarrow> nat list" where
  "digits b 0 n = [n]"
| "digits b (Suc k) n = n div b ^ Suc k # digits b k (n mod b ^ Suc k)"

definition value_of :: "nat \<Rightarrow> nat list \<Rightarrow> nat" where
  "value_of b ds = foldl (\<lambda>v d. v * b + d) 0 ds"

lemma digits_length [simp]: "length (digits b k n) = Suc k"
  by (induction k arbitrary: n) auto

lemma foldl_digits: "foldl (\<lambda>v d. v * b + d) a (digits b k n) = a * b ^ Suc k + n"
proof (induction k arbitrary: a n)
  case (Suc k)
  have "foldl (\<lambda>v d. v * b + d) a (digits b (Suc k) n) = (a * b + n div b ^ Suc k) * b ^ Suc k + n mod b ^ Suc k"
    by (simp only: digits.simps foldl.simps Suc.IH)
  also have "\<dots> = a * b ^ Suc (Suc k) + n"
    by (simp only: add_mult_distrib add.assoc div_mult_mod_eq) simp
  finally show ?case .
qed simp

lemma digits_below: "n < b ^ Suc k \<Longrightarrow> 0 < b \<Longrightarrow> d \<in> set (digits b k n) \<Longrightarrow> d < b"
proof (induction k arbitrary: n)
  case (Suc k)
  have "n div b ^ Suc k < b" using Suc.prems(1) by (intro less_mult_imp_div_less) (simp add: mult.commute)
  then show ?case using Suc.prems Suc.IH [of "n mod b ^ Suc k"] by auto
qed simp

text \<open>The loops on words, when the base is not too large for the type.\<close>

lemma find_div_pow:
  fixes num :: "'a::len word"
  assumes "unat base = b" "2 \<le> b" "unat d = b ^ k" "b ^ k \<le> max 1 (unat num)"
  shows "\<exists>d' j. find_div num base d = Some d' \<and> unat d' = b ^ j \<and> b ^ j \<le> max 1 (unat num) \<and> unat num < b ^ Suc j"
  using assms(3,4)
proof (induction "unat num - b ^ k" arbitrary: d k rule: less_induct)
  case less
  have pos: "0 < b ^ k" using assms(2) by simp
  then have d0: "d \<noteq> 0" using less.prems(1) by auto
  have test: "base \<le> num div d \<longleftrightarrow> b * b ^ k \<le> unat num"
    using assms(1) less.prems(1) pos by (simp add: word_le_nat_alt unat_div_distrib less_eq_div_iff_mult_less_eq)
  show ?case
  proof (cases "base \<le> num div d")
    case True
    then have le: "b ^ Suc k \<le> unat num" using test by simp
    have "unat d * unat base \<le> unat num" using le less.prems(1) assms(1) by (simp add: mult.commute)
    then have "unat d * unat base < 2 ^ LENGTH('a)" by (rule le_less_trans) (rule unsigned_less)
    then have u: "unat (d * base) = b ^ Suc k" using less.prems(1) assms(1) unat_mult_lem [of d base] by (simp add: mult.commute)
    have "b ^ k < b ^ Suc k" using assms(2) pos by simp
    then have "unat num - b ^ Suc k < unat num - b ^ k" using le by linarith
    from less.hyps [OF this u] le show ?thesis
      using True d0 by (subst find_div.simps) simp
  next
    case False
    then show ?thesis using less.prems test d0 by (subst find_div.simps) auto
  qed
qed

lemma emit_digits:
  fixes num :: "'a::len word"
  assumes "unat base = b" "2 \<le> b" "unat d = b ^ k" "unat num < b ^ Suc k"
    and "n \<or> k = 0 \<or> b ^ k \<le> unat num"
  shows "emit num base uc d n = Some (map (tfp_digit uc) (digits b k (unat num)))"
  using assms(3-5)
proof (induction k arbitrary: num d n)
  case 0
  then have d: "unat d = 1" "d \<noteq> 0" by auto
  have "unat (d div base) = 0" using d(1) assms(1,2) by (simp add: unat_div_distrib)
  then have z: "d div base = 0" by (simp add: unat_eq_zero)
  have e: "emit (num mod d) base uc 0 True = Some []" by (subst emit.simps) simp
  show ?case using d z e by (subst emit.simps) (simp add: unat_div_distrib)
next
  case (Suc k)
  have pos: "0 < b ^ k" using assms(2) by simp
  then have d: "d \<noteq> 0" using Suc.prems(1) assms(2) by auto
  have dd: "unat (d div base) = b ^ k" using Suc.prems(1) assms(1,2) by (simp add: unat_div_distrib)
  have m: "unat (num mod d) = unat num mod b ^ Suc k" using Suc.prems(1) by (simp add: unat_mod_distrib)
  have q: "unat (num div d) = unat num div b ^ Suc k" using Suc.prems(1) by (simp add: unat_div_distrib)
  have lt: "unat (num mod d) < b ^ Suc k" unfolding m using assms(2) by (intro mod_less_divisor) simp
  have first: "n \<or> 0 < unat (num div d)"
    using Suc.prems(3) assms(2) unfolding q by (auto simp: div_greater_zero_iff)
  have "emit (num mod d) base uc (d div base) True = Some (map (tfp_digit uc) (digits b k (unat (num mod d))))"
    by (rule Suc.IH [OF dd lt]) simp
  then show ?case using d first by (subst emit.simps) (auto simp: m q)
qed

lemma num2a_digits:
  fixes num :: "'a::len word"
  assumes "unat base = b" "2 \<le> b"
  shows "\<exists>k. num2a num base uc = Some (map (tfp_digit uc) (digits b k (unat num))) \<and>
    unat num < b ^ Suc k \<and> (k = 0 \<or> b ^ k \<le> unat num)"
proof -
  have one: "unat (1 :: 'a word) = b ^ 0" by simp
  obtain d j where d: "find_div num base 1 = Some d" "unat d = b ^ j" "b ^ j \<le> max 1 (unat num)" "unat num < b ^ Suc j"
    using find_div_pow [OF assms one, of num] by auto
  have j: "j = 0 \<or> b ^ j \<le> unat num"
  proof (cases "j = 0")
    case False
    then have "1 < b ^ j" using assms(2) by (intro one_less_power) auto
    then show ?thesis using d(3) by (auto simp: max_def split: if_splits)
  qed simp
  then show ?thesis using emit_digits [OF assms d(2,4), of False uc] d by (auto simp: num2a_def)
qed

lemma a2d_tfp_digit:
  assumes "d < 16"
  shows "a2d (tfp_digit uc d) = int d"
proof -
  have e: "[0..<16] = [0, 1, 2, 3, 4, 5, 6, 7, 8, 9, 10, 11, 12, 13, 14, 15]" by code_simp
  have "list_all (\<lambda>d. a2d (tfp_digit uc d) = int d) [0..<16]"
    unfolding e by (cases uc) (simp_all add: tfp_digit_def a2d_def)
  then show ?thesis using assms by (simp only: list_all_iff set_upt) simp
qed

lemma value_text:
  assumes "\<forall>d \<in> set ds. d < 16"
  shows "foldl (\<lambda>v c. v * b + nat (a2d c)) a (map (tfp_digit uc) ds) = foldl (\<lambda>v d. v * b + d) a ds"
  using assms by (induction ds arbitrary: a) (simp_all add: a2d_tfp_digit)

lemma hd_digits: "hd (digits b k n) = n div b ^ k"
  by (cases k) auto

lemma num2a_text:
  fixes num :: "'a::len word"
  assumes "2 \<le> unat base" "unat base \<le> 16"
  shows "\<exists>cs. num2a num base uc = Some cs \<and> foldl (\<lambda>v c. v * unat base + nat (a2d c)) 0 cs = unat num \<and>
    (hd cs \<noteq> 48 \<or> cs = [48])"
proof -
  obtain k where k: "num2a num base uc = Some (map (tfp_digit uc) (digits (unat base) k (unat num)))"
      "unat num < unat base ^ Suc k" "k = 0 \<or> unat base ^ k \<le> unat num"
    using num2a_digits [OF refl assms(1), of num uc] by blast
  let ?ds = "digits (unat base) k (unat num)"
  have b: "\<forall>d \<in> set ?ds. d < unat base" using digits_below [OF k(2)] assms(1) by auto
  then have v: "foldl (\<lambda>v c. v * unat base + nat (a2d c)) 0 (map (tfp_digit uc) ?ds) = unat num"
    using assms(2) by (subst value_text) (auto simp: foldl_digits)
  have ne: "?ds \<noteq> []" using digits_length [of "unat base" k "unat num"] by (metis Zero_not_Suc list.size(3))
  have h: "hd ?ds < 16" using b assms(2) hd_in_set [OF ne] by fastforce
  have hc: "hd (map (tfp_digit uc) ?ds) = tfp_digit uc (hd ?ds)" using ne by (simp add: list.map_sel)
  have "hd (map (tfp_digit uc) ?ds) \<noteq> 48 \<or> map (tfp_digit uc) ?ds = [48]"
  proof (cases "hd ?ds = 0")
    case False
    have "a2d (hd (map (tfp_digit uc) ?ds)) \<noteq> a2d 48" unfolding hc a2d_tfp_digit [OF h] using False by (simp add: a2d_def)
    then show ?thesis by auto
  next
    case True
    have "unat num < unat base ^ k"
      using True assms(1) unfolding hd_digits by (metis div_eq_0_iff less_le_trans not_less power_eq_0_iff zero_less_numeral)
    then have "k = 0" using k(3) by linarith
    moreover from this have "unat num = 0" using True by simp
    ultimately show ?thesis by (simp add: tfp_digit_def)
  qed
  then show ?thesis by (intro exI [of _ "map (tfp_digit uc) ?ds"] conjI k(1) v)
qed

lemma num2a_short:
  fixes num :: "'a::len word"
  assumes "unat base = b" "2 \<le> b" "0 < m"
  shows "\<exists>cs. num2a num base uc = Some cs \<and> (length cs \<le> m \<longleftrightarrow> unat num < b ^ m)"
proof -
  obtain k where k: "num2a num base uc = Some (map (tfp_digit uc) (digits b k (unat num)))"
      "unat num < b ^ Suc k" "k = 0 \<or> b ^ k \<le> unat num"
    using num2a_digits [OF assms(1,2), of num uc] by blast
  have "Suc k \<le> m \<longleftrightarrow> unat num < b ^ m"
  proof
    assume "Suc k \<le> m"
    then have "b ^ Suc k \<le> b ^ m" using assms(2) by (intro power_increasing) auto
    then show "unat num < b ^ m" using k(2) by simp
  next
    assume n: "unat num < b ^ m"
    show "Suc k \<le> m"
    proof (rule ccontr)
      assume "\<not> Suc k \<le> m"
      then have "m \<le> k" "k \<noteq> 0" using assms(3) by auto
      then have "b ^ m \<le> b ^ k" using assms(2) by (intro power_increasing) auto
      then show False using n k(3) \<open>k \<noteq> 0\<close> by simp
    qed
  qed
  then show ?thesis using k(1) by simp
qed

section \<open>The logger\<close>

datatype level = DEBUG | INFO

record module_impl =
  mod_name :: "u8 list"
  lvl :: level

definition max_modules :: nat where "max_modules = 100"

text \<open>
  The vector of modules, with room for \<open>max_modules\<close>; one more needs the heap, and \<open>operator new\<close>
  aborts. A module is its index.
\<close>

definition add_module :: "u8 list \<Rightarrow> level \<Rightarrow> module_impl list \<Rightarrow> (nat \<times> module_impl list) option" where
  "add_module name l ms =
     (if length ms < max_modules then Some (length ms, ms @ [\<lparr>mod_name = name, lvl = l\<rparr>]) else None)"

definition set_level :: "nat \<Rightarrow> level \<Rightarrow> module_impl list \<Rightarrow> module_impl list option" where
  "set_level m l ms = (if m < length ms then Some (ms[m := (ms ! m)\<lparr>lvl := l\<rparr>]) else None)"

text \<open>\<open>init\<close> after the UART is set up: the modules boot, acpi, exception and memory.\<close>

definition logger_init :: "(nat \<times> nat \<times> nat \<times> nat \<times> module_impl list) option" where
  "logger_init = do {
     (boot, ms) \<leftarrow> add_module [98, 111, 111, 116] INFO [];
     (acpi, ms) \<leftarrow> add_module [97, 99, 112, 105] INFO ms;
     (exn, ms) \<leftarrow> add_module [101, 120, 99, 101, 112, 116, 105, 111, 110] INFO ms;
     (memory, ms) \<leftarrow> add_module [109, 101, 109, 111, 114, 121] INFO ms;
     Some (boot, acpi, exn, memory, ms)
   }"

text \<open>\<open>info\<close> and \<open>vinfo\<close>, and \<open>debug\<close> and \<open>vdebug\<close>, send the formatted bytes to the UART one by one.\<close>

definition info :: "u8 list \<Rightarrow> tfp_arg list \<Rightarrow> uart \<Rightarrow> uart option" where
  "info fmt va u = do { out \<leftarrow> tfp_format fmt va; put_all out u }"

definition debug :: "nat \<Rightarrow> u8 list \<Rightarrow> tfp_arg list \<Rightarrow> module_impl list \<Rightarrow> uart \<Rightarrow> uart option" where
  "debug m fmt va ms u =
     (if m < length ms then (if lvl (ms ! m) \<noteq> DEBUG then Some u else info fmt va u) else None)"

section \<open>Properties\<close>

text \<open>
  C13. The number routines are exact: in base 2 to 16 the text they produce, read back digit by digit
  with \<open>a2d\<close>, is the number, it has no leading zero, and both loops end -- for 32 and for 64 bits.
\<close>

theorem number_text_roundtrip:
  assumes "2 \<le> base" and "base \<le> 16"
  shows "\<exists>t u. ui2a x (of_nat base) uc = Some t \<and> foldl (\<lambda>v c. v * base + nat (a2d c)) 0 t = unat x \<and>
    (if hd t = 48 then t = [48] else True) \<and>
    uli2a y (of_nat base) uc = Some u \<and> foldl (\<lambda>v c. v * base + nat (a2d c)) 0 u = unat y \<and>
    (if hd u = 48 then u = [48] else True)"
proof -
  have u32: "unat (of_nat base :: u32) = base" using assms by (intro unat_of_nat_u32) simp
  have u64: "unat (of_nat base :: u64) = base" using assms by (intro unat_of_nat_u64) simp
  show ?thesis
    using num2a_text [of "of_nat base :: u32" x uc] num2a_text [of "of_nat base :: u64" y uc] assms
    unfolding ui2a_def uli2a_def u32 u64 by auto
qed

theorem number_text_roundtrip_witness:
  "\<exists>t. uli2a 0xffffffff80001234 16 False = Some t \<and>
    foldl (\<lambda>v c. v * 16 + nat (a2d c)) 0 t = unat (0xffffffff80001234 :: u64)"
  using number_text_roundtrip [of 16 0 False "0xffffffff80001234"] by auto

text \<open>
  The 12 bytes of \<open>bf\<close> are enough for every 32-bit conversion, but a long hexadecimal one writes
  behind them exactly from 16^11 on -- for every kernel address, such as the instruction pointer in
  the exception messages.
\<close>

theorem long_hex_overflows:
  "(tfp_format [37, 108, 120] [Num v] = None \<longleftrightarrow> 16 ^ 11 \<le> unat v) \<and>
    tfp_format [37, 120] [Num v] \<noteq> None \<and> tfp_format [37, 117] [Num v] \<noteq> None \<and> tfp_format [37, 100] [Num v] \<noteq> None"
proof -
  let ?n = "ucast v :: u32"
  have lx: "\<exists>cs. uli2a v 16 False = Some cs \<and> (length cs < 12 \<longleftrightarrow> unat v < 16 ^ 11)"
    using num2a_short [of "16 :: u64" 16 11 v False] by (auto simp: uli2a_def less_Suc_eq_le [of _ 11, simplified])
  have small: "unat w < 2 ^ 32" for w :: u32 using unsigned_less [of w] by simp
  then have small: "unat w < 16 ^ 8" "unat w < 10 ^ 10" for w :: u32
    using less_le_trans [of "unat w" "2 ^ 32"] by simp_all
  have x: "\<exists>cs. ui2a ?n 16 False = Some cs \<and> length cs \<le> 8"
    using num2a_short [of "16 :: u32" 16 8 ?n False] small by (auto simp: ui2a_def)
  have u: "\<exists>cs. ui2a w 10 False = Some cs \<and> length cs \<le> 10" for w
    using num2a_short [of "10 :: u32" 10 10 w False] small by (auto simp: ui2a_def)
  have d: "\<exists>cs. i2a ?n = Some cs \<and> length cs \<le> 11" using u [of ?n] u [of "- ?n"] by (auto simp: i2a_def)
  show ?thesis
    using lx x u [of ?n] d by (auto simp: parse_spec_def a2i.simps in_bf_def not_less)
qed

end
