(* ===== verification/PdcCodec.thy ===== *)
theory PdcCodec
  imports Prelude
begin

text \<open>
  The character codecs of the C library (pdclib/opt/basecodecs/*.c): ASCII, which the kernel's
  global locale uses, Latin-1 and UTF-8. A codec converts as much of the input array as fits into the
  output and keeps what a cut character needs in the \<open>mbstate\<close>. The locale \<open>codec\<close> is the contract
  on which the functions of uchar.h rely; the three codecs are its interpretations.
\<close>

section \<open>Conversion state and cursors\<close>

text \<open>
  \<open>struct _PDCLIB_mbstate\<close>: of the union only the byte \<open>_StUC[0]\<close> and the word \<open>_St32[1]\<close> are used,
  which do not overlap.
\<close>

record mbstate =
  conv_state :: u8      \<comment> \<open>\<open>_StUC[0]\<close>\<close>
  accum :: u32          \<comment> \<open>\<open>_St32[1]\<close>\<close>
  surrogate :: u16
  pend_state :: u8
  pend_char :: u8

definition mbstate_zero :: mbstate where
  "mbstate_zero = \<lparr>conv_state = 0, accum = 0, surrogate = 0, pend_state = 0, pend_char = 0\<rparr>"

text \<open>
  The output argument \<open>p_outbuf\<close> of a conversion: a null \<open>p_outbuf\<close> (nothing is stored), a
  \<open>*p_outbuf\<close> that is null (storing faults), or an array in which the listed units have been stored.
\<close>

datatype 'o outp = No_out | Null_out | Out "'o list"

fun put_out :: "'o \<Rightarrow> 'o outp \<Rightarrow> 'o outp option" where
  "put_out x No_out = Some No_out"
| "put_out x Null_out = None"
| "put_out x (Out xs) = Some (Out (xs @ [x]))"

text \<open>The four pointer arguments: the array left at \<open>*p_inbuf\<close>, and the two counts.\<close>

record ('i, 'o) conv =
  inbuf :: "'i list"
  insz :: nat
  outbuf :: "'o outp"
  outsz :: nat

type_synonym ('i, 'o) converter =
  "mbstate \<Rightarrow> ('i, 'o) conv \<Rightarrow> (bool \<times> ('i, 'o) conv \<times> mbstate) option"

text \<open>\<open>struct _PDCLIB_charcodec\<close>; the UTF-16 members are optional.\<close>

record charcodec =
  codec_mbsinit :: "mbstate \<Rightarrow> bool"
  mbstoc32s :: "(u8, u32) converter"
  c32stombs :: "(u32, u8) converter"
  mbstoc16s :: "(u8, u16) converter option"
  c16stombs :: "(u16, u8) converter option"
  mb_max :: nat

text \<open>One turn of a loop body that stored \<open>x\<close> and read one unit of input.\<close>

definition advance :: "'i list \<Rightarrow> 'o outp \<Rightarrow> ('i, 'o) conv \<Rightarrow> ('i, 'o) conv" where
  "advance rest out c = c\<lparr>inbuf := rest, insz := insz c - 1, outbuf := out, outsz := outsz c - 1\<rparr>"

lemma advance_simps [simp]:
  "inbuf (advance r q c) = r" "insz (advance r q c) = insz c - 1"
  "outbuf (advance r q c) = q" "outsz (advance r q c) = outsz c - 1"
  by (simp_all add: advance_def)

section \<open>ASCII and Latin-1\<close>

definition ascii_mbsinit :: "mbstate \<Rightarrow> bool" where
  "ascii_mbsinit ps = True"

function asciitoc32 :: "(u8, u32) converter" where
  "asciitoc32 ps c =
     (if outsz c \<noteq> 0 \<and> insz c \<noteq> 0
      then case inbuf c of
             [] \<Rightarrow> None
           | b # rest \<Rightarrow>
               if b > 127 then Some (False, c, ps)
               else do { q \<leftarrow> put_out (ucast b) (outbuf c); asciitoc32 ps (advance rest q c) }
      else Some (True, c, ps))"
  by pat_completeness auto
termination by (relation "measure (\<lambda>(ps, c). insz c)") auto

function c32toascii :: "(u32, u8) converter" where
  "c32toascii ps c =
     (if outsz c \<noteq> 0 \<and> insz c \<noteq> 0
      then case inbuf c of
             [] \<Rightarrow> None
           | b # rest \<Rightarrow>
               if b > 127 then Some (False, c, ps)
               else do { q \<leftarrow> put_out (ucast b) (outbuf c); c32toascii ps (advance rest q c) }
      else Some (True, c, ps))"
  by pat_completeness auto
termination by (relation "measure (\<lambda>(ps, c). insz c)") auto

definition ascii_codec :: charcodec where
  "ascii_codec = \<lparr>codec_mbsinit = ascii_mbsinit, mbstoc32s = asciitoc32, c32stombs = c32toascii,
     mbstoc16s = None, c16stombs = None, mb_max = 1\<rparr>"

definition latin1_mbsinit :: "mbstate \<Rightarrow> bool" where
  "latin1_mbsinit ps = True"

function latin1toc32 :: "(u8, u32) converter" where
  "latin1toc32 ps c =
     (if outsz c \<noteq> 0 \<and> insz c \<noteq> 0
      then case inbuf c of
             [] \<Rightarrow> None
           | b # rest \<Rightarrow>
               do { q \<leftarrow> put_out (ucast b) (outbuf c); latin1toc32 ps (advance rest q c) }
      else Some (True, c, ps))"
  by pat_completeness auto
termination by (relation "measure (\<lambda>(ps, c). insz c)") auto

function c32tolatin1 :: "(u32, u8) converter" where
  "c32tolatin1 ps c =
     (if outsz c \<noteq> 0 \<and> insz c \<noteq> 0
      then case inbuf c of
             [] \<Rightarrow> None
           | b # rest \<Rightarrow>
               if b > 255 then Some (False, c, ps)
               else do { q \<leftarrow> put_out (ucast b) (outbuf c); c32tolatin1 ps (advance rest q c) }
      else Some (True, c, ps))"
  by pat_completeness auto
termination by (relation "measure (\<lambda>(ps, c). insz c)") auto

definition latin1_codec :: charcodec where
  "latin1_codec = \<lparr>codec_mbsinit = latin1_mbsinit, mbstoc32s = latin1toc32, c32stombs = c32tolatin1,
     mbstoc16s = None, c16stombs = None, mb_max = 1\<rparr>"

declare asciitoc32.simps [simp del] c32toascii.simps [simp del]
  latin1toc32.simps [simp del] c32tolatin1.simps [simp del]

section \<open>UTF-8\<close>

definition utf8_mbsinit :: "mbstate \<Rightarrow> bool" where
  "utf8_mbsinit ps \<longleftrightarrow> conv_state ps = 0"

definition DecStart :: u8 where "DecStart = 0"
definition Dec2B2 :: u8 where "Dec2B2 = 1"
definition Dec3B2 :: u8 where "Dec3B2 = 2"
definition Dec3B3 :: u8 where "Dec3B3 = 3"
definition Dec4B2 :: u8 where "Dec4B2 = 4"
definition Dec4B3 :: u8 where "Dec4B3 = 5"
definition Dec4B4 :: u8 where "Dec4B4 = 6"

lemmas dec_states = DecStart_def Dec2B2_def Dec3B2_def Dec3B3_def Dec4B2_def Dec4B3_def Dec4B4_def

text \<open>
  What the switch of \<open>utf8toc32\<close> does with one byte: give up, go on with a new state and
  accumulator, or put out a character. An invalid state is the failed assertion, None.
\<close>

datatype dec_result = Reject | Accum u8 u32 | Char u32

definition is_cont :: "u8 \<Rightarrow> bool" where
  "is_cont c \<longleftrightarrow> c AND 0xC0 = 0x80"

definition dec_start :: "u8 \<Rightarrow> dec_result" where
  "dec_start c =
     (if c \<le> 0x7F then Char (ucast c)
      else if c \<le> 0xDF then Accum Dec2B2 (push_bit 6 (ucast c AND 0x1F))
      else if c \<le> 0xEF then Accum Dec3B2 (push_bit 12 (ucast c AND 0x0F))
      else if c \<le> 0xF4 then Accum Dec4B2 (push_bit 18 (ucast c AND 0x07))
      else Reject)"

definition dec_switch :: "u8 \<Rightarrow> u32 \<Rightarrow> u8 \<Rightarrow> dec_result option" where
  "dec_switch st acc c =
     (if st = DecStart then Some (dec_start c)
      else if st = Dec2B2 then Some (
        if \<not> is_cont c then Reject
        else let c32 = acc OR (ucast c AND 0x3F) in
          if c32 \<le> 0x7F then Reject else Char c32)
      else if st = Dec3B2 then Some (
        if \<not> is_cont c then Reject else Accum Dec3B3 (acc OR push_bit 6 (ucast c AND 0x3F)))
      else if st = Dec3B3 then Some (
        if \<not> is_cont c then Reject
        else let c32 = acc OR (ucast c AND 0x3F) in
          if c32 \<le> 0x7FF then Reject
          else if 0xD800 \<le> c32 \<and> c32 \<le> 0xDFFF then Reject
          else Char c32)
      else if st = Dec4B2 then Some (
        if \<not> is_cont c then Reject else Accum Dec4B3 (acc OR push_bit 12 (ucast c AND 0x3F)))
      else if st = Dec4B3 then Some (
        if \<not> is_cont c then Reject else Accum Dec4B4 (acc OR push_bit 6 (ucast c AND 0x3F)))
      else if st = Dec4B4 then Some (
        if \<not> is_cont c then Reject
        else let c32 = acc OR (ucast c AND 0x3F) in
          if c32 \<le> 0xFFFF then Reject
          else if c32 > 0x10FFFF then Reject
          else Char c32)
      else None)"

text \<open>The macro \<open>_PDCLIB_UNDEFINED(accum)\<close> leaves the accumulator as it is.\<close>

function utf8toc32 :: "(u8, u32) converter" where
  "utf8toc32 ps c =
     (if outsz c \<noteq> 0 \<and> insz c \<noteq> 0
      then case inbuf c of
             [] \<Rightarrow> None
           | b # rest \<Rightarrow>
               (case dec_switch (conv_state ps) (accum ps) b of
                  None \<Rightarrow> None
                | Some Reject \<Rightarrow> Some (False, c, ps)
                | Some (Accum st acc) \<Rightarrow>
                    utf8toc32 (ps\<lparr>conv_state := st, accum := acc\<rparr>)
                      (c\<lparr>inbuf := rest, insz := insz c - 1\<rparr>)
                | Some (Char x) \<Rightarrow> do {
                    q \<leftarrow> put_out x (outbuf c);
                    utf8toc32 (ps\<lparr>conv_state := DecStart\<rparr>) (advance rest q c)
                  })
      else Some (True, c, ps))"
  by pat_completeness auto
termination by (relation "measure (\<lambda>(ps, c). insz c)") auto

definition EncStart :: u8 where "EncStart = 0"
definition Enc1R :: u8 where "Enc1R = 1"
definition Enc2R :: u8 where "Enc2R = 2"
definition Enc3R :: u8 where "Enc3R = 3"

lemmas enc_states = EncStart_def Enc1R_def Enc2R_def Enc3R_def

text \<open>The first byte of a character and the state after it; None when it is above U+10FFFF.\<close>

definition enc_first :: "u32 \<Rightarrow> (u8 \<times> u8) option" where
  "enc_first acc =
     (if acc \<le> 0x7F then Some (ucast acc, EncStart)
      else if acc \<le> 0x7FF then Some (ucast (0xC0 OR drop_bit 6 acc), Enc1R)
      else if acc \<le> 0xFFFF then Some (ucast (0xE0 OR drop_bit 12 acc), Enc2R)
      else if acc \<le> 0x10FFFF then Some (ucast (0xF0 OR drop_bit 18 acc), Enc3R)
      else None)"

text \<open>
  The switch of \<open>c32toutf8\<close> has no default: in any other state \<open>outc\<close> would be uninitialised, None.
\<close>

definition enc_rest :: "u8 \<Rightarrow> u32 \<Rightarrow> (u8 \<times> u8) option" where
  "enc_rest st acc =
     (if st = Enc3R then Some (ucast (0x80 OR (drop_bit 12 acc AND 0x3F)), Enc2R)
      else if st = Enc2R then Some (ucast (0x80 OR (drop_bit 6 acc AND 0x3F)), Enc1R)
      else if st = Enc1R then Some (ucast (0x80 OR (acc AND 0x3F)), EncStart)
      else None)"

function c32toutf8 :: "(u32, u8) converter" where
  "c32toutf8 ps c =
     (if outsz c = 0 then Some (True, c, ps)
      else if conv_state ps = EncStart then
        if insz c = 0 then Some (True, c, ps)
        else case inbuf c of
               [] \<Rightarrow> None
             | x # rest \<Rightarrow>
                 (let c' = c\<lparr>inbuf := rest, insz := insz c - 1\<rparr>; ps' = ps\<lparr>accum := x\<rparr> in
                  case enc_first x of
                    None \<Rightarrow> Some (False, c', ps')
                  | Some (b, st) \<Rightarrow> do {
                      q \<leftarrow> put_out b (outbuf c);
                      c32toutf8 (ps'\<lparr>conv_state := st\<rparr>) (c'\<lparr>outbuf := q, outsz := outsz c - 1\<rparr>)
                    })
      else case enc_rest (conv_state ps) (accum ps) of
             None \<Rightarrow> None
           | Some (b, st) \<Rightarrow> do {
               q \<leftarrow> put_out b (outbuf c);
               c32toutf8 (ps\<lparr>conv_state := st\<rparr>) (c\<lparr>outbuf := q, outsz := outsz c - 1\<rparr>)
             })"
  by pat_completeness auto
termination by (relation "measure (\<lambda>(ps, c). outsz c)") auto

declare utf8toc32.simps [simp del] c32toutf8.simps [simp del]

definition utf8_codec :: charcodec where
  "utf8_codec = \<lparr>codec_mbsinit = utf8_mbsinit, mbstoc32s = utf8toc32, c32stombs = c32toutf8,
     mbstoc16s = None, c16stombs = None, mb_max = 4\<rparr>"

section \<open>What UTF-8 is\<close>

definition utf8_bytes :: "u32 \<Rightarrow> u8 list" where
  "utf8_bytes x =
     (if x \<le> 0x7F then [ucast x]
      else if x \<le> 0x7FF then [ucast (0xC0 OR drop_bit 6 x), ucast (0x80 OR (x AND 0x3F))]
      else if x \<le> 0xFFFF then
        [ucast (0xE0 OR drop_bit 12 x), ucast (0x80 OR (drop_bit 6 x AND 0x3F)), ucast (0x80 OR (x AND 0x3F))]
      else [ucast (0xF0 OR drop_bit 18 x), ucast (0x80 OR (drop_bit 12 x AND 0x3F)),
        ucast (0x80 OR (drop_bit 6 x AND 0x3F)), ucast (0x80 OR (x AND 0x3F))])"

definition scalar_value :: "u32 \<Rightarrow> bool" where
  "scalar_value x \<longleftrightarrow> x < 0xD800 \<or> 0xDFFF < x \<and> x \<le> 0x10FFFF"

lemma bit_0x80: "bit (0x80 :: u32) n \<longleftrightarrow> n = 7" "bit (0x80 :: u8) n \<longleftrightarrow> n = 7"
proof -
  have "(0x80 :: u32) = push_bit 7 1" "(0x80 :: u8) = push_bit 7 1" by simp_all
  then show "bit (0x80 :: u32) n \<longleftrightarrow> n = 7" "bit (0x80 :: u8) n \<longleftrightarrow> n = 7"
    by (auto simp only: bit_push_bit_iff bit_1_iff) auto
qed

lemma bit_byte_masks:
  "bit (0x3F :: u32) n \<longleftrightarrow> n < 6" "bit (0x1F :: u32) n \<longleftrightarrow> n < 5"
  "bit (0x0F :: u32) n \<longleftrightarrow> n < 4" "bit (0x07 :: u32) n \<longleftrightarrow> n < 3"
proof -
  have "(0x3F :: u32) = mask 6" "(0x1F :: u32) = mask 5" "(0x0F :: u32) = mask 4" "(0x07 :: u32) = mask 3"
    by (simp_all add: mask_eq_exp_minus_1)
  then show   "bit (0x3F :: u32) n \<longleftrightarrow> n < 6" "bit (0x1F :: u32) n \<longleftrightarrow> n < 5"
  "bit (0x0F :: u32) n \<longleftrightarrow> n < 4" "bit (0x07 :: u32) n \<longleftrightarrow> n < 3"
    by (auto simp only: bit_mask_iff) auto
qed

lemma bit_lead_marks:
  "bit (0xC0 :: u32) n \<longleftrightarrow> 6 \<le> n \<and> n < 8" "bit (0xE0 :: u32) n \<longleftrightarrow> 5 \<le> n \<and> n < 8"
  "bit (0xF0 :: u32) n \<longleftrightarrow> 4 \<le> n \<and> n < 8" "bit (0xC0 :: u8) n \<longleftrightarrow> 6 \<le> n \<and> n < 8"
proof -
  have "(0xC0 :: u32) = push_bit 6 (mask 2)" "(0xE0 :: u32) = push_bit 5 (mask 3)"
    "(0xF0 :: u32) = push_bit 4 (mask 4)" "(0xC0 :: u8) = push_bit 6 (mask 2)"
    by (simp_all add: mask_eq_exp_minus_1 push_bit_eq_mult)
  then show "bit (0xC0 :: u32) n \<longleftrightarrow> 6 \<le> n \<and> n < 8" "bit (0xE0 :: u32) n \<longleftrightarrow> 5 \<le> n \<and> n < 8"
  "bit (0xF0 :: u32) n \<longleftrightarrow> 4 \<le> n \<and> n < 8" "bit (0xC0 :: u8) n \<longleftrightarrow> 6 \<le> n \<and> n < 8"
    by (auto simp only: bit_mask_iff bit_push_bit_iff) auto
qed

lemmas utf8_bits = bit_0x80 bit_byte_masks bit_lead_marks

lemma cont_bits: "ucast (ucast (0x80 OR (y AND 0x3F :: u32)) :: u8) AND (0x3F :: u32) = y AND 0x3F"
  by (rule bit_word_eqI) (auto simp: bit_simps utf8_bits simp del: bit_numeral_word_iff)

lemma is_cont_cont: "is_cont (ucast (0x80 OR (y AND 0x3F :: u32)))"
  unfolding is_cont_def
  by (rule bit_word_eqI) (auto simp: bit_simps utf8_bits simp del: bit_numeral_word_iff)



lemma u32_small_bits: assumes "unat (x :: u32) < 2 ^ k" "bit x n" shows "n < k"
proof -
  have "take_bit k x = x" using assms(1) by (simp add: word_unat_eq_iff unsigned_take_bit_eq take_bit_nat_eq_self)
  then show ?thesis using assms(2) by (metis bit_take_bit_iff)
qed

lemmas layout_bits = bit_or_iff bit_and_iff bit_push_bit_iff bit_drop_bit_eq bit_unsigned_iff utf8_bits comp_apply

lemma two_bytes:
  assumes "(x :: u32) \<le> 0x7FF"
  shows "push_bit 6 (ucast (ucast (0xC0 OR drop_bit 6 x) :: u8) AND 0x1F) OR (x AND 0x3F) = x"
proof (rule bit_word_eqI)
  fix n assume "n < LENGTH(32)"
  then show "bit (push_bit 6 (ucast (ucast (0xC0 OR drop_bit 6 x) :: u8) AND 0x1F) OR (x AND 0x3F)) n = bit x n"
   using u32_small_bits [of x 11 n] assms by (simp only: layout_bits) (auto simp: word_le_nat_alt)
qed

lemma three_bytes:
  assumes "(x :: u32) \<le> 0xFFFF"
  shows "push_bit 12 (ucast (ucast (0xE0 OR drop_bit 12 x) :: u8) AND 0x0F) OR push_bit 6 (drop_bit 6 x AND 0x3F) OR (x AND 0x3F) = x" (is "?d = x")
proof (rule bit_word_eqI)
  fix n assume "n < LENGTH(32)"
  then show "bit ?d n = bit x n"
   using u32_small_bits [of x 16 n] assms by (simp only: layout_bits) (auto simp: word_le_nat_alt)
qed
lemma four_bytes:
  assumes "(x :: u32) \<le> 0x10FFFF"
  shows "push_bit 18 (ucast (ucast (0xF0 OR drop_bit 18 x) :: u8) AND 0x07) OR push_bit 12 (drop_bit 12 x AND 0x3F) OR push_bit 6 (drop_bit 6 x AND 0x3F) OR (x AND 0x3F) = x" (is "?d = x")
proof (rule bit_word_eqI)
  fix n assume "n < LENGTH(32)"
  then show "bit ?d n = bit x n"
   using u32_small_bits [of x 21 n] assms by (simp only: layout_bits) (cases "12 \<le> n"; auto simp: word_le_nat_alt)
qed


lemma drop_bit_nat8: "drop_bit k (b :: u8) = w \<longleftrightarrow> unat b div 2 ^ k = unat w"
  by (simp only: word_unat_eq_iff unat_drop_bit_eq) (simp only: drop_bit_eq_div)

lemma bit_small_u8:
  "bit (2 :: u8) n \<longleftrightarrow> n = 1" "bit (6 :: u8) n \<longleftrightarrow> 1 \<le> n \<and> n < 3"
  "bit (14 :: u8) n \<longleftrightarrow> 1 \<le> n \<and> n < 4" "bit (30 :: u8) n \<longleftrightarrow> 1 \<le> n \<and> n < 5"
proof -
  have "(2 :: u8) = push_bit 1 (mask 1)" "(6 :: u8) = push_bit 1 (mask 2)"
    "(14 :: u8) = push_bit 1 (mask 3)" "(30 :: u8) = push_bit 1 (mask 4)"
    by (simp_all add: mask_eq_exp_minus_1 push_bit_eq_mult)
  then show "bit (2 :: u8) n \<longleftrightarrow> n = 1" "bit (6 :: u8) n \<longleftrightarrow> 1 \<le> n \<and> n < 3"
  "bit (14 :: u8) n \<longleftrightarrow> 1 \<le> n \<and> n < 4" "bit (30 :: u8) n \<longleftrightarrow> 1 \<le> n \<and> n < 5"
    by (auto simp only: bit_mask_iff bit_push_bit_iff) auto
qed

lemma less_8_cases: "n < LENGTH(8) \<Longrightarrow> n = 0 \<or> n = 1 \<or> n = 2 \<or> n = 3 \<or> n = 4 \<or> n = 5 \<or> n = 6 \<or> n = (7 :: nat)"
  by simp presburger

lemma drop_bit_bits: "drop_bit k (b :: u8) = w \<Longrightarrow> bit b (k + n) = bit w n"
  by (metis bit_drop_bit_eq comp_apply)

lemmas byte_eqI = bit_word_eqI [where 'a = 8]

lemma is_cont_bits: "is_cont c \<longleftrightarrow> bit c 7 \<and> \<not> bit c 6"
proof
  assume "is_cont c"
  then have h: "bit (c AND 0xC0) n = bit (0x80 :: u8) n" for n by (simp add: is_cont_def)
  show "bit c 7 \<and> \<not> bit c 6" using h [of 6] h [of 7] by (simp only: layout_bits) simp
next
  assume h: "bit c 7 \<and> \<not> bit c 6"
  show "is_cont c" unfolding is_cont_def
  proof (rule byte_eqI)
    fix n assume "n < LENGTH(8)"
    from less_8_cases [OF this] show "bit (c AND 0xC0) n = bit (0x80 :: u8) n"
      using h by (elim disjE; simp only: layout_bits) simp_all
  qed
qed

lemma cont_rebuild:
  assumes "is_cont c" shows "ucast (0x80 OR (ucast c AND 0x3F :: u32)) = c"
proof (rule byte_eqI)
  fix n assume "n < LENGTH(8)"
  from less_8_cases [OF this] show "bit (ucast (0x80 OR (ucast c AND 0x3F :: u32)) :: u8) n = bit c n"
    using assms by (elim disjE; simp only: is_cont_bits layout_bits) simp_all
qed

lemma lead2_rebuild:
  assumes "bit b 7" "bit b 6" "\<not> bit b 5"
  shows "ucast (0xC0 OR drop_bit 6 (push_bit 6 (ucast b AND 0x1F) OR (ucast (c :: u8) AND 0x3F)) :: u32) = (b :: u8)" (is "?l = b")
proof (rule byte_eqI)
  fix n assume "n < LENGTH(8)"
  from less_8_cases [OF this] show "bit ?l n = bit b n"
    using assms by (elim disjE; simp only: layout_bits) simp_all
qed

lemma lead_bits:
  "unat b div 2 ^ 5 = 6 \<Longrightarrow> bit b 7 \<and> bit b 6 \<and> \<not> bit (b :: u8) 5"
  "unat b div 2 ^ 4 = 14 \<Longrightarrow> bit b 7 \<and> bit b 6 \<and> bit b 5 \<and> \<not> bit (b :: u8) 4"
  "unat b div 2 ^ 3 = 30 \<Longrightarrow> bit b 7 \<and> bit b 6 \<and> bit b 5 \<and> bit b 4 \<and> \<not> bit (b :: u8) 3"
  "unat b div 2 ^ 6 = 2 \<Longrightarrow> bit b 7 \<and> \<not> bit (b :: u8) 6"
proof -
  have h: "bit b (k + n) = bit (of_nat w :: u8) n" if "unat b div 2 ^ k = w" "w < 256" for k n w
  proof -
    have "drop_bit k b = of_nat w" using that by (simp add: drop_bit_nat8 unat_of_nat_u8 del: of_nat_numeral)
    then show ?thesis by (rule drop_bit_bits)
  qed
  show "unat b div 2 ^ 5 = 6 \<Longrightarrow> bit b 7 \<and> bit b 6 \<and> \<not> bit (b :: u8) 5"
    using h [of 5 6 0] h [of 5 6 1] h [of 5 6 2] by (simp add: bit_small_u8)
  show "unat b div 2 ^ 4 = 14 \<Longrightarrow> bit b 7 \<and> bit b 6 \<and> bit b 5 \<and> \<not> bit (b :: u8) 4"
    using h [of 4 14 0] h [of 4 14 1] h [of 4 14 2] h [of 4 14 3] by (simp add: bit_small_u8)
  show "unat b div 2 ^ 3 = 30 \<Longrightarrow> bit b 7 \<and> bit b 6 \<and> bit b 5 \<and> bit b 4 \<and> \<not> bit (b :: u8) 3"
    using h [of 3 30 0] h [of 3 30 1] h [of 3 30 2] h [of 3 30 3] h [of 3 30 4] by (simp add: bit_small_u8)
  show "unat b div 2 ^ 6 = 2 \<Longrightarrow> bit b 7 \<and> \<not> bit (b :: u8) 6"
    using h [of 6 2 0] h [of 6 2 1] by (simp add: bit_small_u8)
qed


lemma lead3_rebuild:
  assumes "bit b 7" "bit b 6" "bit b 5" "\<not> bit b 4"
  shows "ucast (0xE0 OR drop_bit 12 (push_bit 12 (ucast b AND 0x0F) OR push_bit 6 (ucast (c :: u8) AND 0x3F) OR (ucast (d :: u8) AND 0x3F)) :: u32) = (b :: u8)" (is "?l = b")
proof (rule byte_eqI)
  fix n assume "n < LENGTH(8)"
  from less_8_cases [OF this] show "bit ?l n = bit b n"
    using assms by (elim disjE; simp only: layout_bits) simp_all
qed

lemma lead4_rebuild:
  assumes "bit b 7" "bit b 6" "bit b 5" "bit b 4" "\<not> bit b 3"
  shows "ucast (0xF0 OR drop_bit 18 (push_bit 18 (ucast b AND 0x07) OR push_bit 12 (ucast (c :: u8) AND 0x3F) OR push_bit 6 (ucast (d :: u8) AND 0x3F) OR (ucast (e :: u8) AND 0x3F)) :: u32) = (b :: u8)" (is "?l = b")
proof (rule byte_eqI)
  fix n assume "n < LENGTH(8)"
  from less_8_cases [OF this] show "bit ?l n = bit b n"
    using assms by (elim disjE; simp only: layout_bits) simp_all
qed

lemma cont_fields:
  "(push_bit 6 y OR (ucast (c :: u8) AND 0x3F)) AND (0x3F :: u32) = ucast c AND 0x3F"
  "drop_bit 6 (push_bit 12 y OR push_bit 6 (ucast c AND 0x3F) OR (ucast (d :: u8) AND 0x3F)) AND (0x3F :: u32) = ucast c AND 0x3F"
  "drop_bit 12 (push_bit 18 y OR push_bit 12 (ucast c AND 0x3F) OR push_bit 6 (ucast d AND 0x3F) OR (ucast (e :: u8) AND 0x3F)) AND (0x3F :: u32) = ucast c AND 0x3F"
  by (rule bit_word_eqI; simp only: layout_bits; auto)+

lemma bits_bound: "(\<And>n. bit x n \<Longrightarrow> n < k) \<Longrightarrow> unat (x :: u32) < 2 ^ k"
proof -
  assume "\<And>n. bit x n \<Longrightarrow> n < k"
  then have "take_bit k x = x" by (auto intro!: bit_word_eqI simp: bit_take_bit_iff)
  then have "unat x = take_bit k (unat x)" by (metis unsigned_take_bit_eq)
  then show ?thesis by (metis take_bit_nat_less_exp)
qed

lemma value_bounds:
  "unat (push_bit 6 (ucast (b :: u8) AND 0x1F) OR (ucast (c :: u8) AND 0x3F) :: u32) < 2 ^ 11"
  "unat (push_bit 12 (ucast b AND 0x0F) OR push_bit 6 (ucast (c :: u8) AND 0x3F) OR (ucast (d :: u8) AND 0x3F) :: u32) < 2 ^ 16"
  by (rule bits_bound; simp only: layout_bits; auto)+

fun utf8_lax :: "u8 list \<Rightarrow> u32 \<Rightarrow> bool" where
  "utf8_lax [b, c] x =
     (0x80 \<le> b \<and> b < 0xC0 \<and> is_cont c \<and> 0x80 \<le> x \<and> push_bit 6 (ucast b AND 0x1F) OR (ucast c AND 0x3F) = x)"
| "utf8_lax _ x = False"

lemma utf8_laxE:
  assumes "utf8_lax ys x"
  obtains b c where "ys = [b, c]" "0x80 \<le> b" "b < 0xC0" "is_cont c" "0x80 \<le> x"
    "push_bit 6 (ucast b AND 0x1F) OR (ucast c AND 0x3F) = x"
  using assms by (cases "(ys, x)" rule: utf8_lax.cases) (simp_all only: utf8_lax.simps prod.inject simp_thms)

definition utf8_accepts :: "u8 list \<Rightarrow> u32 \<Rightarrow> bool" where
  "utf8_accepts ys x \<longleftrightarrow> scalar_value x \<and> ys = utf8_bytes x \<or> utf8_lax ys x"

lemma accepts_scalar: "utf8_accepts ys x \<Longrightarrow> scalar_value x"
proof -
  have "unat x < 2 ^ 11 \<Longrightarrow> scalar_value x" for x by (simp add: scalar_value_def word_less_nat_alt)
  then show "utf8_accepts ys x \<Longrightarrow> scalar_value x"
    using value_bounds(1) by (auto simp: utf8_accepts_def elim!: utf8_laxE)
qed

lemma accepts_1: "b \<le> 0x7F \<Longrightarrow> utf8_accepts [b] (ucast b)"
proof -
  assume h: "b \<le> 0x7F"
  have "unat b < 256" using unsigned_less [of b] by simp
  then have "unat (ucast b :: u32) = unat b" by (simp add: unsigned_ucast_eq take_bit_nat_eq_self)
  moreover have "ucast (ucast b :: u32) = b"
    by (rule byte_eqI) (auto simp: bit_unsigned_iff)
  ultimately show ?thesis using h
    by (simp add: utf8_accepts_def utf8_bytes_def scalar_value_def word_le_nat_alt word_less_nat_alt)
qed

lemma accepts_2:
  assumes "0x7F < b" "b \<le> 0xDF" "is_cont c"
    and x: "x = push_bit 6 (ucast b AND 0x1F) OR (ucast c AND 0x3F)" and "\<not> x \<le> 0x7F"
  shows "utf8_accepts [b, c] x"
proof (cases "b < 0xC0")
  case True
  then show ?thesis using assms by (simp add: utf8_accepts_def word_le_nat_alt word_less_nat_alt)
next
  case False
  then have "unat b div 2 ^ 5 = 6" using assms(2) by (simp add: word_le_nat_alt word_less_nat_alt)
  note lead = lead_bits(1) [OF this]
  have "ucast (0xC0 OR drop_bit 6 x) = b" unfolding x by (rule lead2_rebuild) (use lead in auto)
  moreover have "ucast (0x80 OR (x AND 0x3F)) = c" using cont_fields(1) cont_rebuild [OF assms(3)] by (simp only: x)
  moreover have "unat x < 2 ^ 11" using value_bounds(1) [of b c] by (simp only: x)
  ultimately show ?thesis using assms(5)
    by (simp add: utf8_accepts_def utf8_bytes_def scalar_value_def word_le_nat_alt word_less_nat_alt)
qed

lemma accepts_3:
  assumes "0xDF < b" "b \<le> 0xEF" "is_cont c" "is_cont d"
    and x: "x = push_bit 12 (ucast b AND 0x0F) OR push_bit 6 (ucast c AND 0x3F) OR (ucast d AND 0x3F)"
    and "\<not> x \<le> 0x7FF" "\<not> (0xD800 \<le> x \<and> x \<le> 0xDFFF)"
  shows "utf8_accepts [b, c, d] x"
proof -
  have "unat b div 2 ^ 4 = 14" using assms(1,2) by (simp add: word_le_nat_alt word_less_nat_alt)
  note lead = lead_bits(2) [OF this]
  have y: "x = push_bit 6 (push_bit 6 (ucast b AND 0x0F) OR (ucast c AND 0x3F)) OR (ucast d AND 0x3F)"
    by (rule bit_word_eqI; simp only: x layout_bits; auto)
  have "ucast (0xE0 OR drop_bit 12 x) = b" unfolding x by (rule lead3_rebuild) (use lead in auto)
  moreover have "ucast (0x80 OR (drop_bit 6 x AND 0x3F)) = c"
    using cont_fields(2) cont_rebuild [OF assms(3)] by (simp only: x)
  moreover have "ucast (0x80 OR (x AND 0x3F)) = d" using cont_fields(1) cont_rebuild [OF assms(4)] by (simp only: y)
  moreover have "unat x < 2 ^ 16" using value_bounds(2) [of b c d] by (simp only: x)
  ultimately show ?thesis using assms(6,7)
    by (simp add: utf8_accepts_def utf8_bytes_def scalar_value_def word_le_nat_alt word_less_nat_alt) linarith
qed

lemma accepts_4:
  assumes "0xEF < b" "b \<le> 0xF4" "is_cont c" "is_cont d" "is_cont e"
    and x: "x = push_bit 18 (ucast b AND 0x07) OR push_bit 12 (ucast c AND 0x3F) OR push_bit 6 (ucast d AND 0x3F) OR (ucast e AND 0x3F)"
    and "\<not> x \<le> 0xFFFF" "x \<le> 0x10FFFF"
  shows "utf8_accepts [b, c, d, e] x"
proof -
  have "unat b div 2 ^ 3 = 30" using assms(1,2) by (simp add: word_le_nat_alt word_less_nat_alt)
  note lead = lead_bits(3) [OF this]
  have y: "x = push_bit 6 (push_bit 12 (ucast b AND 0x07) OR push_bit 6 (ucast c AND 0x3F) OR (ucast d AND 0x3F)) OR (ucast e AND 0x3F)"
    "x = push_bit 12 (push_bit 6 (ucast b AND 0x07) OR (ucast c AND 0x3F)) OR push_bit 6 (ucast d AND 0x3F) OR (ucast e AND 0x3F)"
    by (rule bit_word_eqI; simp only: x layout_bits; auto)+
  have "ucast (0xF0 OR drop_bit 18 x) = b" unfolding x by (rule lead4_rebuild) (use lead in auto)
  moreover have "ucast (0x80 OR (drop_bit 12 x AND 0x3F)) = c"
    using cont_fields(3) cont_rebuild [OF assms(3)] by (simp only: x)
  moreover have "ucast (0x80 OR (drop_bit 6 x AND 0x3F)) = d"
    using cont_fields(2) cont_rebuild [OF assms(4)] by (simp only: y(2))
  moreover have "ucast (0x80 OR (x AND 0x3F)) = e" using cont_fields(1) cont_rebuild [OF assms(5)] by (simp only: y(1))
  ultimately show ?thesis using assms(7,8)
    by (simp add: utf8_accepts_def utf8_bytes_def scalar_value_def word_le_nat_alt word_less_nat_alt)
qed

inductive utf8_pending :: "u8 list \<Rightarrow> u8 \<Rightarrow> u32 \<Rightarrow> bool" where
  none: "utf8_pending [] DecStart acc"
| two: "0x7F < b \<Longrightarrow> b \<le> 0xDF \<Longrightarrow> utf8_pending [b] Dec2B2 (push_bit 6 (ucast b AND 0x1F))"
| three: "0xDF < b \<Longrightarrow> b \<le> 0xEF \<Longrightarrow> utf8_pending [b] Dec3B2 (push_bit 12 (ucast b AND 0x0F))"
| three': "0xDF < b \<Longrightarrow> b \<le> 0xEF \<Longrightarrow> is_cont c \<Longrightarrow>
    utf8_pending [b, c] Dec3B3 (push_bit 12 (ucast b AND 0x0F) OR push_bit 6 (ucast c AND 0x3F))"
| four: "0xEF < b \<Longrightarrow> b \<le> 0xF4 \<Longrightarrow> utf8_pending [b] Dec4B2 (push_bit 18 (ucast b AND 0x07))"
| four': "0xEF < b \<Longrightarrow> b \<le> 0xF4 \<Longrightarrow> is_cont c \<Longrightarrow>
    utf8_pending [b, c] Dec4B3 (push_bit 18 (ucast b AND 0x07) OR push_bit 12 (ucast c AND 0x3F))"
| four'': "0xEF < b \<Longrightarrow> b \<le> 0xF4 \<Longrightarrow> is_cont c \<Longrightarrow> is_cont d \<Longrightarrow>
    utf8_pending [b, c, d] Dec4B4
      (push_bit 18 (ucast b AND 0x07) OR push_bit 12 (ucast c AND 0x3F) OR push_bit 6 (ucast d AND 0x3F))"

lemma dec_switch_pending:
  assumes "utf8_pending p st acc"
  shows "\<exists>r. dec_switch st acc c = Some r \<and>
    (case r of Reject \<Rightarrow> True | Accum st' acc' \<Rightarrow> utf8_pending (p @ [c]) st' acc' | Char x \<Rightarrow> utf8_accepts (p @ [c]) x)"
  using assms
proof cases
  case none
  then show ?thesis
    by (auto simp: dec_switch_def dec_start_def not_le simp del: push_bit_and
      intro: utf8_pending.intros accepts_1)
next
  case (two b)
  then show ?thesis using accepts_2 [of b c] by (auto simp: dec_switch_def Let_def dec_states not_le or.assoc)
next
  case (three b)
  then show ?thesis using utf8_pending.three' [of b c] by (auto simp: dec_switch_def dec_states or.assoc)
next
  case (three' b d)
  then show ?thesis using accepts_3 [of b d c] by (auto simp: dec_switch_def Let_def dec_states not_le or.assoc)
next
  case (four b)
  then show ?thesis using utf8_pending.four' [of b c] by (auto simp: dec_switch_def dec_states or.assoc)
next
  case (four' b d)
  then show ?thesis using utf8_pending.four'' [of b d c] by (auto simp: dec_switch_def dec_states or.assoc)
next
  case (four'' b d e)
  then show ?thesis using accepts_4 [of b d e c] by (auto simp: dec_switch_def Let_def dec_states not_le or.assoc)
qed


text \<open>
  What a run of the decoder does: \<open>chunks\<close> are the bytes and the character of each unit put out,
  \<open>p\<close> the bytes of a character cut by an earlier call, \<open>p'\<close> those of one cut by this call.
\<close>

definition dec_post ::
  "u8 list \<Rightarrow> u32 list \<Rightarrow> mbstate \<Rightarrow> (u8, u32) conv \<Rightarrow> (u8 list \<times> u32) list \<Rightarrow> u8 list \<Rightarrow>
   bool \<Rightarrow> (u8, u32) conv \<Rightarrow> mbstate \<Rightarrow> bool" where
  "dec_post p out ps c chunks p' r c' ps' \<longleftrightarrow>
     utf8_pending p' (conv_state ps') (accum ps') \<and> list_all (\<lambda>(ys, x). utf8_accepts ys x) chunks \<and>
     outbuf c' = Out (out @ map snd chunks) \<and> outsz c = outsz c' + length chunks \<and>
     p @ inbuf c = concat (map fst chunks) @ p' @ inbuf c' \<and>
     length (inbuf c) - insz c = length (inbuf c') - insz c' \<and> insz c' \<le> length (inbuf c') \<and>
     (r \<longrightarrow> outsz c' = 0 \<or> insz c' = 0) \<and>
     ps' = ps\<lparr>conv_state := conv_state ps', accum := accum ps'\<rparr>"

lemma utf8toc32_run:
  assumes "utf8_pending p (conv_state ps) (accum ps)" "insz c \<le> length (inbuf c)" "outbuf c = Out out"
  shows "\<exists>r c' ps' chunks p'. utf8toc32 ps c = Some (r, c', ps') \<and> dec_post p out ps c chunks p' r c' ps'"
  using assms
proof (induction ps c arbitrary: p out rule: utf8toc32.induct)
  case (1 ps c)
  have stop: ?case if "utf8toc32 ps c = Some (r, c, ps)" "r \<longrightarrow> outsz c = 0 \<or> insz c = 0" for r
    using that 1(3-5)
    by (intro exI [of _ r] exI [of _ c] exI [of _ ps] exI [of _ "[]"] exI [of _ p]) (auto simp: dec_post_def)
  show ?case
  proof (cases "outsz c \<noteq> 0 \<and> insz c \<noteq> 0")
    case False
    then show ?thesis by (intro stop [of True], subst utf8toc32.simps) auto
  next
    case True
    then obtain b rest where i: "inbuf c = b # rest" using 1(4) by (cases "inbuf c") auto
    obtain r where r: "dec_switch (conv_state ps) (accum ps) b = Some r"
      and post: "case r of Reject \<Rightarrow> True | Accum st' acc' \<Rightarrow> utf8_pending (p @ [b]) st' acc' | Char x \<Rightarrow> utf8_accepts (p @ [b]) x"
      using dec_switch_pending [OF 1(3)] by metis
    show ?thesis
    proof (cases r)
      case Reject
      then show ?thesis using True i r by (intro stop [of False], subst utf8toc32.simps) auto
    next
      case (Accum st acc)
      let ?ps = "ps\<lparr>conv_state := st, accum := acc\<rparr>" and ?c = "c\<lparr>inbuf := rest, insz := insz c - 1\<rparr>"
      have e: "utf8toc32 ps c = utf8toc32 ?ps ?c"
        using True i r Accum by (subst utf8toc32.simps) simp
      have "\<exists>r c' ps' chunks p'. utf8toc32 ?ps ?c = Some (r, c', ps') \<and> dec_post (p @ [b]) out ?ps ?c chunks p' r c' ps'"
        by (rule 1(1) [OF True i r Accum]) (use 1(4,5) post i Accum in auto)
      moreover have "dec_post p out ps c chunks p' r c' ps'" if "dec_post (p @ [b]) out ?ps ?c chunks p' r c' ps'" for r c' ps' chunks p'
        using that True i 1(4) by (auto simp: dec_post_def)
      ultimately show ?thesis unfolding e by blast
    next
      case (Char x)
      let ?ps = "ps\<lparr>conv_state := DecStart\<rparr>" and ?c = "advance rest (Out (out @ [x])) c"
      have e: "utf8toc32 ps c = utf8toc32 ?ps ?c"
        using True i r Char 1(5) by (subst utf8toc32.simps) simp
      have "\<exists>r c' ps' chunks p'. utf8toc32 ?ps ?c = Some (r, c', ps') \<and> dec_post [] (out @ [x]) ?ps ?c chunks p' r c' ps'"
        by (rule 1(2) [OF True i r Char, of "Out (out @ [x])"]) (use 1(4,5) i in \<open>auto intro: utf8_pending.none\<close>)
      moreover have "dec_post p out ps c ((p @ [b], x) # chunks) p' r c' ps'" if "dec_post [] (out @ [x]) ?ps ?c chunks p' r c' ps'" for r c' ps' chunks p'
        using that True i 1(4) post Char by (auto simp: dec_post_def)
      ultimately show ?thesis unfolding e by blast
    qed
  qed
qed
section \<open>Encoder and decoder\<close>

lemma unat_ucast_down: "unat (x :: u32) < 256 \<Longrightarrow> unat (ucast x :: u8) = unat x"
  by (simp only: unsigned_ucast_eq) (simp add: take_bit_nat_eq_self del: unsigned_take_bit_eq)

lemma drop_bit_eqI: "(\<And>n. n < 8 \<Longrightarrow> bit b (k + n) = bit w n) \<Longrightarrow> drop_bit k (b :: u8) = w"
  by (rule byte_eqI) (simp add: bit_drop_bit_eq)

lemma lead_ranges:
  "bit b 7 \<Longrightarrow> bit b 6 \<Longrightarrow> \<not> bit b 5 \<Longrightarrow> 0x7F < b \<and> b \<le> (0xDF :: u8)"
  "bit b 7 \<Longrightarrow> bit b 6 \<Longrightarrow> bit b 5 \<Longrightarrow> \<not> bit b 4 \<Longrightarrow> 0xDF < b \<and> b \<le> (0xEF :: u8)"
  "bit b 7 \<Longrightarrow> bit b 6 \<Longrightarrow> bit b 5 \<Longrightarrow> bit b 4 \<Longrightarrow> \<not> bit b 3 \<Longrightarrow> 0xEF < b \<and> b \<le> (0xF7 :: u8)"
proof -
  have beyond: "\<not> bit b n" if "8 \<le> n" for n using bit_imp_le_length [of b n] that by auto
  have big: "n = 0 \<or> n = 1 \<or> n = 2 \<or> n = 3 \<or> n = 4 \<or> 5 \<le> n" for n :: nat by presburger
  show "0x7F < b \<and> b \<le> (0xDF :: u8)" if h: "bit b 7" "bit b 6" "\<not> bit b 5"
  proof -
    have "drop_bit 5 b = 6"
    proof (rule drop_bit_eqI)
      fix n show "bit b (5 + n) = bit (6 :: u8) n"
        using big [of n] h beyond [of "5 + n"] by (elim disjE; simp only: bit_small_u8; simp)
    qed
    then show ?thesis by (simp add: drop_bit_nat8 word_le_nat_alt word_less_nat_alt; presburger)
  qed
  show "0xDF < b \<and> b \<le> (0xEF :: u8)" if h: "bit b 7" "bit b 6" "bit b 5" "\<not> bit b 4"
  proof -
    have "drop_bit 4 b = 14"
    proof (rule drop_bit_eqI)
      fix n show "bit b (4 + n) = bit (14 :: u8) n"
        using big [of n] h beyond [of "4 + n"] by (elim disjE; simp only: bit_small_u8; simp)
    qed
    then show ?thesis by (simp add: drop_bit_nat8 word_le_nat_alt word_less_nat_alt; presburger)
  qed
  show "0xEF < b \<and> b \<le> (0xF7 :: u8)" if h: "bit b 7" "bit b 6" "bit b 5" "bit b 4" "\<not> bit b 3"
  proof -
    have "drop_bit 3 b = 30"
    proof (rule drop_bit_eqI)
      fix n show "bit b (3 + n) = bit (30 :: u8) n"
        using big [of n] h beyond [of "3 + n"] by (elim disjE; simp only: bit_small_u8; simp)
    qed
    then show ?thesis by (simp add: drop_bit_nat8 word_le_nat_alt word_less_nat_alt; presburger)
  qed
qed

lemma lead_of_value:
  "(x :: u32) \<le> 0x7FF \<Longrightarrow> 0x7F < (ucast (0xC0 OR drop_bit 6 x) :: u8) \<and> (ucast (0xC0 OR drop_bit 6 x) :: u8) \<le> 0xDF"
  "x \<le> 0xFFFF \<Longrightarrow> 0xDF < (ucast (0xE0 OR drop_bit 12 x) :: u8) \<and> (ucast (0xE0 OR drop_bit 12 x) :: u8) \<le> 0xEF"
proof -
  show "0x7F < (ucast (0xC0 OR drop_bit 6 x) :: u8) \<and> (ucast (0xC0 OR drop_bit 6 x) :: u8) \<le> 0xDF" if "x \<le> 0x7FF"
    using u32_small_bits [of x 11 11] that by (intro lead_ranges; simp only: layout_bits; auto simp: word_le_nat_alt)
  show "0xDF < (ucast (0xE0 OR drop_bit 12 x) :: u8) \<and> (ucast (0xE0 OR drop_bit 12 x) :: u8) \<le> 0xEF" if "x \<le> 0xFFFF"
    using u32_small_bits [of x 16 16] that by (intro lead_ranges; simp only: layout_bits; auto simp: word_le_nat_alt)
qed

lemma lead4_of_value:
  assumes "(x :: u32) \<le> 0x10FFFF"
  shows "0xEF < (ucast (0xF0 OR drop_bit 18 x) :: u8) \<and> (ucast (0xF0 OR drop_bit 18 x) :: u8) \<le> 0xF4"
proof -
  let ?b = "ucast (0xF0 OR drop_bit 18 x) :: u8"
  have r: "0xEF < ?b \<and> ?b \<le> 0xF7"
    using u32_small_bits [of x 21 21] assms by (intro lead_ranges; simp only: layout_bits; auto simp: word_le_nat_alt)
  have e: "ucast ?b AND (0x07 :: u32) = drop_bit 18 x"
    using u32_small_bits [of x 21] assms
    by (intro bit_word_eqI; simp only: layout_bits; force simp: word_le_nat_alt)
  have "unat x div 2 ^ 18 \<le> 4" using assms by (simp add: word_le_nat_alt)
  then have "unat (drop_bit 18 x) \<le> 4" by (simp only: unat_drop_bit_eq) (simp only: drop_bit_eq_div)
  moreover have "unat (ucast ?b AND (0x07 :: u32)) = unat ?b mod 8"
  proof -
    have "(0x07 :: u32) = mask 3" by (simp add: mask_eq_exp_minus_1)
    then have "unat (ucast ?b AND (0x07 :: u32)) = take_bit 3 (unat (ucast ?b :: u32))"
      by (simp only: take_bit_eq_mask [symmetric] unsigned_take_bit_eq)
    then show ?thesis by (simp only: unat_ucast_up) (simp add: take_bit_eq_mod)
  qed
  ultimately have "unat ?b mod 8 \<le> 4" using e by simp
  then show ?thesis using r by (simp only: word_le_nat_alt word_less_nat_alt; simp; presburger)
qed

lemma utf8toc32_more:
  assumes "outsz c \<noteq> 0" "inbuf c = b # rest" "insz c \<noteq> 0" "dec_switch (conv_state ps) (accum ps) b = Some (Accum st acc)"
  shows "utf8toc32 ps c = utf8toc32 (ps\<lparr>conv_state := st, accum := acc\<rparr>) (c\<lparr>inbuf := rest, insz := insz c - 1\<rparr>)"
  using assms by (subst utf8toc32.simps) simp

lemma utf8toc32_char:
  assumes "outsz c \<noteq> 0" "inbuf c = b # rest" "insz c \<noteq> 0" "dec_switch (conv_state ps) (accum ps) b = Some (Char x)"
    "outbuf c = Out out"
  shows "utf8toc32 ps c = utf8toc32 (ps\<lparr>conv_state := DecStart\<rparr>) (advance rest (Out (out @ [x])) c)"
  using assms by (subst utf8toc32.simps) simp

lemma dec_conts:
  "is_cont b \<Longrightarrow> dec_switch Dec3B2 acc b = Some (Accum Dec3B3 (acc OR push_bit 6 (ucast b AND 0x3F)))"
  "is_cont b \<Longrightarrow> dec_switch Dec4B2 acc b = Some (Accum Dec4B3 (acc OR push_bit 12 (ucast b AND 0x3F)))"
  "is_cont b \<Longrightarrow> dec_switch Dec4B3 acc b = Some (Accum Dec4B4 (acc OR push_bit 6 (ucast b AND 0x3F)))"
  by (simp_all add: dec_switch_def dec_states)

lemma dec_lasts:
  "is_cont b \<Longrightarrow> acc OR (ucast b AND 0x3F) = x \<Longrightarrow> 0x7F < x \<Longrightarrow> dec_switch Dec2B2 acc b = Some (Char x)"
  "is_cont b \<Longrightarrow> acc OR (ucast b AND 0x3F) = x \<Longrightarrow> 0x7FF < x \<Longrightarrow> scalar_value x \<Longrightarrow>
   dec_switch Dec3B3 acc b = Some (Char x)"
  "is_cont b \<Longrightarrow> acc OR (ucast b AND 0x3F) = x \<Longrightarrow> 0xFFFF < x \<Longrightarrow> scalar_value x \<Longrightarrow>
   dec_switch Dec4B4 acc b = Some (Char x)"
  by (auto simp: dec_switch_def dec_states Let_def scalar_value_def word_le_nat_alt word_less_nat_alt)

lemma dec_starts:
  "b \<le> 0x7F \<Longrightarrow> dec_switch DecStart acc b = Some (Char (ucast b))"
  "0x7F < b \<and> b \<le> 0xDF \<Longrightarrow> dec_switch DecStart acc b = Some (Accum Dec2B2 (push_bit 6 (ucast b AND 0x1F)))"
  "0xDF < b \<and> b \<le> 0xEF \<Longrightarrow> dec_switch DecStart acc b = Some (Accum Dec3B2 (push_bit 12 (ucast b AND 0x0F)))"
  "0xEF < b \<and> b \<le> 0xF4 \<Longrightarrow> dec_switch DecStart acc b = Some (Accum Dec4B2 (push_bit 18 (ucast b AND 0x07)))"
  by (auto simp: dec_switch_def dec_start_def word_le_nat_alt word_less_nat_alt simp del: push_bit_and)

lemma utf8_decode_one:
  assumes "scalar_value x" "conv_state ps = DecStart" "outbuf c = Out out" "outsz c \<noteq> 0"
    "inbuf c = utf8_bytes x @ r" "insz c = length (utf8_bytes x) + k"
  shows "\<exists>acc. utf8toc32 ps c =
    utf8toc32 (ps\<lparr>accum := acc\<rparr>) (c\<lparr>inbuf := r, insz := k, outbuf := Out (out @ [x]), outsz := outsz c - 1\<rparr>)"
proof -
  have ps: "ps\<lparr>conv_state := DecStart\<rparr> = ps" using assms(2) by simp
  have ps2: "ps\<lparr>accum := a, conv_state := DecStart\<rparr> = ps\<lparr>accum := a\<rparr>" for a using assms(2) by (cases ps) simp
  consider "x \<le> 0x7F" | "0x7F < x" "x \<le> 0x7FF" | "0x7FF < x" "x \<le> 0xFFFF" | "0xFFFF < x" "x \<le> 0x10FFFF"
    using assms(1) by (auto simp: scalar_value_def word_le_nat_alt word_less_nat_alt) linarith+
  then show ?thesis
  proof cases
    case 1
    have u: "unat (ucast x :: u8) = unat x" using 1 by (intro unat_ucast_down) (simp add: word_le_nat_alt)
    have b: "(ucast x :: u8) \<le> 0x7F" using 1 u by (simp add: word_le_nat_alt)
    have b': "ucast (ucast x :: u8) = x" by (simp only: word_unat_eq_iff unat_ucast_up u)
    have i: "inbuf c = ucast x # r" "insz c = Suc k" using assms(5,6) 1 by (simp_all add: utf8_bytes_def)
    have "utf8toc32 ps c = utf8toc32 (ps\<lparr>conv_state := DecStart\<rparr>) (advance r (Out (out @ [x])) c)"
      using dec_starts(1) [OF b] b' assms(2-4) i by (intro utf8toc32_char) simp_all
    then show ?thesis unfolding ps
      by (intro exI [of _ "accum ps"]) (simp add: advance_def i(2))
  next
    case 2
    let ?b = "ucast (0xC0 OR drop_bit 6 x) :: u8" and ?e = "ucast (0x80 OR (x AND 0x3F)) :: u8"
    let ?a1 = "push_bit 6 (ucast ?b AND 0x1F) :: u32"
    have i: "inbuf c = ?b # ?e # r" "insz c = Suc (Suc k)"
      using assms(5,6) 2 by (simp_all add: utf8_bytes_def not_le)
    have "utf8toc32 ps c =
        utf8toc32 (ps\<lparr>conv_state := Dec2B2, accum := ?a1\<rparr>) (c\<lparr>inbuf := ?e # r, insz := Suc k\<rparr>)"
      using utf8toc32_more [OF assms(4) i(1)] dec_starts(2) lead_of_value(1) [OF 2(2)] assms(2) i(2) by simp
    also have "\<dots> = utf8toc32 (ps\<lparr>accum := ?a1, conv_state := DecStart\<rparr>)
        (c\<lparr>inbuf := r, insz := k, outbuf := Out (out @ [x]), outsz := outsz c - 1\<rparr>)"
    proof -
      have "dec_switch Dec2B2 ?a1 ?e = Some (Char x)"
        by (rule dec_lasts(1)) (use is_cont_cont two_bytes [OF 2(2)] 2 in \<open>simp_all only: cont_bits\<close>)
      then show ?thesis
        by (subst utf8toc32_char) (use assms(3,4) in \<open>auto simp: advance_def\<close>)
    qed
    finally show ?thesis unfolding ps2 by blast
  next
    case 3
    let ?b = "ucast (0xE0 OR drop_bit 12 x) :: u8" and ?d = "ucast (0x80 OR (drop_bit 6 x AND 0x3F)) :: u8"
      and ?e = "ucast (0x80 OR (x AND 0x3F)) :: u8"
    let ?a1 = "push_bit 12 (ucast ?b AND 0x0F) :: u32"
    let ?a2 = "?a1 OR push_bit 6 (ucast ?d AND 0x3F)"
    have i: "inbuf c = ?b # ?d # ?e # r" "insz c = Suc (Suc (Suc k))"
      using assms(5,6) 3 by (auto simp: utf8_bytes_def word_le_nat_alt word_less_nat_alt)
    have "utf8toc32 ps c =
        utf8toc32 (ps\<lparr>conv_state := Dec3B2, accum := ?a1\<rparr>) (c\<lparr>inbuf := ?d # ?e # r, insz := Suc (Suc k)\<rparr>)"
      using utf8toc32_more [OF assms(4) i(1)] dec_starts(3) lead_of_value(2) [OF 3(2)] assms(2) i(2) by simp
    also have "\<dots> = utf8toc32 (ps\<lparr>conv_state := Dec3B3, accum := ?a2\<rparr>) (c\<lparr>inbuf := ?e # r, insz := Suc k\<rparr>)"
      using utf8toc32_more dec_conts(1) is_cont_cont assms(4) by simp
    also have "\<dots> = utf8toc32 (ps\<lparr>accum := ?a2, conv_state := DecStart\<rparr>)
        (c\<lparr>inbuf := r, insz := k, outbuf := Out (out @ [x]), outsz := outsz c - 1\<rparr>)"
    proof -
      have "?a2 OR (ucast ?e AND 0x3F) = x" using three_bytes [OF 3(2)] by (simp only: cont_bits or.assoc)
      then have "dec_switch Dec3B3 ?a2 ?e = Some (Char x)"
        by (rule dec_lasts(2) [OF is_cont_cont]) (use 3 assms(1) in simp_all)
      then show ?thesis
        by (subst utf8toc32_char) (use assms(3,4) in \<open>auto simp: advance_def\<close>)
    qed
    finally show ?thesis unfolding ps2 by blast
  next
    case 4
    let ?b = "ucast (0xF0 OR drop_bit 18 x) :: u8" and ?c = "ucast (0x80 OR (drop_bit 12 x AND 0x3F)) :: u8"
      and ?d = "ucast (0x80 OR (drop_bit 6 x AND 0x3F)) :: u8" and ?e = "ucast (0x80 OR (x AND 0x3F)) :: u8"
    let ?a1 = "push_bit 18 (ucast ?b AND 0x07) :: u32"
    let ?a2 = "?a1 OR push_bit 12 (ucast ?c AND 0x3F)"
    let ?a3 = "?a2 OR push_bit 6 (ucast ?d AND 0x3F)"
    have i: "inbuf c = ?b # ?c # ?d # ?e # r" "insz c = Suc (Suc (Suc (Suc k)))"
      using assms(5,6) 4 by (auto simp: utf8_bytes_def word_le_nat_alt word_less_nat_alt)
    have "utf8toc32 ps c = utf8toc32 (ps\<lparr>conv_state := Dec4B2, accum := ?a1\<rparr>)
        (c\<lparr>inbuf := ?c # ?d # ?e # r, insz := Suc (Suc (Suc k))\<rparr>)"
      using utf8toc32_more [OF assms(4) i(1)] dec_starts(4) lead4_of_value [OF 4(2)] assms(2) i(2) by simp
    also have "\<dots> = utf8toc32 (ps\<lparr>conv_state := Dec4B3, accum := ?a2\<rparr>)
        (c\<lparr>inbuf := ?d # ?e # r, insz := Suc (Suc k)\<rparr>)"
      using utf8toc32_more dec_conts(2) is_cont_cont assms(4) by simp
    also have "\<dots> = utf8toc32 (ps\<lparr>conv_state := Dec4B4, accum := ?a3\<rparr>) (c\<lparr>inbuf := ?e # r, insz := Suc k\<rparr>)"
      using utf8toc32_more dec_conts(3) is_cont_cont assms(4) by simp
    also have "\<dots> = utf8toc32 (ps\<lparr>accum := ?a3, conv_state := DecStart\<rparr>)
        (c\<lparr>inbuf := r, insz := k, outbuf := Out (out @ [x]), outsz := outsz c - 1\<rparr>)"
    proof -
      have "?a3 OR (ucast ?e AND 0x3F) = x" using four_bytes [OF 4(2)] by (simp only: cont_bits or.assoc)
      then have "dec_switch Dec4B4 ?a3 ?e = Some (Char x)"
        by (rule dec_lasts(3) [OF is_cont_cont]) (use 4 assms(1) in simp_all)
      then show ?thesis
        by (subst utf8toc32_char) (use assms(3,4) in \<open>auto simp: advance_def\<close>)
    qed
    finally show ?thesis unfolding ps2 by blast
  qed
qed

lemma c32toutf8_next:
  assumes "outsz c \<noteq> 0" "conv_state ps \<noteq> EncStart" "enc_rest (conv_state ps) (accum ps) = Some (b, st)"
    "outbuf c = Out out"
  shows "c32toutf8 ps c = c32toutf8 (ps\<lparr>conv_state := st\<rparr>) (c\<lparr>outbuf := Out (out @ [b]), outsz := outsz c - 1\<rparr>)"
  using assms by (subst c32toutf8.simps) simp

lemma c32toutf8_first:
  assumes "outsz c \<noteq> 0" "conv_state ps = EncStart" "insz c \<noteq> 0" "inbuf c = x # r" "enc_first x = Some (b, st)"
    "outbuf c = Out out"
  shows "c32toutf8 ps c = c32toutf8 (ps\<lparr>accum := x, conv_state := st\<rparr>)
    (c\<lparr>inbuf := r, insz := insz c - 1, outbuf := Out (out @ [b]), outsz := outsz c - 1\<rparr>)"
  using assms by (subst c32toutf8.simps) (simp add: Let_def)

lemma enc_rests:
  "enc_rest Enc3R acc = Some (ucast (0x80 OR (drop_bit 12 acc AND 0x3F)), Enc2R)"
  "enc_rest Enc2R acc = Some (ucast (0x80 OR (drop_bit 6 acc AND 0x3F)), Enc1R)"
  "enc_rest Enc1R acc = Some (ucast (0x80 OR (acc AND 0x3F)), EncStart)"
  by (simp_all add: enc_rest_def enc_states)

lemma enc_running: "Enc1R \<noteq> EncStart" "Enc2R \<noteq> EncStart" "Enc3R \<noteq> EncStart"
  by (simp_all add: enc_states)

lemma utf8_encode_one:
  assumes "x \<le> 0x10FFFF" "conv_state ps = EncStart" "outbuf c = Out out"
    "inbuf c = x # r" "insz c = Suc k" "length (utf8_bytes x) \<le> outsz c"
  shows "c32toutf8 ps c = c32toutf8 (ps\<lparr>accum := x\<rparr>)
    (c\<lparr>inbuf := r, insz := k, outbuf := Out (out @ utf8_bytes x), outsz := outsz c - length (utf8_bytes x)\<rparr>)"
proof -
  let ?s = "\<lambda>st. ps\<lparr>accum := x, conv_state := st\<rparr>"
  let ?c = "\<lambda>out n. c\<lparr>inbuf := r, insz := k, outbuf := Out out, outsz := n\<rparr>"
  have ps: "ps\<lparr>accum := x\<rparr> = ?s EncStart" using assms(2) by (cases ps) simp
  have first: "c32toutf8 ps c = c32toutf8 (?s st) (?c (out @ [b]) (outsz c - 1))"
    if "enc_first x = Some (b, st)" "outsz c \<noteq> 0" for b st
    using c32toutf8_first [OF that(2) assms(2) _ assms(4) that(1) assms(3)] assms(5) by simp
  have more: "c32toutf8 (?s st) (?c q n) = c32toutf8 (?s st') (?c (q @ [b]) (n - 1))"
    if "enc_rest st x = Some (b, st')" "n \<noteq> 0" "st \<noteq> EncStart" for q n st st' b
    using c32toutf8_next [of "?c q n" "?s st" b st' q] that by simp
  note more = more [OF enc_rests(1)] more [OF enc_rests(2)] more [OF enc_rests(3)]
  consider "x \<le> 0x7F" | "0x7F < x" "x \<le> 0x7FF" | "0x7FF < x" "x \<le> 0xFFFF" | "0xFFFF < x" "x \<le> 0x10FFFF"
    using assms(1) by fastforce
  then show ?thesis
  proof cases
    case 1
    then have u: "utf8_bytes x = [ucast x]" "enc_first x = Some (ucast x, EncStart)"
      by (simp_all add: utf8_bytes_def enc_first_def)
    show ?thesis using first [OF u(2)] assms(6) by (simp add: u ps [symmetric])
  next
    case 2
    then have u: "utf8_bytes x = [ucast (0xC0 OR drop_bit 6 x), ucast (0x80 OR (x AND 0x3F))]"
      "enc_first x = Some (ucast (0xC0 OR drop_bit 6 x), Enc1R)"
      by (auto simp: utf8_bytes_def enc_first_def word_le_nat_alt word_less_nat_alt)
    show ?thesis using first [OF u(2)] assms(6) by (simp add: u more enc_running ps [symmetric])
  next
    case 3
    then have u: "utf8_bytes x = [ucast (0xE0 OR drop_bit 12 x), ucast (0x80 OR (drop_bit 6 x AND 0x3F)), ucast (0x80 OR (x AND 0x3F))]"
      "enc_first x = Some (ucast (0xE0 OR drop_bit 12 x), Enc2R)"
      by (auto simp: utf8_bytes_def enc_first_def word_le_nat_alt word_less_nat_alt)
    show ?thesis using first [OF u(2)] assms(6) by (simp add: u more enc_running ps [symmetric])
  next
    case 4
    then have u: "utf8_bytes x = [ucast (0xF0 OR drop_bit 18 x), ucast (0x80 OR (drop_bit 12 x AND 0x3F)),
        ucast (0x80 OR (drop_bit 6 x AND 0x3F)), ucast (0x80 OR (x AND 0x3F))]"
      "enc_first x = Some (ucast (0xF0 OR drop_bit 18 x), Enc3R)"
      by (auto simp: utf8_bytes_def enc_first_def word_le_nat_alt word_less_nat_alt)
    show ?thesis using first [OF u(2)] assms(6) by (simp add: u more enc_running ps [symmetric])
  qed
qed

fun then_more :: "(bool \<times> ('i, 'o) conv \<times> mbstate) option \<Rightarrow> (('i, 'o) conv \<Rightarrow> ('i, 'o) conv) \<Rightarrow>
    ('i, 'o) converter \<Rightarrow> (bool \<times> ('i, 'o) conv \<times> mbstate) option" where
  "then_more None give f = None"
| "then_more (Some (False, c, ps)) give f = Some (False, give c, ps)"
| "then_more (Some (True, c, ps)) give f = f ps (give c)"


lemma c32toutf8_resume:
  "c32toutf8 ps (c\<lparr>outsz := outsz c + n\<rparr>) = then_more (c32toutf8 ps c) (\<lambda>d. d\<lparr>outsz := outsz d + n\<rparr>) c32toutf8"
proof (induction ps c rule: c32toutf8.induct)
  case (1 ps c)
  let ?g = "\<lambda>d. d\<lparr>outsz := outsz d + n\<rparr>"
  note unfold = c32toutf8.simps [of ps c] c32toutf8.simps [of ps "?g c"]
  consider (full) "outsz c = 0" | (start) "outsz c \<noteq> 0" "conv_state ps = EncStart"
    | (running) "outsz c \<noteq> 0" "conv_state ps \<noteq> EncStart" by blast
  then show ?case
  proof cases
    case full
    then show ?thesis by (simp add: unfold(1))
  next
    case running
    show ?thesis
    proof (cases "enc_rest (conv_state ps) (accum ps)")
      case None
      then show ?thesis using running by (simp add: unfold)
    next
      case (Some bs)
      obtain b st where bs: "(b, st) = bs" by (cases bs) auto
      then show ?thesis using running Some 1(2) [OF running(1,2) Some bs]
        by (cases "put_out b (outbuf c)") (simp_all add: unfold bs [symmetric])
    qed
  next
    case start
    show ?thesis
    proof (cases "insz c = 0 \<or> inbuf c = []")
      case True
      then show ?thesis using start by (cases "insz c = 0") (simp_all add: unfold)
    next
      case False
      then obtain x rest where i: "inbuf c = x # rest" "insz c \<noteq> 0" by (cases "inbuf c") auto
      show ?thesis
      proof (cases "enc_first x")
        case None
        then show ?thesis using start i by (simp add: unfold Let_def)
      next
        case (Some bs)
        obtain b st where bs: "(b, st) = bs" by (cases bs) auto
        then show ?thesis using start Some i 1(1) [OF start i(2,1) refl refl Some bs]
          by (cases "put_out b (outbuf c)") (simp_all add: unfold Let_def bs [symmetric])
      qed
    qed
  qed
qed

lemma conv_order:
  "c\<lparr>inbuf := r, outbuf := q, outsz := k, insz := n\<rparr> = c\<lparr>inbuf := r, insz := n, outbuf := q, outsz := k\<rparr>"
  by (cases c) simp

lemma utf8toc32_resume:
  "utf8toc32 ps (c\<lparr>insz := insz c + n\<rparr>) = then_more (utf8toc32 ps c) (\<lambda>d. d\<lparr>insz := insz d + n\<rparr>) utf8toc32"
proof (induction ps c rule: utf8toc32.induct)
  case (1 ps c)
  let ?g = "\<lambda>d. d\<lparr>insz := insz d + n\<rparr>"
  note unfold = utf8toc32.simps [of ps c] utf8toc32.simps [of ps "?g c"]
  show ?case
  proof (cases "outsz c = 0 \<or> insz c = 0 \<or> inbuf c = []")
    case True
    show ?thesis
    proof (cases "outsz c = 0 \<or> insz c = 0")
      case True
      then have "utf8toc32 ps c = Some (True, c, ps)" by (subst utf8toc32.simps) auto
      then show ?thesis by simp
    next
      case False
      then show ?thesis using True by (simp add: unfold)
    qed
  next
    case False
    then obtain b rest where i: "inbuf c = b # rest" "outsz c \<noteq> 0 \<and> insz c \<noteq> 0" by (cases "inbuf c") auto
    show ?thesis
    proof (cases "dec_switch (conv_state ps) (accum ps) b")
      case None
      then show ?thesis using i by (simp add: unfold)
    next
      case (Some r)
      then show ?thesis using i 1(1) [OF i(2,1) Some] 1(2) [OF i(2,1) Some]
        by (cases r; cases "put_out (case r of Char x \<Rightarrow> x | _ \<Rightarrow> 0) (outbuf c)") (simp_all add: unfold advance_def conv_order)
    qed
  qed
qed

section \<open>The contract of a codec\<close>

text \<open>
  What uchar.h relies on: \<open>valid\<close> are the characters the codec has, \<open>enc\<close> their bytes. A codec in its
  initial state turns a character with room for it into its bytes and back, and is then in its initial
  state again; only its own accumulator may have changed.
\<close>

locale codec =
  fixes cc :: charcodec and valid :: "u32 \<Rightarrow> bool" and enc :: "u32 \<Rightarrow> u8 list"
  assumes enc_size: "valid x \<Longrightarrow> 0 < length (enc x) \<and> length (enc x) \<le> mb_max cc"
    and init_cong: "conv_state ps = conv_state ps' \<Longrightarrow> codec_mbsinit cc ps = codec_mbsinit cc ps'"
    and encode_one: "codec_mbsinit cc ps \<Longrightarrow> valid x \<Longrightarrow> outbuf c = Out out \<Longrightarrow> inbuf c = x # r \<Longrightarrow>
      insz c = Suc k \<Longrightarrow> length (enc x) \<le> outsz c \<Longrightarrow>
      \<exists>a. c32stombs cc ps c = c32stombs cc (ps\<lparr>accum := a\<rparr>) (c\<lparr>inbuf := r, insz := k,
            outbuf := Out (out @ enc x), outsz := outsz c - length (enc x)\<rparr>)"
    and encode_end: "codec_mbsinit cc ps \<Longrightarrow> insz c = 0 \<or> outsz c = 0 \<Longrightarrow> c32stombs cc ps c = Some (True, c, ps)"
    and decode_one: "codec_mbsinit cc ps \<Longrightarrow> valid x \<Longrightarrow> outbuf d = Out res \<Longrightarrow> inbuf d = enc x @ t \<Longrightarrow>
      insz d = length (enc x) + k \<Longrightarrow> outsz d \<noteq> 0 \<Longrightarrow>
      \<exists>a. mbstoc32s cc ps d = mbstoc32s cc (ps\<lparr>accum := a\<rparr>) (d\<lparr>inbuf := t, insz := k,
            outbuf := Out (res @ [x]), outsz := outsz d - 1\<rparr>)"
    and decode_end: "insz d = 0 \<or> outsz d = 0 \<Longrightarrow> mbstoc32s cc ps d = Some (True, d, ps)"
begin

lemma init_accum [simp]: "codec_mbsinit cc (ps\<lparr>accum := a\<rparr>) = codec_mbsinit cc ps"
  by (rule init_cong) simp

abbreviation encs :: "u32 list \<Rightarrow> u8 list" where
  "encs xs \<equiv> concat (map enc xs)"

lemma encode_all:
  assumes "codec_mbsinit cc ps" "list_all valid xs" "outbuf c = Out out" "inbuf c = xs @ r"
    "insz c = length xs" "length (encs xs) \<le> outsz c"
  shows "\<exists>a. c32stombs cc ps c = Some (True, c\<lparr>inbuf := r, insz := 0,
      outbuf := Out (out @ encs xs), outsz := outsz c - length (encs xs)\<rparr>, ps\<lparr>accum := a\<rparr>)"
  using assms
proof (induction xs arbitrary: ps c out)
  case Nil
  then show ?case using encode_end [of ps c] by (intro exI [of _ "accum ps"]) simp
next
  case (Cons x xs)
  then obtain a where a: "c32stombs cc ps c = c32stombs cc (ps\<lparr>accum := a\<rparr>) (c\<lparr>inbuf := xs @ r,
      insz := length xs, outbuf := Out (out @ enc x), outsz := outsz c - length (enc x)\<rparr>)" (is "_ = c32stombs cc ?ps ?c")
    using encode_one [of ps x c out "xs @ r" "length xs"] by auto
  have "\<exists>a. c32stombs cc ?ps ?c = Some (True, ?c\<lparr>inbuf := r, insz := 0,
      outbuf := Out ((out @ enc x) @ encs xs), outsz := outsz ?c - length (encs xs)\<rparr>, ?ps\<lparr>accum := a\<rparr>)"
    by (rule Cons.IH) (use Cons.prems in auto)
  then show ?case unfolding a by simp
qed

lemma decode_all:
  assumes "codec_mbsinit cc ps" "list_all valid xs" "outbuf c = Out out" "inbuf c = encs xs @ r"
    "insz c = length (encs xs)" "length xs \<le> outsz c"
  shows "\<exists>a. mbstoc32s cc ps c = Some (True, c\<lparr>inbuf := r, insz := 0,
      outbuf := Out (out @ xs), outsz := outsz c - length xs\<rparr>, ps\<lparr>accum := a\<rparr>)"
  using assms
proof (induction xs arbitrary: ps c out)
  case Nil
  then show ?case using decode_end [of c ps] by (intro exI [of _ "accum ps"]) simp
next
  case (Cons x xs)
  then obtain a where a: "mbstoc32s cc ps c = mbstoc32s cc (ps\<lparr>accum := a\<rparr>) (c\<lparr>inbuf := encs xs @ r,
      insz := length (encs xs), outbuf := Out (out @ [x]), outsz := outsz c - 1\<rparr>)" (is "_ = mbstoc32s cc ?ps ?c")
    using decode_one [of ps x c out "encs xs @ r" "length (encs xs)"] by auto
  have "\<exists>a. mbstoc32s cc ?ps ?c = Some (True, ?c\<lparr>inbuf := r, insz := 0,
      outbuf := Out ((out @ [x]) @ xs), outsz := outsz ?c - length xs\<rparr>, ?ps\<lparr>accum := a\<rparr>)"
    by (rule Cons.IH) (use Cons.prems in auto)
  then show ?case unfolding a by simp
qed

end

lemmas byte_loops = asciitoc32.simps c32toascii.simps latin1toc32.simps c32tolatin1.simps

lemma ucast_latin1: "x \<le> 255 \<Longrightarrow> ucast (ucast x :: u8) = (x :: u32)"
  by (simp only: word_unat_eq_iff unat_ucast_up) (simp add: word_le_nat_alt unat_ucast_down)

lemma ucast_ascii: "x \<le> 127 \<Longrightarrow> \<not> ucast (x :: u32) > (127 :: u8)"
  by (simp add: word_le_nat_alt word_less_nat_alt unat_ucast_down)

interpretation ascii: codec ascii_codec "\<lambda>x. x \<le> 127" "\<lambda>x. [ucast x]"
proof (unfold_locales, goal_cases)
  case (3 ps x c out r k)
  then show ?case by (intro exI [of _ "accum ps"]) (simp add: ascii_codec_def byte_loops(2) [of ps c] advance_def leD)
next
  case (5 ps x c out r k)
  then have "x \<le> 255" by (simp add: word_le_nat_alt)
  then show ?case using 5 ucast_ascii [of x]
    by (intro exI [of _ "accum ps"]) (simp add: ascii_codec_def byte_loops(1) [of ps c] advance_def ucast_latin1)
qed (auto simp: ascii_codec_def ascii_mbsinit_def byte_loops)

interpretation latin1: codec latin1_codec "\<lambda>x. x \<le> 255" "\<lambda>x. [ucast x]"
proof (unfold_locales, goal_cases)
  case (3 ps x c out r k)
  then show ?case by (intro exI [of _ "accum ps"]) (simp add: latin1_codec_def byte_loops(4) [of ps c] advance_def leD)
next
  case (5 ps x c out r k)
  then show ?case
    by (intro exI [of _ "accum ps"]) (simp add: latin1_codec_def byte_loops(3) [of ps c] advance_def ucast_latin1)
qed (auto simp: latin1_codec_def latin1_mbsinit_def byte_loops)

interpretation utf8: codec utf8_codec scalar_value utf8_bytes
proof (unfold_locales, goal_cases)
  case (1 x) then show ?case by (simp add: utf8_codec_def utf8_bytes_def)
next
  case (3 ps x c out r k)
  have "x \<le> 0x10FFFF" using 3(2) by (auto simp: scalar_value_def word_le_nat_alt word_less_nat_alt)
  then show ?case using 3 utf8_encode_one [of x ps c out r k]
    by (auto simp: utf8_codec_def utf8_mbsinit_def EncStart_def)
next
  case (5 ps x c out r k)
  then show ?case using utf8_decode_one [of x ps c out r k]
    by (auto simp: utf8_codec_def utf8_mbsinit_def DecStart_def)
next
  case (4 ps c) then show ?case by (auto simp: utf8_codec_def utf8_mbsinit_def EncStart_def c32toutf8.simps [of ps c])
next
  case (6 c ps) then show ?case by (auto simp: utf8_codec_def utf8toc32.simps [of ps c])
qed (auto simp: utf8_codec_def utf8_mbsinit_def)

section \<open>Properties\<close>

lemma init_zero: "utf8_mbsinit mbstate_zero"
  by (simp add: utf8_mbsinit_def mbstate_zero_def)

lemma init_pending: "utf8_mbsinit ps \<Longrightarrow> utf8_pending [] (conv_state ps) (accum ps)"
  by (metis DecStart_def utf8_pending.none utf8_mbsinit_def)

lemma pending_init: "utf8_pending p (conv_state ps) acc \<Longrightarrow> utf8_mbsinit ps \<Longrightarrow> p = []"
  unfolding utf8_mbsinit_def by (erule utf8_pending.cases) (simp_all add: dec_states)

lemma lax_decode_one:
  assumes "utf8_lax ys x" "utf8_mbsinit ps" "outbuf c = Out out" "outsz c \<noteq> 0"
    "inbuf c = ys @ r" "insz c = length ys + k"
  shows "\<exists>acc. utf8toc32 ps c =
    utf8toc32 (ps\<lparr>accum := acc\<rparr>) (c\<lparr>inbuf := r, insz := k, outbuf := Out (out @ [x]), outsz := outsz c - 1\<rparr>)"
proof -
  from assms(1) obtain b e where ys: "ys = [b, e]" "0x80 \<le> b" "b < 0xC0" "is_cont e" "0x80 \<le> x"
    "push_bit 6 (ucast b AND 0x1F) OR (ucast e AND 0x3F) = x" by (rule utf8_laxE)
  have st: "conv_state ps = DecStart" using assms(2) by (simp only: utf8_mbsinit_def DecStart_def)
  have ps: "ps\<lparr>accum := a, conv_state := DecStart\<rparr> = ps\<lparr>accum := a\<rparr>" for a
    using st by (cases ps) simp
  let ?a1 = "push_bit 6 (ucast b AND 0x1F) :: u32"
  have b: "0x7F < b \<and> b \<le> 0xDF" using ys(2,3) by (simp add: word_le_nat_alt word_less_nat_alt)
  have i: "inbuf c = b # e # r" "insz c = Suc (Suc k)" using assms(5,6) ys(1) by simp_all
  have "utf8toc32 ps c =
      utf8toc32 (ps\<lparr>conv_state := Dec2B2, accum := ?a1\<rparr>) (c\<lparr>inbuf := e # r, insz := Suc k\<rparr>)"
    using utf8toc32_more [OF assms(4) i(1)] dec_starts(2) [OF b] st i(2) by simp
  also have "\<dots> = utf8toc32 (ps\<lparr>accum := ?a1, conv_state := DecStart\<rparr>)
      (c\<lparr>inbuf := r, insz := k, outbuf := Out (out @ [x]), outsz := outsz c - 1\<rparr>)"
  proof -
    have "dec_switch Dec2B2 ?a1 e = Some (Char x)"
      by (rule dec_lasts(1) [OF ys(4,6)]) (use ys(5) in \<open>simp add: word_le_nat_alt word_less_nat_alt\<close>)
    then show ?thesis
      by (subst utf8toc32_char) (use assms(3,4) in \<open>auto simp: advance_def\<close>)
  qed
  finally show ?thesis unfolding ps by blast
qed

lemma accepts_decode_one:
  assumes "utf8_accepts ys x" "utf8_mbsinit ps" "outbuf c = Out out" "outsz c \<noteq> 0"
    "inbuf c = ys @ r" "insz c = length ys + k"
  shows "\<exists>acc. utf8toc32 ps c =
    utf8toc32 (ps\<lparr>accum := acc\<rparr>) (c\<lparr>inbuf := r, insz := k, outbuf := Out (out @ [x]), outsz := outsz c - 1\<rparr>)"
  using assms utf8_decode_one [of x ps c out r k] lax_decode_one [of ys x ps c out r k]
  by (auto simp: utf8_accepts_def utf8_mbsinit_def DecStart_def)

lemma accepts_decode_all:
  assumes "list_all (\<lambda>(ys, x). utf8_accepts ys x) chunks" "utf8_mbsinit ps" "outbuf c = Out out"
    "inbuf c = concat (map fst chunks) @ r" "insz c = length (concat (map fst chunks))" "length chunks \<le> outsz c"
  shows "\<exists>acc. utf8toc32 ps c = Some (True, c\<lparr>inbuf := r, insz := 0, outbuf := Out (out @ map snd chunks),
    outsz := outsz c - length chunks\<rparr>, ps\<lparr>accum := acc\<rparr>)"
  using assms
proof (induction chunks arbitrary: ps c out)
  case Nil
  then show ?case by (intro exI [of _ "accum ps"]) (simp add: utf8toc32.simps [of ps c])
next
  case (Cons u chunks)
  obtain ys x where u: "u = (ys, x)" by (cases u)
  obtain a where a: "utf8toc32 ps c = utf8toc32 (ps\<lparr>accum := a\<rparr>) (c\<lparr>inbuf := concat (map fst chunks) @ r,
      insz := length (concat (map fst chunks)), outbuf := Out (out @ [x]), outsz := outsz c - 1\<rparr>)" (is "_ = utf8toc32 ?ps ?c")
    using accepts_decode_one [of ys x ps c out "concat (map fst chunks) @ r"] Cons.prems u by auto
  have "\<exists>acc. utf8toc32 ?ps ?c = Some (True, ?c\<lparr>inbuf := r, insz := 0,
      outbuf := Out ((out @ [x]) @ map snd chunks), outsz := outsz ?c - length chunks\<rparr>, ?ps\<lparr>accum := acc\<rparr>)"
    by (rule Cons.IH) (use Cons.prems in \<open>auto simp: utf8_mbsinit_def\<close>)
  then show ?case unfolding a by (simp add: u)
qed

lemma accepts_nonempty: "utf8_accepts ys x \<Longrightarrow> ys \<noteq> []"
  by (auto simp: utf8_accepts_def utf8_bytes_def split: if_splits)

lemma chunks_length: "list_all (\<lambda>(ys, x). utf8_accepts ys x) chunks \<Longrightarrow> length chunks \<le> length (concat (map fst chunks))"
proof (induction chunks)
  case (Cons u chunks)
  then show ?case using accepts_nonempty by (cases u; cases "fst u") auto
qed simp

definition whole :: "'i list \<Rightarrow> nat \<Rightarrow> ('i, 'o) conv" where
  "whole xs n = \<lparr>inbuf = xs, insz = length xs, outbuf = Out [], outsz = n\<rparr>"

text \<open>
  C35. The UTF-8 encoder and decoder are inverse on every string of Unicode scalar values that fits.
\<close>
theorem utf8_roundtrip:
  assumes "list_all scalar_value xs" "utf8_mbsinit ps" "length (concat (map utf8_bytes xs)) \<le> n"
  shows "\<exists>bs a b. c32toutf8 ps (whole xs n) =
      Some (True, \<lparr>inbuf = [], insz = 0, outbuf = Out bs, outsz = n - length bs\<rparr>, ps\<lparr>accum := a\<rparr>) \<and>
    utf8toc32 ps (whole bs (length xs)) =
      Some (True, \<lparr>inbuf = [], insz = 0, outbuf = Out xs, outsz = 0\<rparr>, ps\<lparr>accum := b\<rparr>)"
  using utf8.encode_all [of ps xs "whole xs n" "[]" "[]"]
    utf8.decode_all [of ps xs "whole (concat (map utf8_bytes xs)) (length xs)" "[]" "[]"] assms
  by (intro exI [of _ "concat (map utf8_bytes xs)"]) (simp add: utf8_codec_def whole_def)

theorem utf8_roundtrip_witness:
  "\<exists>bs a b. c32toutf8 mbstate_zero (whole [0x41, 0xE9, 0x20AC, 0x10FFFF] 10) =
      Some (True, \<lparr>inbuf = [], insz = 0, outbuf = Out bs, outsz = 10 - length bs\<rparr>, mbstate_zero\<lparr>accum := a\<rparr>) \<and>
    utf8toc32 mbstate_zero (whole bs (length [0x41 :: u32, 0xE9, 0x20AC, 0x10FFFF])) =
      Some (True, \<lparr>inbuf = [], insz = 0, outbuf = Out [0x41, 0xE9, 0x20AC, 0x10FFFF], outsz = 0\<rparr>, mbstate_zero\<lparr>accum := b\<rparr>)"
  by (rule utf8_roundtrip) (simp_all add: scalar_value_def utf8_mbsinit_def mbstate_zero_def utf8_bytes_def)

text \<open>
  C34. Whatever bytes come in, and wherever an earlier call stopped, the UTF-8 decoder neither faults nor
  reaches its invalid-state assertion, and every character it puts out is a Unicode scalar value; it
  stops in a state from which the same holds.
\<close>
theorem utf8_decode_typed:
  assumes "utf8_pending p (conv_state ps) (accum ps)" "n \<le> length bs"
  shows "\<exists>r c ps' p' cs. utf8toc32 ps \<lparr>inbuf = bs, insz = n, outbuf = Out [], outsz = k\<rparr> = Some (r, c, ps') \<and>
    outbuf c = Out cs \<and> list_all scalar_value cs \<and> length cs \<le> k \<and> utf8_pending p' (conv_state ps') (accum ps')"
proof -
  obtain r c' ps' chunks p' where
    e: "utf8toc32 ps \<lparr>inbuf = bs, insz = n, outbuf = Out [], outsz = k\<rparr> = Some (r, c', ps')"
    and post: "dec_post p [] ps \<lparr>inbuf = bs, insz = n, outbuf = Out [], outsz = k\<rparr> chunks p' r c' ps'"
    using utf8toc32_run [OF assms(1), of "\<lparr>inbuf = bs, insz = n, outbuf = Out [], outsz = k\<rparr>" "[]"] assms(2) by auto
  have "list_all scalar_value (map snd chunks)"
    using post accepts_scalar by (auto simp: dec_post_def list_all_iff)
  then show ?thesis using e post by (auto simp: dec_post_def)
qed

theorem utf8_decode_typed_witness:
  "\<exists>r c ps' p' cs. utf8toc32 mbstate_zero \<lparr>inbuf = [0x85, 0x80, 0xED], insz = 3, outbuf = Out [], outsz = 3\<rparr> = Some (r, c, ps') \<and>
    outbuf c = Out cs \<and> list_all scalar_value cs \<and> length cs \<le> 3 \<and> utf8_pending p' (conv_state ps') (accum ps')"
  by (rule utf8_decode_typed [of "[]"]) (simp_all add: init_pending init_zero)

text \<open>
  Exactly which byte strings the UTF-8 decoder takes as a whole: sequences of well-formed characters,
  and of two-byte sequences that start with a continuation byte.
\<close>
theorem utf8_decode_language:
  assumes "utf8_mbsinit ps"
  shows "(\<exists>c ps'. utf8toc32 ps (whole bs (length bs)) = Some (True, c, ps') \<and> outbuf c = Out cs \<and>
      insz c = 0 \<and> utf8_mbsinit ps') =
    (\<exists>chunks. bs = concat (map fst chunks) \<and> cs = map snd chunks \<and> list_all (\<lambda>(ys, x). utf8_accepts ys x) chunks)"
    (is "?decodes = ?chunked")
proof
  assume ?decodes
  then obtain c ps' where c: "utf8toc32 ps (whole bs (length bs)) = Some (True, c, ps')" "outbuf c = Out cs"
    "insz c = 0" "utf8_mbsinit ps'" by blast
  obtain chunks p' where post: "dec_post [] [] ps (whole bs (length bs)) chunks p' True c ps'"
    using utf8toc32_run [OF init_pending [OF assms], of "whole bs (length bs)" "[]"] c(1) by (auto simp: whole_def)
  have "p' = []" using post c(4) pending_init by (auto simp: dec_post_def)
  then show ?chunked using post c(2,3) by (intro exI [of _ chunks]) (auto simp: dec_post_def whole_def)
next
  assume ?chunked
  then obtain chunks where "bs = concat (map fst chunks)" "cs = map snd chunks"
    "list_all (\<lambda>(ys, x). utf8_accepts ys x) chunks" by blast
  then show ?decodes
    using accepts_decode_all [of chunks ps "whole bs (length bs)" "[]" "[]"] assms chunks_length [of chunks]
    by (fastforce simp: whole_def utf8_mbsinit_def)
qed

theorem utf8_decode_language_witness:
  "(\<exists>c ps'. utf8toc32 mbstate_zero (whole [0x85, 0x80] (length [0x85 :: u8, 0x80])) = Some (True, c, ps') \<and> outbuf c = Out [0x140] \<and>
      insz c = 0 \<and> utf8_mbsinit ps')"
proof -
  have "\<exists>chunks. [0x85, 0x80] = concat (map fst chunks) \<and> [0x140] = map snd chunks \<and>
      list_all (\<lambda>(ys, x). utf8_accepts ys x) chunks"
    by (rule exI [of _ "[([0x85, 0x80], 0x140)]"]) (simp add: utf8_accepts_def is_cont_def)
  then show ?thesis
    by (subst utf8_decode_language) (simp_all only: utf8_mbsinit_def mbstate_zero_def mbstate.simps)
qed

text \<open>
  Cutting the output or the input of a conversion at any point and going on with the state that was
  left gives what the uncut conversion gives.
\<close>
theorem utf8_conversion_resumes:
  "c32toutf8 ps (c\<lparr>outsz := outsz c + n\<rparr>) =
     then_more (c32toutf8 ps c) (\<lambda>c. c\<lparr>outsz := outsz c + n\<rparr>) c32toutf8 \<and>
   utf8toc32 qs (d\<lparr>insz := insz d + k\<rparr>) =
     then_more (utf8toc32 qs d) (\<lambda>d. d\<lparr>insz := insz d + k\<rparr>) utf8toc32"
  by (simp add: c32toutf8_resume utf8toc32_resume)

text \<open>A surrogate is encoded, but what it is encoded to is rejected by the decoder.\<close>

lemma utf8_surrogate_one_way:
  "map_option (\<lambda>(r, c, _). (r, outbuf c)) (c32toutf8 mbstate_zero (whole [0xD800] 3)) =
     Some (True, Out [0xED, 0xA0, 0x80]) \<and>
   map_option (\<lambda>(r, c, _). (r, inbuf c, outbuf c)) (utf8toc32 mbstate_zero (whole [0xED, 0xA0, 0x80] 3)) =
     Some (False, [0x80], Out [])"
  by code_simp

end
