(* ===== verification/PdcUchar.thy ===== *)
theory PdcUchar
  imports PdcCodec PdcString
begin

text \<open>
  The conversion functions of uchar.h and wchar.h (pdclib/functions/uchar, pdclib/functions/wchar
  and the inline functions of \<open>_PDCLIB_encoding.h\<close>) over any codec. The functions for the current locale
  pass the codec of the thread's locale; \<open>MB_CUR_MAX\<close> always belongs to that one, so it is the
  argument \<open>gl\<close> beside the codec \<open>l\<close>. The properties rest on the locale \<open>codec\<close> of PdcCodec.
\<close>

section \<open>Single characters, UTF-32\<close>

text \<open>
  A returned \<open>size_t\<close>, whether errno was set to EILSEQ, what was stored through the output pointer,
  and the conversion state.
\<close>

record 'o mbres =
  ret :: u64
  eilseq :: bool
  stored :: "'o outp"
  final :: mbstate

text \<open>The line \<open>s = s ? s : buf\<close>: with a null pointer (here \<open>No_out\<close>) the output goes to a local buffer.\<close>

definition or_buf :: "'o outp \<Rightarrow> 'o outp" where
  "or_buf s = (if s = No_out then Out [] else s)"

definition not_buf :: "'o outp \<Rightarrow> 'o outp \<Rightarrow> 'o outp" where
  "not_buf s q = (if s = No_out then No_out else q)"

definition c32rtomb_l :: "charcodec \<Rightarrow> u8 outp \<Rightarrow> u32 \<Rightarrow> mbstate \<Rightarrow> charcodec \<Rightarrow> u8 mbres option" where
  "c32rtomb_l gl s c32 ps l =
     (let dstsz = mb_max gl in
      case c32stombs l ps \<lparr>inbuf = [c32], insz = 1, outbuf = or_buf s, outsz = dstsz\<rparr> of
        None \<Rightarrow> None
      | Some (ok, c, ps') \<Rightarrow>
          if ok then Some \<lparr>ret = of_nat (dstsz - outsz c), eilseq = False, stored = not_buf s (outbuf c), final = ps'\<rparr>
          else Some \<lparr>ret = -1, eilseq = True, stored = not_buf s (outbuf c), final = ps'\<rparr>)"

definition c32rtomb :: "charcodec \<Rightarrow> u8 outp \<Rightarrow> u32 \<Rightarrow> mbstate \<Rightarrow> u8 mbres option" where
  "c32rtomb gl s c32 ps = c32rtomb_l gl s c32 ps gl"

fun last_stored :: "'o outp \<Rightarrow> 'o option" where
  "last_stored (Out xs) = (if xs = [] then None else Some (last xs))"
| "last_stored _ = None"

text \<open>
  The pointer \<open>pc32\<close> is passed by reference, so a null \<open>pc32\<close> is a \<open>Null_out\<close>. The failed
  assertion is None.
\<close>

definition mbrtoc32_l :: "u32 outp \<Rightarrow> u8 list \<Rightarrow> nat \<Rightarrow> mbstate \<Rightarrow> charcodec \<Rightarrow> u32 mbres option" where
  "mbrtoc32_l pc32 s n ps l =
     (case mbstoc32s l ps \<lparr>inbuf = s, insz = n, outbuf = pc32, outsz = 1\<rparr> of
        None \<Rightarrow> None
      | Some (ok, c, ps') \<Rightarrow>
          let result = \<lambda>r e. Some \<lparr>ret = r, eilseq = e, stored = outbuf c, final = ps'\<rparr> in
          if ok then
            if outsz c = 0 then
              if insz c = n then result (-3) False
              else (case last_stored (outbuf c) of
                      None \<Rightarrow> None
                    | Some x \<Rightarrow> if x = 0 then result 0 False else result (of_nat (n - insz c)) False)
            else if insz c = 0 then result (-2) False
            else None
          else result (-1) True)"

definition mbrtoc32 :: "charcodec \<Rightarrow> u32 outp \<Rightarrow> u8 list \<Rightarrow> nat \<Rightarrow> mbstate \<Rightarrow> u32 mbres option" where
  "mbrtoc32 gl pc32 s n ps = mbrtoc32_l pc32 s n ps gl"

section \<open>Single characters, UTF-16\<close>

definition c16rtomb_l :: "charcodec \<Rightarrow> u8 outp \<Rightarrow> u16 \<Rightarrow> mbstate \<Rightarrow> charcodec \<Rightarrow> u8 mbres option" where
  "c16rtomb_l gl s c16 ps l =
     (case c16stombs l of
        None \<Rightarrow>
          map_option (\<lambda>r. r\<lparr>stored := not_buf s (stored r)\<rparr>)
           (if surrogate ps = 0 then
              if c16 AND 0xF800 = 0xD800 then
                if c16 AND 0x0400 = 0
                then Some \<lparr>ret = 0, eilseq = False, stored = or_buf s, final = ps\<lparr>surrogate := c16\<rparr>\<rparr>
                else Some \<lparr>ret = -1, eilseq = True, stored = or_buf s, final = ps\<rparr>
              else c32rtomb_l gl (or_buf s) (ucast c16) ps l
            else
              if c16 AND 0xFC00 = 0xDC00 then
                let c32 = push_bit 10 (ucast (surrogate ps AND 0x3FF)) OR ucast (c16 AND 0x3FF)
                in c32rtomb_l gl (or_buf s) c32 (ps\<lparr>surrogate := 0\<rparr>) l
              else Some \<lparr>ret = -1, eilseq = True, stored = or_buf s, final = ps\<rparr>)
      | Some conv \<Rightarrow>
          let dstsz = mb_max gl in
          (case conv ps \<lparr>inbuf = [c16], insz = 1, outbuf = or_buf s, outsz = dstsz\<rparr> of
             None \<Rightarrow> None
           | Some (ok, c, ps') \<Rightarrow>
               if ok then Some \<lparr>ret = of_nat (dstsz - outsz c), eilseq = False, stored = not_buf s (outbuf c), final = ps'\<rparr>
               else Some \<lparr>ret = -1, eilseq = True, stored = not_buf s (outbuf c), final = ps'\<rparr>))"

definition c16rtomb :: "charcodec \<Rightarrow> u8 outp \<Rightarrow> u16 \<Rightarrow> mbstate \<Rightarrow> u8 mbres option" where
  "c16rtomb gl s c16 ps = c16rtomb_l gl s c16 ps gl"

text \<open>
  \<open>c32\<close> of \<open>mbrtoc16_l\<close> has no initial value; \<open>junk\<close> stands for what is in it. It is read whenever the
  call of \<open>mbrtoc32_l\<close> did not fail, also when no character was stored.
\<close>

definition mbrtoc16_l :: "u32 \<Rightarrow> u16 outp \<Rightarrow> u8 list \<Rightarrow> nat \<Rightarrow> mbstate \<Rightarrow> charcodec \<Rightarrow> u16 mbres option" where
  "mbrtoc16_l junk pc16 s n ps l =
     (case mbstoc16s l of
        None \<Rightarrow>
          if surrogate ps \<noteq> 0 then do {
            q \<leftarrow> put_out (surrogate ps) pc16;
            Some \<lparr>ret = -3, eilseq = False, stored = q, final = ps\<lparr>surrogate := 0\<rparr>\<rparr>
          } else do {
            r \<leftarrow> mbrtoc32_l (Out []) s n ps l;
            if ret r \<noteq> -1 then
              let c32 = (case last_stored (stored r) of Some x \<Rightarrow> x | None \<Rightarrow> junk) in
              if c32 \<le> 0xFFFF then do {
                q \<leftarrow> put_out (ucast c32) pc16;
                Some \<lparr>ret = ret r, eilseq = eilseq r, stored = q, final = final r\<rparr>
              } else do {
                q \<leftarrow> put_out (ucast (0xD800 OR drop_bit 10 c32)) pc16;
                Some \<lparr>ret = ret r, eilseq = eilseq r, stored = q,
                  final = (final r)\<lparr>surrogate := ucast (0xDC00 OR (c32 AND 0x3FF))\<rparr>\<rparr>
              }
            else Some \<lparr>ret = ret r, eilseq = eilseq r, stored = pc16, final = final r\<rparr>
          }
      | Some conv \<Rightarrow>
          (case conv ps \<lparr>inbuf = s, insz = n, outbuf = pc16, outsz = 1\<rparr> of
             None \<Rightarrow> None
           | Some (ok, c, ps') \<Rightarrow>
               let result = \<lambda>r e. Some \<lparr>ret = r, eilseq = e, stored = outbuf c, final = ps'\<rparr> in
               if ok then
                 if outsz c = 0 then
                   if insz c = n then result (-3) False
                   else (case last_stored (outbuf c) of
                           None \<Rightarrow> None
                         | Some x \<Rightarrow> if x = 0 then result 0 False else result (of_nat (n - insz c)) False)
                 else if insz c = 0 then result (-2) False
                 else None
               else result (-1) True))"

definition mbrtoc16 :: "charcodec \<Rightarrow> u32 \<Rightarrow> u16 outp \<Rightarrow> u8 list \<Rightarrow> nat \<Rightarrow> mbstate \<Rightarrow> u16 mbres option" where
  "mbrtoc16 gl junk pc16 s n ps = mbrtoc16_l junk pc16 s n ps gl"

section \<open>Wide characters\<close>

text \<open>A \<open>wchar_t\<close> is a UTF-32 unit here, so the \<open>cwc\<close> macros are the functions for \<open>char32_t\<close>.\<close>

definition wcrtomb_l :: "charcodec \<Rightarrow> u8 outp \<Rightarrow> u32 \<Rightarrow> mbstate \<Rightarrow> charcodec \<Rightarrow> u8 mbres option" where
  "wcrtomb_l gl s wc ps l = c32rtomb_l gl s wc ps l"

text \<open>With a null \<open>ps\<close> the static state \<open>st\<close> is used; the result has the new value of \<open>st\<close>.\<close>

definition wcrtomb :: "charcodec \<Rightarrow> mbstate \<Rightarrow> u8 outp \<Rightarrow> u32 \<Rightarrow> mbstate option \<Rightarrow> (u8 mbres \<times> mbstate) option" where
  "wcrtomb gl st s wc ps =
     (case ps of
        Some p \<Rightarrow> map_option (\<lambda>r. (r, st)) (c32rtomb gl s wc p)
      | None \<Rightarrow> map_option (\<lambda>r. (r, final r)) (c32rtomb gl s wc st))"

definition PendClear :: u8 where "PendClear = 0"
definition PendPrefix :: u8 where "PendPrefix = 1"

text \<open>The part of \<open>mbrtowc_l\<close> after the pending character: \<open>*s\<close> is read when a character came from the state alone.\<close>

definition mbrtowc_clear :: "u32 outp \<Rightarrow> u8 list \<Rightarrow> nat \<Rightarrow> mbstate \<Rightarrow> charcodec \<Rightarrow> u32 mbres option" where
  "mbrtowc_clear pwc s n ps l = do {
     r \<leftarrow> mbrtoc32_l pwc s n ps l;
     if ret r = -3 then
       (case s of
          [] \<Rightarrow> None
        | b # _ \<Rightarrow> Some (r\<lparr>ret := 1, final := (final r)\<lparr>pend_char := b, pend_state := PendPrefix\<rparr>\<rparr>))
     else Some r
   }"

definition mbrtowc_l :: "u32 outp \<Rightarrow> u8 list option \<Rightarrow> nat \<Rightarrow> mbstate \<Rightarrow> charcodec \<Rightarrow> u32 mbres option" where
  "mbrtowc_l pwc s0 n0 ps l =
     (let s = (case s0 of None \<Rightarrow> [0] | Some xs \<Rightarrow> xs); n = (case s0 of None \<Rightarrow> 1 | Some _ \<Rightarrow> n0) in
      if pend_state ps = PendPrefix then do {
        r \<leftarrow> mbrtoc32_l pwc [pend_char ps] 1 ps l;
        if ret r = 0 then Some (r\<lparr>final := (final r)\<lparr>pend_state := PendClear\<rparr>\<rparr>)
        else if ret r = 1 then
          (case s of [] \<Rightarrow> None | b # _ \<Rightarrow> Some (r\<lparr>final := (final r)\<lparr>pend_char := b\<rparr>\<rparr>))
        else if ret r = -1 then Some r
        else if ret r = -3 then None
        else mbrtowc_clear pwc s n (final r) l
      } else mbrtowc_clear pwc s n ps l)"

definition mbrtowc :: "charcodec \<Rightarrow> mbstate \<Rightarrow> u32 outp \<Rightarrow> u8 list option \<Rightarrow> nat \<Rightarrow> mbstate option \<Rightarrow>
    (u32 mbres \<times> mbstate) option" where
  "mbrtowc gl st pwc s n ps =
     (case ps of
        Some p \<Rightarrow> map_option (\<lambda>r. (r, st)) (mbrtowc_l pwc s n p gl)
      | None \<Rightarrow> map_option (\<lambda>r. (r, final r)) (mbrtowc_l pwc s n st gl))"

definition mbsinit_l :: "mbstate option \<Rightarrow> charcodec \<Rightarrow> bool" where
  "mbsinit_l ps l = (case ps of
     Some p \<Rightarrow> surrogate p = 0 \<and> pend_state p = 0 \<and> codec_mbsinit l p
   | None \<Rightarrow> True)"

definition mbsinit :: "charcodec \<Rightarrow> mbstate option \<Rightarrow> bool" where
  "mbsinit gl ps = mbsinit_l ps gl"

section \<open>Strings\<close>

text \<open>The loops \<open>while(*(str++)) n++\<close>; the list is the array at \<open>str\<close>.\<close>

fun c32slen :: "u32 list \<Rightarrow> nat option" where
  "c32slen [] = None"
| "c32slen (x # xs) = (if x = 0 then Some 0 else map_option Suc (c32slen xs))"

fun c16slen :: "u16 list \<Rightarrow> nat option" where
  "c16slen [] = None"
| "c16slen (x # xs) = (if x = 0 then Some 0 else map_option Suc (c16slen xs))"

definition SIZE_MAX :: nat where "SIZE_MAX = 2 ^ 64 - 1"

text \<open>The result, and the array at the advanced \<open>*src\<close>; a null \<open>dst\<close> is \<open>No_out\<close>.\<close>

definition c32srtombs_l :: "u8 outp \<Rightarrow> u32 list \<Rightarrow> nat \<Rightarrow> mbstate \<Rightarrow> charcodec \<Rightarrow> (u8 mbres \<times> u32 list) option" where
  "c32srtombs_l dst src len0 ps l = do {
     let len = (if dst = No_out then SIZE_MAX else len0);
     srclen \<leftarrow> c32slen src;
     (ok, c, ps') \<leftarrow> c32stombs l ps \<lparr>inbuf = src, insz = srclen, outbuf = dst, outsz = len\<rparr>;
     Some (\<lparr>ret = if ok then of_nat (len - outsz c) else -1, eilseq = \<not> ok, stored = outbuf c, final = ps'\<rparr>, inbuf c)
   }"

definition c32srtombs :: "charcodec \<Rightarrow> u8 outp \<Rightarrow> u32 list \<Rightarrow> nat \<Rightarrow> mbstate \<Rightarrow> (u8 mbres \<times> u32 list) option" where
  "c32srtombs gl dst src len ps = c32srtombs_l dst src len ps gl"

definition mbsrtoc32s_l :: "u32 outp \<Rightarrow> u8 list \<Rightarrow> nat \<Rightarrow> mbstate \<Rightarrow> charcodec \<Rightarrow> (u32 mbres \<times> u8 list) option" where
  "mbsrtoc32s_l dst src len0 ps l = do {
     let len = (if dst = No_out then SIZE_MAX else len0);
     srclen \<leftarrow> strlen (mem_of 0 src) 0;
     (ok, c, ps') \<leftarrow> mbstoc32s l ps \<lparr>inbuf = src, insz = srclen, outbuf = dst, outsz = len\<rparr>;
     Some (\<lparr>ret = if ok then of_nat (len - outsz c) else -1, eilseq = \<not> ok, stored = outbuf c, final = ps'\<rparr>, inbuf c)
   }"

definition mbsrtoc32s :: "charcodec \<Rightarrow> u32 outp \<Rightarrow> u8 list \<Rightarrow> nat \<Rightarrow> mbstate \<Rightarrow> (u32 mbres \<times> u8 list) option" where
  "mbsrtoc32s gl dst src len ps = mbsrtoc32s_l dst src len ps gl"

section \<open>The inline functions of the encoding header\<close>

text \<open>The returned code, the character stored (if any), and the state; an access beyond \<open>in\<close> is None.\<close>

fun c16rtoc32 :: "u16 list \<Rightarrow> nat \<Rightarrow> mbstate \<Rightarrow> (int \<times> u32 option \<times> mbstate) option" where
  "c16rtoc32 [] bufsize ps = None"
| "c16rtoc32 (c # cs) bufsize ps =
     (if surrogate ps \<noteq> 0 then
        if c AND NOT 0x3FF \<noteq> 0xDC00 then Some (-1, None, ps)
        else Some (1, Some (push_bit 10 (ucast (surrogate ps AND 0x3FF)) OR ucast (c AND 0x3FF)), ps\<lparr>surrogate := 0\<rparr>)
      else if c AND NOT 0x3FF = 0xD800 then
        if bufsize \<ge> 2 then
          (case cs of
             [] \<Rightarrow> None
           | d # _ \<Rightarrow>
               if d AND NOT 0x3FF \<noteq> 0xDC00 then Some (-1, None, ps)
               else Some (2, Some (push_bit 10 (ucast (c AND 0x3FF)) OR ucast (d AND 0x3FF)), ps))
        else Some (-2, None, ps\<lparr>surrogate := c\<rparr>)
      else Some (1, Some (ucast c), ps))"

text \<open>The returned count, the units stored at \<open>out\<close>, and the state.\<close>

definition c32rtoc16 :: "u32 \<Rightarrow> nat \<Rightarrow> mbstate \<Rightarrow> nat \<times> u32 list \<times> mbstate" where
  "c32rtoc16 x bufsize ps =
     (if surrogate ps \<noteq> 0 then (0, [ucast (surrogate ps)], ps\<lparr>surrogate := 0\<rparr>)
      else if x \<le> 0xFFFF then (1, [x], ps)
      else if bufsize \<ge> 2 then (2, [0xD800 OR drop_bit 10 x, 0xDC00 OR (x AND 0x3FF)], ps)
      else (1, [0xD800 OR drop_bit 10 x], ps\<lparr>surrogate := ucast (0xDC00 OR (x AND 0x3FF))\<rparr>))"

section \<open>Any codec: one character there and back\<close>

context codec
begin

lemma c32rtomb_valid:
  assumes "codec_mbsinit cc ps" "valid x" "length (enc x) \<le> mb_max gl"
  shows "\<exists>a. c32rtomb_l gl (Out []) x ps cc = Some \<lparr>ret = of_nat (length (enc x)), eilseq = False,
    stored = Out (enc x), final = ps\<lparr>accum := a\<rparr>\<rparr>"
proof -
  let ?c = "\<lparr>inbuf = [x], insz = 1, outbuf = Out [], outsz = mb_max gl\<rparr>"
  obtain a where "c32stombs cc ps ?c = Some (True, ?c\<lparr>inbuf := [], insz := 0, outbuf := Out ([] @ encs [x]),
      outsz := mb_max gl - length (encs [x])\<rparr>, ps\<lparr>accum := a\<rparr>)"
    using encode_all [of ps "[x]" ?c "[]" "[]"] assms by auto
  then show ?thesis using assms(3)
    by (intro exI [of _ a]) (simp add: c32rtomb_l_def or_buf_def not_buf_def Let_def)
qed

lemma mbrtoc32_valid:
  assumes "codec_mbsinit cc ps" "valid x" "length (enc x) + k < 2 ^ 64"
  shows "\<exists>a. mbrtoc32_l (Out []) (enc x @ r) (length (enc x) + k) ps cc = Some
    \<lparr>ret = (if x = 0 then 0 else of_nat (length (enc x))), eilseq = False, stored = Out [x], final = ps\<lparr>accum := a\<rparr>\<rparr>"
proof -
  let ?c = "\<lparr>inbuf = enc x @ r, insz = length (enc x) + k, outbuf = Out [], outsz = 1\<rparr>"
  obtain a where a: "mbstoc32s cc ps ?c = mbstoc32s cc (ps\<lparr>accum := a\<rparr>) (?c\<lparr>inbuf := r, insz := k,
      outbuf := Out ([] @ [x]), outsz := outsz ?c - 1\<rparr>)"
    using decode_one [OF assms(1,2), of ?c "[]" r k] by auto
  have "mbstoc32s cc (ps\<lparr>accum := a\<rparr>) (?c\<lparr>inbuf := r, insz := k, outbuf := Out ([] @ [x]), outsz := outsz ?c - 1\<rparr>) =
      Some (True, \<lparr>inbuf = r, insz = k, outbuf = Out [x], outsz = 0\<rparr>, ps\<lparr>accum := a\<rparr>)"
    by (subst decode_end) simp_all
  then show ?thesis using a enc_size [OF assms(2)]
    by (intro exI [of _ a]) (simp add: mbrtoc32_l_def)
qed

text \<open>A leading surrogate is kept; a trailing one after it gives the character of the two 10-bit halves.\<close>

lemma c16rtomb_pair:
  assumes "codec_mbsinit cc ps" "c16stombs cc = None" "surrogate ps = 0"
    and hi: "hi AND 0xFC00 = 0xD800" and lo: "lo AND 0xFC00 = 0xDC00"
    and x: "x = push_bit 10 (ucast (hi AND 0x3FF)) OR ucast (lo AND 0x3FF)"
    and "valid x" "length (enc x) \<le> mb_max gl"
  shows "\<exists>r. c16rtomb_l gl (Out []) hi ps cc = Some \<lparr>ret = 0, eilseq = False, stored = Out [], final = ps\<lparr>surrogate := hi\<rparr>\<rparr> \<and>
    c16rtomb_l gl (Out []) lo (ps\<lparr>surrogate := hi\<rparr>) cc = Some r \<and>
    ret r = of_nat (length (enc x)) \<and> stored r = Out (enc x)"
proof -
  have lead: "hi AND 0xF800 = 0xD800" "hi AND 0x400 = 0" "hi \<noteq> 0"
  proof -
    have "hi AND 0xF800 = (hi AND 0xFC00) AND 0xF800" "hi AND 0x400 = (hi AND 0xFC00) AND 0x400"
      by (simp_all add: and.assoc)
    then show "hi AND 0xF800 = 0xD800" "hi AND 0x400 = 0" by (simp_all add: hi)
    show "hi \<noteq> 0" using hi by auto
  qed
  obtain a where "c32rtomb_l gl (Out []) x (ps\<lparr>surrogate := 0\<rparr>) cc = Some \<lparr>ret = of_nat (length (enc x)), eilseq = False,
    stored = Out (enc x), final = ps\<lparr>surrogate := 0, accum := a\<rparr>\<rparr>"
    using c32rtomb_valid [of "ps\<lparr>surrogate := 0\<rparr>" x gl] assms(1,7,8) init_cong [of "ps\<lparr>surrogate := 0\<rparr>" ps] by auto
  then show ?thesis using assms(2,3) lead lo
    by (simp add: c16rtomb_l_def or_buf_def not_buf_def x Let_def)
qed

end

section \<open>UTF-16 through the codecs\<close>

text \<open>The 20 bits \<open>d\<close> that a pair of surrogates stands for: the character is U+10000 plus \<open>d\<close>.\<close>

definition lead_surrogate :: "u32 \<Rightarrow> u16" where
  "lead_surrogate d = ucast (0xD800 OR drop_bit 10 d)"

definition trail_surrogate :: "u32 \<Rightarrow> u16" where
  "trail_surrogate d = ucast (0xDC00 OR (d AND 0x3FF))"

lemma bit_surrogates:
  "bit (0x3FF :: u16) n \<longleftrightarrow> n < 10" "bit (0x3FF :: u32) n \<longleftrightarrow> n < 10"
  "bit (0xFC00 :: u16) n \<longleftrightarrow> 10 \<le> n \<and> n < 16"
  "bit (0xD800 :: u32) n \<longleftrightarrow> n = 11 \<or> n = 12 \<or> n = 14 \<or> n = 15"
  "bit (0xD800 :: u16) n \<longleftrightarrow> n = 11 \<or> n = 12 \<or> n = 14 \<or> n = 15"
  "bit (0xDC00 :: u32) n \<longleftrightarrow> n = 10 \<or> n = 11 \<or> n = 12 \<or> n = 14 \<or> n = 15"
  "bit (0xDC00 :: u16) n \<longleftrightarrow> n = 10 \<or> n = 11 \<or> n = 12 \<or> n = 14 \<or> n = 15"
proof -
  have m: "(0x3FF :: u16) = mask 10" "(0x3FF :: u32) = mask 10" "(0xFC00 :: u16) = push_bit 10 (mask 6)"
    "(0xD800 :: u32) = push_bit 11 (mask 2) OR push_bit 14 (mask 2)"
    "(0xD800 :: u16) = push_bit 11 (mask 2) OR push_bit 14 (mask 2)"
    "(0xDC00 :: u32) = push_bit 10 (mask 3) OR push_bit 14 (mask 2)"
    "(0xDC00 :: u16) = push_bit 10 (mask 3) OR push_bit 14 (mask 2)"
    by (simp_all add: mask_eq_exp_minus_1 push_bit_eq_mult)
  show "bit (0x3FF :: u16) n \<longleftrightarrow> n < 10" "bit (0x3FF :: u32) n \<longleftrightarrow> n < 10"
  "bit (0xFC00 :: u16) n \<longleftrightarrow> 10 \<le> n \<and> n < 16"
  "bit (0xD800 :: u32) n \<longleftrightarrow> n = 11 \<or> n = 12 \<or> n = 14 \<or> n = 15"
  "bit (0xD800 :: u16) n \<longleftrightarrow> n = 11 \<or> n = 12 \<or> n = 14 \<or> n = 15"
  "bit (0xDC00 :: u32) n \<longleftrightarrow> n = 10 \<or> n = 11 \<or> n = 12 \<or> n = 14 \<or> n = 15"
  "bit (0xDC00 :: u16) n \<longleftrightarrow> n = 10 \<or> n = 11 \<or> n = 12 \<or> n = 14 \<or> n = 15"
    unfolding m by (auto simp: bit_simps)
qed

lemmas utf16_bits = bit_or_iff bit_and_iff bit_push_bit_iff bit_drop_bit_eq bit_unsigned_iff comp_apply bit_surrogates

lemma surrogate_marks:
  "unat d < 2 ^ 20 \<Longrightarrow> lead_surrogate d AND 0xFC00 = 0xD800"
  "trail_surrogate d AND 0xFC00 = 0xDC00"
  "unat d < 2 ^ 20 \<Longrightarrow> push_bit 10 (ucast (lead_surrogate d AND 0x3FF)) OR ucast (trail_surrogate d AND 0x3FF) = d"
proof -
  show "trail_surrogate d AND 0xFC00 = 0xDC00"
    unfolding trail_surrogate_def by (rule bit_word_eqI; simp only: utf16_bits; auto)
  assume h: "unat d < 2 ^ 20"
  have b: "bit d (10 + n) \<Longrightarrow> n < 10" for n using u32_small_bits [OF h, of "10 + n"] by simp
  show "lead_surrogate d AND 0xFC00 = 0xD800"
    unfolding lead_surrogate_def by (rule bit_word_eqI; simp only: utf16_bits) (auto dest: b)
  show "push_bit 10 (ucast (lead_surrogate d AND 0x3FF)) OR ucast (trail_surrogate d AND 0x3FF) = d" (is "?l = d")
  proof (rule bit_word_eqI)
    fix n assume "n < LENGTH(32)"
    then show "bit ?l n = bit d n" unfolding lead_surrogate_def trail_surrogate_def
      using u32_small_bits [OF h, of n] by (simp only: utf16_bits) auto
  qed
qed

lemma of_nat_not_minus1:
  assumes "n < 2 ^ 64 - 1" shows "(of_nat n :: u64) \<noteq> -1"
proof
  assume "(of_nat n :: u64) = -1"
  then have "unat (of_nat n :: u64) = unat (-1 :: u64)" by (rule arg_cong)
  moreover have "unat (of_nat n :: u64) = n" by (rule unat_of_nat_u64) (use assms in simp)
  moreover have "unat (-1 :: u64) = 2 ^ 64 - 1" by (simp only: unsigned_minus_1_eq_mask) (simp add: mask_eq_exp_minus_1)
  ultimately show False using assms by linarith
qed

context codec
begin

lemma mbrtoc16_supplementary:
  assumes "codec_mbsinit cc ps" "valid x" "0xFFFF < x" "mbstoc16s cc = None" "surrogate ps = 0"
    "length (enc x) < 2 ^ 64 - 1"
  shows "\<exists>a. mbrtoc16_l junk (Out []) (enc x) (length (enc x)) ps cc = Some \<lparr>ret = of_nat (length (enc x)),
    eilseq = False, stored = Out [lead_surrogate x], final = ps\<lparr>accum := a, surrogate := trail_surrogate x\<rparr>\<rparr>"
proof -
  have "x \<noteq> 0" "\<not> x \<le> 0xFFFF" using assms(3) by auto
  then obtain a where "mbrtoc32_l (Out []) (enc x) (length (enc x)) ps cc = Some
    \<lparr>ret = of_nat (length (enc x)), eilseq = False, stored = Out [x], final = ps\<lparr>accum := a\<rparr>\<rparr>"
    using mbrtoc32_valid [OF assms(1,2), of 0 "[]"] assms(6) by auto
  then show ?thesis using assms(4,5) \<open>\<not> x \<le> 0xFFFF\<close> of_nat_not_minus1 [OF assms(6)]
    by (intro exI [of _ a]) (simp add: mbrtoc16_l_def Let_def lead_surrogate_def trail_surrogate_def)
qed

lemma mbrtoc16_pending:
  "mbstoc16s cc = None \<Longrightarrow> surrogate ps \<noteq> 0 \<Longrightarrow> mbrtoc16_l junk (Out []) s n ps cc =
    Some \<lparr>ret = -3, eilseq = False, stored = Out [surrogate ps], final = ps\<lparr>surrogate := 0\<rparr>\<rparr>"
  by (simp add: mbrtoc16_l_def)

end

lemma lead_surrogate_offset:
  assumes "0xFFFF < x" "unat x < 2 ^ 20"
  shows "lead_surrogate x \<noteq> lead_surrogate (x - 0x10000)"
proof
  assume e: "lead_surrogate x = lead_surrogate (x - 0x10000)"
  have u: "unat (x - 0x10000) = unat x - 0x10000"
    using assms(1) by (simp add: unat_sub word_le_nat_alt word_less_nat_alt)
  have h: "drop_bit 10 d = ucast (lead_surrogate d AND 0x3FF)" if "unat d < 2 ^ 20" for d :: u32
  proof (rule bit_word_eqI)
    fix n assume "n < LENGTH(32)"
    then show "bit (drop_bit 10 d) n = bit (ucast (lead_surrogate d AND 0x3FF) :: u32) n"
      unfolding lead_surrogate_def using u32_small_bits [OF that, of "10 + n"] by (simp only: utf16_bits) auto
  qed
  have "drop_bit 10 x = drop_bit 10 (x - 0x10000)" using e h [of x] h [of "x - 0x10000"] assms(2) u by simp
  then have "unat x div 1024 = (unat x - 0x10000) div 1024"
    using unat_drop_bit_eq [of 10 x] unat_drop_bit_eq [of 10 "x - 0x10000"] u by (simp only: drop_bit_eq_div) simp
  moreover have "unat x = (unat x - 0x10000) + 64 * 1024" using assms(1) by (simp add: word_less_nat_alt)
  then have "unat x div 1024 = 64 + (unat x - 0x10000) div 1024" by (metis div_mult_self1 zero_neq_numeral add.commute)
  ultimately show False by simp
qed

section \<open>Properties\<close>

text \<open>
  UTF-16 through the UTF-8 codec. A character from U+10000 to U+FFFFF is given out as two surrogates
  that are not its UTF-16 form (the offset 0x10000 is not subtracted), and as \<open>c16rtomb\<close> does not add the
  offset either, these two give the character back.
\<close>
theorem utf16_pair_roundtrip:
  assumes "utf8_mbsinit ps" "surrogate ps = 0" "0xFFFF < x" "unat x < 2 ^ 20"
  shows "\<exists>r1 r2 r3. mbrtoc16_l junk (Out []) (utf8_bytes x) 4 ps utf8_codec = Some r1 \<and>
      ret r1 = 4 \<and> stored r1 = Out [lead_surrogate x] \<and>
    mbrtoc16_l junk (Out []) [] 0 (final r1) utf8_codec = Some r2 \<and>
      ret r2 = -3 \<and> stored r2 = Out [trail_surrogate x] \<and>
    lead_surrogate x \<noteq> lead_surrogate (x - 0x10000) \<and>
    c16rtomb_l utf8_codec (Out []) (lead_surrogate x) ps utf8_codec =
      Some \<lparr>ret = 0, eilseq = False, stored = Out [], final = ps\<lparr>surrogate := lead_surrogate x\<rparr>\<rparr> \<and>
    c16rtomb_l utf8_codec (Out []) (trail_surrogate x) (ps\<lparr>surrogate := lead_surrogate x\<rparr>) utf8_codec = Some r3 \<and>
      ret r3 = 4 \<and> stored r3 = Out (utf8_bytes x)"
proof -
  have v: "scalar_value x" using assms(3,4) by (auto simp: scalar_value_def word_le_nat_alt word_less_nat_alt)
  have l: "length (utf8_bytes x) = 4"
    using assms(3) by (auto simp: utf8_bytes_def word_le_nat_alt word_less_nat_alt)
  have i: "codec_mbsinit utf8_codec ps" "mbstoc16s utf8_codec = None" "c16stombs utf8_codec = None" "mb_max utf8_codec = 4"
    using assms(1) by (simp_all add: utf8_codec_def)
  obtain a where r1: "mbrtoc16_l junk (Out []) (utf8_bytes x) 4 ps utf8_codec = Some \<lparr>ret = 4, eilseq = False,
      stored = Out [lead_surrogate x], final = ps\<lparr>accum := a, surrogate := trail_surrogate x\<rparr>\<rparr>"
    using utf8.mbrtoc16_supplementary [OF i(1) v assms(3) i(2) assms(2), of junk] l by auto
  have t: "trail_surrogate x \<noteq> 0" using surrogate_marks(2) [of x] by auto
  have r2: "mbrtoc16_l junk (Out []) [] 0 (ps\<lparr>accum := a, surrogate := trail_surrogate x\<rparr>) utf8_codec =
      Some \<lparr>ret = -3, eilseq = False, stored = Out [trail_surrogate x], final = ps\<lparr>accum := a, surrogate := 0\<rparr>\<rparr>"
    using utf8.mbrtoc16_pending [OF i(2), of "ps\<lparr>accum := a, surrogate := trail_surrogate x\<rparr>"] t by simp
  obtain r3 where "c16rtomb_l utf8_codec (Out []) (lead_surrogate x) ps utf8_codec =
      Some \<lparr>ret = 0, eilseq = False, stored = Out [], final = ps\<lparr>surrogate := lead_surrogate x\<rparr>\<rparr>"
    "c16rtomb_l utf8_codec (Out []) (trail_surrogate x) (ps\<lparr>surrogate := lead_surrogate x\<rparr>) utf8_codec = Some r3"
    "ret r3 = 4" "stored r3 = Out (utf8_bytes x)"
    using utf8.c16rtomb_pair [OF i(1,3) assms(2) surrogate_marks(1) [OF assms(4)] surrogate_marks(2)
        surrogate_marks(3) [OF assms(4), symmetric] v, of utf8_codec] l i(4) by auto
  then show ?thesis using r1 r2 lead_surrogate_offset [OF assms(3,4)] by simp
qed

theorem utf16_pair_roundtrip_witness:
  "\<exists>r1 r2 r3. mbrtoc16_l 0 (Out []) (utf8_bytes 0x1F600) 4 mbstate_zero utf8_codec = Some r1 \<and>
      ret r1 = 4 \<and> stored r1 = Out [lead_surrogate 0x1F600] \<and>
    mbrtoc16_l 0 (Out []) [] 0 (final r1) utf8_codec = Some r2 \<and>
      ret r2 = -3 \<and> stored r2 = Out [trail_surrogate 0x1F600] \<and>
    lead_surrogate 0x1F600 \<noteq> lead_surrogate (0x1F600 - 0x10000) \<and>
    c16rtomb_l utf8_codec (Out []) (lead_surrogate 0x1F600) mbstate_zero utf8_codec =
      Some \<lparr>ret = 0, eilseq = False, stored = Out [], final = mbstate_zero\<lparr>surrogate := lead_surrogate 0x1F600\<rparr>\<rparr> \<and>
    c16rtomb_l utf8_codec (Out []) (trail_surrogate 0x1F600) (mbstate_zero\<lparr>surrogate := lead_surrogate 0x1F600\<rparr>) utf8_codec = Some r3 \<and>
      ret r3 = 4 \<and> stored r3 = Out (utf8_bytes 0x1F600)"
  by (rule utf16_pair_roundtrip) (simp_all add: init_zero, simp add: mbstate_zero_def)

text \<open>
  C29. A surrogate pair of real UTF-16, for the character U+10000 plus \<open>d\<close>, is encoded as the character
  \<open>d\<close>: the plane is lost, and U+1F600 becomes U+F600.
\<close>
theorem c16rtomb_loses_plane:
  assumes "utf8_mbsinit ps" "surrogate ps = 0" "unat d < 2 ^ 20" "scalar_value d"
  shows "\<exists>r. c16rtomb_l utf8_codec (Out []) (lead_surrogate d) ps utf8_codec =
      Some \<lparr>ret = 0, eilseq = False, stored = Out [], final = ps\<lparr>surrogate := lead_surrogate d\<rparr>\<rparr> \<and>
    c16rtomb_l utf8_codec (Out []) (trail_surrogate d) (ps\<lparr>surrogate := lead_surrogate d\<rparr>) utf8_codec = Some r \<and>
    ret r = of_nat (length (utf8_bytes d)) \<and> stored r = Out (utf8_bytes d)"
  using utf8.c16rtomb_pair [OF _ _ assms(2) surrogate_marks(1) [OF assms(3)] surrogate_marks(2)
      surrogate_marks(3) [OF assms(3), symmetric] assms(4), of utf8_codec] assms(1) utf8.enc_size [OF assms(4)]
  by (auto simp: utf8_codec_def)

theorem c16rtomb_loses_plane_witness:
  "\<exists>r. c16rtomb_l utf8_codec (Out []) (lead_surrogate 0xF600) mbstate_zero utf8_codec =
      Some \<lparr>ret = 0, eilseq = False, stored = Out [], final = mbstate_zero\<lparr>surrogate := lead_surrogate 0xF600\<rparr>\<rparr> \<and>
    c16rtomb_l utf8_codec (Out []) (trail_surrogate 0xF600) (mbstate_zero\<lparr>surrogate := lead_surrogate 0xF600\<rparr>) utf8_codec = Some r \<and>
    ret r = of_nat (length (utf8_bytes 0xF600)) \<and> stored r = Out (utf8_bytes 0xF600)"
  by (rule c16rtomb_loses_plane) (simp_all add: init_zero scalar_value_def, simp add: mbstate_zero_def)

text \<open>
  With the kernel's global locale a character is converted exactly when it is ASCII: one byte is
  stored and the state is left alone; any other one is an EILSEQ with nothing stored.
\<close>
theorem kernel_c32rtomb:
  "c32rtomb ascii_codec (Out []) x ps = Some (
     if x \<le> 127 then \<lparr>ret = 1, eilseq = False, stored = Out [ucast x], final = ps\<rparr>
     else \<lparr>ret = -1, eilseq = True, stored = Out [], final = ps\<rparr>)"
  by (auto simp: c32rtomb_def c32rtomb_l_def ascii_codec_def or_buf_def not_buf_def c32toascii.simps Let_def not_le)

text \<open>
  \<open>c32rtomb_l\<close> with a UTF-8 locale while the thread's locale is the kernel's: \<open>MB_CUR_MAX\<close> is then 1, so
  only the first byte is stored, the call reports a whole character of one byte, and the next call puts out the next
  byte of the first character instead of the character it is given.
\<close>
theorem c32rtomb_l_cut:
  assumes "utf8_mbsinit ps" "0x7F < x" "x \<le> 0x10FFFF"
  shows "\<exists>ps' r. c32rtomb_l ascii_codec (Out []) x ps utf8_codec =
      Some \<lparr>ret = 1, eilseq = False, stored = Out [utf8_bytes x ! 0], final = ps'\<rparr> \<and>
    c32rtomb_l ascii_codec (Out []) y ps' utf8_codec = Some r \<and>
    ret r = 1 \<and> stored r = Out [utf8_bytes x ! 1] \<and> \<not> eilseq r"
proof -
  have st: "conv_state ps = EncStart" using assms(1) by (simp only: utf8_mbsinit_def EncStart_def)
  obtain st b' st' where f: "enc_first x = Some (utf8_bytes x ! 0, st)" "st \<noteq> EncStart"
    and g: "enc_rest st x = Some (utf8_bytes x ! 1, st')"
  proof -
    consider "0x7F < x" "x \<le> 0x7FF" | "0x7FF < x" "x \<le> 0xFFFF" | "0xFFFF < x" "x \<le> 0x10FFFF"
      using assms(2,3) by fastforce
    then show thesis
    proof cases
      case 1
      then show thesis by (intro that [of Enc1R EncStart])
        (auto simp: enc_first_def utf8_bytes_def enc_rests enc_running word_le_nat_alt word_less_nat_alt)
    next
      case 2
      then show thesis by (intro that [of Enc2R Enc1R])
        (auto simp: enc_first_def utf8_bytes_def enc_rests enc_running word_le_nat_alt word_less_nat_alt)
    next
      case 3
      then show thesis by (intro that [of Enc3R Enc2R])
        (auto simp: enc_first_def utf8_bytes_def enc_rests enc_running word_le_nat_alt word_less_nat_alt)
    qed
  qed
  have full: "c32toutf8 qs \<lparr>inbuf = xs, insz = n, outbuf = q, outsz = 0\<rparr> =
      Some (True, \<lparr>inbuf = xs, insz = n, outbuf = q, outsz = 0\<rparr>, qs)" for qs n q xs
    by (simp add: c32toutf8.simps)
  let ?ps = "ps\<lparr>accum := x, conv_state := st\<rparr>"
  have "c32rtomb_l ascii_codec (Out []) x ps utf8_codec =
      Some \<lparr>ret = 1, eilseq = False, stored = Out [utf8_bytes x ! 0], final = ?ps\<rparr>"
    using c32toutf8_first [OF _ st _ _ f(1), of "\<lparr>inbuf = [x], insz = 1, outbuf = Out [], outsz = 1\<rparr>"]
    by (simp add: c32rtomb_l_def or_buf_def not_buf_def Let_def ascii_codec_def utf8_codec_def full)
  moreover have "c32rtomb_l ascii_codec (Out []) y ?ps utf8_codec =
      Some \<lparr>ret = 1, eilseq = False, stored = Out [utf8_bytes x ! 1], final = ?ps\<lparr>conv_state := st'\<rparr>\<rparr>"
    using c32toutf8_next [of "\<lparr>inbuf = [y], insz = 1, outbuf = Out [], outsz = 1\<rparr>" ?ps] f(2) g
    by (simp add: c32rtomb_l_def or_buf_def not_buf_def Let_def ascii_codec_def utf8_codec_def full)
  ultimately show ?thesis by auto
qed

theorem c32rtomb_l_cut_witness:
  "\<exists>ps' r. c32rtomb_l ascii_codec (Out []) 0xE9 mbstate_zero utf8_codec =
      Some \<lparr>ret = 1, eilseq = False, stored = Out [utf8_bytes 0xE9 ! 0], final = ps'\<rparr> \<and>
    c32rtomb_l ascii_codec (Out []) 0x41 ps' utf8_codec = Some r \<and>
    ret r = 1 \<and> stored r = Out [utf8_bytes 0xE9 ! 1] \<and> \<not> eilseq r"
  by (rule c32rtomb_l_cut) (simp_all add: init_zero)

text \<open>
  A UTF-8 character that arrives in two parts: the call for the first part reports an incomplete
  character and stores nothing, the call for the rest stores the character and counts only its own bytes.
\<close>
theorem mbrtoc32_in_two_parts:
  assumes "utf8_mbsinit ps" "scalar_value x" "x \<noteq> 0" "0 < k" "k < length (utf8_bytes x)"
  shows "\<exists>ps' a. mbrtoc32_l (Out []) (utf8_bytes x) k ps utf8_codec =
      Some \<lparr>ret = -2, eilseq = False, stored = Out [], final = ps'\<rparr> \<and>
    mbrtoc32_l (Out []) (drop k (utf8_bytes x)) (length (utf8_bytes x) - k) ps' utf8_codec =
      Some \<lparr>ret = of_nat (length (utf8_bytes x) - k), eilseq = False, stored = Out [x], final = ps\<lparr>accum := a\<rparr>\<rparr>"
proof -
  let ?bs = "utf8_bytes x"
  let ?c = "\<lparr>inbuf = ?bs, insz = k, outbuf = Out [], outsz = 1\<rparr>"
  let ?n = "length ?bs - k"
  obtain r c1 ps1 chunks p' where run: "utf8toc32 ps ?c = Some (r, c1, ps1)"
    and post: "dec_post [] [] ps ?c chunks p' r c1 ps1"
    using utf8toc32_run [OF init_pending [OF assms(1)], of ?c "[]"] assms(5) by auto
  obtain a where full: "utf8toc32 ps (?c\<lparr>insz := insz ?c + ?n\<rparr>) =
      Some (True, \<lparr>inbuf = [], insz = 0, outbuf = Out [x], outsz = 0\<rparr>, ps\<lparr>accum := a\<rparr>)"
    using utf8.decode_all [of ps "[x]" "?c\<lparr>insz := length ?bs\<rparr>" "[]" "[]"] assms
    by (auto simp: utf8_codec_def)
  have more: "then_more (Some (r, c1, ps1)) (\<lambda>d. d\<lparr>insz := insz d + ?n\<rparr>) utf8toc32 =
      Some (True, \<lparr>inbuf = [], insz = 0, outbuf = Out [x], outsz = 0\<rparr>, ps\<lparr>accum := a\<rparr>)"
    using utf8toc32_resume [of ps ?c ?n] full run by simp
  have r: r using more by (cases r) auto
  have m: "utf8toc32 ps1 (c1\<lparr>insz := insz c1 + ?n\<rparr>) =
      Some (True, \<lparr>inbuf = [], insz = 0, outbuf = Out [x], outsz = 0\<rparr>, ps\<lparr>accum := a\<rparr>)"
    using more r by simp
  have len: "length (inbuf c1) - insz c1 = ?n" "insz c1 \<le> length (inbuf c1)" "outsz c1 + length chunks = 1"
    "r \<longrightarrow> outsz c1 = 0 \<or> insz c1 = 0"
    using post by (auto simp: dec_post_def)
  have "outsz c1 \<noteq> 0"
  proof
    assume "outsz c1 = 0"
    then have "utf8toc32 ps1 (c1\<lparr>insz := insz c1 + ?n\<rparr>) = Some (True, c1\<lparr>insz := insz c1 + ?n\<rparr>, ps1)"
      by (subst utf8toc32.simps) simp
    with m have "insz c1 + ?n = 0" by (cases c1) auto
    then show False using assms(5) by simp
  qed
  then have ch: "chunks = []" "outsz c1 = 1" using len(3) by (cases chunks; simp)+
  then have c1: "insz c1 = 0" "outsz c1 = 1" "outbuf c1 = Out []" "?bs = p' @ inbuf c1"
    using len r post by (simp_all add: dec_post_def)
  then have i: "inbuf c1 = drop k ?bs" using len assms(5) by (metis append_eq_conv_conj diff_diff_cancel diff_zero
      length_append add_diff_cancel_right' less_imp_le_nat)
  then have c1': "c1 = \<lparr>inbuf = drop k ?bs, insz = 0, outbuf = Out [], outsz = 1\<rparr>" using c1 by (cases c1) simp
  have "mbrtoc32_l (Out []) ?bs k ps utf8_codec = Some \<lparr>ret = -2, eilseq = False, stored = Out [], final = ps1\<rparr>"
    using run r c1' by (simp add: mbrtoc32_l_def utf8_codec_def)
  moreover have "mbrtoc32_l (Out []) (drop k ?bs) ?n ps1 utf8_codec =
      Some \<lparr>ret = of_nat ?n, eilseq = False, stored = Out [x], final = ps\<lparr>accum := a\<rparr>\<rparr>"
    using m c1' assms(3,5) by (simp add: mbrtoc32_l_def utf8_codec_def)
  ultimately show ?thesis by blast
qed

theorem mbrtoc32_in_two_parts_witness:
  "\<exists>ps' a. mbrtoc32_l (Out []) (utf8_bytes 0x20AC) 2 mbstate_zero utf8_codec =
      Some \<lparr>ret = -2, eilseq = False, stored = Out [], final = ps'\<rparr> \<and>
    mbrtoc32_l (Out []) (drop 2 (utf8_bytes 0x20AC)) (length (utf8_bytes 0x20AC) - 2) ps' utf8_codec =
      Some \<lparr>ret = of_nat (length (utf8_bytes 0x20AC) - 2), eilseq = False, stored = Out [0x20AC],
        final = mbstate_zero\<lparr>accum := a\<rparr>\<rparr>"
  by (rule mbrtoc32_in_two_parts) (simp_all add: init_zero scalar_value_def utf8_bytes_def)

section \<open>Whole strings\<close>

lemma c32slen_string: "0 \<notin> set xs \<Longrightarrow> c32slen (xs @ 0 # r) = Some (length xs)"
  by (induction xs) auto

lemma cont_nonzero: "ucast (0x80 OR (y AND 0x3F :: u32)) \<noteq> (0 :: u8)"
proof
  assume "ucast (0x80 OR (y AND 0x3F :: u32)) = (0 :: u8)"
  then have "bit (ucast (0x80 OR (y AND 0x3F :: u32)) :: u8) 7 = bit (0 :: u8) 7" by (rule arg_cong)
  then show False by (simp only: layout_bits) simp
qed

lemma lead_nonzero: "0x7F < (b :: u8) \<Longrightarrow> b \<noteq> 0" "0xDF < b \<Longrightarrow> b \<noteq> 0" "0xEF < b \<Longrightarrow> b \<noteq> 0"
  by auto

lemma utf8_bytes_nonzero:
  assumes "x \<noteq> 0" "scalar_value x" shows "0 \<notin> set (utf8_bytes x)"
proof -
  consider "x \<le> 0x7F" | "0x7F < x" "x \<le> 0x7FF" | "0x7FF < x" "x \<le> 0xFFFF" | "0xFFFF < x" "x \<le> 0x10FFFF"
    using assms(2) by (auto simp: scalar_value_def word_le_nat_alt word_less_nat_alt) linarith+
  then show ?thesis
  proof cases
    case 1
    then have "unat (ucast x :: u8) = unat x" by (intro unat_ucast_down) (simp add: word_le_nat_alt)
    then have "(ucast x :: u8) \<noteq> 0" using assms(1) by (simp add: word_unat_eq_iff)
    then show ?thesis using 1 by (simp add: utf8_bytes_def)
  next
    case 2
    then have "\<not> x \<le> 0x7F" by simp
    with 2 show ?thesis using lead_nonzero(1) [of "ucast (0xC0 OR drop_bit 6 x)"] lead_of_value(1) [OF 2(2)]
      cont_nonzero [of x] by (simp add: utf8_bytes_def)
  next
    case 3
    then have "\<not> x \<le> 0x7F" "\<not> x \<le> 0x7FF" by (auto simp: word_le_nat_alt word_less_nat_alt)
    with 3 show ?thesis using lead_nonzero(2) [of "ucast (0xE0 OR drop_bit 12 x)"] lead_of_value(2) [OF 3(2)]
      cont_nonzero [of x] cont_nonzero [of "drop_bit 6 x"] by (simp add: utf8_bytes_def)
  next
    case 4
    then have "\<not> x \<le> 0x7F" "\<not> x \<le> 0x7FF" "\<not> x \<le> 0xFFFF" by (auto simp: word_le_nat_alt word_less_nat_alt)
    with 4 show ?thesis using lead_nonzero(3) [of "ucast (0xF0 OR drop_bit 18 x)"] lead4_of_value [OF 4(2)]
      cont_nonzero [of x] cont_nonzero [of "drop_bit 6 x"] cont_nonzero [of "drop_bit 12 x"]
      by (simp add: utf8_bytes_def)
  qed
qed

lemma utf8_string_nonzero:
  "list_all scalar_value xs \<Longrightarrow> 0 \<notin> set xs \<Longrightarrow> 0 \<notin> set (concat (map utf8_bytes xs))"
  using utf8_bytes_nonzero by (induction xs) auto

text \<open>
  A wide string with room for its bytes is converted to UTF-8 and back without loss; both functions
  stop before the terminator, which is not stored, and leave the source pointer at it.
\<close>
theorem utf8_string_roundtrip:
  assumes "utf8_mbsinit ps" "list_all scalar_value xs" "0 \<notin> set xs" "length (concat (map utf8_bytes xs)) \<le> n"
  shows "\<exists>bs a b. bs = concat (map utf8_bytes xs) \<and>
    c32srtombs_l (Out []) (xs @ [0]) n ps utf8_codec =
      Some (\<lparr>ret = of_nat (length bs), eilseq = False, stored = Out bs, final = ps\<lparr>accum := a\<rparr>\<rparr>, [0]) \<and>
    mbsrtoc32s_l (Out []) (bs @ [0]) (length xs) ps utf8_codec =
      Some (\<lparr>ret = of_nat (length xs), eilseq = False, stored = Out xs, final = ps\<lparr>accum := b\<rparr>\<rparr>, [0])"
proof -
  let ?bs = "concat (map utf8_bytes xs)"
  have i: "codec_mbsinit utf8_codec ps" using assms(1) by (simp add: utf8_codec_def)
  have "cstr (mem_of 0 (?bs @ [0])) 0 ?bs"
    unfolding cstr_def using utf8_string_nonzero [OF assms(2,3)] mem_of_bytes [of 0 "?bs @ [0]"] by simp
  then have l: "strlen (mem_of 0 (?bs @ [0])) 0 = Some (length ?bs)" by (rule strlen_cstr)
  show ?thesis
    using utf8.encode_all [OF i assms(2), of "\<lparr>inbuf = xs @ [0], insz = length xs, outbuf = Out [], outsz = n\<rparr>" "[]" "[0]"]
      utf8.decode_all [OF i assms(2), of "\<lparr>inbuf = ?bs @ [0], insz = length ?bs, outbuf = Out [], outsz = length xs\<rparr>" "[]" "[0]"]
      assms(4) l c32slen_string [OF assms(3), of "[]"]
    by (auto simp: c32srtombs_l_def mbsrtoc32s_l_def Let_def)
qed

theorem utf8_string_roundtrip_witness:
  "\<exists>bs a b. bs = concat (map utf8_bytes [0x41, 0xE9]) \<and>
    c32srtombs_l (Out []) ([0x41, 0xE9] @ [0]) 3 mbstate_zero utf8_codec =
      Some (\<lparr>ret = of_nat (length bs), eilseq = False, stored = Out bs, final = mbstate_zero\<lparr>accum := a\<rparr>\<rparr>, [0]) \<and>
    mbsrtoc32s_l (Out []) (bs @ [0]) (length [0x41 :: u32, 0xE9]) mbstate_zero utf8_codec =
      Some (\<lparr>ret = of_nat (length [0x41 :: u32, 0xE9]), eilseq = False, stored = Out [0x41, 0xE9],
        final = mbstate_zero\<lparr>accum := b\<rparr>\<rparr>, [0])"
  by (rule utf8_string_roundtrip) (simp_all add: init_zero scalar_value_def utf8_bytes_def)

text \<open>A null \<open>pc32\<close> is not "do not store": the first complete character is stored through it.\<close>

lemma mbrtoc32_null_faults: "b \<le> 127 \<Longrightarrow> mbrtoc32_l Null_out (b # s) (Suc n) ps ascii_codec = None"
  by (simp add: mbrtoc32_l_def ascii_codec_def asciitoc32.simps leD)

end
