(* ===== verification/PdcWchar.thy ===== *)
theory PdcWchar
  imports PdcString
begin

text \<open>
  The wide string functions (pdclib/functions/wchar/wcs*.c and wmem*.c). A wide string lies in a
  memory of 32-bit elements, in which an address counts elements. Most of the functions are the byte string
  functions for another element type; \<open>widen\<close> puts a byte memory into a wide one, and the properties say which
  functions agree with their counterparts of PdcString on every byte memory, faults and endless
  loops included, and what the others do instead.
\<close>

type_synonym wmem = "ptr \<Rightarrow> u32 option"

section \<open>Wide memory blocks\<close>

primrec wmemchr :: "wmem \<Rightarrow> ptr \<Rightarrow> u32 \<Rightarrow> nat \<Rightarrow> ptr option" where
  "wmemchr m p c 0 = Some NULL"
| "wmemchr m p c (Suc n) = do { x \<leftarrow> m p; if x = c then Some p else wmemchr m (Suc p) c n }"

text \<open>
  The difference of two elements is an \<open>int\<close>; where it overflows, which C leaves undefined, the
  model has the wrapped value that the processor computes.
\<close>

primrec wmemcmp :: "wmem \<Rightarrow> ptr \<Rightarrow> ptr \<Rightarrow> nat \<Rightarrow> int option" where
  "wmemcmp m p1 p2 0 = Some 0"
| "wmemcmp m p1 p2 (Suc n) = do {
     x \<leftarrow> m p1; y \<leftarrow> m p2;
     if x \<noteq> y then Some (sint (x - y)) else wmemcmp m (Suc p1) (Suc p2) n
   }"

primrec wmemcpy_loop :: "wmem \<Rightarrow> ptr \<Rightarrow> ptr \<Rightarrow> nat \<Rightarrow> wmem option" where
  "wmemcpy_loop m dest src 0 = Some m"
| "wmemcpy_loop m dest src (Suc n) = do {
     x \<leftarrow> m src; m' \<leftarrow> store m dest x;
     wmemcpy_loop m' (Suc dest) (Suc src) n
   }"

definition wmemcpy :: "wmem \<Rightarrow> ptr \<Rightarrow> ptr \<Rightarrow> nat \<Rightarrow> (wmem \<times> ptr) option" where
  "wmemcpy m dest src n = do { m' \<leftarrow> wmemcpy_loop m dest src n; Some (m', dest) }"

primrec wmemmove_down :: "wmem \<Rightarrow> ptr \<Rightarrow> ptr \<Rightarrow> nat \<Rightarrow> wmem option" where
  "wmemmove_down m dest src 0 = Some m"
| "wmemmove_down m dest src (Suc n) = do {
     x \<leftarrow> m (src - 1); m' \<leftarrow> store m (dest - 1) x;
     wmemmove_down m' (dest - 1) (src - 1) n
   }"

definition wmemmove :: "wmem \<Rightarrow> ptr \<Rightarrow> ptr \<Rightarrow> nat \<Rightarrow> (wmem \<times> ptr) option" where
  "wmemmove m dest src n = do {
     m' \<leftarrow> (if dest \<le> src then wmemcpy_loop m dest src n else wmemmove_down m (dest + n) (src + n) n);
     Some (m', dest)
   }"

section \<open>Wide strings\<close>

partial_function (option) wcslen_loop :: "wmem \<Rightarrow> ptr \<Rightarrow> nat \<Rightarrow> nat option" where
  "wcslen_loop m str n = do { x \<leftarrow> m str; if x \<noteq> 0 then wcslen_loop m (Suc str) (Suc n) else Some n }"

definition wcslen :: "wmem \<Rightarrow> ptr \<Rightarrow> nat option" where
  "wcslen m str = wcslen_loop m str 0"

partial_function (option) wcschr :: "wmem \<Rightarrow> ptr \<Rightarrow> u32 \<Rightarrow> ptr option" where
  "wcschr m haystack needle = do {
     x \<leftarrow> m haystack;
     if x \<noteq> 0 then (if x = needle then Some haystack else wcschr m (Suc haystack) needle) else Some NULL
   }"

partial_function (option) wcsrchr_loop :: "wmem \<Rightarrow> ptr \<Rightarrow> u32 \<Rightarrow> ptr \<Rightarrow> ptr option" where
  "wcsrchr_loop m haystack needle found = do {
     x \<leftarrow> m haystack;
     if x \<noteq> 0 then wcsrchr_loop m (Suc haystack) needle (if x = needle then haystack else found)
     else Some found
   }"

definition wcsrchr :: "wmem \<Rightarrow> ptr \<Rightarrow> u32 \<Rightarrow> ptr option" where
  "wcsrchr m haystack needle = wcsrchr_loop m haystack needle NULL"

partial_function (option) wcscmp :: "wmem \<Rightarrow> ptr \<Rightarrow> ptr \<Rightarrow> int option" where
  "wcscmp m s1 s2 = do {
     x \<leftarrow> m s1;
     if x \<noteq> 0 then do {
       y \<leftarrow> m s2;
       if x = y then wcscmp m (Suc s1) (Suc s2) else Some (sint (x - y))
     } else do { y \<leftarrow> m s2; Some (sint (x - y)) }
   }"

primrec wcsncmp :: "wmem \<Rightarrow> ptr \<Rightarrow> ptr \<Rightarrow> nat \<Rightarrow> int option" where
  "wcsncmp m s1 s2 0 = do { x \<leftarrow> m s1; Some 0 }"
| "wcsncmp m s1 s2 (Suc n) = do {
     x \<leftarrow> m s1;
     if x \<noteq> 0 then do {
       y \<leftarrow> m s2;
       if x = y then wcsncmp m (Suc s1) (Suc s2) n else Some (sint (x - y))
     } else do { y \<leftarrow> m s2; Some (sint (x - y)) }
   }"

text \<open>The loop of \<open>wcscpy\<close> tests the source before it stores, so the terminator is not copied.\<close>

partial_function (option) wcscpy_loop :: "wmem \<Rightarrow> ptr \<Rightarrow> ptr \<Rightarrow> wmem option" where
  "wcscpy_loop m dest src = do {
     x \<leftarrow> m src;
     if x \<noteq> 0 then do { m' \<leftarrow> store m dest x; wcscpy_loop m' (Suc dest) (Suc src) } else Some m
   }"

definition wcscpy :: "wmem \<Rightarrow> ptr \<Rightarrow> ptr \<Rightarrow> (wmem \<times> ptr) option" where
  "wcscpy m dest src = do { m' \<leftarrow> wcscpy_loop m dest src; Some (m', dest) }"

partial_function (option) wskip_to_nul :: "wmem \<Rightarrow> ptr \<Rightarrow> ptr option" where
  "wskip_to_nul m s = do { x \<leftarrow> m s; if x \<noteq> 0 then wskip_to_nul m (Suc s) else Some s }"

partial_function (option) wcscat_loop :: "wmem \<Rightarrow> ptr \<Rightarrow> ptr \<Rightarrow> wmem option" where
  "wcscat_loop m s1 s2 = do {
     x \<leftarrow> m s2; m' \<leftarrow> store m s1 x;
     if x \<noteq> 0 then wcscat_loop m' (Suc s1) (Suc s2) else Some m'
   }"

definition wcscat :: "wmem \<Rightarrow> ptr \<Rightarrow> ptr \<Rightarrow> (wmem \<times> ptr) option" where
  "wcscat m s1 s2 = do {
     x \<leftarrow> m s1;
     e \<leftarrow> (if x \<noteq> 0 then wskip_to_nul m (Suc s1) else Some s1);
     m' \<leftarrow> wcscat_loop m e s2;
     Some (m', s1)
   }"

primrec wcsncat_copy :: "wmem \<Rightarrow> ptr \<Rightarrow> ptr \<Rightarrow> nat \<Rightarrow> (wmem \<times> ptr \<times> nat) option" where
  "wcsncat_copy m s1 s2 0 = Some (m, s1, 0)"
| "wcsncat_copy m s1 s2 (Suc n) = do {
     x \<leftarrow> m s2; m' \<leftarrow> store m s1 x;
     if x \<noteq> 0 then wcsncat_copy m' (Suc s1) (Suc s2) n else Some (m', Suc s1, Suc n)
   }"

definition wcsncat :: "wmem \<Rightarrow> ptr \<Rightarrow> ptr \<Rightarrow> nat \<Rightarrow> (wmem \<times> ptr) option" where
  "wcsncat m s1 s2 n = do {
     e \<leftarrow> wskip_to_nul m s1;
     (m', p, n') \<leftarrow> wcsncat_copy m e s2 n;
     m'' \<leftarrow> (if n' = 0 then store m' p 0 else Some m');
     Some (m'', s1)
   }"

primrec wcsncpy_copy :: "wmem \<Rightarrow> ptr \<Rightarrow> ptr \<Rightarrow> nat \<Rightarrow> (wmem \<times> ptr \<times> nat) option" where
  "wcsncpy_copy m s1 s2 0 = Some (m, s1, 0)"
| "wcsncpy_copy m s1 s2 (Suc n) = do {
     x \<leftarrow> m s2; m' \<leftarrow> store m s1 x;
     if x = 0 then Some (m', Suc s1, Suc n) else wcsncpy_copy m' (Suc s1) (Suc s2) n
   }"

primrec wcsncpy_fill :: "wmem \<Rightarrow> ptr \<Rightarrow> nat \<Rightarrow> wmem option" where
  "wcsncpy_fill m s1 0 = Some m"
| "wcsncpy_fill m s1 (Suc n) =
     (if Suc n > 1 then do { m' \<leftarrow> store m s1 0; wcsncpy_fill m' (Suc s1) n } else Some m)"

definition wcsncpy :: "wmem \<Rightarrow> ptr \<Rightarrow> ptr \<Rightarrow> nat \<Rightarrow> (wmem \<times> ptr) option" where
  "wcsncpy m s1 s2 n = do {
     (m', p, n') \<leftarrow> wcsncpy_copy m s1 s2 n;
     m'' \<leftarrow> wcsncpy_fill m' p n';
     Some (m'', s1)
   }"

partial_function (option) win_set_loop :: "wmem \<Rightarrow> u32 \<Rightarrow> ptr \<Rightarrow> bool option" where
  "win_set_loop m c p = do {
     y \<leftarrow> m p;
     if y \<noteq> 0 then (if c = y then Some True else win_set_loop m c (Suc p)) else Some False
   }"

partial_function (option) wcscspn_loop :: "wmem \<Rightarrow> ptr \<Rightarrow> ptr \<Rightarrow> nat \<Rightarrow> nat option" where
  "wcscspn_loop m s1 s2 len = do {
     x \<leftarrow> m (s1 + len);
     if x \<noteq> 0 then do {
       b \<leftarrow> win_set_loop m x s2;
       if b then Some len else wcscspn_loop m s1 s2 (Suc len)
     } else Some len
   }"

definition wcscspn :: "wmem \<Rightarrow> ptr \<Rightarrow> ptr \<Rightarrow> nat option" where
  "wcscspn m s1 s2 = wcscspn_loop m s1 s2 0"

partial_function (option) wcsspn_loop :: "wmem \<Rightarrow> ptr \<Rightarrow> ptr \<Rightarrow> nat \<Rightarrow> nat option" where
  "wcsspn_loop m s1 s2 len = do {
     x \<leftarrow> m (s1 + len);
     if x \<noteq> 0 then do {
       b \<leftarrow> win_set_loop m x s2;
       if \<not> b then Some len else wcsspn_loop m s1 s2 (Suc len)
     } else Some len
   }"

definition wcsspn :: "wmem \<Rightarrow> ptr \<Rightarrow> ptr \<Rightarrow> nat option" where
  "wcsspn m s1 s2 = wcsspn_loop m s1 s2 0"

partial_function (option) wcspbrk :: "wmem \<Rightarrow> ptr \<Rightarrow> ptr \<Rightarrow> ptr option" where
  "wcspbrk m p1 s2 = do {
     x \<leftarrow> m p1;
     if x \<noteq> 0 then do {
       b \<leftarrow> win_set_loop m x s2;
       if b then Some p1 else wcspbrk m (Suc p1) s2
     } else Some NULL
   }"

partial_function (option) wcsstr_match :: "wmem \<Rightarrow> ptr \<Rightarrow> ptr \<Rightarrow> bool option" where
  "wcsstr_match m p1 p2 = do {
     y \<leftarrow> m p2;
     if y \<noteq> 0 then do {
       x \<leftarrow> m p1;
       if x = y then wcsstr_match m (Suc p1) (Suc p2) else Some False
     } else Some True
   }"

partial_function (option) wcsstr :: "wmem \<Rightarrow> ptr \<Rightarrow> ptr \<Rightarrow> ptr option" where
  "wcsstr m s1 s2 = do {
     x \<leftarrow> m s1;
     if x \<noteq> 0 then do {
       b \<leftarrow> wcsstr_match m s1 s2;
       if b then Some s1 else wcsstr m (Suc s1) s2
     } else Some NULL
   }"

partial_function (option) wcstok_skip :: "wmem \<Rightarrow> ptr \<Rightarrow> ptr \<Rightarrow> ptr \<Rightarrow> ptr option" where
  "wcstok_skip m s2 p s1 = do {
     y \<leftarrow> m p;
     if y \<noteq> 0 then do {
       x \<leftarrow> m s1;
       if x \<noteq> 0 then (if x = y then wcstok_skip m s2 s2 (Suc s1) else wcstok_skip m s2 (Suc p) s1)
       else Some s1
     } else Some s1
   }"

partial_function (option) wcstok_scan :: "wmem \<Rightarrow> ptr \<Rightarrow> ptr \<Rightarrow> ptr option" where
  "wcstok_scan m s2 p = do {
     x \<leftarrow> m p;
     if x \<noteq> 0 then do {
       b \<leftarrow> win_set_loop m x s2;
       if b then Some p else wcstok_scan m s2 (Suc p)
     } else Some NULL
   }"

text \<open>The argument \<open>pt\<close> is \<open>*ptr\<close>: memory, new \<open>*ptr\<close> and the returned pointer.\<close>

definition wcstok :: "wmem \<Rightarrow> ptr \<Rightarrow> ptr \<Rightarrow> ptr \<Rightarrow> (wmem \<times> ptr \<times> ptr) option" where
  "wcstok m pt s1 s2 = (
     if s1 = NULL \<and> pt = NULL then Some (m, pt, NULL)
     else do {
       s \<leftarrow> wcstok_skip m s2 s2 (if s1 \<noteq> NULL then s1 else pt);
       x \<leftarrow> m s;
       if x = 0 then Some (m, NULL, NULL)
       else do {
         e \<leftarrow> wcstok_scan m s2 s;
         if e = NULL then Some (m, NULL, s)
         else do { m' \<leftarrow> store m e 0; Some (m', Suc e, s) }
       }
     })"

section \<open>A byte memory as a wide one\<close>

definition widen :: "mem \<Rightarrow> wmem" where
  "widen m = (\<lambda>a. map_option ucast (m a))"

lemma widen_bind [simp]: "Option.bind (widen m a) f = Option.bind (m a) (\<lambda>x. f (ucast x))"
  by (cases "m a") (simp_all add: widen_def)

lemma store_widen: "store (widen m) p (ucast v) = map_option widen (store m p v)"
  by (auto simp: store_def widen_def)

lemma store_widen_0: "store (widen m) p 0 = map_option widen (store m p 0)"
  using store_widen [of m p 0] by simp

lemma bind_map_option: "Option.bind (map_option h x) f = Option.bind x (\<lambda>y. f (h y))"
  by (cases x) auto

lemma map_option_bind: "map_option h (Option.bind x f) = Option.bind x (\<lambda>y. map_option h (f y))"
  by (cases x) auto

lemma sint_u8_diff: "sint (ucast (x :: u8) - ucast (y :: u8) :: u32) = uint x - uint y"
proof -
  have b: "0 \<le> uint x" "uint x < 256" "0 \<le> uint y" "uint y < 256"
    using uint_bounded [of x] uint_bounded [of y] by simp_all
  have u: "uint (ucast z :: u32) = uint z" for z :: u8
    by (simp only: uint_nat unat_ucast_up)
  have e: "(ucast x - ucast y :: u32) = word_of_int (uint x - uint y)"
    by (simp only: word_sub_wi u)
  have s: "sint (word_of_int k :: u32) = signed_take_bit 31 k" for k
    by (subst signed_of_int) simp
  have "-256 < uint x - uint y" "uint x - uint y < 256" using b by linarith+
  then have "signed_take_bit 31 (uint x - uint y) = uint x - uint y"
    by (intro signed_take_bit_int_eq_self) simp_all
  then show ?thesis by (simp only: e s)
qed

lemma sint_u8_neg: "sint (- ucast (y :: u8) :: u32) = - uint y"
  using sint_u8_diff [of 0 y] by simp

lemma wcslen_1: "strlen_loop m s n = Some v \<Longrightarrow> wcslen_loop (widen m) (s + n) n = Some v"
  by (induction rule: strlen_loop.raw_induct [rotated, consumes 1], subst wcslen_loop.simps)
    (auto simp: ucast_u8_zero simp flip: add_Suc_right split: if_splits elim!: bind_SomeE)

lemma wcslen_2: "wcslen_loop M a n = Some v \<Longrightarrow> M = widen m \<Longrightarrow> a = s + n \<Longrightarrow> strlen_loop m s n = Some v"
  by (induction arbitrary: s m rule: wcslen_loop.raw_induct [rotated, consumes 1], subst strlen_loop.simps)
    (auto simp: ucast_u8_zero split: if_splits elim!: bind_SomeE)

lemma wcslen_widen: "wcslen (widen m) s = strlen m s"
  unfolding wcslen_def strlen_def
proof (rule option_eqI)
  show "wcslen_loop (widen m) s 0 = Some v \<Longrightarrow> strlen_loop m s 0 = Some v" for v by (rule wcslen_2) simp_all
  show "strlen_loop m s 0 = Some v \<Longrightarrow> wcslen_loop (widen m) s 0 = Some v" for v using wcslen_1 [of m s 0 v] by simp
qed

lemma wskip_widen: "wskip_to_nul (widen m) s = skip_to_nul m s"
proof (rule option_eqI)
  show "skip_to_nul m s = Some v \<Longrightarrow> wskip_to_nul (widen m) s = Some v" for v
    by (induction rule: skip_to_nul.raw_induct [rotated, consumes 1], subst wskip_to_nul.simps)
      (auto simp: ucast_u8_zero split: if_splits elim!: bind_SomeE)
  have "wskip_to_nul M s = Some v \<Longrightarrow> M = widen m \<Longrightarrow> skip_to_nul m s = Some v" for v M
    by (induction rule: wskip_to_nul.raw_induct [rotated, consumes 1], subst skip_to_nul.simps)
      (auto simp: ucast_u8_zero split: if_splits elim!: bind_SomeE)
  then show "wskip_to_nul (widen m) s = Some v \<Longrightarrow> skip_to_nul m s = Some v" for v by blast
qed

lemma wcscat_loop_widen: "wcscat_loop (widen m) s1 s2 = map_option widen (strcpy_loop m s1 s2)"
proof (rule option_eqI)
  have "strcpy_loop m s1 s2 = Some v \<Longrightarrow> wcscat_loop (widen m) s1 s2 = Some (widen v)" for v
    by (induction rule: strcpy_loop.raw_induct [rotated, consumes 1], subst wcscat_loop.simps)
      (auto simp: ucast_u8_zero store_widen store_widen_0 split: if_splits elim!: bind_SomeE)
  then show "map_option widen (strcpy_loop m s1 s2) = Some v \<Longrightarrow> wcscat_loop (widen m) s1 s2 = Some v" for v by auto
  have "wcscat_loop M s1 s2 = Some v \<Longrightarrow> M = widen m \<Longrightarrow> map_option widen (strcpy_loop m s1 s2) = Some v" for v M
    by (induction arbitrary: m rule: wcscat_loop.raw_induct [rotated, consumes 1], subst strcpy_loop.simps)
      (auto simp: ucast_u8_zero store_widen store_widen_0 split: if_splits elim!: bind_SomeE)
  then show "wcscat_loop (widen m) s1 s2 = Some v \<Longrightarrow> map_option widen (strcpy_loop m s1 s2) = Some v" for v by blast
qed

lemma win_set_widen: "win_set_loop (widen m) (ucast c) p = in_set_loop m c p"
proof (rule option_eqI)
  show "in_set_loop m c p = Some v \<Longrightarrow> win_set_loop (widen m) (ucast c) p = Some v" for v
    by (induction rule: in_set_loop.raw_induct [rotated, consumes 1], subst win_set_loop.simps)
      (auto simp: ucast_u8_zero ucast_u8_inject split: if_splits elim!: bind_SomeE)
  have "win_set_loop M d p = Some v \<Longrightarrow> M = widen m \<Longrightarrow> d = ucast c \<Longrightarrow> in_set_loop m c p = Some v" for v M d
    by (induction rule: win_set_loop.raw_induct [rotated, consumes 1], subst in_set_loop.simps)
      (auto simp: ucast_u8_zero ucast_u8_inject split: if_splits elim!: bind_SomeE)
  then show "win_set_loop (widen m) (ucast c) p = Some v \<Longrightarrow> in_set_loop m c p = Some v" for v by blast
qed

lemma wcscspn_widen: "wcscspn_loop (widen m) s1 s2 n = strcspn_loop m s1 s2 n"
proof (rule option_eqI)
  show "strcspn_loop m s1 s2 n = Some v \<Longrightarrow> wcscspn_loop (widen m) s1 s2 n = Some v" for v
    by (induction rule: strcspn_loop.raw_induct [rotated, consumes 1], subst wcscspn_loop.simps)
      (auto simp: ucast_u8_zero win_set_widen split: if_splits elim!: bind_SomeE)
  have "wcscspn_loop M s1 s2 n = Some v \<Longrightarrow> M = widen m \<Longrightarrow> strcspn_loop m s1 s2 n = Some v" for v M
    by (induction rule: wcscspn_loop.raw_induct [rotated, consumes 1], subst strcspn_loop.simps)
      (auto simp: ucast_u8_zero win_set_widen split: if_splits elim!: bind_SomeE)
  then show "wcscspn_loop (widen m) s1 s2 n = Some v \<Longrightarrow> strcspn_loop m s1 s2 n = Some v" for v by blast
qed

lemma wcsspn_widen: "wcsspn_loop (widen m) s1 s2 n = strspn_loop m s1 s2 n"
proof (rule option_eqI)
  show "strspn_loop m s1 s2 n = Some v \<Longrightarrow> wcsspn_loop (widen m) s1 s2 n = Some v" for v
    by (induction rule: strspn_loop.raw_induct [rotated, consumes 1], subst wcsspn_loop.simps)
      (auto simp: ucast_u8_zero win_set_widen split: if_splits elim!: bind_SomeE)
  have "wcsspn_loop M s1 s2 n = Some v \<Longrightarrow> M = widen m \<Longrightarrow> strspn_loop m s1 s2 n = Some v" for v M
    by (induction rule: wcsspn_loop.raw_induct [rotated, consumes 1], subst strspn_loop.simps)
      (auto simp: ucast_u8_zero win_set_widen split: if_splits elim!: bind_SomeE)
  then show "wcsspn_loop (widen m) s1 s2 n = Some v \<Longrightarrow> strspn_loop m s1 s2 n = Some v" for v by blast
qed

lemma wcspbrk_widen: "wcspbrk (widen m) s1 s2 = strpbrk m s1 s2"
proof (rule option_eqI)
  show "strpbrk m s1 s2 = Some v \<Longrightarrow> wcspbrk (widen m) s1 s2 = Some v" for v
    by (induction rule: strpbrk.raw_induct [rotated, consumes 1], subst wcspbrk.simps)
      (auto simp: ucast_u8_zero win_set_widen split: if_splits elim!: bind_SomeE)
  have "wcspbrk M s1 s2 = Some v \<Longrightarrow> M = widen m \<Longrightarrow> strpbrk m s1 s2 = Some v" for v M
    by (induction rule: wcspbrk.raw_induct [rotated, consumes 1], subst strpbrk.simps)
      (auto simp: ucast_u8_zero win_set_widen split: if_splits elim!: bind_SomeE)
  then show "wcspbrk (widen m) s1 s2 = Some v \<Longrightarrow> strpbrk m s1 s2 = Some v" for v by blast
qed

lemma wcsstr_match_widen: "wcsstr_match (widen m) p q = strstr_match m p q"
proof (rule option_eqI)
  show "strstr_match m p q = Some v \<Longrightarrow> wcsstr_match (widen m) p q = Some v" for v
    by (induction rule: strstr_match.raw_induct [rotated, consumes 1], subst wcsstr_match.simps)
      (auto simp: ucast_u8_zero ucast_u8_inject split: if_splits elim!: bind_SomeE)
  have "wcsstr_match M p q = Some v \<Longrightarrow> M = widen m \<Longrightarrow> strstr_match m p q = Some v" for v M
    by (induction rule: wcsstr_match.raw_induct [rotated, consumes 1], subst strstr_match.simps)
      (auto simp: ucast_u8_zero ucast_u8_inject split: if_splits elim!: bind_SomeE)
  then show "wcsstr_match (widen m) p q = Some v \<Longrightarrow> strstr_match m p q = Some v" for v by blast
qed

lemma wcsstr_widen: "wcsstr (widen m) s1 s2 = strstr m s1 s2"
proof (rule option_eqI)
  show "strstr m s1 s2 = Some v \<Longrightarrow> wcsstr (widen m) s1 s2 = Some v" for v
    by (induction rule: strstr.raw_induct [rotated, consumes 1], subst wcsstr.simps)
      (auto simp: ucast_u8_zero wcsstr_match_widen split: if_splits elim!: bind_SomeE)
  have "wcsstr M s1 s2 = Some v \<Longrightarrow> M = widen m \<Longrightarrow> strstr m s1 s2 = Some v" for v M
    by (induction rule: wcsstr.raw_induct [rotated, consumes 1], subst strstr.simps)
      (auto simp: ucast_u8_zero wcsstr_match_widen split: if_splits elim!: bind_SomeE)
  then show "wcsstr (widen m) s1 s2 = Some v \<Longrightarrow> strstr m s1 s2 = Some v" for v by blast
qed

lemma wcstok_skip_widen: "wcstok_skip (widen m) s2 p s1 = strtok_skip m s2 p s1"
proof (rule option_eqI)
  show "strtok_skip m s2 p s1 = Some v \<Longrightarrow> wcstok_skip (widen m) s2 p s1 = Some v" for v
    by (induction rule: strtok_skip.raw_induct [rotated, consumes 1], subst wcstok_skip.simps)
      (auto simp: ucast_u8_zero ucast_u8_inject split: if_splits elim!: bind_SomeE)
  have "wcstok_skip M s2 p s1 = Some v \<Longrightarrow> M = widen m \<Longrightarrow> strtok_skip m s2 p s1 = Some v" for v M
    by (induction rule: wcstok_skip.raw_induct [rotated, consumes 1], subst strtok_skip.simps)
      (auto simp: ucast_u8_zero ucast_u8_inject split: if_splits elim!: bind_SomeE)
  then show "wcstok_skip (widen m) s2 p s1 = Some v \<Longrightarrow> strtok_skip m s2 p s1 = Some v" for v by blast
qed

lemma wcstok_scan_widen: "wcstok_scan (widen m) s2 p = strtok_scan m s2 p"
proof (rule option_eqI)
  show "strtok_scan m s2 p = Some v \<Longrightarrow> wcstok_scan (widen m) s2 p = Some v" for v
    by (induction rule: strtok_scan.raw_induct [rotated, consumes 1], subst wcstok_scan.simps)
      (auto simp: ucast_u8_zero win_set_widen split: if_splits elim!: bind_SomeE)
  have "wcstok_scan M s2 p = Some v \<Longrightarrow> M = widen m \<Longrightarrow> strtok_scan m s2 p = Some v" for v M
    by (induction rule: wcstok_scan.raw_induct [rotated, consumes 1], subst strtok_scan.simps)
      (auto simp: ucast_u8_zero win_set_widen split: if_splits elim!: bind_SomeE)
  then show "wcstok_scan (widen m) s2 p = Some v \<Longrightarrow> strtok_scan m s2 p = Some v" for v by blast
qed

lemma wcscmp_widen: "wcscmp (widen m) p q = strcmp m p q"
proof (rule option_eqI)
  show "strcmp m p q = Some v \<Longrightarrow> wcscmp (widen m) p q = Some v" for v
    by (induction rule: strcmp.raw_induct [rotated, consumes 1], subst wcscmp.simps)
      (auto simp: ucast_u8_zero ucast_u8_inject sint_u8_diff sint_u8_neg split: if_splits elim!: bind_SomeE)
  have "wcscmp M p q = Some v \<Longrightarrow> M = widen m \<Longrightarrow> strcmp m p q = Some v" for v M
    by (induction rule: wcscmp.raw_induct [rotated, consumes 1], subst strcmp.simps)
      (auto simp: ucast_u8_zero ucast_u8_inject sint_u8_diff sint_u8_neg split: if_splits elim!: bind_SomeE)
  then show "wcscmp (widen m) p q = Some v \<Longrightarrow> strcmp m p q = Some v" for v by blast
qed

lemmas widen_simps = ucast_u8_zero ucast_u8_inject sint_u8_diff sint_u8_neg store_widen store_widen_0 bind_map_option map_option_bind

lemma wcsncmp_widen: "wcsncmp (widen m) p q n = strncmp m p q n"
  by (induction n arbitrary: p q) (simp_all add: widen_simps cong: if_cong)

lemma wmemcmp_widen: "wmemcmp (widen m) p q n = memcmp m p q n"
  by (induction n arbitrary: p q) (simp_all add: widen_simps cong: if_cong)

lemma wmemchr_widen: "wmemchr (widen m) p (ucast c) n = memchr_loop m p c n"
  by (induction n arbitrary: p) (simp_all add: widen_simps cong: if_cong)

lemma if_map_option: "(if b then map_option h x else map_option h y) = map_option h (if b then x else y)"
  by simp

lemma wmemcpy_loop_widen: "wmemcpy_loop (widen m) p q n = map_option widen (memcpy_loop m p q n)"
  by (induction n arbitrary: m p q) (simp_all add: widen_simps cong: if_cong)

lemma wmemmove_down_widen: "wmemmove_down (widen m) p q n = map_option widen (memmove_down m p q n)"
  by (induction n arbitrary: m p q) (simp_all add: widen_simps cong: if_cong)

lemma wcsncpy_copy_widen: "wcsncpy_copy (widen m) p q n = map_option (apfst widen) (strncpy_copy m p q n)"
  by (induction n arbitrary: m p q) (simp_all add: widen_simps if_distrib [of "map_option _"] cong: if_cong)

lemma wcsncpy_fill_widen: "wcsncpy_fill (widen m) p n = map_option widen (strncpy_fill m p n)"
  by (induction n arbitrary: m p) (simp_all add: widen_simps cong: if_cong)

lemma wcsncat_copy_widen: "wcsncat_copy (widen m) p q n = map_option (apfst widen) (strncat_copy m p q n)"
  by (induction n arbitrary: m p q) (simp_all add: widen_simps if_distrib [of "map_option _"] cong: if_cong)

lemma wcscat_widen: "wcscat (widen m) p q = map_option (apfst widen) (strcat m p q)"
  by (simp add: wcscat_def strcat_def widen_simps wskip_widen wcscat_loop_widen cong: if_cong)

lemma wcsncat_widen: "wcsncat (widen m) p q n = map_option (apfst widen) (strncat m p q n)"
  by (simp add: wcsncat_def strncat_def widen_simps wskip_widen wcsncat_copy_widen case_prod_unfold
      if_distrib [of "map_option _"] if_distrib [of "\<lambda>x. Option.bind x _"] cong: if_cong)

lemma wcsncpy_widen: "wcsncpy (widen m) p q n = map_option (apfst widen) (strncpy m p q n)"
  by (simp add: wcsncpy_def strncpy_def widen_simps wcsncpy_copy_widen wcsncpy_fill_widen case_prod_unfold)

lemma wmemcpy_widen: "wmemcpy (widen m) p q n = map_option (apfst widen) (memcpy m p q n)"
  by (simp add: wmemcpy_def memcpy_def widen_simps wmemcpy_loop_widen)

lemma wmemmove_widen: "wmemmove (widen m) p q n = map_option (apfst widen) (memmove m p q n)"
  by (simp add: wmemmove_def memmove_def widen_simps wmemcpy_loop_widen wmemmove_down_widen)

lemma wcstok_widen: "wcstok (widen m) t p q = map_option (apfst widen) (strtok m t p q)"
  by (simp add: wcstok_def strtok_def widen_simps wcstok_skip_widen wcstok_scan_widen
      if_distrib [of "map_option _"] cong: if_cong)

section \<open>Properties\<close>

text \<open>
  C36. On every byte memory the wide functions do what the byte string functions do, with the same
  result, the same memory, and the same faults and endless loops.
\<close>
theorem wide_functions_match_bytes:
  "wcslen (widen m) p = strlen m p \<and> wcscmp (widen m) p q = strcmp m p q \<and>
   wcsncmp (widen m) p q n = strncmp m p q n \<and>
   wcscspn (widen m) p q = strcspn m p q \<and> wcsspn (widen m) p q = strspn m p q \<and>
   wcspbrk (widen m) p q = strpbrk m p q \<and> wcsstr (widen m) p q = strstr m p q \<and>
   wcscat (widen m) p q = map_option (apfst widen) (strcat m p q) \<and>
   wcsncat (widen m) p q n = map_option (apfst widen) (strncat m p q n) \<and>
   wcsncpy (widen m) p q n = map_option (apfst widen) (strncpy m p q n) \<and>
   wcstok (widen m) t p q = map_option (apfst widen) (strtok m t p q) \<and>
   wmemcpy (widen m) p q n = map_option (apfst widen) (memcpy m p q n) \<and>
   wmemmove (widen m) p q n = map_option (apfst widen) (memmove m p q n) \<and>
   wmemcmp (widen m) p q n = memcmp m p q n \<and>
   wmemchr (widen m) p (ucast (of_int c :: u8)) n = memchr m p c n"
  by (simp add: wcslen_widen wcscmp_widen wcsncmp_widen wcscspn_def strcspn_def wcscspn_widen wcsspn_def
      strspn_def wcsspn_widen wcspbrk_widen wcsstr_widen wcscat_widen wcsncat_widen wcsncpy_widen wcstok_widen
      wmemcpy_widen wmemmove_widen wmemcmp_widen memchr_def wmemchr_widen)

lemma wcscpy_loop_write:
  assumes "cstr m q s" "mapped m p (length s)" "p + length s \<le> q \<or> q + length s < p"
  shows "wcscpy_loop m p q = Some (write_bytes m p s)"
  using assms
proof (induction s arbitrary: m p q)
  case Nil
  then show ?case by (subst wcscpy_loop.simps) (simp add: mem_simps)
next
  case (Cons x s)
  have "wcscpy_loop (m(p \<mapsto> x)) (Suc p) (Suc q) = Some (write_bytes (m(p \<mapsto> x)) (Suc p) s)"
  proof (rule Cons.IH)
    show "cstr (m(p \<mapsto> x)) (Suc q) s" using Cons.prems by (subst cstr_upd) (auto simp: mem_simps)
  qed (use Cons.prems in \<open>auto simp: mem_simps simp del: fun_upd_apply\<close>)
  moreover obtain y where "m p = Some y" using Cons.prems(2) by (auto simp: mem_simps)
  ultimately show ?case using Cons.prems(1)
    by (subst wcscpy_loop.simps) (simp add: mem_simps)
qed

text \<open>
  \<open>wcscpy\<close> copies the characters but not the terminator: it writes exactly the length of the source,
  and the destination is the copied string only where a terminator happened to lie behind it.
\<close>
theorem wcscpy_no_terminator:
  assumes "cstr m src s" "mapped m dest (length s)" "dest + length s \<le> src \<or> src + length s < dest"
  shows "wcscpy m dest src = Some (write_bytes m dest s, dest) \<and>
    (cstr (write_bytes m dest s) dest s \<longleftrightarrow> m (dest + length s) = Some 0)"
proof -
  have "0 \<notin> set s" using assms(1) by (simp add: cstr_def)
  then have "cstr (write_bytes m dest s) dest s \<longleftrightarrow> m (dest + length s) = Some 0"
    by (simp add: cstr_def bytes_at_append write_bytes_bytes write_bytes_apply)
  then show ?thesis using wcscpy_loop_write [OF assms] by (simp add: wcscpy_def)
qed

theorem wcscpy_no_terminator_witness:
  "wcscpy [1 \<mapsto> 0x41, 2 \<mapsto> 0, 5 \<mapsto> 7, 6 \<mapsto> 7] 5 1 =
      Some (write_bytes [1 \<mapsto> 0x41, 2 \<mapsto> 0, 5 \<mapsto> 7, 6 \<mapsto> 7] 5 [0x41], 5) \<and>
    (cstr (write_bytes [1 \<mapsto> 0x41, 2 \<mapsto> 0, 5 \<mapsto> 7, 6 \<mapsto> 7] 5 [0x41 :: u32]) 5 [0x41 :: u32] \<longleftrightarrow>
      [1 \<mapsto> 0x41, 2 \<mapsto> 0, 5 \<mapsto> 7, 6 \<mapsto> (7 :: u32)] (5 + length [0x41 :: u32]) = Some 0)"
  by (rule wcscpy_no_terminator) (simp_all add: mem_simps)

text \<open>A search for the terminating zero finds it in the byte function only.\<close>

lemma wcschr_cstr: "cstr m p s \<Longrightarrow> wcschr m p c = Some (if c \<in> set s then p + length (takeWhile ((\<noteq>) c) s) else NULL)"
proof (induction s arbitrary: p)
  case Nil
  then show ?case by (subst wcschr.simps) (simp add: mem_simps)
next
  case (Cons x s)
  then show ?case by (subst wcschr.simps) (auto simp: mem_simps)
qed

lemma wcschr_misses_terminator: "cstr m p s \<Longrightarrow> wcschr m p 0 = Some NULL"
  by (subst wcschr_cstr) (auto simp: cstr_def)

lemma wcsrchr_loop_none: "cstr m p s \<Longrightarrow> c \<notin> set s \<Longrightarrow> wcsrchr_loop m p c f = Some f"
  by (induction s arbitrary: p) (subst wcsrchr_loop.simps, auto simp: mem_simps)+

lemma wcsrchr_loop_last:
  "cstr m p (s @ c # t) \<Longrightarrow> c \<notin> set t \<Longrightarrow> wcsrchr_loop m p c f = Some (p + length s)"
proof (induction s arbitrary: p f)
  case Nil
  then show ?case using wcsrchr_loop_none [of m "Suc p" t c p]
    by (subst wcsrchr_loop.simps) (simp add: mem_simps)
next
  case (Cons x s)
  then show ?case by (subst wcsrchr_loop.simps) (auto simp: mem_simps)
qed

text \<open>
  The comparison subtracts 32-bit numbers, so a difference beyond the range of an int has the wrong
  sign; no two Unicode characters are that far apart.
\<close>

lemma wcscmp_wraps: "wcscmp [1 \<mapsto> 0x7FFFFFFF, 2 \<mapsto> 0, 3 \<mapsto> 0xFFFFFFFF, 4 \<mapsto> 0] 1 3 = Some (- 0x80000000)"
  by (simp add: wcscmp.simps sint_u32)

end
