(* ===== verification/PdcWctype.thy ===== *)
theory PdcWctype
  imports PdcCtype PdcSort PdcString
begin

text \<open>
  Wide character classes (pdclib/functions/wctype) and the table look-up of
  \<open>_PDCLIB_locale.h\<close>. A locale brings a table of character records, generated from the Unicode data,
  which is found by \<open>bsearch\<close>; the kernel's only locale has none. The table is the argument of the
  functions, and the properties say what the look-up finds in any sorted table.
\<close>

section \<open>The table of a locale\<close>

record wcinfo =
  wc_num :: u32
  wc_flags :: u16
  wc_lower :: u32
  wc_upper :: u32

record wclocale =
  WCType :: "wcinfo list"
  WCTypeSize :: nat

text \<open>The initialiser of \<open>_PDCLIB_global_locale\<close> names neither member: a null pointer and the size 0.\<close>

definition global_wclocale :: wclocale where
  "global_wclocale = \<lparr>WCType = [], WCTypeSize = 0\<rparr>"

text \<open>The key is unsigned, so the difference is computed in 32 bits and converted to an int.\<close>

definition wcinfo_cmp :: "u32 \<Rightarrow> wcinfo \<Rightarrow> int" where
  "wcinfo_cmp key obj = sint (key - wc_num obj)"

text \<open>None is a fault, Some None the null pointer.\<close>

definition wcgetinfo :: "wclocale \<Rightarrow> u32 \<Rightarrow> wcinfo option option" where
  "wcgetinfo l num = do {
     i \<leftarrow> bsearch wcinfo_cmp num (WCType l) (WCTypeSize l);
     case i of None \<Rightarrow> Some None | Some i \<Rightarrow> map_option Some (elem_at (WCType l) i)
   }"

text \<open>The packed surrogates are for a \<open>wchar_t\<close> of two bytes (and a \<open>wint_t\<close> of four); here it has four.\<close>

definition unpackwint :: "nat \<Rightarrow> u32 \<Rightarrow> u32" where
  "unpackwint wchar_size wc =
     (if wchar_size = 2 then
        let c = wc AND 0xF800F800 in
        if c = 0xD800DC00 then push_bit 10 (drop_bit 16 wc AND 0x3FF) OR (wc AND 0x3FF)
        else if c = 0xDC00D800 then push_bit 10 (wc AND 0x3FF) OR (drop_bit 16 wc AND 0x3FF)
        else wc
      else wc)"

definition wchar_size :: nat where "wchar_size = 4"

section \<open>Classification\<close>

definition iswctype_l :: "u32 \<Rightarrow> u32 \<Rightarrow> wclocale \<Rightarrow> u32 option" where
  "iswctype_l wc desc l = do {
     info \<leftarrow> wcgetinfo l (unpackwint wchar_size wc);
     case info of None \<Rightarrow> Some 0 | Some i \<Rightarrow> Some (ucast (wc_flags i) AND desc)
   }"

text \<open>The thread's locale is always the global one, as the build selects no thread locales.\<close>

definition iswctype :: "u32 \<Rightarrow> u32 \<Rightarrow> u32 option" where
  "iswctype wc desc = iswctype_l wc desc global_wclocale"

definition iswalnum :: "u32 \<Rightarrow> u32 option" where "iswalnum wc = iswctype wc (ucast (CT_ALPHA OR CT_DIGIT))"
definition iswalpha :: "u32 \<Rightarrow> u32 option" where "iswalpha wc = iswctype wc (ucast CT_ALPHA)"
definition iswblank :: "u32 \<Rightarrow> u32 option" where "iswblank wc = iswctype wc (ucast CT_BLANK)"
definition iswcntrl :: "u32 \<Rightarrow> u32 option" where "iswcntrl wc = iswctype wc (ucast CT_CNTRL)"
definition iswdigit :: "u32 \<Rightarrow> u32 option" where "iswdigit wc = iswctype wc (ucast CT_DIGIT)"
definition iswgraph :: "u32 \<Rightarrow> u32 option" where "iswgraph wc = iswctype wc (ucast CT_GRAPH)"
definition iswlower :: "u32 \<Rightarrow> u32 option" where "iswlower wc = iswctype wc (ucast CT_LOWER)"
definition iswprint :: "u32 \<Rightarrow> u32 option" where "iswprint wc = iswctype wc (ucast (CT_GRAPH OR CT_SPACE))"
definition iswpunct :: "u32 \<Rightarrow> u32 option" where "iswpunct wc = iswctype wc (ucast CT_PUNCT)"
definition iswspace :: "u32 \<Rightarrow> u32 option" where "iswspace wc = iswctype wc (ucast CT_SPACE)"
definition iswupper :: "u32 \<Rightarrow> u32 option" where "iswupper wc = iswctype wc (ucast CT_UPPER)"
definition iswxdigit :: "u32 \<Rightarrow> u32 option" where "iswxdigit wc = iswctype wc (ucast CT_XDIGT)"

section \<open>Case mapping\<close>

definition towlower_l :: "u32 \<Rightarrow> wclocale \<Rightarrow> u32 option" where
  "towlower_l wc l = do {
     let uwc = unpackwint wchar_size wc;
     info \<leftarrow> wcgetinfo l uwc;
     case info of None \<Rightarrow> Some wc | Some i \<Rightarrow> Some (if wc_lower i \<noteq> uwc then wc_lower i else wc)
   }"

definition towlower :: "u32 \<Rightarrow> u32 option" where
  "towlower wc = towlower_l wc global_wclocale"

definition towupper_l :: "u32 \<Rightarrow> wclocale \<Rightarrow> u32 option" where
  "towupper_l wc l = do {
     let uwc = unpackwint wchar_size wc;
     info \<leftarrow> wcgetinfo l uwc;
     case info of None \<Rightarrow> Some wc | Some i \<Rightarrow> Some (if wc_upper i \<noteq> uwc then wc_upper i else wc)
   }"

definition towupper :: "u32 \<Rightarrow> u32 option" where
  "towupper wc = towupper_l wc global_wclocale"

definition WCTRANS_TOLOWER :: u32 where "WCTRANS_TOLOWER = 1"
definition WCTRANS_TOUPPER :: u32 where "WCTRANS_TOUPPER = 2"

text \<open>Any other transformation aborts.\<close>

definition towctrans_l :: "u32 \<Rightarrow> u32 \<Rightarrow> wclocale \<Rightarrow> u32 option" where
  "towctrans_l wc tr l =
     (if tr = 0 then Some wc
      else if tr = WCTRANS_TOLOWER then towlower_l wc l
      else if tr = WCTRANS_TOUPPER then towupper_l wc l
      else None)"

definition towctrans :: "u32 \<Rightarrow> u32 \<Rightarrow> u32 option" where
  "towctrans wc tr = towctrans_l wc tr global_wclocale"

section \<open>Names\<close>

text \<open>\<open>strcmp\<close> with a string constant: the loop of PdcString, the constant's bytes written out.\<close>

fun strcmp_const :: "mem \<Rightarrow> ptr \<Rightarrow> u8 list \<Rightarrow> int option" where
  "strcmp_const m p [] = do { x \<leftarrow> m p; Some (uint x) }"
| "strcmp_const m p (y # ys) = do {
     x \<leftarrow> m p;
     if x \<noteq> 0 \<and> x = y then strcmp_const m (Suc p) ys else Some (uint x - uint y)
   }"

text \<open>The bytes of an ASCII string constant.\<close>

definition ascii_bytes :: "string \<Rightarrow> u8 list" where
  "ascii_bytes s = map (of_nat \<circ> of_char) s"

definition wctrans :: "mem \<Rightarrow> ptr \<Rightarrow> u32 option" where
  "wctrans m property =
     (if property = NULL then Some 0
      else do {
        a \<leftarrow> strcmp_const m property (ascii_bytes ''tolower'');
        if a = 0 then Some WCTRANS_TOLOWER
        else do {
          b \<leftarrow> strcmp_const m property (ascii_bytes ''toupper'');
          if b = 0 then Some WCTRANS_TOUPPER else Some 0
        }
      })"

text \<open>One case of the switch of \<open>wctype\<close>: the names to try in turn, with their masks.\<close>

fun wctype_names :: "mem \<Rightarrow> ptr \<Rightarrow> (string \<times> u16) list \<Rightarrow> u32 option" where
  "wctype_names m p [] = Some 0"
| "wctype_names m p ((name, fl) # names) = do {
     a \<leftarrow> strcmp_const m p (ascii_bytes name);
     if a = 0 then Some (ucast fl) else wctype_names m p names
   }"

definition wctype_cases :: "(string \<times> u16) list list" where
  "wctype_cases =
     [[(''alpha'', CT_ALPHA), (''alnum'', CT_ALPHA OR CT_DIGIT)], [(''blank'', CT_BLANK)], [(''cntrl'', CT_CNTRL)],
      [(''digit'', CT_DIGIT)], [(''graph'', CT_GRAPH)], [(''lower'', CT_LOWER)],
      [(''print'', CT_GRAPH OR CT_SPACE), (''punct'', CT_PUNCT)], [(''space'', CT_SPACE)], [(''upper'', CT_UPPER)],
      [(''xdigit'', CT_XDIGT)]]"

definition case_letters :: "u8 list" where
  "case_letters = ascii_bytes ''abcdglpsux''"

definition wctype :: "mem \<Rightarrow> ptr \<Rightarrow> u32 option" where
  "wctype m property =
     (if property = NULL then Some 0
      else do {
        c \<leftarrow> m property;
        case map_of (zip case_letters wctype_cases) c of
          None \<Rightarrow> Some 0
        | Some cases \<Rightarrow> wctype_names m property cases
      })"

section \<open>Look-up in a sorted table\<close>

text \<open>Only the comparisons of the key with the elements of the array matter for \<open>bsearch\<close>.\<close>

lemma bsearch_loop_cong:
  assumes "\<And>x. x \<in> set xs \<Longrightarrow> c k x = c' k' x"
  shows "bsearch_loop c k xs b n = bsearch_loop c' k' xs b n"
proof (induction n arbitrary: b rule: less_induct)
  case (less n)
  show ?case
  proof (cases "n = 0")
    case True
    then show ?thesis by (simp add: bsearch_loop.simps)
  next
    case False
    show ?thesis
    proof (cases "elem_at xs (b + n div 2)")
      case None
      then show ?thesis using False by (simp add: bsearch_loop.simps [of _ _ _ b n] Let_def)
    next
      case (Some x)
      then have "c k x = c' k' x" using assms by (auto simp: elem_at_def split: if_splits)
      then show ?thesis using False Some less.IH
        by (simp add: bsearch_loop.simps [of _ _ _ b n] Let_def)
    qed
  qed
qed

definition table_ok :: "wclocale \<Rightarrow> bool" where
  "table_ok l \<longleftrightarrow> WCTypeSize l = length (WCType l) \<and>
     sorted_wrt (\<lambda>x y. wc_num x < wc_num y) (WCType l) \<and> list_all (\<lambda>x. wc_num x < 0x80000000) (WCType l)"

text \<open>On numbers below 0x80000000 the comparison is that of the numbers.\<close>

definition by_num :: "wcinfo \<Rightarrow> wcinfo \<Rightarrow> int" where
  "by_num x y = uint (wc_num x) - uint (wc_num y)"

interpretation num_order: comparator by_num
  by unfold_locales (auto simp: by_num_def)

lemma sint_diff_small:
  assumes "(a :: u32) < 0x80000000" "b < 0x80000000"
  shows "sint (a - b) = uint a - uint b"
proof -
  have b: "0 \<le> uint a" "uint a < 2 ^ 31" "0 \<le> uint b" "uint b < 2 ^ 31"
    using assms by (simp_all add: word_less_def)
  have e: "a - b = word_of_int (uint a - uint b)" by (simp only: word_sub_wi)
  have s: "sint (word_of_int k :: u32) = signed_take_bit 31 k" for k
    by (subst signed_of_int) simp
  have "- (2 ^ 31) \<le> uint a - uint b" "uint a - uint b < 2 ^ 31" using b by linarith+
  then have "signed_take_bit 31 (uint a - uint b) = uint a - uint b"
    by (intro signed_take_bit_int_eq_self) simp_all
  then show ?thesis by (simp only: e s)
qed

text \<open>Whatever the comparison does, a search inside the array returns, and only an element that compares equal.\<close>

lemma bsearch_loop_sound:
  assumes "b + n \<le> length xs"
  shows "\<exists>r. bsearch_loop c k xs b n = Some r \<and> (\<forall>i. r = Some i \<longrightarrow> i < length xs \<and> c k (xs ! i) = 0)"
  using assms
proof (induction n arbitrary: b rule: less_induct)
  case (less n)
  show ?case
  proof (cases "n = 0")
    case True
    then show ?thesis by (simp add: bsearch_loop.simps)
  next
    case False
    let ?p = "b + n div 2"
    have p: "?p < length xs" using less.prems False by (auto simp: less_le_trans)
    then have el: "elem_at xs ?p = Some (xs ! ?p)" by (simp add: elem_at_def)
    have dn: "\<exists>r. bsearch_loop c k xs b (n div 2) = Some r \<and> (\<forall>i. r = Some i \<longrightarrow> i < length xs \<and> c k (xs ! i) = 0)"
      using False less.prems by (intro less.IH) auto
    have up: "\<exists>r. bsearch_loop c k xs (?p + 1) (n div 2 - (1 - n mod 2)) = Some r \<and>
        (\<forall>i. r = Some i \<longrightarrow> i < length xs \<and> c k (xs ! i) = 0)"
    proof (rule less.IH)
      show "n div 2 - (1 - n mod 2) < n" using False by linarith
      show "?p + 1 + (n div 2 - (1 - n mod 2)) \<le> length xs"
        using False less.prems by (cases "even n") (auto elim!: evenE oddE)
    qed
    show ?thesis using False el dn up p
      by (subst (1) bsearch_loop.simps) (simp add: Let_def)
  qed
qed

lemma wcgetinfo_small:
  assumes "table_ok l" "num < 0x80000000"
  shows "wcgetinfo l num = Some (find (\<lambda>i. wc_num i = num) (WCType l))"
proof -
  let ?key = "\<lparr>wc_num = num, wc_flags = 0, wc_lower = 0, wc_upper = 0\<rparr>"
  let ?xs = "WCType l"
  have small: "x \<in> set ?xs \<Longrightarrow> wc_num x < 0x80000000" for x using assms(1) by (auto simp: table_ok_def list_all_iff)
  have e: "bsearch wcinfo_cmp num ?xs (length ?xs) = bsearch by_num ?key ?xs (length ?xs)"
    unfolding bsearch_def
    by (rule bsearch_loop_cong) (simp add: wcinfo_cmp_def by_num_def sint_diff_small [OF assms(2) small])
  have "sorted_wrt (\<lambda>x y. wc_num x < wc_num y) ?xs" using assms(1) by (simp add: table_ok_def)
  then have nth: "i < j \<Longrightarrow> j < length ?xs \<Longrightarrow> wc_num (?xs ! i) < wc_num (?xs ! j)" for i j
    by (auto simp: sorted_wrt_iff_nth_less)
  then have "sorted_range by_num 0 (length ?xs) ?xs"
    by (fastforce simp: sorted_range_def by_num_def word_less_def)
  then obtain r where r: "bsearch by_num ?key ?xs (length ?xs) = Some r"
    and c: "case r of None \<Rightarrow> \<forall>x \<in> set ?xs. by_num ?key x \<noteq> 0 | Some i \<Rightarrow> i < length ?xs \<and> by_num ?key (?xs ! i) = 0"
    using num_order.bsearch_ok [of ?xs ?key] by blast
  have k: "by_num ?key x = 0 \<longleftrightarrow> wc_num x = num" for x by (auto simp: by_num_def word_uint_eq_iff)
  show ?thesis
  proof (cases r)
    case None
    then have "find (\<lambda>i. wc_num i = num) ?xs = None" using c k by (auto simp: find_None_iff)
    then show ?thesis using r e None assms(1) by (simp add: wcgetinfo_def table_ok_def)
  next
    case (Some i)
    then have i: "i < length ?xs" "wc_num (?xs ! i) = num" using c k by auto
    then have "find (\<lambda>i. wc_num i = num) ?xs = Some (?xs ! i)"
      using nth by (subst find_Some_iff) (metis less_irrefl)
    then show ?thesis using r e Some assms(1) i by (simp add: wcgetinfo_def table_ok_def elem_at_def)
  qed
qed

lemma wcgetinfo_ok:
  assumes "table_ok l"
  shows "wcgetinfo l num = Some (find (\<lambda>i. wc_num i = num) (WCType l))"
proof (cases "num < 0x80000000")
  case True
  then show ?thesis using assms by (intro wcgetinfo_small)
next
  case False
  let ?xs = "WCType l"
  have ne: "x \<in> set ?xs \<Longrightarrow> wc_num x \<noteq> num" for x
    using assms False by (auto simp: table_ok_def list_all_iff)
  then have f: "find (\<lambda>i. wc_num i = num) ?xs = None" by (auto simp: find_None_iff)
  obtain r where r: "bsearch_loop wcinfo_cmp num ?xs 0 (length ?xs) = Some r"
    and i: "\<forall>i. r = Some i \<longrightarrow> i < length ?xs \<and> wcinfo_cmp num (?xs ! i) = 0"
    using bsearch_loop_sound [of 0 "length ?xs" ?xs wcinfo_cmp num] by auto
  have "r = None"
  proof (rule ccontr)
    assume "r \<noteq> None"
    then obtain j where "j < length ?xs" "wcinfo_cmp num (?xs ! j) = 0" using i by auto
    then have "num - wc_num (?xs ! j) = 0" unfolding wcinfo_cmp_def by (simp only: signed_eq_0_iff)
    then show False using ne [of "?xs ! j"] \<open>j < length ?xs\<close> by simp
  qed
  then show ?thesis using r f assms by (simp add: wcgetinfo_def bsearch_def table_ok_def)
qed

section \<open>Properties\<close>

text \<open>
  In every locale whose table is sorted, \<open>iswctype_l\<close> gives the flags of the character's record that the
  class asks for, and 0 for a character that has no record; this includes \<open>WEOF\<close>.
\<close>

theorem iswctype_by_table:
  assumes "table_ok l"
  shows "iswctype_l wc desc l =
    Some (case find (\<lambda>i. wc_num i = wc) (WCType l) of None \<Rightarrow> 0 | Some i \<Rightarrow> ucast (wc_flags i) AND desc)"
  using wcgetinfo_ok [OF assms, of wc]
  by (simp add: iswctype_l_def unpackwint_def wchar_size_def split: option.splits)

definition small_table :: wclocale where
  "small_table =
     \<lparr>WCType = [\<lparr>wc_num = 0x39, wc_flags = CT_DIGIT, wc_lower = 0x39, wc_upper = 0x39\<rparr>,
        \<lparr>wc_num = 0x41, wc_flags = CT_ALPHA OR CT_UPPER, wc_lower = 0x61, wc_upper = 0x41\<rparr>,
        \<lparr>wc_num = 0x61, wc_flags = CT_ALPHA OR CT_LOWER, wc_lower = 0x61, wc_upper = 0x41\<rparr>],
      WCTypeSize = 3\<rparr>"

lemma small_table_ok: "table_ok small_table"
  by (simp add: table_ok_def small_table_def)

theorem iswctype_by_table_witness:
  "iswctype_l 0x41 (ucast CT_UPPER) small_table = Some 128 \<and> iswctype_l 0x40 (ucast CT_UPPER) small_table = Some 0 \<and>
   iswctype_l 0xFFFFFFFF (ucast CT_UPPER) small_table = Some 0"
  by (simp add: iswctype_by_table [OF small_table_ok]) (simp add: small_table_def CT_ALPHA_def CT_UPPER_def)

lemma towlower_by_table:
  assumes "table_ok l"
  shows "towlower_l wc l = Some (case find (\<lambda>i. wc_num i = wc) (WCType l) of None \<Rightarrow> wc | Some i \<Rightarrow> wc_lower i)"
  using wcgetinfo_ok [OF assms, of wc]
  by (simp add: towlower_l_def unpackwint_def wchar_size_def split: option.splits)

lemma towupper_by_table:
  assumes "table_ok l"
  shows "towupper_l wc l = Some (case find (\<lambda>i. wc_num i = wc) (WCType l) of None \<Rightarrow> wc | Some i \<Rightarrow> wc_upper i)"
  using wcgetinfo_ok [OF assms, of wc]
  by (simp add: towupper_l_def unpackwint_def wchar_size_def split: option.splits)

lemma global_table_ok: "table_ok global_wclocale"
  by (simp add: table_ok_def global_wclocale_def)

lemma towctrans_aborts: "tr \<notin> {0, WCTRANS_TOLOWER, WCTRANS_TOUPPER} \<Longrightarrow> towctrans_l wc tr l = None"
  by (simp add: towctrans_l_def)

text \<open>
  In the kernel's locale, which has no table, no wide character belongs to any class and the case
  mappings change none.
\<close>

theorem kernel_has_no_wide_classes:
  "iswalpha wc = Some 0 \<and> iswdigit wc = Some 0 \<and> iswspace wc = Some 0 \<and> iswprint wc = Some 0 \<and>
   iswctype wc desc = Some 0 \<and> towlower wc = Some wc \<and> towupper wc = Some wc"
  using iswctype_by_table [OF global_table_ok]
  by (simp add: towlower_def towupper_def towlower_by_table [OF global_table_ok] towupper_by_table [OF global_table_ok]
      iswalpha_def iswdigit_def iswspace_def iswprint_def iswctype_def) (simp add: global_wclocale_def)

text \<open>The names: \<open>wctype\<close> finds the class of every name of the C standard, so it agrees with the functions above.\<close>

lemma strcmp_const_same:
  assumes "bytes_at m p (xs @ [0])" "0 \<notin> set xs"
  shows "strcmp_const m p xs = Some 0"
  using assms by (induction xs arbitrary: p) auto

lemma wctype_of_name:
  assumes "(name, fl) \<in> set (concat wctype_cases)"
    and "bytes_at m p (ascii_bytes name @ [0])" and "p \<noteq> NULL"
  shows "wctype m p = Some (ucast fl)"
proof -
  have "\<forall>x \<in> set (concat wctype_cases). bytes_at m p (ascii_bytes (fst x) @ [0]) \<longrightarrow> wctype m p = Some (ucast (snd x))"
    using assms(3)
    by (simp add: wctype_def case_letters_def wctype_cases_def ascii_bytes_def)
  then show ?thesis using assms(1,2) by fastforce
qed

end
