(* ===== verification/PdcScan.thy ===== *)
theory PdcScan
  imports PdcPrint
begin

text \<open>
  The formatted input of the C library: \<open>_PDCLIB_scan\<close> with its helpers \<open>GET\<close>, \<open>UNGET\<close> and
  \<open>IN_SCANSET\<close>, and the loops over the format in \<open>vfscanf\<close> and \<open>vsscanf\<close>. The format, the source
  string and the targets of the conversions are in the byte memory; the variable arguments, all of them
  pointers, are a list of 64-bit values. The status is that of \<open>_PDCLIB_print\<close>, with \<open>stdout\<close> beside it
  for the message about unsupported flags.
\<close>

section \<open>Characters of the source\<close>

record 'd sstatus = "'d pstatus" +
  p_stdout :: "'d FILE"

definition E_suppressed :: u32 where "E_suppressed = 1"

text \<open>Stepping the 32-bit counters.\<close>

definition up32 :: "nat \<Rightarrow> nat" where "up32 k = (k + 1) mod 2 ^ 32"
definition down32 :: "nat \<Rightarrow> nat" where "down32 k = (k + (2 ^ 32 - 1)) mod 2 ^ 32"

text \<open>The end of a string is reported as EOF and not stepped over.\<close>

definition GET :: "'d sstatus \<Rightarrow> (int \<times> 'd sstatus) option" where
  "GET st = do {
     (rc, st) \<leftarrow>
       (case p_stream st of
          Some f \<Rightarrow> do { (rc, f) \<leftarrow> fgetc f; Some (rc, st\<lparr>p_stream := Some f\<rparr>) }
        | None \<Rightarrow> do {
            x \<leftarrow> p_mem st (p_s st);
            Some (if x = 0 then (EOF, st) else (uint x, st\<lparr>p_s := p_s st + 1\<rparr>))
          });
     Some (rc, if rc \<noteq> EOF then st\<lparr>p_i := up32 (p_i st), p_current := up32 (p_current st)\<rparr> else st)
   }"

definition UNGET :: "int \<Rightarrow> 'd sstatus \<Rightarrow> 'd sstatus" where
  "UNGET c st = (
     let st = (case p_stream st of
         Some f \<Rightarrow> st\<lparr>p_stream := Some (snd (ungetc c f))\<rparr>
       | None \<Rightarrow> st\<lparr>p_s := p_s st - 1\<rparr>)
     in st\<lparr>p_i := down32 (p_i st), p_current := down32 (p_current st)\<rparr>)"

text \<open>The list holds the bytes from \<open>scanlist\<close> to \<open>end_scanlist\<close>; \<open>previous\<close> is -1 for none.\<close>

fun in_scanset :: "u8 list \<Rightarrow> int \<Rightarrow> int \<Rightarrow> bool" where
  "in_scanset [] previous rc = False"
| "in_scanset (x # xs) previous rc =
     (if x = 0x2d \<and> previous \<noteq> -1 then
        (case xs of
           [] \<Rightarrow> rc = 0x2d
         | y # ys \<Rightarrow> previous < rc \<and> rc \<le> uint y \<or> in_scanset xs (-1) rc)
      else rc = uint x \<or> in_scanset xs (uint x) rc)"

primrec load_bytes :: "mem \<Rightarrow> ptr \<Rightarrow> nat \<Rightarrow> u8 list option" where
  "load_bytes m p 0 = Some []"
| "load_bytes m p (Suc n) = do { x \<leftarrow> m p; xs \<leftarrow> load_bytes m (Suc p) n; Some (x # xs) }"

definition IN_SCANSET :: "mem \<Rightarrow> ptr \<Rightarrow> ptr \<Rightarrow> int \<Rightarrow> bool option" where
  "IN_SCANSET m scanlist end_scanlist rc =
     map_option (\<lambda>xs. in_scanset xs (-1) rc) (load_bytes m scanlist (end_scanlist - scanlist))"

section \<open>Arguments and results\<close>

definition va_ptr :: "'d sstatus \<Rightarrow> (ptr \<times> 'd sstatus) option" where
  "va_ptr st = (case p_arg st of [] \<Rightarrow> None | a # as \<Rightarrow> Some (unat a, st\<lparr>p_arg := as\<rparr>))"

definition put_byte :: "ptr \<Rightarrow> int \<Rightarrow> 'd sstatus \<Rightarrow> 'd sstatus option" where
  "put_byte p c st = do { m \<leftarrow> store (p_mem st) p (of_int c); Some (st\<lparr>p_mem := m\<rparr>) }"

text \<open>The \<open>n\<close> low bytes of a value, little endian.\<close>

primrec low_bytes :: "nat \<Rightarrow> u64 \<Rightarrow> u8 list" where
  "low_bytes 0 v = []"
| "low_bytes (Suc n) v = ucast v # low_bytes n (drop_bit 8 v)"

definition put_value :: "nat \<Rightarrow> u64 \<Rightarrow> 'd sstatus \<Rightarrow> 'd sstatus option" where
  "put_value n v st = do {
     (p, st) \<leftarrow> va_ptr st;
     m \<leftarrow> store_bytes (p_mem st) p (low_bytes n v);
     Some (st\<lparr>p_mem := m\<rparr>)
   }"

definition count :: "'d sstatus \<Rightarrow> 'd sstatus" where
  "count st = st\<lparr>p_n := up32 (p_n st)\<rparr>"

text \<open>An input error before the first conversion makes the count -1; the NULL is the result of the scan.\<close>

definition input_error :: "'d sstatus \<Rightarrow> (ptr \<times> 'd sstatus) option" where
  "input_error st = Some (NULL, if p_n st = 0 then st\<lparr>p_n := 2 ^ 32 - 1\<rparr> else st)"

section \<open>Flags, width and length modifier\<close>

definition scan_suppress :: "ptr \<Rightarrow> 'd sstatus \<Rightarrow> (ptr \<times> 'd sstatus) option" where
  "scan_suppress spec st = do {
     let st = st\<lparr>p_flags := 0, p_base := -1, p_current := 0, p_width := 0, p_prec := 0\<rparr>;
     x \<leftarrow> p_mem st spec;
     Some (if x = 0x2a then (spec + 1, st\<lparr>p_flags := p_flags st OR E_suppressed\<rparr>) else (spec, st))
   }"

text \<open>\<open>UINT_MAX\<close> stands for no width; \<open>strtol\<close> leaves the pointer when it stores nothing.\<close>

definition scan_width :: "ptr \<Rightarrow> 'd sstatus \<Rightarrow> (ptr \<times> 'd sstatus) option" where
  "scan_width spec st = do {
     (v, e, _) \<leftarrow> strtol (p_mem st) spec 10;
     let spec' = (case e of None \<Rightarrow> spec | Some p \<Rightarrow> p);
     Some (spec', st\<lparr>p_width := (if spec' = spec then 2 ^ 32 - 1 else unat (ucast v :: u32))\<rparr>)
   }"

definition set_type :: "u32 \<Rightarrow> 'd sstatus \<Rightarrow> 'd sstatus" where
  "set_type x st = st\<lparr>p_flags := p_flags st OR x\<rparr>"

definition scan_modifier :: "ptr \<Rightarrow> 'd sstatus \<Rightarrow> (ptr \<times> 'd sstatus) option" where
  "scan_modifier spec st = do {
     x \<leftarrow> p_mem st spec;
     if x = 0x68 then do {
       y \<leftarrow> p_mem st (spec + 1);
       Some (if y = 0x68 then (spec + 2, set_type E_char st) else (spec + 1, set_type E_short st))
     }
     else if x = 0x6c then do {
       y \<leftarrow> p_mem st (spec + 1);
       Some (if y = 0x6c then (spec + 2, set_type E_llong st) else (spec + 1, set_type E_long st))
     }
     else if x = 0x6a then Some (spec + 1, set_type E_intmax st)
     else if x = 0x7a then Some (spec + 1, set_type E_size st)
     else if x = 0x74 then Some (spec + 1, set_type E_ptrdiff st)
     else if x = 0x4c then Some (spec + 1, set_type E_ldouble st)
     else Some (spec, st)
   }"

section \<open>Characters and strings\<close>

text \<open>The loop of \<open>%c\<close>; the flag is \<open>value_parsed\<close>.\<close>

partial_function (option) scan_c_loop :: "ptr \<Rightarrow> bool \<Rightarrow> 'd sstatus \<Rightarrow> (bool \<times> 'd sstatus) option" where
  "scan_c_loop c parsed st =
     (if p_current st < p_width st then do {
        (rc, st) \<leftarrow> GET st;
        if rc \<noteq> EOF then do { st \<leftarrow> put_byte c rc st; scan_c_loop (Suc c) True st }
        else Some (parsed, st)
      }
      else Some (parsed, st))"

text \<open>The width is 32 bits wide and \<open>SIZE_MAX\<close> 64, so the test for the default width fails for every width.\<close>

definition scan_c :: "ptr \<Rightarrow> 'd sstatus \<Rightarrow> (ptr \<times> 'd sstatus) option" where
  "scan_c spec st = do {
     (c, st) \<leftarrow> va_ptr st;
     let st = (if p_width st = 2 ^ 64 - 1 then st\<lparr>p_width := 1\<rparr> else st);
     (parsed, st) \<leftarrow> scan_c_loop c False st;
     if parsed then Some (spec + 1, count st) else input_error st
   }"

text \<open>The loop of \<open>%s\<close>: whether white space ended it, where to store next, whether something was stored.\<close>

partial_function (option) scan_s_loop ::
  "ptr \<Rightarrow> bool \<Rightarrow> 'd sstatus \<Rightarrow> (bool \<times> ptr \<times> bool \<times> 'd sstatus) option" where
  "scan_s_loop c parsed st =
     (if p_current st < p_width st then do {
        (rc, st) \<leftarrow> GET st;
        if rc \<noteq> EOF then do {
          sp \<leftarrow> isspace rc;
          if sp \<noteq> 0 then Some (True, c, parsed, UNGET rc st)
          else do { st \<leftarrow> put_byte c rc st; scan_s_loop (Suc c) True st }
        }
        else Some (False, c, parsed, st)
      }
      else Some (False, c, parsed, st))"

definition scan_s :: "ptr \<Rightarrow> 'd sstatus \<Rightarrow> (ptr \<times> 'd sstatus) option" where
  "scan_s spec st = do {
     (c, st) \<leftarrow> va_ptr st;
     (space, c, parsed, st) \<leftarrow> scan_s_loop c False st;
     if parsed then do { st \<leftarrow> put_byte c 0 st; Some (spec + 1, count st) }
     else if space then Some (NULL, st)
     else input_error st
   }"

text \<open>The loop of \<open>%[\<close>; \<open>rc\<close> is the last character, or EOF.\<close>

partial_function (option) scan_set_loop ::
  "bool \<Rightarrow> ptr \<Rightarrow> ptr \<Rightarrow> ptr \<Rightarrow> bool \<Rightarrow> int \<Rightarrow> 'd sstatus \<Rightarrow> (ptr \<times> bool \<times> int \<times> 'd sstatus) option" where
  "scan_set_loop negative spec endspec c parsed rc st =
     (if p_current st < p_width st then do {
        (rc, st) \<leftarrow> GET st;
        if rc \<noteq> EOF then do {
          member \<leftarrow> IN_SCANSET (p_mem st) spec endspec rc;
          if member = negative then Some (c, parsed, rc, UNGET rc st)
          else do { st \<leftarrow> put_byte c rc st; scan_set_loop negative spec endspec (Suc c) True rc st }
        }
        else Some (c, parsed, rc, st)
      }
      else Some (c, parsed, rc, st))"

text \<open>The search for the closing bracket starts after the first character of the set.\<close>

partial_function (option) close_bracket :: "mem \<Rightarrow> ptr \<Rightarrow> ptr option" where
  "close_bracket m p = do { x \<leftarrow> m (Suc p); if x \<noteq> 0x5d then close_bracket m (Suc p) else Some (Suc p) }"

text \<open>With a width of 0 no character is read and \<open>rc0\<close>, an uninitialised variable, is compared with EOF.\<close>

definition scan_set :: "int \<Rightarrow> ptr \<Rightarrow> 'd sstatus \<Rightarrow> (ptr \<times> 'd sstatus) option" where
  "scan_set rc0 spec st = do {
     x \<leftarrow> p_mem st (spec + 1);
     let negative = (x = 0x5e);
     let spec = (if negative then spec + 2 else spec + 1);
     endspec \<leftarrow> close_bracket (p_mem st) spec;
     (c, st) \<leftarrow> va_ptr st;
     (c, parsed, rc, st) \<leftarrow> scan_set_loop negative spec endspec c False rc0 st;
     if parsed then do { st \<leftarrow> put_byte c 0 st; Some (endspec + 1, count st) }
     else Some (NULL, if rc = EOF then st\<lparr>p_n := 2 ^ 32 - 1\<rparr> else st)
   }"

section \<open>Integers\<close>

text \<open>\<open>memchr( _PDCLIB_digits, tolower( rc ), base )\<close> for a character of the source.\<close>

definition digit_of :: "int \<Rightarrow> int \<Rightarrow> ptr option" where
  "digit_of rc base = do { t \<leftarrow> tolower rc; memchr pdclib_digits 1 t (nat base) }"

definition set_base :: "int \<Rightarrow> 'd sstatus \<Rightarrow> 'd sstatus" where
  "set_base b st = (if p_base st = 0 then st\<lparr>p_base := b\<rparr> else st)"

text \<open>
  After a zero: whether to go on, \<open>value_parsed\<close> as it is then, and the last character.
\<close>

definition scan_prefix :: "bool \<Rightarrow> int \<Rightarrow> 'd sstatus \<Rightarrow> (bool \<times> bool \<times> int \<times> 'd sstatus) option" where
  "scan_prefix parsed rc st =
     (if p_current st < p_width st then do {
        (rc, st) \<leftarrow> GET st;
        if rc \<noteq> EOF then do {
          l \<leftarrow> tolower rc;
          Some (if l = 0x78 then
                  (if p_base st = 0 \<or> p_base st = 16 then (True, parsed, rc, st\<lparr>p_base := 16\<rparr>)
                   else (True, True, rc, UNGET rc st))
                else (True, True, rc, set_base 8 (UNGET rc st)))
        }
        else Some (False, True, rc, st)
      }
      else Some (False, True, rc, st))"

text \<open>
  The loop: \<open>sg\<close> is 0 until a sign or another character was met. The result is the absolute value, the
  sign, \<open>value_parsed\<close> and the last character.
\<close>

partial_function (option) scan_int_loop ::
  "u64 \<Rightarrow> bool \<Rightarrow> int \<Rightarrow> bool \<Rightarrow> int \<Rightarrow> 'd sstatus \<Rightarrow> (u64 \<times> int \<times> bool \<times> int \<times> 'd sstatus) option" where
  "scan_int_loop v pfx sg parsed rc st =
     (if p_current st < p_width st then do {
        (rc, st) \<leftarrow> GET st;
        if rc \<noteq> EOF then do {
          sp \<leftarrow> isspace rc;
          if sp \<noteq> 0 then
            (if sg \<noteq> 0 then Some (v, sg, parsed, rc, UNGET rc st)
             else scan_int_loop v pfx sg parsed rc (st\<lparr>p_current := down32 (p_current st)\<rparr>))
          else if sg = 0 then
            (if rc = 0x2d then scan_int_loop v pfx (-1) parsed rc st
             else if rc = 0x2b then scan_int_loop v pfx 1 parsed rc st
             else scan_int_loop v pfx 1 parsed rc (UNGET rc st))
          else if \<not> pfx then
            (if rc \<noteq> 0x30 then scan_int_loop v True sg parsed rc (UNGET rc (set_base 10 st))
             else do {
               (continue, parsed, rc, st) \<leftarrow> scan_prefix parsed rc st;
               if continue then scan_int_loop v True sg parsed rc st else Some (v, sg, parsed, rc, st)
             })
          else do {
            d \<leftarrow> digit_of rc (p_base st);
            if d = NULL then Some (v, sg, parsed, rc, UNGET rc st)
            else scan_int_loop (v * of_int (p_base st) + of_nat (d - 1)) pfx sg True rc st
          }
        }
        else Some (v, sg, parsed, rc, st)
      }
      else Some (v, sg, parsed, rc, st))"

text \<open>
  The switch over the flags that assigns the value: the number of bytes stored. Signed and unsigned types
  of a width get the same bytes; \<open>size_t\<close> is expected without \<open>E_unsigned\<close>, as is \<open>ptrdiff_t\<close>.
\<close>

definition assign_size :: "u32 \<Rightarrow> nat option" where
  "assign_size fl = (
     let t = fl AND (E_char OR E_short OR E_long OR E_llong OR E_intmax OR E_size OR E_ptrdiff OR E_unsigned)
     in if t = E_char \<or> t = E_char OR E_unsigned then Some 1
        else if t = E_short \<or> t = E_short OR E_unsigned then Some 2
        else if t = 0 \<or> t = E_unsigned then Some 4
        else if t = E_long \<or> t = E_long OR E_unsigned then Some 8
        else if t = E_llong \<or> t = E_llong OR E_unsigned then Some 8
        else if t = E_intmax \<or> t = E_intmax OR E_unsigned then Some 8
        else if t = E_size then Some 8
        else if t = E_ptrdiff then Some 8
        else None)"

text \<open>"UNSUPPORTED SCANF FLAG COMBINATION"\<close>

definition unsupported :: "u8 list" where
  "unsupported = map (of_nat \<circ> of_char) ''UNSUPPORTED SCANF FLAG COMBINATION''"

definition scan_assign :: "ptr \<Rightarrow> u64 \<Rightarrow> int \<Rightarrow> 'd sstatus \<Rightarrow> (ptr \<times> 'd sstatus) option" where
  "scan_assign spec v sg st =
     (if p_flags st AND E_suppressed \<noteq> 0 then Some (spec + 1, st)
      else case assign_size (p_flags st) of
        None \<Rightarrow> do { (_, f) \<leftarrow> puts unsupported (p_stdout st); Some (NULL, st\<lparr>p_stdout := f\<rparr>) }
      | Some n \<Rightarrow> do { st \<leftarrow> put_value n (v * of_int sg) st; Some (spec + 1, count st) })"

definition scan_int :: "int \<Rightarrow> ptr \<Rightarrow> 'd sstatus \<Rightarrow> (ptr \<times> 'd sstatus) option" where
  "scan_int rc0 spec st = do {
     (v, sg, parsed, rc, st) \<leftarrow> scan_int_loop 0 False 0 False rc0 st;
     if \<not> parsed then (if rc = EOF then input_error st else Some (NULL, st))
     else scan_assign spec v sg st
   }"

section \<open>The conversion\<close>

definition int_spec :: "int \<Rightarrow> u32 \<Rightarrow> 'd sstatus \<Rightarrow> 'd sstatus" where
  "int_spec b x st = st\<lparr>p_base := b, p_flags := p_flags st OR x\<rparr>"

definition float_specs :: "u8 list" where
  "float_specs = [0x66, 0x46, 0x65, 0x45, 0x67, 0x47, 0x61, 0x41]"

text \<open>The switch over the conversion specifier. Floats set no base, and the function then returns NULL.\<close>

definition scan_convert :: "int \<Rightarrow> ptr \<Rightarrow> ptr \<Rightarrow> 'd sstatus \<Rightarrow> (ptr \<times> 'd sstatus) option" where
  "scan_convert rc0 orig_spec spec st = do {
     x \<leftarrow> p_mem st spec;
     if x = 0x64 then scan_int rc0 spec (int_spec 10 0 st)
     else if x = 0x69 then scan_int rc0 spec (int_spec 0 0 st)
     else if x = 0x6f then scan_int rc0 spec (int_spec 8 E_unsigned st)
     else if x = 0x75 then scan_int rc0 spec (int_spec 10 E_unsigned st)
     else if x = 0x78 then scan_int rc0 spec (int_spec 16 E_unsigned st)
     else if x \<in> set float_specs then Some (NULL, st)
     else if x = 0x63 then scan_c spec st
     else if x = 0x73 then scan_s spec st
     else if x = 0x5b then scan_set rc0 spec st
     else if x = 0x70 then scan_int rc0 spec (int_spec 16 (E_unsigned OR E_long) st)
     else if x = 0x6e then do {
       st \<leftarrow> put_value 4 (of_nat (p_i st)) st;
       Some (spec + 1, st)
     }
     else Some (orig_spec, st)
   }"

text \<open>\<open>_PDCLIB_scan\<close>: \<open>spec\<close> points to the percent sign. The result NULL is an error, \<open>spec\<close> no conversion.\<close>

definition scan_directive :: "int \<Rightarrow> ptr \<Rightarrow> ptr \<Rightarrow> 'd sstatus \<Rightarrow> (ptr \<times> 'd sstatus) option" where
  "scan_directive rc0 orig_spec spec st = do {
     (spec, st) \<leftarrow> scan_suppress spec st;
     (spec, st) \<leftarrow> scan_width spec st;
     (spec, st) \<leftarrow> scan_modifier spec st;
     scan_convert rc0 orig_spec spec st
   }"

definition scan :: "int \<Rightarrow> ptr \<Rightarrow> 'd sstatus \<Rightarrow> (ptr \<times> 'd sstatus) option" where
  "scan rc0 orig_spec st = do {
     let spec = orig_spec + 1;
     x \<leftarrow> p_mem st spec;
     if x = 0x25 then do {
       (rc, st) \<leftarrow> GET st;
       if rc = EOF then input_error st
       else if rc = 0x25 then Some (spec + 1, st)
       else scan_directive rc0 orig_spec spec (UNGET rc st)
     }
     else scan_directive rc0 orig_spec spec st
   }"

section \<open>The scanf family\<close>

definition init_sstatus :: "ptr \<Rightarrow> 'd FILE option \<Rightarrow> u64 list \<Rightarrow> mem \<Rightarrow> 'd FILE \<Rightarrow> 'd sstatus" where
  "init_sstatus s stream args m out =
     \<lparr>p_base = 0, p_flags = 0, p_n = 0, p_i = 0, p_current = 0, p_s = s, p_width = 0, p_prec = 0,
      p_stream = stream, p_arg = args, p_mem = m, p_stdout = out\<rparr>"

text \<open>The unsigned count as the int returned.\<close>

definition count_int :: "'d sstatus \<Rightarrow> int" where
  "count_int st = sint (of_nat (p_n st) :: u32)"

partial_function (option) skip_source_space :: "'d sstatus \<Rightarrow> 'd sstatus option" where
  "skip_source_space st = do {
     x \<leftarrow> p_mem st (p_s st);
     sp \<leftarrow> isspace (sint x);
     if sp \<noteq> 0 then skip_source_space (st\<lparr>p_s := p_s st + 1, p_i := up32 (p_i st)\<rparr>) else Some st
   }"

text \<open>One directive that is no conversion: Inl is the returned value.\<close>

definition match_string :: "ptr \<Rightarrow> 'd sstatus \<Rightarrow> (int + 'd sstatus) option" where
  "match_string format st = do {
     y \<leftarrow> p_mem st format;
     sp \<leftarrow> isspace (sint y);
     if sp \<noteq> 0 then map_option Inr (skip_source_space st)
     else do {
       x \<leftarrow> p_mem st (p_s st);
       if x \<noteq> y then Some (Inl (if x = 0 \<and> p_n st = 0 then EOF else count_int st))
       else Some (Inr (st\<lparr>p_s := p_s st + 1, p_i := up32 (p_i st)\<rparr>))
     }
   }"

partial_function (option) vsscanf_loop :: "int \<Rightarrow> ptr \<Rightarrow> 'd sstatus \<Rightarrow> (int \<times> 'd sstatus) option" where
  "vsscanf_loop rc0 format st = do {
     y \<leftarrow> p_mem st format;
     if y = 0 then Some (count_int st, st)
     else do {
       (rc, st) \<leftarrow> (if y \<noteq> 0x25 then Some (format, st) else scan rc0 format st);
       if rc = format then do {
         r \<leftarrow> match_string format st;
         case r of Inl n \<Rightarrow> Some (n, st) | Inr st \<Rightarrow> vsscanf_loop rc0 (format + 1) st
       }
       else if rc = NULL then do {
         x \<leftarrow> p_mem st (p_s st);
         let st = (if x = 0x0a \<and> p_n st = 0 then st\<lparr>p_n := 2 ^ 32 - 1\<rparr> else st);
         Some (count_int st, st)
       }
       else vsscanf_loop rc0 rc st
     }
   }"

text \<open>The result, the memory and \<open>stdout\<close>.\<close>

definition vsscanf ::
  "int \<Rightarrow> ptr \<Rightarrow> ptr \<Rightarrow> u64 list \<Rightarrow> mem \<Rightarrow> 'd FILE \<Rightarrow> (int \<times> mem \<times> 'd FILE) option" where
  "vsscanf rc0 s format args m out =
     map_option (\<lambda>(r, st). (r, p_mem st, p_stdout st)) (vsscanf_loop rc0 format (init_sstatus s None args m out))"

definition sscanf ::
  "int \<Rightarrow> ptr \<Rightarrow> ptr \<Rightarrow> u64 list \<Rightarrow> mem \<Rightarrow> 'd FILE \<Rightarrow> (int \<times> mem \<times> 'd FILE) option" where
  "sscanf = vsscanf"

partial_function (option) skip_stream_space :: "'d FILE \<Rightarrow> nat \<Rightarrow> (int \<times> 'd FILE \<times> nat) option" where
  "skip_stream_space f i = do {
     (c, f) \<leftarrow> fgetc f;
     sp \<leftarrow> isspace c;
     if sp \<noteq> 0 then skip_stream_space f (up32 i) else Some (c, f, i)
   }"

definition match_stream :: "'d FILE \<Rightarrow> ptr \<Rightarrow> 'd sstatus \<Rightarrow> ((int + unit) \<times> 'd sstatus) option" where
  "match_stream f format st = do {
     y \<leftarrow> p_mem st format;
     sp \<leftarrow> isspace (sint y);
     if sp \<noteq> 0 then do {
       (c, f, i) \<leftarrow> skip_stream_space f (p_i st);
       let f = (if feof f = 0 then snd (ungetc c f) else f);
       Some (Inr (), st\<lparr>p_stream := Some f, p_i := i\<rparr>)
     }
     else do {
       (c, f) \<leftarrow> fgetc f;
       if c \<noteq> sint y \<or> feof f \<noteq> 0 then
         (if feof f = 0 \<and> ferror f = 0 then Some (Inl (count_int st), st\<lparr>p_stream := Some (snd (ungetc c f))\<rparr>)
          else Some (Inl (if p_n st = 0 then EOF else count_int st), st\<lparr>p_stream := Some f\<rparr>))
       else Some (Inr (), st\<lparr>p_stream := Some f, p_i := up32 (p_i st)\<rparr>)
     }
   }"

partial_function (option) vfscanf_loop :: "int \<Rightarrow> ptr \<Rightarrow> 'd sstatus \<Rightarrow> (int \<times> 'd sstatus) option" where
  "vfscanf_loop rc0 format st = do {
     y \<leftarrow> p_mem st format;
     if y = 0 then Some (count_int st, st)
     else do {
       (rc, st) \<leftarrow> (if y \<noteq> 0x25 then Some (format, st) else scan rc0 format st);
       if rc = format then do {
         f \<leftarrow> p_stream st;
         (r, st) \<leftarrow> match_stream f format st;
         case r of Inl n \<Rightarrow> Some (n, st) | Inr _ \<Rightarrow> vfscanf_loop rc0 (format + 1) st
       }
       else if rc = NULL then Some (count_int st, st)
       else vfscanf_loop rc0 rc st
     }
   }"

definition vfscanf ::
  "int \<Rightarrow> 'd FILE \<Rightarrow> ptr \<Rightarrow> u64 list \<Rightarrow> mem \<Rightarrow> 'd FILE \<Rightarrow> (int \<times> 'd sstatus) option" where
  "vfscanf rc0 f format args m out = vfscanf_loop rc0 format (init_sstatus 0 (Some f) args m out)"

definition fscanf ::
  "int \<Rightarrow> 'd FILE \<Rightarrow> ptr \<Rightarrow> u64 list \<Rightarrow> mem \<Rightarrow> 'd FILE \<Rightarrow> (int \<times> 'd sstatus) option" where
  "fscanf = vfscanf"

text \<open>\<open>vscanf\<close> and \<open>scanf\<close>, where \<open>f\<close> is \<open>stdin\<close>.\<close>

definition vscanf ::
  "int \<Rightarrow> 'd FILE \<Rightarrow> ptr \<Rightarrow> u64 list \<Rightarrow> mem \<Rightarrow> 'd FILE \<Rightarrow> (int \<times> 'd sstatus) option" where
  "vscanf rc0 f format args m out = vfscanf rc0 f format args m out"

definition scanf ::
  "int \<Rightarrow> 'd FILE \<Rightarrow> ptr \<Rightarrow> u64 list \<Rightarrow> mem \<Rightarrow> 'd FILE \<Rightarrow> (int \<times> 'd sstatus) option" where
  "scanf rc0 f format args m out = vfscanf rc0 f format args m out"

section \<open>Reading from a string\<close>

text \<open>\<open>k\<close> characters further in the source string.\<close>

definition adv :: "nat \<Rightarrow> 'd sstatus \<Rightarrow> 'd sstatus" where
  "adv k st = st\<lparr>p_i := (p_i st + k) mod 2 ^ 32, p_current := (p_current st + k) mod 2 ^ 32, p_s := p_s st + k\<rparr>"

definition counters_ok :: "'d sstatus \<Rightarrow> bool" where
  "counters_ok st \<longleftrightarrow> p_i st < 2 ^ 32 \<and> p_current st < 2 ^ 32 \<and> p_width st < 2 ^ 32 \<and> p_stream st = None"

lemma adv_0 [simp]: "counters_ok st \<Longrightarrow> adv 0 st = st"
  by (simp add: adv_def counters_ok_def)

lemma adv_adv [simp]: "adv j (adv k st) = adv (k + j) st"
  by (simp add: adv_def mod_simps algebra_simps)

lemma adv_ok [simp]: "counters_ok st \<Longrightarrow> counters_ok (adv k st)"
  by (simp add: adv_def counters_ok_def)

lemma adv_fields [simp]:
  "p_mem (adv k st) = p_mem st" "p_s (adv k st) = p_s st + k" "p_width (adv k st) = p_width st"
  "p_base (adv k st) = p_base st" "p_flags (adv k st) = p_flags st" "p_arg (adv k st) = p_arg st"
  "p_n (adv k st) = p_n st" "p_stdout (adv k st) = p_stdout st" "p_stream (adv k st) = p_stream st"
  by (simp_all add: adv_def)

lemma adv_current: "p_current st + k < 2 ^ 32 \<Longrightarrow> p_current (adv k st) = p_current st + k"
  by (simp add: adv_def)

lemma uint_not_EOF [simp]: "uint (x :: u8) \<noteq> EOF"
  using uint_ge_0 [of x] unfolding EOF_def by linarith

lemma GET_char:
  assumes "counters_ok st" "p_mem st (p_s st) = Some x" "x \<noteq> 0"
  shows "GET st = Some (uint x, adv 1 st)"
  using assms by (simp add: GET_def adv_def counters_ok_def up32_def)

lemma GET_end:
  assumes "counters_ok st" "p_mem st (p_s st) = Some 0"
  shows "GET st = Some (EOF, st)"
  using assms by (simp add: GET_def counters_ok_def)

lemma UNGET_adv [simp]:
  assumes "counters_ok st"
  shows "UNGET rc (adv (Suc k) st) = adv k st"
proof -
  have "((n + Suc k) mod 2 ^ 32 + (2 ^ 32 - 1)) mod 2 ^ 32 = (n + k) mod 2 ^ 32" for n :: nat
  proof -
    have "((n + Suc k) mod 2 ^ 32 + (2 ^ 32 - 1)) mod 2 ^ 32 = ((n + k) + 2 ^ 32) mod 2 ^ 32"
      by (simp add: mod_simps)
    then show ?thesis by (simp only: mod_add_self2)
  qed
  then show ?thesis using assms
    by (simp add: UNGET_def adv_def counters_ok_def down32_def)
qed

lemma uint_eq_numeral_u8: "uint (x :: u8) = 0x2d \<longleftrightarrow> x = 0x2d" "uint x = 0x2b \<longleftrightarrow> x = 0x2b" "uint x = 0x30 \<longleftrightarrow> x = 0x30"
  by (simp_all add: word_uint_eq_iff)

lemma isspace_uint:
  assumes "unat c < 128"
  shows "\<exists>b. isspace (uint c) = Some b \<and> (b \<noteq> 0 \<longleftrightarrow> space_byte c)"
  using isspace_ascii [OF assms] assms by (simp add: sint_ascii)

lemma digit_of_ascii:
  assumes "unat c < 128" "base \<le> 36"
  shows "digit_of (uint c) (int base) = Some (if dval c < base then Suc (dval c) else NULL)"
  using find_digit_ascii [OF assms] assms(1) by (simp add: find_digit_def digit_of_def sint_ascii)

text \<open>How far a run of characters may go: to the width, or to a character that ends the number.\<close>

definition ends :: "nat \<Rightarrow> u8 list \<Rightarrow> u8 list \<Rightarrow> 'd sstatus \<Rightarrow> bool" where
  "ends base ds rest st \<longleftrightarrow> p_current st + length ds = p_width st \<or>
     p_current st + length ds < p_width st \<and> stops base rest"

lemma scan_int_digits:
  assumes "counters_ok st" "cstr (p_mem st) (p_s st) (ds @ rest)" "digits_of base ds" "ends base ds rest st"
    "p_base st = int base" "2 \<le> base" "base \<le> 36" "sg \<noteq> 0"
  shows "\<exists>rc'. scan_int_loop (of_nat v) True sg parsed rc st =
    Some (of_nat (numval base v ds), sg, parsed \<or> ds \<noteq> [], rc', adv (length ds) st)"
  using assms
proof (induction ds arbitrary: st v parsed rc)
  case Nil
  note ok = Nil.prems(1)
  show ?case
  proof (cases "p_current st < p_width st")
    case False
    then show ?thesis using ok by (subst scan_int_loop.simps) simp
  next
    case True
    then have s: "stops base rest" using Nil.prems(4) by (auto simp: ends_def)
    show ?thesis
    proof (cases rest)
      case Nil
      then show ?thesis using Nil.prems ok True GET_end [OF ok] by (subst scan_int_loop.simps) (simp add: mem_simps)
    next
      case (Cons c r)
      then have c: "unat c < 128" "base \<le> dval c" using s by (auto simp: stops_def)
      have g: "GET st = Some (uint c, adv 1 st)"
        using Nil.prems(2) Cons by (intro GET_char [OF ok]) (auto simp: mem_simps)
      obtain b where b: "isspace (uint c) = Some b" using isspace_uint [OF c(1)] by blast
      have u: "UNGET rc (adv 1 st) = st" for rc using UNGET_adv [OF ok, of rc 0] ok by simp
      show ?thesis using g b u c True Nil.prems(5-8) ok digit_of_ascii [OF c(1) Nil.prems(7)]
        by (subst scan_int_loop.simps) (simp del: UNGET_adv add: NULL_def)
    qed
  qed
next
  case (Cons c ds)
  note ok = Cons.prems(1)
  have c: "unat c < 128" "dval c < base" "c \<noteq> 0" "p_mem st (p_s st) = Some c"
    using Cons.prems(2,3) by (auto simp: mem_simps)
  have lt: "p_current st < p_width st" and w: "p_width st < 2 ^ 32"
    using Cons.prems(4) ok by (auto simp: ends_def counters_ok_def)
  then have cur: "p_current (adv 1 st) = p_current st + 1" by (intro adv_current) linarith
  have g: "GET st = Some (uint c, adv 1 st)" using c by (intro GET_char [OF ok])
  have sp: "isspace (uint c) = Some 0"
    using isspace_uint [OF c(1)] digit_byte [OF c(2)] Cons.prems(7) by auto
  have IH: "\<exists>rc'. scan_int_loop (of_nat (v * base + dval c)) True sg True (uint c) (adv 1 st) =
      Some (of_nat (numval base (v * base + dval c) ds), sg, True \<or> ds \<noteq> [], rc', adv (length ds) (adv 1 st))"
    using Cons.prems cur by (intro Cons.IH) (auto simp: mem_simps ends_def)
  have d: "digit_of (uint c) (p_base st) = Some (Suc (dval c))"
    using digit_of_ascii [OF c(1) Cons.prems(7)] c(2) Cons.prems(5) by simp
  have v: "(of_nat v :: u64) * of_int (p_base st) + of_nat (dval c) = of_nat (v * base + dval c)"
    using Cons.prems(5) by simp
  show ?case using lt g sp d IH v Cons.prems(8)
    by (subst scan_int_loop.simps) (simp add: NULL_def)
qed

text \<open>A base other than 0 and 16 has no prefix, so the number is read digit by digit.\<close>

lemma scan_int_number:
  assumes ok: "counters_ok st" and at: "cstr (p_mem st) (p_s st) (ds @ rest)" and ds: "digits_of base ds" "ds \<noteq> []"
    and e: "ends base ds rest st" and b: "p_base st = int base" "2 \<le> base" "base \<le> 36" "base \<noteq> 16" and sg: "sg \<noteq> 0"
  shows "\<exists>rc'. scan_int_loop 0 False sg False rc st =
    Some (of_nat (numval base 0 ds), sg, True, rc', adv (length ds) st)"
proof -
  obtain c ds' where c': "ds = c # ds'" using ds by (cases ds) auto
  have c: "unat c < 128" "dval c < base" "c \<noteq> 0" "p_mem st (p_s st) = Some c"
    using at ds c' by (auto simp: mem_simps)
  have w: "p_current st < p_width st" "p_width st < 2 ^ 32"
    using e ok c' by (auto simp: ends_def counters_ok_def)
  have g: "GET st = Some (uint c, adv 1 st)" using c by (intro GET_char [OF ok])
  have sp: "isspace (uint c) = Some 0"
    using isspace_uint [OF c(1)] digit_byte [OF c(2)] b(3) by auto
  have u: "UNGET rc (adv 1 st) = st" "UNGET rc (adv 2 st) = adv 1 st" for rc
    using UNGET_adv [OF ok, of rc 0] UNGET_adv [OF ok, of rc 1] ok by (simp_all add: numeral_2_eq_2)
  have sb: "set_base k st' = st'" if "p_base st' = int base" for k and st' :: "'a sstatus"
    using that b(2) by (simp add: set_base_def)
  have ub: "UNGET rc (set_base 10 (adv 1 st)) = st" for rc using u b by (simp add: sb)
  show ?thesis
  proof (cases "c = 0x30")
    case False
    then have "scan_int_loop 0 False sg False rc st = scan_int_loop (of_nat 0) True sg False (uint c) st"
      using w g sp sg ub uint_eq_numeral_u8 [of c]
      by (subst scan_int_loop.simps) simp
    then show ?thesis using scan_int_digits [OF ok at ds(1) e b(1-3) sg, of 0 False "uint c"] ds by auto
  next
    case True
    have d0: "dval c = 0" using True by (simp add: dval_def)
    have cur: "p_current (adv 1 st) = p_current st + 1" using w by (intro adv_current) linarith
    have at': "cstr (p_mem (adv 1 st)) (p_s (adv 1 st)) (ds' @ rest)" using at c' by (simp add: mem_simps)
    have e': "ends base ds' rest (adv 1 st)" using e c' cur by (auto simp: ends_def)
    have ok': "counters_ok (adv 1 st)" using ok by simp
    have nv: "numval base 0 ds = numval base 0 ds'" using c' d0 by simp
    have first: "scan_int_loop 0 False sg False rc st = (do {
        (continue, parsed, rc, st) \<leftarrow> scan_prefix False (uint c) (adv 1 st);
        if continue then scan_int_loop 0 True sg parsed rc st else Some (0, sg, parsed, rc, st) })"
      using w g sp sg True by (subst scan_int_loop.simps) (simp add: EOF_def)
    have go: "\<exists>rc''. scan_int_loop (of_nat 0) True sg True rc' (adv 1 st) =
        Some (of_nat (numval base 0 ds), sg, True, rc'', adv (length ds) st)" for rc'
      using scan_int_digits [OF ok' at' _ e' _ b(2,3) sg, of 0 True rc'] ds b(1) c' nv by simp
    consider (width) "p_current st + 1 = p_width st" "ds' = []"
      | (eof) "p_current st + 1 < p_width st" "ds' @ rest = []"
      | (more) x r where "p_current st + 1 < p_width st" "ds' @ rest = x # r"
      using e c' w(1) by (cases ds'; cases rest) (auto simp: ends_def)
    then show ?thesis
    proof cases
      case width
      then show ?thesis using first cur c' d0 by (simp add: scan_prefix_def)
    next
      case eof
      then have "GET (adv 1 st) = Some (EOF, adv 1 st)" using at' by (intro GET_end [OF ok']) (simp add: mem_simps)
      then show ?thesis using first cur eof c' d0 by (simp add: scan_prefix_def)
    next
      case more
      have x: "unat x < 128" "x \<noteq> 0" "p_mem st (p_s (adv 1 st)) = Some x"
        using more e e' ds at' c' cur by (cases ds'; auto simp: ends_def stops_def mem_simps)+
      have g2: "GET (adv 1 st) = Some (uint x, adv 2 st)" using x GET_char [OF ok', of x] by (simp add: numeral_2_eq_2)
      obtain l where l: "tolower (uint x) = Some l" using tolower_val [of "uint x"] uint_bounded [of x] order_trans [OF _ uint_ge_0, of "- 1" x] by auto
      have "scan_prefix False (uint c) (adv 1 st) = Some (True, True, uint x, adv 1 st)"
        using more(1) cur g2 l u b by (simp add: scan_prefix_def sb)
      then show ?thesis using first go [of "uint x"] by simp
    qed
  qed
qed

text \<open>White space is counted in \<open>i\<close> and not against the width.\<close>

definition skipped :: "nat \<Rightarrow> 'd sstatus \<Rightarrow> 'd sstatus" where
  "skipped k st = st\<lparr>p_i := (p_i st + k) mod 2 ^ 32, p_s := p_s st + k\<rparr>"

lemma skipped_fields [simp]:
  "p_mem (skipped k st) = p_mem st" "p_s (skipped k st) = p_s st + k" "p_width (skipped k st) = p_width st"
  "p_base (skipped k st) = p_base st" "p_flags (skipped k st) = p_flags st" "p_arg (skipped k st) = p_arg st"
  "p_n (skipped k st) = p_n st" "p_stdout (skipped k st) = p_stdout st" "p_stream (skipped k st) = p_stream st"
  "p_current (skipped k st) = p_current st" "counters_ok st \<Longrightarrow> counters_ok (skipped k st)"
  "skipped j (skipped k st) = skipped (k + j) st"
  by (simp_all add: skipped_def counters_ok_def mod_simps algebra_simps)

lemma skipped_0 [simp]: "counters_ok st \<Longrightarrow> skipped 0 st = st"
  by (simp add: skipped_def counters_ok_def)

lemma down_adv:
  assumes "counters_ok st"
  shows "(adv 1 st)\<lparr>p_current := down32 (p_current (adv 1 st))\<rparr> = skipped 1 st"
proof -
  have "((n + 1) mod 2 ^ 32 + (2 ^ 32 - 1)) mod 2 ^ 32 = n" if "n < 2 ^ 32" for n :: nat
  proof -
    have "((n + 1) mod 2 ^ 32 + (2 ^ 32 - 1)) mod 2 ^ 32 = (n + 2 ^ 32) mod 2 ^ 32" by (simp add: mod_simps)
    also have "\<dots> = n" unfolding mod_add_self2 using that by simp
    finally show ?thesis .
  qed
  then show ?thesis using assms by (simp add: adv_def skipped_def down32_def counters_ok_def)
qed

lemma scan_int_space:
  assumes "counters_ok st" "cstr (p_mem st) (p_s st) (ws @ r)" "\<forall>x \<in> set ws. space_byte x" "p_current st < p_width st"
  shows "\<exists>rc'. scan_int_loop v pfx 0 parsed rc st = scan_int_loop v pfx 0 parsed rc' (skipped (length ws) st)"
  using assms
proof (induction ws arbitrary: st rc)
  case Nil
  then show ?case by auto
next
  case (Cons c ws)
  have c: "unat c < 128" "c \<noteq> 0" "p_mem st (p_s st) = Some c" "space_byte c"
    using Cons.prems by (auto simp: mem_simps space_byte_def)
  have g: "GET st = Some (uint c, adv 1 st)" using c Cons.prems(1) by (intro GET_char)
  obtain b where b: "isspace (uint c) = Some b" "b \<noteq> 0" using isspace_uint [OF c(1)] c(4) by blast
  have "scan_int_loop v pfx 0 parsed rc st = scan_int_loop v pfx 0 parsed (uint c) (skipped 1 st)"
    using g b down_adv [OF Cons.prems(1)] Cons.prems(4) by (subst scan_int_loop.simps) simp
  moreover have "\<exists>rc'. scan_int_loop v pfx 0 parsed (uint c) (skipped 1 st) =
      scan_int_loop v pfx 0 parsed rc' (skipped (length ws) (skipped 1 st))"
    using Cons.prems by (intro Cons.IH) (auto simp: mem_simps)
  ultimately show ?case by simp
qed

text \<open>White space, a sign and a number. The width counts the sign and the digits.\<close>

definition scan_value :: "nat \<Rightarrow> u8 list \<Rightarrow> u8 list \<Rightarrow> int" where
  "scan_value base sg ds = (if sg = [0x2d] then - int (numval base 0 ds) else int (numval base 0 ds))"

lemma scan_int_signed:
  assumes ok: "counters_ok st" and at: "cstr (p_mem st) (p_s st) (ws @ sg @ ds @ rest)"
    and ws: "\<forall>x \<in> set ws. space_byte x" and s: "sg \<in> {[], [0x2b], [0x2d]}"
    and ds: "digits_of base ds" "ds \<noteq> []" and e: "ends base (sg @ ds) rest st"
    and b: "p_base st = int base" "2 \<le> base" "base \<le> 36" "base \<noteq> 16"
  shows "\<exists>rc'. scan_int_loop 0 False 0 False rc st =
    Some (of_nat (numval base 0 ds), if sg = [0x2d] then - 1 else 1, True, rc',
      adv (length (sg @ ds)) (skipped (length ws) st))"
proof -
  let ?st = "skipped (length ws) st"
  have ok': "counters_ok ?st" using ok by simp
  have at': "cstr (p_mem ?st) (p_s ?st) (sg @ ds @ rest)" using cstr_drop [OF at, of "length ws"] by simp
  have w: "p_current ?st < p_width ?st" "p_width ?st < 2 ^ 32"
    using e ok ds(2) by (cases ds; auto simp: ends_def counters_ok_def)+
  obtain rc1 where sk: "scan_int_loop 0 False 0 False rc st = scan_int_loop 0 False 0 False rc1 ?st"
    using scan_int_space [OF ok at ws] w by fastforce
  show ?thesis
  proof (cases sg)
    case Nil
    obtain c ds' where c': "ds = c # ds'" using ds by (cases ds) auto
    have c: "unat c < 128" "dval c < base" "c \<noteq> 0" "p_mem ?st (p_s ?st) = Some c"
      using at' Nil ds c' by (auto simp: mem_simps)
    have g: "GET ?st = Some (uint c, adv 1 ?st)" using c by (intro GET_char [OF ok'])
    have sp: "isspace (uint c) = Some 0" "uint c \<noteq> 0x2d" "uint c \<noteq> 0x2b"
      using isspace_uint [OF c(1)] digit_byte [OF c(2) b(3)] uint_eq_numeral_u8 [of c] by auto
    have u: "UNGET rc (adv 1 ?st) = ?st" for rc using UNGET_adv [OF ok', of rc 0] ok' by simp
    have "scan_int_loop 0 False 0 False rc1 ?st = scan_int_loop 0 False 1 False (uint c) ?st"
      using g sp u w by (subst scan_int_loop.simps) simp
    then show ?thesis
      using sk Nil at' e b scan_int_number [OF ok' _ ds, of rest 1 "uint c"] by (simp add: ends_def)
  next
    case (Cons c sg')
    then have s1: "sg = [c]" "c = 0x2b \<or> c = 0x2d" using s by auto
    have c: "unat c < 128" "c \<noteq> 0" "p_mem ?st (p_s ?st) = Some c"
      using at' s1 by (auto simp: mem_simps)
    have g: "GET ?st = Some (uint c, adv 1 ?st)" using c by (intro GET_char [OF ok'])
    have sp: "isspace (uint c) = Some 0"
      using isspace_uint [OF c(1)] s1 by (auto simp: space_byte_def)
    let ?k = "if c = 0x2d then - 1 else 1 :: int"
    have step: "scan_int_loop 0 False 0 False rc1 ?st = scan_int_loop 0 False ?k False (uint c) (adv 1 ?st)"
      using g sp w s1(2) by (subst scan_int_loop.simps) (auto simp: EOF_def)
    have cur: "p_current (adv 1 ?st) = p_current st + 1" using w by (subst adv_current) auto
    have "\<exists>rc'. scan_int_loop 0 False ?k False (uint c) (adv 1 ?st) =
        Some (of_nat (numval base 0 ds), ?k, True, rc', adv (length ds) (adv 1 ?st))"
      by (rule scan_int_number [OF _ _ ds]) (use ok' at' s1 e b cur in \<open>auto simp: mem_simps ends_def\<close>)
    then show ?thesis using sk step s1 by auto
  qed
qed

section \<open>Storing and finding the conversion\<close>

lemma store_bytes_mapped: "mapped m p (length xs) \<Longrightarrow> store_bytes m p xs = Some (write_bytes m p xs)"
  by (induction xs arbitrary: m p) (auto simp: mem_simps store_def)

lemma length_low_bytes [simp]: "length (low_bytes n v) = n"
  by (induction n arbitrary: v) auto

lemma not_a_digit: "dval 0x64 = 13" "dval 0x63 = 12" "dval 0x73 = 28" "dval 0x7a = 35"
  by (simp_all add: dval_def)

lemma strtol_no_number:
  assumes "m p = Some c" "unat c < 128" "10 \<le> dval c" "\<not> space_byte c" "c \<noteq> 0x2b" "c \<noteq> 0x2d"
  shows "strtol m p 10 = Some (0, Some p, False)"
proof -
  obtain b where "isspace (sint c) = Some b" "b = 0" using isspace_ascii [OF assms(2)] assms(4) by auto
  then have "skip_space m p = Some p" using assms(1) by (subst skip_space.simps) simp
  moreover have "c \<noteq> 0x30" using assms(3) by (auto simp: dval_def)
  ultimately have "strtox_prelim m p 10 = Some (p, 0x2b, 10)" using assms by (simp add: strtox_prelim_def)
  moreover have "strtox_main m p 10 e l d sg = Some (0, NULL, sg, False)" for e l d sg
    using assms find_digit_ascii [OF assms(2), of 10]
    unfolding strtox_main_def by (subst strtox_loop.simps) simp
  ultimately show ?thesis by (simp add: strtol_def)
qed

text \<open>A directive without star, width and modifier, such as \<open>%d\<close>.\<close>

definition cleared :: "'d sstatus \<Rightarrow> 'd sstatus" where
  "cleared st = st\<lparr>p_flags := 0, p_base := -1, p_current := 0, p_prec := 0, p_width := 2 ^ 32 - 1\<rparr>"

lemma scan_plain:
  assumes "p_mem st (fmt + 1) = Some c" "unat c < 128" "10 \<le> dval c" "\<not> space_byte c"
    "c \<notin> {0x25, 0x2a, 0x2b, 0x2d, 0x68, 0x6c, 0x6a, 0x7a, 0x74, 0x4c}"
  shows "scan rc0 fmt st = scan_convert rc0 fmt (fmt + 1) (cleared st)"
  using assms strtol_no_number [of "p_mem st" "fmt + 1" c]
  by (simp add: scan_def scan_directive_def scan_suppress_def scan_width_def scan_modifier_def cleared_def)

lemma ends_unlimited:
  "p_current st + length ds < p_width st \<Longrightarrow> stops base rest \<Longrightarrow> ends base ds rest st"
  by (simp add: ends_def)

text \<open>\<open>%d\<close>, \<open>%u\<close> and \<open>%o\<close>: the number is stored modulo the size of an int.\<close>

lemma scan_convert_int:
  assumes c: "p_mem st spec = Some c" and b: "(c, b, fl) \<in> {(0x64, 10, 0), (0x75, 10, E_unsigned), (0x6f, 8, E_unsigned)}"
    and ok: "counters_ok st" "p_flags st = 0" and at: "cstr (p_mem st) (p_s st) (ws @ sg @ ds @ rest)"
    and ws: "\<forall>x \<in> set ws. space_byte x" and sd: "signed_digits b sg ds rest"
    and w: "p_current st + length (sg @ ds) < p_width st"
    and arg: "p_arg st = a # args" "mapped (p_mem st) (unat a) 4"
  shows "scan_convert rc0 orig spec st = Some (spec + 1, count (adv (length (sg @ ds)) (skipped (length ws)
    (st\<lparr>p_base := int b, p_flags := fl, p_arg := args,
        p_mem := write_bytes (p_mem st) (unat a) (low_bytes 4 (of_int (scan_value b sg ds)))\<rparr>))))"
proof -
  let ?st = "int_spec (int b) fl st"
  have s: "sg \<in> {[], [0x2b], [0x2d]}" "digits_of b ds" "ds \<noteq> []" "stops b rest"
    using sd by (auto simp: signed_digits_def)
  have b': "b \<in> {8, 10}" "fl \<in> {0, E_unsigned}" using b by auto
  obtain rc' where loop: "scan_int_loop 0 False 0 False rc0 ?st =
      Some (of_nat (numval b 0 ds), if sg = [0x2d] then - 1 else 1, True, rc',
        adv (length (sg @ ds)) (skipped (length ws) ?st))"
    using scan_int_signed [of ?st ws sg ds rest b rc0] ok(1) at ws s w b'(1)
    by (fastforce simp: int_spec_def counters_ok_def ends_def)
  have sz: "assign_size fl = Some 4" "fl AND E_suppressed = 0"
    using b'(2) by (auto simp: assign_size_def E_defs E_suppressed_def)
  have v: "(of_nat (numval b 0 ds) :: u64) * of_int (if sg = [0x2d] then - 1 else 1) = of_int (scan_value b sg ds)"
    by (simp add: scan_value_def)
  have "scan_convert rc0 orig spec st = scan_int rc0 spec ?st"
    using c b by (auto simp: scan_convert_def)
  then show ?thesis
    using loop sz v arg ok(2)
    by (simp add: scan_int_def scan_assign_def put_value_def va_ptr_def int_spec_def store_bytes_mapped adv_def skipped_def count_def)
qed

definition start :: "ptr \<Rightarrow> u64 list \<Rightarrow> mem \<Rightarrow> 'd FILE \<Rightarrow> 'd sstatus" where
  "start s args m out = cleared (init_sstatus s None args m out)"

text \<open>A format that is one plain directive: its conversion decides.\<close>

lemma vsscanf_one:
  assumes "cstr m fmt [0x25, c]" "unat c < 128" "10 \<le> dval c" "\<not> space_byte c"
    "c \<notin> {0x25, 0x2a, 0x2b, 0x2d, 0x68, 0x6c, 0x6a, 0x7a, 0x74, 0x4c}"
    and "scan_convert rc0 fmt (fmt + 1) (start s args m out) = Some (fmt + 2, st)" "p_mem st (fmt + 2) = Some 0"
  shows "vsscanf rc0 s fmt args m out = Some (count_int st, p_mem st, p_stdout st)"
proof -
  let ?i = "init_sstatus s None args m out"
  have m: "p_mem ?i fmt = Some 0x25" "p_mem ?i (fmt + 1) = Some c"
    using assms(1) by (simp_all add: init_sstatus_def mem_simps)
  have "scan rc0 fmt ?i = Some (fmt + 2, st)"
    using scan_plain [of ?i fmt c rc0] m(2) assms(2-6) by (simp add: start_def)
  moreover have "vsscanf_loop rc0 (fmt + 2) st = Some (count_int st, st)"
    using assms(7) by (subst vsscanf_loop.simps) simp
  ultimately have "vsscanf_loop rc0 fmt ?i = Some (count_int st, st)"
    using m(1) by (subst vsscanf_loop.simps) (simp add: NULL_def)
  then show ?thesis by (simp add: vsscanf_def)
qed

lemma start_fields [simp]:
  "p_mem (start s args m out) = m" "p_s (start s args m out) = s" "p_arg (start s args m out) = args"
  "p_width (start s args m out) = 2 ^ 32 - 1" "p_current (start s args m out) = 0" "p_flags (start s args m out) = 0"
  "p_n (start s args m out) = 0" "p_stdout (start s args m out) = out" "counters_ok (start s args m out)"
  by (simp_all add: start_def cleared_def init_sstatus_def counters_ok_def)

text \<open>
  C37. A source string of white space, a sign and digits is converted by \<open>%d\<close>, \<open>%u\<close> or \<open>%o\<close>: one conversion,
  and the number, taken modulo 2^32 however long it is, stored at the argument.
\<close>

theorem sscanf_reads_number:
  assumes "cstr m fmt [0x25, c]" and "(c, b) \<in> {(0x64, 10), (0x75, 10), (0x6f, 8)}"
    and "cstr m s (ws @ sg @ ds @ rest)" and "\<forall>x \<in> set ws. space_byte x" and "signed_digits b sg ds rest"
    and "length (sg @ ds) < 2 ^ 32 - 1" and "mapped m (unat a) 4"
    and "fmt + 2 < unat a \<or> unat a + 4 \<le> fmt"
  shows "vsscanf r s fmt (a # args) m out =
    Some (1, write_bytes m (unat a) (low_bytes 4 (of_int (scan_value b sg ds))), out)"
proof -
  let ?m = "write_bytes m (unat a) (low_bytes 4 (of_int (scan_value b sg ds)))"
  obtain fl where fl: "(c, b, fl) \<in> {(0x64, 10, 0), (0x75, 10, E_unsigned), (0x6f, 8, E_unsigned)}"
    using assms(2) by auto
  have c: "unat c < 128" "10 \<le> dval c" "\<not> space_byte c"
      "c \<notin> {0x25, 0x2a, 0x2b, 0x2d, 0x68, 0x6c, 0x6a, 0x7a, 0x74, 0x4c}"
    using assms(2) by (auto simp: dval_def space_byte_def)
  have f: "m (fmt + 1) = Some c" "m (fmt + 2) = Some 0" using assms(1) by (simp_all add: mem_simps)
  let ?st = "start s (a # args) m out"
  define st' where "st' = count (adv (length (sg @ ds)) (skipped (length ws)
      (?st\<lparr>p_base := int b, p_flags := fl, p_arg := args, p_mem := ?m\<rparr>)))"
  have "scan_convert r fmt (fmt + 1) ?st = Some (fmt + 1 + 1, st')"
    using scan_convert_int [of ?st "fmt + 1" c b fl ws sg ds rest a args r fmt] f(1) fl assms(3-7)
    unfolding st'_def by simp
  moreover have "p_mem st' = ?m" "p_stdout st' = out" "p_n st' = 1"
    by (simp_all add: st'_def count_def up32_def)
  moreover have "?m (fmt + 2) = Some 0" using assms(8) f(2) by (subst write_bytes_other) auto
  ultimately show ?thesis
    using vsscanf_one [OF assms(1) c, of r s "a # args" out st'] by (simp add: count_int_def)
qed

lemma low_bytes_4: "low_bytes 4 v = [ucast v, ucast (drop_bit 8 v), ucast (drop_bit 16 v), ucast (drop_bit 24 v)]"
proof -
  have "low_bytes (Suc (Suc (Suc (Suc 0)))) v = [ucast v, ucast (drop_bit 8 v), ucast (drop_bit 16 v), ucast (drop_bit 24 v)]"
    by (simp only: low_bytes.simps drop_bit_drop_bit) simp
  then show ?thesis by (simp add: eval_nat_numeral)
qed

text \<open>A memory with a source at 1, a format at 30 and room for results at 60, for the examples.\<close>

definition scan_memory :: "u8 list \<Rightarrow> u8 list \<Rightarrow> u8 list \<Rightarrow> mem" where
  "scan_memory src fmt res =
     (\<lambda>p. if p < 30 then mem_of 1 (src @ [0]) p else if p < 60 then mem_of 30 (fmt @ [0]) p else mem_of 60 res p)"

theorem sscanf_reads_number_witness:
  "vsscanf 0 1 30 [60] (scan_memory [0x20, 0x2d, 0x34, 0x32, 0x78] [0x25, 0x64] [0, 0, 0, 0]) (stdout idle_console) =
    Some (1, write_bytes (scan_memory [0x20, 0x2d, 0x34, 0x32, 0x78] [0x25, 0x64] [0, 0, 0, 0]) 60 [0xd6, 0xff, 0xff, 0xff],
      stdout idle_console)"
proof -
  let ?m = "scan_memory [0x20, 0x2d, 0x34, 0x32, 0x78] [0x25, 0x64] [0, 0, 0, 0]"
  have "cstr ?m 30 [0x25, 0x64]" "cstr ?m 1 ([0x20] @ [0x2d] @ [0x34, 0x32] @ [0x78])"
    by (simp_all add: cstr_def scan_memory_def)
  moreover have "mapped ?m 60 4" by (auto simp: mapped_def scan_memory_def)
  moreover have "low_bytes 4 (of_int (scan_value 10 [0x2d] [0x34, 0x32])) = [0xd6, 0xff, 0xff, 0xff]"
    by (simp add: low_bytes_4 scan_value_def dval_def)
  ultimately show ?thesis
    using sscanf_reads_number [where m = ?m and fmt = 30 and c = "0x64" and b = 10 and s = 1 and ws = "[0x20]" and sg = "[0x2d]"
        and ds = "[0x34, 0x32]" and rest = "[0x78]" and a = 60 and r = 0 and args = "[]" and out = "stdout idle_console"]
    by (simp add: space_byte_def signed_digits_def stops_def dval_def del: write_bytes.simps)
qed

section \<open>Characters without a width\<close>

lemma put_byte_uint: "p_mem st c \<noteq> None \<Longrightarrow> put_byte c (uint x) st = Some (st\<lparr>p_mem := (p_mem st)(c \<mapsto> x)\<rparr>)"
  by (auto simp: put_byte_def store_def)

text \<open>Targets that do not overlap the string at \<open>p\<close>.\<close>

definition apart :: "ptr \<Rightarrow> nat \<Rightarrow> ptr \<Rightarrow> nat \<Rightarrow> bool" where
  "apart c n p k \<longleftrightarrow> c + n \<le> p \<or> p + k < c"

lemma apart_step: "apart c (Suc n) p (Suc k) \<Longrightarrow> apart (Suc c) n (Suc p) k"
  by (auto simp: apart_def)

lemma cstr_apart: "cstr m p s \<Longrightarrow> apart c (length xs) p (length s) \<Longrightarrow> cstr (write_bytes m c xs) p s"
  by (erule cstr_cong) (auto simp: apart_def write_bytes_apply)

lemma adv_put: "adv k (st\<lparr>p_mem := m\<rparr>) = (adv k st)\<lparr>p_mem := m\<rparr>"
  by (simp add: adv_def)

lemma scan_c_loop_all:
  assumes "counters_ok st" "cstr (p_mem st) (p_s st) src" "p_current st + length src < p_width st"
    "mapped (p_mem st) c (length src)" "apart c (length src) (p_s st) (length src)"
  shows "scan_c_loop c parsed st =
    Some (parsed \<or> src \<noteq> [], (adv (length src) st)\<lparr>p_mem := write_bytes (p_mem st) c src\<rparr>)"
  using assms
proof (induction src arbitrary: st c parsed)
  case Nil
  then show ?case using GET_end [OF Nil.prems(1)] by (subst scan_c_loop.simps) (simp add: mem_simps)
next
  case (Cons x src)
  let ?st = "(adv 1 st)\<lparr>p_mem := (p_mem st)(c \<mapsto> x)\<rparr>"
  have g: "GET st = Some (uint x, adv 1 st)" using Cons.prems(1,2) by (intro GET_char) (auto simp: mem_simps)
  have cur: "p_current (adv 1 st) = p_current st + 1"
    using Cons.prems(1,3) by (intro adv_current) (auto simp: counters_ok_def)
  have "p_mem st c \<noteq> None" using Cons.prems(4) by (auto simp: mem_simps)
  then have "scan_c_loop c parsed st = scan_c_loop (Suc c) True ?st"
    using g Cons.prems(3) by (subst scan_c_loop.simps) (simp add: put_byte_uint)
  also have "\<dots> = Some (True \<or> src \<noteq> [], (adv (length src) ?st)\<lparr>p_mem := write_bytes (p_mem ?st) (Suc c) src\<rparr>)"
  proof (rule Cons.IH)
    show "counters_ok ?st" using Cons.prems(1) by (simp add: counters_ok_def adv_def)
    have "c < Suc (p_s st) \<or> Suc (p_s st) + length src < c" using Cons.prems(5) by (auto simp: apart_def)
    then show "cstr (p_mem ?st) (p_s ?st) src" using Cons.prems(2) by (simp add: mem_simps)
    show "p_current ?st + length src < p_width ?st" using Cons.prems(3) cur by simp
    show "mapped (p_mem ?st) (Suc c) (length src)" using Cons.prems(4) by (simp add: mem_simps)
    show "apart (Suc c) (length src) (p_s ?st) (length src)"
      using apart_step Cons.prems(5) by simp
  qed
  finally show ?case by (simp add: adv_put)
qed

text \<open>
  \<open>%c\<close> without a width is meant to read one character. The missing width is recognised by a
  comparison of 32-bit with 64-bit ones, so it takes the whole source and stores it at the argument.
\<close>

theorem percent_c_takes_all:
  assumes "cstr m fmt [0x25, 0x63]" and "cstr m s src" and "src \<noteq> []" and "length src < 2 ^ 32 - 1"
    and "mapped m (unat a) (length src)" and "apart (unat a) (length src) s (length src)" and "apart (unat a) (length src) fmt 2"
  shows "vsscanf r s fmt (a # args) m out = Some (1, write_bytes m (unat a) src, out)"
proof -
  let ?st = "start s (a # args) m out"
  let ?st1 = "?st\<lparr>p_arg := args\<rparr>"
  have f: "m (fmt + 1) = Some 0x63" "m (fmt + 2) = Some 0" using assms(1) by (simp_all add: mem_simps)
  have "counters_ok ?st1" using start_fields(9) [of s "a # args" m out] by (simp add: counters_ok_def)
  then have loop: "scan_c_loop (unat a) False ?st1 =
      Some (True, (adv (length src) ?st1)\<lparr>p_mem := write_bytes m (unat a) src\<rparr>)"
    using scan_c_loop_all [of ?st1 src "unat a" False] assms(2-6) by simp
  define st' where "st' = count ((adv (length src) ?st1)\<lparr>p_mem := write_bytes m (unat a) src\<rparr>)"
  have "scan_convert r fmt (fmt + 1) ?st = Some (fmt + 2, st')"
    using f(1) loop by (simp add: scan_convert_def scan_c_def va_ptr_def float_specs_def st'_def)
  moreover have "p_mem st' = write_bytes m (unat a) src" "p_stdout st' = out" "p_n st' = 1"
    by (simp_all add: st'_def count_def up32_def)
  moreover have "write_bytes m (unat a) src (fmt + 2) = Some 0"
    using assms(7) f(2) by (subst write_bytes_other) (auto simp: apart_def)
  ultimately show ?thesis
    using vsscanf_one [OF assms(1), of r s "a # args" out st'] by (simp add: count_int_def dval_def space_byte_def)
qed

theorem percent_c_takes_all_witness:
  "vsscanf 0 1 30 [60] (scan_memory [0x61, 0x62, 0x63] [0x25, 0x63] [0, 0, 0]) (stdout idle_console) =
    Some (1, write_bytes (scan_memory [0x61, 0x62, 0x63] [0x25, 0x63] [0, 0, 0]) 60 [0x61, 0x62, 0x63], stdout idle_console)"
proof -
  let ?m = "scan_memory [0x61, 0x62, 0x63] [0x25, 0x63] [0, 0, 0]"
  have "cstr ?m 30 [0x25, 0x63]" "cstr ?m 1 [0x61, 0x62, 0x63]" by (simp_all add: cstr_def scan_memory_def)
  moreover have "mapped ?m 60 3" by (auto simp: mapped_def scan_memory_def)
  ultimately show ?thesis
    using percent_c_takes_all [where m = ?m and fmt = 30 and s = 1 and src = "[0x61, 0x62, 0x63]" and a = 60 and r = 0
        and args = "[]" and out = "stdout idle_console"]
    by (simp add: apart_def numeral_3_eq_3 del: write_bytes.simps)
qed

section \<open>Suppressed and unsupported conversions\<close>

lemma scan_s_loop_word:
  assumes "counters_ok st" "cstr (p_mem st) (p_s st) (w @ rest)" "p_current st + length w < p_width st"
    "\<forall>x \<in> set w. unat x < 128 \<and> \<not> space_byte x" "rest = [] \<or> space_byte (hd rest)"
    "mapped (p_mem st) c (length w)" "apart c (length w) (p_s st) (length (w @ rest))"
  shows "\<exists>sp. scan_s_loop c parsed st = Some (sp, c + length w, parsed \<or> w \<noteq> [],
    (adv (length w) st)\<lparr>p_mem := write_bytes (p_mem st) c w\<rparr>)"
  using assms
proof (induction w arbitrary: st c parsed)
  case Nil
  note ok = Nil.prems(1)
  show ?case
  proof (cases rest)
    case Nil
    then show ?thesis using GET_end [OF ok] Nil.prems ok by (subst scan_s_loop.simps) (auto simp: mem_simps)
  next
    case (Cons x r)
    then have x: "unat x < 128" "x \<noteq> 0" "p_mem st (p_s st) = Some x" "space_byte x"
      using Nil.prems by (auto simp: mem_simps space_byte_def)
    have g: "GET st = Some (uint x, adv 1 st)" using x by (intro GET_char [OF ok])
    obtain b where b: "isspace (uint x) = Some b" "b \<noteq> 0" using isspace_uint [OF x(1)] x(4) by blast
    have u: "UNGET k (adv 1 st) = st" for k using UNGET_adv [OF ok, of k 0] ok by simp
    show ?thesis using g b u Nil.prems(3) ok by (subst scan_s_loop.simps) auto
  qed
next
  case (Cons x w)
  let ?st = "(adv 1 st)\<lparr>p_mem := (p_mem st)(c \<mapsto> x)\<rparr>"
  have g: "GET st = Some (uint x, adv 1 st)" using Cons.prems(1,2) by (intro GET_char) (auto simp: mem_simps)
  have sp: "isspace (uint x) = Some 0" using isspace_uint [of x] Cons.prems(4) by auto
  have cur: "p_current (adv 1 st) = p_current st + 1"
    using Cons.prems(1,3) by (intro adv_current) (auto simp: counters_ok_def)
  have "p_mem st c \<noteq> None" using Cons.prems(6) by (auto simp: mem_simps)
  then have "scan_s_loop c parsed st = scan_s_loop (Suc c) True ?st"
    using g sp Cons.prems(3) by (subst scan_s_loop.simps) (simp add: put_byte_uint)
  moreover have "\<exists>sp. scan_s_loop (Suc c) True ?st = Some (sp, Suc c + length w, True \<or> w \<noteq> [],
      (adv (length w) ?st)\<lparr>p_mem := write_bytes (p_mem ?st) (Suc c) w\<rparr>)"
  proof (rule Cons.IH)
    show "counters_ok ?st" using Cons.prems(1) by (simp add: counters_ok_def adv_def)
    have "c < Suc (p_s st) \<or> Suc (p_s st) + length (w @ rest) < c" using Cons.prems(7) by (auto simp: apart_def)
    then show "cstr (p_mem ?st) (p_s ?st) (w @ rest)" using Cons.prems(2) by (simp add: mem_simps)
    show "p_current ?st + length w < p_width ?st" using Cons.prems(3) cur by simp
    show "mapped (p_mem ?st) (Suc c) (length w)" using Cons.prems(6) by (simp add: mem_simps)
    show "apart (Suc c) (length w) (p_s ?st) (length (w @ rest))"
      using apart_step Cons.prems(7) by simp
  qed (use Cons.prems in auto)
  ultimately show ?case by (auto simp: adv_put)
qed

text \<open>
  \<open>%*s\<close> is meant to skip a word. The star is ignored by \<open>%s\<close>: the word is stored through the next argument
  and counted.
\<close>

theorem suppressed_string_is_stored:
  assumes "cstr m fmt [0x25, 0x2a, 0x73]" and "cstr m s (w @ rest)" and "w \<noteq> []" and "length w < 2 ^ 32 - 1"
    and "\<forall>x \<in> set w. unat x < 128 \<and> \<not> space_byte x" and "rest = [] \<or> space_byte (hd rest)"
    and "mapped m (unat a) (length w + 1)" and "apart (unat a) (length w + 1) s (length (w @ rest))"
    and "apart (unat a) (length w + 1) fmt 3"
  shows "vsscanf r s fmt (a # args) m out = Some (1, write_bytes m (unat a) (w @ [0]), out)"
proof -
  let ?i = "init_sstatus s None (a # args) m out"
  let ?st = "(start s args m out)\<lparr>p_flags := E_suppressed\<rparr>"
  let ?m = "write_bytes m (unat a) (w @ [0])"
  have f: "m fmt = Some 0x25" "m (Suc fmt) = Some 0x2a" "m (Suc (Suc fmt)) = Some 0x73" "m (Suc (Suc (Suc fmt))) = Some 0"
    using assms(1) by (simp_all add: mem_simps)
  have ok: "counters_ok ?st" using start_fields(9) [of s args m out] by (simp add: counters_ok_def)
  have "mapped m (unat a) (length w)" using assms(7) by (rule mapped_le) simp
  moreover have "apart (unat a) (length w) s (length (w @ rest))" using assms(8) by (auto simp: apart_def)
  ultimately obtain sp where loop: "scan_s_loop (unat a) False ?st = Some (sp, unat a + length w, True,
      (adv (length w) ?st)\<lparr>p_mem := write_bytes m (unat a) w\<rparr>)"
    using scan_s_loop_word [of ?st w rest "unat a" False] ok assms(2-6) by fastforce
  define st' where "st' = count ((adv (length w) ?st)\<lparr>p_mem := ?m\<rparr>)"
  have "write_bytes m (unat a) w (unat a + length w) \<noteq> None"
    using assms(7) by (simp add: write_bytes_apply mapped_def)
  then have nul: "put_byte (unat a + length w) 0 ((adv (length w) ?st)\<lparr>p_mem := write_bytes m (unat a) w\<rparr>) =
      Some ((adv (length w) ?st)\<lparr>p_mem := ?m\<rparr>)"
    by (auto simp: put_byte_def store_def write_bytes_append)
  have "scan r fmt ?i = scan_s (Suc (Suc fmt)) (?st\<lparr>p_arg := a # args\<rparr>)"
    using f strtol_no_number [of m "Suc (Suc fmt)" "0x73"]
    by (simp add: scan_def scan_directive_def scan_suppress_def scan_width_def scan_modifier_def init_sstatus_def
        start_def cleared_def scan_convert_def float_specs_def dval_def space_byte_def)
  also have "\<dots> = Some (Suc (Suc (Suc fmt)), st')"
    using loop nul by (simp add: scan_s_def va_ptr_def st'_def start_def cleared_def init_sstatus_def)
  finally have sc: "scan r fmt ?i = Some (Suc (Suc (Suc fmt)), st')" .
  have fields: "p_mem st' = ?m" "p_stdout st' = out" "p_n st' = 1" by (simp_all add: st'_def count_def up32_def)
  have "?m (Suc (Suc (Suc fmt))) = Some 0" using assms(9) f(4) by (subst write_bytes_other) (auto simp: apart_def)
  then have "vsscanf_loop r (Suc (Suc (Suc fmt))) st' = Some (count_int st', st')"
    using fields(1) by (subst vsscanf_loop.simps) simp
  then have "vsscanf_loop r fmt ?i = Some (count_int st', st')"
    using sc f(1) by (subst vsscanf_loop.simps) (simp add: NULL_def init_sstatus_def)
  then show ?thesis using fields by (simp add: vsscanf_def count_int_def)
qed

theorem suppressed_string_is_stored_witness:
  "vsscanf 0 1 30 [60] (scan_memory [0x68, 0x69, 0x20] [0x25, 0x2a, 0x73] [1, 1, 1]) (stdout idle_console) =
    Some (1, write_bytes (scan_memory [0x68, 0x69, 0x20] [0x25, 0x2a, 0x73] [1, 1, 1]) 60 [0x68, 0x69, 0], stdout idle_console)"
proof -
  let ?m = "scan_memory [0x68, 0x69, 0x20] [0x25, 0x2a, 0x73] [1, 1, 1]"
  have "cstr ?m 30 [0x25, 0x2a, 0x73]" "cstr ?m 1 ([0x68, 0x69] @ [0x20])" by (simp_all add: cstr_def scan_memory_def)
  moreover have "mapped ?m 60 3" by (auto simp: mapped_def scan_memory_def)
  ultimately show ?thesis
    using suppressed_string_is_stored [where m = ?m and fmt = 30 and s = 1 and w = "[0x68, 0x69]" and rest = "[0x20]" and a = 60
        and r = 0 and args = "[]" and out = "stdout idle_console"]
    by (simp add: apart_def space_byte_def numeral_3_eq_3 del: write_bytes.simps)
qed

text \<open>
  \<open>%zu\<close> sets \<open>E_size\<close> and \<open>E_unsigned\<close>, a combination the switch does not have: whatever number stands in
  the source, nothing is stored, a message goes to \<open>stdout\<close> and no conversion is counted.
\<close>

theorem percent_zu_fails:
  assumes "fmt \<noteq> NULL" and "cstr m fmt [0x25, 0x7a, 0x75]" and "cstr m s (ws @ sg @ ds @ rest)" and "\<forall>x \<in> set ws. space_byte x"
    and "signed_digits 10 sg ds rest" and "length (sg @ ds) < 2 ^ 32 - 1" and "puts unsupported out = Some (k, out')"
  shows "vsscanf r s fmt args m out = Some (if rest \<noteq> [] \<and> hd rest = 0x0a then -1 else 0, m, out')"
proof -
  let ?i = "init_sstatus s None args m out"
  let ?st = "(start s args m out)\<lparr>p_flags := E_size OR E_unsigned, p_base := 10\<rparr>"
  have f: "m fmt = Some 0x25" "m (Suc fmt) = Some 0x7a" "m (Suc (Suc fmt)) = Some 0x75"
    using assms(2) by (simp_all add: mem_simps)
  have s: "sg \<in> {[], [0x2b], [0x2d]}" "digits_of 10 ds" "ds \<noteq> []" "stops 10 rest"
    using assms(5) by (auto simp: signed_digits_def)
  have ok: "counters_ok ?st" using start_fields(9) [of s args m out] by (simp add: counters_ok_def)
  define st' where "st' = adv (length (sg @ ds)) (skipped (length ws) ?st)"
  obtain rc' where loop: "scan_int_loop 0 False 0 False r ?st =
      Some (of_nat (numval 10 0 ds), if sg = [0x2d] then - 1 else 1, True, rc', st')"
    unfolding st'_def using scan_int_signed [of ?st ws sg ds rest 10 r] ok assms(3,4,6) s by (fastforce simp: ends_def)
  have fl: "p_flags st' = E_size OR E_unsigned" "p_stdout st' = out" "p_mem st' = m" "p_n st' = 0"
      "p_s st' = s + length (ws @ sg @ ds)"
    by (simp_all add: st'_def)
  have sz: "assign_size (E_size OR E_unsigned) = None" "(E_size OR E_unsigned) AND E_suppressed = 0"
    by (simp_all add: assign_size_def E_defs E_suppressed_def)
  have "scan r fmt ?i = scan_int r (Suc (Suc fmt)) ?st"
    using f strtol_no_number [of m "Suc fmt" "0x7a"]
    by (simp add: scan_def scan_directive_def scan_suppress_def scan_width_def scan_modifier_def set_type_def init_sstatus_def
        start_def cleared_def scan_convert_def int_spec_def dval_def space_byte_def E_suppressed_def)
  also have "\<dots> = Some (NULL, st'\<lparr>p_stdout := out'\<rparr>)"
    using loop fl sz assms(7) by (simp add: scan_int_def scan_assign_def)
  finally have sc: "scan r fmt ?i = Some (NULL, st'\<lparr>p_stdout := out'\<rparr>)" .
  have rest: "cstr m (p_s st') rest" using cstr_drop [OF assms(3), of "length (ws @ sg @ ds)"] fl(5) by simp
  show ?thesis
  proof (cases rest)
    case Nil
    then have "m (p_s st') = Some 0" using rest by (simp add: mem_simps)
    then have "vsscanf_loop r fmt ?i = Some (0, st'\<lparr>p_stdout := out'\<rparr>)"
      using sc f(1) fl assms(1) by (subst vsscanf_loop.simps) (simp add: init_sstatus_def count_int_def NULL_def)
    then show ?thesis using Nil fl by (simp add: vsscanf_def)
  next
    case (Cons x q)
    then have "m (p_s st') = Some x" using rest by (simp add: mem_simps)
    then show ?thesis
      using sc f(1) fl Cons assms(1) by (subst vsscanf_def, subst vsscanf_loop.simps) (simp add: init_sstatus_def count_int_def)
  qed
qed

theorem percent_zu_fails_witness:
  "vsscanf 0 1 30 [60] (scan_memory [0x37] [0x25, 0x7a, 0x75] [0, 0, 0, 0, 0, 0, 0, 0])
     (set_flags ERRORFLAG (stdout idle_console)) =
    Some (0, scan_memory [0x37] [0x25, 0x7a, 0x75] [0, 0, 0, 0, 0, 0, 0, 0], set_flags ERRORFLAG (stdout idle_console))"
proof -
  let ?m = "scan_memory [0x37] [0x25, 0x7a, 0x75] [0, 0, 0, 0, 0, 0, 0, 0]"
  let ?o = "set_flags ERRORFLAG (stdout idle_console)"
  have "cstr ?m 30 [0x25, 0x7a, 0x75]" "cstr ?m 1 ([] @ [] @ [0x37] @ [])" by (simp_all add: cstr_def scan_memory_def)
  moreover have "puts unsupported ?o = Some (EOF, ?o)"
    by (subst puts_error) (simp_all add: has_flag_def set_flags_def ERRORFLAG_def bit.conj_disj_distrib2)
  ultimately show ?thesis
    using percent_zu_fails [where m = ?m and fmt = 30 and s = 1 and ws = "[]" and sg = "[]" and ds = "[0x37]" and rest = "[]"
        and r = 0 and args = "[60]" and out = ?o and k = EOF and out' = ?o]
    by (simp add: NULL_def signed_digits_def stops_def dval_def)
qed

section \<open>Numbers at the end of a file\<close>

text \<open>A stream whose buffer holds one more character, while its device is at the end.\<close>

definition last_char :: "u8 \<Rightarrow> 'd FILE \<Rightarrow> bool" where
  "last_char c f \<longleftrightarrow> (\<exists>b d. buffer f = Some b \<and> bufidx f < length b \<and> b ! bufidx f = c \<and> bufend f = bufidx f + 1 \<and>
     ungetidx f = 0 \<and> ungetbuf f \<noteq> [] \<and> op_read (ops f) (handle f) (bufsize f) = (True, [], d) \<and> status f = FREAD)"

lemma fgetc_last:
  assumes "last_char c f"
  shows "\<exists>f'. fgetc f = Some (uint c, f') \<and> has_flag EOFFLAG f' \<and> ungetidx f' = 0 \<and> ungetbuf f' \<noteq> []"
proof -
  obtain b d where f: "buffer f = Some b" "bufidx f < length b" "b ! bufidx f = c" "bufend f = bufidx f + 1"
      "ungetidx f = 0" "ungetbuf f \<noteq> []" "op_read (ops f) (handle f) (bufsize f) = (True, [], d)" "status f = FREAD"
    using assms by (auto simp: last_char_def)
  let ?f1 = "set_flags (FREAD OR BYTESTREAM) f"
  let ?f3 = "set_flags EOFFLAG (?f1\<lparr>bufidx := bufidx f + 1, handle := d\<rparr>)"
  have "prepread f = Some (0, ?f1)"
    using f by (simp add: prepread_def has_flag_def flag_defs set_flags_def Let_def)
  moreover have "getchars 1 EOF ?f1 = Some ([c], ?f3)"
    using f uint_not_EOF [of c] by (simp add: getchars_def fillbuffer_def set_flags_def EOF_def Let_def)
  ultimately have "fgetc f = Some (uint c, ?f3)" by (simp add: fgetc_def EOF_def)
  moreover have "has_flag EOFFLAG ?f3" by (simp add: has_flag_def set_flags_def EOFFLAG_def bit.conj_disj_distrib2)
  ultimately show ?thesis using f(5,6) by (auto simp: set_flags_def)
qed

lemma fgetc_after_end:
  assumes "has_flag EOFFLAG f"
  shows "fgetc f = Some (EOF, set_flags ERRORFLAG f)"
proof -
  have "has_flag (FWRITE OR FAPPEND OR ERRORFLAG OR WIDESTREAM OR EOFFLAG) f"
    using assms by (auto simp: has_flag_def bit.conj_disj_distrib or_eq_0_iff)
  then show ?thesis by (simp add: fgetc_def prepread_def)
qed

text \<open>
  A digit that is the last character of a file is not read by \<open>%d\<close>: the stream fills its buffer at once after
  the character and notices the end, and a stream at the end gives out no character that was put back.
\<close>

theorem fscanf_loses_last_digit:
  assumes "last_char c f" and "0x30 \<le> c" and "c \<le> 0x39" and "cstr m fmt [0x25, 0x64]" and "fmt \<noteq> NULL"
  shows "\<exists>st. vfscanf r f fmt args m out = Some (EOF, st) \<and> p_mem st = m"
proof -
  let ?i = "init_sstatus 0 (Some f) args m out"
  let ?st = "int_spec 10 0 (cleared ?i)"
  have c: "unat c < 128" "c \<noteq> 0x2b" "c \<noteq> 0x2d" "\<not> space_byte c"
    using assms(2,3) by (auto simp: word_le_nat_alt space_byte_def)
  obtain f1 where f1: "fgetc f = Some (uint c, f1)" "has_flag EOFFLAG f1" "ungetidx f1 = 0" "ungetbuf f1 \<noteq> []"
    using fgetc_last [OF assms(1)] by blast
  define f2 where "f2 = snd (ungetc (uint c) f1)"
  have "has_flag EOFFLAG f2" using f1(2) by (simp add: f2_def ungetc_def has_flag_def)
  then have f3: "fgetc f2 = Some (EOF, set_flags ERRORFLAG f2)" by (rule fgetc_after_end)
  have sp: "isspace (uint c) = Some 0" using isspace_uint [OF c(1)] c(4) by auto
  define st1 where "st1 = ?st\<lparr>p_stream := Some f1, p_i := 1, p_current := 1\<rparr>"
  define st2 where "st2 = ?st\<lparr>p_stream := Some f2\<rparr>"
  have g1: "GET ?st = Some (uint c, st1)"
    using f1(1) uint_not_EOF [of c]
    by (simp add: GET_def st1_def int_spec_def cleared_def init_sstatus_def up32_def)
  have u: "UNGET (uint c) st1 = st2"
    by (simp add: UNGET_def st1_def st2_def f2_def down32_def int_spec_def cleared_def init_sstatus_def)
  have g2: "GET st2 = Some (EOF, st2\<lparr>p_stream := Some (set_flags ERRORFLAG f2)\<rparr>)"
    using f3 by (simp add: GET_def st2_def)
  have lt: "p_current ?st < p_width ?st" "p_current st2 < p_width st2"
    by (simp_all add: st2_def int_spec_def cleared_def init_sstatus_def)
  have "scan_int_loop 0 False 1 False (uint c) st2 = Some (0, 1, False, EOF, st2\<lparr>p_stream := Some (set_flags ERRORFLAG f2)\<rparr>)"
    using lt(2) g2 by (subst scan_int_loop.simps) simp
  then have loop: "scan_int_loop 0 False 0 False r ?st = Some (0, 1, False, EOF, st2\<lparr>p_stream := Some (set_flags ERRORFLAG f2)\<rparr>)"
    using lt(1) g1 u sp c(2,3) uint_eq_numeral_u8 [of c] by (subst scan_int_loop.simps) simp
  have n: "p_n st2 = 0" "p_mem st2 = m" by (simp_all add: st2_def int_spec_def cleared_def init_sstatus_def)
  have fm: "m fmt = Some 0x25" "m (fmt + 1) = Some 0x64" using assms(4) by (simp_all add: mem_simps)
  have "scan r fmt ?i = scan_convert r fmt (fmt + 1) (cleared ?i)"
    using fm(2) by (intro scan_plain [of _ _ "0x64"]) (simp_all add: init_sstatus_def dval_def space_byte_def)
  also have "\<dots> = Some (NULL, st2\<lparr>p_stream := Some (set_flags ERRORFLAG f2), p_n := 2 ^ 32 - 1\<rparr>)"
    using loop n fm(2) by (simp add: scan_convert_def scan_int_def input_error_def cleared_def init_sstatus_def)
  finally have "scan r fmt ?i = Some (NULL, st2\<lparr>p_stream := Some (set_flags ERRORFLAG f2), p_n := 2 ^ 32 - 1\<rparr>)" .
  then have "vfscanf r f fmt args m out =
      Some (EOF, st2\<lparr>p_stream := Some (set_flags ERRORFLAG f2), p_n := 2 ^ 32 - 1\<rparr>)"
    using fm(1) assms(5) unfolding vfscanf_def
    by (subst vfscanf_loop.simps) (simp add: init_sstatus_def count_int_def EOF_def)
  then show ?thesis using n(2) by simp
qed

text \<open>A device at its end under a buffer that holds one digit.\<close>

definition at_end :: "u8 \<Rightarrow> unit FILE" where
  "at_end c = \<lparr>ops = \<lparr>op_read = (\<lambda>d n. (True, [], d)), op_write = (\<lambda>d bs. (True, length bs, d)),
       op_seek = (\<lambda>d n w. (False, 0, d)), op_close = id\<rparr>,
     handle = (), buffer = Some [c, 0], bufsize = 2, bufidx = 0, bufend = 1, ungetidx = 0, ungetbuf = [0],
     status = FREAD, pos_offset = 1\<rparr>"

theorem fscanf_loses_last_digit_witness:
  "\<exists>st. vfscanf 0 (at_end 0x37) 30 [60] (scan_memory [] [0x25, 0x64] [0, 0, 0, 0]) (at_end 0) = Some (EOF, st) \<and>
     p_mem st = scan_memory [] [0x25, 0x64] [0, 0, 0, 0]"
proof (rule fscanf_loses_last_digit)
  show "last_char 0x37 (at_end 0x37)" by (simp add: last_char_def at_end_def)
  show "cstr (scan_memory [] [0x25, 0x64] [0, 0, 0, 0]) 30 [0x25, 0x64]" by (simp add: cstr_def scan_memory_def)
qed (simp_all add: NULL_def)

section \<open>Scan sets\<close>

text \<open>A set that consists of ranges and single characters, none of them a dash, and what it means.\<close>

definition item_bytes :: "u8 \<times> u8 \<Rightarrow> u8 list" where
  "item_bytes i = (if fst i = snd i then [fst i] else [fst i, 0x2d, snd i])"

definition set_bytes :: "(u8 \<times> u8) list \<Rightarrow> u8 list" where
  "set_bytes items = concat (map item_bytes items)"

definition plain_items :: "(u8 \<times> u8) list \<Rightarrow> bool" where
  "plain_items items \<longleftrightarrow> list_all (\<lambda>(lo, hi). lo \<le> hi \<and> lo \<noteq> 0x2d \<and> hi \<noteq> 0x2d) items"

text \<open>
  Such a scan set matches exactly the characters between the ends of one of its ranges; the dash after a
  complete range would begin no new one.
\<close>

theorem scanset_means_ranges:
  assumes "plain_items items"
  shows "in_scanset (set_bytes items) (-1) (uint c) \<longleftrightarrow> (\<exists>(lo, hi) \<in> set items. lo \<le> c \<and> c \<le> hi)"
proof -
  have "in_scanset (set_bytes items) p (uint c) \<longleftrightarrow> (\<exists>(lo, hi) \<in> set items. lo \<le> c \<and> c \<le> hi)" for p
    using assms
  proof (induction items arbitrary: p)
    case Nil
    then show ?case by (simp add: set_bytes_def)
  next
    case (Cons i items)
    obtain lo hi where i: "i = (lo, hi)" by fastforce
    have h: "lo \<le> hi" "lo \<noteq> 0x2d" "hi \<noteq> 0x2d" "plain_items items" using Cons.prems i by (auto simp: plain_items_def)
    have IH: "in_scanset (set_bytes items) q (uint c) \<longleftrightarrow> (\<exists>(lo, hi) \<in> set items. lo \<le> c \<and> c \<le> hi)" for q
      by (rule Cons.IH [OF h(4)])
    have sb: "set_bytes ((l, k) # items) = item_bytes (l, k) @ set_bytes items" for l k by (simp add: set_bytes_def)
    have ne: "uint lo \<noteq> - 1" using uint_ge_0 [of lo] by linarith
    show ?case
    proof (cases "lo = hi")
      case True
      have "uint c = uint lo \<longleftrightarrow> lo \<le> c \<and> c \<le> lo" by (auto simp: word_le_def)
      then show ?thesis using IH h True by (simp add: sb item_bytes_def i)
    next
      case False
      have "uint c = uint lo \<or> uint lo < uint c \<and> uint c \<le> uint hi \<or> uint c = uint hi \<longleftrightarrow> lo \<le> c \<and> c \<le> hi"
        using h(1) by (auto simp: word_le_def)
      then show ?thesis using IH h False ne by (simp add: sb item_bytes_def i) metis
    qed
  qed
  then show ?thesis .
qed

theorem scanset_means_ranges_witness:
  "in_scanset [0x61, 0x2d, 0x66, 0x5f] (-1) (uint (0x63 :: u8)) \<and> \<not> in_scanset [0x61, 0x2d, 0x66, 0x5f] (-1) (uint (0x67 :: u8))"
  using scanset_means_ranges [of "[(0x61, 0x66), (0x5f, 0x5f)]" "0x63"] scanset_means_ranges [of "[(0x61, 0x66), (0x5f, 0x5f)]" "0x67"]
  by (simp add: plain_items_def set_bytes_def item_bytes_def)

end
