(* ===== verification/PdcFile.thy ===== *)
theory PdcFile
  imports PdcStdio
begin

text \<open>
  The list of open streams of the C library (fopen.c, fclose.c, freopen.c, _PDCLIB_fvopen.c,
  _PDCLIB_closeall.c, rename.c) and the file operations of the kernel under it, which open nothing. Streams lie in a store from
  addresses to streams and are linked through their \<open>next\<close> members, so that freed streams and
  dangling pointers are visible. The result of \<open>calloc\<close> and the platform's open function are parameters.
\<close>

section \<open>Streams and their list\<close>

text \<open>
  The members of the struct that PdcStdio leaves out: the lock of the build without threads (a plain \<open>char\<close>), the
  name, with the size of the buffer it is in, and the link.
\<close>

record 'd stream =
  base :: "'d FILE"
  lock :: u8
  fname :: "(nat \<times> u8 list) option"
  next_stream :: ptr

record 'd io =
  streams :: "ptr \<Rightarrow> 'd stream option"
  filelist :: ptr
  errno :: u32

definition EINVAL :: u32 where "EINVAL = 22"
definition ENOTSUP :: u32 where "ENOTSUP = 95"

definition set_stream :: "ptr \<Rightarrow> 'd stream \<Rightarrow> 'd io \<Rightarrow> 'd io" where
  "set_stream p f io = io\<lparr>streams := (streams io)(p \<mapsto> f)\<rparr>"

section \<open>Opening\<close>

text \<open>
  \<open>_PDCLIB_fvopen\<close>; \<open>p\<close> is what \<open>calloc\<close> returns, NULL when there is no memory. Its block holds the stream,
  the unget buffer, the name and the buffer. \<open>mtx_init\<close> always succeeds.
\<close>

definition fvopen :: "ptr \<Rightarrow> 'd \<Rightarrow> 'd fileops \<Rightarrow> u32 \<Rightarrow> u8 list option \<Rightarrow> 'd io \<Rightarrow> ptr \<times> 'd io" where
  "fvopen p fd fops mode filename io =
     (if mode = 0 then (NULL, io)
      else if p = NULL then (NULL, io)
      else (
        let filename_len = (case filename of None \<Rightarrow> 1 | Some n \<Rightarrow> length n + 1);
            f = \<lparr>ops = fops, handle = fd, buffer = Some (replicate BUFSIZ 0), bufsize = BUFSIZ, bufidx = 0, bufend = 0,
                 ungetidx = 0, ungetbuf = replicate UNGETCBUFSIZE 0, status = mode OR IOLBF, pos_offset = 0\<rparr>
        in (p, (set_stream p \<lparr>base = f, lock = 0, fname = Some (filename_len, case filename of None \<Rightarrow> [] | Some n \<Rightarrow> n),
                  next_stream = filelist io\<rparr> io)\<lparr>filelist := p\<rparr>)))"

text \<open>
  The platform's open: the handle and its operations, or None, and \<open>errno\<close>. A name is given as its bytes, None for
  a null pointer.
\<close>

type_synonym 'd opener = "u8 list \<Rightarrow> u32 \<Rightarrow> u32 \<Rightarrow> ('d \<times> 'd fileops) option \<times> u32"

definition fopen :: "'d opener \<Rightarrow> ptr \<Rightarrow> mem \<Rightarrow> u8 list option \<Rightarrow> ptr \<Rightarrow> 'd io \<Rightarrow> (ptr \<times> 'd io) option" where
  "fopen popen p m filename mode io = do {
     imode \<leftarrow> filemode m mode;
     case filename of
       None \<Rightarrow> Some (NULL, io)
     | Some name \<Rightarrow>
         if imode = 0 then Some (NULL, io)
         else (case popen name imode (errno io) of
             (None, e) \<Rightarrow> Some (NULL, io\<lparr>errno := e\<rparr>)
           | (Some (fd, fops), e) \<Rightarrow> Some (fvopen p fd fops imode filename (io\<lparr>errno := e\<rparr>)))
   }"

text \<open>The kernel's \<open>_PDCLIB_open\<close>.\<close>

definition kernel_open :: "'d opener" where
  "kernel_open name mode e = (None, ENOTSUP)"

section \<open>Closing\<close>

text \<open>The stream is flushed when it has been written to; a failure leaves everything as it is.\<close>

definition close_flush :: "'d FILE \<Rightarrow> (int \<times> 'd FILE) option" where
  "close_flush f = (if has_flag FWRITE f then flushbuffer f else Some (0, f))"

text \<open>The stream at \<open>s\<close> was found after \<open>previous\<close>. The kernel's \<open>remove\<close> only sets \<open>errno\<close>.\<close>

definition close_found :: "ptr \<Rightarrow> ptr \<Rightarrow> 'd io \<Rightarrow> (int \<times> 'd io) option" where
  "close_found s previous io = do {
     f \<leftarrow> streams io s;
     (r, g) \<leftarrow> close_flush (base f);
     if r = EOF then Some (EOF, set_stream s (f\<lparr>base := g\<rparr>) io)
     else do {
       let f = f\<lparr>base := g\<lparr>handle := op_close (ops g) (handle g)\<rparr>\<rparr>;
       let io = set_stream s f io;
       io \<leftarrow> (if previous \<noteq> NULL then do {
                q \<leftarrow> streams io previous;
                Some (set_stream previous (q\<lparr>next_stream := next_stream f\<rparr>) io)
              }
              else Some (io\<lparr>filelist := next_stream f\<rparr>));
       let io = (if has_flag DELONCLOSE (base f) then io\<lparr>errno := ENOTSUP\<rparr> else io);
       Some (0, if has_flag F_STATIC (base f) then io else io\<lparr>streams := (streams io)(s := None)\<rparr>)
     }
   }"

partial_function (option) fclose_loop :: "ptr \<Rightarrow> ptr \<Rightarrow> ptr \<Rightarrow> 'd io \<Rightarrow> (int \<times> 'd io) option" where
  "fclose_loop s previous current io =
     (if current = NULL then Some (- 1, io\<lparr>errno := EINVAL\<rparr>)
      else if s = current then close_found s previous io
      else do { c \<leftarrow> streams io current; fclose_loop s current (next_stream c) io })"

definition fclose :: "ptr \<Rightarrow> 'd io \<Rightarrow> (int \<times> 'd io) option" where
  "fclose s io = fclose_loop s NULL (filelist io) io"

partial_function (option) closeall_loop :: "ptr \<Rightarrow> 'd io \<Rightarrow> 'd io option" where
  "closeall_loop s io =
     (if s = NULL then Some io
      else do {
        f \<leftarrow> streams io s;
        let n = next_stream f;
        (_, io) \<leftarrow> fclose s io;
        closeall_loop n io
      })"

definition closeall :: "'d io \<Rightarrow> 'd io option" where
  "closeall io = closeall_loop (filelist io) io"

section \<open>Reopening and renaming\<close>

text \<open>\<open>_PDCLIB_flockfile\<close>, \<open>_PDCLIB_ftrylockfile\<close> and \<open>_PDCLIB_funlockfile\<close> over the mutex of the build without threads.\<close>

definition flockfile :: "'d stream \<Rightarrow> 'd stream" where
  "flockfile f = f\<lparr>lock := lock f + 1\<rparr>"

definition ftrylockfile :: "'d stream \<Rightarrow> int \<times> 'd stream" where
  "ftrylockfile f = (0, f\<lparr>lock := lock f + 1\<rparr>)"

definition funlockfile :: "'d stream \<Rightarrow> 'd stream option" where
  "funlockfile f = (let k = lock f - 1 in if 0 \<le> sint k then Some (f\<lparr>lock := k\<rparr>) else None)"

text \<open>
  \<open>strcpy\<close> into a buffer of \<open>cap\<close> bytes. \<open>malloc( strlen( filename ) )\<close> has no room for the terminator.
\<close>

definition copy_name :: "nat \<Rightarrow> u8 list \<Rightarrow> 'd stream \<Rightarrow> 'd stream option" where
  "copy_name cap name f = (if length name + 1 \<le> cap then Some (f\<lparr>fname := Some (cap, name)\<rparr>) else None)"

definition freopen_name :: "bool \<Rightarrow> u8 list \<Rightarrow> 'd stream \<Rightarrow> (bool \<times> 'd stream) option" where
  "freopen_name memory name f =
     (case fname f of
        Some (cap, old) \<Rightarrow>
          if length old \<ge> length name then map_option (Pair True) (copy_name cap name f)
          else if memory then map_option (Pair True) (copy_name (length name) name f)
          else Some (False, f\<lparr>fname := None\<rparr>)
      | None \<Rightarrow>
          if memory then map_option (Pair True) (copy_name (length name) name f)
          else Some (False, f\<lparr>fname := None\<rparr>))"

definition kept_flags :: u32 where
  "kept_flags = IONBF OR IOLBF OR IOFBF OR FREEBUFFER OR DELONCLOSE OR F_STATIC"

text \<open>
  \<open>freopen\<close> of the stream at \<open>s\<close>; \<open>memory\<close> says whether \<open>malloc\<close> succeeds. The result of the flush is ignored.
\<close>

definition freopen_open :: "'d opener \<Rightarrow> mem \<Rightarrow> u8 list \<Rightarrow> ptr \<Rightarrow> u32 \<Rightarrow> ptr \<Rightarrow> 'd stream \<Rightarrow> 'd io \<Rightarrow> (ptr \<times> 'd io) option" where
  "freopen_open popen m name mode keep s f io = do {
     let give_up = (\<lambda>f io. do { f \<leftarrow> funlockfile f; Some (NULL, set_stream s f io) });
     if mode = NULL \<or> name = [] then give_up f io
     else do {
       imode \<leftarrow> filemode m mode;
       if imode = 0 then give_up (f\<lparr>base := (base f)\<lparr>status := 0\<rparr>\<rparr>) io
       else (
         let st = imode OR keep;
             f = f\<lparr>base := (base f)\<lparr>status := st, bufidx := 0, bufend := 0, ungetidx := 0\<rparr>\<rparr>
         in case popen name st (errno io) of
              (None, e) \<Rightarrow> give_up f (io\<lparr>errno := e\<rparr>)
            | (Some (fd, fops), e) \<Rightarrow> do {
                f \<leftarrow> funlockfile (f\<lparr>base := (base f)\<lparr>handle := fd, ops := fops\<rparr>\<rparr>);
                Some (s, set_stream s f (io\<lparr>errno := e\<rparr>))
              })
     }
   }"

definition freopen :: "'d opener \<Rightarrow> bool \<Rightarrow> mem \<Rightarrow> u8 list option \<Rightarrow> ptr \<Rightarrow> ptr \<Rightarrow> 'd io \<Rightarrow> (ptr \<times> 'd io) option" where
  "freopen popen memory m filename mode s io = do {
     f \<leftarrow> streams io s;
     let f = flockfile f;
     let keep = status (base f) AND kept_flags;
     (_, g) \<leftarrow> close_flush (base f);
     let f = f\<lparr>base := g\<rparr>;
     if filename = None \<and> fname f = None then do { f \<leftarrow> funlockfile f; Some (NULL, set_stream s f io) }
     else do {
       let f = f\<lparr>base := clearerr (g\<lparr>handle := op_close (ops g) (handle g)\<rparr>)\<rparr>;
       (ok, f) \<leftarrow> (case filename of None \<Rightarrow> Some (True, f) | Some name \<Rightarrow> freopen_name memory name f);
       if \<not> ok then do { f \<leftarrow> funlockfile f; Some (NULL, set_stream s f io) }
       else do {
         (_, name) \<leftarrow> fname f;
         freopen_open popen m name mode keep s f io
       }
     }
   }"

text \<open>\<open>rename\<close>; the platform's function is a parameter, the kernel's ends without returning a value.\<close>

partial_function (option) rename_loop ::
  "(u8 list \<Rightarrow> u8 list \<Rightarrow> int option) \<Rightarrow> u8 list \<Rightarrow> u8 list \<Rightarrow> ptr \<Rightarrow> 'd io \<Rightarrow> int option" where
  "rename_loop prename old new current io =
     (if current = NULL then prename old new
      else do {
        f \<leftarrow> streams io current;
        if map_option snd (fname f) = Some old then Some EOF
        else rename_loop prename old new (next_stream f) io
      })"

definition rename :: "(u8 list \<Rightarrow> u8 list \<Rightarrow> int option) \<Rightarrow> u8 list \<Rightarrow> u8 list \<Rightarrow> 'd io \<Rightarrow> int option" where
  "rename prename old new io = rename_loop prename old new (filelist io) io"

definition kernel_rename :: "u8 list \<Rightarrow> u8 list \<Rightarrow> int option" where
  "kernel_rename old new = None"

text \<open>\<open>tmpfile\<close> of the kernel, and \<open>tmpnam\<close>, which uses its result: a null pointer.\<close>

definition tmpfile :: "'d io \<Rightarrow> ptr \<times> 'd io" where
  "tmpfile io = (NULL, io\<lparr>errno := ENOTSUP\<rparr>)"

definition tmpnam :: "'d io \<Rightarrow> (u8 list \<times> 'd io) option" where
  "tmpnam io = (case tmpfile io of (p, io) \<Rightarrow> do {
     f \<leftarrow> (if p = NULL then None else streams io p);
     (_, name) \<leftarrow> fname f;
     (_, io) \<leftarrow> fclose p io;
     Some (name, io)
   })"

text \<open>The list at boot: \<open>stdin\<close>, \<open>stdout\<close>, \<open>stderr\<close>, at three addresses.\<close>

definition std_io :: "ptr \<Rightarrow> ptr \<Rightarrow> ptr \<Rightarrow> console \<Rightarrow> console io" where
  "std_io p q r d = \<lparr>
     streams = [p \<mapsto> \<lparr>base = stdin d, lock = 0, fname = None, next_stream = q\<rparr>,
                q \<mapsto> \<lparr>base = stdout d, lock = 0, fname = None, next_stream = r\<rparr>,
                r \<mapsto> \<lparr>base = stderr d, lock = 0, fname = None, next_stream = NULL\<rparr>],
     filelist = p, errno = 0\<rparr>"

section \<open>The list in the store\<close>

text \<open>The links lead from \<open>p\<close> over the streams \<open>xs\<close> to \<open>q\<close>.\<close>

definition links :: "(ptr \<Rightarrow> 'd stream option) \<Rightarrow> ptr \<Rightarrow> ptr list \<Rightarrow> ptr \<Rightarrow> bool" where
  "links h = chain NULL (\<lambda>p. map_option next_stream (h p))"

definition open_list :: "'d io \<Rightarrow> ptr list \<Rightarrow> bool" where
  "open_list io xs \<longleftrightarrow> links (streams io) (filelist io) xs NULL"

lemma links_simps [simp]:
  "links h p [] q \<longleftrightarrow> p = q"
  "links h p (x # xs) q \<longleftrightarrow> p = x \<and> x \<noteq> NULL \<and> (\<exists>f. h x = Some f \<and> links h (next_stream f) xs q)"
  "links h p (xs @ ys) q \<longleftrightarrow> (\<exists>r. links h p xs r \<and> links h r ys q)"
  by (auto simp: links_def)

lemma links_distinct: "links h p xs NULL \<Longrightarrow> distinct xs"
  unfolding links_def by (rule chain_distinct)

lemma links_cong:
  "(\<And>x. x \<in> set xs \<Longrightarrow> map_option next_stream (h' x) = map_option next_stream (h x)) \<Longrightarrow>
   links h' p xs q = links h p xs q"
  unfolding links_def by (rule chain_cong)

lemma links_upd: "u \<notin> set xs \<Longrightarrow> links (h(u := v)) p xs q = links h p xs q"
  by (rule links_cong) auto

text \<open>The link of the last stream can be redirected.\<close>

lemma links_redirect:
  assumes "links h p (us @ [u]) q" "u \<notin> set us" "h u = Some f"
  shows "links (h(u \<mapsto> f\<lparr>next_stream := r\<rparr>)) p (us @ [u]) r"
  using assms by (auto simp: links_upd)

section \<open>Closing a stream\<close>

lemma fclose_loop_found:
  assumes "links (streams io) p us s" "s \<notin> set us" "s \<noteq> NULL"
  shows "fclose_loop s prev p io = close_found s (if us = [] then prev else last us) io"
  using assms
proof (induction us arbitrary: p prev)
  case Nil
  then show ?case by (subst fclose_loop.simps) simp
next
  case (Cons x us)
  then obtain f where f: "p = x" "x \<noteq> NULL" "streams io x = Some f" "links (streams io) (next_stream f) us s" by auto
  have "fclose_loop s x (next_stream f) io = close_found s (if us = [] then x else last us) io"
    by (rule Cons.IH) (use f Cons.prems in auto)
  then show ?case using f Cons.prems by (subst fclose_loop.simps) auto
qed

lemma fclose_loop_missing:
  "links (streams io) p us NULL \<Longrightarrow> s \<notin> set us \<Longrightarrow> fclose_loop s prev p io = Some (- 1, io\<lparr>errno := EINVAL\<rparr>)"
proof (induction us arbitrary: p prev)
  case Nil
  then show ?case by (subst fclose_loop.simps) simp
next
  case (Cons x us)
  then show ?case by (subst fclose_loop.simps) auto
qed

text \<open>What closing the stream \<open>s\<close> leaves: the rest of the list, the other streams but for one link.\<close>

definition closed_from :: "'d io \<Rightarrow> ptr \<Rightarrow> 'd io \<Rightarrow> bool" where
  "closed_from io s io' \<longleftrightarrow> (\<forall>p. p \<noteq> s \<longrightarrow> map_option base (streams io' p) = map_option base (streams io p)) \<and>
     (\<forall>f. streams io s = Some f \<longrightarrow> \<not> has_flag F_STATIC (base f) \<longrightarrow> streams io' s = None)"

lemma close_found_ok:
  assumes l: "links (streams io) (filelist io) (us @ s # vs) NULL" and f: "streams io s = Some f"
    and fl: "close_flush (base f) = Some (0, g)" and st: "has_flag F_STATIC g = has_flag F_STATIC (base f)"
  shows "\<exists>io'. close_found s (if us = [] then NULL else last us) io = Some (0, io') \<and> open_list io' (us @ vs) \<and> closed_from io s io'"
proof -
  have d: "distinct (us @ s # vs)" using l by (rule links_distinct)
  obtain r where r: "links (streams io) (filelist io) us r" "r = s" "s \<noteq> NULL" "links (streams io) (next_stream f) vs NULL"
    using l f by auto
  let ?f = "f\<lparr>base := g\<lparr>handle := op_close (ops g) (handle g)\<rparr>\<rparr>"
  let ?h = "(streams io)(s \<mapsto> ?f)"
  have vs: "links ?h (next_stream f) vs NULL" using r d by (simp add: links_upd)
  define fin where "fin io' = (if has_flag F_STATIC (base ?f) then io' else io'\<lparr>streams := (streams io')(s := None)\<rparr>)" for io' :: "'a io"
  define err where "err io' = (if has_flag DELONCLOSE (base ?f) then io'\<lparr>errno := ENOTSUP\<rparr> else io')" for io' :: "'a io"
  have fin_err: "filelist (fin (err io')) = filelist io'"
      "p \<noteq> s \<Longrightarrow> streams (fin (err io')) p = streams io' p" for io' :: "'a io" and p
    by (auto simp: fin_def err_def)
  have gone: "\<not> has_flag F_STATIC (base f) \<Longrightarrow> streams (fin (err io')) s = None" for io' :: "'a io"
    using st by (simp add: fin_def has_flag_def)
  have keep: "links (streams (fin (err io'))) p xs q = links (streams io') p xs q" if "s \<notin> set xs" for io' :: "'a io" and p xs q
  proof (rule links_cong)
    fix x assume "x \<in> set xs"
    then have "x \<noteq> s" using that by auto
    then show "map_option next_stream (streams (fin (err io')) x) = map_option next_stream (streams io' x)"
      by (simp add: fin_err(2))
  qed
  show ?thesis
  proof (cases "us = []")
    case True
    let ?io = "(set_stream s ?f io)\<lparr>filelist := next_stream f\<rparr>"
    have "close_found s NULL io = Some (0, fin (err ?io))"
      using f fl by (simp add: close_found_def EOF_def fin_def err_def Let_def)
    moreover have "open_list (fin (err ?io)) vs"
      using vs d by (simp add: open_list_def fin_err keep) (simp add: set_stream_def)
    moreover have "closed_from io s (fin (err ?io))"
      using fin_err gone f by (auto simp: closed_from_def) (simp add: set_stream_def)
    ultimately show ?thesis using True by auto
  next
    case False
    then obtain us' u where us: "us = us' @ [u]" by (cases us rule: rev_cases) auto
    have u: "u \<noteq> s" "u \<notin> set us'" "u \<notin> set vs" "s \<notin> set us'" "s \<notin> set vs" using d us by auto
    obtain q where q: "streams io u = Some q" "next_stream q = s" "u \<noteq> NULL" using r us by auto
    let ?q = "q\<lparr>next_stream := next_stream f\<rparr>"
    let ?io = "set_stream u ?q (set_stream s ?f io)"
    have "close_found s u io = Some (0, fin (err ?io))"
      using f fl q u(1) by (simp add: close_found_def EOF_def fin_def err_def set_stream_def Let_def)
    moreover have "open_list (fin (err ?io)) (us @ vs)"
    proof -
      have "links ?h (filelist io) (us' @ [u]) s" using r u us by (simp add: links_upd del: links_simps(3))
      then have "links (?h(u \<mapsto> ?q)) (filelist io) (us' @ [u]) (next_stream f)"
        using q u by (intro links_redirect) auto
      moreover have "links (?h(u \<mapsto> ?q)) (next_stream f) vs NULL" using vs u by (simp add: links_upd)
      ultimately have "links (?h(u \<mapsto> ?q)) (filelist io) (us @ vs) NULL" using us by auto
      moreover have "s \<notin> set (us @ vs)" using d by auto
      ultimately show ?thesis unfolding open_list_def fin_err
        by (subst keep) (simp_all add: set_stream_def)
    qed
    moreover have "closed_from io s (fin (err ?io))"
      using fin_err gone f q by (auto simp: closed_from_def) (simp add: set_stream_def)
    ultimately show ?thesis using us by auto
  qed
qed

lemma flush_loop_status:
  "flush_loop f w = Some (r, g) \<Longrightarrow> r = 0 \<Longrightarrow> status g = status f"
proof -
  have "flush_loop f w = Some x \<Longrightarrow> fst x = 0 \<longrightarrow> status (snd x) = status f" for x
    by (induction rule: flush_loop.raw_induct [rotated, consumes 1])
      (auto simp: Let_def EOF_def split: if_splits prod.splits elim!: bind_SomeE)
  then show "flush_loop f w = Some (r, g) \<Longrightarrow> r = 0 \<Longrightarrow> status g = status f" by fastforce
qed

lemma close_flush_status: "close_flush f = Some (0, g) \<Longrightarrow> status g = status f"
  by (auto simp: close_flush_def flushbuffer_def split: if_splits dest: flush_loop_status)

text \<open>
  C40. \<open>fclose\<close> of an open stream whose pending output can be written takes exactly this stream out of the list,
  frees it unless it is static, and leaves all other streams as they are.
\<close>

theorem fclose_removes_stream:
  assumes "open_list io xs" and "s \<in> set xs" and "streams io s = Some f" and "close_flush (base f) = Some (0, g)"
  shows "\<exists>io'. fclose s io = Some (0, io') \<and> open_list io' (remove1 s xs) \<and> closed_from io s io'"
proof -
  obtain us vs where xs: "xs = us @ s # vs" "s \<notin> set us" using assms(2) by (metis split_list_first)
  have l: "links (streams io) (filelist io) (us @ s # vs) NULL" using assms(1) xs(1) by (simp only: open_list_def)
  then have "links (streams io) (filelist io) us s" "s \<noteq> NULL" by auto
  then have "fclose s io = close_found s (if us = [] then NULL else last us) io"
    unfolding fclose_def using xs(2) by (intro fclose_loop_found)
  moreover have "has_flag F_STATIC g = has_flag F_STATIC (base f)"
    using close_flush_status [OF assms(4)] by (simp add: has_flag_def)
  moreover have "remove1 s xs = us @ vs" using xs by (simp add: remove1_append)
  ultimately show ?thesis using close_found_ok [OF l assms(3,4)] by simp
qed

lemma std_open_list: "distinct [p, q, r] \<Longrightarrow> NULL \<notin> {p, q, r} \<Longrightarrow> open_list (std_io p q r d) [p, q, r]"
  by (auto simp: open_list_def std_io_def)

lemma std_close_flush: "close_flush (std_stream st d) = Some (0, std_stream st d)"
  by (simp add: close_flush_def flushbuffer_def std_stream_def flush_loop.simps [of _ 0])

theorem fclose_removes_stream_witness:
  "\<exists>io'. fclose 2 (std_io 1 2 3 idle_console) = Some (0, io') \<and> open_list io' [1, 3]"
  using fclose_removes_stream [of "std_io 1 2 3 idle_console" "[1, 2, 3]" 2 "the (streams (std_io 1 2 3 idle_console) 2)"
      "stdout idle_console"] std_open_list [of 1 2 3 idle_console]
    std_close_flush [of "IOLBF OR FWRITE OR F_STATIC" idle_console]
  by (auto simp: std_io_def stdout_def NULL_def)

text \<open>A stream that is not open is refused with EINVAL, and nothing changes.\<close>

lemma fclose_not_open: "open_list io xs \<Longrightarrow> s \<notin> set xs \<Longrightarrow> fclose s io = Some (- 1, io\<lparr>errno := EINVAL\<rparr>)"
  unfolding fclose_def open_list_def by (rule fclose_loop_missing)

section \<open>Opening and closing\<close>

lemma fvopen_opens:
  assumes "open_list io xs" "streams io p = None" "p \<noteq> NULL" "mode \<noteq> 0"
  shows "open_list (snd (fvopen p fd fops mode name io)) (p # xs)"
proof -
  have "p \<notin> set xs"
  proof
    assume "p \<in> set xs"
    then obtain us vs where "xs = us @ p # vs" by (auto simp: in_set_conv_decomp)
    then show False using assms(1,2) by (auto simp: open_list_def)
  qed
  then show ?thesis using assms by (simp add: open_list_def fvopen_def set_stream_def Let_def links_upd)
qed

text \<open>
  Closing a stream right after it was opened gives back the state before: the list, the other streams and the
  address, which is free again.
\<close>

theorem open_close_roundtrip:
  assumes "streams io p = None" and "p \<noteq> NULL" and "mode \<noteq> 0" and "mode AND (F_STATIC OR DELONCLOSE) = 0"
  shows "case fvopen p fd fops mode name io of (q, io') \<Rightarrow> q = p \<and> fclose q io' = Some (0, io)"
proof -
  obtain io' where io': "fvopen p fd fops mode name io = (p, io')" using assms(2,3) by (simp add: fvopen_def Let_def)
  obtain f nm where f: "streams io' p = Some \<lparr>base = f, lock = 0, fname = nm, next_stream = filelist io\<rparr>"
      "bufidx f = 0" "status f = mode OR IOLBF" "filelist io' = p" "errno io' = errno io"
      "(streams io')(p := None) = streams io"
    using io' assms(1-3) by (auto simp: fvopen_def Let_def set_stream_def fun_upd_idem)
  have m: "mode AND F_STATIC = 0" "mode AND DELONCLOSE = 0"
    using assms(4) by (auto simp: bit.conj_disj_distrib or_eq_0_iff)
  have fl: "\<not> has_flag F_STATIC f" "\<not> has_flag DELONCLOSE f"
    using m f(3) by (simp_all add: has_flag_def bit.conj_disj_distrib2) (simp_all add: flag_defs)
  have "close_flush f = Some (0, f)"
    using f(2) by (simp add: close_flush_def flushbuffer_def flush_loop.simps [of _ 0])
  then have "close_found p NULL io' = Some (0, io'\<lparr>filelist := filelist io, streams := (streams io')(p := None)\<rparr>)"
    using f(1) fl by (simp add: close_found_def EOF_def Let_def has_flag_def set_stream_def)
  also have "io'\<lparr>filelist := filelist io, streams := (streams io')(p := None)\<rparr> = io"
    using f(5,6) by (cases io; cases io') simp
  finally have "close_found p NULL io' = Some (0, io)" .
  moreover have "fclose p io' = close_found p NULL io'"
    unfolding fclose_def using f(4) assms(2) by (subst fclose_loop.simps) simp
  ultimately show ?thesis using io' by simp
qed

theorem open_close_roundtrip_witness:
  "fclose 7 (snd (fvopen 7 idle_console kernel_fileops FREAD (Some [0x61]) (std_io 1 2 3 idle_console))) =
    Some (0, std_io 1 2 3 idle_console)"
  using open_close_roundtrip [of "std_io 1 2 3 idle_console" 7 FREAD idle_console kernel_fileops "Some [0x61]"]
  by (auto simp: std_io_def NULL_def flag_defs split: prod.splits)

section \<open>Closing all streams\<close>

lemma closeall_loop_ok:
  "open_list io xs \<Longrightarrow>
   (\<forall>x \<in> set xs. \<forall>f. streams io x = Some f \<longrightarrow> (\<exists>g. close_flush (base f) = Some (0, g))) \<Longrightarrow>
   \<exists>io'. closeall_loop (filelist io) io = Some io' \<and> open_list io' []"
proof (induction xs arbitrary: io)
  case Nil
  then show ?case by (subst closeall_loop.simps) (simp add: open_list_def)
next
  case (Cons x xs)
  then obtain f where f: "filelist io = x" "x \<noteq> NULL" "streams io x = Some f" "links (streams io) (next_stream f) xs NULL"
    by (auto simp: open_list_def)
  obtain g where g: "close_flush (base f) = Some (0, g)" using Cons.prems(2) f(3) by auto
  have d: "x \<notin> set xs" using Cons.prems(1) links_distinct unfolding open_list_def by fastforce
  obtain io' where c: "close_found x NULL io = Some (0, io')" "open_list io' xs" "closed_from io x io'"
    using close_found_ok [of io "[]" x xs f g] Cons.prems(1) f(3) g close_flush_status [OF g]
    by (auto simp: open_list_def has_flag_def)
  have "fclose x io = Some (0, io')"
    unfolding fclose_def using c(1) f(1,2) by (subst fclose_loop.simps) simp
  moreover have "next_stream f = filelist io'"
    using c(2) f(4) by (cases xs) (auto simp: open_list_def)
  moreover have "\<exists>io''. closeall_loop (filelist io') io' = Some io'' \<and> open_list io'' []"
  proof (rule Cons.IH [OF c(2)], intro ballI allI impI)
    fix y h assume y: "y \<in> set xs" "streams io' y = Some h"
    have "y \<noteq> x" using y(1) d by auto
    then have "map_option base (streams io' y) = map_option base (streams io y)"
      using c(3) unfolding closed_from_def by blast
    then obtain h' where "streams io y = Some h'" "base h' = base h" using y(2) by (cases "streams io y") auto
    then show "\<exists>g. close_flush (base h) = Some (0, g)" using Cons.prems(2) y(1) by auto
  qed
  ultimately show ?case using f by (subst closeall_loop.simps) (auto simp: Let_def)
qed

text \<open>\<open>closeall\<close> ends, with no stream open, when the pending output of every stream can be written.\<close>

theorem closeall_closes_all:
  assumes "open_list io xs"
    and "\<forall>x \<in> set xs. \<forall>f. streams io x = Some f \<longrightarrow> (\<exists>g. close_flush (base f) = Some (0, g))"
  shows "\<exists>io'. closeall io = Some io' \<and> open_list io' []"
  unfolding closeall_def using assms by (rule closeall_loop_ok)

theorem closeall_closes_all_witness:
  "\<exists>io'. closeall (std_io 1 2 3 idle_console) = Some io' \<and> open_list io' []"
proof (rule closeall_closes_all)
  show "open_list (std_io 1 2 3 idle_console) [1, 2, 3]" by (rule std_open_list) (auto simp: NULL_def)
  show "\<forall>x \<in> set [1, 2, 3]. \<forall>f. streams (std_io 1 2 3 idle_console) x = Some f \<longrightarrow> (\<exists>g. close_flush (base f) = Some (0, g))"
    using std_close_flush by (auto simp: std_io_def stdin_def stdout_def stderr_def)
qed

section \<open>Failures\<close>

text \<open>
  On the kernel's console a stream with pending output is not closed by \<open>fclose\<close>: the text is sent, but the write
  reports a failure, so the result is EOF and the stream stays in the list.
\<close>

theorem fclose_fails_on_console:
  assumes "open_list io xs" and "s \<in> set xs" and "streams io s = Some f" and "has_flag FWRITE (base f)"
    and "op_write (ops (base f)) = writef" and "buffer (base f) = Some b" and "0 < bufidx (base f)" and "bufidx (base f) \<le> length b"
  shows "\<exists>g. fclose s io = Some (EOF, set_stream s (f\<lparr>base := g\<rparr>) io) \<and>
    sent (handle g) = sent (handle (base f)) @ take (bufidx (base f)) b"
proof -
  obtain us vs where xs: "xs = us @ s # vs" "s \<notin> set us" using assms(2) by (metis split_list_first)
  have "links (streams io) (filelist io) us s" "s \<noteq> NULL" using assms(1) xs(1) by (auto simp: open_list_def)
  then have "fclose s io = close_found s (if us = [] then NULL else last us) io"
    unfolding fclose_def using xs(2) by (intro fclose_loop_found)
  moreover obtain g where "flushbuffer (base f) = Some (EOF, g)"
      "sent (handle g) = sent (handle (base f)) @ take (bufidx (base f)) b"
    using console_flush [OF assms(5,6,8,7)] by blast
  ultimately show ?thesis using assms(3,4) by (auto simp: close_found_def close_flush_def)
qed

text \<open>\<open>stdout\<close> with one pending character, which nothing has sent yet.\<close>

definition pending_io :: "console io" where
  "pending_io = (std_io 1 2 3 idle_console)
     \<lparr>streams := (streams (std_io 1 2 3 idle_console))
        (2 \<mapsto> \<lparr>base = (stdout idle_console)\<lparr>buffer := Some [0x21], bufidx := 1\<rparr>, lock = 0, fname = None, next_stream = 3\<rparr>)\<rparr>"

theorem fclose_fails_on_console_witness:
  "\<exists>io'. fclose 2 pending_io = Some (EOF, io')"
proof -
  let ?f = "the (streams pending_io 2)"
  have "open_list pending_io [1, 2, 3]" by (simp add: open_list_def pending_io_def std_io_def NULL_def)
  moreover have "streams pending_io 2 = Some ?f" "has_flag FWRITE (base ?f)" "op_write (ops (base ?f)) = writef"
      "buffer (base ?f) = Some [0x21]" "bufidx (base ?f) = 1"
    by (simp_all add: pending_io_def stdout_def std_stream_def kernel_fileops_def has_flag_def flag_defs)
  ultimately show ?thesis using fclose_fails_on_console [of pending_io "[1, 2, 3]" 2 ?f "[0x21]"] by auto
qed

text \<open>
  \<open>freopen\<close> with a name that does not fit in the old buffer allocates one byte too few for it: copying the name
  writes beyond the block, whatever the platform's open would do.
\<close>

theorem freopen_overflows_name:
  assumes "streams io s = Some f" and "fname f = None \<or> (\<exists>cap old. fname f = Some (cap, old) \<and> length old < length name)"
  shows "freopen popen True m (Some name) mode s io = None"
proof -
  have n: "freopen_name True name h = None" if "fname h = fname f" for h :: "'a stream"
    using assms(2) that by (auto simp: freopen_name_def copy_name_def)
  show ?thesis using assms(1)
    by (cases "close_flush (base (flockfile f))") (auto simp: freopen_def Let_def n flockfile_def)
qed

theorem freopen_overflows_name_witness:
  "freopen kernel_open True (mem_of 1 [0x72, 0]) (Some [0x61]) 1 2 (std_io 1 2 3 idle_console) = None"
  by (rule freopen_overflows_name [where f = "the (streams (std_io 1 2 3 idle_console) 2)"]) (simp_all add: std_io_def)

text \<open>Under the kernel's \<open>_PDCLIB_open\<close> no file is opened.\<close>

lemma kernel_fopen_fails: "fopen kernel_open p m name mode io = Some (q, io') \<Longrightarrow> q = NULL"
  by (auto simp: fopen_def kernel_open_def split: option.splits if_splits elim!: bind_SomeE)

end
