(* ===== verification/XenGrant.thy ===== *)
theory XenGrant
  imports Prelude
begin

text \<open>
  The grant table driver (xen/gnttab.cc): the list of free grant references, kept in an array of pages that
  grows, the callbacks that wait for free references, and the shared entries by which other domains get
  access to frames. The build of the kernel leaves the driver out; it is modelled as it stands. Each
  operation runs under \<open>gnttab_list_lock\<close> and is one step. Hypercalls and \<open>malloc\<close> are parameters; a read
  or write outside the allocated pages is the fault None.
\<close>

section \<open>State\<close>

text \<open>\<open>grant_ref_t\<close> has 32 bits; the numbers here stay far below, so no sum wraps.\<close>

definition LIST_END :: nat where "LIST_END = 0xffffffff"
definition NR_RESERVED :: nat where "NR_RESERVED = 8"
definition RPP :: nat where "RPP = 1024"
definition PER_FRAME :: nat where "PER_FRAME = 512"

definition GTF_permit_access :: u16 where "GTF_permit_access = 1"
definition GTF_accept_transfer :: u16 where "GTF_accept_transfer = 2"
definition GTF_readonly :: u16 where "GTF_readonly = 4"
definition GTF_reading :: u16 where "GTF_reading = 8"
definition GTF_writing :: u16 where "GTF_writing = 16"
definition GTF_transfer_committed :: u16 where "GTF_transfer_committed = 4"
definition GTF_transfer_completed :: u16 where "GTF_transfer_completed = 8"

record grant_entry =
  g_flags :: u16
  g_domid :: u16
  g_frame :: u32

text \<open>A callback is known by its address; its function and argument are what \<open>fired\<close> records.\<close>

record callback =
  cb_next :: ptr
  cb_count :: int

text \<open>\<open>list_slots\<close> is the number of pointers in the block of \<open>gnttab_list\<close>.\<close>

record gnttab =
  pages :: "nat \<Rightarrow> nat list option"
  list_slots :: nat
  nr_frames :: nat
  boot_max :: nat
  free_count :: int
  free_head :: nat
  shared :: "nat \<Rightarrow> grant_entry"
  cbs :: "ptr \<Rightarrow> callback option"
  cb_list :: ptr
  fired :: "ptr list"

datatype xen_error = ENOMEM | ENODEV | ENOSPC | ENOSYS

text \<open>The macro \<open>gnttab_entry\<close>, read and written.\<close>

definition entry :: "gnttab \<Rightarrow> nat \<Rightarrow> nat option" where
  "entry st r = (case pages st (r div RPP) of
     None \<Rightarrow> None
   | Some pg \<Rightarrow> if r mod RPP < length pg then Some (pg ! (r mod RPP)) else None)"

definition put_entry :: "nat \<Rightarrow> nat \<Rightarrow> gnttab \<Rightarrow> gnttab option" where
  "put_entry r v st = (case pages st (r div RPP) of
     None \<Rightarrow> None
   | Some pg \<Rightarrow> if r mod RPP < length pg
                then Some (st\<lparr>pages := (pages st)(r div RPP \<mapsto> pg[r mod RPP := v])\<rparr>) else None)"

section \<open>Callbacks\<close>

partial_function (option) callbacks_loop :: "ptr \<Rightarrow> gnttab \<Rightarrow> gnttab option" where
  "callbacks_loop c st =
     (if c = NULL then Some st
      else do {
        cb \<leftarrow> cbs st c;
        let n = cb_next cb;
        if free_count st \<ge> cb_count cb
        then callbacks_loop n (st\<lparr>cbs := (cbs st)(c \<mapsto> cb\<lparr>cb_next := NULL\<rparr>), fired := fired st @ [c]\<rparr>)
        else callbacks_loop n (st\<lparr>cbs := (cbs st)(c \<mapsto> cb\<lparr>cb_next := cb_list st\<rparr>), cb_list := c\<rparr>)
      })"

definition do_free_callbacks :: "gnttab \<Rightarrow> gnttab option" where
  "do_free_callbacks st = callbacks_loop (cb_list st) (st\<lparr>cb_list := NULL\<rparr>)"

definition check_free_callbacks :: "gnttab \<Rightarrow> gnttab option" where
  "check_free_callbacks st = (if cb_list st \<noteq> NULL then do_free_callbacks st else Some st)"

definition request_free_callback :: "ptr \<Rightarrow> int \<Rightarrow> gnttab \<Rightarrow> gnttab option" where
  "request_free_callback c count st = do {
     cb \<leftarrow> cbs st c;
     if cb_next cb \<noteq> NULL then Some st
     else check_free_callbacks
       (st\<lparr>cbs := (cbs st)(c \<mapsto> \<lparr>cb_next = cb_list st, cb_count = count\<rparr>), cb_list := c\<rparr>)
   }"

text \<open>\<open>previous\<close> is the callback whose link is looked at, NULL for the head of the list.\<close>

partial_function (option) cancel_loop :: "ptr \<Rightarrow> ptr \<Rightarrow> ptr \<Rightarrow> gnttab \<Rightarrow> gnttab option" where
  "cancel_loop c previous current st =
     (if current = NULL then Some st
      else do {
        cb \<leftarrow> cbs st current;
        if current = c then
          (if previous = NULL then Some (st\<lparr>cb_list := cb_next cb\<rparr>)
           else do { p \<leftarrow> cbs st previous; Some (st\<lparr>cbs := (cbs st)(previous \<mapsto> p\<lparr>cb_next := cb_next cb\<rparr>)\<rparr>) })
        else cancel_loop c current (cb_next cb) st
      })"

definition cancel_free_callback :: "ptr \<Rightarrow> gnttab \<Rightarrow> gnttab option" where
  "cancel_free_callback c st = cancel_loop c NULL (cb_list st) st"

section \<open>Growing the table\<close>

text \<open>
  \<open>alloc i\<close> is the page \<open>malloc\<close> returns for the slot \<open>i\<close>, with whatever it contains, or None.
  The flag says whether all pages were allocated; the others are freed again.
\<close>

primrec alloc_pages :: "(nat \<Rightarrow> nat list option) \<Rightarrow> nat \<Rightarrow> nat \<Rightarrow> gnttab \<Rightarrow> (bool \<times> gnttab) option" where
  "alloc_pages alloc i 0 st = Some (True, st)"
| "alloc_pages alloc i (Suc n) st =
     (if i \<ge> list_slots st then None
      else case alloc i of
        None \<Rightarrow> Some (False, st\<lparr>pages := (\<lambda>k. if nr_frames st \<le> k \<and> k \<le> i then None else pages st k)\<rparr>)
      | Some pg \<Rightarrow> alloc_pages alloc (Suc i) n (st\<lparr>pages := (pages st)(i \<mapsto> pg)\<rparr>))"

text \<open>\<open>for ( ; i < last; i++) gnttab_entry(i) = i + 1;\<close> over \<open>n\<close> entries.\<close>

primrec link_entries :: "nat \<Rightarrow> nat \<Rightarrow> gnttab \<Rightarrow> gnttab option" where
  "link_entries i 0 st = Some st"
| "link_entries i (Suc n) st = do { st \<leftarrow> put_entry i (i + 1) st; link_entries (Suc i) n st }"

definition grow_gnttab_list :: "(nat \<Rightarrow> nat list option) \<Rightarrow> nat \<Rightarrow> gnttab \<Rightarrow> (xen_error option \<times> gnttab) option" where
  "grow_gnttab_list alloc more_frames st = do {
     let new_nr = nr_frames st + more_frames;
     let first = PER_FRAME * nr_frames st;
     let n = PER_FRAME * new_nr - 1 - first;
     (ok, st) \<leftarrow> alloc_pages alloc (nr_frames st) more_frames st;
     if \<not> ok then Some (Some ENOMEM, st)
     else do {
       st \<leftarrow> link_entries first n st;
       st \<leftarrow> put_entry (first + n) (free_head st) st;
       st \<leftarrow> check_free_callbacks (st\<lparr>free_head := first, free_count := free_count st + int (more_frames * PER_FRAME),
                                       nr_frames := new_nr\<rparr>);
       Some (None, st)
     }
   }"

text \<open>\<open>query\<close> is the answer of the hypercall, None when it fails: 4 is the legacy limit.\<close>

definition hyp_max_frames :: "nat option \<Rightarrow> nat" where
  "hyp_max_frames query = (case query of None \<Rightarrow> 4 | Some n \<Rightarrow> n)"

definition max_nr_grant_frames :: "nat option \<Rightarrow> gnttab \<Rightarrow> nat" where
  "max_nr_grant_frames query st = (if hyp_max_frames query > boot_max st then boot_max st else hyp_max_frames query)"

text \<open>
  The outside world of an operation: the hypercall that asks for the limit, the one that maps a frame of the
  table (a failure is a panic), and \<open>malloc\<close>.
\<close>

record xen_env =
  query_size :: "nat option"
  map_frame :: "nat \<Rightarrow> bool"
  malloc_page :: "nat \<Rightarrow> nat list option"

definition gnttab_map :: "xen_env \<Rightarrow> nat \<Rightarrow> nat \<Rightarrow> unit option" where
  "gnttab_map e start_idx end_idx = (if list_all (map_frame e) [start_idx..<end_idx + 1] then Some () else None)"

definition gnttab_expand :: "xen_env \<Rightarrow> nat \<Rightarrow> gnttab \<Rightarrow> (xen_error option \<times> gnttab) option" where
  "gnttab_expand e req_entries st = do {
     let cur = nr_frames st;
     let extra = (req_entries + (PER_FRAME - 1)) div PER_FRAME;
     if cur + extra > max_nr_grant_frames (query_size e) st then Some (Some ENOSPC, st)
     else do {
       _ \<leftarrow> gnttab_map e cur (cur + extra - 1);
       grow_gnttab_list (malloc_page e) extra st
     }
   }"

section \<open>Taking and returning references\<close>

text \<open>\<open>while (count-- > 1) head = gnttab_entry(head);\<close>\<close>

primrec walk :: "nat \<Rightarrow> nat \<Rightarrow> gnttab \<Rightarrow> nat option" where
  "walk 0 head st = Some head"
| "walk (Suc n) head st = do { h \<leftarrow> entry st head; walk n h st }"

text \<open>Inl is an error; Inr the first reference of the list taken.\<close>

definition take_entries :: "nat \<Rightarrow> gnttab \<Rightarrow> (nat \<times> gnttab) option" where
  "take_entries count st = do {
     let ref = free_head st;
     head \<leftarrow> walk (count - 1) ref st;
     h \<leftarrow> entry st head;
     st \<leftarrow> put_entry head LIST_END (st\<lparr>free_count := free_count st - int count, free_head := h\<rparr>);
     Some (ref, st)
   }"

definition get_free_entries :: "xen_env \<Rightarrow> nat \<Rightarrow> gnttab \<Rightarrow> ((xen_error + nat) \<times> gnttab) option" where
  "get_free_entries e count st = do {
     (err, st) \<leftarrow> (if free_count st < int count then gnttab_expand e (nat (int count - free_count st)) st
                    else Some (None, st));
     case err of
       Some x \<Rightarrow> Some (Inl x, st)
     | None \<Rightarrow> do { (ref, st) \<leftarrow> take_entries count st; Some (Inr ref, st) }
   }"

definition put_free_entry :: "nat \<Rightarrow> gnttab \<Rightarrow> gnttab option" where
  "put_free_entry ref st = do {
     st \<leftarrow> put_entry ref (free_head st) st;
     check_free_callbacks (st\<lparr>free_head := ref, free_count := free_count st + 1\<rparr>)
   }"

definition free_grant_reference :: "nat \<Rightarrow> gnttab \<Rightarrow> gnttab option" where
  "free_grant_reference ref st = put_free_entry ref st"

definition alloc_grant_references :: "xen_env \<Rightarrow> nat \<Rightarrow> gnttab \<Rightarrow> ((xen_error + nat) \<times> gnttab) option" where
  "alloc_grant_references e count st = get_free_entries e count st"

text \<open>The last reference of a private list, and its length.\<close>

partial_function (option) list_end :: "gnttab \<Rightarrow> nat \<Rightarrow> int \<Rightarrow> (nat \<times> int) option" where
  "list_end st ref count = do {
     n \<leftarrow> entry st ref;
     if n \<noteq> LIST_END then list_end st n (count + 1) else Some (ref, count)
   }"

definition free_grant_references :: "nat \<Rightarrow> gnttab \<Rightarrow> gnttab option" where
  "free_grant_references head st =
     (if head = LIST_END then Some st
      else do {
        (ref, count) \<leftarrow> list_end st head 1;
        st \<leftarrow> put_entry ref (free_head st) st;
        check_free_callbacks (st\<lparr>free_head := head, free_count := free_count st + count\<rparr>)
      })"

text \<open>A private list is given by its head.\<close>

definition empty_grant_references :: "nat \<Rightarrow> bool" where
  "empty_grant_references private_head \<longleftrightarrow> private_head = LIST_END"

definition claim_grant_reference :: "nat \<Rightarrow> gnttab \<Rightarrow> (nat \<times> nat) option" where
  "claim_grant_reference private_head st =
     (if private_head = LIST_END then Some (LIST_END, private_head)
      else do { n \<leftarrow> entry st private_head; Some (private_head, n) })"

definition release_grant_reference :: "nat \<Rightarrow> nat \<Rightarrow> gnttab \<Rightarrow> (nat \<times> gnttab) option" where
  "release_grant_reference private_head ref st = do {
     st \<leftarrow> put_entry ref private_head st;
     Some (ref, st)
   }"

section \<open>Start-up\<close>

text \<open>\<open>area\<close> says whether the memory for the shared table is there or can be had.\<close>

definition gnttab_resume :: "xen_env \<Rightarrow> bool \<Rightarrow> gnttab \<Rightarrow> xen_error option option" where
  "gnttab_resume e area st =
     (if max_nr_grant_frames (query_size e) st < nr_frames st then Some (Some ENOSYS)
      else if \<not> area then Some (Some ENOMEM)
      else do { _ \<leftarrow> gnttab_map e 0 (nr_frames st - 1); Some None })"

text \<open>
  \<open>on_xen\<close> is the result of \<open>is_running_on_xen\<close>, \<open>list_ok\<close> whether \<open>gnttab_list\<close> itself can be allocated. A page has
  room for two frames' references, so the list gets half as many pointers as there can be frames; the new block
  names no page yet.
\<close>

definition gnttab_init :: "xen_env \<Rightarrow> bool \<Rightarrow> bool \<Rightarrow> bool \<Rightarrow> gnttab \<Rightarrow> (xen_error option \<times> gnttab) option" where
  "gnttab_init e on_xen list_ok area st = (
     let st1 = st\<lparr>nr_frames := 1, boot_max := hyp_max_frames (query_size e),
                 list_slots := hyp_max_frames (query_size e) * PER_FRAME div RPP, pages := (\<lambda>_. None)\<rparr>
     in if \<not> on_xen then Some (Some ENODEV, st)
        else if \<not> list_ok then Some (Some ENOMEM, st1)
        else do {
          (ok, st) \<leftarrow> alloc_pages (malloc_page e) 0 1 st1;
          if \<not> ok then Some (Some ENOMEM, st)
          else do {
            err \<leftarrow> gnttab_resume e area st;
            if err \<noteq> None then Some (Some ENODEV, st)
            else do {
              st \<leftarrow> link_entries NR_RESERVED (PER_FRAME - 1 - NR_RESERVED) st;
              st \<leftarrow> put_entry (PER_FRAME - 1) LIST_END st;
              Some (None, st\<lparr>free_count := int (PER_FRAME - NR_RESERVED), free_head := NR_RESERVED\<rparr>)
            }
          }
        })"

section \<open>Shared entries\<close>

text \<open>The three stores of a grant, in order; the write barrier keeps the last one last.\<close>

definition upd_shared :: "nat \<Rightarrow> (grant_entry \<Rightarrow> grant_entry) \<Rightarrow> gnttab \<Rightarrow> gnttab" where
  "upd_shared ref f st = st\<lparr>shared := (shared st)(ref := f (shared st ref))\<rparr>"

definition grant_stores :: "nat \<Rightarrow> u16 \<Rightarrow> u64 \<Rightarrow> u16 \<Rightarrow> gnttab \<Rightarrow> gnttab list" where
  "grant_stores ref domid frame fl st = (
     let st1 = upd_shared ref (\<lambda>g. g\<lparr>g_frame := ucast frame\<rparr>) st;
         st2 = upd_shared ref (\<lambda>g. g\<lparr>g_domid := domid\<rparr>) st1;
         st3 = upd_shared ref (\<lambda>g. g\<lparr>g_flags := fl\<rparr>) st2
     in [st1, st2, st3])"

definition access_flags :: "bool \<Rightarrow> u16" where
  "access_flags readonly = GTF_permit_access OR (if readonly then GTF_readonly else 0)"

definition grant_foreign_access_ref :: "nat \<Rightarrow> u16 \<Rightarrow> u64 \<Rightarrow> bool \<Rightarrow> gnttab \<Rightarrow> gnttab" where
  "grant_foreign_access_ref ref domid frame readonly st = last (grant_stores ref domid frame (access_flags readonly) st)"

definition grant_foreign_access ::
  "xen_env \<Rightarrow> u16 \<Rightarrow> u64 \<Rightarrow> bool \<Rightarrow> gnttab \<Rightarrow> ((xen_error + nat) \<times> gnttab) option" where
  "grant_foreign_access e domid frame readonly st = do {
     (r, st) \<leftarrow> get_free_entries e 1 st;
     case r of
       Inl x \<Rightarrow> Some (Inl x, st)
     | Inr ref \<Rightarrow> Some (Inr ref, grant_foreign_access_ref ref domid frame readonly st)
   }"

definition grant_foreign_transfer_ref :: "nat \<Rightarrow> u16 \<Rightarrow> u64 \<Rightarrow> gnttab \<Rightarrow> gnttab" where
  "grant_foreign_transfer_ref ref domid pfn st = last (grant_stores ref domid pfn GTF_accept_transfer st)"

definition grant_foreign_transfer :: "xen_env \<Rightarrow> u16 \<Rightarrow> u64 \<Rightarrow> gnttab \<Rightarrow> ((xen_error + nat) \<times> gnttab) option" where
  "grant_foreign_transfer e domid pfn st = do {
     (r, st) \<leftarrow> get_free_entries e 1 st;
     case r of Inl x \<Rightarrow> Some (Inl x, st) | Inr ref \<Rightarrow> Some (Inr ref, grant_foreign_transfer_ref ref domid pfn st)
   }"

definition query_foreign_access :: "nat \<Rightarrow> gnttab \<Rightarrow> u16" where
  "query_foreign_access ref st = g_flags (shared st ref) AND (GTF_reading OR GTF_writing)"

text \<open>
  The hypervisor may change the flags between any two accesses: \<open>hv k f\<close> is what it makes of the flags \<open>f\<close> before
  the access number \<open>k\<close>. The result is the value returned, and the flags at the end.
\<close>

partial_function (option) end_access_loop :: "(nat \<Rightarrow> u16 \<Rightarrow> u16) \<Rightarrow> nat \<Rightarrow> u16 \<Rightarrow> u16 \<Rightarrow> (bool \<times> u16) option" where
  "end_access_loop hv k nflags cur =
     (if nflags AND (GTF_reading OR GTF_writing) \<noteq> 0 then Some (False, cur)
      else (
        let cur = hv k cur
        in if cur = nflags then Some (True, 0) else end_access_loop hv (Suc k) cur cur))"

definition end_foreign_access_ref :: "(nat \<Rightarrow> u16 \<Rightarrow> u16) \<Rightarrow> nat \<Rightarrow> gnttab \<Rightarrow> (bool \<times> gnttab) option" where
  "end_foreign_access_ref hv ref st = do {
     let cur = hv 0 (g_flags (shared st ref));
     (r, fl) \<leftarrow> end_access_loop hv 1 cur cur;
     Some (r, upd_shared ref (\<lambda>g. g\<lparr>g_flags := fl\<rparr>) st)
   }"

text \<open>The flag says that the page, if there is one, is freed.\<close>

definition end_foreign_access :: "(nat \<Rightarrow> u16 \<Rightarrow> u16) \<Rightarrow> nat \<Rightarrow> gnttab \<Rightarrow> (bool \<times> gnttab) option" where
  "end_foreign_access hv ref st = do {
     (r, st) \<leftarrow> end_foreign_access_ref hv ref st;
     if r then do { st \<leftarrow> put_free_entry ref st; Some (True, st) } else Some (False, st)
   }"

text \<open>
  The loop of \<open>gnttab_end_foreign_access_references\<close>: the head of the list of references taken back and the count.
\<close>

primrec end_refs_loop ::
  "(nat \<Rightarrow> nat \<Rightarrow> u16 \<Rightarrow> u16) \<Rightarrow> nat list \<Rightarrow> nat \<Rightarrow> int \<Rightarrow> gnttab \<Rightarrow> (nat \<times> int \<times> gnttab) option" where
  "end_refs_loop hv [] head count st = Some (head, count, st)"
| "end_refs_loop hv (r # rs) head count st = do {
     (ended, st) \<leftarrow> end_foreign_access_ref (hv r) r st;
     if ended then do { st \<leftarrow> put_entry r head st; end_refs_loop hv rs r count st }
     else end_refs_loop hv rs head (count - 1) st
   }"

definition end_foreign_access_references :: "(nat \<Rightarrow> nat \<Rightarrow> u16 \<Rightarrow> u16) \<Rightarrow> nat list \<Rightarrow> gnttab \<Rightarrow> gnttab option" where
  "end_foreign_access_references hv refs st = do {
     (head, count, st) \<leftarrow> end_refs_loop hv refs LIST_END (int (length refs)) st;
     if count \<noteq> 0 then do {
       st \<leftarrow> put_entry (hd refs) (free_head st) (st\<lparr>free_count := free_count st + count\<rparr>);
       Some (st\<lparr>free_head := head\<rparr>)
     }
     else Some st
   }"

text \<open>
  Taking back a transfer: the flags when it was reclaimed, or the completed ones; \<open>k\<close> counts the accesses.
\<close>

partial_function (option) wait_completed :: "(nat \<Rightarrow> u16 \<Rightarrow> u16) \<Rightarrow> nat \<Rightarrow> u16 \<Rightarrow> u16 option" where
  "wait_completed hv k fl =
     (if fl AND GTF_transfer_completed = 0 then wait_completed hv (Suc k) (hv k fl) else Some fl)"

partial_function (option) end_transfer_loop :: "(nat \<Rightarrow> u16 \<Rightarrow> u16) \<Rightarrow> nat \<Rightarrow> u16 \<Rightarrow> (bool \<times> u16) option" where
  "end_transfer_loop hv k cur = (
     let fl = hv k cur
     in if fl AND GTF_transfer_committed = 0 then (
          let cur = hv (k + 1) fl
          in if cur = fl then Some (True, 0) else end_transfer_loop hv (k + 2) cur)
        else do { fl \<leftarrow> wait_completed hv (k + 1) fl; Some (False, fl) })"

text \<open>\<open>frame\<close> is what the hypervisor has stored by the time the frame is read; 0 is a failed assertion.\<close>

definition end_foreign_transfer_ref :: "(nat \<Rightarrow> u16 \<Rightarrow> u16) \<Rightarrow> u32 \<Rightarrow> nat \<Rightarrow> gnttab \<Rightarrow> (u64 \<times> gnttab) option" where
  "end_foreign_transfer_ref hv frame ref st = do {
     (reclaimed, fl) \<leftarrow> end_transfer_loop hv 0 (g_flags (shared st ref));
     let st = upd_shared ref (\<lambda>g. g\<lparr>g_flags := fl\<rparr>) st;
     if reclaimed then Some (0, st)
     else if frame = 0 then None
     else Some (ucast frame, upd_shared ref (\<lambda>g. g\<lparr>g_frame := frame\<rparr>) st)
   }"

definition end_foreign_transfer :: "(nat \<Rightarrow> u16 \<Rightarrow> u16) \<Rightarrow> u32 \<Rightarrow> nat \<Rightarrow> gnttab \<Rightarrow> (u64 \<times> gnttab) option" where
  "end_foreign_transfer hv frame ref st = do {
     (r, st) \<leftarrow> end_foreign_transfer_ref hv frame ref st;
     st \<leftarrow> put_free_entry ref st;
     Some (r, st)
   }"

section \<open>Lists of references\<close>

text \<open>
  What the lists need of the array: a write changes one entry and nothing else, it succeeds where a read
  does, and writing the old value back undoes it.
\<close>

locale ref_store =
  fixes get :: "'s \<Rightarrow> nat \<Rightarrow> nat option"
    and put :: "nat \<Rightarrow> nat \<Rightarrow> 's \<Rightarrow> 's option"
    and z :: nat
  assumes put_get: "put r v s = Some s' \<Longrightarrow> get s' = (get s)(r \<mapsto> v)"
    and put_defined: "put r v s = None \<longleftrightarrow> get s r = None"
    and put_back: "put r v s = Some s' \<Longrightarrow> get s r = Some w \<Longrightarrow> put r w s' = Some s"
begin

lemma put_some: "get s r \<noteq> None \<Longrightarrow> \<exists>s'. put r v s = Some s'"
  using put_defined [of r v s] by auto

lemma frame: "put r v s = Some s' \<Longrightarrow> r \<notin> set xs \<Longrightarrow> chain z (get s') p xs q = chain z (get s) p xs q"
  by (simp add: put_get chain_upd)

lemma push:
  "chain z (get s) f xs z \<Longrightarrow> put r f s = Some s' \<Longrightarrow> r \<noteq> z \<Longrightarrow> r \<notin> set xs \<Longrightarrow> chain z (get s') r (r # xs) z"
  by (simp add: put_get chain_upd)

lemma cut:
  assumes "chain z (get s) f (us @ u # xs) z" and s': "put u z s = Some s'"
  shows "chain z (get s') f (us @ [u]) z" and "get s u = Some n \<Longrightarrow> chain z (get s') n xs z"
proof -
  have d: "u \<notin> set us" "u \<notin> set xs" using chain_distinct [OF assms(1)] by auto
  show "chain z (get s') f (us @ [u]) z" using assms(1) d by (auto simp: put_get [OF s'] chain_upd)
  show "chain z (get s') n xs z" if "get s u = Some n"
    using assms(1) d that by (auto simp: put_get [OF s'] chain_upd)
qed

lemma splice:
  assumes h: "chain z (get s) h (us @ [u]) z" and f: "chain z (get s) f xs z"
    and s': "put u f s = Some s'" and d: "set (us @ [u]) \<inter> set xs = {}"
  shows "chain z (get s') h (us @ u # xs) z"
proof -
  have "u \<notin> set us" using chain_distinct [OF h] by auto
  then show ?thesis using h f d by (auto simp: put_get [OF s'] chain_upd)
qed

end

lemma entry_pages: "pages st' = pages st \<Longrightarrow> entry st' = entry st"
  by (simp add: entry_def fun_eq_iff)

lemma put_entry_shape: "put_entry r v st = Some st' \<Longrightarrow> st' = st\<lparr>pages := pages st'\<rparr>"
  by (auto simp: put_entry_def split: option.splits if_splits)

lemma put_entry_get: "put_entry r v st = Some st' \<Longrightarrow> entry st' = (entry st)(r \<mapsto> v)"
proof (rule ext)
  fix k
  assume a: "put_entry r v st = Some st'"
  show "entry st' k = ((entry st)(r \<mapsto> v)) k"
  proof (cases "k div RPP = r div RPP")
    case True
    then have "k mod RPP = r mod RPP \<longleftrightarrow> k = r" by (metis div_mult_mod_eq)
    then show ?thesis using a True
      by (auto simp: put_entry_def entry_def nth_list_update split: option.splits if_splits)
  next
    case False
    then show ?thesis using a by (auto simp: put_entry_def entry_def split: option.splits if_splits)
  qed
qed

interpretation gt: ref_store entry put_entry LIST_END
proof unfold_locales
  show "put_entry r v st = Some st' \<Longrightarrow> entry st' = (entry st)(r \<mapsto> v)" for r v st st'
    by (rule put_entry_get)
  show "put_entry r v st = None \<longleftrightarrow> entry st r = None" for r v st
    by (auto simp: put_entry_def entry_def split: option.splits)
  show "put_entry r v st = Some st' \<Longrightarrow> entry st r = Some w \<Longrightarrow> put_entry r w st' = Some st" for r v st st' w
    by (auto simp: put_entry_def entry_def fun_upd_idem split: option.splits if_splits)
qed

text \<open>The free references, in the order of the list.\<close>

definition free_list :: "gnttab \<Rightarrow> nat list \<Rightarrow> bool" where
  "free_list st xs \<longleftrightarrow> chain LIST_END (entry st) (free_head st) xs LIST_END \<and> free_count st = int (length xs)"

definition private_list :: "gnttab \<Rightarrow> nat \<Rightarrow> nat list \<Rightarrow> bool" where
  "private_list st h ys \<longleftrightarrow> chain LIST_END (entry st) h ys LIST_END"

text \<open>The same with a count that is \<open>ex\<close> too high.\<close>

definition free_over :: "nat \<Rightarrow> gnttab \<Rightarrow> nat list \<Rightarrow> bool" where
  "free_over ex st xs \<longleftrightarrow>
     chain LIST_END (entry st) (free_head st) xs LIST_END \<and> free_count st = int (length xs) + int ex"

lemma free_over_0: "free_over 0 st xs = free_list st xs"
  by (simp add: free_over_def free_list_def)

lemma walk_chain: "chain LIST_END (entry st) p (us @ u # xs) q \<Longrightarrow> walk (length us) p st = Some u"
  by (induction us arbitrary: p) auto

lemma list_end_chain:
  "chain LIST_END (entry st) h (us @ [u]) LIST_END \<Longrightarrow> list_end st h c = Some (u, c + int (length us))"
proof (induction us arbitrary: h c)
  case Nil
  then show ?case by (subst list_end.simps) auto
next
  case (Cons x us)
  then obtain n where n: "entry st x = Some n" "chain LIST_END (entry st) n (us @ [u]) LIST_END" "h = x"
    by auto
  then have "n \<noteq> LIST_END" by (cases us) auto
  then show ?case using n Cons.IH [of n "c + 1"] by (subst list_end.simps) simp
qed

lemma take_entries_over:
  assumes "free_over ex st (us @ u # xs)"
  obtains st' where "take_entries (Suc (length us)) st = Some (free_head st, st')"
    and "put_entry u LIST_END (st\<lparr>free_count := int (length xs) + int ex, free_head := free_head st'\<rparr>) = Some st'"
    and "entry st u = Some (free_head st')"
    and "free_over ex st' xs" and "private_list st' (free_head st) (us @ [u])"
proof -
  have c: "chain LIST_END (entry st) (free_head st) (us @ u # xs) LIST_END"
    and n: "free_count st = int (length us) + 1 + int (length xs) + int ex" using assms by (auto simp: free_over_def)
  then obtain h where h: "entry st u = Some h" by auto
  let ?s = "st\<lparr>free_count := free_count st - int (Suc (length us)), free_head := h\<rparr>"
  have e: "entry ?s = entry st" by (rule entry_pages) simp
  obtain st' where st': "put_entry u LIST_END ?s = Some st'"
    using h e gt.put_defined [of u LIST_END ?s] by auto
  note sh = put_entry_shape [OF st']
  have fh: "free_head st' = h" "free_count st' = int (length xs) + int ex" by (subst sh, simp add: n)+
  show ?thesis
  proof (rule that)
    show "take_entries (Suc (length us)) st = Some (free_head st, st')"
      using walk_chain [OF c] h st' by (simp add: take_entries_def)
    show "put_entry u LIST_END (st\<lparr>free_count := int (length xs) + int ex, free_head := free_head st'\<rparr>) = Some st'"
      using st' by (simp add: fh n)
    show "entry st u = Some (free_head st')" using h fh by simp
    show "free_over ex st' xs" using gt.cut(2) [of ?s "free_head st" us u xs st' h] c h e st'
      by (simp add: free_over_def fh)
    show "private_list st' (free_head st) (us @ [u])"
      using gt.cut(1) [of ?s "free_head st" us u xs st'] c e st' by (simp add: private_list_def)
  qed
qed

lemmas take_entries_list = take_entries_over [of 0, unfolded free_over_0, simplified]

text \<open>Callbacks leave the lists alone.\<close>

definition lists_same :: "gnttab \<Rightarrow> gnttab \<Rightarrow> bool" where
  "lists_same st st' \<longleftrightarrow> st' = st\<lparr>cbs := cbs st', cb_list := cb_list st', fired := fired st'\<rparr>"

lemma callbacks_loop_same: "callbacks_loop c st = Some st' \<Longrightarrow> lists_same st st'"
proof (induction rule: callbacks_loop.raw_induct [rotated, consumes 1])
  case (1 loop c st st')
  then show ?case by (fastforce simp: lists_same_def Let_def split: if_splits elim!: bind_SomeE)
qed

lemma check_free_callbacks_same: "check_free_callbacks st = Some st' \<Longrightarrow> lists_same st st'"
proof (cases "cb_list st = NULL")
  case False
  assume "check_free_callbacks st = Some st'"
  then have "lists_same (st\<lparr>cb_list := NULL\<rparr>) st'"
    using False by (auto simp: check_free_callbacks_def do_free_callbacks_def dest: callbacks_loop_same)
  then show ?thesis unfolding lists_same_def by simp
qed (simp add: check_free_callbacks_def lists_same_def)

section \<open>Growing keeps the references\<close>

text \<open>The pages of the frames in use are there, and every reference fits 32 bits.\<close>

definition pages_ok :: "nat \<Rightarrow> gnttab \<Rightarrow> bool" where
  "pages_ok n st \<longleftrightarrow> (\<forall>i < n. \<exists>pg. pages st i = Some pg \<and> length pg = RPP)"

text \<open>No page is named outside the block of \<open>gnttab_list\<close>, so that the end marker is no entry.\<close>

definition slots_ok :: "gnttab \<Rightarrow> bool" where
  "slots_ok st \<longleftrightarrow> list_slots st \<le> 2 ^ 21 \<and> (\<forall>k \<ge> list_slots st. pages st k = None)"

lemma slots_cong: "pages st' = pages st \<Longrightarrow> list_slots st' = list_slots st \<Longrightarrow> slots_ok st' = slots_ok st"
  by (simp add: slots_ok_def)

lemma slots_upd [simp]: "slots_ok (st\<lparr>free_count := c\<rparr>) = slots_ok st" "slots_ok (st\<lparr>free_head := f\<rparr>) = slots_ok st"
  "slots_ok (st\<lparr>nr_frames := n\<rparr>) = slots_ok st" "slots_ok (st\<lparr>cbs := b\<rparr>) = slots_ok st"
  by (simp_all add: slots_ok_def)

lemma slots_put_entry: "slots_ok st \<Longrightarrow> put_entry r v st = Some st' \<Longrightarrow> slots_ok st'"
  by (auto simp: slots_ok_def put_entry_def split: option.splits if_splits)

lemma slots_link: "link_entries i n st = Some st' \<Longrightarrow> slots_ok st \<Longrightarrow> slots_ok st'"
  by (induction n arbitrary: i st) (auto elim!: bind_SomeE dest: slots_put_entry)

lemma slots_alloc: "alloc_pages alloc i n st = Some (ok, st') \<Longrightarrow> slots_ok st \<Longrightarrow> slots_ok st'"
proof (induction n arbitrary: i st)
  case (Suc n)
  show ?case
  proof (cases "alloc i")
    case None
    then show ?thesis using Suc.prems by (auto simp: slots_ok_def split: if_splits)
  next
    case (Some pg)
    then have "alloc_pages alloc (Suc i) n (st\<lparr>pages := (pages st)(i \<mapsto> pg)\<rparr>) = Some (ok, st')" "i < list_slots st"
      using Suc.prems by (auto split: if_splits)
    then show ?thesis using Suc.IH Suc.prems(2) by (simp add: slots_ok_def)
  qed
qed simp

lemma slots_end: "slots_ok st \<Longrightarrow> entry st LIST_END = None"
  by (simp add: slots_ok_def entry_def LIST_END_def RPP_def)

definition table_ok :: "gnttab \<Rightarrow> bool" where
  "table_ok st \<longleftrightarrow> 1 \<le> nr_frames st \<and> nr_frames st \<le> boot_max st \<and> boot_max st \<le> 2 ^ 22 \<and> pages_ok (nr_frames st) st \<and>
     slots_ok st"

definition env_ok :: "xen_env \<Rightarrow> bool" where
  "env_ok e \<longleftrightarrow> (\<forall>i pg. malloc_page e i = Some pg \<longrightarrow> length pg = RPP)"

lemma table_entry: "table_ok st \<Longrightarrow> r < PER_FRAME * nr_frames st \<Longrightarrow> entry st r \<noteq> None"
proof -
  assume ok: "table_ok st" and r: "r < PER_FRAME * nr_frames st"
  then have "r div RPP < nr_frames st" by (simp add: PER_FRAME_def RPP_def)
  then obtain pg where "pages st (r div RPP) = Some pg" "length pg = RPP" using ok by (auto simp: table_ok_def pages_ok_def)
  then show ?thesis by (simp add: entry_def) (simp add: RPP_def)
qed

lemma pages_put_entry: "pages_ok n st \<Longrightarrow> put_entry r v st = Some st' \<Longrightarrow> pages_ok n st'"
  by (fastforce simp: pages_ok_def put_entry_def split: option.splits if_splits)

lemma table_put_entry: "table_ok st \<Longrightarrow> put_entry r v st = Some st' \<Longrightarrow> table_ok st'"
  using pages_put_entry put_entry_shape slots_put_entry
  by (auto simp: table_ok_def) (metis gnttab.select_convs gnttab.surjective gnttab.update_convs(1))+

lemma pages_trans: "s = st\<lparr>pages := pages s\<rparr> \<Longrightarrow> t = s\<lparr>pages := pages t\<rparr> \<Longrightarrow> t = st\<lparr>pages := pages t\<rparr>"
  by (cases st; cases s; cases t) simp

lemma table_refs_small: "table_ok st \<Longrightarrow> PER_FRAME * nr_frames st \<le> LIST_END"
  by (simp add: table_ok_def PER_FRAME_def LIST_END_def)

lemma link_entries_get:
  "link_entries i n st = Some st' \<Longrightarrow>
   entry st' = (\<lambda>r. if i \<le> r \<and> r < i + n then Some (r + 1) else entry st r) \<and> st' = st\<lparr>pages := pages st'\<rparr>"
proof (induction n arbitrary: i st)
  case (Suc n)
  then obtain s where s: "put_entry i (Suc i) st = Some s" "link_entries (Suc i) n s = Some st'"
    by (auto elim!: bind_SomeE)
  have "st' = st\<lparr>pages := pages st'\<rparr>"
    using pages_trans [OF put_entry_shape [OF s(1)]] Suc.IH [OF s(2)] by blast
  then show ?case using Suc.IH [OF s(2)] put_entry_get [OF s(1)] by (auto simp: fun_eq_iff)
qed (auto simp: fun_eq_iff)

lemma link_entries_pages: "link_entries i n st = Some st' \<Longrightarrow> pages_ok k st \<Longrightarrow> pages_ok k st'"
  by (induction n arbitrary: i st) (auto elim!: bind_SomeE dest: pages_put_entry)

lemma chain_upt:
  "(\<And>r. i \<le> r \<Longrightarrow> r < i + n \<Longrightarrow> g r = Some (r + 1)) \<Longrightarrow> i + n \<le> z \<Longrightarrow> chain z g i [i..<i + n] (i + n)"
proof (induction n arbitrary: i)
  case (Suc n)
  have "chain z g (Suc i) [Suc i..<Suc i + n] (Suc i + n)" using Suc.prems by (intro Suc.IH) auto
  then show ?case using Suc.prems by (simp add: upt_conv_Cons del: upt_Suc)
qed simp

lemma alloc_pages_pages:
  "alloc_pages alloc i n st = Some (ok, st') \<Longrightarrow> nr_frames st \<le> i \<Longrightarrow>
   (\<forall>k < nr_frames st. pages st' k = pages st k) \<and>
   (ok \<longrightarrow> (\<forall>k. i \<le> k \<and> k < i + n \<longrightarrow> pages st' k = alloc k \<and> alloc k \<noteq> None) \<and> (\<forall>k < i. pages st' k = pages st k)) \<and>
   st' = st\<lparr>pages := pages st'\<rparr>"
proof (induction n arbitrary: i st)
  case (Suc n)
  show ?case
  proof (cases "alloc i")
    case None
    then show ?thesis using Suc.prems by (auto split: if_splits)
  next
    case (Some pg)
    let ?s = "st\<lparr>pages := (pages st)(i \<mapsto> pg)\<rparr>"
    have a: "alloc_pages alloc (Suc i) n ?s = Some (ok, st')" using Suc.prems Some by (auto split: if_splits)
    from Suc.IH [OF a] Suc.prems(2)
    have p: "\<forall>k < nr_frames st. pages st' k = pages st k" and s: "st' = st\<lparr>pages := pages st'\<rparr>"
      and o: "ok \<Longrightarrow> (\<forall>k. Suc i \<le> k \<and> k < Suc i + n \<longrightarrow> pages st' k = alloc k \<and> alloc k \<noteq> None)"
      and l: "ok \<Longrightarrow> (\<forall>k < Suc i. pages st' k = ((pages st)(i \<mapsto> pg)) k)" by auto
    have "pages st' k = alloc k \<and> alloc k \<noteq> None" if "i \<le> k" "k < i + Suc n" ok for k
      using o l that Some by (cases "k = i") auto
    moreover have "pages st' k = pages st k" if "k < i" ok for k using l that by auto
    ultimately show ?thesis using p s by blast
  qed
qed auto

text \<open>What an operation may do to the part of the table in use.\<close>

definition extends :: "gnttab \<Rightarrow> gnttab \<Rightarrow> nat list \<Rightarrow> bool" where
  "extends st st' new \<longleftrightarrow>
     table_ok st' \<and> new = [PER_FRAME * nr_frames st..<PER_FRAME * nr_frames st'] \<and> nr_frames st \<le> nr_frames st' \<and>
     (\<forall>r < PER_FRAME * nr_frames st. entry st' r = entry st r)"

lemma extends_refl: "table_ok st \<Longrightarrow> extends st st []"
  by (simp add: extends_def)

lemma entry_same_page: "pages st' (r div RPP) = pages st (r div RPP) \<Longrightarrow> entry st' r = entry st r"
  by (simp add: entry_def)

lemma extends_pages:
  assumes "table_ok st" "\<forall>k < nr_frames st. pages st' k = pages st k" "nr_frames st' = nr_frames st"
    "boot_max st' = boot_max st" "slots_ok st'"
  shows "extends st st' []"
proof -
  have "entry st' r = entry st r" if "r < PER_FRAME * nr_frames st" for r
  proof (rule entry_same_page)
    have "r div RPP < nr_frames st" using that by (simp add: PER_FRAME_def RPP_def)
    then show "pages st' (r div RPP) = pages st (r div RPP)" using assms by blast
  qed
  then show ?thesis using assms by (simp add: extends_def table_ok_def pages_ok_def)
qed

lemma lists_sameD:
  assumes "lists_same st st'"
  shows "entry st' = entry st" "free_head st' = free_head st" "free_count st' = free_count st"
    "nr_frames st' = nr_frames st" "boot_max st' = boot_max st" "pages st' = pages st" "shared st' = shared st"
    "list_slots st' = list_slots st"
  using assms by (auto simp: lists_same_def entry_def fun_eq_iff, (cases st; cases st'; simp)+)


lemma grow_extends:
  assumes ok: "table_ok st" "env_ok e" and more: "1 \<le> k" "nr_frames st + k \<le> boot_max st"
    and g: "grow_gnttab_list (malloc_page e) k st = Some (err, st')"
    and fl: "free_over ex st xs" "set xs \<subseteq> {..<PER_FRAME * nr_frames st}"
  obtains new where "extends st st' new" "free_over ex st' (new @ xs)"
    "err = None \<Longrightarrow> nr_frames st' = nr_frames st + k"
proof -
  let ?first = "PER_FRAME * nr_frames st" and ?nr = "nr_frames st + k"
  let ?n = "PER_FRAME * ?nr - 1 - ?first"
  obtain b s1 where s1: "alloc_pages (malloc_page e) (nr_frames st) k st = Some (b, s1)"
    using g by (auto simp: grow_gnttab_list_def Let_def elim!: bind_SomeE)
  note p1 = alloc_pages_pages [OF s1 order_refl]
  have f1: "nr_frames s1 = nr_frames st" "boot_max s1 = boot_max st" "free_head s1 = free_head st" "free_count s1 = free_count st"
    using p1 by (metis gnttab.select_convs gnttab.surjective gnttab.update_convs(1))+
  have sl1: "slots_ok s1" using slots_alloc [OF s1] ok(1) by (simp add: table_ok_def)
  then have e1: "extends st s1 []" using ok(1) p1 f1 by (intro extends_pages) auto
  have c1: "chain LIST_END (entry s1) (free_head st) xs LIST_END"
  proof (subst chain_cong [where g = "entry st"])
    show "entry s1 x = entry st x" if "x \<in> set xs" for x using e1 fl(2) that by (auto simp: extends_def)
    show "chain LIST_END (entry st) (free_head st) xs LIST_END" using fl(1) by (simp add: free_over_def)
  qed
  show ?thesis
  proof (cases b)
    case False
    then have "err \<noteq> None" "st' = s1" using g s1 by (auto simp: grow_gnttab_list_def Let_def)
    then show ?thesis using that [of "[]"] e1 c1 f1 fl(1) by (auto simp: free_over_def)
  next
    case True
    have arith: "?first + ?n = PER_FRAME * ?nr - 1" "?first < PER_FRAME * ?nr" "?first \<le> PER_FRAME * ?nr - 1"
      using more by (auto simp: PER_FRAME_def)
    obtain s2 s3 where s2: "link_entries ?first ?n s1 = Some s2"
      and s3: "put_entry (?first + ?n) (free_head s2) s2 = Some s3"
      and s4: "check_free_callbacks (s3\<lparr>free_head := ?first, free_count := free_count s3 + int (k * PER_FRAME),
                 nr_frames := ?nr\<rparr>) = Some st'" and err: "err = None"
      using g s1 True by (auto simp: grow_gnttab_list_def Let_def elim!: bind_SomeE)
    note l2 = link_entries_get [OF s2] and l4 = lists_sameD [OF check_free_callbacks_same [OF s4]]
    have f2: "free_head s2 = free_head st" "free_count s2 = free_count st" "boot_max s2 = boot_max st"
      using l2 f1 by (metis gnttab.select_convs gnttab.surjective gnttab.update_convs(1))+
    have f3: "free_count s3 = free_count st" "boot_max s3 = boot_max st"
      using put_entry_shape [OF s3] f2 by (metis gnttab.select_convs gnttab.surjective gnttab.update_convs(1))+
    have ent: "entry st' r = (if r = ?first + ?n then Some (free_head st)
        else if ?first \<le> r \<and> r < ?first + ?n then Some (r + 1) else entry s1 r)" for r
    proof -
      have "entry st' = entry s3" unfolding l4(1) by (rule entry_pages) simp
      moreover have "entry s3 = (entry s2)(?first + ?n \<mapsto> free_head st)" using put_entry_get [OF s3] f2 by simp
      moreover have "entry s2 r = (if ?first \<le> r \<and> r < ?first + ?n then Some (r + 1) else entry s1 r)"
        by (simp only: conjunct1 [OF l2])
      ultimately show ?thesis by (simp only: fun_upd_apply)
    qed
    have "\<exists>pg. pages s1 i = Some pg \<and> length pg = RPP" if "i < ?nr" for i
    proof (cases "i < nr_frames st")
      case True
      then show ?thesis using p1 ok(1) by (auto simp: table_ok_def pages_ok_def)
    next
      case False
      then have "pages s1 i = malloc_page e i" "malloc_page e i \<noteq> None" using p1 \<open>b\<close> that by auto
      then show ?thesis using ok(2) by (auto simp: env_ok_def)
    qed
    then have "pages_ok ?nr s1" by (simp add: pages_ok_def)
    then have "pages_ok ?nr st'"
      using pages_put_entry [OF link_entries_pages [OF s2] s3] l4(6) by (simp add: pages_ok_def)
    moreover have "slots_ok st'"
      using slots_put_entry [OF slots_link [OF s2 sl1] s3] slots_cong [of st' s3] l4(6,8) by simp
    ultimately have tab: "table_ok st'" using l4 f3 more ok by (simp add: table_ok_def)
    have "chain LIST_END (entry st') ?first [?first..<?first + ?n] (?first + ?n)"
      using table_refs_small [OF tab] l4(4) arith by (intro chain_upt) (auto simp: ent)
    moreover have "chain LIST_END (entry st') (free_head st) xs LIST_END"
    proof (subst chain_cong [where g = "entry s1"])
      show "entry st' x = entry s1 x" if "x \<in> set xs" for x using fl(2) that arith by (auto simp: ent)
    qed (rule c1)
    moreover have "?first + ?n \<noteq> LIST_END"
      using table_refs_small [OF tab, unfolded l4(4), simplified] arith(2) unfolding arith(1) by linarith
    ultimately have "chain LIST_END (entry st') ?first (([?first..<?first + ?n] @ [?first + ?n]) @ xs) LIST_END"
      by (auto simp: ent)
    moreover have "[?first..<?first + ?n] @ [?first + ?n] = [?first..<PER_FRAME * ?nr]"
      using arith by (metis Suc_diff_1 gr_zeroI less_zeroE upt_Suc_append)
    ultimately have ch: "chain LIST_END (entry st') ?first ([?first..<PER_FRAME * ?nr] @ xs) LIST_END"
      by (simp only:)
    show ?thesis
    proof (rule that)
      show "extends st st' [?first..<PER_FRAME * ?nr]"
        using tab l4(4) e1 arith by (auto simp: extends_def ent)
      show "free_over ex st' ([?first..<PER_FRAME * ?nr] @ xs)"
        using ch l4 f3 fl(1) by (simp add: free_over_def algebra_simps)
      show "nr_frames st' = ?nr" using l4(4) by simp
    qed
  qed
qed

section \<open>Who holds a reference\<close>

text \<open>
  The free list \<open>xs\<close>, counted with an excess of \<open>ex\<close>, the private lists \<open>yss\<close> with the heads \<open>hs\<close>, and the references \<open>rs\<close> held one by one
  share out the references of the table: each but the reserved ones is in exactly one place.
\<close>

definition owns :: "nat \<Rightarrow> gnttab \<Rightarrow> nat list \<Rightarrow> nat list list \<Rightarrow> nat list \<Rightarrow> nat list \<Rightarrow> bool" where
  "owns ex st xs yss hs rs \<longleftrightarrow>
     table_ok st \<and> free_over ex st xs \<and> list_all2 (private_list st) hs yss \<and>
     distinct (xs @ concat yss @ rs) \<and> set (xs @ concat yss @ rs) = {NR_RESERVED..<PER_FRAME * nr_frames st}"

lemma owns_range: "owns ex st xs yss hs rs \<Longrightarrow> r \<in> set xs \<union> \<Union> (set ` set yss) \<union> set rs \<Longrightarrow> r < PER_FRAME * nr_frames st"
  by (fastforce simp: owns_def)

lemma private_lists_cong:
  "list_all2 (private_list st) hs yss \<Longrightarrow> (\<And>r. r \<in> set (concat yss) \<Longrightarrow> entry st' r = entry st r) \<Longrightarrow>
   list_all2 (private_list st') hs yss"
proof (induction rule: list_all2_induct)
  case (Cons h hs ys yss)
  have "private_list st' h ys" using Cons by (auto simp: private_list_def intro: chain_cong [THEN iffD1, rotated])
  then show ?case using Cons by simp
qed simp

lemma owns_extends:
  assumes "owns ex st xs yss hs rs" "extends st st' new" "free_over ex st' (new @ xs)"
  shows "owns ex st' (new @ xs) yss hs rs"
proof -
  have r: "r < PER_FRAME * nr_frames st" if "r \<in> set xs \<union> \<Union> (set ` set yss) \<union> set rs" for r
    using owns_range [OF assms(1) that] .
  have "list_all2 (private_list st') hs yss"
    by (rule private_lists_cong [where st = st]) (use assms r in \<open>auto simp: owns_def extends_def\<close>)
  moreover have n: "set new = {PER_FRAME * nr_frames st..<PER_FRAME * nr_frames st'}" "distinct new" "table_ok st'"
    using assms by (auto simp: extends_def)
  moreover have "distinct (new @ xs @ concat yss @ rs)" using assms r n by (fastforce simp: owns_def)
  moreover have "{PER_FRAME * nr_frames st..<PER_FRAME * nr_frames st'} \<union> {NR_RESERVED..<PER_FRAME * nr_frames st}
      = {NR_RESERVED..<PER_FRAME * nr_frames st'}"
    using assms by (auto simp: owns_def extends_def table_ok_def NR_RESERVED_def PER_FRAME_def)
  ultimately show ?thesis using assms by (auto simp: owns_def Un_assoc)
qed

lemma owns_cong:
  assumes "owns ex st xs yss hs rs" "pages st' = pages st" "free_head st' = free_head st" "free_count st' = free_count st"
    "nr_frames st' = nr_frames st" "boot_max st' = boot_max st" "list_slots st' = list_slots st"
  shows "owns ex st' xs yss hs rs"
proof -
  have "entry st' = entry st" using assms(2) by (rule entry_pages)
  moreover have "slots_ok st' = slots_ok st" using assms(2,7) by (rule slots_cong)
  ultimately show ?thesis using assms
    by (auto simp: owns_def table_ok_def pages_ok_def free_over_def private_list_def cong: list.rel_cong)
qed

lemma owns_lists_same: "owns ex st xs yss hs rs \<Longrightarrow> lists_same st st' \<Longrightarrow> owns ex st' xs yss hs rs"
  by (erule owns_cong) (auto simp: lists_sameD(2-6,8))

lemma owns_put:
  assumes "owns ex st xs yss hs rs" "put_entry u v (st\<lparr>free_count := c, free_head := f\<rparr>) = Some st'" "u \<notin> set (concat yss)"
  shows "list_all2 (private_list st') hs yss" "table_ok st'" "nr_frames st' = nr_frames st" "boot_max st' = boot_max st"
    "free_head st' = f" "free_count st' = c" "entry st' = (entry st)(u \<mapsto> v)"
proof -
  let ?s = "st\<lparr>free_count := c, free_head := f\<rparr>"
  have "table_ok ?s" using assms(1) by (simp add: owns_def table_ok_def pages_ok_def)
  then show "table_ok st'" using assms(2) table_put_entry by blast
  have "entry ?s = entry st" by (rule entry_pages) simp
  then show e: "entry st' = (entry st)(u \<mapsto> v)" using put_entry_get [OF assms(2)] by simp
  show "list_all2 (private_list st') hs yss"
    by (rule private_lists_cong [where st = st]) (use assms e in \<open>auto simp: owns_def\<close>)
  show "nr_frames st' = nr_frames st" "boot_max st' = boot_max st" "free_head st' = f" "free_count st' = c"
    by (subst put_entry_shape [OF assms(2)], simp)+
qed

lemma owns_take:
  assumes "owns ex st (us @ u # xs) yss hs rs" "take_entries (Suc (length us)) st = Some (h, st')"
  shows "owns ex st' xs ((us @ [u]) # yss) (h # hs) rs"
proof -
  have fl: "free_over ex st (us @ u # xs)" using assms(1) by (simp add: owns_def)
  obtain s where s: "take_entries (Suc (length us)) st = Some (free_head st, s)" "free_over ex s xs"
    "private_list s (free_head st) (us @ [u])"
    and p: "put_entry u LIST_END (st\<lparr>free_count := int (length xs) + int ex, free_head := free_head s\<rparr>) = Some s"
    by (rule take_entries_over [OF fl])
  then have "h = free_head st" "st' = s" using assms(2) by auto
  then show ?thesis using s assms(1) owns_put [OF assms(1) p] by (auto simp: owns_def)
qed

text \<open>References move from \<open>rs\<close> to the free list when one link is written.\<close>

lemma owns_free_head:
  assumes o: "owns ex st xs yss hs rs" and p: "put_entry u v st = Some s" "u \<notin> set (concat yss)"
    and c: "chain LIST_END (entry s) f ws LIST_END" "n = int (length ws) + int ex'"
    and d: "distinct (ws @ rs')" "set (ws @ rs') = set (xs @ rs)"
  shows "owns ex' (s\<lparr>free_head := f, free_count := n\<rparr>) ws yss hs rs'"
proof -
  let ?s = "s\<lparr>free_head := f, free_count := n\<rparr>"
  have e: "entry ?s = entry s" by (rule entry_pages) simp
  have "put_entry u v (st\<lparr>free_count := free_count st, free_head := free_head st\<rparr>) = Some s" using p by simp
  note q = owns_put [OF o this p(2)]
  have "list_all2 (private_list ?s) hs yss" by (rule private_lists_cong [OF q(1)]) (simp add: e)
  moreover have "table_ok ?s" using q(2) by (simp add: table_ok_def pages_ok_def)
  moreover have "set (ws @ rs') \<inter> set (concat yss) = {}" using o unfolding d(2) by (auto simp: owns_def)
  then have "distinct (ws @ concat yss @ rs')" using o d(1) by (auto simp: owns_def simp del: set_concat)
  moreover have "set (ws @ concat yss @ rs') = set (xs @ concat yss @ rs)" using d(2) by auto
  then have "set (ws @ concat yss @ rs') = {NR_RESERVED..<PER_FRAME * nr_frames s}"
    using o q(3) by (simp only: owns_def)
  ultimately show ?thesis using c e by (simp add: owns_def free_over_def)
qed

lemma owns_free:
  assumes "owns ex st xs (ya @ ys # yb) (as @ h # bs) rs" "length as = length ya" "free_grant_references h st = Some st'"
  shows "owns ex st' (ys @ xs) (ya @ yb) (as @ bs) rs"
proof (cases ys rule: rev_cases)
  case Nil
  then have "h = LIST_END" using assms(1,2) by (simp add: owns_def private_list_def list_all2_append)
  then show ?thesis using assms Nil by (simp add: owns_def free_grant_references_def list_all2_append)
next
  case (snoc us u)
  have y: "private_list st h (us @ [u])" using assms(1,2) snoc by (simp add: owns_def list_all2_append)
  have "h \<noteq> LIST_END" using y by (cases us) (auto simp: private_list_def)
  then obtain s where s: "put_entry u (free_head st) st = Some s"
    "check_free_callbacks (s\<lparr>free_head := h, free_count := free_count s + (1 + int (length us))\<rparr>) = Some st'"
    using assms(3) list_end_chain [OF y [unfolded private_list_def]]
    by (auto simp: free_grant_references_def elim!: bind_SomeE)
  have o: "owns ex st xs (ya @ yb) (as @ bs) (us @ u # rs)"
    using assms(1,2) snoc by (auto simp: owns_def list_all2_append)
  have "chain LIST_END (entry s) h (us @ u # xs) LIST_END"
    by (rule gt.splice [OF _ _ s(1)])
      (use y o in \<open>auto simp: owns_def free_over_def private_list_def\<close>)
  moreover have "free_count s = int (length xs) + int ex"
    using o by (subst put_entry_shape [OF s(1)]) (simp add: owns_def free_over_def)
  ultimately have "owns ex (s\<lparr>free_head := h, free_count := free_count s + (1 + int (length us))\<rparr>) (us @ u # xs) (ya @ yb) (as @ bs) rs"
    using o by (intro owns_free_head [OF o s(1)]) (auto simp: owns_def)
  then show ?thesis using owns_lists_same check_free_callbacks_same [OF s(2)] snoc by simp
qed

lemma owns_put_free:
  assumes o: "owns ex st xs yss hs (ps @ r # qs)" and s': "put_free_entry r st = Some st'"
  shows "owns ex st' (r # xs) yss hs (ps @ qs)"
proof -
  obtain s where s: "put_entry r (free_head st) st = Some s"
    "check_free_callbacks (s\<lparr>free_head := r, free_count := free_count s + 1\<rparr>) = Some st'"
    using s' by (auto simp: put_free_entry_def elim!: bind_SomeE)
  have "r < LIST_END" using owns_range [OF o, of r] table_refs_small [of st] o by (simp add: owns_def)
  then have "chain LIST_END (entry s) r (r # xs) LIST_END"
    using gt.push [OF _ s(1)] o by (auto simp: owns_def free_over_def)
  moreover have "free_count s = int (length xs) + int ex"
    using o by (subst put_entry_shape [OF s(1)]) (simp add: owns_def free_over_def)
  ultimately have "owns ex (s\<lparr>free_head := r, free_count := free_count s + 1\<rparr>) (r # xs) yss hs (ps @ qs)"
    using o by (intro owns_free_head [OF o s(1)]) (auto simp: owns_def)
  then show ?thesis using owns_lists_same check_free_callbacks_same [OF s(2)] by simp
qed

lemma owns_claim:
  assumes "owns ex st xs (ya @ ys # yb) (as @ h # bs) rs" "length as = length ya"
    and "claim_grant_reference h st = Some (r, h')" "\<not> empty_grant_references h"
  shows "\<exists>ys'. ys = r # ys' \<and> owns ex st xs (ya @ ys' # yb) (as @ h' # bs) (r # rs)"
proof -
  have "private_list st h ys" using assms(1,2) by (simp add: owns_def list_all2_append)
  then obtain ys' where "ys = h # ys'" "private_list st h' ys'" "r = h"
    using assms(3,4) by (cases ys) (auto simp: private_list_def claim_grant_reference_def empty_grant_references_def)
  then show ?thesis using assms(1,2) by (auto simp: owns_def list_all2_append)
qed

lemma owns_release:
  assumes o: "owns ex st xs (ya @ ys # yb) (as @ h # bs) (ps @ r # qs)" and l: "length as = length ya"
    and r: "release_grant_reference h r st = Some (h', st')"
  shows "owns ex st' xs (ya @ (r # ys) # yb) (as @ h' # bs) (ps @ qs)"
proof -
  have s: "put_entry r h st = Some st'" "h' = r" using r by (auto simp: release_grant_reference_def elim!: bind_SomeE)
  then have p: "put_entry r h (st\<lparr>free_count := free_count st, free_head := free_head st\<rparr>) = Some st'" by simp
  have rn: "r \<notin> set xs" "r \<notin> set ys" "r \<notin> set (concat (ya @ ys # yb))" using o by (auto simp: owns_def)
  note q = owns_put [OF o p rn(3)]
  have "r < LIST_END" using owns_range [OF o, of r] table_refs_small [of st] o by (simp add: owns_def)
  then have "private_list st' r (r # ys)"
    using gt.push [OF _ s(1)] o l rn by (simp add: owns_def private_list_def list_all2_append)
  moreover have "free_over ex st' xs"
    using gt.frame [OF s(1) rn(1)] o q by (simp add: owns_def free_over_def)
  ultimately show ?thesis using o l q s(2) by (auto simp: owns_def list_all2_append)
qed

lemma expand_extends:
  assumes o: "owns ex st xs yss hs rs" and e: "env_ok e" and req: "1 \<le> req"
    and x: "gnttab_expand e req st = Some (err, st')"
  obtains new where "extends st st' new" "free_over ex st' (new @ xs)" "err = None \<Longrightarrow> req \<le> length new"
proof -
  let ?extra = "(req + (PER_FRAME - 1)) div PER_FRAME"
  have fl: "free_over ex st xs" "table_ok st" using o by (auto simp: owns_def)
  show ?thesis
  proof (cases "nr_frames st + ?extra > max_nr_grant_frames (query_size e) st")
    case True
    then have "st' = st" "err \<noteq> None" using x by (auto simp: gnttab_expand_def Let_def)
    then show ?thesis using that [of "[]"] fl extends_refl by auto
  next
    case False
    then have "grow_gnttab_list (malloc_page e) ?extra st = Some (err, st')"
      using x by (auto simp: gnttab_expand_def Let_def elim!: bind_SomeE)
    moreover have "1 \<le> ?extra" "req \<le> PER_FRAME * ?extra" using req by (auto simp: PER_FRAME_def)
    moreover have "nr_frames st + ?extra \<le> boot_max st" using False by (auto simp: max_nr_grant_frames_def split: if_splits)
    moreover have "set xs \<subseteq> {..<PER_FRAME * nr_frames st}" using owns_range [OF o] by auto
    ultimately obtain new where n: "extends st st' new" "free_over ex st' (new @ xs)"
      "err = None \<Longrightarrow> nr_frames st' = nr_frames st + ?extra"
      using grow_extends [OF fl(2) e] fl(1) by metis
    have "length new = PER_FRAME * nr_frames st' - PER_FRAME * nr_frames st" using n(1) by (simp add: extends_def)
    then have "req \<le> length new" if "err = None"
      using n(3) [OF that] \<open>req \<le> PER_FRAME * ?extra\<close> by (simp add: distrib_left)
    then show ?thesis using that n by blast
  qed
qed

lemma split_list_at:
  assumes "1 \<le> n" "n \<le> length xs" obtains us u ws where "xs = us @ u # ws" "n = Suc (length us)"
  using assms that [of "take (n - 1) xs" "xs ! (n - 1)" "drop n xs"] id_take_nth_drop [of "n - 1" xs] by auto

text \<open>A walk along the list that finds an entry has not left the list.\<close>

lemma walk_inside:
  "chain LIST_END (entry st) p xs LIST_END \<Longrightarrow> entry st LIST_END = None \<Longrightarrow> walk m p st = Some h \<Longrightarrow> entry st h \<noteq> None \<Longrightarrow>
    m < length xs"
proof (induction xs arbitrary: p m)
  case Nil
  then show ?case by (cases m) auto
next
  case (Cons x xs)
  then show ?case by (cases m) (auto elim!: bind_SomeE)
qed

text \<open>
  Taking \<open>n\<close> references. A request for none takes one all the same, which stays counted as free.
\<close>

lemma owns_take_any:
  assumes o: "owns ex st xs yss hs rs" and t: "take_entries n st = Some (h, st')"
  obtains ex' xs' ys where "owns ex' st' xs' (ys # yss) (h # hs) rs" "1 \<le> n \<Longrightarrow> ex' = ex \<and> length ys = n"
proof -
  have fl: "chain LIST_END (entry st) (free_head st) xs LIST_END" and en: "entry st LIST_END = None"
    using o slots_end by (auto simp: owns_def free_over_def table_ok_def)
  obtain g v where g: "walk (n - 1) (free_head st) st = Some g" "entry st g = Some v"
    using t by (auto simp: take_entries_def Let_def elim!: bind_SomeE)
  have l: "n - 1 < length xs" using walk_inside [OF fl en g(1)] g(2) by simp
  show ?thesis
  proof (cases "n = 0")
    case False
    then have "1 \<le> n" "n \<le> length xs" using l by auto
    then obtain us u ws where x: "xs = us @ u # ws" "n = Suc (length us)" by (rule split_list_at)
    have "owns ex st' ws ((us @ [u]) # yss) (h # hs) rs" using owns_take [of ex st us u ws] o t x by simp
    then show ?thesis by (rule that) (simp add: x(2))
  next
    case True
    then obtain u ws where x: "xs = u # ws" using l by (cases xs) auto
    let ?s = "st\<lparr>free_count := free_count st + 1\<rparr>"
    have e: "entry ?s = entry st" by (rule entry_pages) simp
    have "list_all2 (private_list ?s) hs yss"
      by (rule private_lists_cong [where st = st]) (use o e in \<open>auto simp: owns_def\<close>)
    moreover have "table_ok ?s" using o by (simp add: owns_def table_ok_def pages_ok_def)
    ultimately have o1: "owns (Suc ex) ?s ([] @ u # ws) yss hs rs"
      using o e by (simp add: owns_def free_over_def x)
    have "take_entries (Suc (length [])) ?s = Some (h, st')"
      using t True e by (simp add: take_entries_def)
    from owns_take [OF o1 this] show ?thesis by (rule that) (simp add: True)
  qed
qed

lemma owns_get:
  assumes o: "owns ex st xs yss hs rs" and e: "env_ok e"
    and g: "get_free_entries e n st = Some (res, st')"
  shows "\<exists>ex' xs'. case res of Inl x \<Rightarrow> owns ex st' xs' yss hs rs
    | Inr h \<Rightarrow> \<exists>ys. owns ex' st' xs' (ys # yss) (h # hs) rs \<and> (1 \<le> n \<longrightarrow> ex' = ex \<and> length ys = n)"
proof -
  obtain err and s :: gnttab and xs1 where s: "case err of Some x \<Rightarrow> res = Inl x \<and> st' = s | None \<Rightarrow> \<exists>h. take_entries n s = Some (h, st') \<and> res = Inr h"
    and o1: "owns ex s xs1 yss hs rs"
  proof (cases "free_count st < int n")
    case True
    then obtain err s where x: "gnttab_expand e (nat (int n - free_count st)) st = Some (err, s)"
      "case err of Some x \<Rightarrow> res = Inl x \<and> st' = s | None \<Rightarrow> \<exists>h. take_entries n s = Some (h, st') \<and> res = Inr h"
      using g by (auto simp: get_free_entries_def elim!: bind_SomeE split: option.splits)
    have "1 \<le> nat (int n - free_count st)" using True by simp
    then obtain new where "extends st s new" "free_over ex s (new @ xs)"
      using expand_extends [OF o e _ x(1)] by metis
    then have "owns ex s (new @ xs) yss hs rs" using owns_extends [OF o] by blast
    then show ?thesis using x(2) by (intro that) auto
  next
    case False
    then show ?thesis using g o
      by (intro that [where err = None]) (auto simp: get_free_entries_def elim!: bind_SomeE)
  qed
  show ?thesis
  proof (cases err)
    case (Some x)
    then show ?thesis using s o1 by auto
  next
    case None
    then obtain h where h: "take_entries n s = Some (h, st')" "res = Inr h" using s by auto
    obtain ex' ws ys where "owns ex' st' ws (ys # yss) (h # hs) rs" "1 \<le> n \<Longrightarrow> ex' = ex \<and> length ys = n"
      using owns_take_any [OF o1 h(1)] by metis
    then show ?thesis using h(2) by (intro exI [of _ ex'] exI [of _ ws]) auto
  qed
qed

text \<open>One reference is held as such, not as a list.\<close>

lemma owns_get_one:
  assumes "owns ex st xs yss hs rs" "env_ok e" "get_free_entries e 1 st = Some (Inr r, st')"
  shows "\<exists>xs'. owns ex st' xs' yss hs (r # rs)"
proof -
  obtain xs' ys where "length ys = 1" "owns ex st' xs' (ys # yss) (r # hs) rs" using owns_get [OF assms] by auto
  moreover then have "ys = [r]" by (cases ys) (auto simp: owns_def private_list_def)
  ultimately show ?thesis by (auto simp: owns_def)
qed

text \<open>What is held one by one may be listed in any order, and writing its entries changes nothing.\<close>

lemma owns_reorder:
  "owns ex st xs yss hs rs \<Longrightarrow> distinct rs' \<Longrightarrow> set rs' = set rs \<Longrightarrow> owns ex st xs yss hs rs'"
  by (simp add: owns_def)

lemma owns_put_held:
  assumes o: "owns ex st xs yss hs rs" and p: "put_entry r v st = Some s" and r: "r \<in> set rs"
  shows "owns ex s xs yss hs rs"
proof -
  have n: "r \<notin> set xs" "r \<notin> set (concat yss)" using o r by (auto simp: owns_def)
  have "put_entry r v (st\<lparr>free_count := free_count st, free_head := free_head st\<rparr>) = Some s" using p by simp
  note q = owns_put [OF o this n(2)]
  have "free_over ex s xs" using gt.frame [OF p n(1)] o q by (simp add: owns_def free_over_def)
  then show ?thesis using o q by (simp add: owns_def)
qed

lemma entry_upd_shared: "entry (upd_shared r f st) = entry st"
  by (rule entry_pages) (simp add: upd_shared_def)

lemma owns_upd_shared: "owns ex st xs yss hs rs \<Longrightarrow> owns ex (upd_shared r f st) xs yss hs rs"
  by (erule owns_cong) (auto simp: upd_shared_def)

lemma owns_grant_ref: "owns ex st xs yss hs rs \<Longrightarrow> owns ex (last (grant_stores r d f fl st)) xs yss hs rs"
  by (simp add: grant_stores_def Let_def owns_upd_shared)

section \<open>Taking back a list of accesses\<close>

text \<open>
  The loop of \<open>gnttab_end_foreign_access_references\<close>, on references that are held: it takes back those of some
  \<open>P\<close>, which form a chain, the last one first.
\<close>

lemma put_entry_count:
  "put_entry r v (st\<lparr>free_count := c\<rparr>) = map_option (\<lambda>s. s\<lparr>free_count := c\<rparr>) (put_entry r v st)"
  by (simp add: put_entry_def split: option.splits)

lemma owns_end_access_ref:
  "owns ex st xs yss hs rs \<Longrightarrow> end_foreign_access_ref hv r st = Some (b, st') \<Longrightarrow>
    owns ex st' xs yss hs rs \<and> entry st' = entry st"
  by (auto simp: end_foreign_access_ref_def Let_def owns_upd_shared entry_upd_shared elim!: bind_SomeE)

lemma end_refs_loop_owns:
  "owns ex st xs yss hs rs \<Longrightarrow> end_refs_loop hv refs h c st = Some (h', c', st') \<Longrightarrow> distinct refs \<Longrightarrow> set refs \<subseteq> set rs \<Longrightarrow>
   chain LIST_END (entry st) h fs LIST_END \<Longrightarrow> set refs \<inter> set fs = {} \<Longrightarrow>
   \<exists>P. owns ex st' xs yss hs rs \<and> chain LIST_END (entry st') h' (rev (filter P refs) @ fs) LIST_END \<and>
     c' + int (length refs) = c + int (length (filter P refs))"
proof (induction refs arbitrary: h c st fs)
  case (Cons r refs)
  obtain b s1 where b: "end_foreign_access_ref (hv r) r st = Some (b, s1)"
    using Cons.prems(2) by (auto elim!: bind_SomeE)
  from owns_end_access_ref [OF Cons.prems(1) b] have o1: "owns ex s1 xs yss hs rs" and e1: "entry s1 = entry st" by blast+
  show ?case
  proof (cases b)
    case False
    then have l: "end_refs_loop hv refs h (c - 1) s1 = Some (h', c', st')" using Cons.prems(2) b by simp
    have "\<exists>P. owns ex st' xs yss hs rs \<and> chain LIST_END (entry st') h' (rev (filter P refs) @ fs) LIST_END \<and>
        c' + int (length refs) = c - 1 + int (length (filter P refs))"
      by (rule Cons.IH [OF o1 l]) (use Cons.prems e1 in auto)
    then obtain P where P: "owns ex st' xs yss hs rs" "chain LIST_END (entry st') h' (rev (filter P refs) @ fs) LIST_END"
        "c' + int (length refs) = c - 1 + int (length (filter P refs))" by blast
    have "filter (\<lambda>x. x \<noteq> r \<and> P x) (r # refs) = filter P refs"
      using Cons.prems(3) by (auto intro!: filter_cong)
    then show ?thesis using P by (intro exI [of _ "\<lambda>x. x \<noteq> r \<and> P x"]) (simp del: filter.simps)
  next
    case True
    then obtain s where s: "put_entry r h s1 = Some s" "end_refs_loop hv refs r c s = Some (h', c', st')"
      using Cons.prems(2) b by (auto elim!: bind_SomeE)
    have rr: "r \<in> set rs" using Cons.prems(4) by simp
    have o2: "owns ex s xs yss hs rs" by (rule owns_put_held [OF o1 s(1) rr])
    have "r < LIST_END" using owns_range [OF o1, of r] table_refs_small [of s1] o1 rr by (simp add: owns_def)
    then have c2: "chain LIST_END (entry s) r (r # fs) LIST_END"
      by (intro gt.push [OF _ s(1)]) (use Cons.prems e1 in auto)
    have "\<exists>P. owns ex st' xs yss hs rs \<and> chain LIST_END (entry st') h' (rev (filter P refs) @ r # fs) LIST_END \<and>
        c' + int (length refs) = c + int (length (filter P refs))"
      by (rule Cons.IH [OF o2 s(2) _ _ c2]) (use Cons.prems in auto)
    then obtain P where P: "owns ex st' xs yss hs rs" "chain LIST_END (entry st') h' (rev (filter P refs) @ r # fs) LIST_END"
        "c' + int (length refs) = c + int (length (filter P refs))" by blast
    have "filter (\<lambda>x. x = r \<or> P x) (r # refs) = r # filter P refs"
      using Cons.prems(3) by (auto intro!: filter_cong)
    then show ?thesis using P by (intro exI [of _ "\<lambda>x. x = r \<or> P x"]) (simp del: filter.simps)
  qed
qed (auto intro!: exI [of _ "\<lambda>x. False"])

text \<open>Whether all of the accesses have ended.\<close>

definition all_ended :: "(nat \<Rightarrow> nat \<Rightarrow> u16 \<Rightarrow> u16) \<Rightarrow> nat list \<Rightarrow> gnttab \<Rightarrow> bool" where
  "all_ended hv refs st \<longleftrightarrow> (\<exists>h s. end_refs_loop hv refs LIST_END (int (length refs)) st = Some (h, int (length refs), s))"

text \<open>
  What becomes of the references: the ones taken back are free, unless the first is still in use, which loses the
  references that were free before, as does any that is still in use.
\<close>

lemma owns_end_refs:
  assumes o: "owns ex st xs yss hs rs" and r: "distinct refs" "set refs \<subseteq> set rs"
    and x: "end_foreign_access_references hv refs st = Some st'"
  obtains ex' xs' ls where "owns ex' st' xs' yss hs (filter (\<lambda>r. r \<notin> set refs) rs @ ls)"
    "all_ended hv refs st \<Longrightarrow> ex' = ex \<and> ls = []"
proof -
  obtain h c s where l: "end_refs_loop hv refs LIST_END (int (length refs)) st = Some (h, c, s)"
    and t: "(if c \<noteq> 0 then do { s \<leftarrow> put_entry (hd refs) (free_head s) (s\<lparr>free_count := free_count s + c\<rparr>);
        Some (s\<lparr>free_head := h\<rparr>) } else Some s) = Some st'"
    using x by (auto simp: end_foreign_access_references_def elim!: bind_SomeE)
  obtain P where o1: "owns ex s xs yss hs rs" and ch: "chain LIST_END (entry s) h (rev (filter P refs)) LIST_END"
    and c: "c = int (length (filter P refs))"
    using end_refs_loop_owns [OF o l r, of "[]"] by auto
  let ?qs = "filter (\<lambda>r. r \<notin> set refs) rs" and ?ls = "filter (\<lambda>r. \<not> P r) refs"
  have all: "?ls = []" if "all_ended hv refs st"
  proof -
    have "length (filter P refs) = length refs" using that l c by (auto simp: all_ended_def)
    then show ?thesis by (metis filter_empty_conv length_filter_less less_irrefl)
  qed
  have d: "distinct (?qs @ ?ls)" "set (?qs @ ?ls) \<union> set (filter P refs) = set rs"
    using o1 r by (auto simp: owns_def)
  have dq: "distinct (filter P refs @ ?qs @ ?ls)" using o1 r by (auto simp: owns_def)
  have fl: "chain LIST_END (entry s) (free_head s) xs LIST_END" "free_count s = int (length xs) + int ex" "distinct xs"
    "set xs \<inter> set rs = {}" using o1 by (auto simp: owns_def free_over_def)
  show ?thesis
  proof (cases "filter P refs = []")
    case True
    then have "st' = s" using t c by simp
    then show ?thesis using that [of ex xs ?ls] owns_reorder [OF o1 d(1)] d(2) True all by simp
  next
    case False
    let ?r = "hd refs"
    have hr: "?r \<in> set rs" "refs \<noteq> []" using False r(2) by (cases refs; auto)+
    obtain s1 where s1: "put_entry ?r (free_head s) s = Some s1" "st' = s1\<lparr>free_count := free_count s + c, free_head := h\<rparr>"
      using t False c by (auto simp: put_entry_count elim!: bind_SomeE)
    have st': "st' = s1\<lparr>free_head := h, free_count := free_count s + c\<rparr>" using s1(2) by simp
    have ry: "?r \<notin> set (concat yss)" using o1 hr(1) by (auto simp: owns_def)
    show ?thesis
    proof (cases "P ?r")
      case True
      then obtain gs where gs: "filter P refs = ?r # gs" using hr(2) by (cases refs) auto
      have "chain LIST_END (entry s1) h (rev gs @ ?r # xs) LIST_END"
      proof (rule gt.splice [OF _ fl(1) s1(1)])
        show "chain LIST_END (entry s) h (rev gs @ [?r]) LIST_END" using ch unfolding gs by simp
        have "set (filter P refs) \<subseteq> set rs" using r(2) by auto
        then show "set (rev gs @ [?r]) \<inter> set xs = {}" using fl(4) unfolding gs by auto
      qed
      moreover have "distinct ((rev gs @ ?r # xs) @ ?qs @ ?ls)" "set ((rev gs @ ?r # xs) @ ?qs @ ?ls) = set (xs @ rs)"
      proof -
        have "distinct (xs @ filter P refs @ ?qs @ ?ls)" using dq fl(3,4) r(2) by auto
        then show "distinct ((rev gs @ ?r # xs) @ ?qs @ ?ls)" unfolding gs by auto
        have "set (xs @ filter P refs @ ?qs @ ?ls) = set (xs @ rs)" using d(2) by auto
        then show "set ((rev gs @ ?r # xs) @ ?qs @ ?ls) = set (xs @ rs)" unfolding gs by auto
      qed
      ultimately have "owns ex st' (rev gs @ ?r # xs) yss hs (?qs @ ?ls)"
        unfolding st' by (intro owns_free_head [OF o1 s1(1) ry]) (simp_all add: fl(2) c gs)
      then show ?thesis using that all by blast
    next
      case False
      then have nr: "?r \<notin> set (rev (filter P refs))" by simp
      have "chain LIST_END (entry s1) h (rev (filter P refs)) LIST_END" using gt.frame [OF s1(1) nr] ch by simp
      moreover have "distinct (rev (filter P refs) @ ?qs @ ?ls @ xs)" "set (rev (filter P refs) @ ?qs @ ?ls @ xs) = set (xs @ rs)"
        using dq fl(3,4) r(2) d(2) by auto
      ultimately have o2: "owns (ex + length xs) st' (rev (filter P refs)) yss hs (?qs @ ?ls @ xs)"
        unfolding st' by (intro owns_free_head [OF o1 s1(1) ry]) (simp_all add: fl(2) c)
      have "?r \<in> set ?ls" using False hr(2) by simp
      then have "?ls \<noteq> []" by (metis empty_iff empty_set)
      then show ?thesis using that [OF o2] all by blast
    qed
  qed
qed

section \<open>Reachable states\<close>

text \<open>
  What the users of the table do: a state is the table, the heads of the private lists and the references
  held one by one. A reference may only be given back or released by one who holds it, a list of accesses only
  when all its references are held, each once. The users are careful (\<open>c\<close>) when none asks for a list of no
  references, and none takes back a list of accesses of which one is still in use. A call that runs off the
  free list, past the end marker, is a fault and no step.
\<close>

type_synonym holders = "gnttab \<times> nat list \<times> nat list"

inductive gstep :: "bool \<Rightarrow> holders \<Rightarrow> holders \<Rightarrow> bool" for c where
  g_alloc: "env_ok e \<Longrightarrow> c \<longrightarrow> 1 \<le> n \<Longrightarrow> alloc_grant_references e n st = Some (Inr h, st') \<Longrightarrow>
    gstep c (st, hs, rs) (st', h # hs, rs)"
| g_no_alloc: "env_ok e \<Longrightarrow> alloc_grant_references e n st = Some (Inl x, st') \<Longrightarrow>
    gstep c (st, hs, rs) (st', hs, rs)"
| g_free_list: "free_grant_references h st = Some st' \<Longrightarrow> gstep c (st, as @ h # bs, rs) (st', as @ bs, rs)"
| g_claim: "\<not> empty_grant_references h \<Longrightarrow> claim_grant_reference h st = Some (r, h') \<Longrightarrow>
    gstep c (st, as @ h # bs, rs) (st, as @ h' # bs, r # rs)"
| g_release: "release_grant_reference h r st = Some (h', st') \<Longrightarrow>
    gstep c (st, as @ h # bs, ps @ r # qs) (st', as @ h' # bs, ps @ qs)"
| g_free: "free_grant_reference r st = Some st' \<Longrightarrow> gstep c (st, hs, ps @ r # qs) (st', hs, ps @ qs)"
| g_access: "env_ok e \<Longrightarrow> grant_foreign_access e d f ro st = Some (Inr r, st') \<Longrightarrow>
    gstep c (st, hs, rs) (st', hs, r # rs)"
| g_transfer: "env_ok e \<Longrightarrow> grant_foreign_transfer e d f st = Some (Inr r, st') \<Longrightarrow>
    gstep c (st, hs, rs) (st', hs, r # rs)"
| g_no_access: "env_ok e \<Longrightarrow> grant_foreign_access e d f ro st = Some (Inl x, st') \<Longrightarrow> gstep c (st, hs, rs) (st', hs, rs)"
| g_no_transfer: "env_ok e \<Longrightarrow> grant_foreign_transfer e d f st = Some (Inl x, st') \<Longrightarrow> gstep c (st, hs, rs) (st', hs, rs)"
| g_grant_ref: "gstep c (st, hs, rs) (grant_foreign_access_ref r d f ro st, hs, rs)"
| g_grant_transfer_ref: "gstep c (st, hs, rs) (grant_foreign_transfer_ref r d f st, hs, rs)"
| g_end_access: "end_foreign_access hv r st = Some (True, st') \<Longrightarrow> gstep c (st, hs, ps @ r # qs) (st', hs, ps @ qs)"
| g_in_use: "end_foreign_access hv r st = Some (False, st') \<Longrightarrow> gstep c (st, hs, rs) (st', hs, rs)"
| g_end_access_ref: "end_foreign_access_ref hv r st = Some (b, st') \<Longrightarrow> gstep c (st, hs, rs) (st', hs, rs)"
| g_end_transfer: "end_foreign_transfer hv f r st = Some (v, st') \<Longrightarrow> gstep c (st, hs, ps @ r # qs) (st', hs, ps @ qs)"
| g_end_transfer_ref: "end_foreign_transfer_ref hv f r st = Some (v, st') \<Longrightarrow> gstep c (st, hs, rs) (st', hs, rs)"
| g_end_refs: "distinct refs \<Longrightarrow> set refs \<subseteq> set rs \<Longrightarrow> c \<longrightarrow> all_ended hv' refs st \<Longrightarrow>
    end_foreign_access_references hv' refs st = Some st' \<Longrightarrow>
    gstep c (st, hs, rs) (st', hs, filter (\<lambda>r. r \<notin> set refs) rs)"
| g_request: "request_free_callback cb k st = Some st' \<Longrightarrow> gstep c (st, hs, rs) (st', hs, rs)"
| g_cancel: "cancel_free_callback cb st = Some st' \<Longrightarrow> gstep c (st, hs, rs) (st', hs, rs)"

inductive_cases gstepE: "gstep c (st, hs, rs) (st', hs', rs')"

text \<open>The references \<open>ls\<close> are nowhere any more. With careful users there are none, and the count is exact.\<close>

definition held :: "bool \<Rightarrow> holders \<Rightarrow> bool" where
  "held c w \<longleftrightarrow> (\<exists>ex xs yss ls. owns ex (fst w) xs yss (fst (snd w)) (snd (snd w) @ ls) \<and> (c \<longrightarrow> ex = 0 \<and> ls = []))"

lemma heldI: "owns ex st xs yss hs (rs @ ls) \<Longrightarrow> (c \<longrightarrow> ex = 0 \<and> ls = []) \<Longrightarrow> held c (st, hs, rs)"
  by (auto simp: held_def)

lemma heldE:
  assumes "held c (st, hs, rs)"
  obtains ex xs yss ls where "owns ex st xs yss hs (rs @ ls)" "c \<longrightarrow> ex = 0 \<and> ls = []"
  using assms by (auto simp: held_def)

lemma held_pick:
  assumes "held c (st, as @ h # bs, rs)"
  obtains ex xs ya ys yb ls where "owns ex st xs (ya @ ys # yb) (as @ h # bs) (rs @ ls)" "length as = length ya"
    "c \<longrightarrow> ex = 0 \<and> ls = []"
proof -
  obtain ex xs yss ls where o: "owns ex st xs yss (as @ h # bs) (rs @ ls)" and c: "c \<longrightarrow> ex = 0 \<and> ls = []"
    using assms by (rule heldE)
  then have "list_all2 (private_list st) (as @ h # bs) yss" by (simp add: owns_def)
  then obtain ya ys yb where "yss = ya @ ys # yb" "length as = length ya"
    by (auto simp: list_all2_append1 list_all2_Cons1)
  then show ?thesis using that o c by blast
qed

lemma cancel_loop_same: "cancel_loop c q p st = Some st' \<Longrightarrow> lists_same st st'"
proof (induction rule: cancel_loop.raw_induct [rotated, consumes 1])
  case (1 loop c q p st st')
  then show ?case by (fastforce simp: lists_same_def Let_def split: if_splits elim!: bind_SomeE)
qed

lemma request_same: "request_free_callback c n st = Some st' \<Longrightarrow> lists_same st st'"
proof -
  assume r: "request_free_callback c n st = Some st'"
  then obtain cb where cb: "cbs st c = Some cb" by (auto simp: request_free_callback_def elim!: bind_SomeE)
  show ?thesis
  proof (cases "cb_next cb = NULL")
    case True
    then have "lists_same (st\<lparr>cbs := (cbs st)(c \<mapsto> \<lparr>cb_next = cb_list st, cb_count = n\<rparr>), cb_list := c\<rparr>) st'"
      using r cb by (intro check_free_callbacks_same) (simp add: request_free_callback_def)
    then show ?thesis by (simp add: lists_same_def)
  qed (use r cb in \<open>simp add: request_free_callback_def lists_same_def\<close>)
qed

lemma owns_end_transfer_ref:
  "owns ex st xs yss hs rs \<Longrightarrow> end_foreign_transfer_ref hv f r st = Some (b, st') \<Longrightarrow> owns ex st' xs yss hs rs"
  by (auto simp: end_foreign_transfer_ref_def Let_def elim!: bind_SomeE intro!: owns_upd_shared split: if_splits)

lemma held_alloc:
  assumes "held c (st, hs, rs)" "env_ok e" "get_free_entries e n st = Some (res, st')" "c \<longrightarrow> 1 \<le> n \<or> isl res"
  shows "case res of Inl x \<Rightarrow> held c (st', hs, rs) | Inr h \<Rightarrow> held c (st', h # hs, rs)"
proof -
  obtain ex xs yss ls where o: "owns ex st xs yss hs (rs @ ls)" and c: "c \<longrightarrow> ex = 0 \<and> ls = []"
    using assms(1) by (rule heldE)
  show ?thesis
  proof (cases res)
    case (Inl x)
    then obtain xs' where "owns ex st' xs' yss hs (rs @ ls)" using owns_get [OF o assms(2,3)] by auto
    then show ?thesis using c by (auto simp: Inl intro: heldI)
  next
    case (Inr h)
    then obtain ex' xs' ys where n: "owns ex' st' xs' (ys # yss) (h # hs) (rs @ ls)" "1 \<le> n \<longrightarrow> ex' = ex"
      using owns_get [OF o assms(2,3)] by auto
    have "c \<longrightarrow> ex' = 0 \<and> ls = []" using c n(2) assms(4) Inr by auto
    from heldI [OF n(1) this] show ?thesis by (simp add: Inr)
  qed
qed

lemma held_one:
  assumes "held c (st, hs, rs)" "env_ok e" "get_free_entries e 1 st = Some (Inr r, st')"
  shows "held c (st', hs, r # rs)"
proof -
  obtain ex xs yss ls where o: "owns ex st xs yss hs (rs @ ls)" and c: "c \<longrightarrow> ex = 0 \<and> ls = []"
    using assms(1) by (rule heldE)
  obtain xs' where "owns ex st' xs' yss hs (r # rs @ ls)" using owns_get_one [OF o assms(2,3)] by blast
  then show ?thesis using c by (intro heldI [of ex st' xs' yss hs "r # rs" ls]) simp_all
qed

lemma held_same: "held c (st, hs, rs) \<Longrightarrow> (\<And>ex xs yss ls. owns ex st xs yss hs (rs @ ls) \<Longrightarrow> owns ex st' xs yss hs (rs @ ls)) \<Longrightarrow>
  held c (st', hs, rs)"
  by (elim heldE, rule heldI) blast+

lemma held_put_free:
  assumes "held c (st, hs, ps @ r # qs)" "put_free_entry r st = Some st'"
  shows "held c (st', hs, ps @ qs)"
proof -
  obtain ex xs yss ls where o: "owns ex st xs yss hs ((ps @ r # qs) @ ls)" and c: "c \<longrightarrow> ex = 0 \<and> ls = []"
    using assms(1) by (rule heldE)
  have "owns ex st xs yss hs (ps @ r # (qs @ ls))" using o by simp
  from owns_put_free [OF this assms(2)] have "owns ex st' (r # xs) yss hs ((ps @ qs) @ ls)" by simp
  then show ?thesis using c by (rule heldI)
qed

lemma held_step: "gstep c w w' \<Longrightarrow> held c w \<Longrightarrow> held c w'"
proof (induction rule: gstep.induct)
  case (g_alloc e n st h st' hs rs)
  then show ?case using held_alloc [of c st hs rs e n "Inr h" st'] by (simp add: alloc_grant_references_def)
next
  case (g_no_alloc e n st x st' hs rs)
  then show ?case using held_alloc [of c st hs rs e n "Inl x" st'] by (simp add: alloc_grant_references_def)
next
  case (g_free_list h st st' as bs rs)
  from \<open>held c (st, as @ h # bs, rs)\<close> show ?case
    by (rule held_pick) (use g_free_list owns_free in \<open>fastforce intro: heldI\<close>)
next
  case (g_claim h st r h' as bs rs)
  from \<open>held c (st, as @ h # bs, rs)\<close> show ?case
  proof (rule held_pick)
    fix ex xs ya ys yb ls
    assume o: "owns ex st xs (ya @ ys # yb) (as @ h # bs) (rs @ ls)" "length as = length ya" and c: "c \<longrightarrow> ex = 0 \<and> ls = []"
    obtain ys' where "owns ex st xs (ya @ ys' # yb) (as @ h' # bs) ((r # rs) @ ls)"
      using owns_claim [OF o g_claim(2,1)] by auto
    then show "held c (st, as @ h' # bs, r # rs)" using c by (rule heldI)
  qed
next
  case (g_release h r st h' st' as bs ps qs)
  from \<open>held c (st, as @ h # bs, ps @ r # qs)\<close> show ?case
  proof (rule held_pick)
    fix ex xs ya ys yb ls
    assume o: "owns ex st xs (ya @ ys # yb) (as @ h # bs) ((ps @ r # qs) @ ls)" "length as = length ya"
      and c: "c \<longrightarrow> ex = 0 \<and> ls = []"
    have "owns ex st xs (ya @ ys # yb) (as @ h # bs) (ps @ r # (qs @ ls))" using o(1) by simp
    from owns_release [OF this o(2) g_release(1)]
    have "owns ex st' xs (ya @ (r # ys) # yb) (as @ h' # bs) ((ps @ qs) @ ls)" by simp
    then show "held c (st', as @ h' # bs, ps @ qs)" using c by (rule heldI)
  qed
next
  case (g_free r st st' hs ps qs)
  then show ?case using held_put_free by (simp add: free_grant_reference_def)
next
  case (g_access e d f ro st r st' hs rs)
  then obtain s where s: "get_free_entries e 1 st = Some (Inr r, s)" "st' = grant_foreign_access_ref r d f ro s"
    by (auto simp: grant_foreign_access_def elim!: bind_SomeE split: sum.splits)
  show ?case using held_one [OF g_access(3,1) s(1)] unfolding s(2) grant_foreign_access_ref_def
    by (rule held_same) (rule owns_grant_ref)
next
  case (g_transfer e d f st r st' hs rs)
  then obtain s where s: "get_free_entries e 1 st = Some (Inr r, s)" "st' = grant_foreign_transfer_ref r d f s"
    by (auto simp: grant_foreign_transfer_def elim!: bind_SomeE split: sum.splits)
  show ?case using held_one [OF g_transfer(3,1) s(1)] unfolding s(2) grant_foreign_transfer_ref_def
    by (rule held_same) (rule owns_grant_ref)
next
  case (g_no_access e d f ro st x st' hs rs)
  then have "get_free_entries e 1 st = Some (Inl x, st')"
    by (auto simp: grant_foreign_access_def elim!: bind_SomeE split: sum.splits)
  from held_alloc [OF g_no_access(3,1) this] show ?case by simp
next
  case (g_no_transfer e d f st x st' hs rs)
  then have "get_free_entries e 1 st = Some (Inl x, st')"
    by (auto simp: grant_foreign_transfer_def elim!: bind_SomeE split: sum.splits)
  from held_alloc [OF g_no_transfer(3,1) this] show ?case by simp
next
  case (g_grant_ref st hs rs r d f ro)
  then show ?case unfolding grant_foreign_access_ref_def by (rule held_same) (rule owns_grant_ref)
next
  case (g_grant_transfer_ref st hs rs r d f)
  then show ?case unfolding grant_foreign_transfer_ref_def by (rule held_same) (rule owns_grant_ref)
next
  case (g_end_access hv r st st' hs ps qs)
  then obtain s where s: "end_foreign_access_ref hv r st = Some (True, s)" "put_free_entry r s = Some st'"
    by (auto simp: end_foreign_access_def elim!: bind_SomeE split: if_splits)
  show ?case by (rule held_put_free [OF held_same [OF g_end_access(2)] s(2)]) (use owns_end_access_ref s(1) in blast)
next
  case (g_in_use hv r st st' hs rs)
  then have "end_foreign_access_ref hv r st = Some (False, st')"
    by (auto simp: end_foreign_access_def elim!: bind_SomeE split: if_splits)
  then show ?case by (intro held_same [OF g_in_use(2)]) (use owns_end_access_ref in blast)
next
  case (g_end_access_ref hv r st b st' hs rs)
  then show ?case by (intro held_same [OF g_end_access_ref(2)]) (use owns_end_access_ref in blast)
next
  case (g_end_transfer hv f r st v st' hs ps qs)
  then obtain s where s: "end_foreign_transfer_ref hv f r st = Some (v, s)" "put_free_entry r s = Some st'"
    by (auto simp: end_foreign_transfer_def elim!: bind_SomeE)
  show ?case by (rule held_put_free [OF held_same [OF g_end_transfer(2)] s(2)]) (rule owns_end_transfer_ref [OF _ s(1)])
next
  case (g_end_transfer_ref hv f r st v st' hs rs)
  then show ?case by (intro held_same [OF g_end_transfer_ref(2)]) (rule owns_end_transfer_ref)
next
  case (g_end_refs refs rs hv st st' hs)
  obtain ex xs yss ls where o: "owns ex st xs yss hs (rs @ ls)" and c: "c \<longrightarrow> ex = 0 \<and> ls = []"
    using g_end_refs(5) by (rule heldE)
  have "set refs \<subseteq> set (rs @ ls)" using g_end_refs(2) by auto
  then obtain ex' xs' ls' where n: "owns ex' st' xs' yss hs (filter (\<lambda>r. r \<notin> set refs) (rs @ ls) @ ls')"
      "all_ended hv refs st \<Longrightarrow> ex' = ex \<and> ls' = []"
    using owns_end_refs [OF o g_end_refs(1) _ g_end_refs(4)] by metis
  then show ?case using c g_end_refs(3)
    by (intro heldI [of ex' st' xs' yss hs "filter (\<lambda>r. r \<notin> set refs) rs" "filter (\<lambda>r. r \<notin> set refs) ls @ ls'"]) auto
next
  case (g_request cb k st st' hs rs)
  then show ?case by (intro held_same [OF g_request(2)]) (use request_same owns_lists_same in blast)
next
  case (g_cancel cb st st' hs rs)
  then show ?case
    by (intro held_same [OF g_cancel(2)]) (use cancel_loop_same owns_lists_same in \<open>unfold cancel_free_callback_def, blast\<close>)
qed

lemma held_steps: "(gstep c)\<^sup>*\<^sup>* w w' \<Longrightarrow> held c w \<Longrightarrow> held c w'"
  by (induction rule: rtranclp_induct) (auto intro: held_step)

lemma init_held:
  assumes e: "env_ok e" "hyp_max_frames (query_size e) \<le> 2 ^ 22"
    and i: "gnttab_init e on_xen list_ok area st0 = Some (None, st)"
  shows "owns 0 st [NR_RESERVED..<PER_FRAME] [] [] []"
proof -
  let ?s1 = "st0\<lparr>nr_frames := 1, boot_max := hyp_max_frames (query_size e),
                 list_slots := hyp_max_frames (query_size e) * PER_FRAME div RPP, pages := (\<lambda>_. None)\<rparr>"
  let ?n = "PER_FRAME - 1 - NR_RESERVED"
  have ar: "NR_RESERVED + ?n = PER_FRAME - 1" "PER_FRAME * 1 = Suc (PER_FRAME - 1)" "PER_FRAME - 1 < LIST_END"
    by (simp_all add: NR_RESERVED_def PER_FRAME_def LIST_END_def)
  obtain s2 s3 s4 where s2: "alloc_pages (malloc_page e) 0 1 ?s1 = Some (True, s2)"
    and res: "gnttab_resume e area s2 = Some None"
    and s3: "link_entries NR_RESERVED ?n s2 = Some s3"
    and s4: "put_entry (PER_FRAME - 1) LIST_END s3 = Some s4"
    and st: "st = s4\<lparr>free_count := int (PER_FRAME - NR_RESERVED), free_head := NR_RESERVED\<rparr>"
    using i by (auto simp: gnttab_init_def Let_def elim!: bind_SomeE split: if_splits)
  have "\<exists>pg. malloc_page e 0 = Some pg \<and> s2 = ?s1\<lparr>pages := (pages ?s1)(0 \<mapsto> pg)\<rparr>"
    using s2 by (auto split: option.splits if_splits)
  moreover have sl2: "slots_ok s2"
    using slots_alloc [OF s2] e(2) by (simp add: slots_ok_def PER_FRAME_def RPP_def)
  ultimately have p2: "pages_ok 1 s2" and f2: "nr_frames s2 = 1" "boot_max s2 = hyp_max_frames (query_size e)"
    using e(1) by (auto simp: pages_ok_def env_ok_def)
  have b: "1 \<le> boot_max s2" using res f2 by (auto simp: gnttab_resume_def max_nr_grant_frames_def split: if_splits)
  note l3 = link_entries_get [OF s3]
  have f4: "nr_frames s4 = 1" "boot_max s4 = hyp_max_frames (query_size e)"
    using put_entry_shape [OF s4] l3 f2 by (metis gnttab.select_convs gnttab.surjective gnttab.update_convs(1))+
  have "pages_ok 1 s4" using pages_put_entry [OF link_entries_pages [OF s3 p2] s4] .
  moreover have "slots_ok st" using slots_put_entry [OF slots_link [OF s3 sl2] s4] by (simp add: st)
  ultimately have tab: "table_ok st" using f4 b f2 e(2) by (simp add: table_ok_def pages_ok_def st)
  have "entry st = entry s4" unfolding st by (rule entry_pages) simp
  then have ent: "entry st r = (if r = PER_FRAME - 1 then Some LIST_END
      else if NR_RESERVED \<le> r \<and> r < NR_RESERVED + ?n then Some (r + 1) else entry s2 r)" for r
    by (simp only: put_entry_get [OF s4] conjunct1 [OF l3] fun_upd_apply)
  have "chain LIST_END (entry st) NR_RESERVED [NR_RESERVED..<NR_RESERVED + ?n] (NR_RESERVED + ?n)"
    using ar by (intro chain_upt) (auto simp: ent)
  then have "chain LIST_END (entry st) NR_RESERVED [NR_RESERVED..<PER_FRAME - 1] (PER_FRAME - 1)"
    by (simp only: ar(1))
  then have "chain LIST_END (entry st) NR_RESERVED ([NR_RESERVED..<PER_FRAME - 1] @ [PER_FRAME - 1]) LIST_END"
    using ar(3) by (auto simp: ent)
  moreover have "[NR_RESERVED..<PER_FRAME - 1] @ [PER_FRAME - 1] = [NR_RESERVED..<PER_FRAME]"
    by (simp add: NR_RESERVED_def PER_FRAME_def upt_rec)
  ultimately have "chain LIST_END (entry st) NR_RESERVED [NR_RESERVED..<PER_FRAME] LIST_END" by (simp only:)
  then have "free_over 0 st [NR_RESERVED..<PER_FRAME]" by (simp add: free_over_def st)
  then show ?thesis using tab f4 by (simp add: owns_def st)
qed


lemma link_entries_defined:
  "(\<And>r. i \<le> r \<Longrightarrow> r < i + n \<Longrightarrow> entry st r \<noteq> None) \<Longrightarrow> \<exists>st'. link_entries i n st = Some st'"
proof (induction n arbitrary: i st)
  case (Suc n)
  have "entry st i \<noteq> None" using Suc.prems [of i] by simp
  then obtain s where s: "put_entry i (Suc i) st = Some s" using gt.put_some by blast
  have "entry s r \<noteq> None" if "Suc i \<le> r" "r < Suc i + n" for r
    using Suc.prems [of r] that by (simp add: put_entry_get [OF s])
  then show ?case using Suc.IH s by simp
qed simp

text \<open>With memory, a hypervisor that allows two frames, and the frame mapped, start-up succeeds.\<close>

lemma init_succeeds:
  assumes "env_ok e" "malloc_page e 0 \<noteq> None" "2 \<le> hyp_max_frames (query_size e)" "map_frame e 0"
  obtains st where "gnttab_init e True True True st0 = Some (None, st)" "cb_list st = cb_list st0"
    "list_slots st = boot_max st * PER_FRAME div RPP" "boot_max st = hyp_max_frames (query_size e)" "nr_frames st = 1"
proof -
  obtain pg where pg: "malloc_page e 0 = Some pg" "length pg = RPP" using assms by (auto simp: env_ok_def)
  let ?h = "hyp_max_frames (query_size e)"
  let ?s2 = "st0\<lparr>nr_frames := 1, boot_max := ?h, list_slots := ?h * PER_FRAME div RPP, pages := [0 \<mapsto> pg]\<rparr>"
  have sl: "0 < ?h * PER_FRAME div RPP" using assms(3) by (simp add: PER_FRAME_def RPP_def)
  have e: "entry ?s2 r \<noteq> None" if "r < PER_FRAME" for r
    using that pg by (simp add: entry_def PER_FRAME_def RPP_def)
  obtain s3 where s3: "link_entries NR_RESERVED (PER_FRAME - 1 - NR_RESERVED) ?s2 = Some s3"
    using link_entries_defined [of NR_RESERVED "PER_FRAME - 1 - NR_RESERVED" ?s2] e
    by (auto simp: PER_FRAME_def NR_RESERVED_def)
  have "entry s3 (PER_FRAME - 1) \<noteq> None" using link_entries_get [OF s3] e [of "PER_FRAME - 1"]
    by (simp add: PER_FRAME_def NR_RESERVED_def)
  then obtain s4 where s4: "put_entry (PER_FRAME - 1) LIST_END s3 = Some s4"
    using gt.put_some by blast
  have r: "gnttab_resume e True ?s2 = Some None" using assms(3,4) by (simp add: gnttab_resume_def max_nr_grant_frames_def gnttab_map_def)
  have sh: "s4 = ?s2\<lparr>pages := pages s4\<rparr>"
    using pages_trans [OF conjunct2 [OF link_entries_get [OF s3]] put_entry_shape [OF s4]] .
  show ?thesis
  proof (rule that)
    show "gnttab_init e True True True st0 = Some (None, s4\<lparr>free_count := int (PER_FRAME - NR_RESERVED), free_head := NR_RESERVED\<rparr>)"
      using pg sl r s3 s4 by (simp add: gnttab_init_def Let_def)
  qed (subst sh, simp)+
qed

lemma take_ok: "free_list st xs \<Longrightarrow> 1 \<le> n \<Longrightarrow> n \<le> length xs \<Longrightarrow> \<exists>st'. alloc_grant_references e n st = Some (Inr (free_head st), st')"
proof -
  assume f: "free_list st xs" and n: "1 \<le> n" "n \<le> length xs"
  obtain us u ws where x: "xs = us @ u # ws" "n = Suc (length us)" using split_list_at n by metis
  obtain st' where "take_entries (Suc (length us)) st = Some (free_head st, st')"
    by (rule take_entries_list [OF f [unfolded x]])
  then show ?thesis using f n x by (auto simp: alloc_grant_references_def get_free_entries_def free_list_def)
qed

definition demo_env :: xen_env where
  "demo_env = \<lparr>query_size = Some 32, map_frame = (\<lambda>_. True), malloc_page = (\<lambda>_. Some (replicate RPP 0))\<rparr>"

definition demo_table :: gnttab where
  "demo_table = \<lparr>pages = (\<lambda>_. None), list_slots = 0, nr_frames = 0, boot_max = 0, free_count = 0, free_head = 0,
     shared = (\<lambda>_. \<lparr>g_flags = 0, g_domid = 0, g_frame = 0\<rparr>), cbs = (\<lambda>_. None), cb_list = NULL, fired = []\<rparr>"

lemma demo_env_ok: "env_ok demo_env" "hyp_max_frames (query_size demo_env) \<le> 2 ^ 22"
  by (simp_all add: demo_env_def env_ok_def hyp_max_frames_def)

lemma demo_started:
  obtains st where "gnttab_init demo_env True True True demo_table = Some (None, st)" "cb_list st = NULL" "list_slots st = 16"
    "boot_max st = 32" "nr_frames st = 1"
  by (rule init_succeeds [of demo_env demo_table])
    (auto simp: demo_env_def env_ok_def hyp_max_frames_def demo_table_def PER_FRAME_def RPP_def)

lemma initial_free:
  assumes "owns 0 st xs [] [] []" "nr_frames st = 1" shows "length xs = 504"
proof -
  have "card (set xs) = length xs" "set xs = {8..<512}"
    using assms distinct_card [of xs] by (auto simp: owns_def NR_RESERVED_def PER_FRAME_def)
  then show ?thesis by simp
qed

lemma take_none: "free_list st (x # xs) \<Longrightarrow> \<exists>st'. alloc_grant_references e 0 st = Some (Inr (free_head st), st')"
proof -
  assume f: "free_list st (x # xs)"
  then obtain v where v: "entry st (free_head st) = Some v" by (auto simp: free_list_def)
  let ?s = "st\<lparr>free_count := free_count st, free_head := v\<rparr>"
  have "entry ?s = entry st" by (rule entry_pages) simp
  then obtain t where "put_entry (free_head st) LIST_END ?s = Some t" using gt.put_some [of ?s "free_head st"] v by auto
  then show ?thesis using f v by (auto simp: alloc_grant_references_def get_free_entries_def take_entries_def free_list_def)
qed


section \<open>Properties\<close>

text \<open>
  C21. Taking a list of references and giving it back whole restores the table exactly, when enough are free and no
  callback waits.
\<close>

theorem alloc_free_restores:
  assumes "free_list st xs" "1 \<le> n" "n \<le> length xs" "cb_list st = NULL"
  shows "do { (r, st1) \<leftarrow> alloc_grant_references e n st;
             case r of Inr h \<Rightarrow> free_grant_references h st1 | Inl x \<Rightarrow> None } = Some st"
proof -
  obtain us u ws where x: "xs = us @ u # ws" "n = Suc (length us)" using split_list_at assms by metis
  obtain s where s: "take_entries (Suc (length us)) st = Some (free_head st, s)"
    and p: "put_entry u LIST_END (st\<lparr>free_count := int (length ws), free_head := free_head s\<rparr>) = Some s"
    and u: "entry st u = Some (free_head s)" and y: "private_list s (free_head st) (us @ [u])"
    by (rule take_entries_list [OF assms(1) [unfolded x]])
  have "free_head st \<noteq> LIST_END" using assms(1) x by (cases us) (auto simp: free_list_def)
  moreover have "entry (st\<lparr>free_count := int (length ws), free_head := free_head s\<rparr>) = entry st" by (rule entry_pages) simp
  then have "entry (st\<lparr>free_count := int (length ws), free_head := free_head s\<rparr>) u = Some (free_head s)" using u by simp
  then have "put_entry u (free_head s) s = Some (st\<lparr>free_count := int (length ws), free_head := free_head s\<rparr>)"
    by (rule gt.put_back [OF p])
  moreover have "free_count st = int (length ws) + (1 + int (length us))" using assms(1) x by (simp add: free_list_def)
  ultimately show ?thesis
    using s list_end_chain [OF y [unfolded private_list_def], of 1] assms(1,4) x
    by (simp add: alloc_grant_references_def get_free_entries_def free_grant_references_def free_list_def
          check_free_callbacks_def)
qed

theorem alloc_free_restores_witness:
  "\<exists>st. do { (r, st1) \<leftarrow> alloc_grant_references demo_env 3 st;
             case r of Inr h \<Rightarrow> free_grant_references h st1 | Inl x \<Rightarrow> None } = Some st"
proof -
  obtain st1 where i: "gnttab_init demo_env True True True demo_table = Some (None, st1)" "cb_list st1 = NULL" "nr_frames st1 = 1"
    by (rule demo_started)
  obtain xs where o: "owns 0 st1 xs [] [] []" using init_held [OF demo_env_ok i(1)] by blast
  then show ?thesis using alloc_free_restores [of st1 xs 3 demo_env] initial_free [OF o i(3)] i(2)
    by (auto simp: owns_def free_over_0)
qed

text \<open>The callbacks: the links, and what a pass over the list does.\<close>

definition cb_links :: "gnttab \<Rightarrow> ptr \<Rightarrow> ptr option" where
  "cb_links st c = map_option cb_next (cbs st c)"

definition cb_wants :: "gnttab \<Rightarrow> ptr \<Rightarrow> int" where
  "cb_wants st c = (case cbs st c of Some cb \<Rightarrow> cb_count cb | None \<Rightarrow> 0)"

lemma callbacks_loop_list:
  "chain NULL (cb_links st) c cs NULL \<Longrightarrow> chain NULL (cb_links st) (cb_list st) acc NULL \<Longrightarrow> set cs \<inter> set acc = {} \<Longrightarrow>
   \<exists>st'. callbacks_loop c st = Some st' \<and> fired st' = fired st @ filter (\<lambda>c. cb_wants st c \<le> free_count st) cs \<and>
     chain NULL (cb_links st') (cb_list st') (rev (filter (\<lambda>c. free_count st < cb_wants st c) cs) @ acc) NULL"
proof (induction cs arbitrary: c st acc)
  case Nil
  then show ?case by (subst callbacks_loop.simps) simp
next
  case (Cons x cs)
  then obtain n where n: "cb_links st x = Some n" "c = x" "x \<noteq> NULL" "chain NULL (cb_links st) n cs NULL" by auto
  then obtain cb where cb: "cbs st x = Some cb" "c = x" "x \<noteq> NULL" and t: "chain NULL (cb_links st) (cb_next cb) cs NULL"
    by (auto simp: cb_links_def [of st x])
  have x: "x \<notin> set cs" "x \<notin> set acc" using chain_distinct [OF Cons.prems(1)] Cons.prems(3) by auto
  show ?case
  proof (cases "cb_wants st x \<le> free_count st")
    case True
    let ?s = "st\<lparr>cbs := (cbs st)(x \<mapsto> cb\<lparr>cb_next := NULL\<rparr>), fired := fired st @ [x]\<rparr>"
    have l: "cb_links ?s = (cb_links st)(x \<mapsto> NULL)" and w: "cb_wants ?s = cb_wants st"
      using cb(1) by (auto simp: cb_links_def cb_wants_def fun_eq_iff)
    have "callbacks_loop c st = callbacks_loop (cb_next cb) ?s"
      using cb True by (subst callbacks_loop.simps) (simp add: cb_wants_def)
    moreover have "chain NULL (cb_links ?s) (cb_next cb) cs NULL" "chain NULL (cb_links ?s) (cb_list ?s) acc NULL"
      using t Cons.prems(2) unfolding l chain_upd [OF x(1)] chain_upd [OF x(2)] by simp_all
    ultimately show ?thesis using Cons.IH [of ?s "cb_next cb" acc] Cons.prems(3) True by (simp add: w)
  next
    case False
    let ?s = "st\<lparr>cbs := (cbs st)(x \<mapsto> cb\<lparr>cb_next := cb_list st\<rparr>), cb_list := x\<rparr>"
    have l: "cb_links ?s = (cb_links st)(x \<mapsto> cb_list st)" and w: "cb_wants ?s = cb_wants st"
      using cb(1) by (auto simp: cb_links_def cb_wants_def fun_eq_iff)
    have "callbacks_loop c st = callbacks_loop (cb_next cb) ?s"
      using cb False by (subst callbacks_loop.simps) (simp add: cb_wants_def)
    moreover have "chain NULL (cb_links ?s) (cb_next cb) cs NULL" "chain NULL (cb_links ?s) (cb_list ?s) (x # acc) NULL"
      using t Cons.prems(2) cb(3) unfolding l chain.simps chain_upd [OF x(1)] chain_upd [OF x(2)] by simp_all
    ultimately show ?thesis using Cons.IH [of ?s "cb_next cb" "x # acc"] Cons.prems(3) x False by (simp add: w)
  qed
qed

text \<open>
  A pass over the waiting callbacks calls those that want no more references than are free, in the order of the
  list, and keeps the others, reversed.
\<close>

theorem callbacks_fire:
  assumes "chain NULL (cb_links st) (cb_list st) cs NULL"
  shows "\<exists>st'. do_free_callbacks st = Some st' \<and>
     fired st' = fired st @ filter (\<lambda>c. cb_wants st c \<le> free_count st) cs \<and>
     chain NULL (cb_links st') (cb_list st') (rev (filter (\<lambda>c. free_count st < cb_wants st c) cs)) NULL"
proof -
  let ?s = "st\<lparr>cb_list := NULL\<rparr>"
  have l: "cb_links ?s = cb_links st" "cb_wants ?s = cb_wants st" by (auto simp: cb_links_def cb_wants_def fun_eq_iff)
  show ?thesis using callbacks_loop_list [of ?s "cb_list st" cs "[]"] assms by (simp add: l do_free_callbacks_def)
qed

definition two_waiting :: gnttab where
  "two_waiting = demo_table\<lparr>free_count := 5, cb_list := 16,
     cbs := [16 \<mapsto> \<lparr>cb_next = 32, cb_count = 4\<rparr>, 32 \<mapsto> \<lparr>cb_next = NULL, cb_count = 9\<rparr>]\<rparr>"

theorem callbacks_fire_witness:
  "\<exists>st'. do_free_callbacks two_waiting = Some st' \<and> fired st' = [16] \<and> chain NULL (cb_links st') (cb_list st') [32] NULL"
  using callbacks_fire [of two_waiting "[16, 32]"]
  by (simp add: two_waiting_def cb_links_def cb_wants_def demo_table_def NULL_def)

text \<open>
  A callback that waits alone is requested again: its own link is not set, so it is put on the list twice, with
  a link to itself, and a search of the list for another callback does not end.
\<close>

lemma cancel_loop_circle: "cancel_loop d q p st = Some st' \<Longrightarrow> p = c \<Longrightarrow> cb_links st c = Some c \<Longrightarrow> c \<noteq> NULL \<Longrightarrow> c \<noteq> d \<Longrightarrow> False"
proof (induction arbitrary: c rule: cancel_loop.raw_induct [rotated, consumes 1])
  case (1 loop d q p st st')
  then obtain cb where "cbs st c = Some cb" "cb_next cb = c" by (auto simp: cb_links_def)
  then have "loop d c c st = Some st'" using 1(2-) by simp
  then show ?case by (rule 1(1)) (use 1(4-) in simp_all)
qed

theorem double_request_hangs_cancel:
  assumes "cbs st c = Some \<lparr>cb_next = NULL, cb_count = n\<rparr>" "cb_list st = c" "c \<noteq> NULL" "free_count st < n" "d \<noteq> c"
  shows "do { st1 \<leftarrow> request_free_callback c n st; cancel_free_callback d st1 } = None"
proof -
  let ?s = "st\<lparr>cbs := (cbs st)(c \<mapsto> \<lparr>cb_next = c, cb_count = n\<rparr>)\<rparr>"
  have "callbacks_loop c (?s\<lparr>cb_list := NULL\<rparr>) = Some ?s"
    using assms by (simp add: callbacks_loop.simps)
  then have "request_free_callback c n st = Some ?s"
    using assms by (simp add: request_free_callback_def check_free_callbacks_def do_free_callbacks_def)
  moreover have "cancel_loop d NULL c ?s = None"
    using cancel_loop_circle [of d NULL c ?s _ c] assms by (cases "cancel_loop d NULL c ?s") (auto simp: cb_links_def)
  ultimately show ?thesis using assms(2) by (simp add: cancel_free_callback_def)
qed

theorem double_request_hangs_cancel_witness:
  "do { st1 \<leftarrow> request_free_callback 16 9 (demo_table\<lparr>cb_list := 16, cbs := [16 \<mapsto> \<lparr>cb_next = NULL, cb_count = 9\<rparr>]\<rparr>);
        cancel_free_callback 32 st1 } = None"
  by (rule double_request_hangs_cancel) (auto simp: demo_table_def NULL_def)

text \<open>While the hypervisor leaves the flags alone, ending an access succeeds exactly when no one reads or writes.\<close>

lemma end_access_quiet:
  "end_foreign_access_ref (\<lambda>_ f. f) r st =
     (if query_foreign_access r st = 0 then Some (True, upd_shared r (\<lambda>g. g\<lparr>g_flags := 0\<rparr>) st) else Some (False, st))"
  by (subst end_foreign_access_ref_def, subst end_access_loop.simps)
    (simp add: query_foreign_access_def upd_shared_def)

text \<open>Ending a list of accesses of which none is in use: the references form a chain, the last one first.\<close>

lemma end_refs_loop_all:
  "distinct rs \<Longrightarrow> (\<And>r. r \<in> set rs \<Longrightarrow> entry st r \<noteq> None \<and> r \<noteq> LIST_END \<and> query_foreign_access r st = 0 \<and> hv r = (\<lambda>_ f. f)) \<Longrightarrow>
   chain LIST_END (entry st) h acc LIST_END \<Longrightarrow> set rs \<inter> set acc = {} \<Longrightarrow> set ys \<inter> set rs = {} \<Longrightarrow>
   \<exists>st'. end_refs_loop hv rs h c st = Some (if rs = [] then h else last rs, c, st') \<and>
     chain LIST_END (entry st') (if rs = [] then h else last rs) (rev rs @ acc) LIST_END \<and>
     free_head st' = free_head st \<and> free_count st' = free_count st \<and> (\<forall>y \<in> set ys. entry st' y = entry st y)"
proof (induction rs arbitrary: h acc st)
  case (Cons r rs)
  let ?s = "upd_shared r (\<lambda>g. g\<lparr>g_flags := 0\<rparr>) st"
  have e: "end_foreign_access_ref (hv r) r st = Some (True, ?s)" using Cons.prems(2) [of r] by (simp add: end_access_quiet)
  obtain s where s: "put_entry r h ?s = Some s"
    using gt.put_some [of ?s r h] Cons.prems(2) [of r] by (auto simp: entry_upd_shared)
  have es: "entry s = (entry st)(r \<mapsto> h)" using put_entry_get [OF s] by (simp add: entry_upd_shared)
  have q: "query_foreign_access x s = query_foreign_access x st" if "x \<noteq> r" for x
    using that by (subst put_entry_shape [OF s]) (simp add: query_foreign_access_def upd_shared_def)
  have fs: "free_head s = free_head st" "free_count s = free_count st"
    by (subst put_entry_shape [OF s], simp add: upd_shared_def)+
  have c: "chain LIST_END (entry s) r (r # acc) LIST_END"
    by (rule gt.push [OF _ s]) (use Cons.prems in \<open>auto simp: entry_upd_shared\<close>)
  have "\<exists>st'. end_refs_loop hv rs r c s = Some (if rs = [] then r else last rs, c, st') \<and>
     chain LIST_END (entry st') (if rs = [] then r else last rs) (rev rs @ r # acc) LIST_END \<and>
     free_head st' = free_head s \<and> free_count st' = free_count s \<and> (\<forall>y \<in> set ys. entry st' y = entry s y)"
  proof (rule Cons.IH [OF _ _ c])
    show "entry s x \<noteq> None \<and> x \<noteq> LIST_END \<and> query_foreign_access x s = 0 \<and> hv x = (\<lambda>_ f. f)" if "x \<in> set rs" for x
      using Cons.prems(1) Cons.prems(2) [of x] that q [of x] by (auto simp: es)
  qed (use Cons.prems in auto)
  then show ?case using e s fs Cons.prems(5) by (auto simp: es)
qed auto

text \<open>
  When none of the references is in use, all of them come to the front of the free list, the last one first, and
  are counted.
\<close>

theorem end_references_frees_all:
  assumes "free_list st xs" "rs \<noteq> []" "distinct rs" "set rs \<inter> set xs = {}"
    and "\<And>r. r \<in> set rs \<Longrightarrow> entry st r \<noteq> None \<and> r \<noteq> LIST_END \<and> query_foreign_access r st = 0 \<and> hv r = (\<lambda>_ f. f)"
  shows "\<exists>st'. end_foreign_access_references hv rs st = Some st' \<and> free_list st' (rev rs @ xs)"
proof -
  obtain s where s: "end_refs_loop hv rs LIST_END (int (length rs)) st = Some (last rs, int (length rs), s)"
    "chain LIST_END (entry s) (last rs) (rev rs) LIST_END" "free_head s = free_head st" "free_count s = free_count st"
    "\<forall>y \<in> set xs. entry s y = entry st y"
    using end_refs_loop_all [OF assms(3,5), of LIST_END "[]" xs "int (length rs)"] assms(2,4) by auto
  obtain r ws where rs: "rs = r # ws" using assms(2) by (cases rs) auto
  let ?s = "s\<lparr>free_count := free_count s + int (length rs)\<rparr>"
  have e: "entry ?s = entry s" by (rule entry_pages) simp
  have h: "chain LIST_END (entry ?s) (last rs) (rev ws @ [r]) LIST_END"
    using s(2) unfolding e by (simp add: rs)
  then have "entry ?s r \<noteq> None" by auto
  then obtain t where t: "put_entry r (free_head s) ?s = Some t" using gt.put_some by blast
  have "chain LIST_END (entry s) (free_head s) xs LIST_END"
    using assms(1) s(3,5) chain_cong [of xs "entry s" "entry st"] by (simp add: free_list_def)
  then have c: "chain LIST_END (entry t) (last rs) (rev ws @ r # xs) LIST_END"
    by (intro gt.splice [OF h _ t]) (use e assms(4) rs in auto)
  let ?t = "t\<lparr>free_head := last rs\<rparr>"
  have "entry ?t = entry t" by (rule entry_pages) simp
  moreover have "free_count t = int (length xs) + int (length rs)"
    using s(4) assms(1) by (subst put_entry_shape [OF t]) (simp add: free_list_def)
  ultimately have "free_list ?t (rev rs @ xs)" using c rs by (simp add: free_list_def)
  moreover have "end_foreign_access_references hv rs st = Some ?t"
    using s(1) t rs assms(2) by (simp add: end_foreign_access_references_def)
  ultimately show ?thesis by blast
qed

text \<open>A table whose page 0 links \<open>8\<close> to \<open>9\<close>, for concrete instances.\<close>

definition small_table :: gnttab where
  "small_table = demo_table\<lparr>pages := [0 \<mapsto> (replicate 16 LIST_END)[8 := 9]], nr_frames := 1, boot_max := 32,
     list_slots := 16, free_count := 2, free_head := 8\<rparr>"

lemma small_entry: "r < 16 \<Longrightarrow> entry small_table r = Some (if r = 8 then 9 else LIST_END)"
  by (simp add: small_table_def entry_def RPP_def nth_list_update)

lemma small_free: "free_list small_table [8, 9]"
  by (simp add: free_list_def small_entry LIST_END_def) (simp add: small_table_def)

theorem end_references_frees_all_witness:
  "\<exists>st'. end_foreign_access_references (\<lambda>_ _ f. f) [10, 11] small_table = Some st' \<and> free_list st' [11, 10, 8, 9]"
proof -
  have "\<exists>st'. end_foreign_access_references (\<lambda>_ _ f. f) [10, 11] small_table = Some st' \<and> free_list st' (rev [10, 11] @ [8, 9])"
    by (rule end_references_frees_all [OF small_free])
      (auto simp: small_entry query_foreign_access_def, auto simp: small_table_def demo_table_def LIST_END_def)
  then show ?thesis by simp
qed

text \<open>
  When the first reference of the list is still in use, its entry, not that of the last one freed, is linked
  to the old free list: the new free list ends after the references freed, the old one is lost, yet counted.
\<close>

theorem end_references_loses_list:
  assumes "free_list st xs" "r \<noteq> s" "entry st r \<noteq> None" "entry st s \<noteq> None" "s \<noteq> LIST_END"
    and "query_foreign_access r st \<noteq> 0" "query_foreign_access s st = 0"
  shows "\<exists>st'. end_foreign_access_references (\<lambda>_ _ f. f) [r, s] st = Some st' \<and>
     chain LIST_END (entry st') (free_head st') [s] LIST_END \<and> free_count st' = int (length xs) + 1"
proof -
  let ?s = "upd_shared s (\<lambda>g. g\<lparr>g_flags := 0\<rparr>) st"
  obtain t where t: "put_entry s LIST_END ?s = Some t" using gt.put_some [of ?s s] assms(4) by (auto simp: entry_upd_shared)
  have et: "entry t = (entry st)(s \<mapsto> LIST_END)" using put_entry_get [OF t] by (simp add: entry_upd_shared)
  let ?t = "t\<lparr>free_count := free_count t + 1\<rparr>"
  have e: "entry ?t = entry t" by (rule entry_pages) simp
  obtain u where u: "put_entry r (free_head t) ?t = Some u"
    using gt.put_some [of ?t r] assms(2,3) by (auto simp: e et)
  have eu: "entry (u\<lparr>free_head := s\<rparr>) = entry u" by (rule entry_pages) simp
  have "free_count u = int (length xs) + 1"
    using assms(1) by (subst put_entry_shape [OF u], simp, subst put_entry_shape [OF t]) (simp add: free_list_def upd_shared_def)
  moreover have "end_foreign_access_references (\<lambda>_ _ f. f) [r, s] st = Some (u\<lparr>free_head := s\<rparr>)"
    using assms(6,7) t u by (simp add: end_foreign_access_references_def end_access_quiet)
  ultimately show ?thesis using assms(2,5) put_entry_get [OF u] by (simp add: eu e et)
qed

theorem end_references_loses_list_witness:
  "\<exists>st'. end_foreign_access_references (\<lambda>_ _ f. f) [10, 11] (upd_shared 10 (\<lambda>g. g\<lparr>g_flags := GTF_reading\<rparr>) small_table) = Some st' \<and>
     chain LIST_END (entry st') (free_head st') [11] LIST_END \<and> free_count st' = 3"
proof -
  let ?t = "upd_shared 10 (\<lambda>g. g\<lparr>g_flags := GTF_reading\<rparr>) small_table"
  have "free_list ?t [8, 9]" using small_free by (simp add: free_list_def entry_upd_shared) (simp add: upd_shared_def)
  then have "\<exists>st'. end_foreign_access_references (\<lambda>_ _ f. f) [10, 11] ?t = Some st' \<and>
     chain LIST_END (entry st') (free_head st') [11] LIST_END \<and> free_count st' = int (length [8, 9::nat]) + 1"
    by (rule end_references_loses_list)
      (simp_all add: entry_upd_shared small_entry LIST_END_def query_foreign_access_def,
       simp_all add: upd_shared_def small_table_def demo_table_def GTF_reading_def GTF_writing_def)
  then show ?thesis by simp
qed

text \<open>
  A reference that grants nothing (its flags are zero) is published last: in every state another domain can
  see, the flags are still zero or the frame and the domain are the new ones; no old frame is ever granted.
\<close>

theorem grant_published_last:
  assumes "g_flags (shared st ref) = 0" "st' \<in> set (grant_stores ref domid frame fl st)"
  shows "g_flags (shared st' ref) = 0 \<or> g_frame (shared st' ref) = ucast frame \<and> g_domid (shared st' ref) = domid"
  using assms by (auto simp: grant_stores_def Let_def upd_shared_def)

theorem grant_published_last_witness:
  "\<exists>st'. grant_stores 9 1 0x1234 (access_flags True) demo_table ! 2 = st' \<and>
     (g_flags (shared st' 9) = 0 \<or> g_frame (shared st' 9) = ucast (0x1234 :: u64) \<and> g_domid (shared st' 9) = 1)"
  using grant_published_last [of demo_table 9 _ 1 "0x1234" "access_flags True"]
  by (auto simp: demo_table_def grant_stores_def Let_def)

text \<open>
  \<open>gnttab_list\<close> has a pointer for every two frames, but growing stores one for every frame: a table that
  may still grow to its limit writes behind the block, here the fault None.
\<close>

lemma alloc_pages_overrun:
  "(\<And>k. alloc k \<noteq> None) \<Longrightarrow> i \<le> list_slots st \<Longrightarrow> list_slots st < i + n \<Longrightarrow> alloc_pages alloc i n st = None"
proof (induction n arbitrary: i st)
  case (Suc n)
  obtain pg where "alloc i = Some pg" using Suc.prems(1) by auto
  then show ?case using Suc.prems Suc.IH [where st = "st\<lparr>pages := (pages st)(i \<mapsto> pg)\<rparr>" and i = "Suc i"] by simp
qed simp

theorem growing_overruns_list:
  assumes "list_slots st = boot_max st * PER_FRAME div RPP" "nr_frames st \<le> list_slots st"
    and "\<And>k. malloc_page e k \<noteq> None" "\<And>k. map_frame e k" "boot_max st \<le> hyp_max_frames (query_size e)"
    and "(boot_max st * PER_FRAME div RPP - nr_frames st) * PER_FRAME < req" "req \<le> (boot_max st - nr_frames st) * PER_FRAME"
  shows "gnttab_expand e req st = None"
proof -
  let ?x = "(req + (PER_FRAME - 1)) div PER_FRAME"
  have x: "list_slots st < nr_frames st + ?x" "nr_frames st + ?x \<le> boot_max st"
    using assms(1,2,6,7) by (simp_all add: PER_FRAME_def RPP_def)
  have m: "max_nr_grant_frames (query_size e) st = boot_max st" using assms(5) by (simp add: max_nr_grant_frames_def)
  have "gnttab_map e (nr_frames st) (nr_frames st + ?x - 1) = Some ()" using assms(4) by (simp add: gnttab_map_def list_all_iff)
  then show ?thesis using x m alloc_pages_overrun [of "malloc_page e" "nr_frames st" st ?x] assms(2,3)
    by (simp add: gnttab_expand_def grow_gnttab_list_def Let_def)
qed

theorem growing_overruns_list_witness:
  "\<exists>st. gnttab_init demo_env True True True demo_table = Some (None, st) \<and> gnttab_expand demo_env 8000 st = None"
proof -
  obtain st where s: "gnttab_init demo_env True True True demo_table = Some (None, st)" "list_slots st = 16"
    "boot_max st = 32" "nr_frames st = 1" by (rule demo_started)
  then have "gnttab_expand demo_env 8000 st = None"
    by (intro growing_overruns_list) (simp_all add: demo_env_def hyp_max_frames_def PER_FRAME_def RPP_def)
  then show ?thesis using s(1) by blast
qed

end
