(* ===== verification/XenEvtchn.thy ===== *)
theory XenEvtchn
  imports Prelude
begin

text \<open>
  The event channel driver (xen/evtchn.cc): which interrupt number an event channel is bound to, the packed
  description of each interrupt, the reference counts, the delivery of pending channels, and masking. The
  build of the kernel leaves the driver out; it is modelled as it stands, for more than one processor
  (\<open>SMP\<close>). Each operation runs under \<open>irq_mapping_update_lock\<close> and is one step. The hypercalls and the
  interrupt layer of the system (\<open>intr_add_handler\<close>, \<open>intr_execute_handlers\<close>) are parameters. None is a panic,
  a failed assertion, or a read or write outside an array.
\<close>

section \<open>State\<close>

text \<open>An \<open>unsigned long\<close> has 64 bits; the bit arrays of the shared page have one bit for each channel.\<close>

definition NR_EVENT_CHANNELS :: nat where "NR_EVENT_CHANNELS = 4096"
definition LONG_BIT :: nat where "LONG_BIT = 64"
definition NR_VIRQS :: nat where "NR_VIRQS = 24"
definition MAX_VIRT_CPUS :: nat where "MAX_VIRT_CPUS = 32"
definition NR_PIRQS :: nat where "NR_PIRQS = 128"
definition DYNIRQ_BASE :: nat where "DYNIRQ_BASE = 128"
definition NR_DYNIRQS :: nat where "NR_DYNIRQS = 128"
definition NR_IRQS :: nat where "NR_IRQS = 256"

definition dynirq_to_irq :: "nat \<Rightarrow> nat" where "dynirq_to_irq i = i + DYNIRQ_BASE"

definition IRQT_UNBOUND :: u32 where "IRQT_UNBOUND = 0"
definition IRQT_PIRQ :: u32 where "IRQT_PIRQ = 1"
definition IRQT_VIRQ :: u32 where "IRQT_VIRQ = 2"
definition IRQT_IPI :: u32 where "IRQT_IPI = 3"
definition IRQT_LOCAL_PORT :: u32 where "IRQT_LOCAL_PORT = 4"
definition IRQT_CALLER_PORT :: u32 where "IRQT_CALLER_PORT = 5"

text \<open>What the driver tells the hypervisor or the interrupt layer, in order.\<close>

datatype xen_event =
    Close_port nat
  | Unmask_port nat
  | Send_port nat
  | Force_callback
  | Pirq_eoi nat
  | Run_handlers nat

text \<open>\<open>pc_virq_to_irq\<close> and \<open>pc_ipi_to_irq\<close> are kept for each processor; \<open>pin_masked\<close> and \<open>pin_vector\<close>
  are \<open>xp_masked\<close> and \<open>xp_vector\<close> of a pin.\<close>

record evt =
  evtchn_to_irq :: "nat \<Rightarrow> int"
  irq_info :: "nat \<Rightarrow> u32"
  irq_bindcount :: "nat \<Rightarrow> int"
  virq_to_irq :: "nat \<Rightarrow> nat \<Rightarrow> int"
  ipi_to_irq :: "nat \<Rightarrow> nat \<Rightarrow> int"
  cpu_evtchn :: "nat \<Rightarrow> nat"
  cpu_evtchn_mask :: "nat \<Rightarrow> nat \<Rightarrow> u64"
  evtchn_pending :: "nat \<Rightarrow> u64"
  evtchn_mask :: "nat \<Rightarrow> u64"
  pending_sel :: "nat \<Rightarrow> u64"
  upcall_pending :: "nat \<Rightarrow> bool"
  upcall_mask :: "nat \<Rightarrow> bool"
  pirq_needs_unmask_notify :: "nat \<Rightarrow> bool"
  pin_masked :: "nat \<Rightarrow> bool"
  pin_vector :: "nat \<Rightarrow> u8"
  irq_is_legacy :: bool
  hlog :: "xen_event list"

definition note_event :: "xen_event \<Rightarrow> evt \<Rightarrow> evt" where
  "note_event e st = st\<lparr>hlog := hlog st @ [e]\<rparr>"

text \<open>
  The hypercalls that return something: an error number and a port, a port, or the port of a physical interrupt.
  \<open>add_handler\<close> is whether \<open>intr_add_handler\<close> succeeds.
\<close>

record xen_calls =
  alloc_unbound :: "nat \<Rightarrow> int \<times> nat"
  bind_interdomain :: "nat \<Rightarrow> nat \<Rightarrow> int \<times> nat"
  bind_virq_port :: "nat \<Rightarrow> nat \<Rightarrow> nat"
  bind_ipi_port :: "nat \<Rightarrow> nat"
  bind_pirq_port :: "nat \<Rightarrow> nat option"
  pirq_status :: "nat \<Rightarrow> bool"
  add_handler :: "nat \<Rightarrow> bool"

section \<open>Packed interrupt information\<close>

definition IRQT_BITS :: nat where "IRQT_BITS = 4"
definition EVTCHN_BITS :: nat where "EVTCHN_BITS = 12"
definition INDEX_BITS :: nat where "INDEX_BITS = 32 - IRQT_BITS - EVTCHN_BITS"

definition mk_irq_info :: "u32 \<Rightarrow> u32 \<Rightarrow> u32 \<Rightarrow> u32" where
  "mk_irq_info ty ix chn = push_bit (32 - IRQT_BITS) ty OR push_bit EVTCHN_BITS ix OR chn"

definition IRQ_UNBOUND :: u32 where "IRQ_UNBOUND = mk_irq_info IRQT_UNBOUND 0 0"

definition info_evtchn :: "u32 \<Rightarrow> u32" where
  "info_evtchn w = w AND (push_bit EVTCHN_BITS 1 - 1)"

definition info_index :: "u32 \<Rightarrow> u32" where
  "info_index w = drop_bit EVTCHN_BITS w AND (push_bit INDEX_BITS 1 - 1)"

definition info_type :: "u32 \<Rightarrow> u32" where
  "info_type w = drop_bit (32 - IRQT_BITS) w"

definition evtchn_from_irq :: "evt \<Rightarrow> nat \<Rightarrow> nat" where
  "evtchn_from_irq st irq = unat (info_evtchn (irq_info st irq))"

definition index_from_irq :: "evt \<Rightarrow> nat \<Rightarrow> nat" where
  "index_from_irq st irq = unat (info_index (irq_info st irq))"

definition type_from_irq :: "evt \<Rightarrow> nat \<Rightarrow> u32" where
  "type_from_irq st irq = info_type (irq_info st irq)"

definition irq_to_evtchn_port :: "evt \<Rightarrow> nat \<Rightarrow> nat" where
  "irq_to_evtchn_port st irq = evtchn_from_irq st irq"

section \<open>Bit arrays\<close>

text \<open>
  \<open>synch_set_bit\<close> and its companions, of the system: they set, clear or test the bit of the array that a number
  names.
\<close>

definition set_nr :: "nat \<Rightarrow> (nat \<Rightarrow> u64) \<Rightarrow> nat \<Rightarrow> u64" where
  "set_nr n m = m(n div LONG_BIT := m (n div LONG_BIT) OR push_bit (n mod LONG_BIT) 1)"

definition clear_nr :: "nat \<Rightarrow> (nat \<Rightarrow> u64) \<Rightarrow> nat \<Rightarrow> u64" where
  "clear_nr n m = m(n div LONG_BIT := m (n div LONG_BIT) AND NOT (push_bit (n mod LONG_BIT) 1))"

definition test_nr :: "nat \<Rightarrow> (nat \<Rightarrow> u64) \<Rightarrow> bool" where
  "test_nr n m \<longleftrightarrow> bit (m (n div LONG_BIT)) (n mod LONG_BIT)"

definition bind_evtchn_to_cpu :: "nat \<Rightarrow> nat \<Rightarrow> evt \<Rightarrow> evt" where
  "bind_evtchn_to_cpu chn cpu st = (
     let m = cpu_evtchn_mask st;
         m = m(cpu_evtchn st chn := clear_nr chn (m (cpu_evtchn st chn)));
         m = m(cpu := set_nr chn (m cpu))
     in st\<lparr>cpu_evtchn_mask := m, cpu_evtchn := (cpu_evtchn st)(chn := cpu)\<rparr>)"

definition init_evtchn_cpu_bindings :: "evt \<Rightarrow> evt" where
  "init_evtchn_cpu_bindings st =
     st\<lparr>cpu_evtchn := (\<lambda>_. 0), cpu_evtchn_mask := (cpu_evtchn_mask st)(0 := (\<lambda>_. NOT 0))\<rparr>"

definition mask_evtchn :: "nat \<Rightarrow> evt \<Rightarrow> evt" where
  "mask_evtchn port st = st\<lparr>evtchn_mask := set_nr port (evtchn_mask st)\<rparr>"

definition test_and_set_evtchn_mask :: "nat \<Rightarrow> evt \<Rightarrow> bool \<times> evt" where
  "test_and_set_evtchn_mask port st = (test_nr port (evtchn_mask st), mask_evtchn port st)"

definition clear_evtchn :: "nat \<Rightarrow> evt \<Rightarrow> evt" where
  "clear_evtchn port st = st\<lparr>evtchn_pending := clear_nr port (evtchn_pending st)\<rparr>"

text \<open>
  \<open>cpu\<close> is the processor that runs. The hypercall for a channel of another processor clears the bit there.
\<close>

definition unmask_evtchn :: "nat \<Rightarrow> nat \<Rightarrow> evt \<Rightarrow> evt" where
  "unmask_evtchn cpu port st = (
     let st1 = st\<lparr>evtchn_mask := clear_nr port (evtchn_mask st)\<rparr>
     in if irq_is_legacy st \<or> cpu \<noteq> cpu_evtchn st port then note_event (Unmask_port port) st1
        else if test_nr port (evtchn_pending st1) \<and> \<not> bit (pending_sel st1 cpu) (port div LONG_BIT) then
          let st2 = st1\<lparr>pending_sel := (pending_sel st1)(cpu := pending_sel st1 cpu OR push_bit (port div LONG_BIT) 1),
                        upcall_pending := (upcall_pending st1)(cpu := True)\<rparr>
          in if upcall_mask st2 cpu then st2 else note_event Force_callback st2
        else st1)"

definition evtchn_irq_is_legacy :: "evt \<Rightarrow> evt" where
  "evtchn_irq_is_legacy st = st\<lparr>irq_is_legacy := True\<rparr>"

section \<open>Delivery\<close>

definition active_evtchns :: "nat \<Rightarrow> nat \<Rightarrow> evt \<Rightarrow> u64" where
  "active_evtchns cpu i st = evtchn_pending st i AND cpu_evtchn_mask st cpu i AND NOT (evtchn_mask st i)"

text \<open>The number of the lowest bit set.\<close>

definition ffs :: "u32 \<Rightarrow> nat" where
  "ffs w = length (takeWhile (\<lambda>i. \<not> bit w i) [0..<32])"

text \<open>
  \<open>l1\<close> and \<open>l2\<close> are declared \<open>unsigned int\<close>: they get the low half of a word. \<open>run\<close> is what the handlers of an
  interrupt do to the state, with all that happens meanwhile. \<open>evtchn_device_upcall\<close> does nothing.
\<close>

partial_function (option) channels_loop :: "(nat \<Rightarrow> evt \<Rightarrow> evt) \<Rightarrow> nat \<Rightarrow> nat \<Rightarrow> evt \<Rightarrow> evt option" where
  "channels_loop run cpu l1i st = (
     let l2 = ucast (active_evtchns cpu l1i st) :: u32
     in if l2 = 0 then Some st
        else (
          let port = l1i * LONG_BIT + ffs l2;
              irq = evtchn_to_irq st port
          in if irq \<noteq> - 1 then channels_loop run cpu l1i (run (nat irq) (clear_evtchn port (mask_evtchn port st)))
             else channels_loop run cpu l1i st))"

partial_function (option) words_loop :: "(nat \<Rightarrow> evt \<Rightarrow> evt) \<Rightarrow> nat \<Rightarrow> u32 \<Rightarrow> evt \<Rightarrow> evt option" where
  "words_loop run cpu l1 st =
     (if l1 = 0 then Some st
      else do {
        st \<leftarrow> channels_loop run cpu (ffs l1) st;
        words_loop run cpu (l1 AND NOT (push_bit (ffs l1) 1)) st
      })"

definition evtchn_do_upcall :: "(nat \<Rightarrow> evt \<Rightarrow> evt) \<Rightarrow> nat \<Rightarrow> evt \<Rightarrow> evt option" where
  "evtchn_do_upcall run cpu st = (
     let l1 = ucast (pending_sel st cpu) :: u32
     in words_loop run cpu l1 (st\<lparr>upcall_pending := (upcall_pending st)(cpu := False),
                                  pending_sel := (pending_sel st)(cpu := 0)\<rparr>))"

definition notify_remote_via_irq :: "nat \<Rightarrow> evt \<Rightarrow> evt option" where
  "notify_remote_via_irq irq st = (
     let chn = evtchn_from_irq st irq
     in if chn \<noteq> 0 then Some (note_event (Send_port chn) st) else None)"

definition ipi_pcpu :: "nat \<Rightarrow> nat \<Rightarrow> evt \<Rightarrow> evt option" where
  "ipi_pcpu cpu vector st =
     (if ipi_to_irq st cpu vector < 0 then None else notify_remote_via_irq (nat (ipi_to_irq st cpu vector)) st)"

section \<open>Binding\<close>

text \<open>The loop runs over all interrupt numbers and adds the base of the dynamic ones; it never finds an error.\<close>

primrec find_unbound_loop :: "evt \<Rightarrow> nat \<Rightarrow> nat \<Rightarrow> nat option" where
  "find_unbound_loop st i 0 = Some (dynirq_to_irq (i - 1))"
| "find_unbound_loop st i (Suc n) = (
     let irq = dynirq_to_irq i
     in if irq \<ge> NR_IRQS then None
        else if irq_bindcount st irq = 0 then Some irq
        else find_unbound_loop st (i + 1) n)"

definition find_unbound_irq :: "evt \<Rightarrow> nat option" where
  "find_unbound_irq st = do {
     irq \<leftarrow> find_unbound_loop st 0 NR_IRQS;
     if irq = NR_IRQS then None else Some irq
   }"

definition bind_port :: "u32 \<Rightarrow> nat \<Rightarrow> nat \<Rightarrow> nat \<Rightarrow> evt \<Rightarrow> evt" where
  "bind_port ty ix irq port st =
     st\<lparr>evtchn_to_irq := (evtchn_to_irq st)(port := int irq),
        irq_info := (irq_info st)(irq := mk_irq_info ty (of_nat ix) (of_nat port))\<rparr>"

definition count_bind :: "nat \<Rightarrow> evt \<Rightarrow> evt" where
  "count_bind irq st = st\<lparr>irq_bindcount := (irq_bindcount st)(irq := irq_bindcount st irq + 1)\<rparr>"

text \<open>The results are the interrupt number and the port.\<close>

definition bind_caller_port_to_irq :: "nat \<Rightarrow> evt \<Rightarrow> (int \<times> nat \<times> evt) option" where
  "bind_caller_port_to_irq caller_port st = (
     let irq = evtchn_to_irq st caller_port
     in if irq = - 1 then do {
          irq \<leftarrow> find_unbound_irq st;
          Some (int irq, caller_port, count_bind irq (bind_port IRQT_CALLER_PORT 0 irq caller_port st))
        }
        else Some (irq, caller_port, count_bind (nat irq) st))"

definition bind_local_port_to_irq :: "nat \<Rightarrow> evt \<Rightarrow> (int \<times> nat \<times> evt) option" where
  "bind_local_port_to_irq local_port st =
     (if evtchn_to_irq st local_port \<noteq> - 1 then None
      else do {
        irq \<leftarrow> find_unbound_irq st;
        Some (int irq, local_port, count_bind irq (bind_port IRQT_LOCAL_PORT 0 irq local_port st))
      })"

text \<open>With an error the port is left as the caller set it, -1, here None.\<close>

definition bind_listening_port_to_irq :: "xen_calls \<Rightarrow> nat \<Rightarrow> evt \<Rightarrow> (int \<times> nat option \<times> evt) option" where
  "bind_listening_port_to_irq x remote_domain st = (
     let (err, port) = alloc_unbound x remote_domain
     in if err \<noteq> 0 then Some (err, None, st)
        else do { (irq, p, st) \<leftarrow> bind_local_port_to_irq port st; Some (irq, Some p, st) })"

definition bind_interdomain_evtchn_to_irq :: "xen_calls \<Rightarrow> nat \<Rightarrow> nat \<Rightarrow> evt \<Rightarrow> (int \<times> nat option \<times> evt) option" where
  "bind_interdomain_evtchn_to_irq x remote_domain remote_port st = (
     let (err, port) = bind_interdomain x remote_domain remote_port
     in if err \<noteq> 0 then Some (err, None, st)
        else do { (irq, p, st) \<leftarrow> bind_local_port_to_irq port st; Some (irq, Some p, st) })"

text \<open>When the source is already bound, the port is 0.\<close>

definition bind_virq_to_irq :: "xen_calls \<Rightarrow> nat \<Rightarrow> nat \<Rightarrow> evt \<Rightarrow> (int \<times> nat \<times> evt) option" where
  "bind_virq_to_irq x virq cpu st = (
     let irq = virq_to_irq st cpu virq
     in if irq = - 1 then do {
          irq \<leftarrow> find_unbound_irq st;
          let chn = bind_virq_port x virq cpu;
          let st = bind_port IRQT_VIRQ virq irq chn st;
          let st = st\<lparr>virq_to_irq := (virq_to_irq st)(cpu := (virq_to_irq st cpu)(virq := int irq))\<rparr>;
          Some (int irq, chn, count_bind irq (bind_evtchn_to_cpu chn cpu st))
        }
        else Some (irq, 0, count_bind (nat irq) st))"

definition bind_ipi_to_irq :: "xen_calls \<Rightarrow> nat \<Rightarrow> nat \<Rightarrow> evt \<Rightarrow> (int \<times> nat \<times> evt) option" where
  "bind_ipi_to_irq x ipi cpu st = (
     let irq = ipi_to_irq st cpu ipi
     in if irq = - 1 then do {
          irq \<leftarrow> find_unbound_irq st;
          let chn = bind_ipi_port x cpu;
          let st = bind_port IRQT_IPI ipi irq chn st;
          let st = st\<lparr>ipi_to_irq := (ipi_to_irq st)(cpu := (ipi_to_irq st cpu)(ipi := int irq))\<rparr>;
          Some (int irq, chn, count_bind irq (bind_evtchn_to_cpu chn cpu st))
        }
        else Some (irq, 0, count_bind (nat irq) st))"

definition unbind_from_irq :: "nat \<Rightarrow> evt \<Rightarrow> evt" where
  "unbind_from_irq irq st = (
     let chn = evtchn_from_irq st irq;
         st1 = st\<lparr>irq_bindcount := (irq_bindcount st)(irq := irq_bindcount st irq - 1)\<rparr>
     in if irq_bindcount st1 irq = 0 \<and> chn \<noteq> 0 then
          let st2 = note_event (Close_port chn) st1;
              cpu = cpu_evtchn st2 chn;
              ix = index_from_irq st2 irq;
              st3 = (if type_from_irq st2 irq = IRQT_VIRQ
                       then st2\<lparr>virq_to_irq := (virq_to_irq st2)(cpu := (virq_to_irq st2 cpu)(ix := - 1))\<rparr>
                     else if type_from_irq st2 irq = IRQT_IPI
                       then st2\<lparr>ipi_to_irq := (ipi_to_irq st2)(cpu := (ipi_to_irq st2 cpu)(ix := - 1))\<rparr>
                     else st2);
              st4 = bind_evtchn_to_cpu chn 0 st3
          in st4\<lparr>evtchn_to_irq := (evtchn_to_irq st4)(chn := - 1), irq_info := (irq_info st4)(irq := IRQ_UNBOUND)\<rparr>
        else st1)"

section \<open>Binding with a handler\<close>

text \<open>
  The common end of the functions that bind a handler: the number is used as an index of the pins before it is
  looked at. The result is the interrupt number, or None for an error of \<open>intr_add_handler\<close>.
\<close>

definition add_irq_handler :: "xen_calls \<Rightarrow> nat \<Rightarrow> int \<Rightarrow> nat option \<Rightarrow> evt \<Rightarrow> (nat option \<times> evt) option" where
  "add_irq_handler x cpu irq port st =
     (if irq < 0 \<or> irq \<ge> int NR_IRQS then None
      else if \<not> add_handler x (nat irq) then Some (None, unbind_from_irq (nat irq) st)
      else Some (Some (nat irq), case port of None \<Rightarrow> st | Some p \<Rightarrow> unmask_evtchn cpu p st))"

definition bind_caller_port_to_irqhandler :: "xen_calls \<Rightarrow> nat \<Rightarrow> nat \<Rightarrow> evt \<Rightarrow> (nat option \<times> evt) option" where
  "bind_caller_port_to_irqhandler x cpu caller_port st = do {
     (irq, port, st) \<leftarrow> bind_caller_port_to_irq caller_port st;
     add_irq_handler x cpu irq (Some port) st
   }"

definition bind_listening_port_to_irqhandler :: "xen_calls \<Rightarrow> nat \<Rightarrow> nat \<Rightarrow> evt \<Rightarrow> (nat option \<times> evt) option" where
  "bind_listening_port_to_irqhandler x cpu remote_domain st = do {
     (irq, port, st) \<leftarrow> bind_listening_port_to_irq x remote_domain st;
     add_irq_handler x cpu irq port st
   }"

definition bind_interdomain_evtchn_to_irqhandler ::
  "xen_calls \<Rightarrow> nat \<Rightarrow> nat \<Rightarrow> nat \<Rightarrow> evt \<Rightarrow> (nat option \<times> evt) option" where
  "bind_interdomain_evtchn_to_irqhandler x cpu remote_domain remote_port st = do {
     (irq, port, st) \<leftarrow> bind_interdomain_evtchn_to_irq x remote_domain remote_port st;
     add_irq_handler x cpu irq port st
   }"

definition bind_virq_to_irqhandler :: "xen_calls \<Rightarrow> nat \<Rightarrow> nat \<Rightarrow> nat \<Rightarrow> evt \<Rightarrow> (nat option \<times> evt) option" where
  "bind_virq_to_irqhandler x here virq cpu st = do {
     (irq, port, st) \<leftarrow> bind_virq_to_irq x virq cpu st;
     add_irq_handler x here irq (Some port) st
   }"

definition bind_ipi_to_irqhandler :: "xen_calls \<Rightarrow> nat \<Rightarrow> nat \<Rightarrow> nat \<Rightarrow> evt \<Rightarrow> (nat option \<times> evt) option" where
  "bind_ipi_to_irqhandler x here ipi cpu st = do {
     (irq, port, st) \<leftarrow> bind_ipi_to_irq x ipi cpu st;
     add_irq_handler x here irq (Some port) st
   }"

definition unbind_from_irqhandler :: "nat \<Rightarrow> evt \<Rightarrow> evt" where
  "unbind_from_irqhandler irq st = unbind_from_irq irq st"

section \<open>The interrupt controllers\<close>

definition xenpic_vector :: "evt \<Rightarrow> nat \<Rightarrow> nat" where
  "xenpic_vector st pin = unat (pin_vector st pin)"

definition set_pin_masked :: "nat \<Rightarrow> bool \<Rightarrow> evt \<Rightarrow> evt" where
  "set_pin_masked pin b st = st\<lparr>pin_masked := (pin_masked st)(pin := b)\<rparr>"

definition xenpic_dynirq_enable_source :: "nat \<Rightarrow> nat \<Rightarrow> evt \<Rightarrow> evt" where
  "xenpic_dynirq_enable_source cpu pin st =
     (if pin_masked st pin
      then set_pin_masked pin False (unmask_evtchn cpu (evtchn_from_irq st (xenpic_vector st pin)) st) else st)"

definition xenpic_dynirq_disable_source :: "nat \<Rightarrow> evt \<Rightarrow> evt" where
  "xenpic_dynirq_disable_source pin st =
     (if \<not> pin_masked st pin
      then set_pin_masked pin True (mask_evtchn (evtchn_from_irq st (xenpic_vector st pin)) st) else st)"

definition xenpic_dynirq_enable_intr :: "nat \<Rightarrow> nat \<Rightarrow> evt \<Rightarrow> evt" where
  "xenpic_dynirq_enable_intr cpu pin st = (
     let st = set_pin_masked pin False st
     in unmask_evtchn cpu (evtchn_from_irq st (xenpic_vector st pin)) st)"

definition xenpic_dynirq_disable_intr :: "nat \<Rightarrow> evt \<Rightarrow> evt" where
  "xenpic_dynirq_disable_intr pin st =
     set_pin_masked pin True (mask_evtchn (evtchn_from_irq st (xenpic_vector st pin)) st)"

definition xenpic_dynirq_eoi_source :: "nat \<Rightarrow> nat \<Rightarrow> evt \<Rightarrow> evt" where
  "xenpic_dynirq_eoi_source cpu pin st = (
     let st = set_pin_masked pin False st
     in unmask_evtchn cpu (evtchn_from_irq st (xenpic_vector st pin)) st)"

definition pirq_unmask_notify :: "nat \<Rightarrow> evt \<Rightarrow> evt" where
  "pirq_unmask_notify pirq st = (if pirq_needs_unmask_notify st pirq then note_event (Pirq_eoi pirq) st else st)"

definition pirq_query_unmask :: "xen_calls \<Rightarrow> nat \<Rightarrow> evt \<Rightarrow> evt" where
  "pirq_query_unmask x pirq st = st\<lparr>pirq_needs_unmask_notify := (pirq_needs_unmask_notify st)(pirq := pirq_status x pirq)\<rparr>"

text \<open>Without \<open>XEN_PRIVILEGED_GUEST\<close> a failed binding is a panic.\<close>

definition xenpic_pirq_enable_intr :: "xen_calls \<Rightarrow> nat \<Rightarrow> nat \<Rightarrow> evt \<Rightarrow> evt option" where
  "xenpic_pirq_enable_intr x cpu pin st = (
     let irq = xenpic_vector st pin;
         chn = evtchn_from_irq st irq
     in do {
       (chn, st) \<leftarrow> (if chn \<noteq> 0 then Some (chn, st)
         else case bind_pirq_port x irq of
           None \<Rightarrow> None
         | Some chn \<Rightarrow> Some (chn, bind_port IRQT_PIRQ irq irq chn (bind_evtchn_to_cpu chn 0 (pirq_query_unmask x irq st))));
       Some (pirq_unmask_notify irq (unmask_evtchn cpu chn st))
     })"

definition xenpic_pirq_enable_source :: "nat \<Rightarrow> nat \<Rightarrow> evt \<Rightarrow> evt" where
  "xenpic_pirq_enable_source cpu pin st = (
     let irq = xenpic_vector st pin;
         chn = evtchn_from_irq st irq
     in if chn = 0 then st else pirq_unmask_notify irq (unmask_evtchn cpu chn st))"

definition xenpic_pirq_disable_source :: "nat \<Rightarrow> evt \<Rightarrow> evt" where
  "xenpic_pirq_disable_source pin st = (
     let chn = evtchn_from_irq st (xenpic_vector st pin)
     in if chn = 0 then st else mask_evtchn chn st)"

definition xenpic_pirq_eoi_source :: "nat \<Rightarrow> nat \<Rightarrow> evt \<Rightarrow> evt" where
  "xenpic_pirq_eoi_source cpu pin st = (
     let irq = xenpic_vector st pin;
         chn = evtchn_from_irq st irq
     in if chn = 0 then st else pirq_unmask_notify irq (unmask_evtchn cpu chn st))"

section \<open>Start-up and resuming\<close>

definition evtchn_init :: "nat \<Rightarrow> bool \<Rightarrow> evt \<Rightarrow> evt option" where
  "evtchn_init mp_ncpus pics_ok st = (
     let st = init_evtchn_cpu_bindings st;
         st = st\<lparr>virq_to_irq := (\<lambda>cpu. if cpu < mp_ncpus then (\<lambda>v. if v < NR_VIRQS then - 1 else virq_to_irq st cpu v) else virq_to_irq st cpu),
                 ipi_to_irq := (\<lambda>cpu. if cpu < mp_ncpus then (\<lambda>_. - 1) else ipi_to_irq st cpu),
                 evtchn_to_irq := (\<lambda>_. - 1)\<rparr>;
         st = fold mask_evtchn [0..<NR_EVENT_CHANNELS] st;
         st = st\<lparr>irq_info := (\<lambda>_. IRQ_UNBOUND), pin_masked := (\<lambda>_. False), irq_bindcount := (\<lambda>_. 0), pin_vector := of_nat\<rparr>
     in if pics_ok then Some st else None)"

primrec rebind_virqs :: "xen_calls \<Rightarrow> nat \<Rightarrow> nat list \<Rightarrow> evt \<Rightarrow> evt option" where
  "rebind_virqs x cpu [] st = Some st"
| "rebind_virqs x cpu (virq # vs) st =
     (if virq_to_irq st 0 virq = - 1 then rebind_virqs x cpu vs st
      else
        let irq = nat (virq_to_irq st 0 virq)
        in if irq_info st irq \<noteq> mk_irq_info IRQT_VIRQ (of_nat virq) 0 then None
           else
             let chn = bind_virq_port x virq 0
             in rebind_virqs x cpu vs (unmask_evtchn cpu chn (bind_port IRQT_VIRQ virq irq chn st)))"

primrec rebind_ipis :: "xen_calls \<Rightarrow> nat \<Rightarrow> nat list \<Rightarrow> evt \<Rightarrow> evt option" where
  "rebind_ipis x cpu [] st = Some st"
| "rebind_ipis x cpu (ipi # is) st =
     (if ipi_to_irq st 0 ipi = - 1 then rebind_ipis x cpu is st
      else
        let irq = nat (ipi_to_irq st 0 ipi)
        in if irq_info st irq \<noteq> mk_irq_info IRQT_IPI (of_nat ipi) 0 then None
           else
             let chn = bind_ipi_port x 0
             in rebind_ipis x cpu is (unmask_evtchn cpu chn (bind_port IRQT_IPI ipi irq chn st)))"

text \<open>\<open>nr_ipis\<close> is a constant of the configuration.\<close>

definition irq_resume :: "xen_calls \<Rightarrow> nat \<Rightarrow> nat \<Rightarrow> evt \<Rightarrow> evt option" where
  "irq_resume x cpu nr_ipis st = (
     let st = fold mask_evtchn [0..<NR_EVENT_CHANNELS] (init_evtchn_cpu_bindings st)
     in if \<not> list_all (\<lambda>p. irq_info st p = IRQ_UNBOUND) [0..<NR_PIRQS] then None
        else if \<not> list_all (\<lambda>c. list_all (\<lambda>v. virq_to_irq st c v = - 1) [0..<NR_VIRQS] \<and>
                              list_all (\<lambda>i. ipi_to_irq st c i = - 1) [0..<nr_ipis]) [1..<MAX_VIRT_CPUS] then None
        else do {
          st \<leftarrow> rebind_virqs x cpu [0..<NR_VIRQS]
            (st\<lparr>irq_info := (\<lambda>irq. irq_info st irq AND NOT 0xFFFF), evtchn_to_irq := (\<lambda>_. - 1)\<rparr>);
          rebind_ipis x cpu [0..<nr_ipis] st
        })"

section \<open>Packed information\<close>

lemmas info_consts = IRQT_BITS_def EVTCHN_BITS_def INDEX_BITS_def
lemmas irqt_defs = IRQT_UNBOUND_def IRQT_PIRQ_def IRQT_VIRQ_def IRQT_IPI_def IRQT_LOCAL_PORT_def IRQT_CALLER_PORT_def

lemma low_mask: "push_bit n (1 :: u32) - 1 = mask n"
  by (simp add: mask_eq_exp_minus_1 push_bit_of_1)

lemma info_simps:
  "info_evtchn w = take_bit 12 w" "info_index w = take_bit 16 (drop_bit 12 w)" "info_type w = drop_bit 28 w"
  unfolding info_evtchn_def info_index_def info_type_def low_mask take_bit_eq_mask
  by (simp_all only: info_consts) simp_all

text \<open>The three fields of the packed word do not overlap.\<close>

lemma mk_irq_info_fields:
  assumes "take_bit 4 ty = ty" "take_bit 16 ix = ix" "take_bit 12 chn = chn"
  shows "info_type (mk_irq_info ty ix chn) = ty" "info_index (mk_irq_info ty ix chn) = ix"
    "info_evtchn (mk_irq_info ty ix chn) = chn"
proof -
  have b: "bit ty i \<Longrightarrow> i < 4" "bit ix i \<Longrightarrow> i < 16" "bit chn i \<Longrightarrow> i < 12" for i
    using assms by (metis bit_take_bit_iff)+
  show "info_type (mk_irq_info ty ix chn) = ty"
    by (rule bit_eqI) (auto simp: info_simps mk_irq_info_def info_consts bit_simps dest: b)
  show "info_index (mk_irq_info ty ix chn) = ix"
    by (rule bit_eqI) (auto simp: info_simps mk_irq_info_def info_consts bit_simps dest: b)
  show "info_evtchn (mk_irq_info ty ix chn) = chn"
    by (rule bit_eqI) (auto simp: info_simps mk_irq_info_def info_consts bit_simps dest: b)
qed

lemma take_bit_small: "n < 2 ^ k \<Longrightarrow> take_bit k (of_nat n :: u32) = of_nat n"
  by (simp add: take_bit_of_nat take_bit_nat_eq_self)

lemma unat_small: "n < 2 ^ 16 \<Longrightarrow> unat (of_nat n :: u32) = n"
  by (rule unat_of_nat_u32) simp

lemma irqt_small: "take_bit 4 IRQT_UNBOUND = IRQT_UNBOUND" "take_bit 4 IRQT_PIRQ = IRQT_PIRQ" "take_bit 4 IRQT_VIRQ = IRQT_VIRQ"
  "take_bit 4 IRQT_IPI = IRQT_IPI" "take_bit 4 IRQT_LOCAL_PORT = IRQT_LOCAL_PORT" "take_bit 4 IRQT_CALLER_PORT = IRQT_CALLER_PORT"
  by (simp_all add: irqt_defs)

lemma unbound_fields [simp]: "info_evtchn IRQ_UNBOUND = 0" "info_type IRQ_UNBOUND = 0" "info_index IRQ_UNBOUND = 0"
  by (simp_all add: IRQ_UNBOUND_def mk_irq_info_def info_simps IRQT_UNBOUND_def)

lemma bind_port_info:
  assumes "take_bit 4 ty = ty" "ix < 2 ^ 16" "port < NR_EVENT_CHANNELS"
  shows "evtchn_from_irq (bind_port ty ix irq port st) i = (if i = irq then port else evtchn_from_irq st i)"
    "index_from_irq (bind_port ty ix irq port st) i = (if i = irq then ix else index_from_irq st i)"
    "type_from_irq (bind_port ty ix irq port st) i = (if i = irq then ty else type_from_irq st i)"
proof -
  have p: "port < 2 ^ 12" "port < 2 ^ 16" using assms(3) by (simp_all add: NR_EVENT_CHANNELS_def)
  show "evtchn_from_irq (bind_port ty ix irq port st) i = (if i = irq then port else evtchn_from_irq st i)"
    "index_from_irq (bind_port ty ix irq port st) i = (if i = irq then ix else index_from_irq st i)"
    "type_from_irq (bind_port ty ix irq port st) i = (if i = irq then ty else type_from_irq st i)"
    using mk_irq_info_fields [OF assms(1) take_bit_small [OF assms(2)] take_bit_small [OF p(1)]] unat_small [OF p(2)] unat_small [OF assms(2)]
    by (simp_all add: evtchn_from_irq_def index_from_irq_def type_from_irq_def bind_port_def)
qed

section \<open>Bits\<close>

lemma ffs_filter:
  assumes "filter (bit w) [0..<32] = j # js" shows "ffs w = j" "w \<noteq> 0"
proof -
  obtain us vs where u: "[0..<32] = us @ j # vs" "\<forall>u \<in> set us. \<not> bit w u" "bit w j"
    using assms by (auto simp: filter_eq_Cons_iff)
  then have t: "takeWhile (\<lambda>i. \<not> bit w i) [0..<32] = us" by (simp add: takeWhile_append2 takeWhile_tail)
  have "[0..<32] ! length us = j" "length us < 32"
    using u(1) nth_append_length [of us j vs] by (simp, metis length_append length_Cons length_upt diff_zero less_add_Suc1 add_Suc_right)
  then show "ffs w = j" by (simp add: ffs_def t)
  show "w \<noteq> 0" using u(3) by auto
qed

lemma filter_bits_nil: "filter (bit w) [0..<32] = [] \<longleftrightarrow> (w :: u32) = 0"
proof
  assume "filter (bit w) [0..<32] = []"
  then show "w = 0" by (auto simp: filter_empty_conv intro!: bit_word_eqI)
qed simp

lemma filter_bits_clear:
  assumes "filter (bit w) [0..<32] = j # js"
  shows "filter (bit (w AND NOT (push_bit j 1) :: u32)) [0..<32] = js"
proof -
  have "distinct (j # js)" using distinct_filter [of "[0..<32]" "bit w"] assms by simp
  have "filter (bit (w AND NOT (push_bit j 1))) [0..<32] = filter (\<lambda>i. bit w i \<and> i \<noteq> j) [0..<32]"
    by (rule filter_cong) (auto simp: bit_simps)
  also have "\<dots> = filter (\<lambda>i. i \<noteq> j) (filter (bit w) [0..<32])" by simp
  also have "\<dots> = js" using \<open>distinct (j # js)\<close> unfolding assms by (auto simp: filter_id_conv)
  finally show ?thesis .
qed

lemma clear_nr_at: "clear_nr n m (n div LONG_BIT) = m (n div LONG_BIT) AND NOT (push_bit (n mod LONG_BIT) 1)"
  by (simp add: clear_nr_def)

section \<open>What an upcall runs\<close>

text \<open>Handlers that leave the channel masked, and of which only the call is noted.\<close>

definition note_run :: "nat \<Rightarrow> evt \<Rightarrow> evt" where
  "note_run irq st = note_event (Run_handlers irq) st"

definition low_bits :: "u64 \<Rightarrow> nat list" where
  "low_bits w = filter (bit w) [0..<32]"

lemma low_bits_ucast: "filter (bit (ucast w :: u32)) [0..<32] = low_bits w"
  unfolding low_bits_def by (rule filter_cong) (auto simp: bit_simps)

lemma active_after:
  assumes "port = i * LONG_BIT + j" "j < 64"
  shows "active_evtchns cpu k (clear_evtchn port (mask_evtchn port st)) =
    (if k = i then active_evtchns cpu i st AND NOT (push_bit j 1) else active_evtchns cpu k st)"
proof -
  have "port div LONG_BIT = i" "port mod LONG_BIT = j" using assms by (simp_all add: LONG_BIT_def)
  then show ?thesis
    by (auto simp: active_evtchns_def clear_evtchn_def mask_evtchn_def clear_nr_def set_nr_def intro!: bit_word_eqI)
      (auto simp: bit_simps)
qed

lemma active_note: "active_evtchns cpu k (note_event e st) = active_evtchns cpu k st"
  by (simp add: active_evtchns_def note_event_def)

definition runs_of :: "evt \<Rightarrow> nat \<Rightarrow> nat list \<Rightarrow> xen_event list" where
  "runs_of st i js = map (\<lambda>j. Run_handlers (nat (evtchn_to_irq st (i * LONG_BIT + j)))) js"

lemma channels_loop_runs:
  assumes "low_bits (active_evtchns cpu i st) = js" "\<And>j. j \<in> set js \<Longrightarrow> evtchn_to_irq st (i * LONG_BIT + j) \<noteq> - 1"
  shows "\<exists>st'. channels_loop note_run cpu i st = Some st' \<and> hlog st' = hlog st @ runs_of st i js \<and>
    (\<forall>k. k \<noteq> i \<longrightarrow> active_evtchns cpu k st' = active_evtchns cpu k st) \<and> evtchn_to_irq st' = evtchn_to_irq st \<and>
    pending_sel st' = pending_sel st"
  using assms
proof (induction js arbitrary: st)
  case Nil
  then have "(ucast (active_evtchns cpu i st) :: u32) = 0"
    using filter_bits_nil low_bits_ucast by metis
  then show ?case by (subst channels_loop.simps) (simp add: runs_of_def)
next
  case (Cons j js)
  let ?l = "ucast (active_evtchns cpu i st) :: u32"
  have f: "filter (bit ?l) [0..<32] = j # js" using Cons.prems(1) by (simp add: low_bits_ucast)
  have "j \<in> set (filter (bit ?l) [0..<32])" unfolding f by simp
  then have j: "j < 32" by simp
  let ?p = "i * LONG_BIT + j"
  let ?s = "note_run (nat (evtchn_to_irq st ?p)) (clear_evtchn ?p (mask_evtchn ?p st))"
  have a: "active_evtchns cpu k ?s = (if k = i then active_evtchns cpu i st AND NOT (push_bit j 1) else active_evtchns cpu k st)" for k
    using active_after [OF refl, of j cpu k i st] j by (simp add: note_run_def active_note)
  have u: "(ucast (active_evtchns cpu i st AND NOT (push_bit j 1)) :: u32) = ?l AND NOT (push_bit j 1)"
    by (rule bit_word_eqI) (auto simp: bit_simps)
  have "low_bits (active_evtchns cpu i ?s) = js"
    unfolding a low_bits_ucast [symmetric] using filter_bits_clear [OF f] by (simp only: u if_True refl)
  moreover have e: "evtchn_to_irq ?s = evtchn_to_irq st" "pending_sel ?s = pending_sel st"
    "hlog ?s = hlog st @ [Run_handlers (nat (evtchn_to_irq st ?p))]"
    by (simp_all add: note_run_def note_event_def clear_evtchn_def mask_evtchn_def)
  ultimately have "\<exists>st'. channels_loop note_run cpu i ?s = Some st' \<and> hlog st' = hlog ?s @ runs_of ?s i js \<and>
    (\<forall>k. k \<noteq> i \<longrightarrow> active_evtchns cpu k st' = active_evtchns cpu k ?s) \<and> evtchn_to_irq st' = evtchn_to_irq ?s \<and>
    pending_sel st' = pending_sel ?s"
    using Cons.prems(2) by (intro Cons.IH) auto
  moreover have "channels_loop note_run cpu i st = channels_loop note_run cpu i ?s"
    using Cons.prems(2) [of j] ffs_filter [OF f] by (subst channels_loop.simps) (simp add: Let_def)
  ultimately show ?case by (simp add: e a runs_of_def)
qed

lemma words_loop_runs:
  assumes "filter (bit l1) [0..<32] = is"
    "\<And>i j. i \<in> set is \<Longrightarrow> j \<in> set (low_bits (active_evtchns cpu i st)) \<Longrightarrow> evtchn_to_irq st (i * LONG_BIT + j) \<noteq> - 1"
  shows "\<exists>st'. words_loop note_run cpu l1 st = Some st' \<and>
    hlog st' = hlog st @ concat (map (\<lambda>i. runs_of st i (low_bits (active_evtchns cpu i st))) is) \<and> pending_sel st' = pending_sel st"
  using assms
proof (induction "is" arbitrary: l1 st)
  case Nil
  then have "l1 = 0" using filter_bits_nil by blast
  then show ?case by (subst words_loop.simps) simp
next
  case (Cons i "is")
  have n: "i \<notin> set is" using distinct_filter [of "[0..<32]" "bit l1"] Cons.prems(1) by simp
  obtain s where s: "channels_loop note_run cpu i st = Some s" "hlog s = hlog st @ runs_of st i (low_bits (active_evtchns cpu i st))"
    "\<forall>k. k \<noteq> i \<longrightarrow> active_evtchns cpu k s = active_evtchns cpu k st" "evtchn_to_irq s = evtchn_to_irq st" "pending_sel s = pending_sel st"
    using channels_loop_runs [OF refl, of cpu i st] Cons.prems(2) by auto
  have "\<exists>st'. words_loop note_run cpu (l1 AND NOT (push_bit i 1)) s = Some st' \<and>
    hlog st' = hlog s @ concat (map (\<lambda>i. runs_of s i (low_bits (active_evtchns cpu i s))) is) \<and> pending_sel st' = pending_sel s"
    by (rule Cons.IH [OF filter_bits_clear [OF Cons.prems(1)]]) (use Cons.prems(2) s n in \<open>metis list.set_intros(2)\<close>)
  moreover have "map (\<lambda>i. runs_of s i (low_bits (active_evtchns cpu i s))) is = map (\<lambda>i. runs_of st i (low_bits (active_evtchns cpu i st))) is"
    using s n by (intro map_cong) (auto simp: runs_of_def)
  moreover have "words_loop note_run cpu l1 st = words_loop note_run cpu (l1 AND NOT (push_bit i 1)) s"
    using ffs_filter [OF Cons.prems(1)] s(1) by (subst words_loop.simps) simp
  ultimately show ?case using s by simp
qed

section \<open>Bindings\<close>

text \<open>
  The tables agree, for \<open>n\<close> processors: a channel that is bound to a number is the channel of that number,
  a number in use has a channel bound to it, one not in use is unbound, and the number of a virtual
  interrupt or of an inter-processor interrupt says so.
\<close>

definition dynamic :: "nat \<Rightarrow> bool" where
  "dynamic irq \<longleftrightarrow> DYNIRQ_BASE \<le> irq \<and> irq < NR_IRQS"

definition source_ok :: "evt \<Rightarrow> u32 \<Rightarrow> nat \<Rightarrow> nat \<Rightarrow> int \<Rightarrow> bool" where
  "source_ok st ty cpu ix irq \<longleftrightarrow> (irq = - 1 \<or> 0 \<le> irq \<and> dynamic (nat irq) \<and> 0 < irq_bindcount st (nat irq) \<and>
     type_from_irq st (nat irq) = ty \<and> index_from_irq st (nat irq) = ix \<and> cpu_evtchn st (evtchn_from_irq st (nat irq)) = cpu)"

definition channel_ok :: "evt \<Rightarrow> nat \<Rightarrow> bool" where
  "channel_ok st p \<longleftrightarrow> (evtchn_to_irq st p = - 1 \<or> 0 \<le> evtchn_to_irq st p \<and> evtchn_to_irq st p < int NR_IRQS \<and>
     evtchn_from_irq st (nat (evtchn_to_irq st p)) = p \<and>
     (dynamic (nat (evtchn_to_irq st p)) \<longrightarrow> 0 < irq_bindcount st (nat (evtchn_to_irq st p))))"

definition number_ok :: "evt \<Rightarrow> nat \<Rightarrow> bool" where
  "number_ok st irq \<longleftrightarrow> (irq_bindcount st irq = 0 \<and> irq_info st irq = IRQ_UNBOUND \<or>
     0 \<le> irq_bindcount st irq \<and> (dynamic irq \<longrightarrow> 0 < irq_bindcount st irq) \<and>
     evtchn_from_irq st irq \<in> {0<..<NR_EVENT_CHANNELS} \<and> evtchn_to_irq st (evtchn_from_irq st irq) = int irq)"

definition bindings_ok :: "nat \<Rightarrow> evt \<Rightarrow> bool" where
  "bindings_ok n st \<longleftrightarrow> (\<forall>p \<in> {0<..<NR_EVENT_CHANNELS}. channel_ok st p) \<and> (\<forall>irq < NR_IRQS. number_ok st irq) \<and>
     (\<forall>cpu < n. (\<forall>v < NR_VIRQS. source_ok st IRQT_VIRQ cpu v (virq_to_irq st cpu v)) \<and>
                (\<forall>i < 2 ^ 16. source_ok st IRQT_IPI cpu i (ipi_to_irq st cpu i)))"

lemma find_unbound_loop_range:
  "find_unbound_loop st i n = Some irq \<Longrightarrow> i \<le> 128 \<Longrightarrow> 128 < i + n \<Longrightarrow> dynamic irq \<and> irq_bindcount st irq = 0"
proof (induction n arbitrary: i)
  case (Suc n)
  show ?case
  proof (cases "i = 128")
    case True
    then show ?thesis using Suc.prems by (simp add: Let_def dynirq_to_irq_def DYNIRQ_BASE_def NR_IRQS_def)
  next
    case False
    then show ?thesis using Suc.prems Suc.IH [of "Suc i"]
      by (auto simp: Let_def dynamic_def dynirq_to_irq_def DYNIRQ_BASE_def NR_IRQS_def split: if_splits)
  qed
qed simp

lemma find_unbound_irq_ok: "find_unbound_irq st = Some irq \<Longrightarrow> dynamic irq \<and> irq_bindcount st irq = 0"
  using find_unbound_loop_range [of st 0 NR_IRQS irq]
  by (auto simp: find_unbound_irq_def NR_IRQS_def elim!: bind_SomeE split: if_splits)

text \<open>The part of the state that the tables of bindings are made of.\<close>

definition bindings :: "evt \<Rightarrow> _" where
  "bindings st = (evtchn_to_irq st, irq_info st, irq_bindcount st, virq_to_irq st, ipi_to_irq st, cpu_evtchn st)"

lemma bindings_ok_cong: "bindings st' = bindings st \<Longrightarrow> bindings_ok n st' = bindings_ok n st"
  by (simp add: bindings_def bindings_ok_def channel_ok_def number_ok_def source_ok_def evtchn_from_irq_def
      index_from_irq_def type_from_irq_def)

lemma bindings_note: "bindings (note_event e st) = bindings st"
  by (simp add: bindings_def note_event_def)

lemma bindings_mask: "bindings (mask_evtchn p st) = bindings st"
  by (simp add: bindings_def mask_evtchn_def)

lemma bindings_unmask: "bindings (unmask_evtchn cpu p st) = bindings st"
  by (simp add: bindings_def unmask_evtchn_def note_event_def Let_def)

lemma bindings_ok_after_bind:
  assumes ok: "bindings_ok n st" and irq: "irq < NR_IRQS" "irq_info st irq = IRQ_UNBOUND"
    and p: "port \<in> {0<..<NR_EVENT_CHANNELS}" "evtchn_to_irq st port = - 1"
    and ty: "take_bit 4 ty = ty" "ix < 2 ^ 16"
    and c: "0 \<le> c" "dynamic irq \<Longrightarrow> 0 < c"
    and st': "irq_bindcount st' = (irq_bindcount st)(irq := c)"
      "evtchn_to_irq st' = (evtchn_to_irq st)(port := int irq)"
      "irq_info st' = (irq_info st)(irq := mk_irq_info ty (of_nat ix) (of_nat port))"
      "\<And>p. p \<noteq> port \<Longrightarrow> cpu_evtchn st' p = cpu_evtchn st p"
    and v: "\<And>cpu v. cpu < n \<Longrightarrow> v < NR_VIRQS \<Longrightarrow> virq_to_irq st' cpu v = virq_to_irq st cpu v \<or>
        virq_to_irq st' cpu v = int irq \<and> dynamic irq \<and> ty = IRQT_VIRQ \<and> v = ix \<and> cpu_evtchn st' port = cpu"
    and i: "\<And>cpu v. cpu < n \<Longrightarrow> v < 2 ^ 16 \<Longrightarrow> ipi_to_irq st' cpu v = ipi_to_irq st cpu v \<or>
        ipi_to_irq st' cpu v = int irq \<and> dynamic irq \<and> ty = IRQT_IPI \<and> v = ix \<and> cpu_evtchn st' port = cpu"
  shows "bindings_ok n st'"
proof -
  have f: "evtchn_from_irq st' k = (if k = irq then port else evtchn_from_irq st k)"
    "index_from_irq st' k = (if k = irq then ix else index_from_irq st k)"
    "type_from_irq st' k = (if k = irq then ty else type_from_irq st k)" for k
    using bind_port_info [OF ty, of port irq st k] p(1) st'(3)
    by (auto simp: bind_port_def evtchn_from_irq_def index_from_irq_def type_from_irq_def)
  have nok: "number_ok st k" if "k < NR_IRQS" for k using ok that by (simp add: bindings_ok_def)
  have z: "evtchn_from_irq st irq = 0" "irq_bindcount st irq = 0"
    using irq nok [of irq] by (auto simp: number_ok_def evtchn_from_irq_def)
  have other: "evtchn_from_irq st k \<noteq> port" if "k < NR_IRQS" "0 < evtchn_from_irq st k" for k
    using nok [OF that(1)] that(2) p(2) by (auto simp: number_ok_def evtchn_from_irq_def)
  have "channel_ok st' q" if "q \<in> {0<..<NR_EVENT_CHANNELS}" for q
  proof -
    have q: "channel_ok st q" using ok that by (simp add: bindings_ok_def)
    then have "nat (evtchn_to_irq st q) \<noteq> irq" if "evtchn_to_irq st q \<noteq> - 1" using z \<open>q \<in> _\<close> that by (auto simp: channel_ok_def)
    then show ?thesis using q irq(1) c by (auto simp: channel_ok_def f st')
  qed
  moreover have "number_ok st' k" if "k < NR_IRQS" for k
  proof (cases "k = irq")
    case True
    then show ?thesis using p(1) c by (simp add: number_ok_def f st')
  next
    case False
    then show ?thesis using nok [OF that] other [OF that] by (auto simp: number_ok_def f st')
  qed
  moreover have src: "source_ok st' t cpu k j" if "source_ok st t cpu k j" for t cpu k j
  proof -
    have "evtchn_from_irq st (nat j) \<noteq> port \<and> nat j \<noteq> irq" if "j \<noteq> - 1"
      using that \<open>source_ok st t cpu k j\<close> other [of "nat j"] nok [of "nat j"] z by (auto simp: source_ok_def number_ok_def dynamic_def)
    then show ?thesis using that by (auto simp: source_ok_def f st')
  qed
  have new: "source_ok st' ty cpu ix (int irq)" if "cpu_evtchn st' port = cpu" "dynamic irq" for cpu
    using that c by (simp add: source_ok_def f st')
  have "source_ok st' IRQT_VIRQ cpu k (virq_to_irq st' cpu k)" if "cpu < n" "k < NR_VIRQS" for cpu k
    using v [OF that] src new ok that by (auto simp: bindings_ok_def)
  moreover have "source_ok st' IRQT_IPI cpu k (ipi_to_irq st' cpu k)" if "cpu < n" "k < 2 ^ 16" for cpu k
    using i [OF that] src new ok that by (auto simp: bindings_ok_def)
  ultimately show ?thesis by (simp add: bindings_ok_def)
qed

lemma bindings_ok_count:
  assumes "bindings_ok n st" "irq < NR_IRQS" "irq_info st irq \<noteq> IRQ_UNBOUND"
  shows "bindings_ok n (count_bind irq st)"
proof -
  have i: "0 \<le> irq_bindcount st irq" using assms by (fastforce simp: bindings_ok_def number_ok_def)
  have e: "evtchn_from_irq (count_bind irq st) = evtchn_from_irq st" "index_from_irq (count_bind irq st) = index_from_irq st"
    "type_from_irq (count_bind irq st) = type_from_irq st"
    by (auto simp: count_bind_def evtchn_from_irq_def index_from_irq_def type_from_irq_def)
  have "channel_ok (count_bind irq st) p" if "channel_ok st p" for p
    using that i by (auto simp: channel_ok_def e) (auto simp: count_bind_def split: if_splits)
  moreover have "number_ok (count_bind irq st) k" if "number_ok st k" for k
    using that i assms(3) by (auto simp: number_ok_def e) (auto simp: count_bind_def split: if_splits)
  moreover have "source_ok (count_bind irq st) ty cpu k j" if "source_ok st ty cpu k j" for ty cpu k j
    using that i by (auto simp: source_ok_def e) (auto simp: count_bind_def split: if_splits)
  moreover have "virq_to_irq (count_bind irq st) = virq_to_irq st" "ipi_to_irq (count_bind irq st) = ipi_to_irq st"
    by (simp_all add: count_bind_def)
  ultimately show ?thesis using assms(1) by (simp add: bindings_ok_def)
qed

lemma bindings_ok_unbind:
  assumes ok: "bindings_ok n st" and irq: "irq < NR_IRQS" "0 < irq_bindcount st irq"
  shows "bindings_ok n (unbind_from_irq irq st)"
proof (cases "irq_bindcount st irq = 1")
  case False
  let ?s = "unbind_from_irq irq st"
  have s: "?s = st\<lparr>irq_bindcount := (irq_bindcount st)(irq := irq_bindcount st irq - 1)\<rparr>"
    using False by (simp add: unbind_from_irq_def Let_def)
  have e: "evtchn_from_irq ?s = evtchn_from_irq st" "index_from_irq ?s = index_from_irq st" "type_from_irq ?s = type_from_irq st"
    by (auto simp: s evtchn_from_irq_def index_from_irq_def type_from_irq_def)
  have "channel_ok ?s p" if "channel_ok st p" for p using that irq False by (auto simp: channel_ok_def e) (auto simp: s split: if_splits)
  moreover have "number_ok ?s k" if "number_ok st k" for k using that irq False by (auto simp: number_ok_def e) (auto simp: s split: if_splits)
  moreover have "source_ok ?s ty cpu k j" if "source_ok st ty cpu k j" for ty cpu k j
    using that irq False by (auto simp: source_ok_def e) (auto simp: s split: if_splits)
  moreover have "virq_to_irq ?s = virq_to_irq st" "ipi_to_irq ?s = ipi_to_irq st" by (simp_all add: s)
  ultimately show ?thesis using ok by (simp add: bindings_ok_def)
next
  case True
  let ?s = "unbind_from_irq irq st" and ?c = "evtchn_from_irq st irq" and ?ix = "index_from_irq st irq"
  let ?cpu = "cpu_evtchn st ?c"
  have nok: "number_ok st k" if "k < NR_IRQS" for k using ok that by (simp add: bindings_ok_def)
  have c: "0 < ?c" "evtchn_to_irq st ?c = int irq" using nok [OF irq(1)] True by (auto simp: number_ok_def)
  have s: "evtchn_to_irq ?s = (evtchn_to_irq st)(?c := - 1)" "irq_info ?s = (irq_info st)(irq := IRQ_UNBOUND)"
    "irq_bindcount ?s = (irq_bindcount st)(irq := 0)" "cpu_evtchn ?s = (cpu_evtchn st)(?c := 0)"
    "virq_to_irq ?s = (if type_from_irq st irq = IRQT_VIRQ then (virq_to_irq st)(?cpu := (virq_to_irq st ?cpu)(?ix := - 1)) else virq_to_irq st)"
    "ipi_to_irq ?s = (if type_from_irq st irq = IRQT_IPI then (ipi_to_irq st)(?cpu := (ipi_to_irq st ?cpu)(?ix := - 1)) else ipi_to_irq st)"
    using True c by (auto simp: unbind_from_irq_def Let_def note_event_def bind_evtchn_to_cpu_def evtchn_from_irq_def
        index_from_irq_def type_from_irq_def irqt_defs)
  have f: "evtchn_from_irq ?s k = (if k = irq then 0 else evtchn_from_irq st k)"
    "k \<noteq> irq \<Longrightarrow> index_from_irq ?s k = index_from_irq st k" "k \<noteq> irq \<Longrightarrow> type_from_irq ?s k = type_from_irq st k" for k
    by (auto simp: evtchn_from_irq_def index_from_irq_def type_from_irq_def s)
  have other: "evtchn_from_irq st k \<noteq> ?c" if "k < NR_IRQS" "k \<noteq> irq" for k
    using nok [OF that(1)] c that(2) by (auto simp: number_ok_def evtchn_from_irq_def)
  have "channel_ok ?s p" if "p \<in> {0<..<NR_EVENT_CHANNELS}" for p
  proof -
    have "channel_ok st p" using ok that by (simp add: bindings_ok_def)
    then show ?thesis by (auto simp: channel_ok_def f s)
  qed
  moreover have "number_ok ?s k" if "k < NR_IRQS" for k
    using nok [OF that] other [OF that] by (cases "k = irq") (auto simp: number_ok_def f s)
  moreover have src: "source_ok ?s ty cpu k j" if "source_ok st ty cpu k j" "j \<noteq> int irq" for ty cpu k j
  proof -
    have "nat j \<noteq> irq" if "j \<noteq> - 1" using that \<open>source_ok st ty cpu k j\<close> \<open>j \<noteq> int irq\<close> by (auto simp: source_ok_def)
    then show ?thesis using that(1) other [of "nat j"] by (auto simp: source_ok_def f s dynamic_def)
  qed
  have gone: "source_ok ?s ty cpu v j'" if "source_ok st ty cpu v j" "j' = (if type_from_irq st irq = ty \<and> cpu = ?cpu \<and> v = ?ix then - 1 else j)"
    for ty cpu v j j'
  proof (cases "j' = - 1")
    case False
    then have "j' = j" "j \<noteq> int irq" using that by (auto simp: source_ok_def split: if_splits)
    then show ?thesis using src that(1) by blast
  qed (simp add: source_ok_def)
  have "source_ok ?s IRQT_VIRQ cpu v (virq_to_irq ?s cpu v)" if "cpu < n" "v < NR_VIRQS" for cpu v
    by (rule gone [where j = "virq_to_irq st cpu v"]) (use ok that in \<open>simp_all add: bindings_ok_def s\<close>)
  moreover have "source_ok ?s IRQT_IPI cpu v (ipi_to_irq ?s cpu v)" if "cpu < n" "v < 2 ^ 16" for cpu v
    by (rule gone [where j = "ipi_to_irq st cpu v"]) (use ok that in \<open>simp_all add: bindings_ok_def s\<close>)
  ultimately show ?thesis by (simp add: bindings_ok_def)
qed

lemma unbound_number: "bindings_ok n st \<Longrightarrow> irq < NR_IRQS \<Longrightarrow> irq_bindcount st irq = 0 \<Longrightarrow> dynamic irq \<Longrightarrow> irq_info st irq = IRQ_UNBOUND"
  by (auto simp: bindings_ok_def number_ok_def)

lemma channel_bound:
  assumes "bindings_ok n st" "p \<in> {0<..<NR_EVENT_CHANNELS}" "evtchn_to_irq st p \<noteq> - 1"
  obtains irq where "evtchn_to_irq st p = int irq" "irq < NR_IRQS" "irq_info st irq \<noteq> IRQ_UNBOUND" "0 \<le> irq_bindcount st irq"
proof -
  have c: "channel_ok st p" using assms by (simp add: bindings_ok_def)
  then obtain k where k: "evtchn_to_irq st p = int k" using assms(3) by (metis channel_ok_def nonneg_int_cases)
  then have "k < NR_IRQS" "evtchn_from_irq st k = p" using c by (auto simp: channel_ok_def)
  moreover from this have "irq_info st k \<noteq> IRQ_UNBOUND" using assms(2) by (auto simp: evtchn_from_irq_def)
  moreover have "number_ok st k" using assms(1) calculation(1) by (simp add: bindings_ok_def)
  ultimately show ?thesis using that [OF k] by (auto simp: number_ok_def)
qed

definition bound_result :: "nat \<Rightarrow> int \<Rightarrow> evt \<Rightarrow> bool" where
  "bound_result n irq st \<longleftrightarrow> bindings_ok n st \<and> 0 \<le> irq \<and> irq < int NR_IRQS \<and> 0 < irq_bindcount st (nat irq)"

lemma bind_new_ok:
  assumes ok: "bindings_ok n st" and irq: "find_unbound_irq st = Some irq"
    and p: "port \<in> {0<..<NR_EVENT_CHANNELS}" "evtchn_to_irq st port = - 1" and ty: "take_bit 4 ty = ty"
  shows "bound_result n (int irq) (count_bind irq (bind_port ty 0 irq port st))"
proof -
  have i: "dynamic irq" "irq_bindcount st irq = 0" "irq < NR_IRQS" using find_unbound_irq_ok [OF irq] by (auto simp: dynamic_def)
  have "bindings_ok n (count_bind irq (bind_port ty 0 irq port st))"
    by (rule bindings_ok_after_bind [OF ok i(3) unbound_number [OF ok i(3,2,1)] p ty, where ix = 0 and c = 1])
      (auto simp: count_bind_def bind_port_def i(2))
  then show ?thesis using i by (simp add: bound_result_def count_bind_def bind_port_def)
qed

lemma bind_again_ok:
  assumes "bindings_ok n st" "irq < NR_IRQS" "irq_info st irq \<noteq> IRQ_UNBOUND" "0 \<le> irq_bindcount st irq"
  shows "bound_result n (int irq) (count_bind irq st)"
  using bindings_ok_count [OF assms(1-3)] assms by (simp add: bound_result_def count_bind_def)

lemma bind_caller_ok:
  assumes ok: "bindings_ok n st" "p \<in> {0<..<NR_EVENT_CHANNELS}" and b: "bind_caller_port_to_irq p st = Some (irq, port, st')"
  shows "bound_result n irq st'"
proof (cases "evtchn_to_irq st p = - 1")
  case True
  then obtain k where "find_unbound_irq st = Some k" "irq = int k" "st' = count_bind k (bind_port IRQT_CALLER_PORT 0 k p st)"
    using b by (auto simp: bind_caller_port_to_irq_def elim!: bind_SomeE)
  then show ?thesis using bind_new_ok [OF ok(1) _ ok(2) True irqt_small(6)] by simp
next
  case False
  then obtain k where k: "evtchn_to_irq st p = int k" "k < NR_IRQS" "irq_info st k \<noteq> IRQ_UNBOUND" "0 \<le> irq_bindcount st k"
    using channel_bound [OF ok] by metis
  then have "irq = int k" "st' = count_bind k st" using b by (auto simp: bind_caller_port_to_irq_def)
  then show ?thesis using bind_again_ok [OF ok(1) k(2-4)] by simp
qed

lemma bind_local_ok:
  "bindings_ok n st \<Longrightarrow> p \<in> {0<..<NR_EVENT_CHANNELS} \<Longrightarrow> bind_local_port_to_irq p st = Some (irq, port, st') \<Longrightarrow> bound_result n irq st'"
  by (auto simp: bind_local_port_to_irq_def elim!: bind_SomeE intro!: bind_new_ok irqt_small split: if_splits)

lemma source_bound:
  assumes "bindings_ok n st" "source_ok st ty cpu v irq" "irq \<noteq> - 1"
  obtains k where "irq = int k" "k < NR_IRQS" "irq_info st k \<noteq> IRQ_UNBOUND" "0 \<le> irq_bindcount st k"
proof -
  have s: "irq = int (nat irq)" "nat irq < NR_IRQS" "0 < irq_bindcount st (nat irq)"
    using assms(2,3) by (auto simp: source_ok_def dynamic_def)
  then have "number_ok st (nat irq)" using assms(1) by (simp add: bindings_ok_def)
  then have "irq_info st (nat irq) \<noteq> IRQ_UNBOUND" using s(3) by (auto simp: number_ok_def evtchn_from_irq_def)
  then show ?thesis using that [of "nat irq"] s by simp
qed

lemma bind_virq_ok:
  assumes ok: "bindings_ok n st" and v: "v < NR_VIRQS" "cpu < n"
    and p: "bind_virq_port x v cpu \<in> {0<..<NR_EVENT_CHANNELS}" "evtchn_to_irq st (bind_virq_port x v cpu) = - 1"
    and b: "bind_virq_to_irq x v cpu st = Some (irq, port, st')"
  shows "bound_result n irq st'"
proof (cases "virq_to_irq st cpu v = - 1")
  case True
  let ?p = "bind_virq_port x v cpu"
  obtain k where k: "find_unbound_irq st = Some k" "irq = int k"
    "st' = count_bind k (bind_evtchn_to_cpu ?p cpu ((bind_port IRQT_VIRQ v k ?p st)
       \<lparr>virq_to_irq := (virq_to_irq (bind_port IRQT_VIRQ v k ?p st))(cpu := (virq_to_irq (bind_port IRQT_VIRQ v k ?p st) cpu)(v := int k))\<rparr>))"
    using b True by (auto simp: bind_virq_to_irq_def Let_def elim!: bind_SomeE)
  have i: "dynamic k" "irq_bindcount st k = 0" "k < NR_IRQS" using find_unbound_irq_ok [OF k(1)] by (auto simp: dynamic_def)
  have w: "v < 2 ^ 16" using v by (simp add: NR_VIRQS_def)
  have "bindings_ok n st'"
    by (rule bindings_ok_after_bind [OF ok i(3) unbound_number [OF ok i(3,2,1)] p irqt_small(3) w, where c = 1])
      (auto simp: k(3) count_bind_def bind_port_def bind_evtchn_to_cpu_def Let_def i)
  then show ?thesis using i k by (simp add: bound_result_def count_bind_def bind_port_def bind_evtchn_to_cpu_def Let_def)
next
  case False
  have "source_ok st IRQT_VIRQ cpu v (virq_to_irq st cpu v)" using ok v by (simp add: bindings_ok_def)
  then show ?thesis using False b
    by (auto simp: bind_virq_to_irq_def Let_def elim!: source_bound [OF ok] intro!: bind_again_ok [OF ok])
qed

lemma bind_ipi_ok:
  assumes ok: "bindings_ok n st" and v: "v < 2 ^ 16" "cpu < n"
    and p: "bind_ipi_port x cpu \<in> {0<..<NR_EVENT_CHANNELS}" "evtchn_to_irq st (bind_ipi_port x cpu) = - 1"
    and b: "bind_ipi_to_irq x v cpu st = Some (irq, port, st')"
  shows "bound_result n irq st'"
proof (cases "ipi_to_irq st cpu v = - 1")
  case True
  let ?p = "bind_ipi_port x cpu"
  obtain k where k: "find_unbound_irq st = Some k" "irq = int k"
    "st' = count_bind k (bind_evtchn_to_cpu ?p cpu ((bind_port IRQT_IPI v k ?p st)
       \<lparr>ipi_to_irq := (ipi_to_irq (bind_port IRQT_IPI v k ?p st))(cpu := (ipi_to_irq (bind_port IRQT_IPI v k ?p st) cpu)(v := int k))\<rparr>))"
    using b True by (auto simp: bind_ipi_to_irq_def Let_def elim!: bind_SomeE)
  have i: "dynamic k" "irq_bindcount st k = 0" "k < NR_IRQS" using find_unbound_irq_ok [OF k(1)] by (auto simp: dynamic_def)
  have "bindings_ok n st'"
    by (rule bindings_ok_after_bind [OF ok i(3) unbound_number [OF ok i(3,2,1)] p irqt_small(4) v(1), where c = 1])
      (auto simp: k(3) count_bind_def bind_port_def bind_evtchn_to_cpu_def Let_def i)
  then show ?thesis using i k by (simp add: bound_result_def count_bind_def bind_port_def bind_evtchn_to_cpu_def Let_def)
next
  case False
  have "source_ok st IRQT_IPI cpu v (ipi_to_irq st cpu v)" using ok v by (simp add: bindings_ok_def)
  then show ?thesis using False b
    by (auto simp: bind_ipi_to_irq_def Let_def elim!: source_bound [OF ok] intro!: bind_again_ok [OF ok])
qed

lemma add_irq_handler_ok:
  assumes "bound_result n irq st" "add_irq_handler x cpu irq port st = Some (r, st')"
  shows "bindings_ok n st'"
proof -
  have "bindings_ok n (unbind_from_irq (nat irq) st)"
    by (rule bindings_ok_unbind) (use assms(1) in \<open>auto simp: bound_result_def\<close>)
  moreover have "bindings_ok n (unmask_evtchn cpu p st)" for p
    using assms(1) bindings_ok_cong [OF bindings_unmask] by (simp add: bound_result_def)
  ultimately show ?thesis using assms by (auto simp: add_irq_handler_def bound_result_def split: if_splits option.splits)
qed

section \<open>Reachable states\<close>

text \<open>
  What happens to the driver. A channel the hypervisor allocates is one of the table and not in use; the
  numbers that are unbound are bound.
\<close>

definition new_channel :: "evt \<Rightarrow> nat \<Rightarrow> bool" where
  "new_channel st p \<longleftrightarrow> p \<in> {0<..<NR_EVENT_CHANNELS} \<and> evtchn_to_irq st p = - 1"

inductive estep :: "nat \<Rightarrow> evt \<Rightarrow> evt \<Rightarrow> bool" for n :: nat where
  e_caller: "p \<in> {0<..<NR_EVENT_CHANNELS} \<Longrightarrow> bind_caller_port_to_irqhandler x cpu p st = Some (r, st') \<Longrightarrow> estep n st st'"
| e_listen: "snd (alloc_unbound x d) \<in> {0<..<NR_EVENT_CHANNELS} \<Longrightarrow> fst (alloc_unbound x d) = 0 \<Longrightarrow>
    bind_listening_port_to_irqhandler x cpu d st = Some (r, st') \<Longrightarrow> estep n st st'"
| e_inter: "snd (bind_interdomain x d p) \<in> {0<..<NR_EVENT_CHANNELS} \<Longrightarrow> fst (bind_interdomain x d p) = 0 \<Longrightarrow>
    bind_interdomain_evtchn_to_irqhandler x cpu d p st = Some (r, st') \<Longrightarrow> estep n st st'"
| e_virq: "v < NR_VIRQS \<Longrightarrow> c < n \<Longrightarrow> new_channel st (bind_virq_port x v c) \<Longrightarrow>
    bind_virq_to_irqhandler x cpu v c st = Some (r, st') \<Longrightarrow> estep n st st'"
| e_ipi: "i < 2 ^ 16 \<Longrightarrow> c < n \<Longrightarrow> new_channel st (bind_ipi_port x c) \<Longrightarrow>
    bind_ipi_to_irqhandler x cpu i c st = Some (r, st') \<Longrightarrow> estep n st st'"
| e_unbind: "irq < NR_IRQS \<Longrightarrow> 0 < irq_bindcount st irq \<Longrightarrow> estep n st (unbind_from_irqhandler irq st)"
| e_pirq: "xenpic_vector st pin < NR_PIRQS \<Longrightarrow> (\<And>p. bind_pirq_port x (xenpic_vector st pin) = Some p \<Longrightarrow> new_channel st p) \<Longrightarrow>
    xenpic_pirq_enable_intr x cpu pin st = Some st' \<Longrightarrow> estep n st st'"
| e_mask: "estep n st (mask_evtchn p st)"
| e_unmask: "estep n st (unmask_evtchn cpu p st)"
| e_enable: "estep n st (xenpic_dynirq_enable_source cpu pin st)"
| e_disable: "estep n st (xenpic_dynirq_disable_source pin st)"
| e_eoi: "estep n st (xenpic_dynirq_eoi_source cpu pin st)"
| e_upcall: "evtchn_do_upcall note_run cpu st = Some st' \<Longrightarrow> estep n st st'"

inductive_cases estepE: "estep n st st'"

lemma bindings_ok_keep: "bindings_ok n st \<Longrightarrow> bindings st' = bindings st \<Longrightarrow> bindings_ok n st'"
  using bindings_ok_cong by blast

lemma bindings_set_pin: "bindings (set_pin_masked pin b st) = bindings st"
  by (simp add: bindings_def set_pin_masked_def)

lemma bindings_clear: "bindings (clear_evtchn p st) = bindings st"
  by (simp add: bindings_def clear_evtchn_def)

lemma bindings_pirq_notify: "bindings (pirq_unmask_notify p st) = bindings st"
  by (simp add: pirq_unmask_notify_def bindings_note)

lemmas bindings_simps = bindings_note bindings_mask bindings_unmask bindings_set_pin bindings_clear bindings_pirq_notify

lemma channels_loop_bindings: "channels_loop run cpu i st = Some st' \<Longrightarrow> run = note_run \<Longrightarrow> bindings st' = bindings st"
proof (induction arbitrary: rule: channels_loop.raw_induct [rotated, consumes 1])
  case (1 loop run cpu i st st')
  then show ?case by (auto simp: Let_def note_run_def bindings_simps split: if_splits)
qed

lemma words_loop_bindings: "words_loop run cpu l st = Some st' \<Longrightarrow> run = note_run \<Longrightarrow> bindings st' = bindings st"
proof (induction rule: words_loop.raw_induct [rotated, consumes 1])
  case (1 loop run cpu l st st')
  then show ?case by (auto simp: channels_loop_bindings elim!: bind_SomeE split: if_splits)
qed

lemma pirq_enable_ok:
  assumes ok: "bindings_ok n st" and v: "xenpic_vector st pin < NR_PIRQS"
    and p: "\<And>p. bind_pirq_port x (xenpic_vector st pin) = Some p \<Longrightarrow> new_channel st p"
    and e: "xenpic_pirq_enable_intr x cpu pin st = Some st'"
  shows "bindings_ok n st'"
proof -
  let ?irq = "xenpic_vector st pin"
  have irq: "?irq < NR_IRQS" "?irq < 2 ^ 16" "\<not> dynamic ?irq"
    using v by (auto simp: NR_PIRQS_def NR_IRQS_def dynamic_def DYNIRQ_BASE_def)
  show ?thesis
  proof (cases "evtchn_from_irq st ?irq = 0")
    case False
    then have "bindings st' = bindings st" using e by (auto simp: xenpic_pirq_enable_intr_def Let_def bindings_simps)
    then show ?thesis by (rule bindings_ok_keep [OF ok])
  next
    case True
    then obtain c where c: "bind_pirq_port x ?irq = Some c" and s: "st' = pirq_unmask_notify ?irq (unmask_evtchn cpu c
        (bind_port IRQT_PIRQ ?irq ?irq c (bind_evtchn_to_cpu c 0 (pirq_query_unmask x ?irq st))))"
      using e by (auto simp: xenpic_pirq_enable_intr_def Let_def split: option.splits)
    have b: "bindings st' = bindings (bind_port IRQT_PIRQ ?irq ?irq c (bind_evtchn_to_cpu c 0 (pirq_query_unmask x ?irq st)))"
      unfolding s bindings_simps ..
    have n: "irq_info st ?irq = IRQ_UNBOUND" "irq_bindcount st ?irq = 0"
      using ok irq(1) True by (auto simp: bindings_ok_def number_ok_def)
    have "bindings_ok n (bind_port IRQT_PIRQ ?irq ?irq c (bind_evtchn_to_cpu c 0 (pirq_query_unmask x ?irq st)))"
      by (rule bindings_ok_after_bind [OF ok irq(1) n(1) _ _ irqt_small(2) irq(2), where c = 0 and port = c])
        (use p [OF c] irq(3) n(2) in \<open>auto simp: new_channel_def bind_port_def bind_evtchn_to_cpu_def pirq_query_unmask_def Let_def\<close>)
    then show ?thesis using b by (rule bindings_ok_keep)
  qed
qed

lemma estep_ok: "estep n st st' \<Longrightarrow> bindings_ok n st \<Longrightarrow> bindings_ok n st'"
proof (induction rule: estep.induct)
  case (e_caller p x cpu st r st')
  then obtain irq port s where "bind_caller_port_to_irq p st = Some (irq, port, s)" "add_irq_handler x cpu irq (Some port) s = Some (r, st')"
    by (auto simp: bind_caller_port_to_irqhandler_def elim!: bind_SomeE)
  then show ?case using e_caller bind_caller_ok add_irq_handler_ok by blast
next
  case (e_listen x d cpu st r st')
  then obtain irq port s where "bind_local_port_to_irq (snd (alloc_unbound x d)) st = Some (irq, port, s)"
    "add_irq_handler x cpu irq (Some port) s = Some (r, st')"
    by (auto simp: bind_listening_port_to_irqhandler_def bind_listening_port_to_irq_def Let_def split_beta elim!: bind_SomeE)
  then show ?case using e_listen bind_local_ok add_irq_handler_ok by blast
next
  case (e_inter x d p cpu st r st')
  then obtain irq port s where "bind_local_port_to_irq (snd (bind_interdomain x d p)) st = Some (irq, port, s)"
    "add_irq_handler x cpu irq (Some port) s = Some (r, st')"
    by (auto simp: bind_interdomain_evtchn_to_irqhandler_def bind_interdomain_evtchn_to_irq_def Let_def split_beta elim!: bind_SomeE)
  then show ?case using e_inter bind_local_ok add_irq_handler_ok by blast
next
  case (e_virq v c st x cpu r st')
  then obtain irq port s where "bind_virq_to_irq x v c st = Some (irq, port, s)" "add_irq_handler x cpu irq (Some port) s = Some (r, st')"
    by (auto simp: bind_virq_to_irqhandler_def elim!: bind_SomeE)
  then show ?case using e_virq bind_virq_ok add_irq_handler_ok unfolding new_channel_def by blast
next
  case (e_ipi i c st x cpu r st')
  then obtain irq port s where "bind_ipi_to_irq x i c st = Some (irq, port, s)" "add_irq_handler x cpu irq (Some port) s = Some (r, st')"
    by (auto simp: bind_ipi_to_irqhandler_def elim!: bind_SomeE)
  then show ?case using e_ipi bind_ipi_ok add_irq_handler_ok unfolding new_channel_def by blast
next
  case (e_unbind irq st)
  then show ?case by (simp add: unbind_from_irqhandler_def bindings_ok_unbind)
next
  case (e_pirq st pin x cpu st')
  then show ?case using pirq_enable_ok by blast
next
  case (e_upcall cpu st st')
  then have "bindings st' = bindings (st\<lparr>upcall_pending := (upcall_pending st)(cpu := False), pending_sel := (pending_sel st)(cpu := 0)\<rparr>)"
    by (auto simp: evtchn_do_upcall_def Let_def dest: words_loop_bindings)
  then have "bindings st' = bindings st" by (simp add: bindings_def)
  then show ?case by (rule bindings_ok_keep [OF e_upcall(2)])
qed (erule bindings_ok_keep, simp add: bindings_simps xenpic_dynirq_enable_source_def xenpic_dynirq_disable_source_def
    xenpic_dynirq_eoi_source_def Let_def)+

lemma fold_mask_bindings: "bindings (fold mask_evtchn ps st) = bindings st"
  by (induction ps arbitrary: st) (simp_all add: bindings_mask)

lemma evtchn_init_ok: "evtchn_init n pics_ok st0 = Some st \<Longrightarrow> bindings_ok n st"
proof -
  let ?i = "init_evtchn_cpu_bindings st0"
  let ?s = "?i\<lparr>virq_to_irq := (\<lambda>cpu. if cpu < n then (\<lambda>v. if v < NR_VIRQS then - 1 else virq_to_irq ?i cpu v) else virq_to_irq ?i cpu),
                 ipi_to_irq := (\<lambda>cpu. if cpu < n then (\<lambda>_. - 1) else ipi_to_irq ?i cpu), evtchn_to_irq := (\<lambda>_. - 1)\<rparr>"
  assume "evtchn_init n pics_ok st0 = Some st"
  then have s: "st = (fold mask_evtchn [0..<NR_EVENT_CHANNELS] ?s)
      \<lparr>irq_info := (\<lambda>_. IRQ_UNBOUND), pin_masked := (\<lambda>_. False), irq_bindcount := (\<lambda>_. 0), pin_vector := of_nat\<rparr>"
    by (simp add: evtchn_init_def Let_def split: if_splits)
  have b: "evtchn_to_irq st = evtchn_to_irq ?s" "virq_to_irq st = virq_to_irq ?s" "ipi_to_irq st = ipi_to_irq ?s"
    using fold_mask_bindings [of "[0..<NR_EVENT_CHANNELS]" ?s] by (simp_all add: s bindings_def)
  have "irq_info st = (\<lambda>_. IRQ_UNBOUND)" "irq_bindcount st = (\<lambda>_. 0)" by (simp_all add: s)
  then show ?thesis using b by (simp add: bindings_ok_def channel_ok_def number_ok_def source_ok_def)
qed

text \<open>
  C17. From start-up on, whatever is bound and unbound, the tables agree: a bound channel is the channel of its
  interrupt number, so no two channels share a number, and every number in use has its channel.
\<close>

theorem channel_bindings_agree:
  assumes "evtchn_init n pics_ok st0 = Some st1" "(estep n)\<^sup>*\<^sup>* st1 st"
  shows "bindings_ok n st"
  using assms(2) evtchn_init_ok [OF assms(1)] by (induction rule: rtranclp_induct) (auto intro: estep_ok)

definition demo_calls :: xen_calls where
  "demo_calls = \<lparr>alloc_unbound = (\<lambda>_. (0, 5)), bind_interdomain = (\<lambda>_ _. (0, 6)), bind_virq_port = (\<lambda>v _. v + 1),
     bind_ipi_port = (\<lambda>c. c + 100), bind_pirq_port = (\<lambda>p. Some (p + 200)), pirq_status = (\<lambda>_. True), add_handler = (\<lambda>_. True)\<rparr>"

definition zero_evt :: evt where
  "zero_evt = \<lparr>evtchn_to_irq = (\<lambda>_. 0), irq_info = (\<lambda>_. 0), irq_bindcount = (\<lambda>_. 0), virq_to_irq = (\<lambda>_ _. 0),
     ipi_to_irq = (\<lambda>_ _. 0), cpu_evtchn = (\<lambda>_. 0), cpu_evtchn_mask = (\<lambda>_ _. 0), evtchn_pending = (\<lambda>_. 0),
     evtchn_mask = (\<lambda>_. 0), pending_sel = (\<lambda>_. 0), upcall_pending = (\<lambda>_. False), upcall_mask = (\<lambda>_. False),
     pirq_needs_unmask_notify = (\<lambda>_. False), pin_masked = (\<lambda>_. False), pin_vector = (\<lambda>_. 0), irq_is_legacy = False, hlog = []\<rparr>"

lemma evtchn_init_state:
  obtains st where "evtchn_init n True st0 = Some st" "evtchn_to_irq st = (\<lambda>_. - 1)" "irq_bindcount st = (\<lambda>_. 0)"
proof -
  obtain st where s: "evtchn_init n True st0 = Some st" by (simp add: evtchn_init_def Let_def)
  have "evtchn_to_irq (fold mask_evtchn ps t) = evtchn_to_irq t" for ps t
    using fold_mask_bindings [of ps t] by (simp add: bindings_def)
  then have "evtchn_to_irq st = (\<lambda>_. - 1)" "irq_bindcount st = (\<lambda>_. 0)"
    using s by (auto simp: evtchn_init_def Let_def)
  then show ?thesis using that s by blast
qed

lemma find_unbound_first: "irq_bindcount st 128 = 0 \<Longrightarrow> find_unbound_irq st = Some 128"
proof -
  have "find_unbound_loop st 0 (Suc n) = Some 128" if "irq_bindcount st 128 = 0" for n
    using that by (simp add: dynirq_to_irq_def DYNIRQ_BASE_def NR_IRQS_def)
  from this [of 255] show "irq_bindcount st 128 = 0 \<Longrightarrow> find_unbound_irq st = Some 128"
    by (simp add: find_unbound_irq_def NR_IRQS_def del: find_unbound_loop.simps)
qed

theorem channel_bindings_agree_witness:
  "\<exists>st1 st. evtchn_init 2 True zero_evt = Some st1 \<and> (estep 2)\<^sup>*\<^sup>* st1 st \<and> irq_bindcount st 128 = 1 \<and> bindings_ok 2 st"
proof -
  obtain st1 where i: "evtchn_init 2 True zero_evt = Some st1" "evtchn_to_irq st1 = (\<lambda>_. - 1)" "irq_bindcount st1 = (\<lambda>_. 0)"
    by (rule evtchn_init_state)
  let ?s = "count_bind 128 (bind_port IRQT_CALLER_PORT 0 128 77 st1)"
  have "bind_caller_port_to_irqhandler demo_calls 0 77 st1 = Some (Some 128, unmask_evtchn 0 77 ?s)"
    using i find_unbound_first [of st1]
    by (simp add: bind_caller_port_to_irqhandler_def bind_caller_port_to_irq_def add_irq_handler_def demo_calls_def NR_IRQS_def)
  then have st: "(estep 2)\<^sup>*\<^sup>* st1 (unmask_evtchn 0 77 ?s)"
    by (intro r_into_rtranclp e_caller [where p = 77]) (auto simp: NR_EVENT_CHANNELS_def)
  have "irq_bindcount (unmask_evtchn 0 77 ?s) = irq_bindcount ?s" using bindings_unmask [of 0 77 ?s] by (simp add: bindings_def)
  then have "irq_bindcount (unmask_evtchn 0 77 ?s) 128 = 1" using i by (simp add: count_bind_def bind_port_def)
  then show ?thesis using channel_bindings_agree [OF i(1) st] i(1) st by blast
qed

section \<open>Delivery\<close>

text \<open>
  C18. An upcall runs the handlers of every active channel it can see, word by word and bit by bit from the lowest,
  when these channels are bound. It sees the low half of the selector and the low half of each word.
\<close>

theorem upcall_runs_in_order:
  assumes "\<And>i j. i \<in> set (low_bits (pending_sel st cpu)) \<Longrightarrow> j \<in> set (low_bits (active_evtchns cpu i st)) \<Longrightarrow>
    evtchn_to_irq st (i * LONG_BIT + j) \<noteq> - 1"
  shows "\<exists>st'. evtchn_do_upcall note_run cpu st = Some st' \<and> pending_sel st' cpu = 0 \<and>
    hlog st' = hlog st @ concat (map (\<lambda>i. map (\<lambda>j. Run_handlers (nat (evtchn_to_irq st (i * LONG_BIT + j))))
      (low_bits (active_evtchns cpu i st))) (low_bits (pending_sel st cpu)))"
proof -
  let ?s = "st\<lparr>upcall_pending := (upcall_pending st)(cpu := False), pending_sel := (pending_sel st)(cpu := 0)\<rparr>"
  have a: "active_evtchns cpu i ?s = active_evtchns cpu i st" for i by (simp add: active_evtchns_def)
  have "runs_of ?s i js = runs_of st i js" for i js by (simp add: runs_of_def)
  moreover obtain st' where "words_loop note_run cpu (ucast (pending_sel st cpu)) ?s = Some st'" "pending_sel st' = pending_sel ?s"
    "hlog st' = hlog ?s @ concat (map (\<lambda>i. runs_of ?s i (low_bits (active_evtchns cpu i ?s))) (low_bits (pending_sel st cpu)))"
    using words_loop_runs [OF low_bits_ucast, of "pending_sel st cpu" cpu ?s] assms by (auto simp: a)
  ultimately show ?thesis by (simp add: evtchn_do_upcall_def a) (simp add: runs_of_def)
qed

definition two_pending :: evt where
  "two_pending = zero_evt\<lparr>pending_sel := (\<lambda>_. 0b10), evtchn_pending := (\<lambda>i. 0x101), cpu_evtchn_mask := (\<lambda>_ _. NOT 0),
     evtchn_to_irq := (\<lambda>p. int p + 100)\<rparr>"

lemma low_bits_eval: "low_bits 0b10 = [1]" "low_bits (0x101 AND NOT 0 AND NOT 0) = [0, 8]" "low_bits 0 = []"
  by (simp_all add: low_bits_def upt_rec bit_simps)

theorem upcall_runs_in_order_witness:
  "\<exists>st'. evtchn_do_upcall note_run 0 two_pending = Some st' \<and> pending_sel st' 0 = 0 \<and> hlog st' = [Run_handlers 164, Run_handlers 172]"
  using upcall_runs_in_order [of two_pending 0] low_bits_eval
  by (simp add: two_pending_def active_evtchns_def zero_evt_def LONG_BIT_def)

text \<open>
  What a step leaves alone of a channel: whether it is pending, the table of numbers and the selectors. Handlers
  that spare \<open>p\<close> do so, except perhaps those of the number \<open>irq\<close>; that number is of no channel in a low half.
\<close>

definition leaves :: "nat \<Rightarrow> evt \<Rightarrow> evt \<Rightarrow> bool" where
  "leaves p s s' \<longleftrightarrow> test_nr p (evtchn_pending s') = test_nr p (evtchn_pending s) \<and>
     evtchn_to_irq s' = evtchn_to_irq s \<and> pending_sel s' = pending_sel s"

definition spares :: "(nat \<Rightarrow> evt \<Rightarrow> evt) \<Rightarrow> nat \<Rightarrow> nat \<Rightarrow> bool" where
  "spares run irq p \<longleftrightarrow> (\<forall>k s. k \<noteq> irq \<longrightarrow> leaves p s (run k s))"

definition only_high :: "nat \<Rightarrow> evt \<Rightarrow> bool" where
  "only_high irq st \<longleftrightarrow>
     (\<forall>q. q mod LONG_BIT < 32 \<longrightarrow> evtchn_to_irq st q \<noteq> - 1 \<longrightarrow> nat (evtchn_to_irq st q) \<noteq> irq)"

lemma leaves_refl: "leaves p s s"
  by (simp add: leaves_def)

lemma leaves_trans: "leaves p s t \<Longrightarrow> leaves p t u \<Longrightarrow> leaves p s u"
  by (simp add: leaves_def)

lemma leaves_high: "leaves p s t \<Longrightarrow> only_high irq s \<Longrightarrow> only_high irq t"
  by (simp add: leaves_def only_high_def)

lemma ffs_low: "l \<noteq> 0 \<Longrightarrow> ffs l < 32"
proof -
  assume "l \<noteq> 0"
  then obtain i js where "filter (bit l) [0..<32] = i # js" using filter_bits_nil by (cases "filter (bit l) [0..<32]") auto
  moreover from this have "i \<in> set (filter (bit l) [0..<32])" by (simp only:) simp
  then have "i < 32" by simp
  ultimately show ?thesis using ffs_filter [of l i js] by simp
qed

lemma low_port: "l \<noteq> 0 \<Longrightarrow> (i * LONG_BIT + ffs l) mod LONG_BIT < 32"
  using ffs_low [of l] by (simp add: LONG_BIT_def)

lemma clear_leaves:
  assumes "q \<noteq> p" shows "leaves p s (clear_evtchn q (mask_evtchn q s))"
proof -
  have "q div LONG_BIT \<noteq> p div LONG_BIT \<or> q mod LONG_BIT \<noteq> p mod LONG_BIT"
    using assms by (metis div_mult_mod_eq)
  then show ?thesis
    by (auto simp: leaves_def clear_evtchn_def mask_evtchn_def test_nr_def clear_nr_def bit_simps LONG_BIT_def)
qed

lemma channels_loop_high:
  "channels_loop run cpu i st = Some st' \<Longrightarrow> spares run irq p \<Longrightarrow> 32 \<le> p mod LONG_BIT \<Longrightarrow> only_high irq st \<Longrightarrow>
    (\<forall>k. k \<noteq> irq \<longrightarrow> run' k = run k) \<Longrightarrow> channels_loop run' cpu i st = Some st' \<and> leaves p st st'"
proof (induction rule: channels_loop.raw_induct [rotated, consumes 1])
  case (1 loop run cpu i st st')
  let ?l = "ucast (active_evtchns cpu i st) :: u32"
  let ?q = "i * LONG_BIT + ffs ?l"
  let ?k = "evtchn_to_irq st ?q"
  let ?t = "clear_evtchn ?q (mask_evtchn ?q st)"
  show ?case
  proof (cases "?l = 0")
    case True
    then have "st' = st" using "1.hyps" by (simp add: Let_def)
    then show ?thesis using True by (subst channels_loop.simps) (simp add: leaves_refl)
  next
    case False
    note low = low_port [OF False, of i]
    show ?thesis
    proof (cases "?k = - 1")
      case True
      then have "loop run cpu i st = Some st'" using "1.hyps" False by (simp add: Let_def)
      from "1.IH" [OF this "1.prems"] show ?thesis using False True by (subst channels_loop.simps) (simp add: Let_def)
    next
      case k: False
      then have l: "loop run cpu i (run (nat ?k) ?t) = Some st'" using "1.hyps" False by (simp add: Let_def)
      have n: "nat ?k \<noteq> irq" using "1.prems"(3) low k by (auto simp: only_high_def)
      have q: "?q \<noteq> p" using low "1.prems"(2) by auto
      have "leaves p ?t (run (nat ?k) ?t)" using "1.prems"(1) n unfolding spares_def by blast
      with clear_leaves [OF q] have v: "leaves p st (run (nat ?k) ?t)" by (rule leaves_trans)
      have r: "run' (nat ?k) = run (nat ?k)" using "1.prems"(4) n by blast
      have "channels_loop run' cpu i st = channels_loop run' cpu i (run (nat ?k) ?t)"
        using False k by (subst channels_loop.simps) (simp add: Let_def r)
      then show ?thesis
        using "1.IH" [OF l "1.prems"(1,2) leaves_high [OF v "1.prems"(3)] "1.prems"(4)] leaves_trans [OF v] by metis
    qed
  qed
qed

lemma words_loop_high:
  "words_loop run cpu l1 st = Some st' \<Longrightarrow> spares run irq p \<Longrightarrow> 32 \<le> p mod LONG_BIT \<Longrightarrow> only_high irq st \<Longrightarrow>
    (\<forall>k. k \<noteq> irq \<longrightarrow> run' k = run k) \<Longrightarrow> words_loop run' cpu l1 st = Some st' \<and> leaves p st st'"
proof (induction rule: words_loop.raw_induct [rotated, consumes 1])
  case (1 loop run cpu l1 st st')
  show ?case
  proof (cases "l1 = 0")
    case True
    then show ?thesis using "1.hyps" by (subst words_loop.simps) (simp add: leaves_refl)
  next
    case False
    then obtain t where t: "channels_loop run cpu (ffs l1) st = Some t"
        "loop run cpu (l1 AND NOT (push_bit (ffs l1) 1)) t = Some st'"
      using "1.hyps" by (auto simp: bind_eq_Some_conv)
    from channels_loop_high [OF t(1) "1.prems"]
    have c: "channels_loop run' cpu (ffs l1) st = Some t" "leaves p st t" by blast+
    from "1.IH" [OF t(2) "1.prems"(1,2) leaves_high [OF c(2) "1.prems"(3)] "1.prems"(4)] show ?thesis
      using False c leaves_trans [OF c(2)] by (subst words_loop.simps) simp
  qed
qed

text \<open>
  C19. A channel in the upper half of its word is never served, whatever other channels are active: an upcall that
  returns has the same result whatever the handlers \<open>h\<close> of the channel's number would do, so they are not run; the
  channel is as pending as before, and the selector, with the bit that pointed to its word, is cleared. The
  handlers of the other numbers may do anything that leaves this channel, the tables and the selectors alone.
\<close>

theorem upcall_misses_high_channels:
  assumes "evtchn_do_upcall run cpu st = Some st'" and "32 \<le> p mod LONG_BIT" and "only_high irq st" and "spares run irq p"
  shows "evtchn_do_upcall (run(irq := h)) cpu st = Some st' \<and>
    test_nr p (evtchn_pending st') = test_nr p (evtchn_pending st) \<and> pending_sel st' cpu = 0"
proof -
  let ?s = "st\<lparr>upcall_pending := (upcall_pending st)(cpu := False), pending_sel := (pending_sel st)(cpu := 0)\<rparr>"
  have "only_high irq ?s" using assms(3) by (simp add: only_high_def)
  from words_loop_high [OF _ assms(4,2) this, of _ _ _ "run(irq := h)"] assms(1) show ?thesis
    by (auto simp: evtchn_do_upcall_def leaves_def)
qed

text \<open>Channels 64 and 96 are pending, with the numbers 164 and 196: only the handlers of 164 are run.\<close>

theorem upcall_misses_high_channels_witness:
  "\<exists>st'. evtchn_do_upcall (note_run(196 := \<lambda>s. zero_evt)) 0 (two_pending\<lparr>evtchn_pending := (\<lambda>_. 0x100000001)\<rparr>) = Some st' \<and>
    hlog st' = [Run_handlers 164] \<and> test_nr 96 (evtchn_pending st') \<and> pending_sel st' 0 = 0"
proof -
  let ?s = "two_pending\<lparr>evtchn_pending := (\<lambda>_. 0x100000001)\<rparr>"
  let ?t = "?s\<lparr>upcall_pending := (upcall_pending ?s)(0 := False), pending_sel := (pending_sel ?s)(0 := 0)\<rparr>"
  have l: "low_bits (active_evtchns 0 i ?t) = [0]" for i
    by (simp add: active_evtchns_def two_pending_def zero_evt_def low_bits_def upt_rec bit_simps)
  have f: "filter (bit (ucast (pending_sel ?s 0) :: u32)) [0..<32] = [1]"
    unfolding low_bits_ucast using low_bits_eval(1) by (simp add: two_pending_def)
  obtain st' where s: "evtchn_do_upcall note_run 0 ?s = Some st'" "hlog st' = [Run_handlers 164]"
    using words_loop_runs [OF f, of 0 ?t] l
    by (auto simp: evtchn_do_upcall_def runs_of_def two_pending_def zero_evt_def LONG_BIT_def)
  have o: "only_high 196 ?s"
    by (auto simp: only_high_def two_pending_def LONG_BIT_def nat_eq_iff)
  have v: "spares note_run 196 96" by (simp add: spares_def leaves_def note_run_def note_event_def)
  have "test_nr 96 (evtchn_pending ?s)" by (simp add: test_nr_def LONG_BIT_def bit_simps)
  then show ?thesis
    using upcall_misses_high_channels [OF s(1) _ o v, of "\<lambda>s. zero_evt"] s(2) by (auto simp: LONG_BIT_def)
qed

text \<open>An active channel that is not bound is neither masked nor cleared: the upcall never ends.\<close>

lemma channels_loop_stuck:
  "channels_loop run cpu i st = Some st' \<Longrightarrow> (ucast (active_evtchns cpu i st) :: u32) \<noteq> 0 \<Longrightarrow>
   evtchn_to_irq st (i * LONG_BIT + ffs (ucast (active_evtchns cpu i st))) = - 1 \<Longrightarrow> False"
proof (induction rule: channels_loop.raw_induct [rotated, consumes 1])
  case (1 loop run cpu i st st')
  then show ?case by (auto simp: Let_def)
qed

theorem unbound_channel_hangs_upcall:
  assumes "low_bits (pending_sel st cpu) = i # ks" "low_bits (active_evtchns cpu i st) = j # js"
    "evtchn_to_irq st (i * LONG_BIT + j) = - 1"
  shows "evtchn_do_upcall run cpu st = None"
proof -
  let ?s = "st\<lparr>upcall_pending := (upcall_pending st)(cpu := False), pending_sel := (pending_sel st)(cpu := 0)\<rparr>"
  let ?l = "ucast (pending_sel st cpu) :: u32" and ?a = "ucast (active_evtchns cpu i ?s) :: u32"
  have "active_evtchns cpu i ?s = active_evtchns cpu i st" by (simp add: active_evtchns_def)
  then have a: "ffs ?a = j" "?a \<noteq> 0" using assms(2) ffs_filter [of ?a] by (simp_all add: low_bits_ucast)
  have l: "ffs ?l = i" "?l \<noteq> 0" using assms(1) ffs_filter [of ?l] by (simp_all add: low_bits_ucast)
  have "channels_loop run cpu i ?s = None"
    using channels_loop_stuck [of run cpu i ?s] a assms(3) by (cases "channels_loop run cpu i ?s") auto
  then show ?thesis using l by (simp add: evtchn_do_upcall_def words_loop.simps)
qed

theorem unbound_channel_hangs_upcall_witness:
  "evtchn_do_upcall note_run 0 (two_pending\<lparr>evtchn_to_irq := (\<lambda>_. - 1)\<rparr>) = None"
  by (rule unbound_channel_hangs_upcall [where i = 1 and ks = "[]" and j = 0 and js = "[8]"])
    (use low_bits_eval in \<open>simp_all add: two_pending_def active_evtchns_def zero_evt_def\<close>)

text \<open>
  A channel that becomes pending while it is masked is not lost: unmasking it on its own processor makes it
  active and sets its selector bit, so that the next upcall looks at it.
\<close>

theorem unmask_keeps_edge:
  assumes "\<not> irq_is_legacy st" "cpu_evtchn st port = cpu" "port < NR_EVENT_CHANNELS" "test_nr port (evtchn_pending st)"
    "test_nr port (cpu_evtchn_mask st cpu)"
  shows "bit (active_evtchns cpu (port div LONG_BIT) (unmask_evtchn cpu port st)) (port mod LONG_BIT) \<and>
     bit (pending_sel (unmask_evtchn cpu port st) cpu) (port div LONG_BIT)"
proof -
  have p: "port div LONG_BIT < 64" "port mod LONG_BIT < 64" using assms(3) by (simp_all add: NR_EVENT_CHANNELS_def LONG_BIT_def)
  let ?s = "unmask_evtchn cpu port st"
  have f: "evtchn_pending ?s = evtchn_pending st" "cpu_evtchn_mask ?s = cpu_evtchn_mask st" "evtchn_mask ?s = clear_nr port (evtchn_mask st)"
    by (simp_all add: unmask_evtchn_def note_event_def Let_def)
  have "bit (active_evtchns cpu (port div LONG_BIT) ?s) (port mod LONG_BIT)"
    using assms(4,5) p by (simp add: active_evtchns_def f test_nr_def clear_nr_def bit_simps)
  moreover have "bit (pending_sel ?s cpu) (port div LONG_BIT)"
    using assms(1,2,4) p by (auto simp: unmask_evtchn_def note_event_def Let_def bit_simps)
  ultimately show ?thesis by simp
qed

theorem unmask_keeps_edge_witness:
  "bit (active_evtchns 0 1 (unmask_evtchn 0 64 (two_pending\<lparr>evtchn_mask := (\<lambda>_. 1), pending_sel := (\<lambda>_. 0)\<rparr>))) 0 \<and>
   bit (pending_sel (unmask_evtchn 0 64 (two_pending\<lparr>evtchn_mask := (\<lambda>_. 1), pending_sel := (\<lambda>_. 0)\<rparr>)) 0) 1"
  using unmask_keeps_edge [of "two_pending\<lparr>evtchn_mask := (\<lambda>_. 1), pending_sel := (\<lambda>_. 0)\<rparr>" 64 0]
  by (simp add: two_pending_def zero_evt_def NR_EVENT_CHANNELS_def LONG_BIT_def test_nr_def)

section \<open>Resuming\<close>

text \<open>The mask that is to clear the channel clears four bits of the index as well.\<close>

lemma zapped_index: "take_bit 4 (info_index (w AND NOT 0xFFFF)) = 0"
proof -
  have m: "(0xFFFF :: u32) = mask 16" by (simp add: mask_eq_exp_minus_1)
  show ?thesis unfolding m by (rule bit_word_eqI) (auto simp: info_simps bit_simps)
qed

lemma rebind_virqs_fails:
  "v \<in> set vs \<Longrightarrow> virq_to_irq st 0 v = int k \<Longrightarrow> irq_info st k \<noteq> mk_irq_info IRQT_VIRQ (of_nat v) 0 \<Longrightarrow>
   (\<And>u. u \<in> set vs \<Longrightarrow> u \<noteq> v \<Longrightarrow> virq_to_irq st 0 u \<noteq> - 1 \<Longrightarrow> nat (virq_to_irq st 0 u) \<noteq> k) \<Longrightarrow>
   rebind_virqs x cpu vs st = None"
proof (induction vs arbitrary: st)
  case (Cons u vs)
  show ?case
  proof (cases "u = v \<or> virq_to_irq st 0 u = - 1")
    case True
    then show ?thesis using Cons by auto
  next
    case False
    let ?s = "\<lambda>p. unmask_evtchn cpu p (bind_port IRQT_VIRQ u (nat (virq_to_irq st 0 u)) p st)"
    have "bindings (?s p) = bindings (bind_port IRQT_VIRQ u (nat (virq_to_irq st 0 u)) p st)" for p by (rule bindings_unmask)
    then have "virq_to_irq (?s p) = virq_to_irq st" "irq_info (?s p) k = irq_info st k" for p
      using Cons.prems(4) [of u] False by (simp_all add: bindings_def bind_port_def)
    then have "rebind_virqs x cpu vs (?s p) = None" for p
      using Cons.prems False by (intro Cons.IH) auto
    then show ?thesis using False by (simp add: Let_def)
  qed
qed simp

text \<open>
  When a virtual interrupt is bound on the first processor whose number is no multiple of 16, the check that
  follows fails: resuming ends in a panic.
\<close>

theorem resume_panics:
  assumes "bindings_ok n st" "0 < n" "v < NR_VIRQS" "v mod 16 \<noteq> 0" "virq_to_irq st 0 v \<noteq> - 1"
  shows "irq_resume x cpu nr_ipis st = None"
proof -
  let ?m = "fold mask_evtchn [0..<NR_EVENT_CHANNELS] (init_evtchn_cpu_bindings st)"
  let ?z = "?m\<lparr>irq_info := (\<lambda>irq. irq_info ?m irq AND NOT 0xFFFF), evtchn_to_irq := (\<lambda>_. - 1)\<rparr>"
  have b: "virq_to_irq ?m = virq_to_irq st"
    using fold_mask_bindings [of "[0..<NR_EVENT_CHANNELS]" "init_evtchn_cpu_bindings st"]
    by (simp add: bindings_def init_evtchn_cpu_bindings_def)
  have src: "source_ok st IRQT_VIRQ 0 u (virq_to_irq st 0 u)" if "u < NR_VIRQS" for u
    using assms(1,2) that by (simp add: bindings_ok_def)
  obtain k where k: "virq_to_irq st 0 v = int k" "index_from_irq st k = v"
    using src [OF assms(3)] assms(5) by (auto simp: source_ok_def intro: nat_0_le [symmetric])
  have "info_index (mk_irq_info IRQT_VIRQ (of_nat v) 0) = of_nat v"
    using assms(3) by (intro mk_irq_info_fields irqt_small take_bit_small) (auto simp: NR_VIRQS_def)
  moreover have "take_bit 4 (of_nat v :: u32) \<noteq> 0"
  proof
    assume "take_bit 4 (of_nat v :: u32) = 0"
    then have "unat (of_nat (take_bit 4 v) :: u32) = 0" by (simp add: take_bit_of_nat)
    moreover have "take_bit 4 v < 2 ^ 16" using take_bit_nat_less_exp [of 4 v] by simp
    ultimately show False using assms(4) unat_small [of "take_bit 4 v"] by (simp add: take_bit_eq_mod)
  qed
  moreover have "irq_info ?z k = irq_info ?m k AND NOT 0xFFFF" by simp
  ultimately have "irq_info ?z k \<noteq> mk_irq_info IRQT_VIRQ (of_nat v) 0"
    using zapped_index [of "irq_info ?m k"] by (metis (no_types))
  moreover have "nat (virq_to_irq st 0 u) \<noteq> k" if "u \<in> set [0..<NR_VIRQS]" "u \<noteq> v" "virq_to_irq st 0 u \<noteq> - 1" for u
    using src [of u] that k by (auto simp: source_ok_def)
  ultimately have "rebind_virqs x cpu [0..<NR_VIRQS] ?z = None"
    using assms(3) k by (intro rebind_virqs_fails [where v = v and k = k]) (auto simp: b)
  then show ?thesis by (simp add: irq_resume_def Let_def)
qed

lemma bind_virq_first:
  assumes "virq_to_irq st c v = - 1" "irq_bindcount st 128 = 0"
  obtains st' where "bind_virq_to_irqhandler demo_calls 0 v c st = Some (Some 128, st')" "virq_to_irq st' c v = 128"
proof -
  obtain s where s: "bind_virq_to_irq demo_calls v c st = Some (128, v + 1, s)" "virq_to_irq s c v = 128"
    using assms find_unbound_first [of st]
    by (auto simp: bind_virq_to_irq_def count_bind_def bind_evtchn_to_cpu_def Let_def demo_calls_def bind_port_def)
  have "virq_to_irq (unmask_evtchn 0 (v + 1) s) = virq_to_irq s" using bindings_unmask [of 0 "v + 1" s] by (simp add: bindings_def)
  then show ?thesis
    using that [of "unmask_evtchn 0 (v + 1) s"] s by (simp add: bind_virq_to_irqhandler_def add_irq_handler_def demo_calls_def NR_IRQS_def)
qed

theorem resume_panics_witness:
  "\<exists>st1 st. evtchn_init 1 True zero_evt = Some st1 \<and> (estep 1)\<^sup>*\<^sup>* st1 st \<and> irq_resume demo_calls 0 1 st = None"
proof -
  obtain st1 where i: "evtchn_init 1 True zero_evt = Some st1" "evtchn_to_irq st1 = (\<lambda>_. - 1)" "irq_bindcount st1 = (\<lambda>_. 0)"
    by (rule evtchn_init_state)
  have "virq_to_irq (fold mask_evtchn ps t) = virq_to_irq t" for ps t
    using fold_mask_bindings [of ps t] by (simp add: bindings_def)
  then have v: "virq_to_irq st1 0 1 = - 1" using i(1) by (auto simp: evtchn_init_def Let_def NR_VIRQS_def)
  obtain st where s: "bind_virq_to_irqhandler demo_calls 0 1 0 st1 = Some (Some 128, st)" "virq_to_irq st 0 1 = 128"
    using bind_virq_first [OF v] i(3) by auto
  have step: "estep 1 st1 st"
    by (rule e_virq [OF _ _ _ s(1)]) (auto simp: NR_VIRQS_def new_channel_def demo_calls_def NR_EVENT_CHANNELS_def i(2))
  then have "bindings_ok 1 st" using estep_ok evtchn_init_ok [OF i(1)] by blast
  then have "irq_resume demo_calls 0 1 st = None"
    by (rule resume_panics [where v = 1]) (use s(2) in \<open>auto simp: NR_VIRQS_def\<close>)
  then show ?thesis using i(1) step by blast
qed

text \<open>When every dynamic number is in use the search reads behind the array of counts; the panic is never reached.\<close>

theorem no_number_left_faults:
  assumes "\<And>irq. dynamic irq \<Longrightarrow> irq_bindcount st irq \<noteq> 0" "evtchn_to_irq st p = - 1"
  shows "bind_caller_port_to_irqhandler x cpu p st = None"
proof -
  have "find_unbound_loop st i n = None" if "i + n = NR_IRQS" "i \<le> 128" for i n
    using that
  proof (induction n arbitrary: i)
    case (Suc n)
    show ?case
    proof (cases "i = 128")
      case False
      then show ?thesis using Suc assms(1) [of "dynirq_to_irq i"]
        by (simp add: Let_def dynamic_def dynirq_to_irq_def DYNIRQ_BASE_def NR_IRQS_def)
    qed (simp add: Let_def dynirq_to_irq_def DYNIRQ_BASE_def NR_IRQS_def)
  qed (simp add: NR_IRQS_def)
  then have "find_unbound_irq st = None" by (simp add: find_unbound_irq_def NR_IRQS_def)
  then show ?thesis using assms(2) by (simp add: bind_caller_port_to_irqhandler_def bind_caller_port_to_irq_def)
qed

theorem no_number_left_faults_witness:
  "bind_caller_port_to_irqhandler demo_calls 0 7 (zero_evt\<lparr>irq_bindcount := (\<lambda>_. 1), evtchn_to_irq := (\<lambda>_. - 1)\<rparr>) = None"
  by (rule no_number_left_faults) simp_all

text \<open>Binding a virtual interrupt again returns the number, but unmasks channel 0, not its own.\<close>

lemma virq_bound_again_unmasks_0:
  "virq_to_irq st c v = int k \<Longrightarrow> k < NR_IRQS \<Longrightarrow> add_handler x k \<Longrightarrow>
   bind_virq_to_irqhandler x cpu v c st = Some (Some k, unmask_evtchn cpu 0 (count_bind k st))"
  by (simp add: bind_virq_to_irqhandler_def bind_virq_to_irq_def add_irq_handler_def)

end
