(* ===== verification/XenStore.thy ===== *)
theory XenStore
  imports PciConfig
begin

text \<open>
  The XenStore driver (xen/xenstore/xenstore.cc): the two byte rings it shares with the XenStore service, messages
  with their replies, the requests made of them, transactions, and watches. The build of the kernel leaves the
  driver out; it is modelled as it stands. The service, the results of sleeping, and the functions of the system
  (\<open>sprintf\<close>, \<open>strtoul\<close>) are parameters; strings are lists of bytes without the terminator. None is a failed assertion, an
  access outside a buffer, or a loop that does not end.
\<close>

section \<open>The rings\<close>

definition RING_SIZE :: u32 where "RING_SIZE = 1024"

definition MASK_IDX :: "u32 \<Rightarrow> u32" where
  "MASK_IDX i = i AND (RING_SIZE - 1)"

text \<open>One direction of \<open>xenstore_domain_interface\<close>.\<close>

record ring =
  rbuf :: "u8 list"
  r_cons :: u32
  r_prod :: u32

definition xs_check_indexes :: "u32 \<Rightarrow> u32 \<Rightarrow> bool" where
  "xs_check_indexes c p \<longleftrightarrow> p - c \<le> RING_SIZE"

text \<open>The start of a chunk in the buffer and its length.\<close>

definition xs_get_output_chunk :: "u32 \<Rightarrow> u32 \<Rightarrow> nat \<times> u32" where
  "xs_get_output_chunk c p = (
     let n = RING_SIZE - MASK_IDX p
     in (unat (MASK_IDX p), if RING_SIZE - (p - c) < n then RING_SIZE - (p - c) else n))"

definition xs_get_input_chunk :: "u32 \<Rightarrow> u32 \<Rightarrow> nat \<times> u32" where
  "xs_get_input_chunk c p = (
     let n = RING_SIZE - MASK_IDX c
     in (unat (MASK_IDX c), if p - c < n then p - c else n))"

text \<open>Copying bytes into the buffer and moving the producer index; copying out and moving the consumer index.\<close>

definition out_room :: "ring \<Rightarrow> nat" where
  "out_room r = unat (snd (xs_get_output_chunk (r_cons r) (r_prod r)))"

definition in_room :: "ring \<Rightarrow> nat" where
  "in_room r = unat (snd (xs_get_input_chunk (r_cons r) (r_prod r)))"

definition put_chunk :: "u8 list \<Rightarrow> ring \<Rightarrow> ring" where
  "put_chunk d r = (
     let i = fst (xs_get_output_chunk (r_cons r) (r_prod r))
     in r\<lparr>rbuf := take i (rbuf r) @ d @ drop (i + length d) (rbuf r), r_prod := r_prod r + of_nat (length d)\<rparr>)"

definition get_chunk :: "nat \<Rightarrow> ring \<Rightarrow> u8 list \<times> ring" where
  "get_chunk n r = (
     let i = fst (xs_get_input_chunk (r_cons r) (r_prod r))
     in (take n (drop i (rbuf r)), r\<lparr>r_cons := r_cons r + of_nat n\<rparr>))"

text \<open>The error numbers the driver tells apart, the ones of the protocol first.\<close>

datatype xs_error =
    EINVAL | EACCES | EEXIST | EISDIR | ENOENT | ENOMEM | ENOSPC | EIO | ENOTEMPTY | ENOSYS | EROFS | EBUSY | EAGAIN | EISCONN
  | EWOULDBLOCK | ERANGE | Other_error nat

text \<open>
  \<open>peer k\<close> is what the other side has done to the ring when the loop reads the indexes for the time \<open>k\<close>, \<open>slp k\<close> the
  result of the sleep of that round.
\<close>

partial_function (option) xs_write_store ::
  "(nat \<Rightarrow> ring \<Rightarrow> ring) \<Rightarrow> (nat \<Rightarrow> xs_error option) \<Rightarrow> nat \<Rightarrow> u8 list \<Rightarrow> ring \<Rightarrow> (xs_error option \<times> ring) option" where
  "xs_write_store peer slp k data r =
     (if data = [] then Some (None, r)
      else (
        let r = peer k r
        in if r_prod r - r_cons r = RING_SIZE then
             (if slp k \<noteq> None \<and> slp k \<noteq> Some EWOULDBLOCK then Some (slp k, r)
              else xs_write_store peer slp (Suc k) data r)
           else if \<not> xs_check_indexes (r_cons r) (r_prod r) then Some (Some EIO, r\<lparr>r_cons := 0, r_prod := 0\<rparr>)
           else (
             let avail = min (out_room r) (length data)
             in xs_write_store peer slp (Suc k) (drop avail data) (put_chunk (take avail data) r))))"

text \<open>The bytes read so far are accumulated.\<close>

partial_function (option) xs_read_store ::
  "(nat \<Rightarrow> ring \<Rightarrow> ring) \<Rightarrow> (nat \<Rightarrow> xs_error option) \<Rightarrow> nat \<Rightarrow> nat \<Rightarrow> u8 list \<Rightarrow> ring \<Rightarrow> (xs_error option \<times> u8 list \<times> ring) option" where
  "xs_read_store peer slp k n got r =
     (if n = 0 then Some (None, got, r)
      else (
        let r = peer k r
        in if r_cons r = r_prod r then
             (if slp k \<noteq> None \<and> slp k \<noteq> Some EWOULDBLOCK then Some (slp k, got, r)
              else xs_read_store peer slp (Suc k) n got r)
           else if \<not> xs_check_indexes (r_cons r) (r_prod r) then Some (Some EIO, got, r\<lparr>r_cons := 0, r_prod := 0\<rparr>)
           else (
             let avail = min (in_room r) n;
                 (d, r) = get_chunk avail r
             in xs_read_store peer slp (Suc k) (n - avail) (got @ d) r)))"

section \<open>Strings\<close>

text \<open>
  The strings of a buffer. \<open>strlen\<close> of a string without terminator reads behind the buffer.
\<close>

fun extract_strings :: "u8 list \<Rightarrow> u8 list list option" where
  "extract_strings b =
     (if b = [] then Some []
      else if 0 \<notin> set b then None
      else do {
        ss \<leftarrow> extract_strings (drop (length (takeWhile (\<lambda>x. x \<noteq> 0) b) + 1) b);
        Some (takeWhile (\<lambda>x. x \<noteq> 0) b # ss)
      })"

declare extract_strings.simps [simp del]

text \<open>With the unsigned \<open>len\<close> 0, \<open>strings[len - 1]\<close> is four gigabytes behind the buffer.\<close>

definition split :: "u8 list \<Rightarrow> u8 list list option" where
  "split b = (if b = [] then None else extract_strings (b[length b - 1 := 0]))"

definition slash :: u8 where "slash = 0x2f"

definition xs_join :: "u8 list \<Rightarrow> u8 list \<Rightarrow> u8 list" where
  "xs_join dir name = dir @ (if name = [] then [] else slash # name)"

section \<open>Messages\<close>

datatype xs_type =
    XS_DEBUG | XS_DIRECTORY | XS_READ | XS_GET_PERMS | XS_WATCH | XS_UNWATCH | XS_TRANSACTION_START | XS_TRANSACTION_END
  | XS_INTRODUCE | XS_RELEASE | XS_GET_DOMAIN_PATH | XS_WRITE | XS_MKDIR | XS_RM | XS_SET_PERMS | XS_WATCH_EVENT | XS_ERROR
  | XS_IS_DOMAIN_INTRODUCED | XS_RESUME | XS_SET_TARGET

definition xs_types :: "xs_type list" where
  "xs_types = [XS_DEBUG, XS_DIRECTORY, XS_READ, XS_GET_PERMS, XS_WATCH, XS_UNWATCH, XS_TRANSACTION_START, XS_TRANSACTION_END,
     XS_INTRODUCE, XS_RELEASE, XS_GET_DOMAIN_PATH, XS_WRITE, XS_MKDIR, XS_RM, XS_SET_PERMS, XS_WATCH_EVENT, XS_ERROR,
     XS_IS_DOMAIN_INTRODUCED, XS_RESUME, XS_SET_TARGET]"

text \<open>The number of a message type is its place in the list.\<close>

definition type_number :: "xs_type \<Rightarrow> u32" where
  "type_number t = of_nat (length (takeWhile (\<lambda>u. u \<noteq> t) xs_types))"

record xsd_sockmsg =
  m_type :: u32
  m_req_id :: u32
  m_tx_id :: u32
  m_len :: u32

definition header_bytes :: "xsd_sockmsg \<Rightarrow> u8 list" where
  "header_bytes h = concat (map (\<lambda>w. le_bytes 4 (ucast w)) [m_type h, m_req_id h, m_tx_id h, m_len h])"

definition header_word :: "u8 list \<Rightarrow> nat \<Rightarrow> u32" where
  "header_word b i = ucast (le_value (take 4 (drop (4 * i) b)))"

definition read_header :: "u8 list \<Rightarrow> xsd_sockmsg" where
  "read_header b = \<lparr>m_type = header_word b 0, m_req_id = header_word b 1, m_tx_id = header_word b 2, m_len = header_word b 3\<rparr>"

definition xsd_errors :: "(xs_error \<times> string) list" where
  "xsd_errors = [(EINVAL, ''EINVAL''), (EACCES, ''EACCES''), (EEXIST, ''EEXIST''), (EISDIR, ''EISDIR''), (ENOENT, ''ENOENT''),
     (ENOMEM, ''ENOMEM''), (ENOSPC, ''ENOSPC''), (EIO, ''EIO''), (ENOTEMPTY, ''ENOTEMPTY''), (ENOSYS, ''ENOSYS''),
     (EROFS, ''EROFS''), (EBUSY, ''EBUSY''), (EAGAIN, ''EAGAIN''), (EISCONN, ''EISCONN'')]"

definition str_bytes :: "string \<Rightarrow> u8 list" where
  "str_bytes s = map (\<lambda>c. of_nat (of_char c)) s"

text \<open>The text of an error reply ends at its first zero; unknown texts are \<open>EINVAL\<close>.\<close>

definition xs_get_error :: "u8 list \<Rightarrow> xs_error" where
  "xs_get_error body = (
     case find (\<lambda>(e, s). str_bytes s = takeWhile (\<lambda>x. x \<noteq> 0) body) xsd_errors of
       Some (e, s) \<Rightarrow> e | None \<Rightarrow> EINVAL)"

text \<open>
  The state of the side that makes requests: the service, the number of writes to the ring so far, the bytes
  written, and how many shared locks of \<open>suspend_mutex\<close> are held. \<open>write_err k\<close> says whether the write number \<open>k\<close> fails,
  and how many bytes it sends before, \<open>reply\<close> what comes back for the bytes written so far: an error while waiting, or a type and a body. \<open>number_of\<close> is
  \<open>strtoul(\<dots>, NULL, 0)\<close>, \<open>token_of\<close> the pointer printed with \<open>%lX\<close>, and \<open>token_value\<close> is \<open>strtoul(\<dots>, NULL, 16)\<close>.
\<close>

record 's xs =
  service :: 's
  nr_writes :: nat
  wire :: "u8 list"
  suspend_locks :: int

record 's xs_env =
  write_err :: "nat \<Rightarrow> (xs_error \<times> nat) option"
  reply :: "'s \<Rightarrow> u8 list \<Rightarrow> (xs_error + (u32 \<times> u8 list)) \<times> 's"
  number_of :: "u8 list \<Rightarrow> u32"
  token_of :: "nat \<Rightarrow> u8 list"
  token_value :: "u8 list \<Rightarrow> nat"

definition xs_request_filter :: "u32 \<Rightarrow> 's xs \<Rightarrow> 's xs" where
  "xs_request_filter ty st = (if ty = type_number XS_TRANSACTION_START then st\<lparr>suspend_locks := suspend_locks st + 1\<rparr> else st)"

definition xs_reply_filter :: "u32 \<Rightarrow> u32 \<Rightarrow> xs_error option \<Rightarrow> 's xs \<Rightarrow> 's xs" where
  "xs_reply_filter ty reply_ty err st =
     (if ty = type_number XS_TRANSACTION_END \<or> err = None \<and> reply_ty = type_number XS_TRANSACTION_END \<or>
         ty = type_number XS_TRANSACTION_START \<and> (err \<noteq> None \<or> reply_ty = type_number XS_ERROR)
      then st\<lparr>suspend_locks := suspend_locks st - 1\<rparr> else st)"

definition store_write :: "'s xs_env \<Rightarrow> u8 list \<Rightarrow> 's xs \<Rightarrow> xs_error option \<times> 's xs" where
  "store_write e d st =
     (if d = [] then (None, st)
      else case write_err e (nr_writes st) of
          None \<Rightarrow> (None, st\<lparr>nr_writes := nr_writes st + 1, wire := wire st @ d\<rparr>)
        | Some (x, n) \<Rightarrow> (Some x, st\<lparr>nr_writes := nr_writes st + 1, wire := wire st @ take n d\<rparr>))"

primrec store_writes :: "'s xs_env \<Rightarrow> u8 list list \<Rightarrow> 's xs \<Rightarrow> xs_error option \<times> 's xs" where
  "store_writes e [] st = (None, st)"
| "store_writes e (d # ds) st = (
     let (err, st) = store_write e d st
     in if err \<noteq> None then (err, st) else store_writes e ds st)"

definition await_reply :: "'s xs_env \<Rightarrow> 's xs \<Rightarrow> (xs_error + (u32 \<times> u8 list)) \<times> 's xs" where
  "await_reply e st = (let (r, s) = reply e (service st) (wire st) in (r, st\<lparr>service := s\<rparr>))"

definition xs_talkv ::
  "'s xs_env \<Rightarrow> u32 \<Rightarrow> xs_type \<Rightarrow> u8 list list \<Rightarrow> 's xs \<Rightarrow> ((xs_error + u8 list) \<times> 's xs) option" where
  "xs_talkv e tx request_type iov st = (
     let ty = type_number request_type;
         msg = \<lparr>m_type = ty, m_req_id = 0, m_tx_id = tx, m_len = of_nat (sum_list (map length iov))\<rparr>;
         st = xs_request_filter ty st;
         (err, st) = store_writes e (header_bytes msg # iov) st
     in case err of
          Some x \<Rightarrow> Some (Inl x, xs_reply_filter ty ty (Some x) st)
        | None \<Rightarrow> (
            let (r, st) = await_reply e st
            in case r of
                 Inl x \<Rightarrow> Some (Inl x, xs_reply_filter ty ty (Some x) st)
               | Inr (rty, body) \<Rightarrow> (
                   let st = xs_reply_filter ty rty None st
                   in if rty = type_number XS_ERROR then Some (Inl (xs_get_error body), st)
                      else if rty \<noteq> ty then None
                      else Some (Inr body, st))))"

text \<open>Requests of user processes through the device: the reply is passed on as it is.\<close>

definition xs_dev_request_and_reply ::
  "'s xs_env \<Rightarrow> xsd_sockmsg \<Rightarrow> u8 list \<Rightarrow> 's xs \<Rightarrow> (xs_error + (u32 \<times> u8 list)) \<times> 's xs" where
  "xs_dev_request_and_reply e msg body st = (
     let st = xs_request_filter (m_type msg) st;
         (err, st) = store_write e (header_bytes msg @ body) st
     in case err of
          Some x \<Rightarrow> (Inl x, xs_reply_filter (m_type msg) (m_type msg) (Some x) st)
        | None \<Rightarrow> (
            let (r, st) = await_reply e st
            in case r of
                 Inl x \<Rightarrow> (Inl x, xs_reply_filter (m_type msg) (m_type msg) (Some x) st)
               | Inr (rty, b) \<Rightarrow> (Inr (rty, b), xs_reply_filter (m_type msg) rty None st)))"

section \<open>Requests\<close>

definition xs_single :: "'s xs_env \<Rightarrow> u32 \<Rightarrow> xs_type \<Rightarrow> u8 list \<Rightarrow> 's xs \<Rightarrow> ((xs_error + u8 list) \<times> 's xs) option" where
  "xs_single e tx ty body st = xs_talkv e tx ty [body @ [0]] st"

text \<open>The error of a request whose reply is not looked at.\<close>

definition error_of :: "((xs_error + 'a) \<times> 's xs) option \<Rightarrow> (xs_error option \<times> 's xs) option" where
  "error_of r = do { (x, st) \<leftarrow> r; Some (case x of Inl y \<Rightarrow> Some y | Inr _ \<Rightarrow> None, st) }"

definition xs_watch :: "'s xs_env \<Rightarrow> u8 list \<Rightarrow> u8 list \<Rightarrow> 's xs \<Rightarrow> (xs_error option \<times> 's xs) option" where
  "xs_watch e path tok st = error_of (xs_talkv e 0 XS_WATCH [path @ [0], tok @ [0]] st)"

definition xs_unwatch :: "'s xs_env \<Rightarrow> u8 list \<Rightarrow> u8 list \<Rightarrow> 's xs \<Rightarrow> (xs_error option \<times> 's xs) option" where
  "xs_unwatch e path tok st = error_of (xs_talkv e 0 XS_UNWATCH [path @ [0], tok @ [0]] st)"

definition xs_directory :: "'s xs_env \<Rightarrow> u32 \<Rightarrow> u8 list \<Rightarrow> u8 list \<Rightarrow> 's xs \<Rightarrow> ((xs_error + u8 list list) \<times> 's xs) option" where
  "xs_directory e tx dir node st = do {
     (r, st) \<leftarrow> xs_single e tx XS_DIRECTORY (xs_join dir node) st;
     case r of
       Inl x \<Rightarrow> Some (Inl x, st)
     | Inr body \<Rightarrow> do { ss \<leftarrow> split body; Some (Inr ss, st) }
   }"

definition xs_exists :: "'s xs_env \<Rightarrow> u32 \<Rightarrow> u8 list \<Rightarrow> u8 list \<Rightarrow> 's xs \<Rightarrow> (bool \<times> 's xs) option" where
  "xs_exists e tx dir node st = do { (r, st) \<leftarrow> xs_directory e tx dir node st; Some (\<not> isl r, st) }"

definition xs_read :: "'s xs_env \<Rightarrow> u32 \<Rightarrow> u8 list \<Rightarrow> u8 list \<Rightarrow> 's xs \<Rightarrow> ((xs_error + u8 list) \<times> 's xs) option" where
  "xs_read e tx dir node st = xs_single e tx XS_READ (xs_join dir node) st"

definition xs_write_path :: "'s xs_env \<Rightarrow> u32 \<Rightarrow> u8 list \<Rightarrow> u8 list \<Rightarrow> 's xs \<Rightarrow> (xs_error option \<times> 's xs) option" where
  "xs_write_path e tx path v st = error_of (xs_talkv e tx XS_WRITE [path @ [0], v] st)"

definition xs_write :: "'s xs_env \<Rightarrow> u32 \<Rightarrow> u8 list \<Rightarrow> u8 list \<Rightarrow> u8 list \<Rightarrow> 's xs \<Rightarrow> (xs_error option \<times> 's xs) option" where
  "xs_write e tx dir node v st = xs_write_path e tx (xs_join dir node) v st"

definition xs_mkdir :: "'s xs_env \<Rightarrow> u32 \<Rightarrow> u8 list \<Rightarrow> u8 list \<Rightarrow> 's xs \<Rightarrow> (xs_error option \<times> 's xs) option" where
  "xs_mkdir e tx dir node st = error_of (xs_single e tx XS_MKDIR (xs_join dir node) st)"

definition xs_rm :: "'s xs_env \<Rightarrow> u32 \<Rightarrow> u8 list \<Rightarrow> u8 list \<Rightarrow> 's xs \<Rightarrow> (xs_error option \<times> 's xs) option" where
  "xs_rm e tx dir node st = error_of (xs_single e tx XS_RM (xs_join dir node) st)"

definition xs_transaction_start :: "'s xs_env \<Rightarrow> 's xs \<Rightarrow> ((xs_error + u32) \<times> 's xs) option" where
  "xs_transaction_start e st = do {
     (r, st) \<leftarrow> xs_single e 0 XS_TRANSACTION_START [] st;
     Some (map_sum id (number_of e) r, st)
   }"

definition xs_transaction_end :: "'s xs_env \<Rightarrow> u32 \<Rightarrow> bool \<Rightarrow> 's xs \<Rightarrow> (xs_error option \<times> 's xs) option" where
  "xs_transaction_end e tx abort st = error_of (xs_single e tx XS_TRANSACTION_END (if abort then [0x46] else [0x54]) st)"

text \<open>\<open>scan\<close> is the call of \<open>vsscanf\<close> on the value: the number of fields it stores.\<close>

definition xs_scanf ::
  "'s xs_env \<Rightarrow> (u8 list \<Rightarrow> int) \<Rightarrow> u32 \<Rightarrow> u8 list \<Rightarrow> u8 list \<Rightarrow> 's xs \<Rightarrow> ((xs_error + int) \<times> 's xs) option" where
  "xs_scanf e scan tx dir node st = do {
     (r, st) \<leftarrow> xs_read e tx dir node st;
     Some (case r of Inl x \<Rightarrow> Inl x | Inr v \<Rightarrow> if scan v = 0 then Inl ERANGE else Inr (scan v), st)
   }"

text \<open>The names of \<open>xs_gather\<close>, each with its format when it has one; the values that were read come back.\<close>

primrec xs_gather ::
  "'s xs_env \<Rightarrow> u32 \<Rightarrow> u8 list \<Rightarrow> (u8 list \<times> (u8 list \<Rightarrow> int) option) list \<Rightarrow> 's xs \<Rightarrow> (xs_error option \<times> u8 list list \<times> 's xs) option" where
  "xs_gather e tx dir [] st = Some (None, [], st)"
| "xs_gather e tx dir (q # qs) st = do {
     (r, st) \<leftarrow> xs_read e tx dir (fst q) st;
     case r of
       Inl x \<Rightarrow> Some (Some x, [], st)
     | Inr v \<Rightarrow>
         if snd q \<noteq> None \<and> the (snd q) v = 0 then Some (Some EINVAL, [v], st)
         else do { (err, vs, st) \<leftarrow> xs_gather e tx dir qs st; Some (err, v # vs, st) }
   }"

subsection \<open>Removing a tree\<close>

text \<open>What the loop over the entries of a directory ends with.\<close>

datatype rm_result = Removed | Descend "u8 list" | Rm_error xs_error

primrec rm_children :: "'s xs_env \<Rightarrow> u32 \<Rightarrow> u8 list \<Rightarrow> u8 list list \<Rightarrow> 's xs \<Rightarrow> (rm_result \<times> 's xs) option" where
  "rm_children e tx cur [] st = Some (Removed, st)"
| "rm_children e tx cur (d # ds) st = do {
     (err, st) \<leftarrow> xs_rm e tx cur d st;
     case err of
       None \<Rightarrow> rm_children e tx cur ds st
     | Some x \<Rightarrow> Some (if x = ENOTEMPTY then Descend d else Rm_error x, st)
   }"

text \<open>The path before its last slash.\<close>

definition parent_path :: "u8 list \<Rightarrow> u8 list option" where
  "parent_path p = (if slash \<in> set p then Some (rev (drop 1 (dropWhile (\<lambda>x. x \<noteq> slash) (rev p)))) else None)"

partial_function (option) rm_loop :: "'s xs_env \<Rightarrow> u32 \<Rightarrow> u8 list \<Rightarrow> u8 list \<Rightarrow> 's xs \<Rightarrow> (xs_error option \<times> 's xs) option" where
  "rm_loop e tx root cur st = do {
     (r, st) \<leftarrow> xs_directory e tx cur [] st;
     case r of
       Inl x \<Rightarrow> Some (Some x, st)
     | Inr ds \<Rightarrow> do {
         (res, st) \<leftarrow> rm_children e tx cur ds st;
         case res of
           Rm_error x \<Rightarrow> Some (Some x, st)
         | Descend d \<Rightarrow> rm_loop e tx root (xs_join cur d) st
         | Removed \<Rightarrow> do {
             (err, st) \<leftarrow> xs_rm e tx cur [] st;
             if err \<noteq> None then Some (err, st)
             else if cur = root then Some (None, st)
             else do { p \<leftarrow> parent_path cur; rm_loop e tx root p st }
           }
       }
   }"

partial_function (option) xs_rm_tree :: "'s xs_env \<Rightarrow> u32 \<Rightarrow> u8 list \<Rightarrow> u8 list \<Rightarrow> 's xs \<Rightarrow> (xs_error option \<times> 's xs) option" where
  "xs_rm_tree e xbt base node st = do {
     (started, st) \<leftarrow> (if xbt = 0 then xs_transaction_start e st else Some (Inr 0, st));
     let local_xbt = (case started of Inl _ \<Rightarrow> 0 | Inr t \<Rightarrow> t);
     (err, st) \<leftarrow> (case started of
         Inl x \<Rightarrow> Some (Some x, st)
       | Inr _ \<Rightarrow> rm_loop e (if xbt = 0 then local_xbt else xbt) (xs_join base node) (xs_join base node) st);
     if local_xbt \<noteq> 0 then do {
       (terr, st) \<leftarrow> xs_transaction_end e local_xbt (err \<noteq> None) st;
       if terr = Some EAGAIN \<and> err = None then xs_rm_tree e 0 base node st else Some (err, st)
     }
     else Some (err, st)
   }"

section \<open>Received messages and watches\<close>

text \<open>
  A watch is known by its address; \<open>called\<close> are the callbacks that were made, with the strings of the event.
\<close>

record watches =
  reply_list :: "(xsd_sockmsg \<times> u8 list) list"
  watch_events :: "(nat \<times> u8 list list) list"
  registered :: "nat list"
  called :: "(nat \<times> u8 list list) list"

definition find_watch :: "'s xs_env \<Rightarrow> u8 list \<Rightarrow> watches \<Rightarrow> nat option" where
  "find_watch e tok ws = find (\<lambda>w. w = token_value e tok) (registered ws)"

text \<open>\<open>XS_WATCH_TOKEN\<close> is 1: with fewer strings the array of pointers ends before it.\<close>

definition queue_msg :: "'s xs_env \<Rightarrow> xsd_sockmsg \<Rightarrow> u8 list \<Rightarrow> watches \<Rightarrow> watches option" where
  "queue_msg e hdr body ws =
     (if m_type hdr = type_number XS_WATCH_EVENT then do {
        vec \<leftarrow> split body;
        if length vec \<le> 1 then None
        else case find_watch e (vec ! 1) ws of
            Some w \<Rightarrow> Some (ws\<lparr>watch_events := watch_events ws @ [(w, vec)]\<rparr>)
          | None \<Rightarrow> Some ws
      }
      else Some (ws\<lparr>reply_list := reply_list ws @ [(hdr, body)]\<rparr>))"

text \<open>
  Waiting for a reply and taking the first one of the list; \<open>other k\<close> is what the receiving thread has done to the lists
  when they are looked at for the time \<open>k\<close>.
\<close>

partial_function (option) xs_read_reply ::
  "(nat \<Rightarrow> watches \<Rightarrow> watches) \<Rightarrow> (nat \<Rightarrow> xs_error option) \<Rightarrow> nat \<Rightarrow> watches \<Rightarrow> ((xs_error + (u32 \<times> u8 list)) \<times> watches) option" where
  "xs_read_reply other slp k ws =
     (let ws = other k ws
      in case reply_list ws of
           [] \<Rightarrow>
             (case slp k of
                Some x \<Rightarrow> if x \<noteq> EWOULDBLOCK then Some (Inl x, ws) else xs_read_reply other slp (Suc k) ws
              | None \<Rightarrow> xs_read_reply other slp (Suc k) ws)
         | (hdr, body) # msgs \<Rightarrow> Some (Inr (m_type hdr, body), ws\<lparr>reply_list := msgs\<rparr>))"

text \<open>The two reads of a message each have their own rounds.\<close>

definition xs_process_msg ::
  "'s xs_env \<Rightarrow> (nat \<Rightarrow> nat \<Rightarrow> ring \<Rightarrow> ring) \<Rightarrow> (nat \<Rightarrow> nat \<Rightarrow> xs_error option) \<Rightarrow> ring \<Rightarrow> watches \<Rightarrow> (xs_error option \<times> ring \<times> watches) option" where
  "xs_process_msg e peer slp r ws = do {
     (err, h, r) \<leftarrow> xs_read_store (peer 0) (slp 0) 0 16 [] r;
     if err \<noteq> None then Some (err, r, ws)
     else do {
       (err, body, r) \<leftarrow> xs_read_store (peer 1) (slp 1) 0 (unat (m_len (read_header h))) [] r;
       if err \<noteq> None then Some (err, r, ws)
       else do { ws \<leftarrow> queue_msg e (read_header h) body ws; Some (None, r, ws) }
     }
   }"

text \<open>
  One round of \<open>xenwatch_thread\<close>: it takes the first event under the lock of the list, and then calls the watch back;
  \<open>has_callback\<close> says which watches have a callback.
\<close>

definition xenwatch_take :: "watches \<Rightarrow> (nat \<times> u8 list list) option \<times> watches" where
  "xenwatch_take ws =
     (case watch_events ws of
        [] \<Rightarrow> (None, ws)
      | m # evs \<Rightarrow> (Some m, ws\<lparr>watch_events := evs\<rparr>))"

definition xenwatch_call :: "(nat \<Rightarrow> bool) \<Rightarrow> nat \<times> u8 list list \<Rightarrow> watches \<Rightarrow> watches" where
  "xenwatch_call has_callback m ws = (if has_callback (fst m) then ws\<lparr>called := called ws @ [m]\<rparr> else ws)"

definition xenwatch_round :: "(nat \<Rightarrow> bool) \<Rightarrow> watches \<Rightarrow> watches" where
  "xenwatch_round has_callback ws =
     (case xenwatch_take ws of
        (None, ws) \<Rightarrow> ws
      | (Some m, ws) \<Rightarrow> xenwatch_call has_callback m ws)"

text \<open>
  The list of the watches changes under its own lock, before and after the request to the service, and so does the list
  of the events: these are the pieces of the two operations that follow. Taking a watch off the list twice is a fault.
\<close>

definition watch_insert :: "'s xs_env \<Rightarrow> nat \<Rightarrow> watches \<Rightarrow> watches option" where
  "watch_insert e w ws =
     (if find_watch e (token_of e w) ws \<noteq> None then None else Some (ws\<lparr>registered := w # registered ws\<rparr>))"

definition watch_drop :: "nat \<Rightarrow> watches \<Rightarrow> watches option" where
  "watch_drop w ws = (if w \<in> set (registered ws) then Some (ws\<lparr>registered := remove1 w (registered ws)\<rparr>) else None)"

definition watch_cancel :: "nat \<Rightarrow> watches \<Rightarrow> watches" where
  "watch_cancel w ws = ws\<lparr>watch_events := filter (\<lambda>m. fst m \<noteq> w) (watch_events ws)\<rparr>"

definition watch_error :: "xs_error option \<Rightarrow> xs_error option" where
  "watch_error err = (if err = Some EEXIST then None else err)"

definition xs_register_watch ::
  "'s xs_env \<Rightarrow> nat \<Rightarrow> u8 list \<Rightarrow> 's xs \<Rightarrow> watches \<Rightarrow> (xs_error option \<times> 's xs \<times> watches) option" where
  "xs_register_watch e w node st ws = do {
     ws \<leftarrow> watch_insert e w ws;
     (err, st) \<leftarrow> xs_watch e node (token_of e w) (st\<lparr>suspend_locks := suspend_locks st + 1\<rparr>);
     ws \<leftarrow> (if watch_error err \<noteq> None then watch_drop w ws else Some ws);
     Some (watch_error err, st\<lparr>suspend_locks := suspend_locks st - 1\<rparr>, ws)
   }"

definition xs_unregister_watch :: "'s xs_env \<Rightarrow> nat \<Rightarrow> u8 list \<Rightarrow> 's xs \<Rightarrow> watches \<Rightarrow> ('s xs \<times> watches) option" where
  "xs_unregister_watch e w node st ws =
     (if find_watch e (token_of e w) ws = None then Some (st, ws)
      else do {
        ws \<leftarrow> watch_drop w ws;
        (err, st) \<leftarrow> xs_unwatch e node (token_of e w) (st\<lparr>suspend_locks := suspend_locks st + 1\<rparr>);
        Some (st\<lparr>suspend_locks := suspend_locks st - 1\<rparr>, watch_cancel w ws)
      })"

text \<open>\<open>xs_init_comms\<close>: the response ring is emptied; binding the event channel is left to the caller.\<close>

definition quiesce :: "ring \<Rightarrow> ring" where
  "quiesce r = (if r_prod r \<noteq> r_cons r then r\<lparr>r_cons := r_prod r\<rparr> else r)"

section \<open>The rings as channels of bytes\<close>

text \<open>
  What the two sides of a ring rely on: a chunk that fits is appended to the contents, a chunk that is there is taken
  from their front.
\<close>

locale byte_channel =
  fixes ok :: "'r \<Rightarrow> bool"
    and held :: "'r \<Rightarrow> 'b list"
    and room :: "'r \<Rightarrow> nat"
    and avail :: "'r \<Rightarrow> nat"
    and put :: "'b list \<Rightarrow> 'r \<Rightarrow> 'r"
    and take_out :: "nat \<Rightarrow> 'r \<Rightarrow> 'b list \<times> 'r"
  assumes put_ok: "\<lbrakk>ok r; length d \<le> room r\<rbrakk> \<Longrightarrow> ok (put d r)"
    and put_held: "\<lbrakk>ok r; length d \<le> room r\<rbrakk> \<Longrightarrow> held (put d r) = held r @ d"
    and take_ok: "\<lbrakk>ok r; n \<le> avail r\<rbrakk> \<Longrightarrow> ok (snd (take_out n r))"
    and take_held: "\<lbrakk>ok r; n \<le> avail r\<rbrakk> \<Longrightarrow> held r = fst (take_out n r) @ held (snd (take_out n r))"
    and take_length: "\<lbrakk>ok r; n \<le> avail r\<rbrakk> \<Longrightarrow> length (fst (take_out n r)) = n"
    and avail_pos: "\<lbrakk>ok r; held r \<noteq> []\<rbrakk> \<Longrightarrow> 0 < avail r"

text \<open>Operations of the two sides in any order: the bytes taken out, and the state after.\<close>

datatype 'b channel_op = Put "'b list" | Take nat

primrec sent :: "'b channel_op list \<Rightarrow> 'b list" where
  "sent [] = []"
| "sent (q # qs) = (case q of Put d \<Rightarrow> d | Take n \<Rightarrow> []) @ sent qs"

context byte_channel
begin

inductive trace :: "'r \<Rightarrow> 'b channel_op list \<Rightarrow> 'b list \<Rightarrow> 'r \<Rightarrow> bool" where
  stop: "trace r [] [] r"
| put: "\<lbrakk>length d \<le> room r; trace (put d r) qs got r'\<rbrakk> \<Longrightarrow> trace r (Put d # qs) got r'"
| take: "\<lbrakk>n \<le> avail r; trace (snd (take_out n r)) qs got r'\<rbrakk> \<Longrightarrow> trace r (Take n # qs) (fst (take_out n r) @ got) r'"

lemma trace_ok: "trace r qs got r' \<Longrightarrow> ok r \<Longrightarrow> ok r'"
  by (induction rule: trace.induct) (simp_all add: put_ok take_ok)

lemma trace_fifo: "trace r qs got r' \<Longrightarrow> ok r \<Longrightarrow> got @ held r' = held r @ sent qs"
proof (induction rule: trace.induct)
  case (take n r qs got r')
  then show ?case using take_held [OF take.prems take.hyps(1)] take_ok [OF take.prems take.hyps(1)] by simp
qed (simp_all add: put_ok put_held)

lemma take_prefix: "\<lbrakk>ok r; n \<le> avail r\<rbrakk> \<Longrightarrow> fst (take_out n r) = take n (held r)"
  using take_held take_length by (metis append_eq_conv_conj)

lemma take_rest: "\<lbrakk>ok r; n \<le> avail r\<rbrakk> \<Longrightarrow> held (snd (take_out n r)) = drop n (held r)"
  using take_held take_length by (metis append_eq_conv_conj)

end

text \<open>A sound ring, and the bytes in it from the consumer index on.\<close>

definition used :: "ring \<Rightarrow> nat" where "used r = unat (r_prod r - r_cons r)"

definition ring_ok :: "ring \<Rightarrow> bool" where
  "ring_ok r \<longleftrightarrow> length (rbuf r) = 1024 \<and> xs_check_indexes (r_cons r) (r_prod r)"

definition contents :: "ring \<Rightarrow> u8 list" where
  "contents r = map (\<lambda>i. rbuf r ! ((unat (r_cons r) + i) mod 1024)) [0..<used r]"

lemma contents_length [simp]: "length (contents r) = used r"
  by (simp add: contents_def)

lemma unat_mask_idx: "unat (MASK_IDX i) = unat i mod 1024"
proof -
  have "MASK_IDX i = take_bit 10 i"
    unfolding MASK_IDX_def RING_SIZE_def take_bit_eq_mask by (simp add: mask_eq_exp_minus_1)
  then show ?thesis by (simp only: unsigned_take_bit_eq) (simp add: take_bit_eq_mod)
qed

lemma ring_ok_used: "ring_ok r \<Longrightarrow> used r \<le> 1024"
  by (simp add: ring_ok_def xs_check_indexes_def RING_SIZE_def word_le_nat_alt used_def)

lemma unat_sub_le: "b \<le> a \<Longrightarrow> unat (a - b) = unat a - unat (b :: u32)"
  by (simp add: unat_sub)

lemma mask_le: "MASK_IDX i \<le> RING_SIZE"
  by (simp add: word_le_nat_alt unat_mask_idx RING_SIZE_def less_imp_le)

lemma in_room_eq: "in_room r = min (used r) (1024 - unat (r_cons r) mod 1024)"
proof -
  have "unat (RING_SIZE - MASK_IDX (r_cons r)) = 1024 - unat (r_cons r) mod 1024"
    by (simp add: unat_sub_le [OF mask_le] unat_mask_idx) (simp add: RING_SIZE_def)
  then show ?thesis
    by (auto simp: in_room_def xs_get_input_chunk_def Let_def used_def word_less_nat_alt min_def)
qed

lemma out_room_eq:
  assumes "ring_ok r"
  shows "out_room r = min (1024 - used r) (1024 - unat (r_prod r) mod 1024)"
proof -
  have a: "unat (RING_SIZE - MASK_IDX (r_prod r)) = 1024 - unat (r_prod r) mod 1024"
    by (simp add: unat_sub_le [OF mask_le] unat_mask_idx) (simp add: RING_SIZE_def)
  have "r_prod r - r_cons r \<le> RING_SIZE" using assms by (simp add: ring_ok_def xs_check_indexes_def)
  then have "unat (RING_SIZE - (r_prod r - r_cons r)) = 1024 - used r"
    by (simp add: unat_sub_le used_def) (simp add: RING_SIZE_def)
  with a show ?thesis
    by (auto simp: out_room_def xs_get_output_chunk_def Let_def word_less_nat_alt min_def)
qed

lemma unat_mod_add: "unat (a + b :: u32) mod 1024 = (unat a + unat b) mod 1024"
proof -
  have "unat (a + b) mod 1024 = (unat a + unat b) mod 4294967296 mod 1024" by (simp add: unat_word_ariths)
  also have "\<dots> = (unat a + unat b) mod 1024" by (rule mod_mod_cancel) simp
  finally show ?thesis .
qed

lemma prod_position: "unat (r_prod r) mod 1024 = (unat (r_cons r) + used r) mod 1024"
  using unat_mod_add [of "r_cons r" "r_prod r - r_cons r"] by (simp add: used_def)

lemma of_nat_small: "n \<le> 1024 \<Longrightarrow> unat (of_nat n :: u32) = n"
  by (simp add: unsigned_of_nat take_bit_nat_eq_self)

lemma room_bounds:
  assumes "ring_ok r" "n \<le> out_room r"
  shows "used r + n \<le> 1024" and "unat (r_prod r) mod 1024 + n \<le> 1024"
proof -
  have "unat (r_prod r) mod 1024 < 1024" by simp
  then show "used r + n \<le> 1024" and "unat (r_prod r) mod 1024 + n \<le> 1024"
    using assms(2) ring_ok_used [OF assms(1)] unfolding out_room_eq [OF assms(1)] by linarith+
qed

lemma used_put:
  assumes "ring_ok r" "length d \<le> out_room r"
  shows "used (put_chunk d r) = used r + length d"
proof -
  note d = room_bounds(1) [OF assms]
  have "used (put_chunk d r) = unat ((r_prod r - r_cons r) + of_nat (length d))"
    by (simp add: used_def put_chunk_def Let_def algebra_simps)
  also have "\<dots> = used r + length d"
    using d by (simp add: unat_word_ariths of_nat_small used_def)
  finally show ?thesis .
qed

lemma put_ring_ok:
  assumes "ring_ok r" "length d \<le> out_room r"
  shows "ring_ok (put_chunk d r)"
proof -
  note d = room_bounds(1) [OF assms]
  note p = room_bounds(2) [OF assms]
  have "length (rbuf (put_chunk d r)) = 1024"
    using assms(1) p by (simp add: put_chunk_def Let_def xs_get_output_chunk_def unat_mask_idx ring_ok_def)
  moreover have "xs_check_indexes (r_cons (put_chunk d r)) (r_prod (put_chunk d r))"
    using d used_put [OF assms] by (simp add: xs_check_indexes_def RING_SIZE_def word_le_nat_alt used_def)
  ultimately show ?thesis by (simp add: ring_ok_def)
qed

lemma put_nth:
  assumes "length b = n" "p + length d \<le> n" "j < n"
  shows "(take p b @ d @ drop (p + length d) b) ! j = (if p \<le> j \<and> j < p + length d then d ! (j - p) else b ! j)"
  using assms by (auto simp: nth_append min_def)

lemma mod_1024: "x < 2048 \<Longrightarrow> x mod 1024 = (if x < 1024 then x else x - (1024 :: nat))"
  by (simp add: mod_if)

lemma contents_nth: "i < used r \<Longrightarrow> contents r ! i = rbuf r ! ((unat (r_cons r) mod 1024 + i) mod 1024)"
  by (simp add: contents_def mod_add_left_eq)

lemma position_before:
  fixes c :: nat
  assumes "c < 1024" "i < u" "u + l \<le> 1024"
  shows "\<not> ((c + u) mod 1024 \<le> (c + i) mod 1024 \<and> (c + i) mod 1024 < (c + u) mod 1024 + l)"
proof -
  have "(c + i) mod 1024 = (if c + i < 1024 then c + i else c + i - 1024)"
    and "(c + u) mod 1024 = (if c + u < 1024 then c + u else c + u - 1024)"
    using assms by (simp_all add: mod_1024)
  then show ?thesis using assms by (cases "c + i < 1024"; cases "c + u < 1024") (simp_all only: if_True if_False; linarith)+
qed

lemma position_in:
  fixes c :: nat
  assumes "c < 1024" "u \<le> i" "i < u + l" "u + l \<le> 1024" "(c + u) mod 1024 + l \<le> 1024"
  shows "(c + i) mod 1024 = (c + u) mod 1024 + (i - u)"
proof -
  have "(c + i) mod 1024 = (if c + i < 1024 then c + i else c + i - 1024)"
    and "(c + u) mod 1024 = (if c + u < 1024 then c + u else c + u - 1024)"
    using assms(1-4) by (simp_all add: mod_1024)
  then show ?thesis using assms by (simp split: if_splits)
qed

lemma put_buffer:
  assumes "ring_ok r" "length d \<le> out_room r" "j < 1024"
  shows "rbuf (put_chunk d r) ! j =
    (if unat (r_prod r) mod 1024 \<le> j \<and> j < unat (r_prod r) mod 1024 + length d
     then d ! (j - unat (r_prod r) mod 1024) else rbuf r ! j)"
  using put_nth [of "rbuf r" 1024 "unat (r_prod r) mod 1024" d j] room_bounds(2) [OF assms(1,2)] assms(1,3)
  by (simp add: put_chunk_def Let_def xs_get_output_chunk_def unat_mask_idx ring_ok_def)

lemma put_contents:
  assumes "ring_ok r" "length d \<le> out_room r"
  shows "contents (put_chunk d r) = contents r @ d"
proof (rule nth_equalityI)
  show "length (contents (put_chunk d r)) = length (contents r @ d)" by (simp add: used_put [OF assms])
next
  fix i assume "i < length (contents (put_chunk d r))"
  then have i: "i < used r + length d" by (simp add: used_put [OF assms])
  define c where "c = unat (r_cons r) mod 1024"
  define j where "j = (c + i) mod 1024"
  have p: "unat (r_prod r) mod 1024 = (c + used r) mod 1024"
    unfolding c_def prod_position by (simp only: mod_add_left_eq)
  have c: "c < 1024" "j < 1024" by (simp_all add: c_def j_def)
  have "contents (put_chunk d r) ! i = rbuf (put_chunk d r) ! j"
    using contents_nth [of i "put_chunk d r"] i by (simp only: used_put [OF assms] j_def c_def) (simp add: put_chunk_def Let_def)
  also have "\<dots> = (contents r @ d) ! i"
  proof (cases "i < used r")
    case True
    then have "rbuf (put_chunk d r) ! j = rbuf r ! j"
      using put_buffer [OF assms c(2)] position_before [OF c(1) True room_bounds(1) [OF assms]] unfolding p j_def by auto
    then show ?thesis using True by (simp only: nth_append contents_length contents_nth if_True j_def c_def)
  next
    case False
    then have j: "j = (c + used r) mod 1024 + (i - used r)"
      using position_in [OF c(1) _ i room_bounds(1) [OF assms]] room_bounds(2) [OF assms] unfolding j_def p by simp
    have "rbuf (put_chunk d r) ! j = d ! (i - used r)"
      using put_buffer [OF assms c(2)] False i unfolding p j by auto
    then show ?thesis using False by (simp add: nth_append)
  qed
  finally show "contents (put_chunk d r) ! i = (contents r @ d) ! i" .
qed

lemma used_get:
  assumes "n \<le> used r" "ring_ok r"
  shows "used (r\<lparr>r_cons := r_cons r + of_nat n\<rparr>) = used r - n"
proof -
  have n: "unat (of_nat n :: u32) = n" using assms ring_ok_used [OF assms(2)] by (intro of_nat_small) simp
  have le: "(of_nat n :: u32) \<le> r_prod r - r_cons r" using assms(1) n by (simp add: word_le_nat_alt used_def)
  have "used (r\<lparr>r_cons := r_cons r + of_nat n\<rparr>) = unat ((r_prod r - r_cons r) - of_nat n)"
    by (simp add: used_def algebra_simps)
  then show ?thesis using unat_sub_le [OF le] n by (simp add: used_def)
qed

lemma move_ring_ok:
  assumes "n \<le> used r" "ring_ok r"
  shows "ring_ok (r\<lparr>r_cons := r_cons r + of_nat n\<rparr>)"
proof -
  have "used (r\<lparr>r_cons := r_cons r + of_nat n\<rparr>) \<le> 1024"
    unfolding used_get [OF assms] using ring_ok_used [OF assms(2)] by linarith
  then show ?thesis
    using assms(2) by (simp add: ring_ok_def xs_check_indexes_def RING_SIZE_def word_le_nat_alt used_def)
qed

lemma move_contents:
  assumes "n \<le> used r" "ring_ok r"
  shows "contents (r\<lparr>r_cons := r_cons r + of_nat n\<rparr>) = drop n (contents r)"
proof (rule nth_equalityI)
  show "length (contents (r\<lparr>r_cons := r_cons r + of_nat n\<rparr>)) = length (drop n (contents r))" by (simp add: used_get [OF assms])
next
  fix i assume "i < length (contents (r\<lparr>r_cons := r_cons r + of_nat n\<rparr>))"
  then have i: "i < used r - n" by (simp add: used_get [OF assms])
  have n: "unat (of_nat n :: u32) = n" using assms ring_ok_used [OF assms(2)] by (intro of_nat_small) simp
  have "(unat (r_cons r + of_nat n) + i) mod 1024 = (unat (r_cons r) + (n + i)) mod 1024"
    using mod_add_cong [OF unat_mod_add [of "r_cons r" "of_nat n"] refl, of i] by (simp only: n add.assoc)
  moreover from i have u: "n + i < used r" by linarith
  then have "drop n (contents r) ! i = rbuf r ! ((unat (r_cons r) + (n + i)) mod 1024)"
    by (simp add: contents_def)
  moreover have "contents (r\<lparr>r_cons := r_cons r + of_nat n\<rparr>) ! i = rbuf r ! ((unat (r_cons r + of_nat n) + i) mod 1024)"
    using i by (simp add: contents_def used_get [OF assms])
  ultimately show "contents (r\<lparr>r_cons := r_cons r + of_nat n\<rparr>) ! i = drop n (contents r) ! i" by (simp only:)
qed

lemma get_front:
  assumes "n \<le> in_room r" "ring_ok r"
  shows "fst (get_chunk n r) = take n (contents r)"
proof (rule nth_equalityI)
  let ?c = "unat (r_cons r) mod 1024"
  have "?c < 1024" by simp
  then have n: "n \<le> used r" "?c + n \<le> 1024" using assms(1) unfolding in_room_eq by linarith+
  have l: "length (rbuf r) = 1024" using assms(2) by (simp add: ring_ok_def)
  show "length (fst (get_chunk n r)) = length (take n (contents r))"
    using n l by (simp add: get_chunk_def Let_def xs_get_input_chunk_def unat_mask_idx)
  fix i assume "i < length (fst (get_chunk n r))"
  then have i: "i < n" by (simp add: get_chunk_def Let_def)
  then have "(?c + i) mod 1024 = ?c + i" and u: "i < used r" using n by (simp_all only: mod_less order_less_le_trans)
  then have "contents r ! i = rbuf r ! (?c + i)" using contents_nth [OF u] by (simp only:)
  then show "fst (get_chunk n r) ! i = take n (contents r) ! i"
    using i n l by (simp add: get_chunk_def Let_def xs_get_input_chunk_def unat_mask_idx)
qed

lemma get_ring: "snd (get_chunk n r) = r\<lparr>r_cons := r_cons r + of_nat n\<rparr>"
  by (simp add: get_chunk_def Let_def)

interpretation chan: byte_channel ring_ok contents out_room in_room put_chunk get_chunk
proof
  fix r n assume r: "ring_ok r" "n \<le> in_room r"
  then have n: "n \<le> used r" by (simp add: in_room_eq)
  show "ring_ok (snd (get_chunk n r))" unfolding get_ring by (rule move_ring_ok [OF n r(1)])
  show "contents r = fst (get_chunk n r) @ contents (snd (get_chunk n r))"
    unfolding get_ring move_contents [OF n r(1)] get_front [OF r(2,1)] by simp
  show "length (fst (get_chunk n r)) = n" unfolding get_front [OF r(2,1)] using n by simp
next
  fix r assume "ring_ok r" "contents r \<noteq> []"
  then have "used r \<noteq> 0" by (metis contents_length length_0_conv)
  moreover have "unat (r_cons r) mod 1024 < 1024" by simp
  ultimately show "0 < in_room r" unfolding in_room_eq by simp
qed (auto intro: put_ring_ok put_contents)

section \<open>What the rings promise\<close>

text \<open>The operations of both sides on a ring, None when one does not fit: the bytes taken out, and the ring after.\<close>

primrec run_ring :: "u8 channel_op list \<Rightarrow> ring \<Rightarrow> (u8 list \<times> ring) option" where
  "run_ring [] r = Some ([], r)"
| "run_ring (q # qs) r = (case q of
     Put d \<Rightarrow> if length d \<le> out_room r then run_ring qs (put_chunk d r) else None
   | Take n \<Rightarrow> if n \<le> in_room r then do {
         (got, r') \<leftarrow> run_ring qs (snd (get_chunk n r));
         Some (fst (get_chunk n r) @ got, r')
       } else None)"

lemma run_ring_trace: "run_ring qs r = Some (got, r') \<Longrightarrow> chan.trace r qs got r'"
proof (induction qs arbitrary: r got)
  case Nil
  then show ?case by (simp add: chan.trace.stop)
next
  case (Cons q qs)
  then show ?case
    by (cases q) (auto split: if_splits elim!: bind_SomeE intro!: chan.trace.put chan.trace.take)
qed

text \<open>
  C22. Whatever the two sides of a ring do, in any order and across the end of the buffer and the wrap-around of the
  indexes: the bytes taken out, followed by the ones in the ring, are the ones that were in it followed by the ones put in.
\<close>

theorem ring_keeps_order:
  assumes "ring_ok r" "run_ring qs r = Some (got, r')"
  shows "got @ contents r' = contents r @ sent qs"
  by (rule chan.trace_fifo [OF run_ring_trace [OF assms(2)] assms(1)])

definition wrap_ring :: ring where
  "wrap_ring = \<lparr>rbuf = replicate 1024 0, r_cons = 0xFFFFFFFE, r_prod = 0xFFFFFFFE\<rparr>"

theorem ring_keeps_order_witness:
  "\<exists>r'. [1, 2, 3] @ contents r' = contents wrap_ring @ sent [Put [1, 2], Put [3, 4], Take 2, Take 1]"
proof -
  have ok: "ring_ok wrap_ring" by (simp add: ring_ok_def wrap_ring_def xs_check_indexes_def)
  have "run_ring [Put [1, 2], Put [3, 4], Take 2, Take 1] wrap_ring =
    Some ([1, 2, 3], \<lparr>rbuf = [3, 4] @ replicate 1020 0 @ [1, 2], r_cons = 1, r_prod = 2\<rparr>)" by code_simp
  from ring_keeps_order [OF ok this] show ?thesis by blast
qed

text \<open>
  A peer that only takes bytes out: in a round it may take any number or none, but again and again there is a round
  in which it takes one, when there is one. Another peer only puts bytes in.
\<close>

definition takes_at :: "(nat \<Rightarrow> ring \<Rightarrow> ring) \<Rightarrow> nat \<Rightarrow> bool" where
  "takes_at peer j \<longleftrightarrow> (\<forall>r. ring_ok r \<longrightarrow> contents r \<noteq> [] \<longrightarrow> used (peer j r) < used r)"

definition fair_peer :: "(nat \<Rightarrow> ring \<Rightarrow> ring) \<Rightarrow> bool" where
  "fair_peer peer \<longleftrightarrow>
     (\<forall>k r. ring_ok r \<longrightarrow> ring_ok (peer k r) \<and> (\<exists>n. contents (peer k r) = drop n (contents r))) \<and>
     (\<forall>k. \<exists>j \<ge> k. takes_at peer j)"

text \<open>No sleep is broken off by an error.\<close>

definition uninterrupted :: "(nat \<Rightarrow> xs_error option) \<Rightarrow> bool" where
  "uninterrupted slp \<longleftrightarrow> (\<forall>k. slp k = None \<or> slp k = Some EWOULDBLOCK)"

definition produces :: "(nat \<Rightarrow> ring \<Rightarrow> ring) \<Rightarrow> bool" where
  "produces peer \<longleftrightarrow> (\<forall>k r. ring_ok r \<longrightarrow> ring_ok (peer k r) \<and> (\<exists>d. contents (peer k r) = contents r @ d))"

lemma ring_ok_check: "ring_ok r \<Longrightarrow> xs_check_indexes (r_cons r) (r_prod r)"
  by (simp add: ring_ok_def)

lemma full_used: "r_prod r - r_cons r = RING_SIZE \<longleftrightarrow> used r = 1024"
  by (simp add: used_def RING_SIZE_def word_unat_eq_iff)

lemma empty_used: "r_cons r = r_prod r \<longleftrightarrow> used r = 0"
  by (auto simp: used_def unat_eq_zero)

lemma out_room_pos:
  assumes "ring_ok r" "used r < 1024"
  shows "0 < out_room r"
proof -
  have "unat (r_prod r) mod 1024 < 1024" by simp
  then show ?thesis using assms(2) unfolding out_room_eq [OF assms(1)] by linarith
qed

lemma takes_room:
  assumes "takes_at peer k" "ring_ok r" "ring_ok (peer k r)" "contents (peer k r) = drop n (contents r)"
  shows "used (peer k r) < 1024"
proof (cases "contents r = []")
  case True
  then show ?thesis using assms(4) by (metis contents_length drop_Nil list.size(3) zero_less_numeral)
next
  case False
  then show ?thesis using assms(1,2) ring_ok_used [OF assms(2)] unfolding takes_at_def by (meson less_le_trans)
qed

lemma write_store_aux:
  assumes f: "fair_peer peer" and slp: "uninterrupted slp"
  shows "ring_ok r \<Longrightarrow> \<exists>c r'. xs_write_store peer slp k data r = Some (None, r') \<and> ring_ok r' \<and> c @ contents r' = contents r @ data"
proof (induction "length data" arbitrary: k data r rule: less_induct)
  case (less data)
  show ?case
  proof (cases "data = []")
    case True
    then show ?thesis using less.prems by (subst xs_write_store.simps) (simp add: exI [of _ "[]"])
  next
    case False
    have written: "\<exists>c r'. xs_write_store peer slp k data r = Some (None, r') \<and> ring_ok r' \<and> c @ contents r' = contents r @ data"
      if r: "ring_ok r" "ring_ok (peer k r)" "contents (peer k r) = drop n (contents r)" and lt: "used (peer k r) < 1024" for k r n
    proof -
      let ?p = "peer k r" and ?m = "min (out_room (peer k r)) (length data)"
      have m: "0 < ?m" "?m \<le> out_room ?p" "?m \<le> length data" using out_room_pos [OF r(2) lt] False by auto
      have len: "length (take ?m data) \<le> out_room ?p" using m(2) by simp
      have small: "length (drop ?m data) < length data" using m by simp
      obtain c r' where IH: "xs_write_store peer slp (Suc k) (drop ?m data) (put_chunk (take ?m data) ?p) = Some (None, r')"
          "ring_ok r'" "c @ contents r' = contents (put_chunk (take ?m data) ?p) @ drop ?m data"
        using less.hyps [OF small put_ring_ok [OF r(2) len]] by blast
      have "xs_write_store peer slp k data r = Some (None, r')"
        using False lt ring_ok_check [OF r(2)] IH(1) by (subst xs_write_store.simps) (simp add: full_used)
      moreover have "(take n (contents r) @ c) @ contents r' = contents r @ data"
        using IH(3) unfolding put_contents [OF r(2) len] r(3) by simp
      ultimately show ?thesis using IH(2) by blast
    qed
    have "\<exists>c r'. xs_write_store peer slp k data r = Some (None, r') \<and> ring_ok r' \<and> c @ contents r' = contents r @ data"
      if "takes_at peer (k + d)" "ring_ok r" for d k r
      using that
    proof (induction d arbitrary: k r)
      case 0
      obtain n where p: "ring_ok (peer k r)" "contents (peer k r) = drop n (contents r)"
        using f 0 unfolding fair_peer_def by blast
      have "takes_at peer k" using 0 by simp
      from written [OF 0(2) p takes_room [OF this 0(2) p]] show ?case .
    next
      case (Suc d)
      obtain n where p: "ring_ok (peer k r)" "contents (peer k r) = drop n (contents r)"
        using f Suc.prems unfolding fair_peer_def by blast
      show ?case
      proof (cases "used (peer k r) = 1024")
        case True
        have "xs_write_store peer slp k data r = xs_write_store peer slp (Suc k) data (peer k r)"
          using False True slp unfolding uninterrupted_def by (subst xs_write_store.simps) (force simp: full_used Let_def)
        moreover obtain c r' where "xs_write_store peer slp (Suc k) data (peer k r) = Some (None, r')" "ring_ok r'"
            "c @ contents r' = contents (peer k r) @ data"
          using Suc.IH [of "Suc k" "peer k r"] Suc.prems(1) p(1) by auto
        moreover have "contents r = take n (contents r) @ contents (peer k r)" using p(2) by simp
        ultimately show ?thesis by (intro exI [of _ "take n (contents r) @ c"] exI [of _ r']) (metis append_assoc)
      next
        case full: False
        then have "used (peer k r) < 1024" using ring_ok_used [OF p(1)] by simp
        from written [OF Suc.prems(2) p this] show ?thesis .
      qed
    qed
    moreover obtain j where "k \<le> j" "takes_at peer j" using f unfolding fair_peer_def by blast
    ultimately show ?thesis using less.prems by (metis le_Suc_ex)
  qed
qed

text \<open>
  C23. Writing to the ring returns without error, however much is written and however slow the service is: it may leave
  the ring full for any number of rounds, in which the writer sleeps, as long as it takes a byte again and again and no
  sleep is interrupted. What the service has taken out and what is in the ring are then the old contents and the data,
  in order.
\<close>

theorem write_store_delivers:
  assumes "ring_ok r" "fair_peer peer" "uninterrupted slp"
  shows "\<exists>c r'. xs_write_store peer slp k data r = Some (None, r') \<and> c @ contents r' = contents r @ data"
  using write_store_aux [OF assms(2,3,1)] by blast

definition empty_ring :: ring where
  "empty_ring = \<lparr>rbuf = replicate 1024 0, r_cons = 0, r_prod = 0\<rparr>"

lemma empty_ring_ok: "ring_ok empty_ring"
  by (simp add: ring_ok_def empty_ring_def xs_check_indexes_def)

definition drain :: "ring \<Rightarrow> ring" where
  "drain r = r\<lparr>r_cons := r_prod r\<rparr>"

text \<open>A service that empties the ring in every third round only; the writer finds it full in between, and sleeps.\<close>

definition slow_peer :: "nat \<Rightarrow> ring \<Rightarrow> ring" where
  "slow_peer k r = (if k mod 3 = 2 then drain r else r)"

lemma slow_peer_fair: "fair_peer slow_peer"
proof -
  have "ring_ok (drain r)" if "ring_ok r" for r using that by (simp add: ring_ok_def drain_def xs_check_indexes_def)
  moreover have "contents (drain r) = drop (used r) (contents r)" for r by (simp add: contents_def used_def drain_def)
  ultimately have d: "ring_ok r \<longrightarrow> ring_ok (drain r) \<and> (\<exists>n. contents (drain r) = drop n (contents r))" for r by blast
  have s: "\<exists>n. contents r = drop n (contents r)" for r by (rule exI [of _ 0]) simp
  have "ring_ok r \<longrightarrow> ring_ok (slow_peer k r) \<and> (\<exists>n. contents (slow_peer k r) = drop n (contents r))" for k r
  proof (cases "k mod 3 = 2")
    case True
    then have "slow_peer k r = drain r" by (simp add: slow_peer_def)
    then show ?thesis using d [of r] by (simp only:)
  next
    case False
    then have "slow_peer k r = r" by (simp add: slow_peer_def)
    then show ?thesis using s [of r] by (simp only: simp_thms)
  qed
  moreover have "takes_at slow_peer (2 + k * 3)" for k
  proof -
    have "(2 + k * 3) mod 3 = 2" by presburger
    then have "slow_peer (2 + k * 3) r = drain r" for r by (simp only: slow_peer_def if_True simp_thms)
    moreover have "used (drain r) = 0" for r by (simp add: used_def drain_def)
    moreover have "contents r \<noteq> [] \<Longrightarrow> 0 < used r" for r by (metis contents_length length_greater_0_conv)
    ultimately show ?thesis by (simp add: takes_at_def)
  qed
  then have "\<exists>j \<ge> k. takes_at slow_peer j" for k by (intro exI [of _ "2 + k * 3"]) simp
  ultimately show ?thesis unfolding fair_peer_def by blast
qed

theorem write_store_delivers_witness:
  "\<exists>c r'. xs_write_store slow_peer (\<lambda>k. if even k then None else Some EWOULDBLOCK) 0 (replicate 5000 1) empty_ring = Some (None, r') \<and>
     c @ contents r' = contents empty_ring @ replicate 5000 1"
  by (rule write_store_delivers [OF empty_ring_ok slow_peer_fair]) (simp add: uninterrupted_def)

lemma read_store_aux:
  assumes "produces peer"
  shows "\<lbrakk>ring_ok r; n \<le> length (contents r)\<rbrakk> \<Longrightarrow>
    \<exists>r' d. xs_read_store peer slp k n got r = Some (None, got @ take n (contents r), r') \<and> ring_ok r' \<and>
       contents r' = drop n (contents r) @ d"
proof (induction n arbitrary: k got r rule: less_induct)
  case (less n)
  show ?case
  proof (cases "n = 0")
    case True
    then show ?thesis using less.prems by (subst xs_read_store.simps) (simp add: exI [of _ "[]"])
  next
    case False
    let ?p = "peer k r"
    obtain d where p: "ring_ok ?p" "contents ?p = contents r @ d"
      using assms less.prems unfolding produces_def by blast
    have u: "n \<le> used ?p" using arg_cong [OF p(2), of length] less.prems(2) by simp
    let ?m = "min (in_room ?p) n"
    have "contents ?p \<noteq> []" using u False by (metis contents_length le_zero_eq list.size(3))
    then have m: "0 < ?m" "?m \<le> in_room ?p" using chan.avail_pos [OF p(1)] False by auto
    let ?q = "snd (get_chunk ?m ?p)"
    have q: "ring_ok ?q" "fst (get_chunk ?m ?p) = take ?m (contents ?p)" "contents ?q = drop ?m (contents ?p)"
      using chan.take_ok chan.take_prefix chan.take_rest p(1) m(2) by blast+
    have l: "n - ?m \<le> length (contents ?q)" using u unfolding q(3) by simp
    obtain r' e where IH: "xs_read_store peer slp (Suc k) (n - ?m) (got @ fst (get_chunk ?m ?p)) ?q =
          Some (None, (got @ fst (get_chunk ?m ?p)) @ take (n - ?m) (contents ?q), r')" "ring_ok r'"
        "contents r' = drop (n - ?m) (contents ?q) @ e"
      using less.IH [OF _ q(1) l] m(1) False by (metis diff_less neq0_conv)
    have step: "xs_read_store peer slp k n got r = xs_read_store peer slp (Suc k) (n - ?m) (got @ fst (get_chunk ?m ?p)) ?q"
      using False u ring_ok_check [OF p(1)] by (subst xs_read_store.simps) (simp add: empty_used case_prod_beta Let_def)
    have mn: "?m \<le> n" by simp
    have t: "take ?m (contents ?p) @ take (n - ?m) (drop ?m (contents ?p)) = take n (contents r)"
      using mn less.prems(2) unfolding p(2) by (metis append_take_drop_id le_add_diff_inverse take_add take_append take_all_iff diff_is_0_eq' take_0 append_Nil2)
    have dd: "drop (n - ?m) (drop ?m (contents ?p)) = drop n (contents r) @ d"
      using mn less.prems(2) unfolding p(2) by simp
    have "xs_read_store peer slp k n got r = Some (None, got @ take n (contents r), r')"
      using IH(1) unfolding step by (simp only: q(2,3) append_assoc t)
    moreover have "contents r' = drop n (contents r) @ (d @ e)" using IH(3) unfolding q(3) dd by simp
    ultimately show ?thesis using IH(2) by blast
  qed
qed

text \<open>
  Reading bytes that are in the ring returns them without an error, in order, whatever the service adds meanwhile,
  and leaves what follows them.
\<close>

theorem read_store_returns:
  assumes "ring_ok r" "n \<le> length (contents r)" "produces peer"
  shows "\<exists>r' d. xs_read_store peer slp k n [] r = Some (None, take n (contents r), r') \<and> contents r' = drop n (contents r) @ d"
  using read_store_aux [OF assms(3,1,2)] by (metis append_Nil)

lemma produces_idle: "produces (\<lambda>_ r. r)"
  by (simp add: produces_def)

definition two_ring :: ring where
  "two_ring = \<lparr>rbuf = [8, 9] @ replicate 1020 0 @ [6, 7], r_cons = 0xFFFFFFFE, r_prod = 2\<rparr>"

lemma two_ring_ok: "ring_ok two_ring"
  by (simp add: ring_ok_def two_ring_def xs_check_indexes_def RING_SIZE_def)

lemma two_ring_contents: "contents two_ring = [6, 7, 8, 9]"
  by (simp add: contents_def used_def two_ring_def upt_rec nth_append)

theorem read_store_returns_witness:
  "\<exists>r' d. xs_read_store (\<lambda>_ r. r) (\<lambda>_. None) 0 3 [] two_ring = Some (None, [6, 7, 8], r') \<and> contents r' = [9] @ d"
  using read_store_returns [OF two_ring_ok _ produces_idle, of 3 "\<lambda>_. None" 0] by (simp add: two_ring_contents)

section \<open>Messages on the rings\<close>

lemma header_length [simp]: "length (header_bytes h) = 16"
  by (simp add: header_bytes_def)

lemma ucast_take_bit_32: "(ucast (take_bit 32 (ucast w :: u64)) :: u32) = (w :: u32)"
  by (rule bit_word_eqI) (simp add: bit_ucast_iff bit_take_bit_iff)

lemma header_round: "read_header (header_bytes h @ b) = h"
proof -
  have w: "header_word (header_bytes h @ b) 0 = m_type h" "header_word (header_bytes h @ b) 1 = m_req_id h"
      "header_word (header_bytes h @ b) 2 = m_tx_id h" "header_word (header_bytes h @ b) 3 = m_len h"
    by (simp_all add: header_word_def header_bytes_def le_value_bytes ucast_take_bit_32)
  show ?thesis unfolding read_header_def w by simp
qed

text \<open>
  C24. A reply that is in the ring, its header and as many bytes as the header says, is received as it was sent, whatever
  the service adds meanwhile: it goes to the end of the list of replies, and what follows it stays in the ring.
\<close>

theorem process_msg_receives:
  assumes "ring_ok r" "contents r = header_bytes h @ body @ rest" "unat (m_len h) = length body"
    and "m_type h \<noteq> type_number XS_WATCH_EVENT" "produces (peer 0)" "produces (peer 1)"
  shows "\<exists>r' d. xs_process_msg e peer slp r ws = Some (None, r', ws\<lparr>reply_list := reply_list ws @ [(h, body)]\<rparr>) \<and> contents r' = rest @ d"
proof -
  obtain r1 d1 where r1: "xs_read_store (peer 0) (slp 0) 0 16 [] r = Some (None, header_bytes h, r1)" "ring_ok r1"
      "contents r1 = body @ rest @ d1"
    using read_store_aux [OF assms(5,1), of 16 "slp 0" 0 "[]"] assms(2) contents_length by auto
  obtain r2 d2 where r2: "xs_read_store (peer 1) (slp 1) 0 (length body) [] r1 = Some (None, body, r2)" "contents r2 = rest @ d1 @ d2"
    using read_store_aux [OF assms(6) r1(2), of "length body" "slp 1" 0 "[]"] r1(3) by auto
  have hd: "read_header (header_bytes h) = h" using header_round [of h "[]"] by simp
  show ?thesis
    using r1(1) r2 assms(3,4) by (auto simp: xs_process_msg_def hd queue_msg_def)
qed

text \<open>A service that answers each request with its own type and a fixed body.\<close>

definition echo_service :: "u32 \<Rightarrow> u8 list \<Rightarrow> unit xs_env" where
  "echo_service ty b = \<lparr>write_err = \<lambda>_. None, reply = \<lambda>s w. (Inr (ty, b), s), number_of = \<lambda>b. ucast (hd b) - 0x30,
     token_of = \<lambda>w. [of_nat w], token_value = \<lambda>b. unat (hd b)\<rparr>"

definition idle_xs :: "unit xs" where
  "idle_xs = \<lparr>service = (), nr_writes = 0, wire = [], suspend_locks = 0\<rparr>"

definition reply_ring :: ring where
  "reply_ring = put_chunk (header_bytes \<lparr>m_type = 2, m_req_id = 0, m_tx_id = 0, m_len = 2\<rparr> @ [0x34, 0x32]) empty_ring"

lemma reply_ring_ok: "ring_ok reply_ring"
  and reply_ring_contents: "contents reply_ring = header_bytes \<lparr>m_type = 2, m_req_id = 0, m_tx_id = 0, m_len = 2\<rparr> @ [0x34, 0x32] @ []"
proof -
  have u: "used empty_ring = 0" by (simp add: used_def empty_ring_def)
  have l: "length (header_bytes \<lparr>m_type = 2, m_req_id = 0, m_tx_id = 0, m_len = 2\<rparr> @ [0x34, 0x32]) \<le> out_room empty_ring"
    unfolding out_room_eq [OF empty_ring_ok] u by (simp add: empty_ring_def)
  show "ring_ok reply_ring" unfolding reply_ring_def by (rule put_ring_ok [OF empty_ring_ok l])
  have "contents empty_ring = []" using u by (simp add: contents_def)
  then show "contents reply_ring = header_bytes \<lparr>m_type = 2, m_req_id = 0, m_tx_id = 0, m_len = 2\<rparr> @ [0x34, 0x32] @ []"
    unfolding reply_ring_def put_contents [OF empty_ring_ok l] by simp
qed

theorem process_msg_receives_witness:
  "\<exists>r' d. xs_process_msg (echo_service 0 []) (\<lambda>_ _ r. r) (\<lambda>_ _. None) reply_ring \<lparr>reply_list = [], watch_events = [], registered = [], called = []\<rparr> =
     Some (None, r', \<lparr>reply_list = [(\<lparr>m_type = 2, m_req_id = 0, m_tx_id = 0, m_len = 2\<rparr>, [0x34, 0x32])], watch_events = [],
       registered = [], called = []\<rparr>) \<and> contents r' = [] @ d"
  using process_msg_receives [OF reply_ring_ok reply_ring_contents _ _ produces_idle produces_idle,
    of "echo_service 0 []" "\<lambda>_ _. None" "\<lparr>reply_list = [], watch_events = [], registered = [], called = []\<rparr>"]
  by (simp add: type_number_def xs_types_def)

section \<open>Lists of strings\<close>

lemma take_while_split: "0 \<in> set b \<Longrightarrow> takeWhile (\<lambda>x. x \<noteq> 0) b @ 0 # drop (length (takeWhile (\<lambda>x. x \<noteq> 0) b) + 1) b = (b :: u8 list)"
  by (induction b) auto

lemma extract_strings_total:
  "b = [] \<or> last b = 0 \<Longrightarrow> \<exists>ss. extract_strings b = Some ss \<and> concat (map (\<lambda>s. s @ [0]) ss) = b \<and> (\<forall>s\<in>set ss. 0 \<notin> set s)"
proof (induction b rule: extract_strings.induct)
  case (1 b)
  show ?case
  proof (cases "b = []")
    case True
    then show ?thesis by (subst extract_strings.simps) simp
  next
    case False
    then have z: "0 \<in> set b" using "1.prems" last_in_set by metis
    let ?t = "drop (length (takeWhile (\<lambda>x. x \<noteq> 0) b) + 1) b"
    have "?t = [] \<or> last ?t = 0" using "1.prems" False by (metis last_drop linorder_not_le drop_eq_Nil)
    then obtain ss where "extract_strings ?t = Some ss" "concat (map (\<lambda>s. s @ [0]) ss) = ?t" "\<forall>s\<in>set ss. 0 \<notin> set s"
      using "1.IH" False z by blast
    then show ?thesis
      using False z take_while_split [OF z] by (subst extract_strings.simps) (auto dest: set_takeWhileD)
  qed
qed

lemma extract_strings_of: "\<forall>s\<in>set ss. 0 \<notin> set s \<Longrightarrow> extract_strings (concat (map (\<lambda>s. s @ [0]) ss)) = Some ss"
proof (induction ss)
  case Nil
  show ?case by (simp add: extract_strings.simps)
next
  case (Cons s ss)
  have "0 \<notin> set s" using Cons.prems by simp
  then have t: "takeWhile (\<lambda>x. x \<noteq> 0) (s @ 0 # b) = s" for b by (induction s) auto
  show ?case using Cons by (subst extract_strings.simps) (simp add: t)
qed

lemma split_strings:
  assumes "ss \<noteq> []" "\<forall>s\<in>set ss. 0 \<notin> set s"
  shows "split (concat (map (\<lambda>s. s @ [0]) ss)) = Some ss"
proof -
  obtain ts t where ss: "ss = ts @ [t]" using assms(1) by (metis rev_exhaust)
  let ?b = "concat (map (\<lambda>s. s @ [0]) ss)"
  have "?b[length ?b - 1 := 0] = ?b" unfolding ss by (simp add: list_update_append)
  moreover have "?b \<noteq> []" unfolding ss by simp
  ultimately show ?thesis using extract_strings_of [OF assms(2)] by (simp add: split_def)
qed

text \<open>Strings without a zero byte inside.\<close>

definition plain :: "u8 list list \<Rightarrow> bool" where
  "plain ss \<longleftrightarrow> list_all (\<lambda>s. 0 \<notin> set s) ss"

text \<open>
  The entries of a directory, sent each with its terminator, are the strings that the request returns, unless there
  are none.
\<close>

theorem directory_entries:
  assumes "xs_single e tx XS_DIRECTORY (xs_join dir node) st = Some (Inr (concat (map (\<lambda>s. s @ [0]) ss)), st')"
    and "plain ss" "ss \<noteq> []"
  shows "xs_directory e tx dir node st = Some (Inr ss, st')"
  using assms split_strings [of ss] by (simp add: xs_directory_def plain_def list_all_iff)

text \<open>
  The reply for a directory without entries is empty: splitting it writes the terminator far behind the buffer.
\<close>

theorem empty_directory_faults:
  assumes "xs_single e tx XS_DIRECTORY (xs_join dir node) st = Some (Inr [], st')"
  shows "xs_directory e tx dir node st = None"
  using assms by (simp add: xs_directory_def split_def)

theorem directory_entries_witness:
  "\<exists>st. xs_directory (echo_service 1 [0x61, 0, 0x62, 0x63, 0]) 0 [0x2f] [] idle_xs = Some (Inr [[0x61], [0x62, 0x63]], st)"
proof -
  obtain st where "xs_single (echo_service 1 [0x61, 0, 0x62, 0x63, 0]) 0 XS_DIRECTORY (xs_join [0x2f] []) idle_xs =
      Some (Inr (concat (map (\<lambda>s. s @ [0]) [[0x61], [0x62, 0x63]])), st)"
    by (simp add: xs_single_def xs_talkv_def Let_def type_number_def xs_types_def echo_service_def await_reply_def
      store_write_def header_bytes_def le_bytes_def xs_request_filter_def idle_xs_def xs_reply_filter_def)
  from directory_entries [OF this] show ?thesis by (simp add: plain_def)
qed

theorem empty_directory_faults_witness:
  "xs_directory (echo_service 1 []) 0 [0x2f] [] idle_xs = None"
proof -
  obtain st where "xs_single (echo_service 1 []) 0 XS_DIRECTORY (xs_join [0x2f] []) idle_xs = Some (Inr [], st)"
    by (simp add: xs_single_def xs_talkv_def Let_def type_number_def xs_types_def echo_service_def await_reply_def
      store_write_def header_bytes_def le_bytes_def xs_request_filter_def idle_xs_def xs_reply_filter_def)
  from empty_directory_faults [OF this] show ?thesis .
qed

lemma split_covers_buffer:
  assumes "b \<noteq> []"
  shows "\<exists>ss. split b = Some ss \<and> concat (map (\<lambda>s. s @ [0]) ss) = b[length b - 1 := 0]"
proof -
  have "last (b[length b - 1 := 0]) = 0" using assms by (simp add: last_list_update)
  then show ?thesis using extract_strings_total [of "b[length b - 1 := 0]"] assms by (auto simp: split_def)
qed

section \<open>The lock against suspending\<close>

named_theorems lock_simps \<open>what a request does to the shared locks\<close>

lemma store_write_locks [lock_simps]: "suspend_locks (snd (store_write e d st)) = suspend_locks st"
  by (simp add: store_write_def split: option.split prod.split)

lemma store_writes_locks [lock_simps]: "suspend_locks (snd (store_writes e ds st)) = suspend_locks st"
  by (induction ds arbitrary: st) (simp_all add: case_prod_beta Let_def lock_simps)

lemma await_reply_locks [lock_simps]: "suspend_locks (snd (await_reply e st)) = suspend_locks st"
  by (simp add: await_reply_def case_prod_beta Let_def)

lemma type_number_inj [simp]:
  "type_number XS_TRANSACTION_START \<noteq> type_number XS_TRANSACTION_END" "type_number XS_ERROR \<noteq> type_number XS_TRANSACTION_END"
  "type_number t = type_number XS_TRANSACTION_START \<longleftrightarrow> t = XS_TRANSACTION_START"
  "type_number t = type_number XS_TRANSACTION_END \<longleftrightarrow> t = XS_TRANSACTION_END"
  by (cases t; simp add: type_number_def xs_types_def)+

text \<open>How many locks a request leaves more than before.\<close>

definition lock_change :: "xs_type \<Rightarrow> bool \<Rightarrow> int" where
  "lock_change t failed = (if t = XS_TRANSACTION_START then (if failed then 0 else 1) else if t = XS_TRANSACTION_END then - 1 else 0)"

lemma talkv_locks:
  assumes "xs_talkv e tx t iov st = Some (r, st')"
  shows "suspend_locks st' = suspend_locks st + lock_change t (isl r)"
proof -
  let ?s = "xs_request_filter (type_number t) st"
  let ?m = "\<lparr>m_type = type_number t, m_req_id = 0, m_tx_id = tx, m_len = of_nat (sum_list (map length iov))\<rparr>"
  obtain err s1 where w: "store_writes e (header_bytes ?m # iov) ?s = (err, s1)" by (cases "store_writes e (header_bytes ?m # iov) ?s")
  obtain rr s2 where q: "await_reply e s1 = (rr, s2)" by (cases "await_reply e s1")
  have l: "suspend_locks s1 = suspend_locks ?s" "suspend_locks s2 = suspend_locks s1"
    using store_writes_locks [of e "header_bytes ?m # iov" ?s] await_reply_locks [of e s1] w q by simp_all
  then show ?thesis
    using assms w q unfolding xs_talkv_def Let_def
    by (auto simp: xs_request_filter_def xs_reply_filter_def lock_change_def simp del: store_writes.simps
      split: option.splits sum.splits if_splits)
qed

lemma error_of_some: "error_of x = Some (err, st) \<longleftrightarrow> (\<exists>r. x = Some (r, st) \<and> err = (case r of Inl y \<Rightarrow> Some y | Inr _ \<Rightarrow> None))"
  by (cases x) (auto simp: error_of_def)

lemma single_locks: "xs_single e tx t b st = Some (r, st') \<Longrightarrow> suspend_locks st' = suspend_locks st + lock_change t (isl r)"
  unfolding xs_single_def by (rule talkv_locks)

lemma directory_locks: "xs_directory e tx d n st = Some (r, st') \<Longrightarrow> suspend_locks st' = suspend_locks st"
  by (auto simp: xs_directory_def lock_change_def elim!: bind_SomeE dest!: single_locks split: sum.splits)

lemma rm_locks: "xs_rm e tx d n st = Some (r, st') \<Longrightarrow> suspend_locks st' = suspend_locks st"
  by (auto simp: xs_rm_def error_of_some lock_change_def dest!: single_locks)

lemma children_locks: "rm_children e tx cur ds st = Some (r, st') \<Longrightarrow> suspend_locks st' = suspend_locks st"
  by (induction ds arbitrary: st) (auto elim!: bind_SomeE dest!: rm_locks split: option.splits)

lemma loop_locks: "rm_loop e tx root cur st = Some x \<Longrightarrow> suspend_locks (snd x) = suspend_locks st"
  by (induction rule: rm_loop.raw_induct [rotated, consumes 1])
    (auto elim!: bind_SomeE dest!: directory_locks children_locks rm_locks split: sum.splits rm_result.splits if_splits)

lemma start_locks: "xs_transaction_start e st = Some (r, st') \<Longrightarrow> suspend_locks st' = suspend_locks st + (if isl r then 0 else 1)"
  by (auto simp: xs_transaction_start_def lock_change_def isl_map_sum elim!: bind_SomeE dest!: single_locks)

lemma end_locks: "xs_transaction_end e tx a st = Some (r, st') \<Longrightarrow> suspend_locks st' = suspend_locks st - 1"
  by (auto simp: xs_transaction_end_def error_of_some lock_change_def dest!: single_locks)

lemma talkv_answer:
  assumes "xs_talkv e tx t iov st = Some (Inr b, st')"
  shows "\<exists>s w s'. reply e s w = (Inr (type_number t, b), s')"
proof -
  let ?s = "xs_request_filter (type_number t) st"
  let ?m = "\<lparr>m_type = type_number t, m_req_id = 0, m_tx_id = tx, m_len = of_nat (sum_list (map length iov))\<rparr>"
  obtain err s1 where w: "store_writes e (header_bytes ?m # iov) ?s = (err, s1)" by (cases "store_writes e (header_bytes ?m # iov) ?s")
  obtain rr s2 where q: "await_reply e s1 = (rr, s2)" by (cases "await_reply e s1")
  have "rr = Inr (type_number t, b)"
    using assms w q unfolding xs_talkv_def Let_def
    by (auto simp del: store_writes.simps split: option.splits sum.splits if_splits)
  then show ?thesis using q by (auto simp: await_reply_def split: prod.splits)
qed

lemma start_id: "xs_transaction_start e st = Some (Inr t, st') \<Longrightarrow>
  \<exists>b s w s'. t = number_of e b \<and> reply e s w = (Inr (type_number XS_TRANSACTION_START, b), s')"
proof -
  assume "xs_transaction_start e st = Some (Inr t, st')"
  then obtain b where b: "t = number_of e b" "xs_talkv e 0 XS_TRANSACTION_START [[] @ [0]] st = Some (Inr b, st')"
    by (auto simp: xs_transaction_start_def xs_single_def map_sum_def elim!: bind_SomeE split: sum.splits)
  then show ?thesis using talkv_answer [OF b(2)] by blast
qed

text \<open>The service never names a transaction by a text that reads as zero.\<close>

definition gives_ids :: "'s xs_env \<Rightarrow> bool" where
  "gives_ids e \<longleftrightarrow> (\<forall>s w b s'. reply e s w = (Inr (type_number XS_TRANSACTION_START, b), s') \<longrightarrow> number_of e b \<noteq> 0)"

lemma rm_tree_locks:
  assumes "gives_ids e"
  shows "xs_rm_tree e xbt base node st = Some x \<Longrightarrow> suspend_locks (snd x) = suspend_locks st"
proof -
  have "xs_rm_tree e' xbt base node st = Some x \<Longrightarrow> gives_ids e' \<Longrightarrow> suspend_locks (snd x) = suspend_locks st" for e'
  proof (induction rule: xs_rm_tree.raw_induct [rotated, consumes 1])
    case (1 f e xbt base node st x)
    have n: "t \<noteq> 0" if "xs_transaction_start e st = Some (Inr t, s1)" for t st s1
      using start_id [OF that] "1.prems" unfolding gives_ids_def by auto
    obtain started s1 where s: "(if xbt = 0 then xs_transaction_start e st else Some (Inr 0, st)) = Some (started, s1)"
      using "1.hyps" by (auto elim!: bind_SomeE)
    show ?case
    proof (cases started)
      case (Inl y)
      then have "suspend_locks s1 = suspend_locks st" using s start_locks by (fastforce split: if_splits)
      then show ?thesis using "1.hyps" s Inl by auto
    next
      case (Inr t)
      obtain err s2 where l: "rm_loop e (if xbt = 0 then t else xbt) (xs_join base node) (xs_join base node) s1 = Some (err, s2)"
        using "1.hyps" s Inr by (auto elim!: bind_SomeE)
      then have l2: "suspend_locks s2 = suspend_locks s1" using loop_locks by fastforce
      show ?thesis
      proof (cases "xbt = 0")
        case True
        then have x: "xs_transaction_start e st = Some (Inr t, s1)" using s Inr by simp
        have t: "t \<noteq> 0" "suspend_locks s1 = suspend_locks st + 1" using n [OF x] start_locks [OF x] by simp_all
        obtain terr s3 where e3: "xs_transaction_end e t (err \<noteq> None) s2 = Some (terr, s3)"
          using "1.hyps" s Inr l t by (auto elim!: bind_SomeE)
        have l3: "suspend_locks s3 = suspend_locks st" using end_locks [OF e3] l2 t(2) by simp
        show ?thesis using "1.hyps" "1.IH" "1.prems" s Inr l t(1) e3 l3 by (auto split: if_splits)
      next
        case False
        then show ?thesis using "1.hyps" s Inr l l2 by auto
      qed
    qed
  qed
  then show "xs_rm_tree e xbt base node st = Some x \<Longrightarrow> suspend_locks (snd x) = suspend_locks st" using assms by blast
qed

text \<open>
  C25. Removing a tree gives back every shared lock on suspending it took, also when a request fails, when the
  transaction is aborted, and when it is run again because of a conflict, as long as the service names no transaction
  by zero: the code takes 0 for \<open>no transaction was started\<close>.
\<close>

theorem rm_tree_keeps_locks:
  assumes "gives_ids e" "xs_rm_tree e xbt base node st = Some (err, st')"
  shows "suspend_locks st' = suspend_locks st"
  using rm_tree_locks [OF assms] by simp

text \<open>The condition is needed: when the answer reads as 0 the transaction is not ended, and the lock stays taken.\<close>

theorem zero_id_leaks_lock:
  assumes "xs_transaction_start e st = Some (Inr 0, s1)" "xs_rm_tree e 0 base node st = Some (err, st')"
  shows "suspend_locks st' = suspend_locks st + 1"
proof -
  obtain s2 where l: "rm_loop e 0 (xs_join base node) (xs_join base node) s1 = Some (err, s2)" "st' = s2"
    using assms(2) by (subst (asm) xs_rm_tree.simps) (auto simp: assms(1) elim!: bind_SomeE)
  show ?thesis using loop_locks [OF l(1)] start_locks [OF assms(1)] l(2) by simp
qed

text \<open>A decimal number as \<open>strtoul\<close> reads it: a text without digits is 0.\<close>

definition decimal :: "u8 list \<Rightarrow> u32" where
  "decimal b = foldl (\<lambda>n c. 10 * n + (ucast c - 48)) 0 (takeWhile (\<lambda>c. 48 \<le> c \<and> c \<le> 57) b)"

text \<open>
  A service with a script: what it answers to each request, in order. It names a transaction 1 where the script has
  no number.
\<close>

definition scripted_answer :: "u32 \<times> u8 list \<Rightarrow> u32 \<times> u8 list" where
  "scripted_answer m = (if fst m = type_number XS_TRANSACTION_START \<and> decimal (snd m) = 0 then (fst m, [0x31]) else m)"

definition scripted :: "(u32 \<times> u8 list) list xs_env" where
  "scripted = \<lparr>write_err = \<lambda>_. None, reply = \<lambda>s w. (Inr (scripted_answer (hd s)), List.tl s), number_of = decimal,
     token_of = \<lambda>w. replicate w 1, token_value = length\<rparr>"

definition script_state :: "(u32 \<times> u8 list) list \<Rightarrow> (u32 \<times> u8 list) list xs" where
  "script_state s = \<lparr>service = s, nr_writes = 0, wire = [], suspend_locks = 0\<rparr>"

lemma scripted_gives_ids: "gives_ids scripted"
  by (auto simp: gives_ids_def scripted_def scripted_answer_def decimal_def split: if_splits)

lemma extract_code:
  "extract_strings [] = Some []"
  "extract_strings (x # xs) = (if 0 \<notin> set (x # xs) then None
     else do { ss \<leftarrow> extract_strings (drop (length (takeWhile (\<lambda>x. x \<noteq> 0) (x # xs)) + 1) (x # xs));
       Some (takeWhile (\<lambda>x. x \<noteq> 0) (x # xs) # ss) })"
  by (subst extract_strings.simps, simp)+

lemma scripted_write: "\<exists>s1. store_write scripted d u = (None, s1) \<and> service s1 = service u"
  by (simp add: store_write_def scripted_def)

lemma scripted_writes: "\<exists>s1. store_writes scripted ds u = (None, s1) \<and> service s1 = service u"
proof (induction ds arbitrary: u)
  case (Cons d ds)
  obtain s1 where s1: "store_write scripted d u = (None, s1)" "service s1 = service u" using scripted_write by blast
  show ?case using Cons.IH [of s1] s1 by simp
qed simp

lemma scripted_talkv:
  assumes "service st = (type_number t, b) # s" "t \<noteq> XS_ERROR" "t = XS_TRANSACTION_START \<longrightarrow> decimal b \<noteq> 0"
  shows "\<exists>st'. xs_talkv scripted tx t iov st = Some (Inr b, st') \<and> service st' = s"
proof -
  let ?s = "xs_request_filter (type_number t) st"
  let ?h = "header_bytes \<lparr>m_type = type_number t, m_req_id = 0, m_tx_id = tx, m_len = of_nat (sum_list (map length iov))\<rparr>"
  have t: "type_number t \<noteq> type_number XS_ERROR" using assms(2) by (cases t) (simp_all add: type_number_def xs_types_def)
  obtain s1 where s1: "store_writes scripted (?h # iov) ?s = (None, s1)" "service s1 = (type_number t, b) # s"
    using scripted_writes [of "?h # iov" ?s] assms(1) by (auto simp: xs_request_filter_def)
  obtain s2 where s2: "await_reply scripted s1 = (Inr (type_number t, b), s2)" "service s2 = s"
    using s1(2) assms(3) by (simp add: await_reply_def) (auto simp: scripted_def scripted_answer_def)
  have "service (xs_reply_filter (type_number t) (type_number t) None s2) = s" using s2(2) by (simp add: xs_reply_filter_def)
  then show ?thesis
    using s1(1) s2(1) t unfolding xs_talkv_def Let_def by (simp del: store_writes.simps)
qed

lemmas scripted_single = scripted_talkv [of _ _ _ _ _ "[_ @ [0]]", folded xs_single_def]

text \<open>A directory with one entry: the answers to the start, the listing, the two removals and the end.\<close>

definition one_entry_script :: "(u32 \<times> u8 list) list" where
  "one_entry_script = [(type_number XS_TRANSACTION_START, [0x31]), (type_number XS_DIRECTORY, [0x61, 0]),
     (type_number XS_RM, []), (type_number XS_RM, []), (type_number XS_TRANSACTION_END, [])]"

lemma one_entry_run: "\<exists>st. xs_rm_tree scripted 0 [0x78] [] (script_state one_entry_script) = Some (None, st)"
proof -
  have one: "decimal [0x31] = 1" by (simp add: decimal_def)
  obtain s1 where s1: "xs_transaction_start scripted (script_state one_entry_script) = Some (Inr 1, s1)"
      "service s1 = drop 1 one_entry_script"
    using scripted_single [of "script_state one_entry_script" XS_TRANSACTION_START "[0x31]" "drop 1 one_entry_script" 0 "[]"]
    by (auto simp: script_state_def one_entry_script_def xs_transaction_start_def one) (auto simp: scripted_def one)
  obtain s2 where s2: "xs_directory scripted 1 [0x78] [] s1 = Some (Inr [[0x61]], s2)" "service s2 = drop 2 one_entry_script"
    using scripted_single [of s1 XS_DIRECTORY "[0x61, 0]" "drop 2 one_entry_script" 1 "[0x78]"] s1(2)
    by (auto simp: one_entry_script_def xs_directory_def xs_join_def split_def extract_code)
  obtain s3 where s3: "xs_rm scripted 1 [0x78] [0x61] s2 = Some (None, s3)" "service s3 = drop 3 one_entry_script"
    using scripted_single [of s2 XS_RM "[]" "drop 3 one_entry_script" 1 "xs_join [0x78] [0x61]"] s2(2)
    by (auto simp: one_entry_script_def xs_rm_def error_of_def)
  obtain s4 where s4: "xs_rm scripted 1 [0x78] [] s3 = Some (None, s4)" "service s4 = drop 4 one_entry_script"
    using scripted_single [of s3 XS_RM "[]" "drop 4 one_entry_script" 1 "xs_join [0x78] []"] s3(2)
    by (auto simp: one_entry_script_def xs_rm_def error_of_def)
  obtain s5 where s5: "xs_transaction_end scripted 1 False s4 = Some (None, s5)"
    using scripted_single [of s4 XS_TRANSACTION_END "[]" "[]" 1 "[0x54]"] s4(2)
    by (auto simp: one_entry_script_def xs_transaction_end_def error_of_def)
  have "rm_loop scripted 1 [0x78] [0x78] s1 = Some (None, s4)"
    by (subst rm_loop.simps) (simp add: s2(1) s3(1) s4(1))
  then show ?thesis using s1(1) s5 by (subst xs_rm_tree.simps) (simp add: xs_join_def)
qed

theorem rm_tree_keeps_locks_witness:
  "\<exists>st. xs_rm_tree scripted 0 [0x78] [] (script_state one_entry_script) = Some (None, st) \<and>
     suspend_locks st = suspend_locks (script_state one_entry_script)"
proof -
  obtain st where st: "xs_rm_tree scripted 0 [0x78] [] (script_state one_entry_script) = Some (None, st)" using one_entry_run by blast
  from rm_tree_keeps_locks [OF scripted_gives_ids st] st show ?thesis by blast
qed

section \<open>Watches\<close>

text \<open>
  The two threads and the clients, any number of them at once. Between the pieces of a registration or of its end the
  others go on: \<open>asking\<close> are the watches whose registration waits for the service, \<open>leaving\<close> those that are off the list
  while the service is told so, \<open>flushing\<close> those whose events are cancelled and that wait for the mutex of the watch
  thread (with \<open>True\<close> when the callback itself unregisters, which does not wait). \<open>refused\<close> are the watches whose
  registration has failed, \<open>own\<close> those that the callback that runs has unregistered.
\<close>

datatype watch_thread = Resting | Taken "nat \<times> u8 list list" | Calling "nat \<times> u8 list list"

record wsys =
  queues :: watches
  thread :: watch_thread
  asking :: "nat list"
  leaving :: "(bool \<times> nat) list"
  flushing :: "(bool \<times> nat) list"
  refused :: "nat set"
  own :: "nat set"

definition in_callback :: "wsys \<Rightarrow> bool" where
  "in_callback s \<longleftrightarrow> (case thread s of Calling m \<Rightarrow> True | _ \<Rightarrow> False)"

inductive wstep :: "'s xs_env \<Rightarrow> wsys \<Rightarrow> wsys \<Rightarrow> bool" for e where
  receive: "queue_msg e hdr body (queues s) = Some ws \<Longrightarrow> wstep e s (s\<lparr>queues := ws\<rparr>)"
| take_reply: "reply_list (queues s) = m # msgs \<Longrightarrow> wstep e s (s\<lparr>queues := (queues s)\<lparr>reply_list := msgs\<rparr>\<rparr>)"
| thread_take: "\<lbrakk>thread s = Resting; xenwatch_take (queues s) = (Some m, ws)\<rbrakk> \<Longrightarrow> wstep e s (s\<lparr>queues := ws, thread := Taken m\<rparr>)"
| thread_call: "thread s = Taken m \<Longrightarrow>
    wstep e s (s\<lparr>queues := xenwatch_call has_callback m (queues s), thread := Calling m, own := {}\<rparr>)"
| thread_end: "\<lbrakk>thread s = Calling m; True \<notin> fst ` set (leaving s @ flushing s)\<rbrakk> \<Longrightarrow> wstep e s (s\<lparr>thread := Resting\<rparr>)"
| register_begin: "watch_insert e w (queues s) = Some ws \<Longrightarrow> wstep e s (s\<lparr>queues := ws, asking := w # asking s\<rparr>)"
| register_ok: "\<lbrakk>w \<in> set (asking s); xs_watch e node (token_of e w) st = Some (err, st'); watch_error err = None\<rbrakk> \<Longrightarrow>
    wstep e s (s\<lparr>asking := remove1 w (asking s)\<rparr>)"
| register_fail: "\<lbrakk>w \<in> set (asking s); xs_watch e node (token_of e w) st = Some (err, st'); watch_error err \<noteq> None;
      watch_drop w (queues s) = Some ws\<rbrakk> \<Longrightarrow>
    wstep e s (s\<lparr>queues := ws, asking := remove1 w (asking s), refused := insert w (refused s)\<rparr>)"
| unregister_begin: "\<lbrakk>self \<longrightarrow> in_callback s; find_watch e (token_of e w) (queues s) \<noteq> None; watch_drop w (queues s) = Some ws\<rbrakk> \<Longrightarrow>
    wstep e s (s\<lparr>queues := ws, leaving := (self, w) # leaving s\<rparr>)"
| unregister_cancel: "\<lbrakk>(self, w) \<in> set (leaving s); xs_unwatch e node (token_of e w) st = Some (err, st')\<rbrakk> \<Longrightarrow>
    wstep e s (s\<lparr>queues := watch_cancel w (queues s), leaving := remove1 (self, w) (leaving s),
                 flushing := (self, w) # flushing s, refused := refused s - {w}\<rparr>)"
| unregister_end: "\<lbrakk>(False, w) \<in> set (flushing s); thread s = Resting\<rbrakk> \<Longrightarrow>
    wstep e s (s\<lparr>flushing := remove1 (False, w) (flushing s)\<rparr>)"
| unregister_own: "\<lbrakk>(True, w) \<in> set (flushing s); in_callback s\<rbrakk> \<Longrightarrow>
    wstep e s (s\<lparr>flushing := remove1 (True, w) (flushing s), own := insert w (own s)\<rparr>)"

definition no_watches :: watches where
  "no_watches = \<lparr>reply_list = [], watch_events = [], registered = [], called = []\<rparr>"

definition idle_watches :: wsys where
  "idle_watches = \<lparr>queues = no_watches, thread = Resting, asking = [], leaving = [], flushing = [], refused = {}, own = {}\<rparr>"

text \<open>
  The watches whose owner must still expect a callback: registered, being unregistered, or refused. The event the thread
  has taken may also be one of a watch whose owner waits for the thread, and a running callback may have unregistered its
  own watch.
\<close>

definition entitled :: "wsys \<Rightarrow> nat set" where
  "entitled s = set (registered (queues s)) \<union> snd ` set (leaving s) \<union> refused s"

definition calls_ok :: "wsys \<Rightarrow> bool" where
  "calls_ok s \<longleftrightarrow>
     (case thread s of
        Resting \<Rightarrow> True
      | Taken m \<Rightarrow> fst m \<in> entitled s \<union> snd ` set (flushing s)
      | Calling m \<Rightarrow> fst m \<in> entitled s \<union> snd ` set (flushing s) \<union> own s)"

definition watches_ok :: "wsys \<Rightarrow> bool" where
  "watches_ok s \<longleftrightarrow> fst ` set (watch_events (queues s)) \<subseteq> entitled s \<and> calls_ok s"

lemma find_watch_Some: "find_watch e tok ws = Some w \<Longrightarrow> w \<in> set (registered ws)"
  unfolding find_watch_def find_Some_iff by (metis nth_mem)

lemma find_watch_None: "find_watch e tok ws = None \<longleftrightarrow> token_value e tok \<notin> set (registered ws)"
  by (auto simp: find_watch_def find_None_iff)

lemma queue_msg_lists:
  "queue_msg e hdr body ws = Some ws' \<Longrightarrow>
   registered ws' = registered ws \<and> fst ` set (watch_events ws') \<subseteq> fst ` set (watch_events ws) \<union> set (registered ws)"
proof -
  assume q: "queue_msg e hdr body ws = Some ws'"
  show ?thesis
  proof (cases "m_type hdr = type_number XS_WATCH_EVENT")
    case True
    then obtain vec where vec: "split body = Some vec" "\<not> length vec \<le> 1"
      using q by (auto simp: queue_msg_def elim!: bind_SomeE split: if_splits)
    show ?thesis
    proof (cases "find_watch e (vec ! 1) ws")
      case None
      then show ?thesis using q True vec by (simp add: queue_msg_def)
    next
      case (Some w)
      have "ws' = ws\<lparr>watch_events := watch_events ws @ [(w, vec)]\<rparr>" using q True vec Some by (simp add: queue_msg_def)
      then show ?thesis using find_watch_Some [OF Some] by auto
    qed
  next
    case False
    then have "ws' = ws\<lparr>reply_list := reply_list ws @ [(hdr, body)]\<rparr>" using q by (simp add: queue_msg_def)
    then show ?thesis by auto
  qed
qed

lemma watch_drop_lists:
  "watch_drop w ws = Some ws' \<Longrightarrow> watch_events ws' = watch_events ws \<and> set (registered ws) \<subseteq> insert w (set (registered ws'))"
proof -
  assume "watch_drop w ws = Some ws'"
  then have "ws' = ws\<lparr>registered := remove1 w (registered ws)\<rparr>" by (simp add: watch_drop_def split: if_splits)
  moreover have "v \<in> insert w (set (remove1 w (registered ws)))" if "v \<in> set (registered ws)" for v
    using that by (cases "v = w") simp_all
  ultimately show ?thesis by auto
qed

lemma remove1_snd: "\<lbrakk>v \<in> snd ` set xs; v \<noteq> w\<rbrakk> \<Longrightarrow> v \<in> snd ` set (remove1 (b, w) xs)"
proof -
  assume "v \<in> snd ` set xs" "v \<noteq> w"
  then obtain c where "(c, v) \<in> set xs" "(c, v) \<noteq> (b, w)" by auto
  then have "(c, v) \<in> set (remove1 (b, w) xs)" using in_set_remove1 [of "(c, v)" "(b, w)" xs] by blast
  then show ?thesis by force
qed

lemma watch_insert_lists:
  "watch_insert e w ws = Some ws' \<Longrightarrow> watch_events ws' = watch_events ws \<and> registered ws' = w # registered ws"
  by (auto simp: watch_insert_def split: if_splits)

text \<open>A step that keeps the events and the thread, and takes no watch out of the sets, keeps the invariant.\<close>

lemma watches_ok_more:
  assumes "watches_ok s" "fst ` set (watch_events (queues s')) \<subseteq> fst ` set (watch_events (queues s)) \<union> entitled s'"
    "entitled s \<subseteq> entitled s'" "flushing s' = flushing s" "thread s' = thread s" "own s' = own s"
  shows "watches_ok s'"
proof -
  have f: "snd ` set (flushing s') = snd ` set (flushing s)" using assms(4) by (rule arg_cong)
  have "calls_ok s" using assms(1) by (simp add: watches_ok_def)
  then have "calls_ok s'" using assms(3) unfolding calls_ok_def f assms(5,6) by (cases "thread s") auto
  then show ?thesis using assms unfolding watches_ok_def by blast
qed

lemma cancel_entitled:
  assumes "v \<in> entitled s" "v \<noteq> w"
  shows "v \<in> entitled (s\<lparr>queues := watch_cancel w (queues s), leaving := remove1 (b, w) (leaving s),
    flushing := (b, w) # flushing s, refused := refused s - {w}\<rparr>)"
proof -
  have "v \<in> snd ` set (remove1 (b, w) (leaving s))" if "v \<in> snd ` set (leaving s)"
    using that assms(2) by (rule remove1_snd)
  then show ?thesis using assms by (auto simp: entitled_def watch_cancel_def)
qed

lemma cancel_ok:
  assumes "watches_ok s"
  shows "watches_ok (s\<lparr>queues := watch_cancel w (queues s), leaving := remove1 (b, w) (leaving s),
    flushing := (b, w) # flushing s, refused := refused s - {w}\<rparr>)" (is "watches_ok ?t")
proof -
  have e: "v \<in> entitled ?t" if "v \<in> entitled s" "v \<noteq> w" for v using cancel_entitled that by blast
  have "fst ` set (watch_events (queues ?t)) \<subseteq> fst ` set (watch_events (queues s)) - {w}" by (auto simp: watch_cancel_def)
  then have "fst ` set (watch_events (queues ?t)) \<subseteq> entitled ?t" using assms e unfolding watches_ok_def by blast
  moreover have "entitled s \<subseteq> insert w (entitled ?t)" using e by blast
  moreover have "snd ` set (flushing ?t) = insert w (snd ` set (flushing s))" by simp
  then have "calls_ok ?t" using assms calculation unfolding watches_ok_def calls_ok_def
    by (cases "thread s") auto
  ultimately show ?thesis unfolding watches_ok_def by blast
qed

lemma wstep_ok: "\<lbrakk>wstep e s s'; watches_ok s\<rbrakk> \<Longrightarrow> watches_ok s'"
proof (induction rule: wstep.induct)
  case (receive hdr body s ws)
  have "registered ws = registered (queues s)" "fst ` set (watch_events ws) \<subseteq> fst ` set (watch_events (queues s)) \<union> set (registered (queues s))"
    using queue_msg_lists [OF receive(1)] by simp_all
  then show ?case by (intro watches_ok_more [OF receive(2)]) (auto simp: entitled_def)
next
  case (take_reply s m msgs)
  then show ?case by (intro watches_ok_more [OF take_reply(2)]) (simp_all add: entitled_def)
next
  case (thread_take s m ws)
  have "watch_events (queues s) = m # watch_events ws" "registered ws = registered (queues s)"
    using thread_take(2) by (auto simp: xenwatch_take_def split: list.splits)
  then show ?case using thread_take(3) by (auto simp: watches_ok_def calls_ok_def entitled_def)
next
  case (thread_call s m has_callback)
  then show ?case by (auto simp: watches_ok_def calls_ok_def entitled_def xenwatch_call_def)
next
  case (thread_end s m)
  then show ?case by (simp add: watches_ok_def calls_ok_def entitled_def)
next
  case (register_begin w s ws)
  show ?case using watch_insert_lists [OF register_begin(1)]
    by (intro watches_ok_more [OF register_begin(2)]) (auto simp: entitled_def)
next
  case (register_ok w s node st err st')
  show ?case by (intro watches_ok_more [OF register_ok(4)]) (simp_all add: entitled_def)
next
  case (register_fail w s node st err st' ws)
  show ?case using watch_drop_lists [OF register_fail(4)]
    by (intro watches_ok_more [OF register_fail(5)]) (auto simp: entitled_def)
next
  case (unregister_begin self s w ws)
  show ?case using watch_drop_lists [OF unregister_begin(3)]
    by (intro watches_ok_more [OF unregister_begin(4)]) (auto simp: entitled_def)
next
  case (unregister_cancel self w s node st err st')
  show ?case by (rule cancel_ok [OF unregister_cancel(3)])
next
  case (unregister_end w s)
  then show ?case by (simp add: watches_ok_def calls_ok_def entitled_def)
next
  case (unregister_own w s)
  obtain m where m: "thread s = Calling m" using unregister_own(2) by (auto simp: in_callback_def split: watch_thread.splits)
  have "v \<in> insert w (snd ` set (remove1 (True, w) (flushing s)))" if "v \<in> snd ` set (flushing s)" for v
    using remove1_snd [OF that, of w True] by (cases "v = w") simp_all
  then show ?case using unregister_own(3) m by (auto simp: watches_ok_def calls_ok_def entitled_def)
qed

lemma wsteps_ok: "\<lbrakk>(wstep e)\<^sup>*\<^sup>* s s'; watches_ok s\<rbrakk> \<Longrightarrow> watches_ok s'"
  by (induction rule: rtranclp_induct) (blast intro: wstep_ok)+


lemma steps_snoc: "\<lbrakk>(wstep e)\<^sup>*\<^sup>* s t; wstep e t u\<rbrakk> \<Longrightarrow> (wstep e)\<^sup>*\<^sup>* s u"
  by (rule rtranclp.rtrancl_into_rtrancl)

lemma step_run: "wstep e s t \<Longrightarrow> (wstep e)\<^sup>*\<^sup>* s t"
  by (rule r_into_rtranclp)

lemma run_to: "\<lbrakk>(wstep e)\<^sup>*\<^sup>* s t; queues t = ws\<rbrakk> \<Longrightarrow> \<exists>t. (wstep e)\<^sup>*\<^sup>* s t \<and> queues t = ws"
  by blast

text \<open>The operations as the code composes them are runs of these steps.\<close>

lemma register_run:
  assumes "xs_register_watch e w node st (queues s) = Some (err, st', ws)"
  shows "\<exists>t. (wstep e)\<^sup>*\<^sup>* s t \<and> queues t = ws"
proof -
  obtain ws1 er s1 where a: "watch_insert e w (queues s) = Some ws1"
      "xs_watch e node (token_of e w) (st\<lparr>suspend_locks := suspend_locks st + 1\<rparr>) = Some (er, s1)"
      "(if watch_error er \<noteq> None then watch_drop w ws1 else Some ws1) = Some ws"
    using assms unfolding xs_register_watch_def by (auto elim!: bind_SomeE)
  have r: "(wstep e)\<^sup>*\<^sup>* s (s\<lparr>queues := ws1, asking := w # asking s\<rparr>)" (is "(wstep e)\<^sup>*\<^sup>* s ?t")
    by (rule step_run [OF wstep.register_begin [OF a(1)]])
  show ?thesis
  proof (cases "watch_error er = None")
    case True
    have "wstep e ?t (?t\<lparr>asking := remove1 w (asking ?t)\<rparr>)" by (rule wstep.register_ok [OF _ a(2) True]) simp
    from steps_snoc [OF r this] show ?thesis by (rule run_to) (use True a(3) in simp)
  next
    case False
    have "wstep e ?t (?t\<lparr>queues := ws, asking := remove1 w (asking ?t), refused := insert w (refused ?t)\<rparr>)"
      by (rule wstep.register_fail [OF _ a(2) False]) (use False a(3) in simp_all)
    from steps_snoc [OF r this] show ?thesis by (rule run_to) simp
  qed
qed

lemma unregister_run:
  assumes "xs_unregister_watch e w node st (queues s) = Some (st', ws)"
  shows "\<exists>t. (wstep e)\<^sup>*\<^sup>* s t \<and> queues t = ws"
proof (cases "find_watch e (token_of e w) (queues s) = None")
  case True
  then show ?thesis using assms by (auto simp: xs_unregister_watch_def)
next
  case False
  obtain ws1 er s1 where a: "watch_drop w (queues s) = Some ws1"
      "xs_unwatch e node (token_of e w) (st\<lparr>suspend_locks := suspend_locks st + 1\<rparr>) = Some (er, s1)" "ws = watch_cancel w ws1"
    using assms False unfolding xs_unregister_watch_def by (auto elim!: bind_SomeE)
  have r: "(wstep e)\<^sup>*\<^sup>* s (s\<lparr>queues := ws1, leaving := (False, w) # leaving s\<rparr>)" (is "(wstep e)\<^sup>*\<^sup>* s ?t")
    by (rule step_run [OF wstep.unregister_begin [OF _ False a(1)]]) simp
  have "wstep e ?t (?t\<lparr>queues := watch_cancel w (queues ?t), leaving := remove1 (False, w) (leaving ?t),
                 flushing := (False, w) # flushing ?t, refused := refused ?t - {w}\<rparr>)"
    by (rule wstep.unregister_cancel [OF _ a(2)]) simp
  from steps_snoc [OF r this] show ?thesis by (rule run_to) (simp add: a(3))
qed

lemma round_run:
  assumes "thread s = Resting" "watch_events (queues s) \<noteq> []"
  shows "\<exists>t. (wstep e)\<^sup>*\<^sup>* s t \<and> queues t = xenwatch_round h (queues s)"
proof -
  obtain m ws where m: "xenwatch_take (queues s) = (Some m, ws)"
    using assms(2) by (cases "watch_events (queues s)") (auto simp: xenwatch_take_def)
  let ?t = "s\<lparr>queues := ws, thread := Taken m\<rparr>"
  have "wstep e ?t (?t\<lparr>queues := xenwatch_call h m (queues ?t), thread := Calling m, own := {}\<rparr>)" by (rule wstep.thread_call) simp
  from steps_snoc [OF step_run [OF wstep.thread_take [OF assms(1) m]] this]
  show ?thesis by (rule run_to) (simp add: m xenwatch_round_def)
qed

text \<open>An event of the watch 1 arrives while its registration waits for the service.\<close>

definition early_event :: wsys where
  "early_event = idle_watches\<lparr>queues := no_watches\<lparr>watch_events := [(1, [[0x78], [1]])], registered := [1]\<rparr>, asking := [1]\<rparr>"

lemma early_event_run:
  assumes "token_of e = (\<lambda>w. replicate w 1)" "token_value e = length"
  shows "(wstep e)\<^sup>*\<^sup>* idle_watches early_event"
proof -
  let ?ws = "no_watches\<lparr>registered := [1]\<rparr>"
  let ?s = "idle_watches\<lparr>queues := ?ws, asking := [1]\<rparr>"
  let ?h = "\<lparr>m_type = 15, m_req_id = 0, m_tx_id = 0, m_len = 4\<rparr>"
  have "watch_insert e 1 (queues idle_watches) = Some ?ws"
    by (simp add: watch_insert_def find_watch_def idle_watches_def no_watches_def)
  then have "wstep e idle_watches (idle_watches\<lparr>queues := ?ws, asking := 1 # asking idle_watches\<rparr>)" by (rule wstep.register_begin)
  then have "(wstep e)\<^sup>*\<^sup>* idle_watches ?s" by (simp add: idle_watches_def step_run)
  moreover have "queue_msg e ?h [0x78, 0, 1, 0] (queues ?s) = Some (queues early_event)"
    by (simp add: queue_msg_def find_watch_def no_watches_def early_event_def assms type_number_def xs_types_def split_def extract_code)
  then have "wstep e ?s (?s\<lparr>queues := queues early_event\<rparr>)" by (rule wstep.receive)
  moreover have "?s\<lparr>queues := queues early_event\<rparr> = early_event" by (simp add: early_event_def)
  ultimately show ?thesis using steps_snoc [of e idle_watches ?s early_event] by (simp only:)
qed


text \<open>
  When the wait for the answer is interrupted (\<open>EINTR\<close> is 4) the registration fails, and the watch is taken off the list; the event that
  the service has already sent stays in the queue, and the thread calls the watch back.
\<close>

definition interrupted :: "unit xs_env" where
  "interrupted = \<lparr>write_err = \<lambda>_. None, reply = \<lambda>s w. (Inl (Other_error 4), s), number_of = decimal,
     token_of = \<lambda>w. replicate w 1, token_value = length\<rparr>"

theorem refused_watch_called_back:
  "\<exists>s. (wstep interrupted)\<^sup>*\<^sup>* idle_watches s \<and> registered (queues s) = [] \<and> leaving s = [] \<and> flushing s = [] \<and>
     called (queues s) = [(1, [[0x78], [1]])]"
proof -
  let ?m = "(1, [[0x78], [1]]) :: nat \<times> u8 list list"
  let ?a = "early_event\<lparr>queues := (queues early_event)\<lparr>registered := []\<rparr>, asking := [], refused := {1}\<rparr>"
  let ?b = "?a\<lparr>queues := (queues ?a)\<lparr>watch_events := []\<rparr>, thread := Taken ?m\<rparr>"
  let ?c = "?b\<lparr>queues := xenwatch_call (\<lambda>w. True) ?m (queues ?b), thread := Calling ?m, own := {}\<rparr>"
  let ?st = "\<lparr>service = (), nr_writes = 0, wire = [], suspend_locks = 0\<rparr>"
  have "\<exists>st. xs_watch interrupted [0x78] (token_of interrupted 1) ?st = Some (Some (Other_error 4), st)"
    by (simp add: xs_watch_def xs_talkv_def error_of_def await_reply_def store_write_def interrupted_def xs_request_filter_def Let_def)
  then obtain st where "xs_watch interrupted [0x78] (token_of interrupted 1) ?st = Some (Some (Other_error 4), st)" by blast
  from wstep.register_fail [OF _ this, of early_event "(queues early_event)\<lparr>registered := []\<rparr>"]
  have "wstep interrupted early_event ?a" by (simp add: early_event_def idle_watches_def watch_error_def watch_drop_def)
  moreover have "(wstep interrupted)\<^sup>*\<^sup>* idle_watches early_event" by (rule early_event_run) (simp_all add: interrupted_def)
  ultimately have ra: "(wstep interrupted)\<^sup>*\<^sup>* idle_watches ?a" by (rule steps_snoc [rotated])
  have "wstep interrupted ?a ?b"
    by (rule wstep.thread_take) (simp_all add: early_event_def idle_watches_def xenwatch_take_def)
  note rb = steps_snoc [OF ra this]
  have "wstep interrupted ?b ?c" by (rule wstep.thread_call) simp
  note rc = steps_snoc [OF rb this]
  show ?thesis
    by (rule exI [of _ ?c]) (use rc in \<open>simp add: early_event_def idle_watches_def no_watches_def xenwatch_call_def\<close>)
qed

text \<open>
  An event whose body is one string has no token: the token is read behind the list of strings.
\<close>

theorem event_without_token_faults:
  assumes "m_type hdr = type_number XS_WATCH_EVENT" "0 \<notin> set s"
  shows "queue_msg e hdr (s @ [0]) ws = None"
  using assms split_strings [of "[s]"] by (simp add: queue_msg_def)

theorem event_without_token_faults_witness:
  "queue_msg scripted \<lparr>m_type = 15, m_req_id = 0, m_tx_id = 0, m_len = 2\<rparr> ([0x78] @ [0]) no_watches = None"
  by (rule event_without_token_faults) (simp_all add: type_number_def xs_types_def)

section \<open>From the ring to the requester\<close>

text \<open>What the receiving thread has done by the time \<open>k\<close>: the reply is in the list from the time \<open>t\<close> on.\<close>

definition arrives_at :: "nat \<Rightarrow> (xsd_sockmsg \<times> u8 list) \<Rightarrow> nat \<Rightarrow> watches \<Rightarrow> watches" where
  "arrives_at t msg k ws = (if k = t then ws\<lparr>reply_list := reply_list ws @ [msg]\<rparr> else ws)"

lemma read_reply_waits:
  assumes "\<forall>k. slp k = None \<or> slp k = Some EWOULDBLOCK"
  shows "k \<le> t \<Longrightarrow> reply_list ws = [] \<Longrightarrow> xs_read_reply (arrives_at t (h, b)) slp k ws = Some (Inr (m_type h, b), ws)"
proof (induction "t - k" arbitrary: k)
  case 0
  then have "k = t" by simp
  then show ?case using "0.prems"(2) by (subst xs_read_reply.simps) (simp add: arrives_at_def)
next
  case (Suc n)
  then have k: "n = t - Suc k" "Suc k \<le> t" "k \<noteq> t" by auto
  have "slp k = None \<or> slp k = Some EWOULDBLOCK" using assms by blast
  then have "xs_read_reply (arrives_at t (h, b)) slp k ws = xs_read_reply (arrives_at t (h, b)) slp (Suc k) ws"
    using Suc.prems(2) k(3) by (subst xs_read_reply.simps) (auto simp: arrives_at_def)
  then show ?case using Suc.hyps(1) [OF k(1,2) Suc.prems(2)] by simp
qed

text \<open>
  A requester that waits until the reply arrives gets its type and body, and takes it out of the list, when no
  older reply is in the list.
\<close>

theorem reply_reaches_requester:
  assumes "uninterrupted slp" "reply_list ws = []"
  shows "xs_read_reply (arrives_at t (h, b)) slp 0 ws = Some (Inr (m_type h, b), ws)"
  using read_reply_waits [of slp 0 t] assms by (simp add: uninterrupted_def)

theorem reply_reaches_requester_witness:
  "xs_read_reply (arrives_at 7 (\<lparr>m_type = 2, m_req_id = 0, m_tx_id = 0, m_len = 1\<rparr>, [5])) (\<lambda>k. if k = 3 then Some EWOULDBLOCK else None) 0 no_watches =
     Some (Inr (2, [5]), no_watches)"
  using reply_reaches_requester [of "\<lambda>k. if k = 3 then Some EWOULDBLOCK else None" no_watches 7
      "\<lparr>m_type = 2, m_req_id = 0, m_tx_id = 0, m_len = 1\<rparr>" "[5]"]
  by (simp add: uninterrupted_def no_watches_def)

text \<open>
  A request whose waiting is interrupted leaves its reply for the next request: the next one gets the old reply, and
  its own stays in the list.
\<close>

theorem late_reply_taken_by_next:
  assumes "reply_list ws = []" "x \<noteq> EWOULDBLOCK"
  shows "\<exists>ws'. xs_read_reply (\<lambda>_ u. u) (\<lambda>_. Some x) 0 ws = Some (Inl x, ws') \<and>
    xs_read_reply (\<lambda>_ u. u) slp 0 (ws'\<lparr>reply_list := reply_list ws' @ [(h1, b1), (h2, b2)]\<rparr>) =
      Some (Inr (m_type h1, b1), ws'\<lparr>reply_list := [(h2, b2)]\<rparr>)"
proof (intro exI conjI)
  show "xs_read_reply (\<lambda>_ u. u) (\<lambda>_. Some x) 0 ws = Some (Inl x, ws)"
    using assms by (subst xs_read_reply.simps) simp
  show "xs_read_reply (\<lambda>_ u. u) slp 0 (ws\<lparr>reply_list := reply_list ws @ [(h1, b1), (h2, b2)]\<rparr>) =
      Some (Inr (m_type h1, b1), ws\<lparr>reply_list := [(h2, b2)]\<rparr>)"
    using assms by (subst xs_read_reply.simps) simp
qed

theorem late_reply_taken_by_next_witness:
  "\<exists>ws'. xs_read_reply (\<lambda>_ u. u) (\<lambda>_. Some EIO) 0 no_watches = Some (Inl EIO, ws') \<and>
    xs_read_reply (\<lambda>_ u. u) (\<lambda>_. None) 0 (ws'\<lparr>reply_list := reply_list ws' @
        [(\<lparr>m_type = 2, m_req_id = 0, m_tx_id = 0, m_len = 1\<rparr>, [5]), (\<lparr>m_type = 2, m_req_id = 0, m_tx_id = 0, m_len = 1\<rparr>, [6])]\<rparr>) =
      Some (Inr (m_type \<lparr>m_type = 2, m_req_id = 0, m_tx_id = 0, m_len = 1\<rparr>, [5]),
        ws'\<lparr>reply_list := [(\<lparr>m_type = 2, m_req_id = 0, m_tx_id = 0, m_len = 1\<rparr>, [6])]\<rparr>)"
  by (rule late_reply_taken_by_next) (simp_all add: no_watches_def)

end
