(* ===== verification/XenBus.thy ===== *)
theory XenBus
  imports XenStore
begin

text \<open>
  The Xen bus (xen/xenbus/): devices that appear in the XenStore become children of a bus, each with its state, and the
  boot is held up until they are connected. The build of the kernel leaves it out; it is modelled as it stands, on top of
  the requests and watches of XenStore. The device framework is a parameter where it decides (whether a driver attaches, and which
  states the driver sets meanwhile); the children of the bus are a list, in the order they were added. None is a failed assertion or a fault
  of the XenStore driver.
\<close>

section \<open>States, devices and the bus\<close>

datatype xenbus_state =
    Unknown | Initialising | InitWait | Initialised | Connected | Closing | Closed | Reconfiguring | Reconfigured

definition state_values :: "xenbus_state list" where
  "state_values = [Unknown, Initialising, InitWait, Initialised, Connected, Closing, Closed, Reconfiguring, Reconfigured]"

text \<open>The number of a state is its place in the list.\<close>

definition state_number :: "xenbus_state \<Rightarrow> int" where
  "state_number s = int (length (takeWhile (\<lambda>t. t \<noteq> s) state_values))"

definition xenbus_strstate :: "int \<Rightarrow> string" where
  "xenbus_strstate n =
     (if 0 \<le> n \<and> n < state_number Closed + 1
      then [''Unknown'', ''Initialising'', ''InitWait'', ''Initialised'', ''Connected'', ''Closing'', ''Closed''] ! nat n
      else ''INVALID'')"

text \<open>
  The instance variables of a child. \<open>present\<close> is the state of the device in the framework, true from attaching on; the
  two nodes are the ones of its watches; None is a null pointer.
\<close>

record child =
  xd_dev :: nat
  xd_node :: "u8 list"
  xd_type :: "u8 list"
  xd_state :: int
  xd_connecting :: bool
  xd_otherend_id :: int
  xd_otherend_path :: "u8 list option"
  otherend_node :: "u8 list option"
  local_node :: "u8 list option"
  present :: bool

text \<open>
  The bus, with the XenStore driver under it. \<open>attach_active\<close> is \<open>XBS_ATTACH_CH_ACTIVE\<close>, \<open>hook_held\<close> whether the hook that holds
  up the boot is established, \<open>next_dev\<close> the next unused identity, \<open>probe_queued\<close> whether the probe task is queued, and
  \<open>leaked\<close> the instance variables that nothing points to any more.
\<close>

record 's xbus =
  store :: "'s xs"
  wlist :: watches
  xbs_node :: "u8 list"
  xbs_id_components :: nat
  connecting_children :: u32
  attach_active :: bool
  hook_held :: bool
  kids :: "child list"
  next_dev :: nat
  probe_queued :: bool
  leaked :: nat

text \<open>
  \<open>scan_int v\<close> is the number of fields that scanning \<open>v\<close> with \<open>%d\<close> or \<open>%i\<close> stores, \<open>int_of\<close> what the variable holds afterwards,
  \<open>text_of\<close> the number printed with \<open>%d\<close>. \<open>attach_driver\<close> is what probing and attaching a device does: whether it fails, and the
  states that the driver sets.
\<close>

record 's xb_env =
  xse :: "'s xs_env"
  scan_int :: "u8 list \<Rightarrow> int"
  int_of :: "u8 list \<Rightarrow> int"
  text_of :: "int \<Rightarrow> u8 list"
  attach_driver :: "child \<Rightarrow> bool \<times> int list"

definition ENXIO :: xs_error where "ENXIO = Other_error 6"

text \<open>The watches inside of the instance variables of a child, and the one of the bus.\<close>

definition otherend_watch :: "nat \<Rightarrow> nat" where "otherend_watch d = 2 * d + 1"
definition local_watch :: "nat \<Rightarrow> nat" where "local_watch d = 2 * d + 2"
definition device_watch :: nat where "device_watch = 0"

definition find_kid :: "nat \<Rightarrow> 's xbus \<Rightarrow> child option" where
  "find_kid d b = find (\<lambda>c. xd_dev c = d) (kids b)"

definition update_kid :: "nat \<Rightarrow> (child \<Rightarrow> child) \<Rightarrow> 's xbus \<Rightarrow> 's xbus" where
  "update_kid d f b = b\<lparr>kids := map (\<lambda>c. if xd_dev c = d then f c else c) (kids b)\<rparr>"

definition register :: "'s xb_env \<Rightarrow> nat \<Rightarrow> u8 list \<Rightarrow> 's xbus \<Rightarrow> (xs_error option \<times> 's xbus) option" where
  "register e w node b = do {
     (err, st, ws) \<leftarrow> xs_register_watch (xse e) w node (store b) (wlist b);
     Some (err, b\<lparr>store := st, wlist := ws\<rparr>)
   }"

definition unregister :: "'s xb_env \<Rightarrow> nat \<Rightarrow> u8 list option \<Rightarrow> 's xbus \<Rightarrow> 's xbus option" where
  "unregister e w node b =
     (case node of
        None \<Rightarrow> Some b
      | Some n \<Rightarrow> do {
          (st, ws) \<leftarrow> xs_unregister_watch (xse e) w n (store b) (wlist b);
          Some (b\<lparr>store := st, wlist := ws\<rparr>)
        })"

section \<open>States in the XenStore\<close>

definition xenbus_read_driver_state :: "'s xb_env \<Rightarrow> u8 list \<Rightarrow> 's xs \<Rightarrow> (int \<times> 's xs) option" where
  "xenbus_read_driver_state e path st = do {
     (err, vs, st) \<leftarrow> xs_gather (xse e) 0 path [(str_bytes ''state'', Some (scan_int e))] st;
     Some (if err = None then int_of e (hd vs) else state_number Closed, st)
   }"

definition xenbus_dev_is_online :: "'s xb_env \<Rightarrow> u8 list \<Rightarrow> 's xs \<Rightarrow> (int \<times> 's xs) option" where
  "xenbus_dev_is_online e path st = do {
     (err, vs, st) \<leftarrow> xs_gather (xse e) 0 path [(str_bytes ''online'', Some (scan_int e))] st;
     Some (if err = None then int_of e (hd vs) else 0, st)
   }"

text \<open>The hook is released with the last child that was connecting.\<close>

definition xenbusb_release_confighook :: "'s xbus \<Rightarrow> 's xbus option" where
  "xenbusb_release_confighook b =
     (if connecting_children b = 0 then None
      else (
        let b = b\<lparr>connecting_children := connecting_children b - 1\<rparr>
        in Some (if connecting_children b = 0 \<and> attach_active b then b\<lparr>attach_active := False, hook_held := False\<rparr> else b)))"

text \<open>Writing the state again while the transaction conflicts.\<close>

partial_function (option) write_state :: "'s xb_env \<Rightarrow> u8 list \<Rightarrow> int \<Rightarrow> 's xs \<Rightarrow> (xs_error option \<times> 's xs) option" where
  "write_state e node n st = do {
     (err, st) \<leftarrow> xs_write (xse e) 0 node (str_bytes ''state'') (text_of e n) st;
     if err = Some EAGAIN then write_state e node n st else Some (err, st)
   }"

text \<open>
  Setting \<open>XENBUS_IVAR_STATE\<close>. After an error of the write, \<open>xenbus_dev_fatal\<close> is called for the bus instead of the child, which
  concerns the parent of the bus; it is not part of the model.
\<close>

definition set_state :: "'s xb_env \<Rightarrow> nat \<Rightarrow> int \<Rightarrow> 's xbus \<Rightarrow> (xs_error option \<times> 's xbus) option" where
  "set_state e d n b =
     (case find_kid d b of
        None \<Rightarrow> None
      | Some c \<Rightarrow>
          if xd_state c = n then Some (None, b)
          else do {
            (r, st) \<leftarrow> xs_scanf (xse e) (scan_int e) 0 (xd_node c) (str_bytes ''state'') (store b);
            let b = b\<lparr>store := st\<rparr>;
            case r of
              Inl x \<Rightarrow> Some (Some x, b)
            | Inr _ \<Rightarrow> do {
                (err, st) \<leftarrow> write_state e (xd_node c) n (store b);
                let b = b\<lparr>store := st\<rparr>;
                if err \<noteq> None then Some (err, b)
                else do {
                  let b = update_kid d (\<lambda>c. c\<lparr>xd_state := n\<rparr>) b;
                  b \<leftarrow> (if xd_connecting c \<and> (n = state_number Closed \<or> n = state_number Connected)
                       then xenbusb_release_confighook (update_kid d (\<lambda>c. c\<lparr>xd_connecting := False\<rparr>) b)
                       else Some b);
                  Some (None, b)
                }
              }
          })"

text \<open>The other instance variables are read-only.\<close>

datatype ivar = IVAR_NODE | IVAR_TYPE | IVAR_STATE | IVAR_OTHEREND_ID | IVAR_OTHEREND_PATH | IVAR_other

definition xenbusb_write_ivar :: "'s xb_env \<Rightarrow> nat \<Rightarrow> ivar \<Rightarrow> int \<Rightarrow> 's xbus \<Rightarrow> (xs_error option \<times> 's xbus) option" where
  "xenbusb_write_ivar e d i n b =
     (case i of IVAR_STATE \<Rightarrow> set_state e d n b | IVAR_other \<Rightarrow> Some (Some ENOENT, b) | _ \<Rightarrow> Some (Some EINVAL, b))"

datatype ivar_value = Text "u8 list option" | Number int

definition xenbusb_read_ivar :: "child \<Rightarrow> ivar \<Rightarrow> xs_error + ivar_value" where
  "xenbusb_read_ivar c i =
     (case i of
        IVAR_NODE \<Rightarrow> Inr (Text (Some (xd_node c)))
      | IVAR_TYPE \<Rightarrow> Inr (Text (Some (xd_type c)))
      | IVAR_STATE \<Rightarrow> Inr (Number (xd_state c))
      | IVAR_OTHEREND_ID \<Rightarrow> Inr (Number (xd_otherend_id c))
      | IVAR_OTHEREND_PATH \<Rightarrow> Inr (Text (xd_otherend_path c))
      | IVAR_other \<Rightarrow> Inl ENOENT)"

section \<open>Errors of a device\<close>

text \<open>\<open>msg\<close> is the formatted message, with the number of the error in front of it.\<close>

definition xenbus_dev_error :: "'s xb_env \<Rightarrow> nat \<Rightarrow> u8 list \<Rightarrow> 's xbus \<Rightarrow> 's xbus option" where
  "xenbus_dev_error e d msg b = do {
     c \<leftarrow> find_kid d b;
     if length msg > 4095 then None
     else do {
       (err, st) \<leftarrow> xs_write (xse e) 0 (str_bytes ''error/'' @ xd_node c) (str_bytes ''error'') msg (store b);
       Some (b\<lparr>store := st\<rparr>)
     }
   }"

definition xenbus_dev_fatal :: "'s xb_env \<Rightarrow> nat \<Rightarrow> u8 list \<Rightarrow> 's xbus \<Rightarrow> 's xbus option" where
  "xenbus_dev_fatal e d msg b = do {
     b \<leftarrow> xenbus_dev_error e d msg b;
     (err, b) \<leftarrow> set_state e d (state_number Closing) b;
     Some b
   }"

text \<open>A watch that a driver asks for: the message of an error is a parameter.\<close>

definition xenbus_watch_path ::
  "'s xb_env \<Rightarrow> (xs_error \<Rightarrow> u8 list) \<Rightarrow> nat \<Rightarrow> u8 list \<Rightarrow> nat \<Rightarrow> 's xbus \<Rightarrow> (xs_error option \<times> 's xbus) option" where
  "xenbus_watch_path e msg d path w b = do {
     (err, b) \<leftarrow> register e w path b;
     case err of
       None \<Rightarrow> Some (None, b)
     | Some x \<Rightarrow> do { b \<leftarrow> xenbus_dev_fatal e d (msg x) b; Some (Some x, b) }
   }"

definition xenbus_watch_path2 ::
  "'s xb_env \<Rightarrow> (xs_error \<Rightarrow> u8 list) \<Rightarrow> nat \<Rightarrow> u8 list \<Rightarrow> u8 list \<Rightarrow> nat \<Rightarrow> 's xbus \<Rightarrow> (xs_error option \<times> 's xbus) option" where
  "xenbus_watch_path2 e msg d path path2 w b = xenbus_watch_path e msg d (path @ [slash] @ path2) w b"

text \<open>A call of the hypervisor or the grant table on behalf of a device: its error is fatal for the device.\<close>

definition or_fatal ::
  "'s xb_env \<Rightarrow> (xs_error \<Rightarrow> u8 list) \<Rightarrow> nat \<Rightarrow> (xs_error + 'a) \<Rightarrow> 's xbus \<Rightarrow> ((xs_error + 'a) \<times> 's xbus) option" where
  "or_fatal e msg d r b =
     (case r of Inl x \<Rightarrow> do { b \<leftarrow> xenbus_dev_fatal e d (msg x) b; Some (Inl x, b) } | Inr v \<Rightarrow> Some (Inr v, b))"

definition xenbus_grant_ring ::
  "'s xb_env \<Rightarrow> (xs_error \<Rightarrow> u8 list) \<Rightarrow> (int \<Rightarrow> u64 \<Rightarrow> xs_error + u32) \<Rightarrow> nat \<Rightarrow> u64 \<Rightarrow> 's xbus \<Rightarrow> ((xs_error + u32) \<times> 's xbus) option" where
  "xenbus_grant_ring e msg grant d mfn b = do { c \<leftarrow> find_kid d b; or_fatal e msg d (grant (xd_otherend_id c) mfn) b }"

definition xenbus_alloc_evtchn ::
  "'s xb_env \<Rightarrow> (xs_error \<Rightarrow> u8 list) \<Rightarrow> (int \<Rightarrow> xs_error + u32) \<Rightarrow> nat \<Rightarrow> 's xbus \<Rightarrow> ((xs_error + u32) \<times> 's xbus) option" where
  "xenbus_alloc_evtchn e msg alloc d b = do { c \<leftarrow> find_kid d b; or_fatal e msg d (alloc (xd_otherend_id c)) b }"

definition xenbus_free_evtchn ::
  "'s xb_env \<Rightarrow> (xs_error \<Rightarrow> u8 list) \<Rightarrow> (u32 \<Rightarrow> xs_error option) \<Rightarrow> nat \<Rightarrow> u32 \<Rightarrow> 's xbus \<Rightarrow> (xs_error option \<times> 's xbus) option" where
  "xenbus_free_evtchn e msg close d port b =
     (case close port of
        None \<Rightarrow> Some (None, b)
      | Some x \<Rightarrow> do { b \<leftarrow> xenbus_dev_error e d (msg x) b; Some (Some x, b) })"


section \<open>Children coming and going\<close>

definition xenbusb_free_child_ivars :: "'s xb_env \<Rightarrow> child \<Rightarrow> 's xbus \<Rightarrow> 's xbus option" where
  "xenbusb_free_child_ivars e c b = do {
     b \<leftarrow> unregister e (otherend_watch (xd_dev c)) (otherend_node c) b;
     unregister e (local_watch (xd_dev c)) (local_node c) b
   }"

text \<open>The child is out of the list when its instance variables are freed, which unregisters the watches again.\<close>

definition xenbusb_delete_child :: "'s xb_env \<Rightarrow> child \<Rightarrow> 's xbus \<Rightarrow> 's xbus option" where
  "xenbusb_delete_child e c b = do {
     b \<leftarrow> unregister e (otherend_watch (xd_dev c)) (otherend_node c) b;
     b \<leftarrow> unregister e (local_watch (xd_dev c)) (local_node c) b;
     xenbusb_free_child_ivars e c (b\<lparr>kids := filter (\<lambda>k. xd_dev k \<noteq> xd_dev c) (kids b)\<rparr>)
   }"

definition xenbusb_verify_device :: "'s xb_env \<Rightarrow> child \<Rightarrow> 's xbus \<Rightarrow> 's xbus option" where
  "xenbusb_verify_device e c b = do {
     (ex, st) \<leftarrow> xs_exists (xse e) 0 (xd_node c) [] (store b);
     let b = b\<lparr>store := st\<rparr>;
     if ex then Some b else xenbusb_delete_child e c b
   }"

definition xenbusb_device_exists :: "u8 list \<Rightarrow> 's xbus \<Rightarrow> nat option" where
  "xenbusb_device_exists node b = map_option xd_dev (find (\<lambda>c. xd_node c = node) (kids b))"

text \<open>The old path is freed first; the identifier is stored although the path may be missing.\<close>

definition xenbusb_front_get_otherend_node :: "'s xb_env \<Rightarrow> child \<Rightarrow> 's xs \<Rightarrow> (xs_error option \<times> child \<times> 's xs) option" where
  "xenbusb_front_get_otherend_node e c st = do {
     (err, vs, st) \<leftarrow> xs_gather (xse e) 0 (xd_node c) [(str_bytes ''backend-id'', Some (scan_int e)), (str_bytes ''backend'', None)] st;
     let c = c\<lparr>xd_otherend_path := None\<rparr>;
     let c = (if vs = [] then c else c\<lparr>xd_otherend_id := int_of e (hd vs)\<rparr>);
     Some (err, if err = None then c\<lparr>xd_otherend_path := Some (vs ! 1)\<rparr> else c, st)
   }"

definition state_path :: "u8 list \<Rightarrow> u8 list" where
  "state_path path = path @ str_bytes ''/state''"

text \<open>For a device that is known or not new, the instance variables that were allocated are left behind.\<close>

definition xenbusb_add_device :: "'s xb_env \<Rightarrow> u8 list \<Rightarrow> u8 list \<Rightarrow> 's xbus \<Rightarrow> (xs_error option \<times> 's xbus) option" where
  "xenbusb_add_device e type_name dev_id b = do {
     let devpath = xbs_node b @ [slash] @ type_name @ [slash] @ dev_id;
     (ex, st) \<leftarrow> xs_exists (xse e) 0 devpath [] (store b);
     let b = b\<lparr>store := st\<rparr>;
     if \<not> ex then Some (Some ENXIO, b)
     else if xenbusb_device_exists devpath b \<noteq> None then Some (None, b\<lparr>leaked := leaked b + 1\<rparr>)
     else do {
       (state, st) \<leftarrow> xenbus_read_driver_state e devpath (store b);
       let b = b\<lparr>store := st\<rparr>;
       if state \<noteq> state_number Initialising then Some (None, b\<lparr>leaked := leaked b + 1\<rparr>)
       else do {
         let c = \<lparr>xd_dev = next_dev b, xd_node = devpath, xd_type = type_name, xd_state = state_number Initialising,
           xd_connecting = True, xd_otherend_id = 0, xd_otherend_path = None, otherend_node = None, local_node = None, present = False\<rparr>;
         (err, c, st) \<leftarrow> xenbusb_front_get_otherend_node e c (store b);
         let b = b\<lparr>store := st\<rparr>;
         if err \<noteq> None then Some (err, b)
         else do {
           path \<leftarrow> xd_otherend_path c;
           let c = c\<lparr>otherend_node := Some (state_path path), local_node := Some devpath\<rparr>;
           Some (None, b\<lparr>connecting_children := connecting_children b + 1, kids := kids b @ [c], next_dev := next_dev b + 1\<rparr>)
         }
       }
     }
   }"

primrec add_devices :: "'s xb_env \<Rightarrow> u8 list \<Rightarrow> u8 list list \<Rightarrow> 's xbus \<Rightarrow> 's xbus option" where
  "add_devices e ty [] b = Some b"
| "add_devices e ty (d # ds) b = do { (err, b) \<leftarrow> xenbusb_add_device e ty d b; add_devices e ty ds b }"

definition xenbusb_front_enumerate_type :: "'s xb_env \<Rightarrow> u8 list \<Rightarrow> 's xbus \<Rightarrow> (xs_error option \<times> 's xbus) option" where
  "xenbusb_front_enumerate_type e ty b = do {
     (r, st) \<leftarrow> xs_directory (xse e) 0 (xbs_node b) ty (store b);
     let b = b\<lparr>store := st\<rparr>;
     case r of
       Inl x \<Rightarrow> Some (Some x, b)
     | Inr ds \<Rightarrow> do { b \<leftarrow> add_devices e ty ds b; Some (None, b) }
   }"

primrec enumerate_types :: "'s xb_env \<Rightarrow> u8 list list \<Rightarrow> 's xbus \<Rightarrow> 's xbus option" where
  "enumerate_types e [] b = Some b"
| "enumerate_types e (t # ts) b = do { (err, b) \<leftarrow> xenbusb_front_enumerate_type e t b; enumerate_types e ts b }"

definition xenbusb_enumerate_bus :: "'s xb_env \<Rightarrow> 's xbus \<Rightarrow> (xs_error option \<times> 's xbus) option" where
  "xenbusb_enumerate_bus e b = do {
     (r, st) \<leftarrow> xs_directory (xse e) 0 (xbs_node b) [] (store b);
     let b = b\<lparr>store := st\<rparr>;
     case r of
       Inl x \<Rightarrow> Some (Some x, b)
     | Inr ts \<Rightarrow> do { b \<leftarrow> enumerate_types e ts b; Some (None, b) }
   }"

text \<open>The states a driver sets, in order; it does not look at errors.\<close>

primrec set_states :: "'s xb_env \<Rightarrow> nat \<Rightarrow> int list \<Rightarrow> 's xbus \<Rightarrow> 's xbus option" where
  "set_states e d [] b = Some b"
| "set_states e d (n # ns) b = do { (err, b) \<leftarrow> set_state e d n b; set_states e d ns b }"

text \<open>One child of \<open>xenbusb_probe_children\<close>.\<close>

definition probe_child :: "'s xb_env \<Rightarrow> child \<Rightarrow> 's xbus \<Rightarrow> 's xbus option" where
  "probe_child e c b =
     (if present c then xenbusb_verify_device e c b
      else do {
        let (failed, ns) = attach_driver e c;
        b \<leftarrow> set_states e (xd_dev c) ns b;
        if failed then do {
          (err, b) \<leftarrow> set_state e (xd_dev c) (state_number Closed) b;
          xenbusb_delete_child e c b
        }
        else do {
          let b = update_kid (xd_dev c) (\<lambda>c. c\<lparr>present := True\<rparr>) b;
          n1 \<leftarrow> otherend_node c;
          n2 \<leftarrow> local_node c;
          (err, b) \<leftarrow> register e (otherend_watch (xd_dev c)) n1 b;
          (err, b) \<leftarrow> register e (local_watch (xd_dev c)) n2 b;
          Some b
        }
      })"

primrec probe_each :: "'s xb_env \<Rightarrow> child list \<Rightarrow> 's xbus \<Rightarrow> 's xbus option" where
  "probe_each e [] b = Some b"
| "probe_each e (c # cs) b = do { b \<leftarrow> probe_child e c b; probe_each e cs b }"

definition xenbusb_probe_children :: "'s xb_env \<Rightarrow> 's xbus \<Rightarrow> 's xbus option" where
  "xenbusb_probe_children e b = probe_each e (kids b) b"

section \<open>Events\<close>

text \<open>
  The rest of a string behind its first slash; and the identifier of a device, which ends one byte behind the slash that
  follows its last component.
\<close>

definition after_slash :: "u8 list \<Rightarrow> u8 list option" where
  "after_slash p = (if slash \<in> set p then Some (drop (length (takeWhile (\<lambda>x. x \<noteq> slash) p) + 1) p) else None)"

primrec skip_components :: "nat \<Rightarrow> nat \<Rightarrow> u8 list \<Rightarrow> u8 list option \<times> nat" where
  "skip_components 0 found p = (Some p, found)"
| "skip_components (Suc n) found p =
     (case after_slash p of None \<Rightarrow> (None, found) | Some q \<Rightarrow> skip_components n (found + 1) q)"

text \<open>The type and identifier that an event names; the comparison with \<open>xbs_id_components - 1\<close> is unsigned.\<close>

definition event_device :: "nat \<Rightarrow> u8 list \<Rightarrow> (u8 list \<times> u8 list) option" where
  "event_device n_components path = do {
     rest \<leftarrow> after_slash path;
     dev_id \<leftarrow> after_slash rest;
     let (p, component) = skip_components n_components 0 dev_id;
     let name = (case p of None \<Rightarrow> dev_id | Some q \<Rightarrow> take (length dev_id - length q) dev_id);
     if name \<noteq> [] \<and> n_components \<noteq> 0 \<and> component \<ge> n_components - 1 then Some (takeWhile (\<lambda>x. x \<noteq> slash) rest, name) else None
   }"

definition xenbusb_devices_changed :: "'s xb_env \<Rightarrow> u8 list list \<Rightarrow> 's xbus \<Rightarrow> 's xbus option" where
  "xenbusb_devices_changed e vec b =
     (if vec = [] then Some b
      else case event_device (xbs_id_components b) (hd vec) of
          None \<Rightarrow> Some b
        | Some (ty, name) \<Rightarrow> do {
            (err, b) \<leftarrow> xenbusb_add_device e ty name b;
            Some (b\<lparr>probe_queued := True\<rparr>)
          })"

text \<open>What the watch of the other end tells the driver of the child: the new state.\<close>

definition xenbusb_otherend_watch_cb :: "'s xb_env \<Rightarrow> nat \<Rightarrow> u8 list \<Rightarrow> 's xbus \<Rightarrow> (int option \<times> 's xbus) option" where
  "xenbusb_otherend_watch_cb e d path b = do {
     c \<leftarrow> find_kid d b;
     case xd_otherend_path c of
       None \<Rightarrow> Some (None, b)
     | Some other \<Rightarrow>
         if take (length other) path \<noteq> other then Some (None, b)
         else do {
           (n, st) \<leftarrow> xenbus_read_driver_state e other (store b);
           Some (Some n, b\<lparr>store := st\<rparr>)
         }
   }"

definition xenbusb_localend_changed :: "'s xb_env \<Rightarrow> nat \<Rightarrow> u8 list \<Rightarrow> 's xbus \<Rightarrow> 's xbus option" where
  "xenbusb_localend_changed e d path b =
     (if path \<noteq> str_bytes ''/state'' then do {
        c \<leftarrow> find_kid d b;
        (n, st) \<leftarrow> xenbus_read_driver_state e (xd_node c) (store b);
        Some (update_kid d (\<lambda>c. c\<lparr>xd_state := n\<rparr>) (b\<lparr>store := st\<rparr>))
      }
      else Some b)"

definition xenbusb_local_watch_cb :: "'s xb_env \<Rightarrow> nat \<Rightarrow> u8 list \<Rightarrow> 's xbus \<Rightarrow> 's xbus option" where
  "xenbusb_local_watch_cb e d path b = do {
     c \<leftarrow> find_kid d b;
     if take (length (xd_node c)) path \<noteq> xd_node c then Some b
     else xenbusb_localend_changed e d (drop (length (xd_node c)) path) b
   }"

section \<open>Attaching and resuming\<close>

text \<open>\<open>xenbusb_attach\<close> up to the enumeration: the hook is established, and the count starts with 1 for attaching itself.\<close>

definition attach_begin :: "u8 list \<Rightarrow> nat \<Rightarrow> 's xbus \<Rightarrow> 's xbus" where
  "attach_begin node n b = b\<lparr>xbs_node := node, xbs_id_components := n, hook_held := True, attach_active := True, connecting_children := 1\<rparr>"

definition xenbusb_attach :: "'s xb_env \<Rightarrow> u8 list \<Rightarrow> nat \<Rightarrow> 's xbus \<Rightarrow> 's xbus option" where
  "xenbusb_attach e node n b = do {
     (err, b) \<leftarrow> xenbusb_enumerate_bus e (attach_begin node n b);
     b \<leftarrow> xenbusb_probe_children e b;
     (err, b) \<leftarrow> register e device_watch node b;
     xenbusb_release_confighook b
   }"

definition xenbusb_front_attach :: "'s xb_env \<Rightarrow> 's xbus \<Rightarrow> 's xbus option" where
  "xenbusb_front_attach e b = xenbusb_attach e (str_bytes ''device'') 1 b"

definition resume_child :: "'s xb_env \<Rightarrow> child \<Rightarrow> 's xbus \<Rightarrow> (xs_error option \<times> 's xbus) option" where
  "resume_child e k b =
     (if \<not> present k then Some (None, b)
      else do {
        c \<leftarrow> find_kid (xd_dev k) b;
        b \<leftarrow> unregister e (otherend_watch (xd_dev c)) (otherend_node c) b;
        (err, b) \<leftarrow> set_state e (xd_dev c) (state_number Initialising) b;
        c \<leftarrow> find_kid (xd_dev k) b;
        (err, c, st) \<leftarrow> xenbusb_front_get_otherend_node e c (store b);
        let b = update_kid (xd_dev c) (\<lambda>_. c) (b\<lparr>store := st\<rparr>);
        if err \<noteq> None then Some (err, b)
        else do {
          path \<leftarrow> xd_otherend_path c;
          let b = update_kid (xd_dev c) (\<lambda>c. c\<lparr>otherend_node := Some (state_path path)\<rparr>) b;
          (err, b) \<leftarrow> register e (otherend_watch (xd_dev c)) (state_path path) b;
          Some (None, b)
        }
      })"

primrec resume_each :: "'s xb_env \<Rightarrow> child list \<Rightarrow> 's xbus \<Rightarrow> (xs_error option \<times> 's xbus) option" where
  "resume_each e [] b = Some (None, b)"
| "resume_each e (c # cs) b = do {
     (err, b) \<leftarrow> resume_child e c b;
     if err \<noteq> None then Some (err, b) else resume_each e cs b
   }"

definition xenbusb_resume :: "'s xb_env \<Rightarrow> 's xbus \<Rightarrow> (xs_error option \<times> 's xbus) option" where
  "xenbusb_resume e b = resume_each e (kids b) b"

section \<open>The hook that holds up the boot\<close>

definition ncon :: "'s xbus \<Rightarrow> nat" where
  "ncon b = length (filter xd_connecting (kids b))"

text \<open>Children have their own identities and their own nodes.\<close>

definition kids_ok :: "'s xbus \<Rightarrow> bool" where
  "kids_ok b \<longleftrightarrow> distinct (map xd_dev (kids b)) \<and> list_all (\<lambda>x. x < next_dev b) (map xd_dev (kids b)) \<and> distinct (map xd_node (kids b))"

text \<open>What the count holds beyond the connecting children and, while \<open>att\<close>, attaching itself.\<close>

definition slack :: "bool \<Rightarrow> 's xbus \<Rightarrow> int" where
  "slack att b = int (unat (connecting_children b)) - int (ncon b) - (if att then 1 else 0)"

definition bus_ok :: "bool \<Rightarrow> 's xbus \<Rightarrow> bool" where
  "bus_ok att b \<longleftrightarrow> kids_ok b \<and> 0 \<le> slack att b"

text \<open>What every operation does that adds no child.\<close>

definition keeps :: "bool \<Rightarrow> 's xbus \<Rightarrow> 's xbus \<Rightarrow> bool" where
  "keeps att b b' \<longleftrightarrow> (bus_ok att b \<longrightarrow>
     bus_ok att b' \<and> slack att b \<le> slack att b' \<and> ncon b' \<le> ncon b \<and> (attach_active b' \<longrightarrow> attach_active b) \<and>
     (attach_active b \<and> \<not> attach_active b' \<longrightarrow> ncon b' = 0 \<and> slack att b = 0))"

named_theorems keeping \<open>the operations that add no child\<close>

lemma keeps_refl [keeping]: "keeps att b b"
  by (simp add: keeps_def)

lemma keeps_trans: "\<lbrakk>keeps att a b; keeps att b c\<rbrakk> \<Longrightarrow> keeps att a c"
  unfolding keeps_def bus_ok_def by (smt (verit) le_zero_eq order_trans)

lemma keeps_other:
  assumes "kids b' = kids b" "connecting_children b' = connecting_children b" "attach_active b' = attach_active b" "next_dev b' = next_dev b"
  shows "keeps att b b'"
  using assms by (simp add: keeps_def bus_ok_def kids_ok_def slack_def ncon_def)

lemma keeps_store [keeping]: "keeps att b (b\<lparr>store := st\<rparr>)"
  by (rule keeps_other) simp_all

lemma keeps_update:
  assumes "\<And>c. xd_dev c = d \<Longrightarrow> xd_dev (f c) = d \<and> xd_node (f c) = xd_node c \<and> xd_connecting (f c) = xd_connecting c"
  shows "keeps att b (update_kid d f b)"
proof -
  have k: "map xd_dev (kids (update_kid d f b)) = map xd_dev (kids b)" "map xd_node (kids (update_kid d f b)) = map xd_node (kids b)"
    using assms by (auto simp: update_kid_def)
  have "ncon (update_kid d f b) = ncon b"
    unfolding ncon_def update_kid_def using assms by (simp add: filter_map comp_def)
  then show ?thesis
    using k by (simp add: keeps_def bus_ok_def kids_ok_def slack_def) (simp add: update_kid_def)
qed

lemma keeps_delete: "keeps att b (b\<lparr>kids := filter P (kids b)\<rparr>)"
proof -
  have "filter xd_connecting (filter P (kids b)) = filter P (filter xd_connecting (kids b))" by (simp add: conj_commute)
  then have "ncon (b\<lparr>kids := filter P (kids b)\<rparr>) = length (filter P (filter xd_connecting (kids b)))" by (simp add: ncon_def)
  also have "\<dots> \<le> ncon b" unfolding ncon_def by (rule length_filter_le)
  finally have "ncon (b\<lparr>kids := filter P (kids b)\<rparr>) \<le> ncon b" .
  then show ?thesis
    by (simp add: keeps_def bus_ok_def kids_ok_def slack_def list_all_iff distinct_map_filter)
qed

lemma register_keeps: "register e w n b = Some (err, b') \<Longrightarrow> keeps att b b'"
  by (rule keeps_other) (auto simp: register_def elim!: bind_SomeE)

lemma unregister_keeps: "unregister e w n b = Some b' \<Longrightarrow> keeps att b b'"
  by (rule keeps_other) (auto simp: unregister_def elim!: bind_SomeE split: option.splits)

lemma filter_clear:
  assumes "distinct (map xd_dev cs)" "c \<in> set cs" "xd_dev c = d" "xd_connecting c"
    and "\<And>c. xd_dev c = d \<Longrightarrow> \<not> xd_connecting (f c)"
  shows "Suc (length (filter xd_connecting (map (\<lambda>c. if xd_dev c = d then f c else c) cs))) = length (filter xd_connecting cs)"
  using assms(1,2)
proof (induction cs)
  case (Cons x cs)
  show ?case
  proof (cases "xd_dev x = d")
    case True
    have "c = x" using Cons.prems assms(3) True by (auto simp: image_iff)
    moreover have "map (\<lambda>c. if xd_dev c = d then f c else c) cs = cs"
      using Cons.prems(1) True by (intro map_idI) (auto simp: image_iff)
    ultimately show ?thesis using True assms(4,5) by simp
  next
    case False
    then have "c \<in> set cs" using Cons.prems(2) assms(3) by auto
    then show ?thesis using Cons False by simp
  qed
qed simp

lemma find_kid_Some: "find_kid d b = Some c \<Longrightarrow> c \<in> set (kids b) \<and> xd_dev c = d"
  unfolding find_kid_def find_Some_iff by (metis nth_mem)

lemma unat_pred: "(x :: u32) \<noteq> 0 \<Longrightarrow> unat (x - 1) = unat x - 1"
  by (simp add: unat_minus_one)

lemma release_keeps:
  assumes "find_kid d b = Some c" "xd_connecting c"
    and "\<And>c. xd_dev c = d \<Longrightarrow> xd_dev (f c) = d \<and> xd_node (f c) = xd_node c \<and> \<not> xd_connecting (f c)"
    and "xenbusb_release_confighook (update_kid d f b) = Some b'"
  shows "keeps att b b'"
proof -
  note c = find_kid_Some [OF assms(1)]
  let ?u = "update_kid d f b"
  have k: "map xd_dev (kids ?u) = map xd_dev (kids b)" "map xd_node (kids ?u) = map xd_node (kids b)"
    using assms(3) by (auto simp: update_kid_def)
  have n: "Suc (ncon ?u) = ncon b" if "kids_ok b"
    using filter_clear [of "kids b" c d f] that c assms(2,3) by (simp add: ncon_def update_kid_def kids_ok_def)
  have u: "connecting_children ?u = connecting_children b" "attach_active ?u = attach_active b" "next_dev ?u = next_dev b"
    by (simp_all add: update_kid_def)
  have nz: "connecting_children b \<noteq> 0" using assms(4) u by (auto simp: xenbusb_release_confighook_def split: if_splits)
  have b': "kids b' = kids ?u" "next_dev b' = next_dev b" "connecting_children b' = connecting_children b - 1"
      "attach_active b' \<longleftrightarrow> attach_active b \<and> connecting_children b' \<noteq> 0"
    using assms(4) u by (auto simp: xenbusb_release_confighook_def Let_def split: if_splits)
  have p: "int (unat (connecting_children b')) = int (unat (connecting_children b)) - 1"
    using unat_pred [OF nz] nz unfolding b'(3) by (metis gr0I int_ops(6) of_nat_1 of_nat_diff One_nat_def Suc_leI unat_eq_zero)
  have nb: "ncon b' = ncon ?u" by (simp add: ncon_def b'(1))
  show ?thesis unfolding keeps_def
  proof
    assume ok: "bus_ok att b"
    then have kb: "kids_ok b'" using k b'(1,2) by (simp add: bus_ok_def kids_ok_def)
    have s: "slack att b' = slack att b" using n ok p nb by (simp add: slack_def bus_ok_def)
    have "ncon b' = 0 \<and> slack att b = 0" if "connecting_children b' = 0"
      using that ok s unfolding slack_def bus_ok_def by (auto split: if_splits)
    then show "bus_ok att b' \<and> slack att b \<le> slack att b' \<and> ncon b' \<le> ncon b \<and> (attach_active b' \<longrightarrow> attach_active b) \<and>
       (attach_active b \<and> \<not> attach_active b' \<longrightarrow> ncon b' = 0 \<and> slack att b = 0)"
      using ok kb s n nb b'(4) by (auto simp: bus_ok_def)
  qed
qed

lemma find_kid_store [simp]: "find_kid d (b\<lparr>store := st\<rparr>) = find_kid d b"
  by (simp add: find_kid_def)

lemma update_twice: "(\<And>c. xd_dev c = d \<Longrightarrow> xd_dev (f c) = d) \<Longrightarrow> update_kid d g (update_kid d f b) = update_kid d (\<lambda>c. g (f c)) b"
  by (auto simp: update_kid_def comp_def)

lemma set_state_keeps: "set_state e d n b = Some (err, b') \<Longrightarrow> keeps att b b'"
proof -
  assume s: "set_state e d n b = Some (err, b')"
  then obtain c where c: "find_kid d b = Some c" by (auto simp: set_state_def split: option.splits)
  show ?thesis
  proof (cases "xd_state c = n")
    case True
    then show ?thesis using s c by (simp add: set_state_def keeps_refl)
  next
    case False
    obtain r st where r: "xs_scanf (xse e) (scan_int e) 0 (xd_node c) (str_bytes ''state'') (store b) = Some (r, st)"
      using s c False by (auto simp: set_state_def elim!: bind_SomeE)
    show ?thesis
    proof (cases r)
      case (Inl x)
      then show ?thesis using s c False r by (auto simp: set_state_def keeps_store)
    next
      case (Inr v)
      obtain werr st2 where w: "write_state e (xd_node c) n st = Some (werr, st2)"
        using s c False r Inr by (auto simp: set_state_def elim!: bind_SomeE)
      let ?b = "b\<lparr>store := st2\<rparr>"
      have fb: "find_kid d ?b = Some c" using c by simp
      show ?thesis
      proof (cases "werr = None \<and> xd_connecting c \<and> (n = state_number Closed \<or> n = state_number Connected)")
        case True
        then have "xenbusb_release_confighook (update_kid d (\<lambda>c. c\<lparr>xd_connecting := False\<rparr>)
            (update_kid d (\<lambda>c. c\<lparr>xd_state := n\<rparr>) ?b)) = Some b'"
          using s c False r Inr w by (auto simp: set_state_def elim!: bind_SomeE)
        then have rel: "xenbusb_release_confighook (update_kid d (\<lambda>c. c\<lparr>xd_state := n, xd_connecting := False\<rparr>) ?b) = Some b'"
          by (subst (asm) update_twice) auto
        have "keeps att ?b b'" using True rel by (intro release_keeps [OF fb, where f = "\<lambda>c. c\<lparr>xd_state := n, xd_connecting := False\<rparr>"]) auto
        then show ?thesis by (rule keeps_trans [OF keeps_store])
      next
        case no: False
        have u: "keeps att b (update_kid d (\<lambda>c. c\<lparr>xd_state := n\<rparr>) ?b)"
          by (rule keeps_trans [OF keeps_store keeps_update]) simp
        have "b' = ?b \<or> b' = update_kid d (\<lambda>c. c\<lparr>xd_state := n\<rparr>) ?b"
          using s c False r Inr w no by (auto simp: set_state_def Let_def split: if_splits)
        then show ?thesis using u keeps_store [of att b st2] by blast
      qed
    qed
  qed
qed

lemma free_keeps: "xenbusb_free_child_ivars e c b = Some b' \<Longrightarrow> keeps att b b'"
  unfolding xenbusb_free_child_ivars_def by (elim bind_SomeE) (blast intro: keeps_trans unregister_keeps)

lemma delete_keeps: "xenbusb_delete_child e c b = Some b' \<Longrightarrow> keeps att b b'"
  unfolding xenbusb_delete_child_def
  by (elim bind_SomeE) (blast intro: keeps_trans unregister_keeps free_keeps keeps_delete)

lemma verify_keeps: "xenbusb_verify_device e c b = Some b' \<Longrightarrow> keeps att b b'"
  unfolding xenbusb_verify_device_def Let_def
  by (elim bind_SomeE) (auto split: if_splits intro: keeps_trans [OF keeps_store delete_keeps] simp: keeps_store)

lemma set_states_keeps: "set_states e d ns b = Some b' \<Longrightarrow> keeps att b b'"
  by (induction ns arbitrary: b) (auto simp: keeps_refl elim!: bind_SomeE intro: keeps_trans set_state_keeps)

lemma probe_child_keeps: "probe_child e c b = Some b' \<Longrightarrow> keeps att b b'"
proof -
  assume s: "probe_child e c b = Some b'"
  show ?thesis
  proof (cases "present c")
    case True
    then show ?thesis using s verify_keeps by (simp add: probe_child_def)
  next
    case False
    obtain failed ns where a: "attach_driver e c = (failed, ns)" by (cases "attach_driver e c")
    obtain b1 where b1: "set_states e (xd_dev c) ns b = Some b1" using s False a by (auto simp: probe_child_def elim!: bind_SomeE)
    note k1 = set_states_keeps [OF b1, of att]
    show ?thesis
    proof (cases failed)
      case True
      then obtain err b2 where "set_state e (xd_dev c) (state_number Closed) b1 = Some (err, b2)" "xenbusb_delete_child e c b2 = Some b'"
        using s False a b1 by (auto simp: probe_child_def elim!: bind_SomeE)
      then show ?thesis using k1 set_state_keeps delete_keeps keeps_trans by metis
    next
      case no: False
      let ?b2 = "update_kid (xd_dev c) (\<lambda>c. c\<lparr>present := True\<rparr>) b1"
      obtain n1 n2 err1 b3 err2 where "register e (otherend_watch (xd_dev c)) n1 ?b2 = Some (err1, b3)"
          "register e (local_watch (xd_dev c)) n2 b3 = Some (err2, b')"
        using s False a b1 no by (auto simp: probe_child_def elim!: bind_SomeE)
      moreover have "keeps att b1 ?b2" by (rule keeps_update) simp
      ultimately show ?thesis using k1 register_keeps keeps_trans by metis
    qed
  qed
qed

lemma probe_each_keeps: "probe_each e cs b = Some b' \<Longrightarrow> keeps att b b'"
  by (induction cs arbitrary: b) (auto simp: keeps_refl elim!: bind_SomeE intro: keeps_trans probe_child_keeps)

lemma local_keeps: "xenbusb_local_watch_cb e d path b = Some b' \<Longrightarrow> keeps att b b'"
proof -
  have k: "keeps att b (update_kid d (\<lambda>c. c\<lparr>xd_state := n\<rparr>) (b\<lparr>store := st\<rparr>))" for n st
    by (rule keeps_trans [OF keeps_store keeps_update]) simp
  show "xenbusb_local_watch_cb e d path b = Some b' \<Longrightarrow> keeps att b b'"
    using k by (auto simp: xenbusb_local_watch_cb_def xenbusb_localend_changed_def keeps_refl split: if_splits elim!: bind_SomeE)
qed

lemma otherend_keeps: "xenbusb_otherend_watch_cb e d path b = Some (n, b') \<Longrightarrow> keeps att b b'"
  by (auto simp: xenbusb_otherend_watch_cb_def keeps_refl keeps_store split: if_splits option.splits elim!: bind_SomeE)

lemma otherend_shape:
  assumes "xenbusb_front_get_otherend_node e c st = Some (err, c', st')"
  shows "c' = c\<lparr>xd_otherend_id := xd_otherend_id c', xd_otherend_path := xd_otherend_path c'\<rparr>"
proof -
  obtain x vs u where "xs_gather (xse e) 0 (xd_node c) [(str_bytes ''backend-id'', Some (scan_int e)), (str_bytes ''backend'', None)] st = Some (x, vs, u)"
    using assms by (auto simp: xenbusb_front_get_otherend_node_def simp del: xs_gather.simps elim!: bind_SomeE)
  then show ?thesis
    using assms by (cases "vs = []"; cases x) (auto simp: xenbusb_front_get_otherend_node_def Let_def simp del: xs_gather.simps)
qed

lemma otherend_fields:
  assumes "xenbusb_front_get_otherend_node e c st = Some (err, c', st')"
  shows "xd_dev c' = xd_dev c" "xd_node c' = xd_node c" "xd_connecting c' = xd_connecting c"
  by (subst otherend_shape [OF assms], simp)+

lemma resume_child_keeps: "resume_child e k b = Some (err, b') \<Longrightarrow> keeps att b b'"
proof -
  assume s: "resume_child e k b = Some (err, b')"
  show ?thesis
  proof (cases "present k")
    case False
    then show ?thesis using s by (simp add: resume_child_def keeps_refl)
  next
    case True
    obtain c b1 err1 b2 c2 err2 c3 st where q: "find_kid (xd_dev k) b = Some c"
        "unregister e (otherend_watch (xd_dev c)) (otherend_node c) b = Some b1"
        "set_state e (xd_dev c) (state_number Initialising) b1 = Some (err1, b2)" "find_kid (xd_dev k) b2 = Some c2"
        "xenbusb_front_get_otherend_node e c2 (store b2) = Some (err2, c3, st)"
      using s True by (auto simp: resume_child_def Let_def elim!: bind_SomeE)
    have c2: "xd_dev c2 = xd_dev k" "c2 \<in> set (kids b2)" using find_kid_Some [OF q(4)] by auto
    note c3 = otherend_fields [OF q(5)]
    let ?b3 = "update_kid (xd_dev c3) (\<lambda>_. c3) (b2\<lparr>store := st\<rparr>)"
    have k2: "keeps att b b2" using keeps_trans [OF unregister_keeps [OF q(2)] set_state_keeps [OF q(3)]] .
    have k3: "keeps att b ?b3"
    proof (cases "bus_ok att b")
      case False
      then show ?thesis by (simp add: keeps_def)
    next
      case ok: True
      then have "distinct (map xd_dev (kids b2))" using k2 by (simp add: keeps_def bus_ok_def kids_ok_def)
      then have one: "x = c2" if "x \<in> set (kids b2)" "xd_dev x = xd_dev c2" for x
        using that c2(2) by (auto simp: distinct_map inj_on_def)
      have "kids ?b3 = map (\<lambda>x. if xd_dev x = xd_dev c2 then x\<lparr>xd_otherend_id := xd_otherend_id c3, xd_otherend_path := xd_otherend_path c3\<rparr> else x) (kids b2)"
      proof -
        note otherend_shape [OF q(5)]
        then show ?thesis using one c3(1) by (auto simp: update_kid_def intro!: map_cong)
      qed
      then have "?b3 = update_kid (xd_dev c2) (\<lambda>x. x\<lparr>xd_otherend_id := xd_otherend_id c3, xd_otherend_path := xd_otherend_path c3\<rparr>) (b2\<lparr>store := st\<rparr>)"
        by (simp add: update_kid_def)
      moreover have "keeps att (b2\<lparr>store := st\<rparr>)
          (update_kid (xd_dev c2) (\<lambda>x. x\<lparr>xd_otherend_id := xd_otherend_id c3, xd_otherend_path := xd_otherend_path c3\<rparr>) (b2\<lparr>store := st\<rparr>))"
        by (rule keeps_update) simp
      ultimately show ?thesis using k2 keeps_store keeps_trans by metis
    qed
    show ?thesis
    proof (cases "err2 = None")
      case False
      then have "b' = ?b3" using s True q by (auto simp: resume_child_def Let_def)
      then show ?thesis using k3 by simp
    next
      case ok: True
      then obtain path err3 where reg: "register e (otherend_watch (xd_dev c3)) (state_path path)
          (update_kid (xd_dev c3) (\<lambda>c. c\<lparr>otherend_node := Some (state_path path)\<rparr>) ?b3) = Some (err3, b')"
        using s True q by (auto simp: resume_child_def Let_def elim!: bind_SomeE)
      have "keeps att ?b3 (update_kid (xd_dev c3) (\<lambda>c. c\<lparr>otherend_node := Some (state_path path)\<rparr>) ?b3)" by (rule keeps_update) simp
      then show ?thesis using k3 register_keeps [OF reg] keeps_trans by metis
    qed
  qed
qed

lemma resume_keeps: "resume_each e cs b = Some (err, b') \<Longrightarrow> keeps att b b'"
  by (induction cs arbitrary: b) (auto simp: keeps_refl elim!: bind_SomeE split: if_splits intro: keeps_trans resume_child_keeps)

text \<open>Adding a device keeps the account too, as long as the count does not wrap around.\<close>

lemma add_cases:
  assumes "xenbusb_add_device e ty name b = Some (err, b')"
  obtains st n where "b' = b\<lparr>store := st, leaked := n\<rparr>"
  | st c where "b' = b\<lparr>store := st, connecting_children := connecting_children b + 1, kids := kids b @ [c], next_dev := next_dev b + 1\<rparr>"
      "xd_dev c = next_dev b" "xd_connecting c" "xd_node c \<notin> xd_node ` set (kids b)"
proof -
  let ?path = "xbs_node b @ [slash] @ ty @ [slash] @ name"
  have same: "b\<lparr>store := st\<rparr> = b\<lparr>store := st, leaked := leaked b\<rparr>" for st by simp
  obtain ex st where ex: "xs_exists (xse e) 0 ?path [] (store b) = Some (ex, st)"
    using assms by (auto simp: xenbusb_add_device_def Let_def elim!: bind_SomeE)
  show ?thesis
  proof (cases "ex \<and> xenbusb_device_exists ?path b = None")
    case False
    then have "b' = b\<lparr>store := st, leaked := leaked b\<rparr> \<or> b' = b\<lparr>store := st, leaked := leaked b + 1\<rparr>"
      using assms ex by (auto simp: xenbusb_add_device_def xenbusb_device_exists_def Let_def split: if_splits)
    then show ?thesis using that(1) by blast
  next
    case True
    then have new: "?path \<notin> xd_node ` set (kids b)" by (auto simp: xenbusb_device_exists_def find_None_iff)
    have kx: "xenbusb_device_exists ?path (b\<lparr>store := st\<rparr>) = None" using True by (simp add: xenbusb_device_exists_def)
    obtain state st2 where s2: "xenbus_read_driver_state e ?path st = Some (state, st2)"
      using assms ex True kx by (auto simp: xenbusb_add_device_def Let_def elim!: bind_SomeE)
    show ?thesis
    proof (cases "state = state_number Initialising")
      case False
      then have "b' = b\<lparr>store := st2, leaked := leaked b + 1\<rparr>" using assms ex True kx s2 by (auto simp: xenbusb_add_device_def Let_def)
      then show ?thesis using that(1) by blast
    next
      case init: True
      let ?c = "\<lparr>xd_dev = next_dev b, xd_node = ?path, xd_type = ty, xd_state = state_number Initialising,
           xd_connecting = True, xd_otherend_id = 0, xd_otherend_path = None, otherend_node = None, local_node = None, present = False\<rparr>"
      obtain err2 c2 st3 where g: "xenbusb_front_get_otherend_node e ?c st2 = Some (err2, c2, st3)"
        using assms ex True kx s2 init by (auto simp: xenbusb_add_device_def Let_def elim!: bind_SomeE)
      have c2: "xd_dev c2 = next_dev b" "xd_node c2 = ?path" "xd_connecting c2"
        using otherend_fields [OF g] by simp_all
      show ?thesis
      proof (cases "err2 = None")
        case False
        then have "b' = b\<lparr>store := st3, leaked := leaked b\<rparr>" using assms ex True kx s2 init g by (auto simp: xenbusb_add_device_def Let_def)
        then show ?thesis using that(1) by blast
      next
        case ok: True
        then obtain path where "b' = b\<lparr>store := st3, connecting_children := connecting_children b + 1,
            kids := kids b @ [c2\<lparr>otherend_node := Some (state_path path), local_node := Some ?path\<rparr>], next_dev := next_dev b + 1\<rparr>"
          using assms ex True kx s2 init g by (auto simp: xenbusb_add_device_def Let_def elim!: bind_SomeE)
        then show ?thesis using that(2) c2 new by simp
      qed
    qed
  qed
qed

lemma unat_add_1: "(x :: u32) \<noteq> - 1 \<Longrightarrow> unat (x + 1) = unat x + 1"
  by (metis add.commute add_eq_0_iff unatSuc Suc_eq_plus1 add.inverse_inverse)

lemma add_step:
  assumes "xenbusb_add_device e ty name b = Some (err, b')" "connecting_children b \<noteq> - 1" "bus_ok att b"
  shows "bus_ok att b' \<and> slack att b' = slack att b \<and> attach_active b' = attach_active b"
  using assms(1)
proof (cases rule: add_cases)
  case (1 st n)
  then show ?thesis using assms(3) by (simp add: bus_ok_def kids_ok_def slack_def ncon_def)
next
  case (2 st c)
  have "kids_ok b'" using 2 assms(3) by (auto simp: bus_ok_def kids_ok_def list_all_iff)
  moreover have "slack att b' = slack att b"
    using 2(3) unat_add_1 [OF assms(2)] unfolding 2(1) by (simp add: slack_def ncon_def)
  ultimately show ?thesis using assms(3) 2(1) by (simp add: bus_ok_def)
qed

section \<open>Everything that happens on a bus\<close>

text \<open>
  While the first component is true the bus is still being attached: devices are enumerated and probed, and the end of
  \<open>xenbusb_attach\<close> is the step \<open>finish\<close>. No bus has four billion children, so the count does not wrap.
\<close>

inductive bstep :: "'s xb_env \<Rightarrow> bool \<times> 's xbus \<Rightarrow> bool \<times> 's xbus \<Rightarrow> bool" for e where
  add: "\<lbrakk>xenbusb_add_device e ty name b = Some (err, b'); connecting_children b \<noteq> - 1\<rbrakk> \<Longrightarrow> bstep e (att, b) (att, b')"
| changed: "\<lbrakk>xenbusb_devices_changed e vec b = Some b'; connecting_children b \<noteq> - 1\<rbrakk> \<Longrightarrow> bstep e (att, b) (att, b')"
| probe: "xenbusb_probe_children e b = Some b' \<Longrightarrow> bstep e (att, b) (att, b')"
| state: "xenbusb_write_ivar e d i n b = Some (err, b') \<Longrightarrow> bstep e (att, b) (att, b')"
| local: "xenbusb_local_watch_cb e d path b = Some b' \<Longrightarrow> bstep e (att, b) (att, b')"
| otherend: "xenbusb_otherend_watch_cb e d path b = Some (m, b') \<Longrightarrow> bstep e (att, b) (att, b')"
| resume: "xenbusb_resume e b = Some (err, b') \<Longrightarrow> bstep e (att, b) (att, b')"
| finish: "xenbusb_release_confighook b = Some b' \<Longrightarrow> bstep e (True, b) (False, b')"

inductive_cases bstepE: "bstep e s s'"

text \<open>What one step does to the account.\<close>

definition accounts :: "bool \<times> 's xbus \<Rightarrow> bool \<times> 's xbus \<Rightarrow> bool" where
  "accounts s s' \<longleftrightarrow> bus_ok (fst s') (snd s') \<and> slack (fst s) (snd s) \<le> slack (fst s') (snd s') \<and>
     (attach_active (snd s') \<longrightarrow> attach_active (snd s)) \<and>
     (attach_active (snd s) \<and> \<not> attach_active (snd s') \<longrightarrow> ncon (snd s') = 0 \<and> slack (fst s) (snd s) = 0)"

lemma keeps_accounts: "\<lbrakk>keeps att b b'; bus_ok att b\<rbrakk> \<Longrightarrow> accounts (att, b) (att, b')"
  by (simp add: keeps_def accounts_def)

lemma write_ivar_keeps: "xenbusb_write_ivar e d i n b = Some (err, b') \<Longrightarrow> keeps att b b'"
  by (auto simp: xenbusb_write_ivar_def keeps_refl split: ivar.splits intro: set_state_keeps)

lemma changed_step:
  assumes "xenbusb_devices_changed e vec b = Some b'" "connecting_children b \<noteq> - 1" "bus_ok att b"
  shows "accounts (att, b) (att, b')"
proof -
  have q: "bus_ok att (u\<lparr>probe_queued := True\<rparr>) = bus_ok att u" "slack att (u\<lparr>probe_queued := True\<rparr>) = slack att u" for u :: "'a xbus"
    by (simp_all add: bus_ok_def kids_ok_def slack_def ncon_def)
  consider "b' = b" | ty name err b1 where "xenbusb_add_device e ty name b = Some (err, b1)" "b' = b1\<lparr>probe_queued := True\<rparr>"
    using assms(1) unfolding xenbusb_devices_changed_def
    by (cases "event_device (xbs_id_components b) (hd vec)") (auto split: if_splits elim!: bind_SomeE)
  then show ?thesis
  proof cases
    case 1
    then show ?thesis using assms(3) by (simp add: accounts_def)
  next
    case 2
    then show ?thesis using add_step [OF 2(1) assms(2,3)] by (simp add: accounts_def q)
  qed
qed

lemma finish_step:
  assumes "xenbusb_release_confighook b = Some b'" "bus_ok True b"
  shows "accounts (True, b) (False, b')"
proof -
  have nz: "connecting_children b \<noteq> 0" using assms(1) by (auto simp: xenbusb_release_confighook_def split: if_splits)
  have b': "kids b' = kids b" "next_dev b' = next_dev b" "connecting_children b' = connecting_children b - 1"
      "attach_active b' \<longleftrightarrow> attach_active b \<and> connecting_children b' \<noteq> 0"
    using assms(1) by (auto simp: xenbusb_release_confighook_def Let_def split: if_splits)
  have p: "int (unat (connecting_children b')) = int (unat (connecting_children b)) - 1"
    using unat_pred [OF nz] nz unfolding b'(3) by (metis gr0I int_ops(6) of_nat_1 of_nat_diff One_nat_def Suc_leI unat_eq_zero)
  have n: "ncon b' = ncon b" by (simp add: ncon_def b'(1))
  have s: "slack False b' = slack True b" using p n by (simp add: slack_def)
  have z: "ncon b' = 0 \<and> slack True b = 0" if "connecting_children b' = 0"
    using that assms(2) s unfolding slack_def bus_ok_def by auto
  show ?thesis using assms(2) s b' z n by (auto simp: accounts_def bus_ok_def kids_ok_def)
qed

lemma bstep_accounts:
  assumes "bstep e s s'" "bus_ok (fst s) (snd s)"
  shows "accounts s s'"
  using assms
proof (cases rule: bstep.cases)
  case (add ty name b err b' att)
  then show ?thesis using add_step [OF add(3,4), of att] assms(2) by (simp add: accounts_def)
next
  case (changed vec b b' att)
  then show ?thesis using changed_step assms(2) by simp
next
  case (probe b b' att)
  then show ?thesis using keeps_accounts probe_each_keeps assms(2) unfolding xenbusb_probe_children_def by (metis fst_conv snd_conv)
next
  case (state d i n b err b' att)
  then show ?thesis using keeps_accounts write_ivar_keeps assms(2) by (metis fst_conv snd_conv)
next
  case (local d path b b' att)
  then show ?thesis using keeps_accounts local_keeps assms(2) by (metis fst_conv snd_conv)
next
  case (otherend d path b m b' att)
  then show ?thesis using keeps_accounts otherend_keeps assms(2) by (metis fst_conv snd_conv)
next
  case (resume b err b' att)
  then show ?thesis using keeps_accounts resume_keeps assms(2) unfolding xenbusb_resume_def by (metis fst_conv snd_conv)
next
  case (finish b b')
  then show ?thesis using finish_step assms(2) by simp
qed

lemma bsteps_ok: "\<lbrakk>(bstep e)\<^sup>*\<^sup>* s s'; bus_ok (fst s) (snd s)\<rbrakk> \<Longrightarrow> bus_ok (fst s') (snd s') \<and> slack (fst s) (snd s) \<le> slack (fst s') (snd s')"
  by (induction rule: rtranclp_induct) (auto dest!: bstep_accounts simp: accounts_def)

lemma attach_begin_ok: "kids b = [] \<Longrightarrow> bus_ok True (attach_begin node n b)"
  by (simp add: bus_ok_def kids_ok_def slack_def ncon_def attach_begin_def)

text \<open>
  C27. The boot is held up until it may go on: when a step gives back the hook, no child of the bus is connecting any
  more, whatever was enumerated, attached, removed and changed before.
\<close>

theorem boot_waits_for_children:
  assumes "kids b0 = []" "(bstep e)\<^sup>*\<^sup>* (True, attach_begin node n b0) (att, b)"
    and "bstep e (att, b) (att', b')" "attach_active b" "\<not> attach_active b'"
  shows "list_all (\<lambda>c. \<not> xd_connecting c) (kids b')"
proof -
  have "bus_ok att b" using bsteps_ok [OF assms(2)] attach_begin_ok [OF assms(1)] by simp
  then have "ncon b' = 0" using bstep_accounts [OF assms(3)] assms(4,5) by (simp add: accounts_def)
  then show ?thesis by (auto simp: ncon_def filter_empty_conv list_all_iff)
qed

text \<open>
  No XenStore node becomes two children, however often it is found by enumeration and by events.
\<close>

theorem one_child_per_node:
  assumes "kids b0 = []" "(bstep e)\<^sup>*\<^sup>* (True, attach_begin node n b0) (att, b)"
  shows "distinct (map xd_node (kids b))"
  using bsteps_ok [OF assms(2)] attach_begin_ok [OF assms(1)] by (simp add: bus_ok_def kids_ok_def)

lemma unregister_fields: "unregister e w n b = Some b' \<Longrightarrow> kids b' = kids b \<and> connecting_children b' = connecting_children b \<and> attach_active b' = attach_active b"
  by (auto simp: unregister_def elim!: bind_SomeE split: option.splits)

lemma delete_fields:
  assumes "xenbusb_delete_child e c b = Some b'"
  shows "kids b' = filter (\<lambda>k. xd_dev k \<noteq> xd_dev c) (kids b) \<and> connecting_children b' = connecting_children b \<and> attach_active b' = attach_active b"
  using assms by (auto simp: xenbusb_delete_child_def xenbusb_free_child_ivars_def elim!: bind_SomeE dest!: unregister_fields)

lemma filter_less:
  assumes "c \<in> set cs" "xd_connecting c"
  shows "length (filter xd_connecting (filter (\<lambda>k. xd_dev k \<noteq> xd_dev c) cs)) < length (filter xd_connecting cs)"
proof -
  have "filter xd_connecting (filter (\<lambda>k. xd_dev k \<noteq> xd_dev c) cs) = filter (\<lambda>k. xd_dev k \<noteq> xd_dev c) (filter xd_connecting cs)"
    by (simp add: conj_commute)
  moreover have "c \<in> set (filter xd_connecting cs)" using assms by simp
  ultimately show ?thesis using length_filter_less [of c "filter xd_connecting cs" "\<lambda>k. xd_dev k \<noteq> xd_dev c"] by simp
qed

text \<open>
  C28. A child that disappears from the XenStore while it is connecting is still counted: from then on no step gives
  back the hook, and the boot never goes on.
\<close>

theorem vanished_child_blocks_boot:
  assumes "kids b0 = []" "(bstep e)\<^sup>*\<^sup>* (True, attach_begin node n b0) (att, b)"
    and "c \<in> set (kids b)" "xd_connecting c" "attach_active b"
    and "xs_exists (xse e) 0 (xd_node c) [] (store b) = Some (False, st)" "xenbusb_verify_device e c b = Some b1"
    and "(bstep e)\<^sup>*\<^sup>* (att, b1) (att', b2)"
  shows "attach_active b2"
proof -
  have ok: "bus_ok att b" using bsteps_ok [OF assms(2)] attach_begin_ok [OF assms(1)] by simp
  have gone: "xenbusb_delete_child e c (b\<lparr>store := st\<rparr>) = Some b1" using assms(6,7) by (simp add: xenbusb_verify_device_def)
  have b1: "kids b1 = filter (\<lambda>k. xd_dev k \<noteq> xd_dev c) (kids b)" "connecting_children b1 = connecting_children b"
      "attach_active b1 = attach_active b"
    using gone delete_fields by fastforce+
  have "Suc (ncon b1) \<le> ncon b"
    using assms(3,4) b1(1) filter_less [of c "kids b"] by (simp add: ncon_def)
  then have less: "slack att b < slack att b1" using b1(2) by (simp add: slack_def)
  have ok1: "bus_ok att b1" using verify_keeps [OF assms(7)] ok by (simp add: keeps_def)
  have "0 < slack att b1" using less ok by (simp add: bus_ok_def)
  with assms(8) have "attach_active b2 \<and> bus_ok att' b2 \<and> 0 < slack att' b2"
  proof (induction "(att', b2)" arbitrary: att' b2 rule: rtranclp_induct)
    case base
    then show ?case using ok1 b1(3) assms(5) by simp
  next
    case (step s)
    obtain a u where s: "s = (a, u)" by (cases s)
    have "accounts (a, u) (att', b2)" using bstep_accounts step.hyps(2,3) step.prems s by fastforce
    then show ?case using step.hyps(3) [OF s step.prems] by (auto simp: accounts_def)
  qed
  then show ?thesis by simp
qed

text \<open>
  The assertion on the count never fails: while a child is connecting, the count is not zero.
\<close>

theorem connecting_children_counted:
  assumes "kids b0 = []" "(bstep e)\<^sup>*\<^sup>* (True, attach_begin node n b0) (att, b)" "c \<in> set (kids b)" "xd_connecting c"
  shows "xenbusb_release_confighook b \<noteq> None"
proof -
  have ok: "bus_ok att b" using bsteps_ok [OF assms(2)] attach_begin_ok [OF assms(1)] by simp
  have "c \<in> set (filter xd_connecting (kids b))" using assms(3,4) by simp
  then have "0 < ncon b" unfolding ncon_def by (rule length_pos_if_in_set)
  then have "connecting_children b \<noteq> 0" using ok by (auto simp: bus_ok_def slack_def split: if_splits)
  then show ?thesis by (simp add: xenbusb_release_confighook_def Let_def)
qed

section \<open>Events of the bus and of a child\<close>

lemma after_slash_append: "slash \<notin> set a \<Longrightarrow> after_slash (a @ slash # q) = Some q"
proof -
  assume "slash \<notin> set a"
  then have "takeWhile (\<lambda>x. x \<noteq> slash) (a @ slash # q) = a" by (induction a) auto
  then show ?thesis by (simp add: after_slash_def)
qed

lemma after_slash_none: "slash \<notin> set a \<Longrightarrow> after_slash a = None"
  by (simp add: after_slash_def)

lemma component_first: "slash \<notin> set a \<Longrightarrow> takeWhile (\<lambda>x. x \<noteq> slash) (a @ slash # q) = a"
  by (induction a) auto

text \<open>A component of a path.\<close>

definition component :: "u8 list \<Rightarrow> bool" where
  "component a \<longleftrightarrow> a \<noteq> [] \<and> slash \<notin> set a"

text \<open>
  An event for the node of a device names the type and the identifier of the device.
\<close>

theorem event_names_device:
  assumes "component bus" "component ty" "component name"
  shows "event_device 1 (bus @ [slash] @ ty @ [slash] @ name) = Some (ty, name)"
  using assms by (simp add: event_device_def after_slash_append after_slash_none component_first component_def)

theorem event_names_device_witness:
  "event_device 1 (str_bytes ''device'' @ [slash] @ str_bytes ''vif'' @ [slash] @ str_bytes ''0'') = Some (str_bytes ''vif'', str_bytes ''0'')"
  by (rule event_names_device) (simp_all add: component_def str_bytes_def slash_def)

text \<open>
  An event for a node below a device names the device with a slash behind its identifier, which is not the node that
  the bus knows.
\<close>

theorem event_below_device_keeps_slash:
  assumes "component bus" "component ty" "component name"
  shows "event_device 1 (bus @ [slash] @ ty @ [slash] @ name @ [slash] @ below) = Some (ty, name @ [slash])"
  using assms by (simp add: event_device_def after_slash_append component_first component_def)

theorem event_below_device_keeps_slash_witness:
  "event_device 1 (str_bytes ''device'' @ [slash] @ str_bytes ''vif'' @ [slash] @ str_bytes ''0'' @ [slash] @ str_bytes ''state'') =
     Some (str_bytes ''vif'', str_bytes ''0'' @ [slash])"
  by (rule event_below_device_keeps_slash) (simp_all add: component_def str_bytes_def slash_def)

text \<open>
  The event that the state of a child was written, which is the one to read the state on, is the only one after
  which the bus does not read it.
\<close>

theorem state_event_not_read:
  assumes "find_kid d b = Some c"
  shows "xenbusb_local_watch_cb e d (xd_node c @ str_bytes ''/state'') b = Some b"
  using assms by (simp add: xenbusb_local_watch_cb_def xenbusb_localend_changed_def)

section \<open>A bus with one child\<close>

lemma scripted_error:
  assumes "service st = (type_number XS_ERROR, b) # s"
  shows "\<exists>st'. xs_talkv scripted tx t iov st = Some (Inl (xs_get_error b), st') \<and> service st' = s"
proof -
  let ?s = "xs_request_filter (type_number t) st"
  let ?h = "header_bytes \<lparr>m_type = type_number t, m_req_id = 0, m_tx_id = tx, m_len = of_nat (sum_list (map length iov))\<rparr>"
  obtain s1 where s1: "store_writes scripted (?h # iov) ?s = (None, s1)" "service s1 = (type_number XS_ERROR, b) # s"
    using scripted_writes [of "?h # iov" ?s] assms(1) by (auto simp: xs_request_filter_def)
  have a: "scripted_answer (type_number XS_ERROR, b) = (type_number XS_ERROR, b)"
    by (simp add: scripted_answer_def type_number_def xs_types_def)
  obtain s2 where s2: "await_reply scripted s1 = (Inr (type_number XS_ERROR, b), s2)" "service s2 = s"
    using s1(2) by (simp add: await_reply_def) (simp add: scripted_def a)
  have "service (xs_reply_filter (type_number t) (type_number XS_ERROR) None s2) = s" using s2(2) by (simp add: xs_reply_filter_def)
  then show ?thesis
    using s1(1) s2(1) unfolding xs_talkv_def Let_def by (simp del: store_writes.simps)
qed

lemma scripted_read:
  "service st = (type_number XS_READ, v) # s \<Longrightarrow> \<exists>st'. xs_read scripted tx d n st = Some (Inr v, st') \<and> service st' = s"
  unfolding xs_read_def by (rule scripted_single) simp_all

lemma scripted_exists:
  assumes "service st = (type_number XS_DIRECTORY, [0x61, 0]) # s"
  shows "\<exists>st'. xs_exists scripted tx d n st = Some (True, st') \<and> service st' = s"
  using scripted_single [OF assms, of tx "xs_join d n"]
  by (auto simp: xs_exists_def xs_directory_def split_def extract_code)

lemma scripted_missing:
  assumes "service st = (type_number XS_ERROR, v) # s"
  shows "\<exists>st'. xs_exists scripted tx d n st = Some (False, st') \<and> service st' = s"
  using scripted_error [OF assms, of tx XS_DIRECTORY "[xs_join d n @ [0]]"]
  by (auto simp: xs_exists_def xs_directory_def xs_single_def)

lemma scripted_put:
  assumes "service st = (type_number XS_WRITE, v) # s"
  shows "\<exists>st'. xs_write scripted tx d n x st = Some (None, st') \<and> service st' = s"
  using scripted_talkv [OF assms, of tx "[xs_join d n @ [0], x]"]
  by (auto simp: xs_write_def xs_write_path_def error_of_def)

text \<open>Numbers of one digit.\<close>

definition script_env :: "(u32 \<times> u8 list) list xb_env" where
  "script_env = \<lparr>xse = scripted, scan_int = \<lambda>_. 1, int_of = \<lambda>v. uint (hd v) - 48, text_of = \<lambda>n. [of_int (n + 48)],
     attach_driver = \<lambda>c. (False, [])\<rparr>"

definition empty_bus :: "(u32 \<times> u8 list) list \<Rightarrow> (u32 \<times> u8 list) list xbus" where
  "empty_bus s = \<lparr>store = script_state s, wlist = no_watches, xbs_node = [], xbs_id_components = 0, connecting_children = 0,
     attach_active = False, hook_held = False, kids = [], next_dev = 0, probe_queued = False, leaked = 0\<rparr>"

definition first_kid :: child where
  "first_kid = \<lparr>xd_dev = 0, xd_node = [0x64, 0x2f, 0x76, 0x2f, 0x30], xd_type = [0x76], xd_state = 1, xd_connecting = True,
     xd_otherend_id = 0, xd_otherend_path = Some [0x62], otherend_node = Some (state_path [0x62]), local_node = Some [0x64, 0x2f, 0x76, 0x2f, 0x30],
     present = False\<rparr>"

definition add_script :: "(u32 \<times> u8 list) list" where
  "add_script = [(type_number XS_DIRECTORY, [0x61, 0]), (type_number XS_READ, [0x31]), (type_number XS_READ, [0x30]), (type_number XS_READ, [0x62])]"

definition one_kid_bus :: "(u32 \<times> u8 list) list xs \<Rightarrow> (u32 \<times> u8 list) list xbus" where
  "one_kid_bus st = (attach_begin [0x64] 1 (empty_bus []))\<lparr>store := st, connecting_children := 2, kids := [first_kid], next_dev := 1\<rparr>"

lemma add_first:
  "\<exists>st. xenbusb_add_device script_env [0x76] [0x30] (attach_begin [0x64] 1 (empty_bus (add_script @ s))) = Some (None, one_kid_bus st) \<and> service st = s"
proof -
  let ?b = "attach_begin [0x64] 1 (empty_bus (add_script @ s))"
  have e: "xse script_env = scripted" "scan_int script_env v = 1" "int_of script_env v = uint (hd v) - 48" for v
    by (simp_all add: script_env_def)
  have sv: "service (store ?b) = add_script @ s" by (simp add: attach_begin_def empty_bus_def script_state_def)
  obtain s1 where s1: "xs_exists scripted 0 [0x64, 0x2f, 0x76, 0x2f, 0x30] [] (store ?b) = Some (True, s1)" "service s1 = drop 1 add_script @ s"
    using scripted_exists [of "store ?b" "drop 1 add_script @ s" 0 "[0x64, 0x2f, 0x76, 0x2f, 0x30]" "[]"] sv by (auto simp: add_script_def)
  obtain s2 where s2: "xs_read scripted 0 [0x64, 0x2f, 0x76, 0x2f, 0x30] (str_bytes ''state'') s1 = Some (Inr [0x31], s2)" "service s2 = drop 2 add_script @ s"
    using scripted_read [of s1 "[0x31]" "drop 2 add_script @ s" 0 "[0x64, 0x2f, 0x76, 0x2f, 0x30]" "str_bytes ''state''"] s1(2) by (auto simp: add_script_def)
  obtain s3 where s3: "xs_read scripted 0 [0x64, 0x2f, 0x76, 0x2f, 0x30] (str_bytes ''backend-id'') s2 = Some (Inr [0x30], s3)" "service s3 = drop 3 add_script @ s"
    using scripted_read [of s2 "[0x30]" "drop 3 add_script @ s" 0 "[0x64, 0x2f, 0x76, 0x2f, 0x30]" "str_bytes ''backend-id''"] s2(2) by (auto simp: add_script_def)
  obtain s4 where s4: "xs_read scripted 0 [0x64, 0x2f, 0x76, 0x2f, 0x30] (str_bytes ''backend'') s3 = Some (Inr [0x62], s4)" "service s4 = s"
    using scripted_read [of s3 "[0x62]" s 0 "[0x64, 0x2f, 0x76, 0x2f, 0x30]" "str_bytes ''backend''"] s3(2) by (auto simp: add_script_def)
  have r: "xenbus_read_driver_state script_env [0x64, 0x2f, 0x76, 0x2f, 0x30] s1 = Some (1, s2)"
    by (simp add: xenbus_read_driver_state_def e s2(1))
  have g: "xenbusb_front_get_otherend_node script_env c s2 = Some (None, c\<lparr>xd_otherend_path := Some [0x62], xd_otherend_id := 0\<rparr>, s4)"
    if "xd_node c = [0x64, 0x2f, 0x76, 0x2f, 0x30]" for c
    using that by (simp add: xenbusb_front_get_otherend_node_def e s3(1) s4(1) Let_def)
  have n: "xbs_node ?b @ [slash] @ [0x76] @ [slash] @ [0x30] = [0x64, 0x2f, 0x76, 0x2f, 0x30]"
    by (simp add: attach_begin_def slash_def)
  have one: "state_number Initialising = 1" by (simp add: state_number_def state_values_def)
  have "xenbusb_add_device script_env [0x76] [0x30] ?b = Some (None, one_kid_bus s4)"
    unfolding xenbusb_add_device_def Let_def n e(1) s1(1)
    by (simp add: xenbusb_device_exists_def attach_begin_def empty_bus_def r g one one_kid_bus_def first_kid_def)
  then show ?thesis using s4(2) by blast
qed

lemma add_first_reached:
  "\<exists>st. (bstep script_env)\<^sup>*\<^sup>* (True, attach_begin [0x64] 1 (empty_bus (add_script @ s))) (True, one_kid_bus st) \<and> service st = s"
proof -
  obtain st where "xenbusb_add_device script_env [0x76] [0x30] (attach_begin [0x64] 1 (empty_bus (add_script @ s))) = Some (None, one_kid_bus st)"
      "service st = s" using add_first by blast
  moreover have "connecting_children (attach_begin [0x64] 1 (empty_bus (add_script @ s))) \<noteq> - 1" by (simp add: attach_begin_def)
  ultimately show ?thesis using bstep.add by (metis r_into_rtranclp)
qed

lemma kids_empty: "kids (empty_bus s) = []"
  by (simp add: empty_bus_def)

theorem one_child_per_node_witness:
  "\<exists>st. (bstep script_env)\<^sup>*\<^sup>* (True, attach_begin [0x64] 1 (empty_bus (add_script @ []))) (True, one_kid_bus st) \<and>
     distinct (map xd_node (kids (one_kid_bus st)))"
  using add_first_reached [of "[]"] one_child_per_node [OF kids_empty] by blast

theorem connecting_children_counted_witness:
  "\<exists>st. (bstep script_env)\<^sup>*\<^sup>* (True, attach_begin [0x64] 1 (empty_bus (add_script @ []))) (True, one_kid_bus st) \<and>
     xenbusb_release_confighook (one_kid_bus st) \<noteq> None"
proof -
  obtain st where st: "(bstep script_env)\<^sup>*\<^sup>* (True, attach_begin [0x64] 1 (empty_bus (add_script @ []))) (True, one_kid_bus st)"
    using add_first_reached [of "[]"] by blast
  have "first_kid \<in> set (kids (one_kid_bus st))" "xd_connecting first_kid" by (simp_all add: one_kid_bus_def first_kid_def)
  from connecting_children_counted [OF kids_empty st this] st show ?thesis by blast
qed

text \<open>The driver connects the child, and then attaching ends.\<close>

lemma connect_first:
  assumes "service st = [(type_number XS_READ, [0x31]), (type_number XS_WRITE, [])]"
  shows "\<exists>st'. xenbusb_write_ivar script_env 0 IVAR_STATE 4 (one_kid_bus st) =
    Some (None, (one_kid_bus st')\<lparr>connecting_children := 1, kids := [first_kid\<lparr>xd_state := 4, xd_connecting := False\<rparr>]\<rparr>)"
proof -
  have e: "xse script_env = scripted" "scan_int script_env v = 1" for v by (simp_all add: script_env_def)
  obtain s1 where s1: "xs_read scripted 0 (xd_node first_kid) (str_bytes ''state'') st = Some (Inr [0x31], s1)" "service s1 = [(type_number XS_WRITE, [])]"
    using scripted_read [OF assms, of 0 "xd_node first_kid" "str_bytes ''state''"] by blast
  obtain s2 where s2: "xs_write scripted 0 (xd_node first_kid) (str_bytes ''state'') (text_of script_env 4) s1 = Some (None, s2)"
    using scripted_put [OF s1(2), of 0 "xd_node first_kid" "str_bytes ''state''" "text_of script_env 4"] by blast
  have sc: "xs_scanf scripted (scan_int script_env) 0 (xd_node first_kid) (str_bytes ''state'') st = Some (Inr 1, s1)"
    by (simp add: xs_scanf_def s1(1) e)
  have w: "write_state script_env (xd_node first_kid) 4 s1 = Some (None, s2)"
    by (subst write_state.simps) (simp add: e s2)
  have c: "state_number Closed = 6" "state_number Connected = 4" by (simp_all add: state_number_def state_values_def)
  have f: "find_kid 0 (one_kid_bus st) = Some first_kid" by (simp add: find_kid_def one_kid_bus_def first_kid_def)
  have k: "xd_state first_kid = 1" "xd_connecting first_kid" "xd_dev first_kid = 0" by (simp_all add: first_kid_def)
  have "xenbusb_write_ivar script_env 0 IVAR_STATE 4 (one_kid_bus st) =
    Some (None, (one_kid_bus s2)\<lparr>connecting_children := 1, kids := [first_kid\<lparr>xd_state := 4, xd_connecting := False\<rparr>]\<rparr>)"
    by (simp add: xenbusb_write_ivar_def set_state_def f k c e(1) sc w Let_def)
      (simp add: one_kid_bus_def sc w e(1) update_kid_def k xenbusb_release_confighook_def Let_def attach_begin_def c)
  then show ?thesis by blast
qed

text \<open>A driver that connects the child, after which attaching ends and the boot goes on.\<close>

theorem boot_waits_for_children_witness:
  "\<exists>b b'. bstep script_env (True, b) (False, b') \<and> attach_active b \<and> \<not> attach_active b' \<and>
     kids b' \<noteq> [] \<and> list_all (\<lambda>c. \<not> xd_connecting c) (kids b')"
proof -
  obtain st where st: "(bstep script_env)\<^sup>*\<^sup>* (True, attach_begin [0x64] 1 (empty_bus (add_script @
      [(type_number XS_READ, [0x31]), (type_number XS_WRITE, [])]))) (True, one_kid_bus st)"
    "service st = [(type_number XS_READ, [0x31]), (type_number XS_WRITE, [])]" using add_first_reached by blast
  obtain st' where "xenbusb_write_ivar script_env 0 IVAR_STATE 4 (one_kid_bus st) =
    Some (None, (one_kid_bus st')\<lparr>connecting_children := 1, kids := [first_kid\<lparr>xd_state := 4, xd_connecting := False\<rparr>]\<rparr>)"
    using connect_first [OF st(2)] by blast
  moreover define b where "b = (one_kid_bus st')\<lparr>connecting_children := 1, kids := [first_kid\<lparr>xd_state := 4, xd_connecting := False\<rparr>]\<rparr>"
  ultimately have "bstep script_env (True, one_kid_bus st) (True, b)" using bstep.state by metis
  then have reach: "(bstep script_env)\<^sup>*\<^sup>* (True, attach_begin [0x64] 1 (empty_bus (add_script @
      [(type_number XS_READ, [0x31]), (type_number XS_WRITE, [])]))) (True, b)" using st(1) by (metis rtranclp.rtrancl_into_rtrancl)
  define b' where "b' = b\<lparr>connecting_children := 0, attach_active := False, hook_held := False\<rparr>"
  have act: "attach_active b" "\<not> attach_active b'" by (simp_all add: b_def b'_def one_kid_bus_def attach_begin_def)
  have "xenbusb_release_confighook b = Some b'"
    using act(1) by (simp add: xenbusb_release_confighook_def Let_def b'_def) (simp add: b_def)
  then have fin: "bstep script_env (True, b) (False, b')" by (rule bstep.finish)
  have "kids b' \<noteq> []" by (simp add: b'_def b_def)
  then show ?thesis using boot_waits_for_children [OF kids_empty reach fin act] fin act by blast
qed

theorem vanished_child_blocks_boot_witness:
  "\<exists>b b1. first_kid \<in> set (kids b) \<and> xenbusb_verify_device script_env first_kid b = Some b1 \<and> kids b1 = [] \<and> attach_active b1"
proof -
  obtain st where st: "(bstep script_env)\<^sup>*\<^sup>* (True, attach_begin [0x64] 1 (empty_bus (add_script @
      [(type_number XS_ERROR, [])]))) (True, one_kid_bus st)" "service st = [(type_number XS_ERROR, [])]"
    using add_first_reached by blast
  have e: "xse script_env = scripted" by (simp add: script_env_def)
  obtain s1 where s1: "xs_exists scripted 0 (xd_node first_kid) [] st = Some (False, s1)"
    using scripted_missing [OF st(2)] by blast
  have f: "find_watch scripted tok no_watches = None" for tok by (simp add: find_watch_def no_watches_def)
  have u: "unregister script_env w n b = Some b" if "wlist b = no_watches" for w n and b :: "(u32 \<times> u8 list) list xbus"
    using that by (simp add: unregister_def xs_unregister_watch_def e f split: option.split)
  have w: "wlist (one_kid_bus s1) = no_watches" for s1 by (simp add: one_kid_bus_def attach_begin_def empty_bus_def)
  have sc: "store (one_kid_bus st) = st" "(one_kid_bus st)\<lparr>store := s1\<rparr> = one_kid_bus s1" by (simp_all add: one_kid_bus_def)
  let ?b1 = "(one_kid_bus s1)\<lparr>kids := []\<rparr>"
  have k: "filter (\<lambda>k. xd_dev k \<noteq> xd_dev first_kid) (kids (one_kid_bus u)) = []" for u by (simp add: one_kid_bus_def)
  have v: "xenbusb_verify_device script_env first_kid (one_kid_bus st) = Some ?b1"
    by (simp add: xenbusb_verify_device_def e sc s1 Let_def xenbusb_delete_child_def xenbusb_free_child_ivars_def u w k)
  have h: "first_kid \<in> set (kids (one_kid_bus st))" "xd_connecting first_kid" "attach_active (one_kid_bus st)"
    by (simp_all add: one_kid_bus_def first_kid_def attach_begin_def)
  have x: "xs_exists (xse script_env) 0 (xd_node first_kid) [] (store (one_kid_bus st)) = Some (False, s1)" using s1 by (simp add: e sc)
  have "attach_active ?b1"
    using vanished_child_blocks_boot [OF kids_empty st(1) h x v rtranclp.rtrancl_refl] .
  then show ?thesis using h(1) v by (intro exI [of _ "one_kid_bus st"] exI [of _ ?b1]) simp
qed

theorem state_event_not_read_witness:
  "xenbusb_local_watch_cb script_env 0 (xd_node first_kid @ str_bytes ''/state'') (one_kid_bus (script_state [])) = Some (one_kid_bus (script_state []))"
  by (rule state_event_not_read) (simp add: find_kid_def one_kid_bus_def first_kid_def)

end
