(* ===== verification/Spec2Isabelle.thy ===== *)
theory Spec2Isabelle
  imports Mmu PdcString PdcCtype PdcStrtol PdcSort PdcStdlib PdcStdio PdcPrint FastLz Ioapic Smp Boot Cpu AcpiOs TinyPrintf
    PdcUchar PdcWchar PdcWctype PdcScan PdcFile XenGrant XenEvtchn XenStore XenBus
begin

text \<open>
  nopOS is a small x86-64 kernel: a boot loader unpacks the kernel image (fastlz/) and passes the
  memory map; \<open>premain\<close> (loader.cc) reads the map, sets up the logger, the interrupt table, ACPI, the
  processor structure and the other processors, and calls \<open>main\<close>. Under it lie page tables
  (pagetable.cc), the local and I/O APIC drivers (apic.cc, ioapic.cc), PCI configuration (pci.cc),
  the serial console (console.cc) and a C library (pdclib/), whose file operations
  (pdclib\_platform/) are again the serial console. This library models these parts and proves what
  makes them correct, or states exactly where they are not.

  \<^bold>\<open>Conventions.\<close> Machine integers are words of their width; sums and shifts wrap as in the code. A
  pointer into memory is an address in a partial byte memory (Prelude), or an offset where only one
  object is involved. None is a fault, an abort, or a loop that does not end; loops that need not
  end are \<open>partial_function (option)\<close>, so no fuel is used anywhere, and properties that claim a
  result state it as Some. Hardware and code outside the repository are parameters or explicit device states
  (the CPUID instruction, the line status of the UART, the registers of the APICs, the memory that
  ACPI tables lie in).

  \<^bold>\<open>Memory management.\<close> Mmu models pagetable.cc, pagetable.hh and memory.cc: the bit fields of the four
  kinds of table entries, \<open>vaddr\<close>, the page allocator, \<open>map\<close> and \<open>break_2m\<close>. Its invariant
  \<open>table_wf\<close> says that the entries form a tree of allocated frames; \<open>x86_walk\<close> is the processor's
  translation, the specification of \<open>map\<close>.

  \<^bold>\<open>Processors and interrupts.\<close> Spinlock is the lock (spinlock.cc) as a step relation over any number of processors;
  the locale \<open>lock_protocol\<close> states what a client needs and is interpreted on it. Ioapic proves, inside
  that locale, that interleaved register writes act like atomic ones. Apic has both local APIC
  drivers; the locale \<open>ipi_driver\<close> is the contract of the abstract class, and both drivers are
  interpretations of it. Smp (smp.cc) uses that contract for waking the processors, parses the
  MADT from bytes, and treats the counter on which the processors meet as a step relation. Cpuid
  (cpuid.cc, xen.cc) reads the features and chooses the APIC driver, mapping its registers through Mmu.
  Cpu (exceptions.cc, arch-cpu.hh) has the interrupt gates, the task state segment, the control
  registers and the table of handlers; \<open>deliver\<close> is the processor's side, so that its properties span
  gate, descriptor and stack.

  \<^bold>\<open>Boot and devices.\<close> FastLz is the compressor and decompressor of the kernel image, both levels.
  Boot walks the memory map (arch-setup.cc). PciConfig is the configuration space; AcpiOs is
  everything the kernel gives to ACPICA (acpi.cc): allocator, mapping, handlers, ports, memory, PCI.
  Serial is the UART driver, with the proof that it refines the console that PdcStdio assumes.
  TinyPrintf is the kernel's formatted output with its 12-byte buffer, and the logger.

  \<^bold>\<open>The C library.\<close> PdcString, PdcCtype, PdcStrtol, PdcSort, PdcStdlib, PdcStdio and PdcPrint model
  the functions of string.h, ctype.h and stdlib.h, the buffered streams over any device (the locale \<open>stdio_device\<close>, interpreted on
  the kernel's console), and formatted output, each function with its loops and its errors. PdcScan is formatted input,
  from a string and from a stream, and reads back what PdcPrint writes. PdcFile opens, closes and reopens streams: the
  streams are linked through a store of addresses, so that freed streams and dangling links are visible.
  PdcCodec has the three codecs (ASCII, Latin-1, UTF-8); the locale \<open>codec\<close> is what a converter relies on, and all
  three are interpretations of it. PdcUchar builds the restartable conversions on them, PdcWchar the wide strings, shown
  equal to the byte functions on the same contents, and PdcWctype the wide character classes over any table.

  \<^bold>\<open>Drivers for Xen.\<close> They are in the repository, but not in the build of the kernel. XenGrant (xen/gnttab.cc) is the
  grant table: a free list threaded through the entries of the table's frames. The locale \<open>ref_store\<close> states what
  following a list needs of the entries; the invariant of the step relation \<open>gstep\<close> is that each reference is free, in a private
  list or owned, and in one place only. XenEvtchn (xen/evtchn.cc) binds event channels to interrupt numbers, delivers them and
  masks them; the invariant of \<open>estep\<close> is that the tables agree. XenStore (xen/xenstore/xenstore.cc) has the two byte rings shared with
  the XenStore service. The locale \<open>byte_channel\<close> says that a ring is a queue of bytes, for any interleaving of
  both sides; it is interpreted on the rings with their wrapping 32-bit indexes, and messages, requests, transactions and watches
  are built on it. XenBus (xen/xenbus/) turns the devices that appear in the XenStore into children of a bus, with the
  requests and watches of XenStore; the framework that attaches drivers is a parameter. The account of the step relation \<open>bstep\<close> shows when
  the boot, which waits for connecting devices, goes on, and when it never does.

  \<^bold>\<open>Interleaving.\<close> The step relations interleave single memory accesses under sequential
  consistency; the lock operations are full barriers on x86.

  \<^bold>\<open>Not modelled.\<close> The assembly (boot.S, boot16.S, boot32.S, entry.S, entry-xen.S); the shell loop of main.cc
  and its line editor (3rdparty/linenoise); ACPICA itself (acpica/, a vendored interpreter, of which
  acpi.cc calls a dozen entry points); the locale data generated from the Unicode tables; the C library's locale
  stubs, its locks for a build without threads, and its signals; the clock interface, which nothing implements; the old copies of code that the build leaves out (cruntime.c, print.c, isa-serial.cc).
\<close>

end
